(* ===== verification/Prelude.thy ===== *)
theory Prelude
  imports Main "HOL-Library.Word"
begin

unbundle bit_operations_syntax

text \<open>
  Shared vocabulary of the development: the machine-integer type synonyms, the error codes of
  src/src/core/libxr_def.hpp, block writes into byte arrays (\<open>blit\<close>, the list view of a
  memory copy), fixed-width slots of a byte array (\<open>chunk\<close>, \<open>chunks\<close>) and the arithmetic
  of circular indices, with the rewrite rules the component theories use.
\<close>

named_theorems blit_simps \<open>reading back after a block write\<close>
named_theorems ring_simps \<open>circular index arithmetic\<close>

type_synonym u8 = "8 word"
type_synonym u16 = "16 word"
type_synonym u32 = "32 word"
type_synonym u64 = "64 word"

lemma u8_bit_high: "8 \<le> k \<Longrightarrow> bit (v :: u8) k = False"
  using bit_imp_le_length [of v k] by auto

lemma unat_of_nat_small: "n < 2 ^ LENGTH('a) \<Longrightarrow> unat (of_nat n :: 'a::len word) = n"
  by (simp add: unat_of_nat)

lemma unat_ucast_up:
  fixes x :: "'b::len word"
  assumes "LENGTH('b) \<le> LENGTH('a)" shows "unat (ucast x :: 'a::len word) = unat x"
proof -
  have "unat x < 2 ^ LENGTH('a)"
    using unsigned_less [of x] assms by (meson one_le_numeral order_less_le_trans power_increasing)
  then show ?thesis by (simp add: unsigned_ucast_eq take_bit_nat_eq_self)
qed

text \<open>The low-byte mask \<open>0xff\<close>; the simplifier reads the bits of a word literal off the
  integer literal.\<close>

lemma bit_255 [simp]: "bit (255 :: int) n \<longleftrightarrow> n < 8"
proof -
  have "(255 :: int) = mask 8" by (simp add: mask_eq_exp_minus_1)
  then show ?thesis by (simp only: bit_mask_iff possible_bit_int) simp
qed

section \<open>Object representation of words\<close>

text \<open>\<open>word_bytes n w\<close> are the \<open>n\<close> bytes of a word on a little-endian target, lowest first;
  \<open>le_word\<close> reads them back, as \<open>memcpy\<close> into an integer variable does.\<close>

definition word_bytes :: "nat \<Rightarrow> 'a::len word \<Rightarrow> u8 list" where
  "word_bytes n w = map (\<lambda>i. ucast (drop_bit (8 * i) w)) [0..<n]"

fun le_word :: "u8 list \<Rightarrow> 'a::len word" where
  "le_word [] = 0"
| "le_word (b # bs) = ucast b OR push_bit 8 (le_word bs)"

lemma length_word_bytes [simp]: "length (word_bytes n w) = n"
  by (simp add: word_bytes_def)

lemma bit_le_word:
  "bit (le_word bs :: 'a::len word) n \<longleftrightarrow>
    n < LENGTH('a) \<and> n div 8 < length bs \<and> bit (bs ! (n div 8)) (n mod 8)"
proof (induction bs arbitrary: n)
  case Nil
  then show ?case by simp
next
  case (Cons b bs)
  show ?case
  proof (cases "n < 8")
    case True
    then show ?thesis by (auto simp: bit_simps)
  next
    case False
    then have "n div 8 = Suc ((n - 8) div 8)" "n mod 8 = (n - 8) mod 8"
      by (simp_all add: le_div_geq le_mod_geq)
    then show ?thesis
      using False Cons.IH [of "n - 8"] by (auto simp: bit_simps u8_bit_high)
  qed
qed

lemma le_word_bytes: "LENGTH('a) \<le> 8 * n \<Longrightarrow> le_word (word_bytes n w) = (w :: 'a::len word)"
  by (rule bit_word_eqI) (auto simp: bit_le_word word_bytes_def bit_simps)

lemma word_bytes_le:
  assumes "8 * n \<le> LENGTH('a)" and "length bs = n"
  shows "word_bytes n (le_word bs :: 'a::len word) = bs"
proof (rule nth_equalityI)
  fix i assume "i < length (word_bytes n (le_word bs :: 'a word))"
  then have i: "i < n" by simp
  then have "8 * i + 8 \<le> LENGTH('a)" using assms(1) by linarith
  then show "word_bytes n (le_word bs :: 'a word) ! i = bs ! i"
    using i assms(2)
    by (intro bit_word_eqI) (auto simp: word_bytes_def bit_simps bit_le_word)
qed (simp add: assms)

section \<open>Error codes\<close>

datatype error_code =
    PENDING | OK | FAILED | INIT_ERR | ARG_ERR | STATE_ERR | SIZE_ERR | CHECK_ERR
  | NOT_SUPPORT | NOT_FOUND | NO_RESPONSE | NO_MEM | NO_BUFF | TIMEOUT | EMPTY | FULL
  | BUSY | PTR_NULL | OUT_OF_RANGE

fun error_code_value :: "error_code \<Rightarrow> int" where
  "error_code_value PENDING = 1"
| "error_code_value OK = 0"
| "error_code_value FAILED = -1"
| "error_code_value INIT_ERR = -2"
| "error_code_value ARG_ERR = -3"
| "error_code_value STATE_ERR = -4"
| "error_code_value SIZE_ERR = -5"
| "error_code_value CHECK_ERR = -6"
| "error_code_value NOT_SUPPORT = -7"
| "error_code_value NOT_FOUND = -8"
| "error_code_value NO_RESPONSE = -9"
| "error_code_value NO_MEM = -10"
| "error_code_value NO_BUFF = -11"
| "error_code_value TIMEOUT = -12"
| "error_code_value EMPTY = -13"
| "error_code_value FULL = -14"
| "error_code_value BUSY = -15"
| "error_code_value PTR_NULL = -16"
| "error_code_value OUT_OF_RANGE = -17"

lemma error_code_value_inj: "error_code_value a = error_code_value b \<Longrightarrow> a = b"
  by (cases a; cases b) simp_all

text \<open>Error codes compare by their underlying value, as the scoped enumeration does.\<close>

instantiation error_code :: linorder
begin

definition less_eq_error_code :: "error_code \<Rightarrow> error_code \<Rightarrow> bool" where
  "less_eq_error_code a b \<longleftrightarrow> error_code_value a \<le> error_code_value b"

definition less_error_code :: "error_code \<Rightarrow> error_code \<Rightarrow> bool" where
  "less_error_code a b \<longleftrightarrow> error_code_value a < error_code_value b"

instance
  by standard
    (auto simp: less_eq_error_code_def less_error_code_def intro: error_code_value_inj)

end

section \<open>Block writes into an array\<close>

text \<open>\<open>blit dst off src\<close> is \<open>dst\<close> with \<open>src\<close> written at offset \<open>off\<close>.\<close>

definition blit :: "'a list \<Rightarrow> nat \<Rightarrow> 'a list \<Rightarrow> 'a list" where
  "blit dst off src = take off dst @ src @ drop (off + length src) dst"

lemma length_blit [simp]:
  "off + length src \<le> length dst \<Longrightarrow> length (blit dst off src) = length dst"
  by (simp add: blit_def)

lemma blit_Nil [simp]: "blit dst off [] = dst"
  by (simp add: blit_def)

lemma nth_blit:
  "off + length src \<le> length dst \<Longrightarrow> i < length dst \<Longrightarrow>
   blit dst off src ! i = (if off \<le> i \<and> i < off + length src then src ! (i - off) else dst ! i)"
  by (auto simp: blit_def nth_append min_def)

lemma take_drop_blit_same [blit_simps]:
  "off + length src \<le> length dst \<Longrightarrow> take (length src) (drop off (blit dst off src)) = src"
  by (simp add: blit_def)

lemma take_drop_blit_inside [blit_simps]:
  "off + length src \<le> length dst \<Longrightarrow> off \<le> i \<Longrightarrow> i + n \<le> off + length src \<Longrightarrow>
   take n (drop i (blit dst off src)) = take n (drop (i - off) src)"
  by (rule nth_equalityI) (auto simp: nth_blit)

lemma take_drop_blit_outside [blit_simps]:
  assumes "off + length src \<le> length dst" and "i + n \<le> off \<or> off + length src \<le> i"
  shows "take n (drop i (blit dst off src)) = take n (drop i dst)"
proof (rule nth_equalityI)
  show "length (take n (drop i (blit dst off src))) = length (take n (drop i dst))"
    using assms by simp
next
  fix k assume "k < length (take n (drop i (blit dst off src)))"
  then have k: "k < n" "i + k < length dst" using assms(1) by auto
  then show "take n (drop i (blit dst off src)) ! k = take n (drop i dst) ! k"
    using assms by (auto simp: nth_blit)
qed

section \<open>Fixed-width slots\<close>

text \<open>\<open>chunk w i bs\<close> is the \<open>i\<close>-th slot of width \<open>w\<close> of the byte array \<open>bs\<close>;
  \<open>chunks w n bs\<close> lists its first \<open>n\<close> slots.\<close>

definition chunk :: "nat \<Rightarrow> nat \<Rightarrow> 'a list \<Rightarrow> 'a list" where
  "chunk w i bs = take w (drop (i * w) bs)"

definition chunks :: "nat \<Rightarrow> nat \<Rightarrow> 'a list \<Rightarrow> 'a list list" where
  "chunks w n bs = map (\<lambda>i. chunk w i bs) [0..<n]"

lemma slot_le: "i < n \<Longrightarrow> i * w + w \<le> n * (w :: nat)"
  by (metis Suc_leI add.commute mult_Suc mult_le_mono1)

lemma length_chunks [simp]: "length (chunks w n bs) = n"
  by (simp add: chunks_def)

lemma nth_chunks [simp]: "i < n \<Longrightarrow> chunks w n bs ! i = chunk w i bs"
  by (simp add: chunks_def)

lemma chunk_0 [simp]: "chunk w 0 bs = take w bs"
  by (simp add: chunk_def)

lemma length_chunk: "i < n \<Longrightarrow> n * w \<le> length bs \<Longrightarrow> length (chunk w i bs) = w"
  using slot_le [of i n w] by (simp add: chunk_def)

lemma chunk_take:
  assumes "i < n" shows "chunk w i (take (n * w) bs) = chunk w i bs"
proof -
  have "w \<le> n * w - i * w" using slot_le [OF assms, of w] by linarith
  then show ?thesis by (simp add: chunk_def drop_take min_def)
qed

lemma chunk_drop: "chunk w i (drop (n * w) bs) = chunk w (n + i) bs"
  by (simp add: chunk_def add_mult_distrib add.commute)

lemma chunk_blit:
  assumes "length src = n * w" and "(t + n) * w \<le> length arr" and "j * w + w \<le> length arr"
  shows "chunk w j (blit arr (t * w) src) =
    (if t \<le> j \<and> j < t + n then chunk w (j - t) src else chunk w j arr)"
proof (cases "t \<le> j \<and> j < t + n")
  case True
  then have le: "t * w \<le> j * w" "j * w + w \<le> t * w + n * w"
    using slot_le [of j "t + n" w] by (auto simp: add_mult_distrib)
  have "j * w - t * w = (j - t) * w" by (simp add: diff_mult_distrib)
  then show ?thesis
    using True le assms by (simp add: chunk_def take_drop_blit_inside add_mult_distrib)
next
  case False
  then have "j * w + w \<le> t * w \<or> t * w + n * w \<le> j * w"
  proof (cases "j < t")
    case True
    then show ?thesis using slot_le [of j t w] by simp
  next
    case False
    with \<open>\<not> (t \<le> j \<and> j < t + n)\<close> have "t + n \<le> j" by simp
    then have "(t + n) * w \<le> j * w" by (rule mult_le_mono1)
    then show ?thesis by (simp add: add_mult_distrib)
  qed
  then have "take w (drop (j * w) (blit arr (t * w) src)) = take w (drop (j * w) arr)"
    using assms by (intro take_drop_blit_outside) (auto simp: add_mult_distrib)
  then show ?thesis using False by (auto simp: chunk_def)
qed

lemma concat_chunks: "n * w \<le> length bs \<Longrightarrow> concat (chunks w n bs) = take (n * w) bs"
proof (induction n)
  case 0
  then show ?case by (simp add: chunks_def)
next
  case (Suc n)
  have "take (Suc n * w) bs = take (n * w) bs @ take w (drop (n * w) bs)"
    by (metis add.commute mult_Suc take_add)
  with Suc show ?case by (simp add: chunks_def chunk_def)
qed

section \<open>Circular indices\<close>

lemma ring_add_mod [ring_simps]:
  "(h :: nat) < L \<Longrightarrow> k \<le> L \<Longrightarrow> (h + k) mod L = (if h + k < L then h + k else h + k - L)"
  by (simp add: mod_if)

lemma ring_inj:
  "(h :: nat) < L \<Longrightarrow> i < L \<Longrightarrow> j < L \<Longrightarrow> (h + i) mod L = (h + j) mod L \<longleftrightarrow> i = j"
  by (auto simp: ring_add_mod split: if_splits)

lemma ring_shift: "((h + k) mod L + i) mod L = (h + (k + i)) mod (L :: nat)"
  by (simp add: mod_add_left_eq add.assoc)


lemma ring_offset:
  assumes "(h :: nat) < L" "i < L" "s \<le> L"
  shows "((h + i) mod L + L - (h + s) mod L) mod L = (if i < s then i + L - s else i - s)"
proof -
  have "(h + i) mod L = (if h + i < L then h + i else h + i - L)"
    "(h + s) mod L = (if h + s < L then h + s else h + s - L)"
    using assms by (simp_all add: ring_add_mod)
  moreover have "x mod L = (if x < L then x else x - L)" if "x < L + L" for x
    using that by (auto simp: mod_if)
  ultimately show ?thesis using assms by (simp split: if_splits)
qed

section \<open>Writing to and reading from a ring\<close>

text \<open>\<open>ring_write w L arr t data n\<close> writes the first \<open>n\<close> elements of \<open>data\<close>, of width \<open>w\<close>, into
  the ring \<open>arr\<close> of \<open>L\<close> slots from slot \<open>t\<close> on: one block up to the end of the array, a second
  one from its start. \<open>ring_read\<close> is the converse. The lemmas below describe both slot by
  slot.\<close>

definition ring_write :: "nat \<Rightarrow> nat \<Rightarrow> 'a list \<Rightarrow> nat \<Rightarrow> 'a list \<Rightarrow> nat \<Rightarrow> 'a list" where
  "ring_write w L arr t data n =
     (let first_part = min n (L - t)
      in blit (blit arr (t * w) (take (first_part * w) data)) 0
           (take ((n - first_part) * w) (drop (first_part * w) data)))"

definition ring_read :: "nat \<Rightarrow> nat \<Rightarrow> 'a list \<Rightarrow> nat \<Rightarrow> nat \<Rightarrow> 'a list" where
  "ring_read w L arr h n =
     (let first_part = min n (L - h)
      in take (first_part * w) (drop (h * w) arr) @ take ((n - first_part) * w) arr)"

lemma ring_part_bounds:
  assumes "t < L" and "n \<le> L" and "n * w \<le> length data" and "length arr = L * w"
  defines "p \<equiv> min n (L - t)"
  shows "(t + p) * w \<le> length arr" and "p * w \<le> length data" and "(n - p) * w \<le> length arr"
    and "p * w + (n - p) * w \<le> length data" and "p \<le> n"
proof -
  show "(t + p) * w \<le> length arr" "(n - p) * w \<le> length arr"
    using assms by (auto simp: p_def)
  have "p * w + (n - p) * w = n * w" by (simp add: p_def flip: add_mult_distrib)
  with assms(3) show "p * w + (n - p) * w \<le> length data" by simp
  then show "p * w \<le> length data" by linarith
qed (simp add: p_def)

lemma length_ring_write [simp]:
  assumes "t < L" "n \<le> L" "n * w \<le> length data" "length arr = L * w"
  shows "length (ring_write w L arr t data n) = length arr"
proof -
  define p where "p = min n (L - t)"
  note b = ring_part_bounds [OF assms, folded p_def]
  have "length (blit arr (t * w) (take (p * w) data)) = length arr"
    using b by (simp add: add_mult_distrib)
  then show ?thesis
    unfolding ring_write_def Let_def p_def [symmetric] using b by simp
qed

lemma chunk_ring_write:
  assumes "t < L" "n \<le> L" "n * w \<le> length data" "length arr = L * w" and j: "j < L"
  shows "chunk w j (ring_write w L arr t data n) =
    (let k = (j + L - t) mod L in if k < n then chunk w k data else chunk w j arr)"
proof -
  define p where "p = min n (L - t)"
  note b = ring_part_bounds [OF assms(1-4), folded p_def]
  let ?a1 = "blit arr (t * w) (take (p * w) data)"
  have jw: "j * w + w \<le> length arr" using slot_le [OF j, of w] assms(4) by simp
  have l1: "length ?a1 = length arr" using b by (simp add: add_mult_distrib)
  have c1: "chunk w j ?a1 = (if t \<le> j \<and> j < t + p then chunk w (j - t) data else chunk w j arr)"
    using b jw by (subst chunk_blit [where n = p]) (auto intro!: chunk_take)
  have c2: "chunk w j (blit ?a1 (0 * w) (take ((n - p) * w) (drop (p * w) data))) =
      (if j < n - p then chunk w (p + j) data else chunk w j ?a1)"
    using b jw l1
    by (subst chunk_blit [where n = "n - p"]) (auto simp: chunk_take chunk_drop)
  have "(j + L - t) mod L = (if t \<le> j then j - t else j + L - t)"
    using j assms(1) by (auto simp: mod_if)
  moreover have "ring_write w L arr t data n =
      blit ?a1 (0 * w) (take ((n - p) * w) (drop (p * w) data))"
    by (simp only: ring_write_def Let_def p_def mult_0)
  moreover have "j < n - p \<longleftrightarrow> j + L - t < n" "j < n - p \<longrightarrow> p + j = j + L - t" if "j < t"
    using that assms(1,2) by (auto simp: p_def min_def)
  moreover have "\<not> j < n - p" "t \<le> j \<and> j < t + p \<longleftrightarrow> j - t < n" if "t \<le> j"
    using that assms(1,2) j by (auto simp: p_def min_def)
  ultimately show ?thesis
    using c1 c2 by (cases "t \<le> j") (simp_all add: Let_def)
qed

lemma length_ring_read:
  assumes "h < L" "n \<le> L" "length arr = L * w"
  shows "length (ring_read w L arr h n) = n * w"
proof -
  define p where "p = min n (L - h)"
  have "p \<le> n" "h + p \<le> L" "n - p \<le> L" using assms by (auto simp: p_def)
  then have "p * w \<le> length arr - h * w" "(n - p) * w \<le> length arr" "p * w + (n - p) * w = n * w"
    using mult_le_mono1 [of "h + p" L w] assms(3)
    by (simp_all add: add_mult_distrib flip: add_mult_distrib [of p "n - p"])
  then show ?thesis
    unfolding ring_read_def Let_def p_def [symmetric] by simp
qed

lemma ring_read_slots:
  assumes "h < L" "n \<le> L" "length arr = L * w"
  shows "ring_read w L arr h n = concat (map (\<lambda>i. chunk w ((h + i) mod L) arr) [0..<n])"
proof -
  define p where "p = min n (L - h)"
  have p: "p \<le> n" "h + p \<le> L" using assms(1) by (auto simp: p_def)
  have pw: "p * w \<le> length (drop (h * w) arr)" "(n - p) * w \<le> length arr"
    using mult_le_mono1 [OF p(2), of w] assms
    by (auto simp: add_mult_distrib)
  have first: "take (p * w) (drop (h * w) arr) = concat (map (\<lambda>i. chunk w ((h + i) mod L) arr) [0..<p])"
    unfolding concat_chunks [OF pw(1), symmetric] chunks_def chunk_drop
    using p by (intro arg_cong [where f = concat] map_cong) auto
  have "take ((n - p) * w) arr = concat (map (\<lambda>i. chunk w ((h + (p + i)) mod L) arr) [0..<n - p])"
    unfolding concat_chunks [OF pw(2), symmetric] chunks_def
    using assms by (intro arg_cong [where f = concat] map_cong) (auto simp: p_def min_def mod_if)
  also have "\<dots> = concat (map (\<lambda>i. chunk w ((h + i) mod L) arr) [p..<n])"
  proof -
    have "[p..<n] = map (\<lambda>i. p + i) [0..<n - p]"
      using p by (intro nth_equalityI) auto
    then show ?thesis by (simp add: comp_def add.assoc)
  qed
  finally show ?thesis
    unfolding ring_read_def Let_def p_def [symmetric]
    using first p upt_add_eq_append [of 0 p "n - p"] by simp
qed


section \<open>Checked array accesses\<close>

text \<open>Reading or writing an element outside an array is undefined in the source; here it is
  \<open>None\<close>.\<close>

definition array_get :: "'a list \<Rightarrow> nat \<Rightarrow> 'a option" where
  "array_get xs i = (if i < length xs then Some (xs ! i) else None)"

definition array_set :: "'a list \<Rightarrow> nat \<Rightarrow> 'a \<Rightarrow> 'a list option" where
  "array_set xs i v = (if i < length xs then Some (xs[i := v]) else None)"

lemma array_get_Some [simp]: "i < length xs \<Longrightarrow> array_get xs i = Some (xs ! i)"
  by (simp add: array_get_def)

lemma array_set_Some [simp]: "i < length xs \<Longrightarrow> array_set xs i v = Some (xs[i := v])"
  by (simp add: array_set_def)

section \<open>Mutual exclusion\<close>

text \<open>The mutex of the blocking containers, seen from one thread: locking a mutex that the
  thread holds already never returns.\<close>

definition mutex_lock :: "bool \<Rightarrow> bool option" where
  "mutex_lock held = (if held then None else Some True)"

lemma mutex_lock_free [simp]: "mutex_lock False = Some True"
  by (simp add: mutex_lock_def)

section \<open>Size checks\<close>

datatype size_limit_mode = LIMIT_EQUAL | LIMIT_LESS | LIMIT_MORE | LIMIT_NONE

text \<open>\<open>Assert::SizeLimitCheck\<close> in a debug build; \<open>False\<close> is the fatal error. A release build
  does not check.\<close>

fun size_limit_check :: "size_limit_mode \<Rightarrow> nat \<Rightarrow> nat \<Rightarrow> bool" where
  "size_limit_check LIMIT_EQUAL limit n = (limit = n)"
| "size_limit_check LIMIT_MORE limit n = (limit \<le> n)"
| "size_limit_check LIMIT_LESS limit n = (n \<le> limit)"
| "size_limit_check LIMIT_NONE limit n = True"

end
