(* ===== verification/Memory.thy ===== *)
theory Memory
  imports Prelude
begin

unbundle bit_operations_syntax

text \<open>
  The memory routines \<open>FastCopy\<close>, \<open>FastSet\<close> and \<open>FastCmp\<close> of
  src/src/core/libxr_mem.cpp, loop by loop, and their equivalence with the byte-wise reference
  operations. Memory is a function from addresses to bytes. A load or store of a \<open>w\<close>-byte
  word moves its \<open>w\<close> bytes at once, so the model does not depend on the byte order of the
  target. \<open>align\<close> is the constant \<open>LibXR::ALIGN_SIZE\<close> (8 or 4); the template branches
  \<open>if constexpr (ALIGN_SIZE == 8)\<close> are ordinary conditionals on it.
\<close>

type_synonym mem = "nat \<Rightarrow> u8"

definition load :: "mem \<Rightarrow> nat \<Rightarrow> nat \<Rightarrow> u8 list" where
  "load m a n = map (\<lambda>i. m (a + i)) [0..<n]"

definition store :: "mem \<Rightarrow> nat \<Rightarrow> u8 list \<Rightarrow> mem" where
  "store m a bs = (\<lambda>x. if a \<le> x \<and> x < a + length bs then bs ! (x - a) else m x)"

section \<open>FastCopy\<close>

text \<open>The cursor of a copy: memory, destination, source and remaining size.\<close>

record copy_state =
  cs_mem :: mem
  cs_d :: nat
  cs_s :: nat
  cs_size :: nat

text \<open>\<open>*dw++ = *sw++; size -= w\<close>: move one \<open>w\<close>-byte word.\<close>

definition copy_word :: "nat \<Rightarrow> copy_state \<Rightarrow> copy_state" where
  "copy_word w c = c\<lparr>cs_mem := store (cs_mem c) (cs_d c) (load (cs_mem c) (cs_s c) w),
     cs_d := cs_d c + w, cs_s := cs_s c + w, cs_size := cs_size c - w\<rparr>"

text \<open>\<open>while (head--) { *d++ = *s++; --size; }\<close>\<close>

fun copy_head :: "nat \<Rightarrow> copy_state \<Rightarrow> copy_state" where
  "copy_head 0 c = c"
| "copy_head (Suc head) c = copy_head head (copy_word 1 c)"

text \<open>\<open>dw[0] = sw[0]; ...; dw[7] = sw[7]; dw += 8; sw += 8; size -= 8 * w\<close>\<close>

definition copy_unrolled :: "nat \<Rightarrow> copy_state \<Rightarrow> copy_state" where
  "copy_unrolled w c =
     (let d = cs_d c; s = cs_s c;
          put = (\<lambda>m i. store m (d + i * w) (load m (s + i * w) w));
          m = put (put (put (put (put (put (put (put (cs_mem c) 0) 1) 2) 3) 4) 5) 6) 7
      in c\<lparr>cs_mem := m, cs_d := d + 8 * w, cs_s := s + 8 * w, cs_size := cs_size c - 8 * w\<rparr>)"

text \<open>The burst loop, \<open>while (size >= 8 * w)\<close>, and the word loop, \<open>while (size >= w)\<close>.\<close>

function copy_burst :: "nat \<Rightarrow> copy_state \<Rightarrow> copy_state" where
  "copy_burst w c =
     (if 0 < w \<and> 8 * w \<le> cs_size c then copy_burst w (copy_unrolled w c) else c)"
  by pat_completeness auto
termination
  by (relation "measure (\<lambda>(w, c). cs_size c)") (auto simp: copy_unrolled_def Let_def)

function copy_words :: "nat \<Rightarrow> copy_state \<Rightarrow> copy_state" where
  "copy_words w c =
     (if 0 < w \<and> w \<le> cs_size c then copy_words w (copy_word w c) else c)"
  by pat_completeness auto
termination
  by (relation "measure (\<lambda>(w, c). cs_size c)") (auto simp: copy_word_def)

declare copy_burst.simps [simp del] copy_words.simps [simp del]

text \<open>\<open>while ((d & 3) && size)\<close>: single bytes up to a four-byte boundary.\<close>

function copy_to_align4 :: "copy_state \<Rightarrow> copy_state" where
  "copy_to_align4 c =
     (if cs_d c AND 3 \<noteq> 0 \<and> 0 < cs_size c then copy_to_align4 (copy_word 1 c) else c)"
  by pat_completeness auto
termination
  by (relation "measure cs_size") (auto simp: copy_word_def)

declare copy_to_align4.simps [simp del]

text \<open>Source and destination have the same offset from alignment.\<close>

definition copy_same_offset :: "nat \<Rightarrow> copy_state \<Rightarrow> copy_state" where
  "copy_same_offset align c =
     (let d_offset = cs_d c AND (align - 1);
          c1 = (if d_offset \<noteq> 0
                then copy_head (min (align - d_offset) (cs_size c)) c
                else c)
      in if align = 8 then copy_words 8 (copy_burst 8 c1)
         else copy_words 4 (copy_burst 4 c1))"

text \<open>The two-byte branch: \<open>if (d & 1) copy one byte; 16-byte bursts; two-byte words\<close>.\<close>

definition copy_by_2 :: "copy_state \<Rightarrow> copy_state" where
  "copy_by_2 c =
     copy_words 2 (copy_burst 2 (if cs_d c AND 1 \<noteq> 0 then copy_word 1 c else c))"

text \<open>Different offsets: the widest word the address difference allows.\<close>

definition copy_shifted :: "nat \<Rightarrow> copy_state \<Rightarrow> copy_state" where
  "copy_shifted align c =
     (let addr_diff = int (cs_s c) - int (cs_d c)
      in if align = 8 then
           (if addr_diff AND 3 = 0 \<and> 0 < cs_size c
            then copy_words 4 (copy_burst 4 (copy_to_align4 c))
            else if addr_diff AND 1 = 0 \<and> 0 < cs_size c then copy_by_2 c
            else c)
         else if addr_diff AND 1 = 0 \<and> 0 < cs_size c then copy_by_2 c
         else c)"

definition fast_copy :: "nat \<Rightarrow> mem \<Rightarrow> nat \<Rightarrow> nat \<Rightarrow> nat \<Rightarrow> mem" where
  "fast_copy align m d s n =
     (let c = \<lparr>cs_mem = m, cs_d = d, cs_s = s, cs_size = n\<rparr>;
          c1 = (if d AND (align - 1) = s AND (align - 1) then copy_same_offset align c
                else copy_shifted align c)
      in cs_mem (copy_head (cs_size c1) c1))"

subsection \<open>The reference copy and the cursor invariant\<close>

definition mem_copy :: "mem \<Rightarrow> nat \<Rightarrow> nat \<Rightarrow> nat \<Rightarrow> mem" where
  "mem_copy m d s n = (\<lambda>x. if d \<le> x \<and> x < d + n then m (s + (x - d)) else m x)"

text \<open>A forward copy is safe when the source does not start inside the bytes already
  written: the destination is at or below the source, or lies past its end.\<close>

definition forward_safe :: "nat \<Rightarrow> nat \<Rightarrow> nat \<Rightarrow> bool" where
  "forward_safe d s n \<longleftrightarrow> d \<le> s \<or> s + n \<le> d"

text \<open>\<open>copied m d s n c\<close>: the cursor \<open>c\<close> is a partial copy of \<open>n\<close> bytes from \<open>s\<close> to
  \<open>d\<close> that started in memory \<open>m\<close>.\<close>

definition copied :: "mem \<Rightarrow> nat \<Rightarrow> nat \<Rightarrow> nat \<Rightarrow> copy_state \<Rightarrow> bool" where
  "copied m d s n c \<longleftrightarrow> cs_size c \<le> n \<and>
     cs_d c = d + (n - cs_size c) \<and> cs_s c = s + (n - cs_size c) \<and>
     cs_mem c = mem_copy m d s (n - cs_size c)"

lemma store_load: "store m d (load m s n) = mem_copy m d s n"
  by (auto simp: store_def load_def mem_copy_def fun_eq_iff)

lemma mem_copy_0 [simp]: "mem_copy m d s 0 = m"
  by (auto simp: mem_copy_def fun_eq_iff)

lemma mem_copy_step:
  assumes "forward_safe d s n" and "k + w \<le> n"
  shows "mem_copy (mem_copy m d s k) (d + k) (s + k) w = mem_copy m d s (k + w)"
  using assms by (auto simp: mem_copy_def forward_safe_def fun_eq_iff)

lemma copied_start: "copied m d s n \<lparr>cs_mem = m, cs_d = d, cs_s = s, cs_size = n\<rparr>"
  by (simp add: copied_def)

lemma copied_word:
  assumes "forward_safe d s n" and "copied m d s n c" and "w \<le> cs_size c"
  shows "copied m d s n (copy_word w c)"
proof -
  define k where "k = n - cs_size c"
  have k: "k + w \<le> n" "n - (cs_size c - w) = k + w" "cs_size c - w \<le> n"
    using assms(2,3) by (auto simp: k_def copied_def)
  have c: "cs_d c = d + k" "cs_s c = s + k" "cs_mem c = mem_copy m d s k"
    using assms(2) by (auto simp: k_def copied_def)
  show ?thesis
    using k by (simp add: copied_def copy_word_def store_load c mem_copy_step [OF assms(1)])
qed

lemma copy_unrolled_eq:
  "copy_unrolled w c = (copy_word w ^^ 8) c"
  by (simp add: copy_unrolled_def copy_word_def Let_def eval_nat_numeral add.assoc)

lemma copy_word_size: "cs_size (copy_word w c) = cs_size c - w"
  by (simp add: copy_word_def)

lemma copied_words_pow:
  assumes "forward_safe d s n" and "copied m d s n c" and "k * w \<le> cs_size c"
  shows "copied m d s n ((copy_word w ^^ k) c) \<and>
    cs_size ((copy_word w ^^ k) c) = cs_size c - k * w"
  using assms(3)
proof (induction k)
  case 0
  then show ?case using assms(2) by simp
next
  case (Suc k)
  then have "copied m d s n ((copy_word w ^^ k) c)"
    and "cs_size ((copy_word w ^^ k) c) = cs_size c - k * w" by simp_all
  with Suc.prems show ?case
    using copied_word [OF assms(1), of m "(copy_word w ^^ k) c" w]
    by (simp add: copy_word_size)
qed

lemma copied_burst:
  "forward_safe d s n \<Longrightarrow> copied m d s n c \<Longrightarrow> copied m d s n (copy_burst w c)"
proof (induction w c rule: copy_burst.induct)
  case (1 w c)
  then show ?case
    using copied_words_pow [of d s n m c 8 w]
    by (subst copy_burst.simps) (auto simp: copy_unrolled_eq)
qed

lemma copied_words:
  "forward_safe d s n \<Longrightarrow> copied m d s n c \<Longrightarrow> copied m d s n (copy_words w c)"
proof (induction w c rule: copy_words.induct)
  case (1 w c)
  then show ?case
    by (subst copy_words.simps) (auto simp: copied_word)
qed

lemma copied_to_align4:
  "forward_safe d s n \<Longrightarrow> copied m d s n c \<Longrightarrow> copied m d s n (copy_to_align4 c)"
proof (induction c rule: copy_to_align4.induct)
  case (1 c)
  then show ?case
    by (subst copy_to_align4.simps) (auto simp: copied_word)
qed

lemma copied_head:
  "forward_safe d s n \<Longrightarrow> copied m d s n c \<Longrightarrow> k \<le> cs_size c \<Longrightarrow>
   copied m d s n (copy_head k c) \<and> cs_size (copy_head k c) = cs_size c - k"
proof (induction k arbitrary: c)
  case 0
  then show ?case by simp
next
  case (Suc k)
  have "copied m d s n (copy_word 1 c)" using Suc.prems by (simp add: copied_word)
  moreover have "cs_size (copy_word 1 c) = cs_size c - 1" by (simp add: copy_word_def)
  ultimately show ?case using Suc.IH [of "copy_word 1 c"] Suc.prems by simp
qed

lemmas copied_intros = copied_burst copied_words copied_to_align4 copied_head [THEN conjunct1]

lemma copied_same_offset:
  "forward_safe d s n \<Longrightarrow> copied m d s n c \<Longrightarrow> copied m d s n (copy_same_offset align c)"
  by (auto simp: copy_same_offset_def Let_def intro!: copied_intros)

lemma copied_by_2:
  "forward_safe d s n \<Longrightarrow> copied m d s n c \<Longrightarrow> 0 < cs_size c \<Longrightarrow> copied m d s n (copy_by_2 c)"
  by (auto simp: copy_by_2_def intro!: copied_intros copied_word)

lemma copied_shifted:
  "forward_safe d s n \<Longrightarrow> copied m d s n c \<Longrightarrow> copied m d s n (copy_shifted align c)"
  by (auto simp: copy_shifted_def Let_def intro!: copied_intros copied_by_2)

lemma copied_done: "copied m d s n c \<Longrightarrow> cs_size c = 0 \<Longrightarrow> cs_mem c = mem_copy m d s n"
  by (simp add: copied_def)

lemma fast_copy_eq:
  assumes safe: "forward_safe d s n"
  shows "fast_copy align m d s n = mem_copy m d s n"
proof -
  let ?c = "\<lparr>cs_mem = m, cs_d = d, cs_s = s, cs_size = n\<rparr>"
  define c1 where "c1 = (if d AND (align - 1) = s AND (align - 1)
    then copy_same_offset align ?c
    else copy_shifted align ?c)"
  have "copied m d s n c1"
    by (simp add: c1_def copied_same_offset copied_shifted copied_start safe)
  then have "copied m d s n (copy_head (cs_size c1) c1)" "cs_size (copy_head (cs_size c1) c1) = 0"
    using copied_head [OF safe, of m c1 "cs_size c1"] by simp_all
  moreover have "fast_copy align m d s n = cs_mem (copy_head (cs_size c1) c1)"
    by (simp only: fast_copy_def Let_def c1_def)
  ultimately show ?thesis by (simp add: copied_done)
qed


section \<open>FastSet\<close>

text \<open>The cursor of a fill: memory, destination and remaining size. The fill patterns repeat
  one byte, so the byte order of the object representation does not matter.\<close>

record set_state =
  ss_mem :: mem
  ss_d :: nat
  ss_size :: nat

definition pattern8 :: "u8 \<Rightarrow> u64" where
  "pattern8 v = (let p0 = ucast v; p1 = p0 OR push_bit 8 p0; p2 = p1 OR push_bit 16 p1
                 in p2 OR push_bit 32 p2)"

definition pattern4 :: "u8 \<Rightarrow> u32" where
  "pattern4 v = (let p0 = ucast v; p1 = p0 OR push_bit 8 p0 in p1 OR push_bit 16 p1)"

definition set_bytes :: "u8 list \<Rightarrow> set_state \<Rightarrow> set_state" where
  "set_bytes pat c = c\<lparr>ss_mem := store (ss_mem c) (ss_d c) pat,
     ss_d := ss_d c + length pat, ss_size := ss_size c - length pat\<rparr>"

fun set_head :: "u8 \<Rightarrow> nat \<Rightarrow> set_state \<Rightarrow> set_state" where
  "set_head v 0 c = c"
| "set_head v (Suc head) c = set_head v head (set_bytes [v] c)"

definition set_unrolled :: "u8 list \<Rightarrow> set_state \<Rightarrow> set_state" where
  "set_unrolled pat c =
     (let w = length pat; d = ss_d c; put = (\<lambda>m i. store m (d + i * w) pat);
          m = put (put (put (put (put (put (put (put (ss_mem c) 0) 1) 2) 3) 4) 5) 6) 7
      in c\<lparr>ss_mem := m, ss_d := d + 8 * w, ss_size := ss_size c - 8 * w\<rparr>)"

function set_burst :: "u8 list \<Rightarrow> set_state \<Rightarrow> set_state" where
  "set_burst pat c =
     (if pat \<noteq> [] \<and> 8 * length pat \<le> ss_size c then set_burst pat (set_unrolled pat c) else c)"
  by pat_completeness auto
termination
proof (relation "measure (\<lambda>(pat, c). ss_size c)", goal_cases)
  case (2 pat c)
  then have "0 < length pat" "8 * length pat \<le> ss_size c" by simp_all
  then have "ss_size c - 8 * length pat < ss_size c" by linarith
  then show ?case by (simp add: set_unrolled_def Let_def)
qed simp

function set_words :: "u8 list \<Rightarrow> set_state \<Rightarrow> set_state" where
  "set_words pat c =
     (if pat \<noteq> [] \<and> length pat \<le> ss_size c then set_words pat (set_bytes pat c) else c)"
  by pat_completeness auto
termination
proof (relation "measure (\<lambda>(pat, c). ss_size c)", goal_cases)
  case (2 pat c)
  then have "0 < length pat" "length pat \<le> ss_size c" by simp_all
  then have "ss_size c - length pat < ss_size c" by linarith
  then show ?case by (simp add: set_bytes_def)
qed simp

declare set_burst.simps [simp del] set_words.simps [simp del]

definition fast_set :: "nat \<Rightarrow> mem \<Rightarrow> nat \<Rightarrow> u8 \<Rightarrow> nat \<Rightarrow> mem" where
  "fast_set align m d v n =
     (if n = 0 then m
      else let c = \<lparr>ss_mem = m, ss_d = d, ss_size = n\<rparr>;
               d_offset = d AND (align - 1);
               c1 = (if d_offset \<noteq> 0 then set_head v (min (align - d_offset) n) c else c);
               pat = (if align = 8 then word_bytes 8 (pattern8 v)
                      else word_bytes 4 (pattern4 v));
               c2 = set_words pat (set_burst pat c1)
           in ss_mem (set_head v (ss_size c2) c2))"

subsection \<open>The reference fill and the cursor invariant\<close>

definition mem_set :: "mem \<Rightarrow> nat \<Rightarrow> u8 \<Rightarrow> nat \<Rightarrow> mem" where
  "mem_set m d v n = (\<lambda>x. if d \<le> x \<and> x < d + n then v else m x)"

definition filled :: "mem \<Rightarrow> nat \<Rightarrow> u8 \<Rightarrow> nat \<Rightarrow> set_state \<Rightarrow> bool" where
  "filled m d v n c \<longleftrightarrow> ss_size c \<le> n \<and> ss_d c = d + (n - ss_size c) \<and>
     ss_mem c = mem_set m d v (n - ss_size c)"

lemma mem_set_0 [simp]: "mem_set m d v 0 = m"
  by (auto simp: mem_set_def fun_eq_iff)

lemma store_replicate: "store (mem_set m d v k) (d + k) (replicate w v) = mem_set m d v (k + w)"
  by (auto simp: mem_set_def store_def fun_eq_iff)

lemma filled_bytes:
  assumes "filled m d v n c" and "pat = replicate w v" and "w \<le> ss_size c"
  shows "filled m d v n (set_bytes pat c)"
proof -
  define k where "k = n - ss_size c"
  have k: "k + w \<le> n" "n - (ss_size c - w) = k + w" "ss_size c - w \<le> n"
    using assms by (auto simp: k_def filled_def)
  have c: "ss_d c = d + k" "ss_mem c = mem_set m d v k"
    using assms by (auto simp: k_def filled_def)
  show ?thesis
    using k by (simp add: filled_def set_bytes_def c assms(2) store_replicate)
qed

lemma set_bytes_size [simp]: "ss_size (set_bytes pat c) = ss_size c - length pat"
  by (simp add: set_bytes_def)

lemma set_unrolled_eq: "set_unrolled pat c = (set_bytes pat ^^ 8) c"
  by (simp add: set_unrolled_def set_bytes_def Let_def eval_nat_numeral add.assoc)

lemma filled_pow:
  assumes "filled m d v n c" and "pat = replicate w v" and "k * w \<le> ss_size c"
  shows "filled m d v n ((set_bytes pat ^^ k) c) \<and>
    ss_size ((set_bytes pat ^^ k) c) = ss_size c - k * w"
  using assms(3)
proof (induction k)
  case 0
  then show ?case using assms(1) by simp
next
  case (Suc k)
  then have "filled m d v n ((set_bytes pat ^^ k) c)"
    and "ss_size ((set_bytes pat ^^ k) c) = ss_size c - k * w" by simp_all
  with Suc.prems show ?case
    using filled_bytes [of m d v n "(set_bytes pat ^^ k) c" pat w] assms(2) by simp
qed

lemma filled_burst:
  "filled m d v n c \<Longrightarrow> pat = replicate w v \<Longrightarrow> filled m d v n (set_burst pat c)"
proof (induction pat c rule: set_burst.induct)
  case (1 pat c)
  then show ?case
    using filled_pow [of m d v n c pat w 8] by (subst set_burst.simps) (auto simp: set_unrolled_eq)
qed

lemma filled_words:
  "filled m d v n c \<Longrightarrow> pat = replicate w v \<Longrightarrow> filled m d v n (set_words pat c)"
proof (induction pat c rule: set_words.induct)
  case (1 pat c)
  then show ?case
    using filled_bytes [of m d v n c pat w] by (subst set_words.simps) auto
qed

lemma filled_head:
  "filled m d v n c \<Longrightarrow> k \<le> ss_size c \<Longrightarrow>
   filled m d v n (set_head v k c) \<and> ss_size (set_head v k c) = ss_size c - k"
proof (induction k arbitrary: c)
  case 0
  then show ?case by simp
next
  case (Suc k)
  then have "filled m d v n (set_bytes [v] c)"
    using filled_bytes [of m d v n c "[v]" 1] by simp
  then show ?case using Suc.IH [of "set_bytes [v] c"] Suc.prems by simp
qed

lemma pattern8_bytes: "word_bytes 8 (pattern8 v) = replicate 8 v"
proof (rule nth_equalityI)
  fix i assume "i < length (word_bytes 8 (pattern8 v))"
  then have "i < 8" by (simp add: word_bytes_def)
  moreover from this have "i \<in> {0,1,2,3,4,5,6,7}" by auto
  ultimately show "word_bytes 8 (pattern8 v) ! i = replicate 8 v ! i"
    by (auto simp: word_bytes_def pattern8_def Let_def bit_simps u8_bit_high intro!: bit_word_eqI)
qed (simp add: word_bytes_def)

lemma pattern4_bytes: "word_bytes 4 (pattern4 v) = replicate 4 v"
proof (rule nth_equalityI)
  fix i assume "i < length (word_bytes 4 (pattern4 v))"
  then have "i < 4" by (simp add: word_bytes_def)
  moreover from this have "i \<in> {0,1,2,3}" by auto
  ultimately show "word_bytes 4 (pattern4 v) ! i = replicate 4 v ! i"
    by (auto simp: word_bytes_def pattern4_def Let_def bit_simps u8_bit_high intro!: bit_word_eqI)
qed (simp add: word_bytes_def)

lemma fast_set_eq: "fast_set align m d v n = mem_set m d v n"
proof (cases "n = 0")
  case True
  then show ?thesis by (simp add: fast_set_def)
next
  case False
  let ?c = "\<lparr>ss_mem = m, ss_d = d, ss_size = n\<rparr>"
  define off where "off = d AND (align - 1)"
  define c1 where "c1 = (if off \<noteq> 0 then set_head v (min (align - off) n) ?c else ?c)"
  define pat where "pat = (if align = 8 then word_bytes 8 (pattern8 v)
    else word_bytes 4 (pattern4 v))"
  define c2 where "c2 = set_words pat (set_burst pat c1)"
  have "filled m d v n ?c" by (simp add: filled_def)
  then have "filled m d v n c1"
    using filled_head [of m d v n ?c "min (align - off) n"] by (simp add: c1_def)
  moreover have "pat = replicate (length pat) v"
    by (simp add: pat_def pattern8_bytes pattern4_bytes)
  ultimately have "filled m d v n c2"
    unfolding c2_def by (blast intro: filled_words filled_burst)
  then have "filled m d v n (set_head v (ss_size c2) c2)" "ss_size (set_head v (ss_size c2) c2) = 0"
    using filled_head [of m d v n c2 "ss_size c2"] by simp_all
  moreover have "fast_set align m d v n = ss_mem (set_head v (ss_size c2) c2)"
    using False by (simp only: fast_set_def Let_def off_def c1_def pat_def c2_def if_False)
  ultimately show ?thesis by (simp add: filled_def)
qed


section \<open>FastCmp\<close>

text \<open>A comparison step either returns a difference, jumps to \<open>compare_fixed_bytes\<close> with a
  mismatching word, or goes on with the two cursors and the remaining size.\<close>

datatype cmp_step =
    Return int
  | Mismatch nat nat nat
  | Continue nat nat nat

definition byte_diff :: "mem \<Rightarrow> nat \<Rightarrow> nat \<Rightarrow> int" where
  "byte_diff m p q = uint (m p) - uint (m q)"

text \<open>\<open>while (head--) { diff = *p++ - *q++; if (diff != 0) return diff; --size; }\<close>\<close>

fun cmp_head :: "mem \<Rightarrow> nat \<Rightarrow> nat \<Rightarrow> nat \<Rightarrow> nat \<Rightarrow> cmp_step" where
  "cmp_head m 0 p q n = Continue p q n"
| "cmp_head m (Suc head) p q n =
     (let diff = byte_diff m p q
      in if diff \<noteq> 0 then Return diff else cmp_head m head (p + 1) (q + 1) (n - 1))"

text \<open>The eight unrolled tests \<open>if (pw[i] != qw[i])\<close>: the first mismatching word, if any.\<close>

fun cmp_unrolled :: "mem \<Rightarrow> nat \<Rightarrow> nat list \<Rightarrow> nat \<Rightarrow> nat \<Rightarrow> cmp_step option" where
  "cmp_unrolled m w [] p q = None"
| "cmp_unrolled m w (i # is) p q =
     (if load m (p + i * w) w \<noteq> load m (q + i * w) w
      then Some (Mismatch (p + i * w) (q + i * w) w)
      else cmp_unrolled m w is p q)"

function cmp_burst :: "mem \<Rightarrow> nat \<Rightarrow> nat \<Rightarrow> nat \<Rightarrow> nat \<Rightarrow> cmp_step" where
  "cmp_burst m w p q n =
     (if 0 < w \<and> 8 * w \<le> n
      then (case cmp_unrolled m w [0, 1, 2, 3, 4, 5, 6, 7] p q of
              Some r \<Rightarrow> r
            | None \<Rightarrow> cmp_burst m w (p + 8 * w) (q + 8 * w) (n - 8 * w))
      else Continue p q n)"
  by pat_completeness auto
termination
  by (relation "measure (\<lambda>(m, w, p, q, n). n)") auto

function cmp_words :: "mem \<Rightarrow> nat \<Rightarrow> nat \<Rightarrow> nat \<Rightarrow> nat \<Rightarrow> cmp_step" where
  "cmp_words m w p q n =
     (if 0 < w \<and> w \<le> n
      then (if load m p w \<noteq> load m q w then Mismatch p q w
            else cmp_words m w (p + w) (q + w) (n - w))
      else Continue p q n)"
  by pat_completeness auto
termination
  by (relation "measure (\<lambda>(m, w, p, q, n). n)") auto

declare cmp_burst.simps [simp del] cmp_words.simps [simp del]

definition cmp_wide :: "mem \<Rightarrow> nat \<Rightarrow> nat \<Rightarrow> nat \<Rightarrow> nat \<Rightarrow> cmp_step" where
  "cmp_wide m w p q n =
     (if (p OR q) AND (w - 1) = 0
      then (case cmp_burst m w p q n of Continue p' q' n' \<Rightarrow> cmp_words m w p' q' n' | r \<Rightarrow> r)
      else Continue p q n)"

text \<open>The chain of byte differences at \<open>compare_fixed_bytes\<close>; the last one is returned
  without a test.\<close>

fun fixed_diff :: "mem \<Rightarrow> nat \<Rightarrow> nat \<Rightarrow> nat \<Rightarrow> int" where
  "fixed_diff m p q 0 = 0"
| "fixed_diff m p q (Suc 0) = byte_diff m p q"
| "fixed_diff m p q (Suc (Suc k)) =
     (let diff = byte_diff m p q
      in if diff \<noteq> 0 then diff else fixed_diff m (p + 1) (q + 1) (Suc k))"

text \<open>\<open>while (size--)\<close>: the byte-wise tail, also the reference comparison.\<close>

fun mem_cmp :: "mem \<Rightarrow> nat \<Rightarrow> nat \<Rightarrow> nat \<Rightarrow> int" where
  "mem_cmp m p q 0 = 0"
| "mem_cmp m p q (Suc n) =
     (let diff = byte_diff m p q in if diff \<noteq> 0 then diff else mem_cmp m (p + 1) (q + 1) n)"

definition fast_cmp :: "nat \<Rightarrow> mem \<Rightarrow> nat \<Rightarrow> nat \<Rightarrow> nat \<Rightarrow> int" where
  "fast_cmp align m p q n =
     (if n = 0 \<or> p = q then 0
      else let p_off = p AND (align - 1); q_off = q AND (align - 1);
               start = (if p_off = q_off \<and> p_off \<noteq> 0
                        then cmp_head m (min (align - p_off) n) p q n
                        else Continue p q n);
               r = (case start of
                      Continue p1 q1 n1 \<Rightarrow> cmp_wide m (if align = 8 then 8 else 4) p1 q1 n1
                    | r1 \<Rightarrow> r1)
           in (case r of
                 Return diff \<Rightarrow> diff
               | Mismatch p1 q1 w \<Rightarrow> fixed_diff m p1 q1 w
               | Continue p1 q1 n1 \<Rightarrow> mem_cmp m p1 q1 n1))"

subsection \<open>Agreement with the byte-wise comparison\<close>

text \<open>\<open>step_value\<close> reads the result a step leads to; every loop keeps it equal to the
  byte-wise comparison of the bytes that remain.\<close>

fun step_value :: "mem \<Rightarrow> cmp_step \<Rightarrow> int" where
  "step_value m (Return diff) = diff"
| "step_value m (Mismatch p q w) = fixed_diff m p q w"
| "step_value m (Continue p q n) = mem_cmp m p q n"

lemma mem_cmp_self [simp]: "mem_cmp m p p n = 0"
  by (induction n arbitrary: p) (auto simp: byte_diff_def)

lemma fixed_diff_mem_cmp: "0 < w \<Longrightarrow> fixed_diff m p q w = mem_cmp m p q w"
  by (induction m p q w rule: fixed_diff.induct) (auto simp: Let_def)

lemma mem_cmp_add:
  "mem_cmp m p q (k + n) =
    (if mem_cmp m p q k \<noteq> 0 then mem_cmp m p q k else mem_cmp m (p + k) (q + k) n)"
  by (induction k arbitrary: p q) (auto simp: Let_def)

lemma load_Suc: "load m a (Suc n) = m a # load m (Suc a) n"
  by (rule nth_equalityI) (auto simp: load_def nth_Cons' simp del: upt_Suc)

lemma byte_diff_0_iff: "byte_diff m p q = 0 \<longleftrightarrow> m p = m q"
  by (simp add: byte_diff_def word_uint_eq_iff)

lemma mem_cmp_0_iff: "mem_cmp m p q n = 0 \<longleftrightarrow> load m p n = load m q n"
proof (induction n arbitrary: p q)
  case 0
  then show ?case by (simp add: load_def)
next
  case (Suc n)
  then show ?case by (auto simp: Let_def load_Suc byte_diff_0_iff)
qed

lemma mem_cmp_first:
  "mem_cmp m p q n \<noteq> 0 \<Longrightarrow>
   \<exists>k < n. load m p k = load m q k \<and> m (p + k) \<noteq> m (q + k) \<and>
     mem_cmp m p q n = byte_diff m (p + k) (q + k)"
proof (induction n arbitrary: p q)
  case (Suc n)
  show ?case
  proof (cases "byte_diff m p q = 0")
    case True
    with Suc.prems have "mem_cmp m (p + 1) (q + 1) n \<noteq> 0" by simp
    then obtain k where "k < n" "load m (p + 1) k = load m (q + 1) k"
      "m (p + 1 + k) \<noteq> m (q + 1 + k)"
      "mem_cmp m (p + 1) (q + 1) n = byte_diff m (p + 1 + k) (q + 1 + k)"
      using Suc.IH by blast
    with True show ?thesis
      by (intro exI [of _ "Suc k"]) (simp add: load_Suc byte_diff_0_iff)
  next
    case False
    then show ?thesis by (intro exI [of _ 0]) (simp add: load_def byte_diff_0_iff)
  qed
qed simp

lemma mem_cmp_split:
  "k \<le> n \<Longrightarrow> mem_cmp m p q n =
    (if mem_cmp m p q k \<noteq> 0 then mem_cmp m p q k else mem_cmp m (p + k) (q + k) (n - k))"
  using mem_cmp_add [of m p q k "n - k"] by simp

lemma cmp_head_value:
  "k \<le> n \<Longrightarrow> step_value m (cmp_head m k p q n) = mem_cmp m p q n"
proof (induction m k p q n rule: cmp_head.induct)
  case (2 m k p q n)
  then show ?case by (cases n) (auto simp: Let_def)
qed simp

lemma cmp_unrolled_Some:
  assumes "0 < w" and "cmp_unrolled m w [j..<k] p q = Some r" and "j \<le> k" and "k * w \<le> n"
    and "mem_cmp m p q (j * w) = 0"
  shows "step_value m r = mem_cmp m p q n"
  using assms(2,3,5)
proof (induction "k - j" arbitrary: j)
  case 0
  then show ?case by simp
next
  case (Suc d)
  then have j: "j < k" by simp
  then have jw: "j * w + w \<le> n" using slot_le [of j k w] assms(4) by linarith
  have here: "mem_cmp m p q (j * w + w) = mem_cmp m (p + j * w) (q + j * w) w"
    using Suc.prems(3) by (simp add: mem_cmp_add)
  show ?case
  proof (cases "load m (p + j * w) w = load m (q + j * w) w")
    case True
    with here have "mem_cmp m p q (Suc j * w) = 0"
      by (simp add: mem_cmp_0_iff [of m "p + j * w"] add.commute)
    moreover have "cmp_unrolled m w [Suc j..<k] p q = Some r"
      using Suc.prems(1) True j by (simp add: upt_conv_Cons)
    ultimately show ?thesis using Suc.hyps j by (intro Suc.hyps(1) [of "Suc j"]) simp_all
  next
    case False
    then have r: "r = Mismatch (p + j * w) (q + j * w) w"
      using Suc.prems(1) j by (simp add: upt_conv_Cons)
    have "mem_cmp m p q (j * w + w) \<noteq> 0"
      using False here mem_cmp_0_iff by metis
    then show ?thesis
      using r here assms(1) mem_cmp_split [OF jw, of m p q] by (simp add: fixed_diff_mem_cmp)
  qed
qed

lemma cmp_unrolled_None:
  "cmp_unrolled m w is p q = None \<Longrightarrow> i \<in> set is \<Longrightarrow>
   load m (p + i * w) w = load m (q + i * w) w"
  by (induction "is") (auto split: if_splits)

lemma mem_cmp_blocks:
  "(\<And>i. i < k \<Longrightarrow> load m (p + i * w) w = load m (q + i * w) w) \<Longrightarrow> mem_cmp m p q (k * w) = 0"
proof (induction k)
  case (Suc k)
  have "mem_cmp m p q (k * w + w) = 0"
    using Suc by (simp add: mem_cmp_add mem_cmp_0_iff [of m "p + k * w"])
  then show ?case by (simp add: add.commute)
qed simp

lemma upt_8: "[0, 1, 2, 3, 4, 5, 6, 7] = [0..<8 :: nat]"
  by (simp add: upt_rec)

lemma cmp_burst_value: "step_value m (cmp_burst m w p q n) = mem_cmp m p q n"
proof (induction m w p q n rule: cmp_burst.induct)
  case (1 m w p q n)
  show ?case
  proof (cases "0 < w \<and> 8 * w \<le> n")
    case False
    then show ?thesis by (subst cmp_burst.simps) auto
  next
    case big: True
    show ?thesis
    proof (cases "cmp_unrolled m w [0, 1, 2, 3, 4, 5, 6, 7] p q")
      case None
      then have "mem_cmp m p q (8 * w) = 0"
        using cmp_unrolled_None [of m w "[0..<8]" p q] by (intro mem_cmp_blocks) (simp only: upt_8 set_upt atLeastLessThan_iff le0 simp_thms)
      then show ?thesis
        using None big "1.IH" mem_cmp_split [of "8 * w" n m p q] by (subst cmp_burst.simps) simp
    next
      case (Some r)
      then have "cmp_unrolled m w [0..<8] p q = Some r" by (simp only: upt_8)
      then have "step_value m r = mem_cmp m p q n"
        using cmp_unrolled_Some [of w m 0 8 p q r n] big by simp
      then show ?thesis using Some big by (subst cmp_burst.simps) simp
    qed
  qed
qed

lemma cmp_words_value: "step_value m (cmp_words m w p q n) = mem_cmp m p q n"
proof (induction m w p q n rule: cmp_words.induct)
  case (1 m w p q n)
  then show ?case
    using mem_cmp_split [of w n m p q]
    by (subst cmp_words.simps) (auto simp: fixed_diff_mem_cmp mem_cmp_0_iff)
qed

lemma cmp_wide_value: "step_value m (cmp_wide m w p q n) = mem_cmp m p q n"
  using cmp_burst_value [of m w p q n] cmp_words_value
  by (auto simp: cmp_wide_def split: cmp_step.splits)

lemma fast_cmp_eq: "fast_cmp align m p q n = mem_cmp m p q n"
proof (cases "n = 0 \<or> p = q")
  case True
  then show ?thesis by (auto simp: fast_cmp_def)
next
  case False
  define off where "off = p AND (align - 1)"
  define start where "start = (if off = q AND (align - 1) \<and> off \<noteq> 0
    then cmp_head m (min (align - off) n) p q n else Continue p q n)"
  define r where "r = (case start of
      Continue p1 q1 n1 \<Rightarrow> cmp_wide m (if align = 8 then 8 else 4) p1 q1 n1 | r1 \<Rightarrow> r1)"
  have "step_value m start = mem_cmp m p q n"
    by (simp add: start_def cmp_head_value)
  then have "step_value m r = mem_cmp m p q n"
    by (cases start) (simp_all add: r_def cmp_wide_value)
  moreover have "fast_cmp align m p q n = step_value m r"
    using False by (cases r) (simp_all only: fast_cmp_def Let_def off_def start_def r_def
        step_value.simps if_False cmp_step.case)
  ultimately show ?thesis by simp
qed

section \<open>The memory interface\<close>

text \<open>What the containers rely on: a copy that is safe for the ranges it is given moves the
  bytes and nothing else, and a fill sets exactly its range.\<close>

locale memory_routines =
  fixes copy :: "mem \<Rightarrow> nat \<Rightarrow> nat \<Rightarrow> nat \<Rightarrow> mem"
    and fill :: "mem \<Rightarrow> nat \<Rightarrow> u8 \<Rightarrow> nat \<Rightarrow> mem"
    and compare :: "mem \<Rightarrow> nat \<Rightarrow> nat \<Rightarrow> nat \<Rightarrow> int"
  assumes copy_reads: "forward_safe d s n \<Longrightarrow> copy m d s n x =
      (if d \<le> x \<and> x < d + n then m (s + (x - d)) else m x)"
    and fill_reads: "fill m d v n x = (if d \<le> x \<and> x < d + n then v else m x)"
    and compare_0: "compare m p q n = 0 \<longleftrightarrow> load m p n = load m q n"
begin

lemma copy_blit:
  assumes "forward_safe (a + off) s n" and "off + n \<le> len"
  shows "load (copy m (a + off) s n) a len = blit (load m a len) off (load m s n)"
  using assms by (intro nth_equalityI) (auto simp: load_def nth_blit copy_reads)

lemma copy_frame:
  assumes "forward_safe d s n" and "b + k \<le> d \<or> d + n \<le> b"
  shows "load (copy m d s n) b k = load m b k"
  using assms by (auto simp: load_def copy_reads)

lemma fill_blit:
  "off + n \<le> len \<Longrightarrow>
   load (fill m (a + off) v n) a len = blit (load m a len) off (replicate n v)"
  by (intro nth_equalityI) (auto simp: load_def nth_blit fill_reads)

lemma copy_then_compare:
  assumes "d + n \<le> s \<or> s + n \<le> d"
  shows "compare (copy m d s n) d s n = 0"
proof -
  from assms have "forward_safe d s n" by (auto simp: forward_safe_def)
  then have "load (copy m d s n) d n = load (copy m d s n) s n"
    using assms by (auto simp: load_def copy_reads)
  then show ?thesis by (simp add: compare_0)
qed

end

interpretation fm: memory_routines "fast_copy align" "fast_set align" "fast_cmp align" for align
  by unfold_locales
    (simp_all add: fast_copy_eq mem_copy_def fast_set_eq mem_set_def fast_cmp_eq mem_cmp_0_iff)


section \<open>Copies between arrays\<close>

text \<open>The containers address their storage as arrays. \<open>array_copy dst off src soff n\<close> is the
  effect of \<open>FastCopy(&dst[off], &src[soff], n)\<close> on the destination array; \<open>None\<close> is an
  access outside one of the two arrays, which the source does not check.\<close>

definition array_copy :: "'a list \<Rightarrow> nat \<Rightarrow> 'a list \<Rightarrow> nat \<Rightarrow> nat \<Rightarrow> 'a list option" where
  "array_copy dst off src soff n =
     (if off + n \<le> length dst \<and> soff + n \<le> length src
      then Some (blit dst off (take n (drop soff src))) else None)"

lemma length_load [simp]: "length (load m a n) = n"
  by (simp add: load_def)

lemma take_drop_load: "i + n \<le> k \<Longrightarrow> take n (drop i (load m a k)) = load m (a + i) n"
  by (rule nth_equalityI) (auto simp: load_def add.assoc)

lemma array_copy_fast_copy:
  assumes "array_copy (load m a k) off (load m b l) soff n = Some r"
    and "a + off + n \<le> b + soff \<or> b + soff + n \<le> a + off"
  shows "load (fast_copy align m (a + off) (b + soff) n) a k = r"
proof -
  from assms(1) have "off + n \<le> k" "soff + n \<le> l" "r = blit (load m a k) off (load m (b + soff) n)"
    by (auto simp: array_copy_def take_drop_load split: if_splits)
  moreover have "forward_safe (a + off) (b + soff) n"
    using assms(2) by (auto simp: forward_safe_def)
  ultimately show ?thesis by (simp add: fm.copy_blit)
qed

section \<open>Properties\<close>

text \<open>C1: whatever the alignment of the two ranges and the word size of the target,
  \<open>FastCopy\<close> moves exactly the \<open>n\<close> source bytes and changes nothing else, provided the ranges
  do not overlap or the destination starts at or below the source.\<close>

theorem fast_copy_correct:
  assumes "d \<le> s \<or> s + n \<le> d"
  shows "load (fast_copy align m d s n) d n = load m s n \<and>
    (\<forall>x. x < d \<or> d + n \<le> x \<longrightarrow> fast_copy align m d s n x = m x)"
  using assms by (auto simp: load_def forward_safe_def fm.copy_reads)

theorem fast_copy_correct_witness:
  "(3 :: nat) \<le> 5 \<and> load (fast_copy 8 (\<lambda>x. of_nat x) 3 5 21) 3 21 = load (\<lambda>x. of_nat x) 5 21 \<and>
   fast_copy 8 (\<lambda>x. of_nat x) 3 5 21 24 = 24"
  using fast_copy_correct [of 3 5 21 8 "\<lambda>x. of_nat x"] by simp

text \<open>\<open>FastSet\<close> writes the value to exactly the \<open>n\<close> bytes of its range, for every
  alignment: the repeated-byte patterns of the wide stores agree with byte stores.\<close>

theorem fast_set_correct:
  "fast_set align m d v n = (\<lambda>x. if d \<le> x \<and> x < d + n then v else m x)"
  by (simp add: fast_set_eq mem_set_def)

text \<open>C2: \<open>FastCmp\<close> agrees with the byte-wise comparison for every alignment and length: it
  returns 0 exactly when the two ranges hold the same bytes, and otherwise the difference of
  the first pair of bytes that differ.\<close>

theorem fast_cmp_correct:
  "(fast_cmp align m p q n = 0 \<and> load m p n = load m q n) \<or>
   (\<exists>k < n. load m p k = load m q k \<and> m (p + k) \<noteq> m (q + k) \<and>
      fast_cmp align m p q n = uint (m (p + k)) - uint (m (q + k)))"
proof (cases "mem_cmp m p q n = 0")
  case True
  then show ?thesis by (simp add: fast_cmp_eq mem_cmp_0_iff [symmetric])
next
  case False
  then show ?thesis
    using mem_cmp_first [of m p q n] by (auto simp: fast_cmp_eq byte_diff_def)
qed

end
