(* ===== verification/Fifo_Spec.thy ===== *)
theory Fifo_Spec
  imports Prelude "HOL-Library.Multiset"
begin

text \<open>
  The contract the two queue implementations share, as a locale: a bounded first-in first-out
  queue seen through \<open>contents\<close>, with the error codes of a full and of an empty queue. An
  operation returns \<open>None\<close> where the code would access memory outside its buffer; the laws
  exclude it. The client lemmas, proved once, say that any sequence of operations behaves as
  the same sequence on an abstract list and that values leave in the order they came.
\<close>

section \<open>Operation sequences and their abstract meaning\<close>

datatype 'a fifo_op = Enqueue 'a | Dequeue 'a

type_synonym 'a fifo_reply = "error_code \<times> 'a option"

text \<open>\<open>Dequeue y\<close> pops into an output variable that holds \<open>y\<close> before the call.\<close>

fun fifo_run :: "('q \<Rightarrow> 'a \<Rightarrow> ('q \<times> error_code) option) \<Rightarrow>
    ('q \<Rightarrow> 'a \<Rightarrow> ('q \<times> error_code \<times> 'a) option) \<Rightarrow>
    'q \<Rightarrow> 'a fifo_op list \<Rightarrow> ('a fifo_reply list \<times> 'q) option" where
  "fifo_run push pop q [] = Some ([], q)"
| "fifo_run push pop q (Enqueue x # ops) =
     (case push q x of None \<Rightarrow> None
      | Some (q', ec) \<Rightarrow> map_option (\<lambda>(rs, r). ((ec, None) # rs, r)) (fifo_run push pop q' ops))"
| "fifo_run push pop q (Dequeue y # ops) =
     (case pop q y of None \<Rightarrow> None
      | Some (q', ec, y') \<Rightarrow>
          map_option (\<lambda>(rs, r). ((ec, Some y') # rs, r)) (fifo_run push pop q' ops))"

fun fifo_spec :: "nat \<Rightarrow> 'a list \<Rightarrow> 'a fifo_op list \<Rightarrow> 'a fifo_reply list \<times> 'a list" where
  "fifo_spec n xs [] = ([], xs)"
| "fifo_spec n xs (Enqueue x # ops) =
     (if length xs < n then let (rs, ys) = fifo_spec n (xs @ [x]) ops in ((OK, None) # rs, ys)
      else let (rs, ys) = fifo_spec n xs ops in ((FULL, None) # rs, ys))"
| "fifo_spec n xs (Dequeue y # ops) =
     (case xs of [] \<Rightarrow> let (rs, ys) = fifo_spec n [] ops in ((EMPTY, Some y) # rs, ys)
      | x # xs' \<Rightarrow> let (rs, ys) = fifo_spec n xs' ops in ((OK, Some x) # rs, ys))"

fun accepted :: "'a fifo_op list \<Rightarrow> 'a fifo_reply list \<Rightarrow> 'a list" where
  "accepted (Enqueue x # ops) ((ec, _) # rs) = (if ec = OK then x # accepted ops rs else accepted ops rs)"
| "accepted (Dequeue y # ops) (r # rs) = accepted ops rs"
| "accepted _ _ = []"

fun delivered :: "'a fifo_op list \<Rightarrow> 'a fifo_reply list \<Rightarrow> 'a list" where
  "delivered (Dequeue y # ops) ((ec, Some v) # rs) =
     (if ec = OK then v # delivered ops rs else delivered ops rs)"
| "delivered (op # ops) (r # rs) = delivered ops rs"
| "delivered _ _ = []"

lemma fifo_spec_order:
  "fifo_spec n xs ops = (rs, ys) \<Longrightarrow> delivered ops rs @ ys = xs @ accepted ops rs"
proof (induction n xs ops arbitrary: rs ys rule: fifo_spec.induct)
  case (2 n xs x ops)
  then show ?case by (auto split: if_splits prod.splits)
next
  case (3 n xs y ops)
  then show ?case by (auto split: list.splits prod.splits)
qed simp

lemma fifo_spec_bound: "fifo_spec n xs ops = (rs, ys) \<Longrightarrow> length xs \<le> n \<Longrightarrow> length ys \<le> n"
proof (induction n xs ops arbitrary: rs ys rule: fifo_spec.induct)
  case (2 n xs x ops)
  then show ?case by (auto split: if_splits prod.splits)
next
  case (3 n xs y ops)
  then show ?case by (auto split: list.splits prod.splits)
qed simp

section \<open>The contract\<close>

locale bounded_fifo =
  fixes inv :: "'q \<Rightarrow> bool"
    and contents :: "'q \<Rightarrow> 'a list"
    and cap :: "'q \<Rightarrow> nat"
    and valid :: "'q \<Rightarrow> 'a \<Rightarrow> bool"
    and push :: "'q \<Rightarrow> 'a \<Rightarrow> ('q \<times> error_code) option"
    and pop :: "'q \<Rightarrow> 'a \<Rightarrow> ('q \<times> error_code \<times> 'a) option"
  assumes bound: "inv q \<Longrightarrow> length (contents q) \<le> cap q"
    and push_room: "inv q \<Longrightarrow> valid q x \<Longrightarrow> length (contents q) < cap q \<Longrightarrow>
      \<exists>q'. push q x = Some (q', OK) \<and> inv q' \<and> contents q' = contents q @ [x] \<and>
        cap q' = cap q \<and> valid q' = valid q"
    and push_full: "inv q \<Longrightarrow> valid q x \<Longrightarrow> length (contents q) = cap q \<Longrightarrow> push q x = Some (q, FULL)"
    and pop_some: "inv q \<Longrightarrow> valid q y \<Longrightarrow> contents q = x # xs \<Longrightarrow>
      \<exists>q'. pop q y = Some (q', OK, x) \<and> inv q' \<and> contents q' = xs \<and>
        cap q' = cap q \<and> valid q' = valid q"
    and pop_none: "inv q \<Longrightarrow> valid q y \<Longrightarrow> contents q = [] \<Longrightarrow> pop q y = Some (q, EMPTY, y)"
begin

lemma run_refines:
  assumes "inv q" and "\<forall>x. Enqueue x \<in> set ops \<or> Dequeue x \<in> set ops \<longrightarrow> valid q x"
  shows "\<exists>rs q'. fifo_run push pop q ops = Some (rs, q') \<and> inv q' \<and>
    fifo_spec (cap q) (contents q) ops = (rs, contents q')"
  using assms
proof (induction ops arbitrary: q)
  case Nil
  then show ?case by simp
next
  case (Cons op ops)
  show ?case
  proof (cases op)
    case (Enqueue x)
    with Cons.prems have v: "valid q x" by simp
    show ?thesis
    proof (cases "length (contents q) < cap q")
      case True
      then obtain q1 where q1: "push q x = Some (q1, OK)" "inv q1" "contents q1 = contents q @ [x]"
        "cap q1 = cap q" "valid q1 = valid q" using push_room Cons.prems(1) v by blast
      then obtain rs q' where "fifo_run push pop q1 ops = Some (rs, q')" "inv q'"
        "fifo_spec (cap q1) (contents q1) ops = (rs, contents q')"
        using Cons.IH [of q1] Cons.prems(2) by auto
      then show ?thesis using Enqueue True q1 by simp
    next
      case False
      with bound Cons.prems(1) have "length (contents q) = cap q" by (simp add: le_antisym)
      then have "push q x = Some (q, FULL)" using push_full Cons.prems(1) v by simp
      moreover obtain rs q' where "fifo_run push pop q ops = Some (rs, q')" "inv q'"
        "fifo_spec (cap q) (contents q) ops = (rs, contents q')"
        using Cons.IH [of q] Cons.prems by auto
      ultimately show ?thesis using Enqueue False by simp
    qed
  next
    case (Dequeue y)
    with Cons.prems have v: "valid q y" by simp
    show ?thesis
    proof (cases "contents q")
      case Nil
      then have "pop q y = Some (q, EMPTY, y)" using pop_none Cons.prems(1) v by simp
      moreover obtain rs q' where "fifo_run push pop q ops = Some (rs, q')" "inv q'"
        "fifo_spec (cap q) (contents q) ops = (rs, contents q')"
        using Cons.IH [of q] Cons.prems by auto
      ultimately show ?thesis using Dequeue Nil by simp
    next
      case (Cons x xs)
      then obtain q1 where q1: "pop q y = Some (q1, OK, x)" "inv q1" "contents q1 = xs"
        "cap q1 = cap q" "valid q1 = valid q" using pop_some Cons.prems(1) v by blast
      then obtain rs q' where "fifo_run push pop q1 ops = Some (rs, q')" "inv q'"
        "fifo_spec (cap q1) (contents q1) ops = (rs, contents q')"
        using Cons.IH [of q1] Cons.prems(2) by auto
      then show ?thesis using Dequeue Cons q1 by simp
    qed
  qed
qed

text \<open>Nothing is lost, duplicated or reordered: what was delivered, followed by what is still
  queued, is what was queued at first, followed by what was accepted.\<close>

lemma run_fifo:
  assumes "inv q" and "\<forall>x. Enqueue x \<in> set ops \<or> Dequeue x \<in> set ops \<longrightarrow> valid q x"
  shows "\<exists>rs q'. fifo_run push pop q ops = Some (rs, q') \<and> inv q' \<and>
    delivered ops rs @ contents q' = contents q @ accepted ops rs \<and>
    length (contents q') \<le> cap q"
  using run_refines [OF assms] fifo_spec_order fifo_spec_bound bound [OF assms(1)] by metis

end

section \<open>Containers without an order\<close>

text \<open>A bounded bag keeps what is put into it, in no particular order.\<close>

locale bounded_bag =
  fixes inv :: "'q \<Rightarrow> bool"
    and bag :: "'q \<Rightarrow> 'a multiset"
    and cap :: "'q \<Rightarrow> nat"
    and valid :: "'q \<Rightarrow> 'a \<Rightarrow> bool"
    and put :: "'q \<Rightarrow> 'a \<Rightarrow> ('q \<times> error_code) option"
    and get :: "'q \<Rightarrow> 'a \<Rightarrow> ('q \<times> error_code \<times> 'a) option"
  assumes bag_bound: "inv q \<Longrightarrow> size (bag q) \<le> cap q"
    and put_room: "inv q \<Longrightarrow> valid q x \<Longrightarrow> size (bag q) < cap q \<Longrightarrow>
      \<exists>q'. put q x = Some (q', OK) \<and> inv q' \<and> bag q' = bag q + {#x#} \<and>
        cap q' = cap q \<and> valid q' = valid q"
    and put_full: "inv q \<Longrightarrow> valid q x \<Longrightarrow> size (bag q) = cap q \<Longrightarrow> put q x = Some (q, FULL)"
    and get_some: "inv q \<Longrightarrow> valid q y \<Longrightarrow> bag q \<noteq> {#} \<Longrightarrow>
      \<exists>q' x. get q y = Some (q', OK, x) \<and> inv q' \<and> bag q = bag q' + {#x#} \<and>
        cap q' = cap q \<and> valid q' = valid q"
    and get_none: "inv q \<Longrightarrow> valid q y \<Longrightarrow> bag q = {#} \<Longrightarrow> get q y = Some (q, EMPTY, y)"
begin

lemma run_conserves:
  assumes "inv q" and "\<forall>x. Enqueue x \<in> set ops \<or> Dequeue x \<in> set ops \<longrightarrow> valid q x"
  shows "\<exists>rs q'. fifo_run put get q ops = Some (rs, q') \<and> inv q' \<and>
    bag q + mset (accepted ops rs) = mset (delivered ops rs) + bag q' \<and>
    fst ` set rs \<subseteq> {OK, FULL, EMPTY} \<and> cap q' = cap q"
  using assms
proof (induction ops arbitrary: q)
  case Nil
  then show ?case by simp
next
  case (Cons op ops)
  show ?case
  proof (cases op)
    case (Enqueue x)
    with Cons.prems have v: "valid q x" by simp
    show ?thesis
    proof (cases "size (bag q) < cap q")
      case True
      then obtain q1 where q1: "put q x = Some (q1, OK)" "inv q1" "bag q1 = bag q + {#x#}"
        "cap q1 = cap q" "valid q1 = valid q" using put_room Cons.prems(1) v by blast
      then obtain rs q' where "fifo_run put get q1 ops = Some (rs, q')" "inv q'"
        "bag q1 + mset (accepted ops rs) = mset (delivered ops rs) + bag q'"
        "fst ` set rs \<subseteq> {OK, FULL, EMPTY}" "cap q' = cap q1"
        using Cons.IH [of q1] Cons.prems(2) by auto
      then show ?thesis using Enqueue q1 by auto
    next
      case False
      with bag_bound Cons.prems(1) have "size (bag q) = cap q" by (simp add: le_antisym)
      then have "put q x = Some (q, FULL)" using put_full Cons.prems(1) v by simp
      moreover obtain rs q' where "fifo_run put get q ops = Some (rs, q')" "inv q'"
        "bag q + mset (accepted ops rs) = mset (delivered ops rs) + bag q'"
        "fst ` set rs \<subseteq> {OK, FULL, EMPTY}" "cap q' = cap q"
        using Cons.IH [of q] Cons.prems by auto
      ultimately show ?thesis using Enqueue by auto
    qed
  next
    case (Dequeue y)
    with Cons.prems have v: "valid q y" by simp
    show ?thesis
    proof (cases "bag q = {#}")
      case True
      then have "get q y = Some (q, EMPTY, y)" using get_none Cons.prems(1) v by simp
      moreover obtain rs q' where "fifo_run put get q ops = Some (rs, q')" "inv q'"
        "bag q + mset (accepted ops rs) = mset (delivered ops rs) + bag q'"
        "fst ` set rs \<subseteq> {OK, FULL, EMPTY}" "cap q' = cap q"
        using Cons.IH [of q] Cons.prems by auto
      ultimately show ?thesis using Dequeue by auto
    next
      case False
      then obtain q1 x where q1: "get q y = Some (q1, OK, x)" "inv q1" "bag q = bag q1 + {#x#}"
        "cap q1 = cap q" "valid q1 = valid q" using get_some Cons.prems(1) v by blast
      then obtain rs q' where "fifo_run put get q1 ops = Some (rs, q')" "inv q'"
        "bag q1 + mset (accepted ops rs) = mset (delivered ops rs) + bag q'"
        "fst ` set rs \<subseteq> {OK, FULL, EMPTY}" "cap q' = cap q1"
        using Cons.IH [of q1] Cons.prems(2) by auto
      then show ?thesis using Dequeue q1 by auto
    qed
  qed
qed

end

text \<open>A queue is in particular a bag.\<close>

sublocale bounded_fifo \<subseteq> fifo_bag: bounded_bag inv "\<lambda>q. mset (contents q)" cap valid push pop
proof
  fix q x y
  assume inv: "inv q"
  show "size (mset (contents q)) \<le> cap q" using bound [OF inv] by simp
  show "\<exists>q'. push q x = Some (q', OK) \<and> inv q' \<and> mset (contents q') = mset (contents q) + {#x#} \<and>
      cap q' = cap q \<and> valid q' = valid q" if "valid q x" "size (mset (contents q)) < cap q"
    using push_room [OF inv that(1)] that(2) by auto
  show "push q x = Some (q, FULL)" if "valid q x" "size (mset (contents q)) = cap q"
    using push_full [OF inv that(1)] that(2) by simp
  show "\<exists>q' x. pop q y = Some (q', OK, x) \<and> inv q' \<and> mset (contents q) = mset (contents q') + {#x#} \<and>
      cap q' = cap q \<and> valid q' = valid q" if "valid q y" "mset (contents q) \<noteq> {#}"
  proof -
    note v = that(1) and ne = that(2)
    obtain z zs where z: "contents q = z # zs" using ne by (cases "contents q") auto
    from pop_some [OF inv v z] z show ?thesis by auto
  qed
  show "pop q y = Some (q, EMPTY, y)" if "valid q y" "mset (contents q) = {#}"
    using pop_none [OF inv that(1)] that(2) by simp
qed

end
