(* ===== verification/Base_Queue.thy ===== *)
theory Base_Queue
  imports Prelude Memory Fifo_Spec "HOL-Library.Monad_Syntax"
begin

text \<open>
  \<open>BaseQueue\<close> and the template \<open>Queue<Data>\<close> of src/src/structure/queue.cpp and queue.hpp: a
  ring of fixed-size elements in a byte array. Every copy goes through \<open>array_copy\<close>, so an
  access outside an array is the result \<open>None\<close>; so is a division by a zero length. The
  invariant \<open>bq_wf\<close> excludes both. Indices are natural numbers: under the invariant no index
  computation reaches the width of \<open>size_t\<close>; the one that relies on wrap-around,
  \<open>Queue::operator[]\<close> with a negative index, is written with its width.
\<close>

record base_queue =
  queue_array :: "u8 list"
  element_size :: nat
  bq_head :: nat
  bq_tail :: nat
  is_full :: bool
  bq_length :: nat
  own_buffer :: bool

section \<open>Operations\<close>

definition base_queue_on :: "nat \<Rightarrow> nat \<Rightarrow> u8 list \<Rightarrow> base_queue" where
  "base_queue_on es len buffer = \<lparr>queue_array = buffer, element_size = es, bq_head = 0,
     bq_tail = 0, is_full = False, bq_length = len, own_buffer = False\<rparr>"

text \<open>The buffer that \<open>new uint8_t[length * element_size]\<close> returns is not initialised; its
  contents are a parameter.\<close>

definition base_queue_new :: "nat \<Rightarrow> nat \<Rightarrow> u8 list \<Rightarrow> base_queue" where
  "base_queue_new es len fresh = \<lparr>queue_array = fresh, element_size = es, bq_head = 0,
     bq_tail = 0, is_full = False, bq_length = len, own_buffer = True\<rparr>"

definition mod_length :: "base_queue \<Rightarrow> nat \<Rightarrow> nat option" where
  "mod_length q i = (if bq_length q = 0 then None else Some (i mod bq_length q))"

definition bq_size :: "base_queue \<Rightarrow> nat" where
  "bq_size q =
     (if is_full q then bq_length q
      else if bq_tail q \<ge> bq_head q then bq_tail q - bq_head q
      else bq_length q + bq_tail q - bq_head q)"

definition bq_empty_size :: "base_queue \<Rightarrow> nat" where
  "bq_empty_size q = bq_length q - bq_size q"

definition bq_max_size :: "base_queue \<Rightarrow> nat" where
  "bq_max_size q = bq_length q"

text \<open>\<open>operator[]\<close>: the byte offset of the slot; the product is one of \<open>uint32_t\<close> and may wrap.\<close>

definition bq_at :: "base_queue \<Rightarrow> u32 \<Rightarrow> nat" where
  "bq_at q index = unat (index * of_nat (element_size q))"

text \<open>\<open>tail_ = (tail_ + n) % length_; if (head_ == tail_) is_full_ = true;\<close>\<close>

definition bq_advance_tail :: "base_queue \<Rightarrow> nat \<Rightarrow> base_queue option" where
  "bq_advance_tail q n = do {
     t \<leftarrow> mod_length q (bq_tail q + n);
     Some (q\<lparr>bq_tail := t, is_full := (if bq_head q = t then True else is_full q)\<rparr>)
   }"

definition bq_push :: "base_queue \<Rightarrow> u8 list \<Rightarrow> (base_queue \<times> error_code) option" where
  "bq_push q data =
     (if is_full q then Some (q, FULL)
      else do {
        arr \<leftarrow> array_copy (queue_array q) (bq_tail q * element_size q) data 0 (element_size q);
        q' \<leftarrow> bq_advance_tail (q\<lparr>queue_array := arr\<rparr>) 1;
        Some (q', OK)
      })"

definition bq_peek :: "base_queue \<Rightarrow> u8 list \<Rightarrow> (error_code \<times> u8 list) option" where
  "bq_peek q data =
     (if 0 < bq_size q
      then do {
        data' \<leftarrow> array_copy data 0 (queue_array q) (bq_head q * element_size q) (element_size q);
        Some (OK, data')
      }
      else Some (EMPTY, data))"

text \<open>\<open>data\<close> is \<open>None\<close> for a null pointer.\<close>

definition bq_pop ::
  "base_queue \<Rightarrow> u8 list option \<Rightarrow> (base_queue \<times> error_code \<times> u8 list option) option" where
  "bq_pop q data =
     (if bq_size q = 0 then Some (q, EMPTY, data)
      else do {
        data' \<leftarrow> (case data of
            None \<Rightarrow> Some None
          | Some buf \<Rightarrow> do {
              buf' \<leftarrow> array_copy buf 0 (queue_array q) (bq_head q * element_size q) (element_size q);
              Some (Some buf')
            });
        h \<leftarrow> mod_length q (bq_head q + 1);
        Some (q\<lparr>bq_head := h, is_full := False\<rparr>, OK, data')
      })"

definition bq_last_element_index :: "base_queue \<Rightarrow> int option" where
  "bq_last_element_index q =
     (if bq_size q = 0 then Some (- 1)
      else map_option int (mod_length q (bq_tail q + bq_length q - 1)))"

definition bq_first_element_index :: "base_queue \<Rightarrow> int option" where
  "bq_first_element_index q = (if bq_size q = 0 then Some (- 1) else Some (int (bq_head q)))"

definition bq_push_batch ::
  "base_queue \<Rightarrow> u8 list \<Rightarrow> nat \<Rightarrow> (base_queue \<times> error_code) option" where
  "bq_push_batch q data n =
     (if bq_empty_size q < n then Some (q, FULL)
      else let es = element_size q; first_part = min n (bq_length q - bq_tail q) in do {
        arr1 \<leftarrow> array_copy (queue_array q) (bq_tail q * es) data 0 (first_part * es);
        arr2 \<leftarrow> (if first_part < n
                 then array_copy arr1 0 data (first_part * es) ((n - first_part) * es)
                 else Some arr1);
        q' \<leftarrow> bq_advance_tail (q\<lparr>queue_array := arr2\<rparr>) n;
        Some (q', OK)
      })"

text \<open>Copying the first \<open>n\<close> elements out, in one or two parts; shared by \<open>PopBatch\<close> and
  \<open>PeekBatch\<close>.\<close>

definition bq_copy_out :: "base_queue \<Rightarrow> nat \<Rightarrow> u8 list \<Rightarrow> u8 list option" where
  "bq_copy_out q n buf =
     (let es = element_size q; first_part = min n (bq_length q - bq_head q) in do {
        b1 \<leftarrow> array_copy buf 0 (queue_array q) (bq_head q * es) (first_part * es);
        if first_part < n
        then array_copy b1 (first_part * es) (queue_array q) 0 ((n - first_part) * es)
        else Some b1
      })"

definition bq_pop_batch ::
  "base_queue \<Rightarrow> u8 list option \<Rightarrow> nat \<Rightarrow> (base_queue \<times> error_code \<times> u8 list option) option" where
  "bq_pop_batch q data n =
     (if bq_size q < n then Some (q, EMPTY, data)
      else if n = 0 then Some (q, OK, data)
      else do {
        data' \<leftarrow> (case data of
            None \<Rightarrow> Some None
          | Some buf \<Rightarrow> map_option Some (bq_copy_out q n buf));
        h \<leftarrow> mod_length q (bq_head q + n);
        Some (q\<lparr>bq_head := h, is_full := False\<rparr>, OK, data')
      })"

definition bq_peek_batch :: "base_queue \<Rightarrow> u8 list \<Rightarrow> nat \<Rightarrow> (error_code \<times> u8 list) option" where
  "bq_peek_batch q data n =
     (if bq_size q < n then Some (EMPTY, data)
      else map_option (\<lambda>buf. (OK, buf)) (bq_copy_out q n data))"

definition bq_reset :: "base_queue \<Rightarrow> base_queue" where
  "bq_reset q = q\<lparr>bq_head := 0, bq_tail := 0, is_full := False\<rparr>"

text \<open>\<open>Overwrite\<close> copies \<open>ELEMENT_SIZE * length_\<close> bytes from its argument.\<close>

definition bq_overwrite :: "base_queue \<Rightarrow> u8 list \<Rightarrow> (base_queue \<times> error_code) option" where
  "bq_overwrite q data =
     (let q0 = q\<lparr>bq_head := 0, bq_tail := 0, is_full := False\<rparr> in do {
        arr \<leftarrow> array_copy (queue_array q0) 0 data 0 (element_size q0 * bq_length q0);
        q' \<leftarrow> bq_advance_tail (q0\<lparr>queue_array := arr\<rparr>) 1;
        Some (q', OK)
      })"

section \<open>The typed queue\<close>

text \<open>\<open>Queue<Data>\<close>: an element is the \<open>sizeof(Data)\<close> bytes of its object representation.
  The index of \<open>operator[]\<close> is an \<open>int32_t\<close>; the sums are computed in a 64-bit
  \<open>size_t\<close> and the result is narrowed to \<open>int32_t\<close> again.\<close>

definition queue_index :: "base_queue \<Rightarrow> int \<Rightarrow> int" where
  "queue_index q index =
     (let base = (if index \<ge> 0 then int (bq_head q) + index
                  else int (bq_tail q) + index + int (bq_length q))
      in sint (word_of_int ((base mod 2 ^ 64) mod int (bq_length q)) :: 32 word))"

definition queue_get :: "base_queue \<Rightarrow> int \<Rightarrow> u8 list option" where
  "queue_get q index =
     (let i = queue_index q index
      in if bq_length q \<noteq> 0 \<and> 0 \<le> i \<and> nat i * element_size q + element_size q \<le> length (queue_array q)
         then Some (chunk (element_size q) (nat i) (queue_array q)) else None)"

definition queue_push :: "base_queue \<Rightarrow> u8 list \<Rightarrow> (base_queue \<times> error_code) option" where
  "queue_push q data = bq_push q data"

definition queue_pop :: "base_queue \<Rightarrow> u8 list \<Rightarrow> (base_queue \<times> error_code \<times> u8 list) option" where
  "queue_pop q data = map_option (\<lambda>(q', ec, d). (q', ec, the d)) (bq_pop q (Some data))"

definition queue_overwrite :: "base_queue \<Rightarrow> u8 list \<Rightarrow> (base_queue \<times> error_code) option" where
  "queue_overwrite q data = bq_overwrite q data"


section \<open>Invariant and abstraction\<close>

definition bq_wf :: "base_queue \<Rightarrow> bool" where
  "bq_wf q \<longleftrightarrow> 0 < bq_length q \<and> bq_head q < bq_length q \<and> bq_tail q < bq_length q \<and>
     length (queue_array q) = bq_length q * element_size q \<and>
     (is_full q \<longrightarrow> bq_head q = bq_tail q)"

definition bq_slot :: "base_queue \<Rightarrow> nat \<Rightarrow> u8 list" where
  "bq_slot q i = chunk (element_size q) ((bq_head q + i) mod bq_length q) (queue_array q)"

definition bq_contents :: "base_queue \<Rightarrow> u8 list list" where
  "bq_contents q = map (bq_slot q) [0..<bq_size q]"

text \<open>The part of the state no operation changes.\<close>

definition bq_shape :: "base_queue \<Rightarrow> nat \<times> nat \<times> bool" where
  "bq_shape q = (element_size q, bq_length q, own_buffer q)"

lemma bq_wfD:
  assumes "bq_wf q"
  shows "0 < bq_length q" "bq_head q < bq_length q" "bq_tail q < bq_length q"
    "length (queue_array q) = bq_length q * element_size q" "is_full q \<Longrightarrow> bq_head q = bq_tail q"
  using assms by (simp_all add: bq_wf_def)

lemma length_contents [simp]: "length (bq_contents q) = bq_size q"
  by (simp add: bq_contents_def)

lemma bq_size_le: "bq_wf q \<Longrightarrow> bq_size q \<le> bq_length q"
  by (auto simp: bq_wf_def bq_size_def)

lemma bq_tail_eq: "bq_wf q \<Longrightarrow> bq_tail q = (bq_head q + bq_size q) mod bq_length q"
  by (auto simp: bq_wf_def bq_size_def)

lemma bq_full_iff: "bq_wf q \<Longrightarrow> is_full q \<longleftrightarrow> bq_size q = bq_length q"
  by (auto simp: bq_wf_def bq_size_def split: if_splits)

lemma bq_mod_length [simp]: "bq_wf q \<Longrightarrow> mod_length q i = Some (i mod bq_length q)"
  by (simp add: bq_wf_def mod_length_def)

lemma length_slot: "bq_wf q \<Longrightarrow> length (bq_slot q i) = element_size q"
  unfolding bq_slot_def by (rule length_chunk [where n = "bq_length q"]) (auto simp: bq_wf_def)

lemma contents_sizes: "bq_wf q \<Longrightarrow> x \<in> set (bq_contents q) \<Longrightarrow> length x = element_size q"
  by (auto simp: bq_contents_def length_slot)

lemma wf_new:
  assumes "0 < len" and "length buf = len * es"
  shows "bq_wf (base_queue_on es len buf)" and "bq_wf (base_queue_new es len buf)"
    and "bq_contents (base_queue_on es len buf) = []"
    and "bq_contents (base_queue_new es len buf) = []"
  using assms
  by (simp_all add: bq_wf_def base_queue_on_def base_queue_new_def bq_contents_def bq_size_def)

section \<open>Writing\<close>

text \<open>The array after a batch write, and the tail after it.\<close>

definition bq_written :: "base_queue \<Rightarrow> u8 list \<Rightarrow> nat \<Rightarrow> base_queue" where
  "bq_written q data n =
     (let t = (bq_tail q + n) mod bq_length q
      in q\<lparr>queue_array := ring_write (element_size q) (bq_length q) (queue_array q) (bq_tail q) data n,
           bq_tail := t, is_full := (bq_head q = t \<or> is_full q)\<rparr>)"

lemma wf_written:
  assumes "bq_wf q" and "bq_size q + n \<le> bq_length q" and "n * element_size q \<le> length data"
  shows "bq_wf (bq_written q data n)"
proof -
  have "length (ring_write (element_size q) (bq_length q) (queue_array q) (bq_tail q) data n) =
      length (queue_array q)"
    using assms by (intro length_ring_write) (auto simp: bq_wf_def)
  moreover have "is_full q \<Longrightarrow> n = 0"
    using assms by (simp add: bq_full_iff)
  ultimately show ?thesis
    using assms(1) by (auto simp: bq_wf_def bq_written_def Let_def)
qed

lemma size_written:
  assumes "bq_wf q" and "bq_size q + n \<le> bq_length q" and "0 < n \<or> 0 < bq_size q"
  shows "bq_size (bq_written q data n) = bq_size q + n"
  using assms
  by (auto simp: bq_wf_def bq_size_def bq_written_def Let_def ring_add_mod split: if_splits)

lemma slot_written:
  assumes "bq_wf q" and "bq_size q + n \<le> bq_length q" and "n * element_size q \<le> length data"
    and "i < bq_size q + n"
  shows "bq_slot (bq_written q data n) i =
    (if i < bq_size q then bq_slot q i else chunk (element_size q) (i - bq_size q) data)"
proof -
  let ?L = "bq_length q" and ?w = "element_size q" and ?s = "bq_size q"
  let ?j = "(bq_head q + i) mod ?L"
  have wf: "bq_tail q < ?L" "n \<le> ?L" "length (queue_array q) = ?L * ?w" "?j < ?L" "?s \<le> ?L" "i < ?L"
    using assms bq_size_le [OF assms(1)] by (auto simp: bq_wf_def)
  have tail: "bq_tail q = (bq_head q + ?s) mod ?L" by (rule bq_tail_eq [OF assms(1)])
  have k: "(?j + ?L - bq_tail q) mod ?L = (if i < ?s then i + ?L - ?s else i - ?s)"
    using wf(5,6) bq_wfD(2) [OF assms(1)] assms(2,4)
    by (simp only: tail ring_offset)
  have "chunk ?w ?j (ring_write ?w ?L (queue_array q) (bq_tail q) data n) =
      (if i < ?s then chunk ?w ?j (queue_array q) else chunk ?w (i - ?s) data)"
    using chunk_ring_write [OF wf(1,2) assms(3) wf(3,4)] assms(2,4) k by (auto simp: Let_def)
  then show ?thesis
    by (simp add: bq_slot_def bq_written_def Let_def)
qed

lemma contents_written:
  assumes "bq_wf q" and "bq_size q + n \<le> bq_length q" and "n * element_size q \<le> length data"
    and "0 < n \<or> 0 < bq_size q"
  shows "bq_contents (bq_written q data n) = bq_contents q @ chunks (element_size q) n data"
proof (rule nth_equalityI)
  show "length (bq_contents (bq_written q data n)) =
      length (bq_contents q @ chunks (element_size q) n data)"
    using size_written assms by simp
next
  fix i assume "i < length (bq_contents (bq_written q data n))"
  then have "i < bq_size q + n" using size_written [of q n data] assms by simp
  then show "bq_contents (bq_written q data n) ! i =
      (bq_contents q @ chunks (element_size q) n data) ! i"
    using assms size_written [of q n data] slot_written [of q n data i]
    by (auto simp: bq_contents_def nth_append)
qed

lemma shape_written [simp]: "bq_shape (bq_written q data n) = bq_shape q"
  by (simp add: bq_written_def bq_shape_def Let_def)

lemma push_batch_eq:
  assumes "bq_wf q" and "n * element_size q \<le> length data"
  shows "bq_push_batch q data n =
    (if bq_size q + n \<le> bq_length q then Some (bq_written q data n, OK) else Some (q, FULL))"
proof (cases "bq_size q + n \<le> bq_length q")
  case False
  then have "bq_empty_size q < n"
    using bq_size_le [OF assms(1)] unfolding bq_empty_size_def by arith
  with False show ?thesis by (simp add: bq_push_batch_def)
next
  case True
  let ?L = "bq_length q" and ?w = "element_size q"
  define p where "p = min n (?L - bq_tail q)"
  have wf: "bq_tail q < ?L" "n \<le> ?L" "length (queue_array q) = ?L * ?w"
    using assms True by (auto simp: bq_wf_def)
  note b = ring_part_bounds [OF wf(1,2) assms(2) wf(3), folded p_def]
  let ?a1 = "blit (queue_array q) (bq_tail q * ?w) (take (p * ?w) data)"
  have l1: "length ?a1 = length (queue_array q)" using b by (simp add: add_mult_distrib)
  have c1: "array_copy (queue_array q) (bq_tail q * ?w) data 0 (p * ?w) = Some ?a1"
    using b by (simp add: array_copy_def add_mult_distrib)
  have rw: "ring_write ?w ?L (queue_array q) (bq_tail q) data n =
      blit ?a1 0 (take ((n - p) * ?w) (drop (p * ?w) data))"
    by (simp only: ring_write_def Let_def p_def)
  have c2: "(if p < n then array_copy ?a1 0 data (p * ?w) ((n - p) * ?w) else Some ?a1) =
      Some (ring_write ?w ?L (queue_array q) (bq_tail q) data n)"
    using b l1 by (simp add: array_copy_def rw)
  have "bq_length (q\<lparr>queue_array := arr\<rparr>) = ?L" for arr by simp
  then show ?thesis
    using True assms(1) bq_wfD(1) [OF assms(1)] c1 c2
    by (simp add: bq_push_batch_def bq_empty_size_def p_def [symmetric] Let_def bq_advance_tail_def
        mod_length_def bq_written_def not_less)
qed

lemma push_eq_batch:
  assumes "bq_wf q" and "element_size q \<le> length data"
  shows "bq_push q data = bq_push_batch q data 1"
proof (cases "is_full q")
  case True
  then show ?thesis
    using assms push_batch_eq [of q 1 data] by (simp add: bq_push_def bq_full_iff)
next
  case False
  then have "bq_size q < bq_length q"
    using assms(1) bq_size_le [of q] by (simp add: bq_full_iff le_neq_implies_less)
  then have n: "\<not> bq_empty_size q < 1" by (simp add: bq_empty_size_def)
  have m: "min (Suc 0) (bq_length q - bq_tail q) = Suc 0"
    using bq_wfD(3) [OF assms(1)] by (simp add: min_def)
  show ?thesis
    using False n by (simp add: bq_push_def bq_push_batch_def Let_def m)
qed


section \<open>Reading\<close>

definition bq_dropped :: "base_queue \<Rightarrow> nat \<Rightarrow> base_queue" where
  "bq_dropped q n = q\<lparr>bq_head := (bq_head q + n) mod bq_length q, is_full := False\<rparr>"

lemma size_dropped:
  "bq_wf q \<Longrightarrow> n \<le> bq_size q \<Longrightarrow> 0 < n \<Longrightarrow> bq_size (bq_dropped q n) = bq_size q - n"
  by (auto simp: bq_wf_def bq_size_def bq_dropped_def ring_add_mod split: if_splits)

lemma wf_dropped: "bq_wf q \<Longrightarrow> bq_wf (bq_dropped q n)"
  by (auto simp: bq_wf_def bq_dropped_def)

lemma contents_dropped:
  assumes "bq_wf q" and "n \<le> bq_size q" and "0 < n"
  shows "bq_contents (bq_dropped q n) = drop n (bq_contents q)"
proof (rule nth_equalityI)
  show "length (bq_contents (bq_dropped q n)) = length (drop n (bq_contents q))"
    using size_dropped [OF assms] by simp
next
  fix i assume "i < length (bq_contents (bq_dropped q n))"
  then have "i < bq_size q - n" using size_dropped [OF assms] by simp
  then show "bq_contents (bq_dropped q n) ! i = drop n (bq_contents q) ! i"
    using size_dropped [OF assms]
    by (simp add: bq_contents_def bq_slot_def bq_dropped_def ring_shift)
qed

lemma shape_dropped [simp]: "bq_shape (bq_dropped q n) = bq_shape q"
  by (simp add: bq_dropped_def bq_shape_def)

lemma ring_read_contents:
  assumes "bq_wf q" and "n \<le> bq_size q"
  shows "ring_read (element_size q) (bq_length q) (queue_array q) (bq_head q) n =
    concat (take n (bq_contents q))"
proof -
  have "take n (bq_contents q) = map (bq_slot q) [0..<n]"
    using assms(2) by (simp add: bq_contents_def take_map)
  moreover have "bq_slot q = (\<lambda>i. chunk (element_size q) ((bq_head q + i) mod bq_length q)
      (queue_array q))"
    by (simp add: fun_eq_iff bq_slot_def)
  ultimately show ?thesis
    using assms bq_size_le [OF assms(1)] bq_wfD [OF assms(1)] by (simp add: ring_read_slots)
qed

lemma copy_out_eq:
  assumes "bq_wf q" and "n \<le> bq_size q" and "n * element_size q \<le> length buf"
  shows "bq_copy_out q n buf =
    Some (concat (take n (bq_contents q)) @ drop (n * element_size q) buf)"
proof -
  let ?L = "bq_length q" and ?w = "element_size q" and ?a = "queue_array q" and ?h = "bq_head q"
  define p where "p = min n (?L - ?h)"
  have wf: "?h < ?L" "n \<le> ?L" "length ?a = ?L * ?w"
    using assms bq_size_le [OF assms(1)] by (auto simp: bq_wf_def)
  note b = ring_part_bounds [OF wf(1,2) assms(3) wf(3), folded p_def]
  let ?x = "take (p * ?w) (drop (?h * ?w) ?a)" and ?y = "take ((n - p) * ?w) ?a"
  have lx: "length ?x = p * ?w" "length ?y = (n - p) * ?w"
    using b wf by (auto simp: add_mult_distrib)
  have sum: "p * ?w + (n - p) * ?w = n * ?w" using b(5) by (simp flip: add_mult_distrib)
  have c1: "array_copy buf 0 ?a (?h * ?w) (p * ?w) = Some (?x @ drop (p * ?w) buf)"
    using b lx by (simp add: array_copy_def blit_def add_mult_distrib min_absorb2)
  have c2: "array_copy (?x @ drop (p * ?w) buf) (p * ?w) ?a 0 ((n - p) * ?w) =
      Some (?x @ ?y @ drop (n * ?w) buf)"
    using b lx sum by (simp add: array_copy_def blit_def min_absorb2 add.commute)
  have rr: "concat (take n (bq_contents q)) = ?x @ ?y"
    by (simp only: ring_read_contents [OF assms(1,2), symmetric] ring_read_def Let_def p_def)
  show ?thesis
  proof (cases "p < n")
    case True
    then show ?thesis
      using c1 c2 rr by (simp add: bq_copy_out_def Let_def p_def [symmetric])
  next
    case False
    with b(5) have "p = n" by simp
    then show ?thesis
      using c1 rr by (simp add: bq_copy_out_def Let_def p_def [symmetric])
  qed
qed

lemma pop_batch_eq:
  assumes "bq_wf q" and "0 < n" and "\<And>buf. data = Some buf \<Longrightarrow> n * element_size q \<le> length buf"
  shows "bq_pop_batch q data n =
    (if n \<le> bq_size q
     then Some (bq_dropped q n, OK, map_option (\<lambda>buf. concat (take n (bq_contents q)) @
       drop (n * element_size q) buf) data)
     else Some (q, EMPTY, data))"
  using assms copy_out_eq [of q n]
  by (cases data) (auto simp: bq_pop_batch_def bq_dropped_def not_less)

lemma pop_eq_batch:
  assumes "bq_wf q"
  shows "bq_pop q data = bq_pop_batch q data 1"
proof -
  have "min (Suc 0) (bq_length q - bq_head q) = Suc 0"
    using bq_wfD(2) [OF assms] by (simp add: min_def)
  then show ?thesis
    by (cases data)
      (auto simp: bq_pop_def bq_pop_batch_def bq_copy_out_def Let_def split: Option.bind_split)
qed

lemma pop_eq:
  assumes "bq_wf q" and "element_size q \<le> length buf"
  shows "bq_pop q (Some buf) = (case bq_contents q of
      [] \<Rightarrow> Some (q, EMPTY, Some buf)
    | x # xs \<Rightarrow> Some (bq_dropped q 1, OK, Some (x @ drop (element_size q) buf)))"
  using assms pop_batch_eq [of q 1 "Some buf"] length_contents [of q]
  by (auto simp: pop_eq_batch simp del: length_contents split: list.splits)

lemma queue_pop_eq:
  assumes "bq_wf q" and "length y = element_size q"
  shows "queue_pop q y = (case bq_contents q of
      [] \<Rightarrow> Some (q, EMPTY, y) | x # xs \<Rightarrow> Some (bq_dropped q 1, OK, x))"
  using assms pop_eq [of q y] by (simp add: queue_pop_def split: list.splits)

section \<open>The queue satisfies the contract\<close>

definition queue_valid :: "base_queue \<Rightarrow> u8 list \<Rightarrow> bool" where
  "queue_valid q x \<longleftrightarrow> length x = element_size q"

lemma queue_push_room:
  assumes "bq_wf q" "queue_valid q x" "length (bq_contents q) < bq_length q"
  shows "queue_push q x = Some (bq_written q x 1, OK)" and "bq_wf (bq_written q x 1)"
    and "bq_contents (bq_written q x 1) = bq_contents q @ [x]"
  using assms wf_written [of q 1 x] contents_written [of q 1 x]
  by (simp_all add: queue_push_def push_eq_batch push_batch_eq queue_valid_def chunks_def)

interpretation bq: bounded_fifo bq_wf bq_contents bq_length queue_valid queue_push queue_pop
proof
  fix q :: base_queue and x y :: "u8 list" and xs
  assume wf: "bq_wf q"
  show "length (bq_contents q) \<le> bq_length q" by (simp add: bq_size_le wf)
  show "\<exists>q'. queue_push q x = Some (q', OK) \<and> bq_wf q' \<and> bq_contents q' = bq_contents q @ [x] \<and>
      bq_length q' = bq_length q \<and> queue_valid q' = queue_valid q"
    if "queue_valid q x" "length (bq_contents q) < bq_length q"
    using queue_push_room [OF wf that]
    by (auto simp: queue_valid_def fun_eq_iff bq_written_def Let_def)
  show "queue_push q x = Some (q, FULL)"
    if "queue_valid q x" "length (bq_contents q) = bq_length q"
    using that wf by (simp add: queue_push_def push_eq_batch push_batch_eq queue_valid_def)
  show "\<exists>q'. queue_pop q y = Some (q', OK, x) \<and> bq_wf q' \<and> bq_contents q' = xs \<and>
      bq_length q' = bq_length q \<and> queue_valid q' = queue_valid q"
    if "queue_valid q y" "bq_contents q = x # xs"
    using that wf contents_dropped [of q 1] length_contents [of q]
    by (auto simp: queue_pop_eq queue_valid_def wf_dropped fun_eq_iff
        simp del: length_contents) (auto simp: bq_dropped_def)
  show "queue_pop q y = Some (q, EMPTY, y)" if "queue_valid q y" "bq_contents q = []"
    using that wf by (simp add: queue_pop_eq queue_valid_def)
qed


section \<open>Properties\<close>

text \<open>C3: a queue of any element size and capacity behaves, over every sequence of pushes and
  pops, exactly as a bounded list: no access leaves the buffer, every reply is the one of the
  abstract queue, and what was popped followed by what is left is what was there followed by
  what was accepted.\<close>

theorem queue_fifo:
  assumes "bq_wf q"
    and "\<forall>x. Enqueue x \<in> set ops \<or> Dequeue x \<in> set ops \<longrightarrow> length x = element_size q"
  shows "\<exists>rs q'. fifo_run queue_push queue_pop q ops = Some (rs, q') \<and> bq_wf q' \<and>
    fifo_spec (bq_length q) (bq_contents q) ops = (rs, bq_contents q') \<and>
    delivered ops rs @ bq_contents q' = bq_contents q @ accepted ops rs"
  using bq.run_refines [OF assms(1), of ops] assms(2) fifo_spec_order
  unfolding queue_valid_def by blast

theorem queue_fifo_witness:
  "\<exists>rs q'. fifo_run queue_push queue_pop (base_queue_on 2 2 [0, 0, 0, 0])
      [Enqueue [1, 2], Enqueue [3, 4], Enqueue [5, 6], Dequeue [0, 0], Enqueue [7, 8]] = Some (rs, q') \<and>
    bq_wf q' \<and> bq_contents q' = [[3, 4], [7, 8]]"
proof -
  let ?q = "base_queue_on 2 2 [0, 0, 0, 0]"
  let ?ops = "[Enqueue [1, 2], Enqueue [3, 4], Enqueue [5, 6], Dequeue [0, 0], Enqueue [7, 8]]"
  have "bq_wf ?q" "bq_contents ?q = []" "bq_length ?q = 2" "element_size ?q = 2"
    using wf_new [of 2 "[0, 0, 0, 0]" 2] by (simp_all add: base_queue_on_def)
  moreover have "snd (fifo_spec 2 [] ?ops) = [[3, 4], [7, 8 :: u8]]" by code_simp
  ultimately show ?thesis using queue_fifo [of ?q ?ops] by auto
qed

text \<open>C4: \<open>PushBatch\<close> is all or nothing. With room for \<open>n\<close> elements (and not the empty batch on
  an empty queue) it appends exactly the \<open>n\<close> elements of the data, across the end of the ring
  or not; without room it changes nothing and reports \<open>FULL\<close>.\<close>

theorem push_batch_correct:
  assumes "bq_wf q" and "n * element_size q \<le> length data" and "0 < n \<or> bq_contents q \<noteq> []"
  shows "\<exists>q'. bq_push_batch q data n =
      Some (q', if bq_size q + n \<le> bq_length q then OK else FULL) \<and>
    bq_wf q' \<and> bq_shape q' = bq_shape q \<and>
    bq_contents q' = (if bq_size q + n \<le> bq_length q
      then bq_contents q @ chunks (element_size q) n data else bq_contents q)"
proof -
  have "0 < n \<or> 0 < bq_size q"
    using assms(3) by (auto simp: bq_contents_def)
  then show ?thesis
    using assms(1,2) wf_written [of q n data] contents_written [of q n data]
    by (auto simp: push_batch_eq)
qed

theorem push_batch_correct_witness:
  "\<exists>q'. bq_push_batch \<lparr>queue_array = [9, 9, 1], element_size = 1, bq_head = 2, bq_tail = 0,
      is_full = False, bq_length = 3, own_buffer = False\<rparr> [5, 6] 2 = Some (q', OK) \<and>
    bq_contents q' = [[1], [5], [6]]"
proof -
  let ?q = "\<lparr>queue_array = [9, 9, 1], element_size = 1, bq_head = 2, bq_tail = 0,
      is_full = False, bq_length = 3, own_buffer = False\<rparr> :: base_queue"
  have "bq_wf ?q" "bq_size ?q = 1" by (simp_all add: bq_wf_def bq_size_def)
  moreover have "bq_contents ?q = [[1]]" "chunks 1 2 [5, 6 :: u8] = [[5], [6]]" by code_simp+
  ultimately show ?thesis using push_batch_correct [of ?q 2 "[5, 6]"] by auto
qed

text \<open>\<open>PopBatch\<close> and \<open>PeekBatch\<close> deliver the oldest \<open>n\<close> elements in order, at the start of
  the caller's buffer and leaving the rest of it untouched; \<open>PopBatch\<close> removes exactly these,
  \<open>PeekBatch\<close> removes none. With fewer than \<open>n\<close> elements both report \<open>EMPTY\<close> and change
  nothing.\<close>

theorem pop_batch_correct:
  assumes "bq_wf q" and "n * element_size q \<le> length buf"
  shows "if n \<le> bq_size q
    then (\<exists>q'. bq_pop_batch q (Some buf) n =
        Some (q', OK, Some (concat (take n (bq_contents q)) @ drop (n * element_size q) buf)) \<and>
        bq_wf q' \<and> bq_shape q' = bq_shape q \<and> bq_contents q' = drop n (bq_contents q)) \<and>
      bq_peek_batch q buf n =
        Some (OK, concat (take n (bq_contents q)) @ drop (n * element_size q) buf)
    else bq_pop_batch q (Some buf) n = Some (q, EMPTY, Some buf) \<and>
      bq_peek_batch q buf n = Some (EMPTY, buf)"
proof (cases "n \<le> bq_size q")
  case True
  have "\<exists>q'. bq_pop_batch q (Some buf) n =
        Some (q', OK, Some (concat (take n (bq_contents q)) @ drop (n * element_size q) buf)) \<and>
        bq_wf q' \<and> bq_shape q' = bq_shape q \<and> bq_contents q' = drop n (bq_contents q)"
  proof (cases "n = 0")
    case True
    then show ?thesis using assms(1) by (simp add: bq_pop_batch_def)
  next
    case False
    then show ?thesis
      using True assms pop_batch_eq [of q n "Some buf"] by (simp add: wf_dropped contents_dropped)
  qed
  then show ?thesis using True assms by (simp add: bq_peek_batch_def copy_out_eq not_less)
next
  case False
  then show ?thesis by (simp add: bq_pop_batch_def bq_peek_batch_def)
qed

theorem pop_batch_correct_witness:
  "\<exists>q'. bq_pop_batch \<lparr>queue_array = [9, 8, 1], element_size = 1, bq_head = 2, bq_tail = 2,
      is_full = True, bq_length = 3, own_buffer = False\<rparr> (Some [0, 0, 7]) 2 =
      Some (q', OK, Some [1, 9, 7]) \<and> bq_contents q' = [[8]]"
proof -
  let ?q = "\<lparr>queue_array = [9, 8, 1], element_size = 1, bq_head = 2, bq_tail = 2,
      is_full = True, bq_length = 3, own_buffer = False\<rparr> :: base_queue"
  have "bq_wf ?q" "bq_size ?q = 3" by (simp_all add: bq_wf_def bq_size_def)
  moreover have "bq_contents ?q = [[1], [9], [8]]" by code_simp
  ultimately show ?thesis using pop_batch_correct [of ?q 2 "[0, 0, 7]"] by auto
qed

text \<open>An empty batch on an empty queue is not a no-op: \<open>PushBatch(data, 0)\<close> finds the head
  equal to the tail and marks the queue full, after which \<open>Size\<close> reports the whole capacity
  and a push is refused.\<close>

theorem push_batch_zero_marks_full:
  assumes "bq_wf q" and "bq_contents q = []"
  shows "\<exists>q'. bq_push_batch q data 0 = Some (q', OK) \<and> bq_size q' = bq_length q \<and>
    bq_push q' x = Some (q', FULL)"
proof -
  have "bq_size q = 0" using assms(2) length_contents [of q] by simp
  then have "bq_tail q = bq_head q" using bq_tail_eq [OF assms(1)] bq_wfD(2) [OF assms(1)] by simp
  then show ?thesis
    using assms(1) \<open>bq_size q = 0\<close> bq_wfD(3) [OF assms(1)]
    by (simp add: push_batch_eq bq_written_def Let_def bq_size_def bq_push_def)
qed

theorem push_batch_zero_marks_full_witness:
  "\<exists>q'. bq_push_batch (base_queue_on 1 2 [0, 0]) [] 0 = Some (q', OK) \<and> bq_size q' = 2 \<and>
    bq_push q' [1] = Some (q', FULL)"
  using push_batch_zero_marks_full [of "base_queue_on 1 2 [0, 0]" "[]" "[1]"]
    wf_new [of 2 "[0, 0]" 1] by (simp add: base_queue_on_def)

text \<open>\<open>Queue<Data>::operator[]\<close> reads, for a non-negative index, that element counted from
  the oldest, and for a negative index that element counted back from the newest.\<close>

theorem queue_get_correct:
  assumes "bq_wf q" and "bq_length q < 2 ^ 31"
    and "- int (bq_size q) \<le> index" and "index < int (bq_size q)"
  shows "queue_get q index =
    Some (bq_contents q ! nat (if 0 \<le> index then index else int (bq_size q) + index))"
proof -
  let ?L = "bq_length q" and ?h = "bq_head q" and ?s = "bq_size q"
  define k where "k = nat (if 0 \<le> index then index else int ?s + index)"
  have k: "k < ?s" using assms(3,4) by (auto simp: k_def)
  have wf: "0 < ?L" "?h < ?L" "?s \<le> ?L" using assms(1) bq_wfD bq_size_le by auto
  have small: "sint (word_of_int (int j) :: 32 word) = int j" if "j < ?L" for j
    using that assms(2) by (simp add: signed_of_nat signed_take_bit_int_eq_self)
  have base: "(if index \<ge> 0 then int ?h + index else int (bq_tail q) + index + int ?L) mod int ?L =
      int ((?h + k) mod ?L)"
  proof (cases "0 \<le> index")
    case True
    then show ?thesis by (simp add: k_def zmod_int)
  next
    case False
    have "int (bq_tail q) + index + int ?L = int ((?h + ?s) mod ?L) + index + int ?L"
      using bq_tail_eq [OF assms(1)] by simp
    also have "\<dots> mod int ?L = (int (?h + ?s) + index) mod int ?L"
      by (simp add: zmod_int mod_add_left_eq)
    also have "int (?h + ?s) + index = int (?h + k)"
      using False assms(3) by (simp add: k_def)
    finally show ?thesis using False by (simp add: zmod_int)
  qed
  have range: "0 \<le> (if index \<ge> 0 then int ?h + index else int (bq_tail q) + index + int ?L)"
    "(if index \<ge> 0 then int ?h + index else int (bq_tail q) + index + int ?L) < 2 ^ 64"
    using wf assms(2,3,4) bq_wfD(3) [OF assms(1)] by auto
  have idx: "queue_index q index = int ((?h + k) mod ?L)"
    using range base wf small [of "(?h + k) mod ?L"]
    by (simp add: queue_index_def Let_def)
  then show ?thesis
    using wf k bq_wfD(4) [OF assms(1)] slot_le [of "(?h + k) mod ?L" ?L "element_size q"]
    by (simp add: queue_get_def Let_def k_def [symmetric] bq_contents_def bq_slot_def)
qed

theorem queue_get_correct_witness:
  "queue_get \<lparr>queue_array = [9, 8, 1], element_size = 1, bq_head = 2, bq_tail = 2,
      is_full = True, bq_length = 3, own_buffer = False\<rparr> (- 1) = Some [8]"
proof -
  let ?q = "\<lparr>queue_array = [9, 8, 1], element_size = 1, bq_head = 2, bq_tail = 2,
      is_full = True, bq_length = 3, own_buffer = False\<rparr> :: base_queue"
  have "bq_wf ?q" "bq_size ?q = 3" by (simp_all add: bq_wf_def bq_size_def)
  moreover have "bq_contents ?q = [[1], [9], [8]]" by code_simp
  ultimately show ?thesis using queue_get_correct [of ?q "- 1"] by simp
qed

text \<open>\<open>Queue<Data>::Overwrite\<close> passes the address of one element to a routine that reads a
  whole buffer: with more than one slot the copy runs past the argument.\<close>

theorem queue_overwrite_out_of_bounds:
  assumes "1 < bq_length q" and "0 < element_size q" and "length data = element_size q"
  shows "queue_overwrite q data = None"
  using assms by (auto simp: queue_overwrite_def bq_overwrite_def Let_def array_copy_def)

theorem queue_overwrite_out_of_bounds_witness:
  "queue_overwrite (base_queue_on 1 2 [0, 0]) [7] = None"
  using queue_overwrite_out_of_bounds [of "base_queue_on 1 2 [0, 0]" "[7]"]
  by (simp add: base_queue_on_def)

end
