(* ===== verification/Stack_Array.thy ===== *)
theory Stack_Array
  imports Prelude Memory "HOL-Library.Monad_Syntax"
begin

text \<open>
  The array stack \<open>Stack<Data>\<close> of src/src/structure/stack.hpp. Every operation takes the
  mutex and must release it on each of its return paths; \<open>None\<close> is a lock that is never
  released or an access outside the array.
\<close>

record 'a stack =
  stk_array :: "'a list"
  stk_top :: nat
  stk_depth :: nat
  stk_mutex :: bool

section \<open>Operations\<close>

text \<open>The elements of the new array are default-initialised; their value is a parameter.\<close>

definition stack_new :: "nat \<Rightarrow> 'a \<Rightarrow> 'a stack" where
  "stack_new depth x =
     \<lparr>stk_array = replicate depth x, stk_top = 0, stk_depth = depth, stk_mutex = False\<rparr>"

text \<open>\<open>operator[]\<close>: the index is an \<open>int32_t\<close>; \<open>top_ + index\<close> is computed in
  \<open>uint32_t\<close>. A failed \<open>ASSERT\<close> does not return.\<close>

definition stack_at :: "'a stack \<Rightarrow> int \<Rightarrow> 'a option" where
  "stack_at s index =
     (if index \<ge> 0
      then (if nat index < stk_depth s then array_get (stk_array s) (nat index) else None)
      else (if int (stk_depth s) + index \<ge> 0
            then array_get (stk_array s) (nat ((int (stk_top s) + index) mod 2 ^ 32))
            else None))"

definition stack_size :: "'a stack \<Rightarrow> nat" where
  "stack_size s = stk_top s"

definition stack_empty_size :: "'a stack \<Rightarrow> nat" where
  "stack_empty_size s = stk_depth s - stk_top s"

definition stack_push :: "'a stack \<Rightarrow> 'a \<Rightarrow> ('a stack \<times> error_code) option" where
  "stack_push s x = do {
     m \<leftarrow> mutex_lock (stk_mutex s);
     if stk_top s \<ge> stk_depth s then Some (s\<lparr>stk_mutex := False\<rparr>, FULL)
     else do {
       arr \<leftarrow> array_set (stk_array s) (stk_top s) x;
       Some (s\<lparr>stk_array := arr, stk_top := stk_top s + 1, stk_mutex := False\<rparr>, OK)
     }
   }"

definition stack_pop :: "'a stack \<Rightarrow> 'a \<Rightarrow> ('a stack \<times> error_code \<times> 'a) option" where
  "stack_pop s y = do {
     m \<leftarrow> mutex_lock (stk_mutex s);
     if stk_top s = 0 then Some (s\<lparr>stk_mutex := False\<rparr>, EMPTY, y)
     else do {
       x \<leftarrow> array_get (stk_array s) (stk_top s - 1);
       Some (s\<lparr>stk_top := stk_top s - 1, stk_mutex := False\<rparr>, OK, x)
     }
   }"

definition stack_drop :: "'a stack \<Rightarrow> ('a stack \<times> error_code) option" where
  "stack_drop s = do {
     m \<leftarrow> mutex_lock (stk_mutex s);
     if stk_top s = 0 then Some (s\<lparr>stk_mutex := False\<rparr>, EMPTY)
     else Some (s\<lparr>stk_top := stk_top s - 1, stk_mutex := False\<rparr>, OK)
   }"

definition stack_peek :: "'a stack \<Rightarrow> 'a \<Rightarrow> ('a stack \<times> error_code \<times> 'a) option" where
  "stack_peek s y = do {
     m \<leftarrow> mutex_lock (stk_mutex s);
     if stk_top s = 0 then Some (s\<lparr>stk_mutex := False\<rparr>, EMPTY, y)
     else do {
       x \<leftarrow> array_get (stk_array s) (stk_top s - 1);
       Some (s\<lparr>stk_mutex := False\<rparr>, OK, x)
     }
   }"

text \<open>\<open>memmove(&stack_[index + 1], &stack_[index], (top_ - index) * sizeof(Data))\<close> reads its
  source before it writes, as \<open>array_copy\<close> from the old array does.\<close>

definition stack_insert :: "'a stack \<Rightarrow> 'a \<Rightarrow> nat \<Rightarrow> ('a stack \<times> error_code) option" where
  "stack_insert s x index = do {
     m \<leftarrow> mutex_lock (stk_mutex s);
     if stk_top s \<ge> stk_depth s then Some (s\<lparr>stk_mutex := False\<rparr>, FULL)
     else if index > stk_top s then Some (s\<lparr>stk_mutex := False\<rparr>, OUT_OF_RANGE)
     else do {
       arr1 \<leftarrow> array_copy (stk_array s) (index + 1) (stk_array s) index (stk_top s - index);
       arr2 \<leftarrow> array_set arr1 index x;
       Some (s\<lparr>stk_array := arr2, stk_top := stk_top s + 1, stk_mutex := False\<rparr>, OK)
     }
   }"

text \<open>\<open>for (i = index; i < top_ - 1; i++) stack_[i] = stack_[i + 1];\<close> with \<open>n\<close> rounds left.\<close>

fun shift_down :: "'a list \<Rightarrow> nat \<Rightarrow> nat \<Rightarrow> 'a list option" where
  "shift_down arr i 0 = Some arr"
| "shift_down arr i (Suc n) = do {
     x \<leftarrow> array_get arr (i + 1);
     arr' \<leftarrow> array_set arr i x;
     shift_down arr' (i + 1) n
   }"

definition stack_delete :: "'a stack \<Rightarrow> nat \<Rightarrow> ('a stack \<times> error_code) option" where
  "stack_delete s index = do {
     m \<leftarrow> mutex_lock (stk_mutex s);
     if index \<ge> stk_top s then Some (s\<lparr>stk_mutex := False\<rparr>, OUT_OF_RANGE)
     else do {
       arr \<leftarrow> shift_down (stk_array s) index (stk_top s - 1 - index);
       Some (s\<lparr>stk_array := arr, stk_top := stk_top s - 1, stk_mutex := False\<rparr>, OK)
     }
   }"

definition stack_reset :: "'a stack \<Rightarrow> 'a stack option" where
  "stack_reset s = do {
     m \<leftarrow> mutex_lock (stk_mutex s);
     Some (s\<lparr>stk_top := 0, stk_mutex := False\<rparr>)
   }"

section \<open>Invariant and abstraction\<close>

text \<open>Between operations the mutex is free; \<open>stack_contents\<close> lists the elements from the
  bottom up.\<close>

definition stack_wf :: "'a stack \<Rightarrow> bool" where
  "stack_wf s \<longleftrightarrow> length (stk_array s) = stk_depth s \<and> stk_top s \<le> stk_depth s \<and> \<not> stk_mutex s"

definition stack_contents :: "'a stack \<Rightarrow> 'a list" where
  "stack_contents s = take (stk_top s) (stk_array s)"

lemma length_stack_contents [simp]: "stack_wf s \<Longrightarrow> length (stack_contents s) = stk_top s"
  by (simp add: stack_wf_def stack_contents_def)

lemma shift_down_eq:
  "i + n < length arr \<Longrightarrow>
   shift_down arr i n = Some (take i arr @ take n (drop (i + 1) arr) @ drop (i + n) arr)"
proof (induction n arbitrary: arr i)
  case 0
  then show ?case by simp
next
  case (Suc n)
  have "take (Suc i) (arr[i := arr ! Suc i]) = take i arr @ [arr ! Suc i]"
    using Suc.prems by (simp add: take_Suc_conv_app_nth)
  moreover have "take (Suc n) (drop (Suc i) arr) = arr ! Suc i # take n (drop (Suc (Suc i)) arr)"
    using Suc.prems by (subst Cons_nth_drop_Suc [symmetric]) auto
  ultimately show ?case
    using Suc.prems Suc.IH [of "Suc i" "arr[i := arr ! Suc i]"] by (simp add: drop_update_cancel)
qed

text \<open>The abstract stack: a list with a capacity, operated on at its end or by position.\<close>

datatype 'a stack_op =
    SPush 'a | SPop 'a | SDrop | SPeek 'a | SInsert 'a nat | SDelete nat | SReset

fun stack_exec :: "'a stack \<Rightarrow> 'a stack_op \<Rightarrow> ('a stack \<times> error_code \<times> 'a option) option" where
  "stack_exec s (SPush x) = map_option (\<lambda>(s', ec). (s', ec, None)) (stack_push s x)"
| "stack_exec s (SPop y) = map_option (\<lambda>(s', ec, v). (s', ec, Some v)) (stack_pop s y)"
| "stack_exec s SDrop = map_option (\<lambda>(s', ec). (s', ec, None)) (stack_drop s)"
| "stack_exec s (SPeek y) = map_option (\<lambda>(s', ec, v). (s', ec, Some v)) (stack_peek s y)"
| "stack_exec s (SInsert x i) = map_option (\<lambda>(s', ec). (s', ec, None)) (stack_insert s x i)"
| "stack_exec s (SDelete i) = map_option (\<lambda>(s', ec). (s', ec, None)) (stack_delete s i)"
| "stack_exec s SReset = map_option (\<lambda>s'. (s', OK, None)) (stack_reset s)"

fun stack_spec :: "nat \<Rightarrow> 'a list \<Rightarrow> 'a stack_op \<Rightarrow> 'a list \<times> error_code \<times> 'a option" where
  "stack_spec d xs (SPush x) = (if length xs < d then (xs @ [x], OK, None) else (xs, FULL, None))"
| "stack_spec d xs (SPop y) =
     (if xs = [] then (xs, EMPTY, Some y) else (butlast xs, OK, Some (last xs)))"
| "stack_spec d xs SDrop = (if xs = [] then (xs, EMPTY, None) else (butlast xs, OK, None))"
| "stack_spec d xs (SPeek y) =
     (if xs = [] then (xs, EMPTY, Some y) else (xs, OK, Some (last xs)))"
| "stack_spec d xs (SInsert x i) =
     (if length xs \<ge> d then (xs, FULL, None)
      else if i > length xs then (xs, OUT_OF_RANGE, None)
      else (take i xs @ x # drop i xs, OK, None))"
| "stack_spec d xs (SDelete i) =
     (if i \<ge> length xs then (xs, OUT_OF_RANGE, None)
      else (take i xs @ drop (Suc i) xs, OK, None))"
| "stack_spec d xs SReset = ([], OK, None)"

lemma stack_insert_contents:
  assumes "t < length arr" and "i \<le> t"
  shows "take (Suc t) ((blit arr (i + 1) (take (t - i) (drop i arr)))[i := x]) =
    take i (take t arr) @ x # drop i (take t arr)"
  using assms
  by (intro nth_equalityI) (auto simp: nth_append nth_blit nth_list_update nth_Cons')

lemma stack_delete_eq:
  assumes "stack_wf s" and "i < stk_top s"
  shows "\<exists>s'. stack_delete s i = Some (s', OK) \<and> stack_wf s' \<and> stk_depth s' = stk_depth s \<and>
    stack_contents s' = take i (stack_contents s) @ drop (Suc i) (stack_contents s)"
proof -
  let ?a = "stk_array s" and ?t = "stk_top s"
  define r where "r = take i ?a @ take (?t - 1 - i) (drop (i + 1) ?a) @ drop (i + (?t - 1 - i)) ?a"
  have t: "i + (?t - 1 - i) < length ?a" "?t \<le> length ?a"
    using assms by (auto simp: stack_wf_def)
  have sh: "shift_down ?a i (?t - 1 - i) = Some r"
    unfolding r_def by (rule shift_down_eq [OF t(1)])
  have len: "length r = length ?a" using t assms(2) by (simp add: r_def)
  have "take (?t - 1) r = take i ?a @ take (?t - 1 - i) (drop (i + 1) ?a)"
    using t assms(2) by (simp add: r_def)
  also have "\<dots> = take i (take ?t ?a) @ drop (Suc i) (take ?t ?a)"
    using assms(2) by (simp add: drop_take min_absorb1)
  finally show ?thesis
    using assms sh len by (auto simp: stack_delete_def stack_wf_def stack_contents_def)
qed

lemma stack_exec_refines:
  assumes wf: "stack_wf s"
  shows "\<exists>s' ec v. stack_exec s op = Some (s', ec, v) \<and> stack_wf s' \<and> stk_depth s' = stk_depth s \<and>
    stack_spec (stk_depth s) (stack_contents s) op = (stack_contents s', ec, v)"
proof -
  let ?a = "stk_array s" and ?t = "stk_top s"
  have a: "length ?a = stk_depth s" "?t \<le> stk_depth s" "\<not> stk_mutex s"
    using wf by (simp_all add: stack_wf_def)
  have same: "s\<lparr>stk_mutex := False\<rparr> = s" using a(3) by simp
  have nil: "stack_contents s = [] \<longleftrightarrow> ?t = 0"
    using length_stack_contents [OF wf] by (metis length_0_conv)
  have lst: "last (take ?t ?a) = ?a ! (?t - 1)" "butlast (take ?t ?a) = take (?t - 1) ?a" if "?t \<noteq> 0"
  proof -
    have "take ?t ?a \<noteq> []" using that a by auto
    then show "last (take ?t ?a) = ?a ! (?t - 1)" using that a by (simp add: last_conv_nth)
    show "butlast (take ?t ?a) = take (?t - 1) ?a" using a by (simp add: butlast_take)
  qed
  show ?thesis
  proof (cases op)
    case (SInsert x i)
    then show ?thesis
      using a same stack_insert_contents [of ?t ?a i x] length_stack_contents [OF wf]
      by (auto simp: stack_insert_def array_copy_def stack_wf_def stack_contents_def)
  next
    case (SDelete i)
    show ?thesis
    proof (cases "?t \<le> i")
      case True
      then have "stack_delete s i = Some (s, OUT_OF_RANGE)"
        using a same by (simp add: stack_delete_def)
      then show ?thesis using SDelete True wf by simp
    next
      case False
      then show ?thesis
        using SDelete wf stack_delete_eq [OF wf, of i] length_stack_contents [OF wf] by fastforce
    qed
  qed (use a same nil lst length_stack_contents [OF wf] in
      \<open>auto simp: stack_push_def stack_pop_def stack_drop_def stack_peek_def stack_reset_def
        stack_wf_def stack_contents_def take_Suc_conv_app_nth\<close>)
qed

section \<open>Properties\<close>

text \<open>C23: every stack operation, on every branch, acts as the operation on a bounded list:
  same result code, same value, same list afterwards; it stays inside the array and releases
  the mutex on every return path.\<close>

theorem stack_refines_list:
  assumes "stack_wf s"
  shows "\<exists>s' ec v. stack_exec s op = Some (s', ec, v) \<and> stack_wf s' \<and> stk_depth s' = stk_depth s \<and>
    stack_spec (stk_depth s) (stack_contents s) op = (stack_contents s', ec, v)"
  using assms by (rule stack_exec_refines)

theorem stack_refines_list_witness:
  "\<exists>s' ec v. stack_exec \<lparr>stk_array = [1, 2, 3, 0 :: nat], stk_top = 3, stk_depth = 4,
      stk_mutex = False\<rparr> (SInsert 9 1) = Some (s', ec, v) \<and> stack_contents s' = [1, 9, 2, 3]"
proof -
  let ?s = "\<lparr>stk_array = [1, 2, 3, 0 :: nat], stk_top = 3, stk_depth = 4, stk_mutex = False\<rparr>"
  have "stack_wf ?s" "stack_contents ?s = [1, 2, 3]"
    by (simp_all add: stack_wf_def stack_contents_def)
  then show ?thesis using stack_refines_list [of ?s "SInsert 9 1"] by auto
qed

text \<open>\<open>operator[]\<close> with a negative index reads that element counted from the top as long as
  there is one; an index that reaches below the bottom passes the assertion, which compares
  with the capacity instead of the fill level, and reads outside the array.\<close>

theorem stack_at_negative:
  assumes "stack_wf s" and "stk_depth s < 2 ^ 31" and "0 < k" and "k \<le> stk_depth s"
  shows "stack_at s (- int k) =
    (if k \<le> stk_top s then Some (stack_contents s ! (stk_top s - k)) else None)"
proof (cases "k \<le> stk_top s")
  case True
  then have "nat ((int (stk_top s) + - int k) mod 2 ^ 32) = stk_top s - k"
    using assms by (simp add: stack_wf_def)
  moreover have "stk_top s - k < length (stk_array s)"
    using assms True by (simp add: stack_wf_def) arith
  ultimately show ?thesis
    using True assms by (simp add: stack_at_def stack_wf_def stack_contents_def)
next
  case False
  then have "(int (stk_top s) - int k) mod 2 ^ 32 = int (stk_top s) - int k + 2 ^ 32"
    using assms by (intro mod_pos_pos_trivial [of "int (stk_top s) - int k + 2 ^ 32" "2 ^ 32",
          simplified mod_add_self2]) auto
  then have "stk_depth s \<le> nat ((int (stk_top s) - int k) mod 2 ^ 32)"
    using assms False by simp
  then show ?thesis
    using False assms by (simp add: stack_at_def stack_wf_def array_get_def)
qed

theorem stack_at_negative_witness:
  "stack_at \<lparr>stk_array = [7 :: nat, 0, 0], stk_top = 1, stk_depth = 3, stk_mutex = False\<rparr> (- 1) = Some 7 \<and>
   stack_at \<lparr>stk_array = [7 :: nat, 0, 0], stk_top = 1, stk_depth = 3, stk_mutex = False\<rparr> (- 2) = None"
  using stack_at_negative [of "\<lparr>stk_array = [7 :: nat, 0, 0], stk_top = 1, stk_depth = 3,
      stk_mutex = False\<rparr>" 1]
    stack_at_negative [of "\<lparr>stk_array = [7 :: nat, 0, 0], stk_top = 1, stk_depth = 3,
      stk_mutex = False\<rparr>" 2]
  by (simp add: stack_wf_def stack_contents_def)

end
