(* ===== verification/Crc.thy ===== *)
theory Crc
  imports Prelude "HOL-Library.Monad_Syntax"
begin

unbundle bit_operations_syntax

text \<open>
  The check sums \<open>CRC8\<close>, \<open>CRC16\<close>, \<open>CRC32\<close> and \<open>CRC64\<close> of src/src/utils/crc.hpp. Each class has
  a static table and an initialisation flag; they are the state \<open>crc_state\<close> that every
  operation takes and returns. A read outside the caller's buffer is \<open>None\<close>. The reference is
  the bit-serial CRC; the table-driven loops are proved equal to it, and the detection of any
  error confined to one byte follows because a bit step is injective.
\<close>

record 'a crc_state =
  crc_tab :: "'a list"
  crc_inited :: bool

section \<open>The bit step\<close>

definition crc_bit :: "'a::len word \<Rightarrow> 'a word \<Rightarrow> 'a word" where
  "crc_bit poly c = (if c AND 1 \<noteq> 0 then drop_bit 1 c XOR poly else drop_bit 1 c)"

text \<open>\<open>for (j = 0; j < 8; ++j)\<close> over one table entry, and the table of 256 entries.\<close>

definition crc_table :: "'a::len word \<Rightarrow> 'a word list" where
  "crc_table poly = map (\<lambda>i. (crc_bit poly ^^ 8) (of_nat i)) [0..<256]"

text \<open>\<open>crc = tab_[(crc ^ *buf++) & 0xff] ^ (crc >> 8)\<close>\<close>

definition crc_table_step :: "'a::len word list \<Rightarrow> 'a word \<Rightarrow> u8 \<Rightarrow> 'a word" where
  "crc_table_step tab c b = tab ! unat ((c XOR ucast b) AND 0xff) XOR drop_bit 8 c"

section \<open>CRC8\<close>

definition crc8_generate_table :: "u8 crc_state \<Rightarrow> u8 crc_state" where
  "crc8_generate_table st = st\<lparr>crc_tab := map (\<lambda>i. (crc_bit 0x8c ^^ 8) i) (map of_nat [0..<256]),
     crc_inited := True\<rparr>"

definition crc8_ready :: "u8 crc_state \<Rightarrow> u8 crc_state" where
  "crc8_ready st = (if crc_inited st then st else crc8_generate_table st)"

definition crc8_calculate :: "u8 crc_state \<Rightarrow> u8 list \<Rightarrow> nat \<Rightarrow> (u8 crc_state \<times> u8) option" where
  "crc8_calculate st raw len =
     (let st' = crc8_ready st
      in if len \<le> length raw
         then Some (st', foldl (\<lambda>c b. crc_tab st' ! unat ((c XOR b) AND 0xff)) 0xFF (take len raw))
         else None)"

definition crc8_verify :: "u8 crc_state \<Rightarrow> u8 list \<Rightarrow> nat \<Rightarrow> (u8 crc_state \<times> bool) option" where
  "crc8_verify st raw len =
     (let st' = crc8_ready st
      in if len < 2 then Some (st', False)
         else do {
           (st'', expected) \<leftarrow> crc8_calculate st' raw (len - 1);
           last_byte \<leftarrow> array_get raw (len - 1);
           Some (st'', expected = last_byte)
         })"

section \<open>CRC16, CRC32 and CRC64\<close>

definition crc16_generate_table :: "u16 crc_state \<Rightarrow> u16 crc_state" where
  "crc16_generate_table st = st\<lparr>crc_tab := crc_table 0x8408, crc_inited := True\<rparr>"

definition crc16_ready :: "u16 crc_state \<Rightarrow> u16 crc_state" where
  "crc16_ready st = (if crc_inited st then st else crc16_generate_table st)"

definition crc16_calculate :: "u16 crc_state \<Rightarrow> u8 list \<Rightarrow> nat \<Rightarrow> (u16 crc_state \<times> u16) option" where
  "crc16_calculate st raw len =
     (let st' = crc16_ready st
      in if len \<le> length raw
         then Some (st', foldl (crc_table_step (crc_tab st')) 0xFFFF (take len raw)) else None)"

text \<open>The trailer is read with \<open>memcpy(&actual, buf + len - sizeof(actual), sizeof(actual))\<close>;
  \<open>len - sizeof\<close> is a \<open>size_t\<close> and wraps below zero.\<close>

definition size_sub :: "nat \<Rightarrow> nat \<Rightarrow> nat" where
  "size_sub a b = nat ((int a - int b) mod 2 ^ 64)"

definition read_trailer :: "nat \<Rightarrow> u8 list \<Rightarrow> nat \<Rightarrow> 'a::len word option" where
  "read_trailer n raw len =
     (let off = size_sub len n
      in if off + n \<le> length raw then Some (le_word (take n (drop off raw))) else None)"

definition crc16_verify :: "u16 crc_state \<Rightarrow> u8 list \<Rightarrow> nat \<Rightarrow> (u16 crc_state \<times> bool) option" where
  "crc16_verify st raw len =
     (let st' = crc16_ready st
      in if len < 2 then Some (st', False)
         else do {
           actual \<leftarrow> read_trailer 2 raw len;
           (st'', expected) \<leftarrow> crc16_calculate st' raw (size_sub len 2);
           Some (st'', expected = actual)
         })"

definition crc32_generate_table :: "u32 crc_state \<Rightarrow> u32 crc_state" where
  "crc32_generate_table st = st\<lparr>crc_tab := crc_table 0xEDB88320, crc_inited := True\<rparr>"

definition crc32_ready :: "u32 crc_state \<Rightarrow> u32 crc_state" where
  "crc32_ready st = (if crc_inited st then st else crc32_generate_table st)"

definition crc32_calculate :: "u32 crc_state \<Rightarrow> u8 list \<Rightarrow> nat \<Rightarrow> (u32 crc_state \<times> u32) option" where
  "crc32_calculate st raw len =
     (let st' = crc32_ready st
      in if len \<le> length raw
         then Some (st', foldl (crc_table_step (crc_tab st')) 0xFFFFFFFF (take len raw)) else None)"

definition crc32_verify :: "u32 crc_state \<Rightarrow> u8 list \<Rightarrow> nat \<Rightarrow> (u32 crc_state \<times> bool) option" where
  "crc32_verify st raw len =
     (let st' = crc32_ready st
      in if len < 2 then Some (st', False)
         else do {
           actual \<leftarrow> read_trailer 4 raw len;
           (st'', expected) \<leftarrow> crc32_calculate st' raw (size_sub len 4);
           Some (st'', expected = actual)
         })"

definition crc64_generate_table :: "u64 crc_state \<Rightarrow> u64 crc_state" where
  "crc64_generate_table st = st\<lparr>crc_tab := crc_table 0xC96C5795D7870F42, crc_inited := True\<rparr>"

definition crc64_ready :: "u64 crc_state \<Rightarrow> u64 crc_state" where
  "crc64_ready st = (if crc_inited st then st else crc64_generate_table st)"

definition crc64_calculate :: "u64 crc_state \<Rightarrow> u8 list \<Rightarrow> nat \<Rightarrow> (u64 crc_state \<times> u64) option" where
  "crc64_calculate st raw len =
     (let st' = crc64_ready st
      in if len \<le> length raw
         then Some (st', foldl (crc_table_step (crc_tab st')) 0xFFFFFFFFFFFFFFFF (take len raw))
         else None)"

section \<open>The bit-serial reference\<close>

definition crc_byte :: "'a::len word \<Rightarrow> 'a word \<Rightarrow> u8 \<Rightarrow> 'a word" where
  "crc_byte poly c b = (crc_bit poly ^^ 8) (c XOR ucast b)"

definition crc_ref :: "'a::len word \<Rightarrow> 'a word \<Rightarrow> u8 list \<Rightarrow> 'a word" where
  "crc_ref poly init bs = foldl (crc_byte poly) init bs"

lemma crc_bit_alt: "crc_bit poly c = drop_bit 1 c XOR (if bit c 0 then poly else 0)"
  by (simp add: crc_bit_def and_one_eq bit_0 mod2_eq_if)

lemma crc_bit_xor: "crc_bit poly (a XOR b) = crc_bit poly a XOR crc_bit poly b"
  by (rule bit_word_eqI) (auto simp: crc_bit_alt bit_simps)

lemma crc_bits_xor: "(crc_bit poly ^^ n) (a XOR b) = (crc_bit poly ^^ n) a XOR (crc_bit poly ^^ n) b"
  by (induction n) (simp_all add: crc_bit_xor)

lemma crc_bits_shift: "(\<And>i. i < n \<Longrightarrow> \<not> bit x i) \<Longrightarrow> (crc_bit poly ^^ n) x = drop_bit n x"
proof (induction n)
  case (Suc n)
  then show ?case by (simp add: crc_bit_alt bit_simps)
qed simp

lemma crc_table_eq:
  fixes x :: "'a::len word"
  shows "(crc_bit poly ^^ 8) x = (crc_bit poly ^^ 8) (x AND 0xff) XOR drop_bit 8 x"
proof -
  have "x = (x AND 0xff) XOR (x AND NOT 0xff)"
    by (rule bit_word_eqI) (auto simp: bit_simps)
  moreover have "(crc_bit poly ^^ 8) (x AND NOT 0xff) = drop_bit 8 x"
  proof -
    have "(crc_bit poly ^^ 8) (x AND NOT 0xff) = drop_bit 8 (x AND NOT 0xff)"
      by (rule crc_bits_shift) (auto simp: bit_simps dest: bit_imp_le_length)
    also have "\<dots> = drop_bit 8 x"
      by (rule bit_word_eqI) (auto simp: bit_simps dest: bit_imp_le_length)
    finally show ?thesis .
  qed
  ultimately show ?thesis by (metis crc_bits_xor)
qed


section \<open>The tables implement the reference\<close>

lemma unat_and_ff: "unat (x AND 0xff :: 'a::len word) < 256"
proof -
  have "unat (x AND 0xff) \<le> unat (0xff :: 'a word)"
    by (rule word_and_le1 [THEN word_le_nat_alt [THEN iffD1]])
  also have "unat (0xff :: 'a word) \<le> 255"
    by (simp add: unsigned_numeral take_bit_nat_less_eq_self)
  finally show ?thesis by simp
qed

lemma crc_table_step_eq: "crc_table_step (crc_table poly) c b = crc_byte poly c b"
proof -
  let ?x = "c XOR ucast b"
  have "crc_table poly ! unat (?x AND 0xff) = (crc_bit poly ^^ 8) (?x AND 0xff)"
    using unat_and_ff [of ?x] by (simp add: crc_table_def)
  moreover have "drop_bit 8 ?x = drop_bit 8 c"
    by (rule bit_word_eqI) (auto simp: bit_simps u8_bit_high)
  ultimately show ?thesis
    by (simp add: crc_table_step_def crc_byte_def crc_table_eq [of poly ?x])
qed

lemma crc_table_fold: "foldl (crc_table_step (crc_table poly)) c bs = crc_ref poly c bs"
proof -
  have "crc_table_step (crc_table poly) = crc_byte poly"
    by (simp add: fun_eq_iff crc_table_step_eq)
  then show ?thesis by (simp add: crc_ref_def)
qed

lemma crc8_step_eq:
  "map (\<lambda>i. (crc_bit 0x8c ^^ 8) i) (map of_nat [0..<256]) ! unat ((c XOR b) AND 0xff) =
    crc_byte (0x8c :: u8) c b"
proof -
  have "(c XOR b) AND 0xff = c XOR b"
    by (rule bit_word_eqI) (auto simp: bit_simps u8_bit_high)
  then show ?thesis
    using unat_and_ff [of "c XOR b"] by (simp add: crc_byte_def)
qed

text \<open>A state is consistent when an initialised table is the generated one.\<close>

definition crc_ok :: "'a::len word \<Rightarrow> 'a word crc_state \<Rightarrow> bool" where
  "crc_ok poly st \<longleftrightarrow> (crc_inited st \<longrightarrow> crc_tab st = crc_table poly)"

lemma crc8_readyD: "crc_ok 0x8c st \<Longrightarrow> crc_tab (crc8_ready st) = crc_table 0x8c"
  by (auto simp: crc_ok_def crc8_ready_def crc8_generate_table_def crc_table_def)

lemma crc_readyD:
  "crc_ok 0x8408 st16 \<Longrightarrow> crc_tab (crc16_ready st16) = crc_table 0x8408"
  "crc_ok 0xEDB88320 st32 \<Longrightarrow> crc_tab (crc32_ready st32) = crc_table 0xEDB88320"
  "crc_ok 0xC96C5795D7870F42 st64 \<Longrightarrow> crc_tab (crc64_ready st64) = crc_table 0xC96C5795D7870F42"
  by (auto simp: crc_ok_def crc16_ready_def crc16_generate_table_def crc32_ready_def
      crc32_generate_table_def crc64_ready_def crc64_generate_table_def)

lemma crc_ready_ok [simp]:
  "crc_ok 0x8c st \<Longrightarrow> crc_ok 0x8c (crc8_ready st)"
  "crc_ok 0x8408 st16 \<Longrightarrow> crc_ok 0x8408 (crc16_ready st16)"
  "crc_ok 0xEDB88320 st32 \<Longrightarrow> crc_ok 0xEDB88320 (crc32_ready st32)"
  "crc_ok 0xC96C5795D7870F42 st64 \<Longrightarrow> crc_ok 0xC96C5795D7870F42 (crc64_ready st64)"
  by (simp_all add: crc_ok_def crc8_readyD crc_readyD)

lemma crc_ready_idem [simp]:
  "crc8_ready (crc8_ready st) = crc8_ready st"
  "crc16_ready (crc16_ready st16) = crc16_ready st16"
  "crc32_ready (crc32_ready st32) = crc32_ready st32"
  by (simp_all add: crc8_ready_def crc8_generate_table_def crc16_ready_def
      crc16_generate_table_def crc32_ready_def crc32_generate_table_def)

lemma crc8_calculate_eq:
  assumes "crc_ok 0x8c st" and "len \<le> length raw"
  shows "crc8_calculate st raw len = Some (crc8_ready st, crc_ref 0x8c 0xFF (take len raw))"
proof -
  have "(\<lambda>c b. crc_tab (crc8_ready st) ! unat ((c XOR b) AND 0xff)) = crc_byte 0x8c"
    unfolding fun_eq_iff crc8_readyD [OF assms(1)] crc_table_def
    using crc8_step_eq by (simp add: comp_def)
  then show ?thesis
    using assms(2) by (simp add: crc8_calculate_def Let_def crc_ref_def)
qed

lemma crc16_calculate_eq:
  "crc_ok 0x8408 st \<Longrightarrow> len \<le> length raw \<Longrightarrow>
   crc16_calculate st raw len = Some (crc16_ready st, crc_ref 0x8408 0xFFFF (take len raw))"
  by (simp add: crc16_calculate_def Let_def crc_readyD crc_table_fold)

lemma crc32_calculate_eq:
  "crc_ok 0xEDB88320 st \<Longrightarrow> len \<le> length raw \<Longrightarrow>
   crc32_calculate st raw len = Some (crc32_ready st, crc_ref 0xEDB88320 0xFFFFFFFF (take len raw))"
  by (simp add: crc32_calculate_def Let_def crc_readyD crc_table_fold)

lemma crc64_calculate_eq:
  "crc_ok 0xC96C5795D7870F42 st \<Longrightarrow> len \<le> length raw \<Longrightarrow>
   crc64_calculate st raw len =
     Some (crc64_ready st, crc_ref 0xC96C5795D7870F42 0xFFFFFFFFFFFFFFFF (take len raw))"
  by (simp add: crc64_calculate_def Let_def crc_readyD crc_table_fold)

section \<open>Injectivity\<close>

lemma xor_right_cancel: "(a :: 'a::len word) XOR p = b XOR p \<Longrightarrow> a = b"
  by (metis xor.assoc xor.right_neutral xor_self_eq)

lemma crc_bit_inj:
  fixes a b poly :: "'a::len word"
  assumes "bit poly (LENGTH('a) - 1)" and "crc_bit poly a = crc_bit poly b"
  shows "a = b"
proof -
  have top: "bit (crc_bit poly c) (LENGTH('a) - 1) = bit c 0" for c :: "'a word"
    using assms(1) by (auto simp: crc_bit_alt bit_simps dest: bit_imp_le_length)
  have low: "bit a 0 = bit b 0" using top assms(2) by metis
  then have "drop_bit 1 a = drop_bit 1 b"
    using assms(2) xor_right_cancel unfolding crc_bit_alt by auto
  then have shifted: "bit a (Suc n) = bit b (Suc n)" for n
    by (metis bit_drop_bit_eq comp_apply plus_1_eq_Suc)
  have "bit a n = bit b n" for n using low shifted by (cases n) simp_all
  then show ?thesis by (intro bit_word_eqI) simp
qed

lemma crc_bits_inj:
  fixes a b poly :: "'a::len word"
  shows "bit poly (LENGTH('a) - 1) \<Longrightarrow> (crc_bit poly ^^ n) a = (crc_bit poly ^^ n) b \<Longrightarrow> a = b"
proof (induction n)
  case (Suc n)
  then have "(crc_bit poly ^^ n) a = (crc_bit poly ^^ n) b"
    using crc_bit_inj [of poly "(crc_bit poly ^^ n) a" "(crc_bit poly ^^ n) b"] by simp
  with Suc show ?case by simp
qed simp

lemma crc_ref_inj:
  fixes c d poly :: "'a::len word"
  assumes "bit poly (LENGTH('a) - 1)"
  shows "crc_ref poly c bs = crc_ref poly d bs \<Longrightarrow> c = d"
proof (induction bs arbitrary: c d)
  case (Cons b bs)
  then have "crc_byte poly c b = crc_byte poly d b" by (simp add: crc_ref_def)
  then have "c XOR ucast b = d XOR ucast b"
    unfolding crc_byte_def using crc_bits_inj assms by blast
  then show ?case by (metis xor.assoc xor_self_eq xor.right_neutral)
qed (simp add: crc_ref_def)

lemma crc_byte_inj:
  fixes poly :: "'a::len word"
  assumes "bit poly (LENGTH('a) - 1)" and "8 \<le> LENGTH('a)" and "crc_byte poly c x = crc_byte poly c y"
  shows "x = y"
proof -
  have "c XOR ucast x = c XOR ucast y"
    using assms crc_bits_inj unfolding crc_byte_def by blast
  then have "(ucast x :: 'a word) = ucast y"
    by (metis xor.left_commute xor_self_eq xor.right_neutral)
  then have cast: "bit (ucast x :: 'a word) n = bit (ucast y :: 'a word) n" for n by simp
  show ?thesis
  proof (rule bit_word_eqI)
    fix n assume "n < LENGTH(8)"
    then show "bit x n = bit y n" using cast [of n] assms(2) by (simp add: bit_simps)
  qed
qed

text \<open>Two messages that differ in one byte have different check sums.\<close>

lemma crc_ref_detects:
  fixes poly :: "'a::len word"
  assumes "bit poly (LENGTH('a) - 1)" and "8 \<le> LENGTH('a)" and "i < length bs" and "x \<noteq> bs ! i"
  shows "crc_ref poly c (bs[i := x]) \<noteq> crc_ref poly c bs"
proof
  assume eq: "crc_ref poly c (bs[i := x]) = crc_ref poly c bs"
  let ?c = "crc_ref poly c (take i bs)"
  have split: "crc_ref poly c (us @ v # ws) = crc_ref poly (crc_byte poly (crc_ref poly c us) v) ws"
    for us v ws by (simp add: crc_ref_def)
  have "crc_ref poly (crc_byte poly ?c x) (drop (Suc i) bs) =
      crc_ref poly (crc_byte poly ?c (bs ! i)) (drop (Suc i) bs)"
    using eq assms(3) split by (metis id_take_nth_drop upd_conv_take_nth_drop)
  then have "crc_byte poly ?c x = crc_byte poly ?c (bs ! i)"
    by (rule crc_ref_inj [OF assms(1)])
  then show False using crc_byte_inj assms by blast
qed

section \<open>Check sums behind a packet\<close>

text \<open>What the callers of \<open>Verify\<close> rely on: \<open>check\<close> compares the trailer of \<open>tl\<close> bytes with
  the check sum \<open>csum\<close> of the bytes before it and keeps the table state consistent, and \<open>csum\<close>
  changes whenever one byte does. A length is a \<open>size_t\<close>, below \<open>2 ^ 64\<close>.\<close>

locale checksum =
  fixes csum :: "u8 list \<Rightarrow> u8 list"
    and check :: "'s \<Rightarrow> u8 list \<Rightarrow> nat \<Rightarrow> ('s \<times> bool) option"
    and ok :: "'s \<Rightarrow> bool"
    and tl_len :: nat
  assumes csum_length: "length (csum bs) = tl_len"
    and csum_detects: "i < length bs \<Longrightarrow> x \<noteq> bs ! i \<Longrightarrow> csum (bs[i := x]) \<noteq> csum bs"
    and check_eq: "ok st \<Longrightarrow> length raw = n + tl_len \<Longrightarrow> 2 \<le> n + tl_len \<Longrightarrow> n + tl_len < 2 ^ 64 \<Longrightarrow>
      \<exists>st'. ok st' \<and> check st raw (n + tl_len) = Some (st', csum (take n raw) = drop n raw)"
begin

lemma accepts:
  "ok st \<Longrightarrow> 2 \<le> length bs + tl_len \<Longrightarrow> length bs + tl_len < 2 ^ 64 \<Longrightarrow>
   \<exists>st'. ok st' \<and> check st (bs @ csum bs) (length bs + tl_len) = Some (st', True)"
  using check_eq [of st "bs @ csum bs" "length bs"] by (simp add: csum_length)

lemma rejects:
  assumes "ok st" and "2 \<le> length bs + tl_len" and "length bs + tl_len < 2 ^ 64"
    and i: "i < length bs + tl_len" and x: "x \<noteq> (bs @ csum bs) ! i"
  shows "\<exists>st'. ok st' \<and>
    check st ((bs @ csum bs)[i := x]) (length bs + tl_len) = Some (st', False)"
proof -
  let ?p = "(bs @ csum bs)[i := x]"
  have "csum (take (length bs) ?p) \<noteq> drop (length bs) ?p"
  proof (cases "i < length bs")
    case True
    then show ?thesis
      using csum_detects [OF True, of x] x by (simp add: list_update_append1 nth_append)
  next
    case False
    then have "i - length bs < length (csum bs)" "x \<noteq> csum bs ! (i - length bs)"
      using i x by (auto simp: csum_length nth_append)
    then have "(csum bs)[i - length bs := x] \<noteq> csum bs"
      by (metis nth_list_update_eq)
    then show ?thesis using False by (simp add: list_update_append)
  qed
  then show ?thesis
    using check_eq [of st ?p "length bs"] assms(1-3) by (simp add: csum_length)
qed

end

text \<open>The three classes that have a \<open>Verify\<close>.\<close>

definition crc8_sum :: "u8 list \<Rightarrow> u8 list" where
  "crc8_sum bs = [crc_ref 0x8c 0xFF bs]"

definition crc16_sum :: "u8 list \<Rightarrow> u8 list" where
  "crc16_sum bs = word_bytes 2 (crc_ref (0x8408 :: u16) 0xFFFF bs)"

definition crc32_sum :: "u8 list \<Rightarrow> u8 list" where
  "crc32_sum bs = word_bytes 4 (crc_ref (0xEDB88320 :: u32) 0xFFFFFFFF bs)"

lemma size_sub_le [simp]:
  assumes "b \<le> a" and "a < 2 ^ 64" shows "size_sub a b = a - b"
proof -
  have "int a - int b = int (a - b)" using assms(1) by simp
  moreover have "int (a - b) < 2 ^ 64" using assms(2) by simp
  ultimately show ?thesis by (simp only: size_sub_def mod_pos_pos_trivial nat_int of_nat_0_le_iff)
qed

lemma read_trailer_eq:
  assumes "length raw = k + n" and "k + n < 2 ^ 64"
  shows "read_trailer n raw (k + n) = Some (le_word (drop k raw))"
  using size_sub_le [of n "k + n"] assms by (simp add: read_trailer_def Let_def)

lemma le_word_eq_iff:
  fixes a :: "'a::len word"
  assumes "LENGTH('a) = 8 * n" and "length bs = n"
  shows "a = le_word bs \<longleftrightarrow> word_bytes n a = bs"
  using word_bytes_le [of n bs, where 'a = 'a] le_word_bytes [of n a] assms
  by (metis order_refl)

lemma sum_eq_iff:
  "length bs = 2 \<Longrightarrow> (a :: u16) = le_word bs \<longleftrightarrow> word_bytes 2 a = bs"
  "length bs = 4 \<Longrightarrow> (b :: u32) = le_word bs \<longleftrightarrow> word_bytes 4 b = bs"
  by (rule le_word_eq_iff; simp)+

lemma word_bytes_inj:
  fixes a b :: "'a::len word"
  assumes "LENGTH('a) = 8 * n" shows "word_bytes n a = word_bytes n b \<Longrightarrow> a = b"
  by (metis assms le_word_bytes order_refl)

lemma crc_sum_length:
  "length (crc8_sum bs) = 1" "length (crc16_sum bs) = 2" "length (crc32_sum bs) = 4"
  by (simp_all add: crc8_sum_def crc16_sum_def crc32_sum_def)

lemma crc_sum_detects:
  assumes "i < length bs" and "x \<noteq> bs ! i"
  shows "crc8_sum (bs[i := x]) \<noteq> crc8_sum bs"
    and "crc16_sum (bs[i := x]) \<noteq> crc16_sum bs"
    and "crc32_sum (bs[i := x]) \<noteq> crc32_sum bs"
proof -
  show "crc8_sum (bs[i := x]) \<noteq> crc8_sum bs"
    using crc_ref_detects [OF _ _ assms, of "0x8c :: u8" "0xFF"] by (simp add: crc8_sum_def)
  have "crc_ref 0x8408 0xFFFF (bs[i := x]) \<noteq> crc_ref (0x8408 :: u16) 0xFFFF bs"
    "crc_ref 0xEDB88320 0xFFFFFFFF (bs[i := x]) \<noteq> crc_ref (0xEDB88320 :: u32) 0xFFFFFFFF bs"
    by (rule crc_ref_detects [OF _ _ assms]; simp)+
  then show "crc16_sum (bs[i := x]) \<noteq> crc16_sum bs" "crc32_sum (bs[i := x]) \<noteq> crc32_sum bs"
    using word_bytes_inj [of 2, where 'a = 16] word_bytes_inj [of 4, where 'a = 32]
    by (auto simp: crc16_sum_def crc32_sum_def)
qed

lemma crc8_check_eq:
  assumes "crc_ok 0x8c st" "length raw = n + 1" "2 \<le> n + (1 :: nat)"
  shows "\<exists>st'. crc_ok 0x8c st' \<and> crc8_verify st raw (n + 1) = Some (st', crc8_sum (take n raw) = drop n raw)"
proof -
  have "drop n raw = [raw ! n]" using assms(2) by (simp add: Cons_nth_drop_Suc [symmetric])
  then show ?thesis
    using assms by (simp add: crc8_verify_def Let_def crc8_calculate_eq crc8_sum_def)
qed

lemma crc16_check_eq:
  assumes "crc_ok 0x8408 st" "length raw = n + 2" "n + 2 < 2 ^ 64"
  shows "\<exists>st'. crc_ok 0x8408 st' \<and>
    crc16_verify st raw (n + 2) = Some (st', crc16_sum (take n raw) = drop n raw)"
  using assms read_trailer_eq [of raw n 2, where 'a = 16] size_sub_le [of 2 "n + 2"]
  by (simp add: crc16_verify_def Let_def crc16_calculate_eq crc16_sum_def sum_eq_iff
      flip: numeral_2_eq_2)

lemma crc32_check_eq:
  assumes "crc_ok 0xEDB88320 st" "length raw = n + 4" "n + 4 < 2 ^ 64"
  shows "\<exists>st'. crc_ok 0xEDB88320 st' \<and>
    crc32_verify st raw (n + 4) = Some (st', crc32_sum (take n raw) = drop n raw)"
  using assms read_trailer_eq [of raw n 4, where 'a = 32] size_sub_le [of 4 "n + 4"]
  by (simp add: crc32_verify_def Let_def crc32_calculate_eq crc32_sum_def sum_eq_iff)

interpretation crc8: checksum crc8_sum crc8_verify "crc_ok 0x8c" 1
  by unfold_locales (simp_all add: crc_sum_length crc_sum_detects crc8_check_eq [simplified])

interpretation crc16: checksum crc16_sum crc16_verify "crc_ok 0x8408" 2
  by unfold_locales (rule crc_sum_length crc_sum_detects crc16_check_eq; assumption)+

interpretation crc32: checksum crc32_sum crc32_verify "crc_ok 0xEDB88320" 4
  by unfold_locales (rule crc_sum_length crc_sum_detects crc32_check_eq; assumption)+

section \<open>Properties\<close>

text \<open>C25: every table-driven \<open>Calculate\<close> computes the bit-serial CRC of the first \<open>len\<close> bytes,
  whether its table has been generated already or not.\<close>

theorem crc_calculate_correct:
  assumes "crc_ok 0x8c s8" "crc_ok 0x8408 s16" "crc_ok 0xEDB88320 s32"
    and "crc_ok 0xC96C5795D7870F42 s64" and "len \<le> length raw"
  shows "map_option snd (crc8_calculate s8 raw len) = Some (crc_ref 0x8c 0xFF (take len raw)) \<and>
    map_option snd (crc16_calculate s16 raw len) = Some (crc_ref 0x8408 0xFFFF (take len raw)) \<and>
    map_option snd (crc32_calculate s32 raw len) =
      Some (crc_ref 0xEDB88320 0xFFFFFFFF (take len raw)) \<and>
    map_option snd (crc64_calculate s64 raw len) =
      Some (crc_ref 0xC96C5795D7870F42 0xFFFFFFFFFFFFFFFF (take len raw))"
  using assms
  by (simp add: crc8_calculate_eq crc16_calculate_eq crc32_calculate_eq crc64_calculate_eq)

definition crc_fresh :: "'a crc_state" where
  "crc_fresh = \<lparr>crc_tab = [], crc_inited = False\<rparr>"

lemma crc_fresh_ok [simp]: "crc_ok poly crc_fresh"
  by (simp add: crc_ok_def crc_fresh_def)

theorem crc_calculate_correct_witness:
  "map_option snd (crc8_calculate crc_fresh [1, 2, 3] 2) = Some (crc_ref 0x8c 0xFF [1, 2])"
  using crc_calculate_correct [of crc_fresh crc_fresh crc_fresh crc_fresh 2 "[1, 2, 3]"]
  by simp

text \<open>A packet that ends in the check sum of its payload passes \<open>Verify\<close>, and no packet that
  differs from it in exactly one byte does, the bytes of the check sum included.\<close>

theorem crc8_verify_detects:
  assumes "crc_ok 0x8c st" and "bs \<noteq> []" and "length bs + 1 < 2 ^ 64" and "i < length bs + 1"
  shows "\<exists>st'. crc_ok 0x8c st' \<and> crc8_verify st ((bs @ crc8_sum bs)[i := x]) (length bs + 1) =
    Some (st', x = (bs @ crc8_sum bs) ! i)"
proof (cases "x = (bs @ crc8_sum bs) ! i")
  case True
  then show ?thesis using crc8.accepts [of st bs] assms by (simp add: Suc_le_eq)
next
  case False
  then show ?thesis using crc8.rejects [of st bs i x] assms by (simp add: Suc_le_eq)
qed

theorem crc8_verify_detects_witness:
  "\<exists>st'. crc_ok 0x8c st' \<and> crc8_verify crc_fresh (([7, 9] @ crc8_sum [7, 9])[1 := 8]) 3 =
    Some (st', False)"
  using crc8_verify_detects [of crc_fresh "[7, 9]" 1 8] by (simp add: numeral_3_eq_3)

text \<open>The same for the two multi-byte trailers; the 32-bit trailer needs a buffer of at least
  four bytes, which the theorem's packets have.\<close>

theorem crc_wide_verify_detects:
  assumes "crc_ok 0x8408 s16" and "crc_ok 0xEDB88320 s32" and "length bs + 4 < 2 ^ 64"
    and "i < length bs + 2" and "k < length bs + 4"
  shows "(\<exists>st'. crc16_verify s16 ((bs @ crc16_sum bs)[i := x]) (length bs + 2) =
      Some (st', x = (bs @ crc16_sum bs) ! i)) \<and>
    (\<exists>st'. crc32_verify s32 ((bs @ crc32_sum bs)[k := y]) (length bs + 4) =
      Some (st', y = (bs @ crc32_sum bs) ! k))"
proof -
  have small: "length bs + 2 < 2 ^ 64" using assms(3) by linarith
  have "\<exists>st'. crc16_verify s16 ((bs @ crc16_sum bs)[i := x]) (length bs + 2) =
      Some (st', x = (bs @ crc16_sum bs) ! i)"
    using crc16.accepts [of s16 bs, OF assms(1) _ small]
      crc16.rejects [of s16 bs i x, OF assms(1) _ small assms(4)]
    by (cases "x = (bs @ crc16_sum bs) ! i") auto
  moreover have "\<exists>st'. crc32_verify s32 ((bs @ crc32_sum bs)[k := y]) (length bs + 4) =
      Some (st', y = (bs @ crc32_sum bs) ! k)"
    using crc32.accepts [of s32 bs, OF assms(2) _ assms(3)]
      crc32.rejects [of s32 bs k y, OF assms(2) _ assms(3,5)]
    by (cases "y = (bs @ crc32_sum bs) ! k") auto
  ultimately show ?thesis by blast
qed

theorem crc_wide_verify_detects_witness:
  "\<exists>st'. crc32_verify crc_fresh (([5] @ crc32_sum [5])[0 := 4]) 5 = Some (st', False)"
  using crc_wide_verify_detects [of crc_fresh crc_fresh "[5]" 0 0 4 4] by simp

text \<open>\<open>CRC32::Verify\<close> guards with \<open>len < 2\<close> although its trailer has four bytes: for a
  buffer of two or three bytes it reads before the start of the buffer, which the 16-bit class,
  whose guard is the same, does not.\<close>

theorem crc32_verify_short_out_of_bounds:
  assumes "length raw = 2 \<or> length raw = 3" and "crc_ok 0x8408 s16"
  shows "crc32_verify st raw (length raw) = None \<and> crc16_verify s16 raw (length raw) \<noteq> None"
proof -
  have "length raw = 0 + 2 \<or> length raw = 1 + 2" using assms(1) by auto
  then have "crc16_verify s16 raw (length raw) \<noteq> None"
    using crc16_check_eq [OF assms(2), of raw 0] crc16_check_eq [OF assms(2), of raw 1] by auto
  moreover have "crc32_verify st raw (length raw) = None"
    using assms(1) by (auto simp: crc32_verify_def Let_def read_trailer_def size_sub_def)
  ultimately show ?thesis by blast
qed

theorem crc32_verify_short_out_of_bounds_witness:
  "crc32_verify crc_fresh [1, 2, 3] 3 = None"
  using crc32_verify_short_out_of_bounds [of "[1, 2, 3]" crc_fresh crc_fresh]
  by (simp add: numeral_3_eq_3)

end
