(* ===== verification/Double_Buffer.thy ===== *)
theory Double_Buffer
  imports Memory "HOL-Library.Monad_Syntax"
begin

text \<open>
  \<open>DoubleBuffer\<close> of src/src/structure/double_buffer.cpp and double_buffer.hpp: one memory block
  split into two buffers of \<open>SIZE\<close> bytes, an active and a pending one. The two pointers are
  offsets into the block; \<open>FastCopy\<close> into the block is \<open>array_copy\<close>. The specification has two
  separate buffers that \<open>Switch\<close> and \<open>SetActiveBlock\<close> exchange.
\<close>

record double_buffer =
  db_block :: "u8 list"
  db_buffer :: "nat list"
  db_SIZE :: nat
  db_active :: nat
  pending_valid :: bool
  active_len :: nat
  pending_len :: nat

definition double_buffer_new :: "u8 list \<Rightarrow> double_buffer" where
  "double_buffer_new raw = \<lparr>db_block = raw, db_buffer = [0, length raw div 2],
     db_SIZE = length raw div 2, db_active = 0, pending_valid = False, active_len = 0,
     pending_len = 0\<rparr>"

definition active_buffer :: "double_buffer \<Rightarrow> nat option" where
  "active_buffer d = array_get (db_buffer d) (db_active d)"

definition pending_buffer :: "double_buffer \<Rightarrow> nat option" where
  "pending_buffer d = array_get (db_buffer d) (1 - db_active d)"

definition buffer_size :: "double_buffer \<Rightarrow> nat" where
  "buffer_size d = db_SIZE d"

definition buffer_switch :: "double_buffer \<Rightarrow> double_buffer" where
  "buffer_switch d =
     (if pending_valid d
      then d\<lparr>db_active := unat (of_nat (db_active d) XOR (1 :: u32)), pending_valid := False\<rparr>
      else d)"

definition has_pending :: "double_buffer \<Rightarrow> bool" where
  "has_pending d = pending_valid d"

definition fill_pending :: "double_buffer \<Rightarrow> u8 list \<Rightarrow> nat \<Rightarrow> (double_buffer \<times> bool) option" where
  "fill_pending d data len =
     (if pending_valid d \<or> len > db_SIZE d then Some (d, False)
      else do {
        p \<leftarrow> pending_buffer d;
        block \<leftarrow> array_copy (db_block d) p data 0 len;
        Some (d\<lparr>db_block := block, pending_len := len, pending_valid := True\<rparr>, True)
      })"

definition fill_active :: "double_buffer \<Rightarrow> u8 list \<Rightarrow> nat \<Rightarrow> (double_buffer \<times> bool) option" where
  "fill_active d data len =
     (if len > db_SIZE d then Some (d, False)
      else do {
        p \<leftarrow> active_buffer d;
        block \<leftarrow> array_copy (db_block d) p data 0 len;
        Some (d\<lparr>db_block := block\<rparr>, True)
      })"

definition enable_pending :: "double_buffer \<Rightarrow> double_buffer" where
  "enable_pending d = d\<lparr>pending_valid := True\<rparr>"

definition get_pending_length :: "double_buffer \<Rightarrow> nat" where
  "get_pending_length d = (if pending_valid d then pending_len d else 0)"

definition get_active_length :: "double_buffer \<Rightarrow> nat" where
  "get_active_length d = active_len d"

definition set_pending_length :: "double_buffer \<Rightarrow> nat \<Rightarrow> double_buffer" where
  "set_pending_length d n = d\<lparr>pending_len := n\<rparr>"

definition set_active_length :: "double_buffer \<Rightarrow> nat \<Rightarrow> double_buffer" where
  "set_active_length d n = d\<lparr>active_len := n\<rparr>"

definition set_active_block :: "double_buffer \<Rightarrow> bool \<Rightarrow> double_buffer" where
  "set_active_block d block = d\<lparr>db_active := (if block then 1 else 0)\<rparr>"

section \<open>Call sequences\<close>

datatype db_op =
    Fill_Pending "u8 list" | Fill_Active "u8 list" | Switch | Enable_Pending
  | Set_Pending_Length nat | Set_Active_Length nat | Set_Active_Block bool

fun db_step :: "double_buffer \<Rightarrow> db_op \<Rightarrow> (double_buffer \<times> bool) option" where
  "db_step d (Fill_Pending bs) = fill_pending d bs (length bs)"
| "db_step d (Fill_Active bs) = fill_active d bs (length bs)"
| "db_step d Switch = Some (buffer_switch d, True)"
| "db_step d Enable_Pending = Some (enable_pending d, True)"
| "db_step d (Set_Pending_Length n) = Some (set_pending_length d n, True)"
| "db_step d (Set_Active_Length n) = Some (set_active_length d n, True)"
| "db_step d (Set_Active_Block b) = Some (set_active_block d b, True)"

fun db_exec :: "double_buffer \<Rightarrow> db_op list \<Rightarrow> (double_buffer \<times> bool list) option" where
  "db_exec d [] = Some (d, [])"
| "db_exec d (op # ops) = do {
     (d', r) \<leftarrow> db_step d op;
     (d'', rs) \<leftarrow> db_exec d' ops;
     Some (d'', r # rs)
   }"

section \<open>Specification: two buffers\<close>

record two_buffers =
  front :: "u8 list"
  rear :: "u8 list"
  second_in_front :: bool
  rear_ready :: bool
  front_len :: nat
  rear_len :: nat

definition exchange :: "two_buffers \<Rightarrow> two_buffers" where
  "exchange s = s\<lparr>front := rear s, rear := front s, second_in_front := \<not> second_in_front s\<rparr>"

fun spec_step :: "two_buffers \<Rightarrow> db_op \<Rightarrow> two_buffers \<times> bool" where
  "spec_step s (Fill_Pending bs) =
     (if rear_ready s \<or> length bs > length (rear s) then (s, False)
      else (s\<lparr>rear := bs @ drop (length bs) (rear s), rear_len := length bs, rear_ready := True\<rparr>, True))"
| "spec_step s (Fill_Active bs) =
     (if length bs > length (front s) then (s, False)
      else (s\<lparr>front := bs @ drop (length bs) (front s)\<rparr>, True))"
| "spec_step s Switch =
     (if rear_ready s then ((exchange s)\<lparr>rear_ready := False\<rparr>, True) else (s, True))"
| "spec_step s Enable_Pending = (s\<lparr>rear_ready := True\<rparr>, True)"
| "spec_step s (Set_Pending_Length n) = (s\<lparr>rear_len := n\<rparr>, True)"
| "spec_step s (Set_Active_Length n) = (s\<lparr>front_len := n\<rparr>, True)"
| "spec_step s (Set_Active_Block b) = (if b = second_in_front s then s else exchange s, True)"

fun spec_exec :: "two_buffers \<Rightarrow> db_op list \<Rightarrow> two_buffers \<times> bool list" where
  "spec_exec s [] = (s, [])"
| "spec_exec s (op # ops) =
     (let (s', r) = spec_step s op; (s'', rs) = spec_exec s' ops in (s'', r # rs))"

section \<open>Refinement\<close>

definition db_wf :: "double_buffer \<Rightarrow> bool" where
  "db_wf d \<longleftrightarrow> db_buffer d = [0, db_SIZE d] \<and> 2 * db_SIZE d \<le> length (db_block d) \<and> db_active d < 2"

definition db_half :: "double_buffer \<Rightarrow> nat \<Rightarrow> u8 list" where
  "db_half d i = take (db_SIZE d) (drop (i * db_SIZE d) (db_block d))"

definition db_view :: "double_buffer \<Rightarrow> two_buffers" where
  "db_view d = \<lparr>front = db_half d (db_active d), rear = db_half d (1 - db_active d),
     second_in_front = (db_active d = 1), rear_ready = pending_valid d, front_len = active_len d, rear_len = pending_len d\<rparr>"

lemma db_new_wf: "db_wf (double_buffer_new raw)"
  by (simp add: db_wf_def double_buffer_new_def)

lemma db_active_cases: "db_wf d \<Longrightarrow> db_active d = 0 \<or> db_active d = 1"
  by (auto simp: db_wf_def)

lemma db_flip:
  "a < 2 \<Longrightarrow> unat (of_nat a XOR (1 :: u32)) = 1 - a"
  by (auto simp: less_2_cases_iff)

lemma db_half_length: "db_wf d \<Longrightarrow> i < 2 \<Longrightarrow> length (db_half d i) = db_SIZE d"
  by (auto simp: db_wf_def db_half_def less_2_cases_iff)

text \<open>Writing at the start of one half leaves the other alone.\<close>

lemma db_half_write:
  assumes "db_wf d" "i < 2" "j < 2" "length bs \<le> db_SIZE d"
  shows "db_half (d\<lparr>db_block := blit (db_block d) (i * db_SIZE d) bs\<rparr>) j =
    (if j = i then bs @ drop (length bs) (db_half d j) else db_half d j)"
proof (cases "j = i")
  case True
  have "i * db_SIZE d + db_SIZE d \<le> length (db_block d)"
    using assms by (auto simp: db_wf_def less_2_cases_iff)
  then show ?thesis
    using True assms(4)
    by (simp add: db_half_def blit_def drop_take add.commute min_def)
next
  case False
  then have "j * db_SIZE d + db_SIZE d \<le> i * db_SIZE d \<or> i * db_SIZE d + length bs \<le> j * db_SIZE d"
    "i * db_SIZE d + length bs \<le> length (db_block d)"
    using assms by (auto simp: db_wf_def less_2_cases_iff)
  then show ?thesis
    using False by (simp add: db_half_def take_drop_blit_outside)
qed

lemma db_copy:
  "db_wf d \<Longrightarrow> i < 2 \<Longrightarrow> length bs \<le> db_SIZE d \<Longrightarrow>
   array_copy (db_block d) (i * db_SIZE d) bs 0 (length bs) =
     Some (blit (db_block d) (i * db_SIZE d) bs)"
  by (auto simp: array_copy_def db_wf_def less_2_cases_iff)

lemma db_buffer_offset: "db_wf d \<Longrightarrow> i < 2 \<Longrightarrow> array_get (db_buffer d) i = Some (i * db_SIZE d)"
  by (auto simp: db_wf_def array_get_def less_2_cases_iff)

lemma db_wf_block:
  "db_wf d \<Longrightarrow> length b = length (db_block d) \<Longrightarrow> db_wf (d\<lparr>db_block := b\<rparr>)"
  by (simp add: db_wf_def)

lemma length_db_blit:
  "db_wf d \<Longrightarrow> i < 2 \<Longrightarrow> length bs \<le> db_SIZE d \<Longrightarrow>
   length (blit (db_block d) (i * db_SIZE d) bs) = length (db_block d)"
  by (rule length_blit) (auto simp: db_wf_def less_2_cases_iff)

lemma db_half_cong: "db_block d = db_block e \<Longrightarrow> db_SIZE d = db_SIZE e \<Longrightarrow> db_half d = db_half e"
  by (simp add: db_half_def fun_eq_iff)

lemma db_step_refines:
  assumes "db_wf d"
  shows "\<exists>d' r. db_step d op = Some (d', r) \<and> db_wf d' \<and> spec_step (db_view d) op = (db_view d', r)"
proof -
  let ?a = "db_active d"
  have a: "?a < 2" "1 - ?a < 2" using assms by (auto simp: db_wf_def)
  show ?thesis
  proof (cases op)
    case (Fill_Pending bs)
    let ?d = "d\<lparr>db_block := blit (db_block d) ((1 - ?a) * db_SIZE d) bs\<rparr>"
    show ?thesis
    proof (cases "pending_valid d \<or> length bs > db_SIZE d")
      case False
      then have "db_step d op = Some (?d\<lparr>pending_len := length bs, pending_valid := True\<rparr>, True)"
        using assms a Fill_Pending
        by (simp add: fill_pending_def pending_buffer_def db_buffer_offset db_copy del: diff_mult_distrib)
      moreover have "db_wf ?d" using assms a False by (intro db_wf_block length_db_blit) auto
      then have "db_wf (?d\<lparr>pending_len := length bs, pending_valid := True\<rparr>)" by (simp add: db_wf_def)
      moreover have "db_half (?d\<lparr>pending_len := length bs, pending_valid := True\<rparr>) = db_half ?d"
        by (rule db_half_cong) simp_all
      moreover have "db_half ?d ?a = db_half d ?a"
        "db_half ?d (1 - ?a) = bs @ drop (length bs) (db_half d (1 - ?a))"
        using db_active_cases [OF assms] False a
        by (subst db_half_write [OF assms]; force)+
      ultimately show ?thesis
        using False Fill_Pending a db_half_length [OF assms]
        by (auto simp: db_view_def)
    qed (use Fill_Pending assms a db_half_length [OF assms] in
        \<open>auto simp: fill_pending_def db_view_def\<close>)
  next
    case (Fill_Active bs)
    let ?d = "d\<lparr>db_block := blit (db_block d) (?a * db_SIZE d) bs\<rparr>"
    show ?thesis
    proof (cases "length bs > db_SIZE d")
      case False
      then have "db_step d op = Some (?d, True)"
        using assms a Fill_Active
        by (simp add: fill_active_def active_buffer_def db_buffer_offset db_copy)
      moreover have "db_wf ?d" using assms a False by (intro db_wf_block length_db_blit) auto
      moreover have "db_half ?d ?a = bs @ drop (length bs) (db_half d ?a)"
        "db_half ?d (1 - ?a) = db_half d (1 - ?a)"
        using db_active_cases [OF assms] False a
        by (subst db_half_write [OF assms]; force)+
      ultimately show ?thesis
        using False Fill_Active a db_half_length [OF assms] by (auto simp: db_view_def)
    qed (use Fill_Active assms a db_half_length [OF assms] in
        \<open>auto simp: fill_active_def db_view_def\<close>)
  next
    case Switch
    have "db_half (d\<lparr>db_active := x, pending_valid := y\<rparr>) = db_half d" for x y
      by (rule db_half_cong) simp_all
    then show ?thesis
      using Switch assms a db_flip [OF a(1)]
      by (auto simp: buffer_switch_def db_view_def db_wf_def exchange_def)
  next
    case (Set_Active_Block b)
    have "db_half (d\<lparr>db_active := x\<rparr>) = db_half d" for x by (rule db_half_cong) simp_all
    then show ?thesis
      using Set_Active_Block assms db_active_cases [OF assms]
      by (auto simp: set_active_block_def db_view_def db_wf_def exchange_def)
  qed (use assms in \<open>auto simp: enable_pending_def set_pending_length_def set_active_length_def
      db_view_def db_wf_def db_half_def\<close>)
qed

lemma db_exec_refines:
  "db_wf d \<Longrightarrow> \<exists>d' rs. db_exec d ops = Some (d', rs) \<and> db_wf d' \<and>
     spec_exec (db_view d) ops = (db_view d', rs)"
proof (induction ops arbitrary: d)
  case (Cons op ops)
  from db_step_refines [OF Cons.prems, of op] obtain d1 r where
    step: "db_step d op = Some (d1, r)" "db_wf d1" "spec_step (db_view d) op = (db_view d1, r)"
    by blast
  from Cons.IH [OF step(2)] step show ?case by auto
qed simp

section \<open>Properties\<close>

text \<open>C24: any sequence of calls on a buffer built over any memory block behaves as on two
  separate buffers that \<open>Switch\<close> and \<open>SetActiveBlock\<close> exchange: a call that fills one leaves the
  other alone and does not write outside the block, and \<open>Switch\<close> hands a pending block over exactly
  once.\<close>

theorem double_buffer_refines:
  "\<exists>d' rs. db_exec (double_buffer_new raw) ops = Some (d', rs) \<and>
    spec_exec (db_view (double_buffer_new raw)) ops = (db_view d', rs) \<and>
    length (db_block d') = length raw"
proof -
  have len: "db_exec d os = Some (d', rs) \<Longrightarrow> db_wf d \<Longrightarrow> length (db_block d') = length (db_block d)"
    for d os d' rs
  proof (induction os arbitrary: d rs)
    case (Cons op os)
    then obtain d1 r rs1 where s: "db_step d op = Some (d1, r)" "db_exec d1 os = Some (d', rs1)"
      by (auto split: bind_splits)
    have "length (db_block d1) = length (db_block d)"
      using s(1) by (cases op) (auto simp: fill_pending_def fill_active_def array_copy_def
          buffer_switch_def enable_pending_def set_pending_length_def set_active_length_def
          set_active_block_def split: bind_splits if_splits)
    moreover have "db_wf d1" using db_step_refines [OF Cons.prems(2), of op] s(1) by auto
    ultimately show ?case using Cons.IH s(2) by simp
  qed simp
  from db_exec_refines [OF db_new_wf [of raw], of ops] len [OF _ db_new_wf [of raw]]
  show ?thesis by (fastforce simp: double_buffer_new_def)
qed

end
