(* ===== verification/Timebase.thy ===== *)
theory Timebase
  imports Prelude "HOL-Library.Monad_Syntax"
begin

text \<open>
  The time stamps of src/src/core/libxr_time.hpp and \<open>Timebase\<close> of src/src/driver/timebase.hpp.
  The two globals \<open>libxr_timebase_max_valid_us\<close> and \<open>libxr_timebase_max_valid_ms\<close> are the
  record \<open>timebase\<close>; a failing \<open>ASSERT\<close> is \<open>None\<close>. The counter itself is a virtual function of
  the platform: its readings are a parameter, a sequence of words. The conversions to seconds
  in floating point are not modelled.
\<close>

record timebase =
  max_valid_us :: u64
  max_valid_ms :: u32

definition timebase_new :: "u64 \<Rightarrow> u32 \<Rightarrow> timebase" where
  "timebase_new max_us max_ms = \<lparr>max_valid_us = max_us, max_valid_ms = max_ms\<rparr>"

section \<open>Differences of time stamps\<close>

definition us_diff :: "timebase \<Rightarrow> u64 \<Rightarrow> u64 \<Rightarrow> u64 option" where
  "us_diff tb now old =
     (let elapsed = (if now \<ge> old then now - old else now + (max_valid_us tb - old) + 1)
      in if elapsed \<le> max_valid_us tb then Some elapsed else None)"

definition ms_diff :: "timebase \<Rightarrow> u32 \<Rightarrow> u32 \<Rightarrow> u32 option" where
  "ms_diff tb now old =
     (let elapsed = (if now \<ge> old then now - old else now + (max_valid_ms tb - old) + 1)
      in if elapsed \<le> max_valid_ms tb then Some elapsed else None)"

text \<open>\<open>Duration::ToMicrosecond\<close> and \<open>Duration::ToMillisecond\<close> of the two classes.\<close>

definition us_to_microsecond :: "u64 \<Rightarrow> u64" where
  "us_to_microsecond d = d"

definition us_to_millisecond :: "u64 \<Rightarrow> u32" where
  "us_to_millisecond d = ucast (d div 1000)"

definition ms_to_millisecond :: "u32 \<Rightarrow> u32" where
  "ms_to_millisecond d = d"

definition ms_to_microsecond :: "u32 \<Rightarrow> u64" where
  "ms_to_microsecond d = ucast d * 1000"

text \<open>A counter with the largest value \<open>M\<close> runs modulo \<open>M + 1\<close>; the difference of two readings
  is the distance on that circle.\<close>

definition circle_diff :: "nat \<Rightarrow> nat \<Rightarrow> nat \<Rightarrow> nat" where
  "circle_diff M now old = nat ((int now - int old) mod (int M + 1))"

lemma circle_diff_alt:
  assumes "now \<le> M" "old \<le> M"
  shows "circle_diff M now old = (if old \<le> now then now - old else now + (M - old) + 1)"
proof (cases "old \<le> now")
  case True
  then show ?thesis using assms
    by (simp add: circle_diff_def mod_pos_pos_trivial nat_diff_distrib)
next
  case False
  have "(int now - int old) mod (int M + 1) = (int now - int old + (int M + 1)) mod (int M + 1)"
    by simp
  also have "\<dots> = int now - int old + (int M + 1)"
    using False assms by (intro mod_pos_pos_trivial) auto
  finally show ?thesis using False assms by (simp add: circle_diff_def)
qed

lemma word_gap:
  fixes now old m :: "'a::len word"
  assumes "now \<le> m" "old \<le> m" "\<not> old \<le> now"
  shows "unat (now + (m - old) + 1) = unat now + (unat m - unat old) + 1"
proof -
  have le: "unat now < unat old" "unat old \<le> unat m" using assms by (simp_all add: word_le_nat_alt)
  then have "unat now + (unat m - unat old) + 1 \<le> unat m" by linarith
  moreover have "unat m < 2 ^ LENGTH('a)" by (rule unsigned_less)
  ultimately have lt: "unat now + (unat m - unat old) + 1 < 2 ^ LENGTH('a)" by linarith
  have "now + (m - old) + 1 = of_nat (unat now + (unat m - unat old) + 1)"
    using le by (simp add: of_nat_diff)
  then show ?thesis using lt by (simp only: unat_of_nat_small)
qed

lemma diff_circle:
  fixes now old m :: "'a::len word"
  assumes "now \<le> m" "old \<le> m"
  defines "e \<equiv> (if now \<ge> old then now - old else now + (m - old) + 1)"
  shows "unat e = circle_diff (unat m) (unat now) (unat old)" and "e \<le> m"
proof -
  have le: "unat now \<le> unat m" "unat old \<le> unat m" using assms by (simp_all add: word_le_nat_alt)
  show *: "unat e = circle_diff (unat m) (unat now) (unat old)"
  proof (cases "old \<le> now")
    case True
    then show ?thesis
      by (simp add: e_def circle_diff_alt le unat_sub word_le_nat_alt)
  next
    case False
    then have "e = now + (m - old) + 1" by (simp add: e_def)
    moreover have "\<not> unat old \<le> unat now" using False by (simp add: word_le_nat_alt)
    ultimately show ?thesis
      using word_gap [OF assms(1,2) False] by (simp only: circle_diff_alt [OF le] if_False)
  qed
  have "circle_diff (unat m) (unat now) (unat old) \<le> unat m"
    using le by (auto simp: circle_diff_alt)
  with * show "e \<le> m" by (simp add: word_le_nat_alt)
qed

section \<open>Busy waiting\<close>

text \<open>\<open>DelayMicroseconds\<close>: the readings of the counter come from \<open>clock\<close>, one per call; the
  result is the number of readings the loop takes, and \<open>None\<close> when the fuel ends before.\<close>

fun delay_loop :: "nat \<Rightarrow> (nat \<Rightarrow> u64) \<Rightarrow> u64 \<Rightarrow> u32 \<Rightarrow> nat \<Rightarrow> nat option" where
  "delay_loop 0 clock start us n = None"
| "delay_loop (Suc fuel) clock start us n =
     (if clock n - start < ucast us then delay_loop fuel clock start us (Suc n) else Some (Suc n))"

definition delay_microseconds :: "nat \<Rightarrow> (nat \<Rightarrow> u64) \<Rightarrow> u32 \<Rightarrow> nat option" where
  "delay_microseconds fuel clock us =
     (if us = 0 then Some 0 else delay_loop fuel clock (clock 0) us 1)"

lemma delay_loop_first:
  assumes "n \<le> k" "\<not> clock k - start < ucast us" "\<forall>i. n \<le> i \<and> i < k \<longrightarrow> clock i - start < ucast us"
    and "k - n < fuel"
  shows "delay_loop fuel clock start us n = Some (Suc k)"
  using assms
proof (induction fuel arbitrary: n)
  case (Suc fuel)
  show ?case
  proof (cases "n = k")
    case False
    then have "delay_loop fuel clock start us (Suc n) = Some (Suc k)"
      using Suc.prems by (intro Suc.IH) auto
    moreover have "clock n - start < ucast us" using Suc.prems False by auto
    ultimately show ?thesis by simp
  qed (use Suc.prems in simp)
qed simp

text \<open>The reading after \<open>e\<close> microseconds of a counter with the largest value \<open>M\<close> that started
  at \<open>t\<close>.\<close>

definition reading :: "nat \<Rightarrow> nat \<Rightarrow> nat \<Rightarrow> u64" where
  "reading M t e = of_nat ((t + e) mod (M + 1))"

lemma reading_diff_full:
  assumes "e < 2 ^ 64"
  shows "unat (reading (2 ^ 64 - 1) t e - reading (2 ^ 64 - 1) t 0) = e"
proof -
  have "reading (2 ^ 64 - 1) t x = of_nat (t + x)" for x :: nat
  proof -
    have "unat (reading (2 ^ 64 - 1) t x) = (t + x) mod 2 ^ 64"
      by (simp add: reading_def unat_of_nat)
    also have "\<dots> = unat (of_nat (t + x) :: u64)" by (simp only: unat_of_nat len_of_numeral_defs) simp
    finally show ?thesis by (simp only: word_unat_eq_iff)
  qed
  then have "reading (2 ^ 64 - 1) t e - reading (2 ^ 64 - 1) t 0 = of_nat e"
    by simp
  then show ?thesis using assms by (simp add: unat_of_nat)
qed

section \<open>Properties\<close>

text \<open>C26: for valid readings both subtractions pass their \<open>ASSERT\<close> and return the distance on the
  circle of the counter, for every configured largest value, also when the counter has wrapped.\<close>

theorem timestamp_difference_correct:
  assumes "now \<le> max_valid_us tb" "old \<le> max_valid_us tb"
    and "now' \<le> max_valid_ms tb" "old' \<le> max_valid_ms tb"
  shows "map_option unat (us_diff tb now old) =
      Some (circle_diff (unat (max_valid_us tb)) (unat now) (unat old)) \<and>
    map_option unat (ms_diff tb now' old') =
      Some (circle_diff (unat (max_valid_ms tb)) (unat now') (unat old'))"
  using diff_circle [OF assms(1,2)] diff_circle [OF assms(3,4)]
  by (simp only: us_diff_def ms_diff_def Let_def if_True option.map)

theorem timestamp_difference_correct_witness:
  "map_option unat (us_diff (timebase_new 99 49) 5 98) = Some 7 \<and>
   map_option unat (ms_diff (timebase_new 99 49) 5 48) = Some 7"
proof -
  have "circle_diff 99 5 98 = 7" "circle_diff 49 5 48 = 7" by (simp_all add: circle_diff_def)
  then show ?thesis
    using timestamp_difference_correct [of 5 "timebase_new 99 49" 98 5 48]
    by (simp add: timebase_new_def)
qed

text \<open>C27: on a counter that runs through all 64 bits, \<open>DelayMicroseconds\<close> returns at the first
  reading that lies at least \<open>us\<close> microseconds after the start, wherever the counter stands.\<close>

theorem delay_exact:
  assumes "0 < us" and "0 < k" and "unat us \<le> e k" and "\<forall>i<k. e i < unat us" and "e 0 = 0"
    and "e k < 2 ^ 64" and "k \<le> fuel"
  shows "delay_microseconds fuel (\<lambda>i. reading (2 ^ 64 - 1) t (e i)) us = Some (Suc k)"
proof -
  let ?clock = "\<lambda>i. reading (2 ^ 64 - 1) t (e i)"
  have cast: "unat (ucast us :: u64) = unat us"
    by (simp add: unat_ucast_up)
  have before: "?clock i - ?clock 0 < ucast us" if "i < k" for i
  proof -
    have "e i < 2 ^ 64" using that assms(3,4,6) by (meson less_le_trans order_less_trans)
    then show ?thesis
      using that assms(4,5) cast reading_diff_full [of "e i" t] by (simp add: word_less_nat_alt)
  qed
  have "\<not> ?clock k - ?clock 0 < ucast us"
    using assms(3,5,6) cast reading_diff_full [of "e k" t] by (simp add: word_less_nat_alt)
  then have "delay_loop fuel ?clock (?clock 0) us 1 = Some (Suc k)"
    using before assms(2,7) by (intro delay_loop_first) auto
  then show ?thesis using assms(1) by (simp add: delay_microseconds_def)
qed

theorem delay_exact_witness:
  "delay_microseconds 9 (\<lambda>i. reading (2 ^ 64 - 1) (2 ^ 64 - 2) (2 * i)) 5 = Some 4"
  using delay_exact [of 5 3 "\<lambda>i. 2 * i" 9 "2 ^ 64 - 2"] by simp

text \<open>The loop subtracts modulo \<open>2 ^ 64\<close> and not on the circle of the counter: when the
  configured largest value is smaller and the counter wraps after the first reading, the delay
  ends at the second reading, although \<open>us_diff\<close> of the two readings is still below \<open>us\<close>.\<close>

theorem delay_ends_early_after_wrap:
  assumes "now < old" and "old \<le> max_valid_us tb" and "unat (max_valid_us tb) + 2 ^ 32 < 2 ^ 64"
    and "us_diff tb now old = Some d" and "0 < d" and "d < ucast us"
  shows "delay_microseconds (Suc (Suc fuel)) (\<lambda>i. if i = 0 then old else now) us = Some 2"
proof -
  have "unat (now - old) = unat now + 2 ^ 64 - unat old"
    using assms(1) by (simp add: unat_sub_if_size word_size word_less_nat_alt)
  moreover have "unat old \<le> unat (max_valid_us tb)"
    using assms(2) by (simp add: word_le_nat_alt)
  moreover have "unat (ucast us :: u64) < 2 ^ 32"
    using unsigned_less [of us] by (simp add: unat_ucast_up)
  ultimately have "\<not> now - old < ucast us"
    using assms(3) unfolding word_less_nat_alt by linarith
  moreover have "us \<noteq> 0" using assms(6) by auto
  ultimately show ?thesis by (simp add: delay_microseconds_def)
qed

theorem delay_ends_early_after_wrap_witness:
  "delay_microseconds (Suc (Suc 0)) (\<lambda>i. if i = 0 then 99999 else 1) 1000 = Some 2"
proof -
  have "us_diff (timebase_new 99999 99) 1 99999 = Some 2" by code_simp
  then show ?thesis
    using delay_ends_early_after_wrap [of 1 99999 "timebase_new 99999 99" 2 1000 0]
    by (simp add: timebase_new_def)
qed

end
