(* ===== verification/Linked_List.thy ===== *)
theory Linked_List
  imports Prelude "HOL-Library.Monad_Syntax"
begin

text \<open>
  The intrusive lists \<open>List\<close> (src/src/structure/list.cpp, list.hpp) and \<open>LockFreeList\<close>
  (lockfree_list.cpp, lockfree_list.hpp) on a pointer heap: a node is an address, its \<open>next_\<close>
  field an entry of a map, the list a ring through the sentinel \<open>head_\<close>. Dereferencing a null
  pointer, locking a held mutex and running out of fuel are \<open>None\<close>; the lemmas show that
  \<open>length + 1\<close> units of fuel are enough on a well-formed list. Both classes meet one contract,
  the locale \<open>node_list\<close>.
\<close>

record 'd nodes =
  node_next :: "nat \<Rightarrow> nat option"
  node_size :: "nat \<Rightarrow> nat"
  node_data :: "nat \<Rightarrow> 'd"
  head_node :: nat

record 'd mlist = "'d nodes" +
  list_mutex :: bool

section \<open>Operations of List\<close>

text \<open>The loop of \<open>Size\<close>: \<open>for (pos = head_.next_; pos != &head_; pos = pos->next_) ++size;\<close>\<close>

fun walk_size :: "nat \<Rightarrow> (nat \<Rightarrow> nat option) \<Rightarrow> nat \<Rightarrow> nat option \<Rightarrow> u32 \<Rightarrow> u32 option" where
  "walk_size 0 nx h pos c = None"
| "walk_size (Suc fuel) nx h pos c =
     (if pos = Some h then Some c
      else case pos of None \<Rightarrow> None | Some p \<Rightarrow> walk_size fuel nx h (nx p) (c + 1))"

text \<open>The loop of \<open>Foreach\<close>: the callback gets the data by reference and a state of its own.\<close>

fun walk_foreach :: "nat \<Rightarrow> (nat \<Rightarrow> nat option) \<Rightarrow> nat \<Rightarrow> (nat \<Rightarrow> bool) \<Rightarrow>
    ('d \<Rightarrow> 's \<Rightarrow> error_code \<times> 'd \<times> 's) \<Rightarrow> nat option \<Rightarrow> (nat \<Rightarrow> 'd) \<Rightarrow> 's \<Rightarrow>
    (error_code \<times> (nat \<Rightarrow> 'd) \<times> 's) option" where
  "walk_foreach 0 nx h chk func pos data s = None"
| "walk_foreach (Suc fuel) nx h chk func pos data s =
     (if pos = Some h then Some (OK, data, s)
      else case pos of None \<Rightarrow> None
      | Some p \<Rightarrow>
          if \<not> chk p then None
          else (case func (data p) s of (res, d, s') \<Rightarrow>
            if res \<noteq> OK then Some (res, data(p := d), s')
            else walk_foreach fuel nx h chk func (nx p) (data(p := d)) s'))"

text \<open>The loop of \<open>Delete\<close>.\<close>

fun walk_delete :: "nat \<Rightarrow> (nat \<Rightarrow> nat option) \<Rightarrow> nat \<Rightarrow> nat \<Rightarrow> nat \<Rightarrow>
    ((nat \<Rightarrow> nat option) \<times> error_code) option" where
  "walk_delete 0 nx h d pos = None"
| "walk_delete (Suc fuel) nx h d pos =
     (if nx pos = Some h then Some (nx, NOT_FOUND)
      else if nx pos = Some d then Some ((nx(pos := nx d))(d := None), OK)
      else case nx pos of None \<Rightarrow> None | Some p \<Rightarrow> walk_delete fuel nx h d p)"

text \<open>The loop of the destructor.\<close>

fun walk_unlink :: "nat \<Rightarrow> (nat \<Rightarrow> nat option) \<Rightarrow> nat \<Rightarrow> nat option \<Rightarrow> (nat \<Rightarrow> nat option) option" where
  "walk_unlink 0 nx h pos = None"
| "walk_unlink (Suc fuel) nx h pos =
     (if pos = Some h then Some nx
      else case pos of None \<Rightarrow> None | Some p \<Rightarrow> walk_unlink fuel (nx(p := None)) h (nx p))"

definition list_new :: "'d mlist \<Rightarrow> 'd mlist" where
  "list_new l = l\<lparr>node_next := (node_next l)(head_node l := Some (head_node l)),
     node_size := (node_size l)(head_node l := 0), list_mutex := False\<rparr>"

definition list_add :: "'d mlist \<Rightarrow> nat \<Rightarrow> 'd mlist option" where
  "list_add l n = do {
     _ \<leftarrow> mutex_lock (list_mutex l);
     Some (l\<lparr>node_next := ((node_next l)(n := node_next l (head_node l)))(head_node l := Some n),
       list_mutex := False\<rparr>)
   }"

definition list_size :: "nat \<Rightarrow> 'd mlist \<Rightarrow> u32 option" where
  "list_size fuel l = do {
     _ \<leftarrow> mutex_lock (list_mutex l);
     walk_size fuel (node_next l) (head_node l) (node_next l (head_node l)) 0
   }"

definition list_delete :: "nat \<Rightarrow> 'd mlist \<Rightarrow> nat \<Rightarrow> ('d mlist \<times> error_code) option" where
  "list_delete fuel l d = do {
     _ \<leftarrow> mutex_lock (list_mutex l);
     (nx, ec) \<leftarrow> walk_delete fuel (node_next l) (head_node l) d (head_node l);
     Some (l\<lparr>node_next := nx, list_mutex := False\<rparr>, ec)
   }"

definition list_foreach :: "nat \<Rightarrow> size_limit_mode \<Rightarrow> nat \<Rightarrow> 'd mlist \<Rightarrow>
    ('d \<Rightarrow> 's \<Rightarrow> error_code \<times> 'd \<times> 's) \<Rightarrow> 's \<Rightarrow> ('d mlist \<times> error_code \<times> 's) option" where
  "list_foreach fuel mode sz l func s = do {
     _ \<leftarrow> mutex_lock (list_mutex l);
     (ec, data, s') \<leftarrow> walk_foreach fuel (node_next l) (head_node l)
       (\<lambda>p. size_limit_check mode sz (node_size l p)) func (node_next l (head_node l)) (node_data l) s;
     Some (l\<lparr>node_data := data, list_mutex := False\<rparr>, ec, s')
   }"

definition list_destroy :: "nat \<Rightarrow> 'd mlist \<Rightarrow> 'd mlist option" where
  "list_destroy fuel l = do {
     nx \<leftarrow> walk_unlink fuel (node_next l) (head_node l) (node_next l (head_node l));
     Some (l\<lparr>node_next := nx(head_node l := None)\<rparr>)
   }"

text \<open>\<open>~BaseNode\<close> asserts that the node is in no list.\<close>

definition node_destroy_ok :: "('d, 'z) nodes_scheme \<Rightarrow> nat \<Rightarrow> bool" where
  "node_destroy_ok l n \<longleftrightarrow> node_next l n = None"

section \<open>Operations of LockFreeList, run without interference\<close>

definition lf_list_new :: "'d nodes \<Rightarrow> 'd nodes" where
  "lf_list_new l = l\<lparr>node_next := (node_next l)(head_node l := Some (head_node l)),
     node_size := (node_size l)(head_node l := 0)\<rparr>"

text \<open>One attempt of the loop in \<open>Add\<close>: without interference a compare-exchange can still fail
  spuriously (it is the weak form); \<open>spurious\<close> is the number of such failures.\<close>

fun lf_list_add :: "nat \<Rightarrow> 'd nodes \<Rightarrow> nat \<Rightarrow> 'd nodes option" where
  "lf_list_add 0 l n =
     (let current_head = node_next l (head_node l);
          nx = (node_next l)(n := current_head)
      in if nx (head_node l) = current_head
         then Some (l\<lparr>node_next := nx(head_node l := Some n)\<rparr>) else None)"
| "lf_list_add (Suc k) l n =
     (let current_head = node_next l (head_node l)
      in lf_list_add k (l\<lparr>node_next := (node_next l)(n := current_head)\<rparr>) n)"

definition lf_list_size :: "nat \<Rightarrow> 'd nodes \<Rightarrow> u32 option" where
  "lf_list_size fuel l = walk_size fuel (node_next l) (head_node l) (node_next l (head_node l)) 0"

definition lf_list_foreach :: "nat \<Rightarrow> size_limit_mode \<Rightarrow> nat \<Rightarrow> 'd nodes \<Rightarrow>
    ('d \<Rightarrow> 's \<Rightarrow> error_code \<times> 'd \<times> 's) \<Rightarrow> 's \<Rightarrow> ('d nodes \<times> error_code \<times> 's) option" where
  "lf_list_foreach fuel mode sz l func s = do {
     (ec, data, s') \<leftarrow> walk_foreach fuel (node_next l) (head_node l)
       (\<lambda>p. size_limit_check mode sz (node_size l p)) func (node_next l (head_node l)) (node_data l) s;
     Some (l\<lparr>node_data := data\<rparr>, ec, s')
   }"

definition lf_list_destroy :: "nat \<Rightarrow> 'd nodes \<Rightarrow> 'd nodes option" where
  "lf_list_destroy fuel l = do {
     nx \<leftarrow> walk_unlink fuel (node_next l) (head_node l) (node_next l (head_node l));
     Some (l\<lparr>node_next := nx(head_node l := None)\<rparr>)
   }"

section \<open>Rings\<close>

text \<open>\<open>ring nx p ns h\<close>: following \<open>next_\<close> from \<open>p\<close> visits the nodes \<open>ns\<close> and ends at \<open>h\<close>.\<close>

fun ring :: "(nat \<Rightarrow> nat option) \<Rightarrow> nat \<Rightarrow> nat list \<Rightarrow> nat \<Rightarrow> bool" where
  "ring nx p [] h \<longleftrightarrow> nx p = Some h"
| "ring nx p (n # ns) h \<longleftrightarrow> nx p = Some n \<and> n \<noteq> h \<and> ring nx n ns h"

definition linked :: "('d, 'z) nodes_scheme \<Rightarrow> nat list \<Rightarrow> bool" where
  "linked l ns \<longleftrightarrow> ring (node_next l) (head_node l) ns (head_node l) \<and> distinct (head_node l # ns)"

lemma ring_cong: "(\<And>q. q = p \<or> q \<in> set ns \<Longrightarrow> nx q = nx' q) \<Longrightarrow> ring nx p ns h = ring nx' p ns h"
  by (induction ns arbitrary: p) auto

lemma ring_upd [simp]: "q \<noteq> p \<Longrightarrow> q \<notin> set ns \<Longrightarrow> ring (nx(q := v)) p ns h = ring nx p ns h"
  by (rule ring_cong) auto

lemma ring_unique: "ring nx p ns h \<Longrightarrow> ring nx p ms h \<Longrightarrow> ns = ms"
proof (induction ns arbitrary: p ms)
  case Nil
  then show ?case by (cases ms) auto
next
  case (Cons n ns)
  then show ?case by (cases ms) auto
qed

lemma ring_start: "ring nx p ns h \<Longrightarrow> nx p = Some (case ns of [] \<Rightarrow> h | n # _ \<Rightarrow> n)"
  by (cases ns) auto

lemma ring_append: "ring nx p (ms @ ns) h \<Longrightarrow> ring nx (last (p # ms)) ns h"
  by (induction ms arbitrary: p) auto

lemma ring_Cons_split:
  "ring nx p (ms @ n # ns) h \<Longrightarrow> nx (last (p # ms)) = Some n \<and> ring nx n ns h"
  using ring_append [of nx p ms "n # ns" h] by simp

lemma walk_size_ring:
  "ring nx p ns h \<Longrightarrow> length ns < fuel \<Longrightarrow> walk_size fuel nx h (nx p) c = Some (c + of_nat (length ns))"
proof (induction ns arbitrary: p c fuel)
  case Nil
  then show ?case by (cases fuel) auto
next
  case (Cons n ns)
  then show ?case by (cases fuel) (auto simp: algebra_simps)
qed

text \<open>What \<open>Foreach\<close> is meant to do: the callback in list order, until it fails.\<close>

fun foreach_spec :: "('d \<Rightarrow> 's \<Rightarrow> error_code \<times> 'd \<times> 's) \<Rightarrow> nat list \<Rightarrow> (nat \<Rightarrow> 'd) \<Rightarrow> 's \<Rightarrow>
    error_code \<times> (nat \<Rightarrow> 'd) \<times> 's" where
  "foreach_spec func [] data s = (OK, data, s)"
| "foreach_spec func (p # ps) data s =
     (case func (data p) s of (res, d, s') \<Rightarrow>
        if res \<noteq> OK then (res, data(p := d), s') else foreach_spec func ps (data(p := d)) s')"

lemma walk_foreach_ring:
  "ring nx p ns h \<Longrightarrow> length ns < fuel \<Longrightarrow> \<forall>n \<in> set ns. chk n \<Longrightarrow>
   walk_foreach fuel nx h chk func (nx p) data s = Some (foreach_spec func ns data s)"
proof (induction ns arbitrary: p data s fuel)
  case Nil
  then show ?case by (cases fuel) auto
next
  case (Cons n ns)
  then show ?case by (cases fuel) (auto split: prod.splits)
qed

lemma walk_delete_ring:
  assumes "ring nx p ns h" "length ns < fuel" "distinct (p # ns)" "h \<notin> set ns" "d \<noteq> p" "d \<noteq> h"
  shows "\<exists>nx'. walk_delete fuel nx h d p = Some (nx', if d \<in> set ns then OK else NOT_FOUND) \<and>
    ring nx' p (remove1 d ns) h \<and>
    nx' = (if d \<in> set ns then (nx(last (p # takeWhile (\<lambda>n. n \<noteq> d) ns) := nx d))(d := None) else nx)"
  using assms
proof (induction ns arbitrary: p fuel)
  case Nil
  then show ?case by (cases fuel) auto
next
  case (Cons n ns)
  then obtain f where f: "fuel = Suc f" by (cases fuel) auto
  show ?case
  proof (cases "n = d")
    case True
    then have "nx d = Some (case ns of [] \<Rightarrow> h | m # _ \<Rightarrow> m)" "p \<noteq> d" "d \<notin> set ns" "p \<notin> set ns"
      using Cons.prems ring_start [of nx n ns h] by auto
    moreover have "ring ((nx(p := nx d))(d := None)) p ns h"
      using Cons.prems True by (cases ns) auto
    ultimately show ?thesis using f Cons.prems True by auto
  next
    case False
    then obtain nx' where ih: "walk_delete f nx h d n = Some (nx', if d \<in> set ns then OK else NOT_FOUND)"
      "ring nx' n (remove1 d ns) h"
      "nx' = (if d \<in> set ns then (nx(last (n # takeWhile (\<lambda>n. n \<noteq> d) ns) := nx d))(d := None) else nx)"
      using Cons.IH [of n f] Cons.prems f by auto
    have "nx' p = nx p"
    proof (cases "d \<in> set ns")
      case True
      have "last (n # takeWhile (\<lambda>n. n \<noteq> d) ns) \<in> insert n (set ns)"
        using last_in_set [of "n # takeWhile (\<lambda>n. n \<noteq> d) ns"] set_takeWhileD by fastforce
      then show ?thesis using ih(3) True Cons.prems by auto
    qed (use ih in simp)
    then show ?thesis using ih f False Cons.prems by auto
  qed
qed

definition first_node :: "nat list \<Rightarrow> nat \<Rightarrow> nat" where
  "first_node ns h = (case ns of [] \<Rightarrow> h | n # _ \<Rightarrow> n)"

lemma walk_unlink_ring:
  "\<forall>n ms. ns = n # ms \<longrightarrow> ring nx n ms h \<Longrightarrow> length ns < fuel \<Longrightarrow> distinct ns \<Longrightarrow> h \<notin> set ns \<Longrightarrow>
   walk_unlink fuel nx h (Some (first_node ns h)) = Some (\<lambda>q. if q \<in> set ns then None else nx q)"
proof (induction ns arbitrary: fuel nx)
  case Nil
  then show ?case by (cases fuel) (auto simp: first_node_def)
next
  case (Cons n ns)
  then obtain f where f: "fuel = Suc f" by (cases fuel) auto
  have "walk_unlink f (nx(n := None)) h (Some (first_node ns h)) =
      Some (\<lambda>q. if q \<in> set ns then None else (nx(n := None)) q)"
    using Cons.prems f by (intro Cons.IH) (auto simp del: fun_upd_apply)
  moreover have "nx n = Some (first_node ns h)"
    using Cons.prems ring_start [of nx n ns h] by (simp add: first_node_def)
  ultimately show ?case using f Cons.prems by (auto simp: first_node_def fun_eq_iff)
qed

section \<open>The contract of the two classes\<close>

text \<open>\<open>rep l ns\<close>: the list \<open>l\<close> holds the nodes \<open>ns\<close>, newest first.\<close>

locale node_list =
  fixes rep :: "'l \<Rightarrow> nat list \<Rightarrow> bool"
    and usable :: "'l \<Rightarrow> nat \<Rightarrow> bool"
    and add :: "'l \<Rightarrow> nat \<Rightarrow> 'l option"
    and count :: "nat \<Rightarrow> 'l \<Rightarrow> u32 option"
  assumes add_ok: "rep l ns \<Longrightarrow> usable l n \<Longrightarrow> n \<notin> set ns \<Longrightarrow>
      \<exists>l'. add l n = Some l' \<and> rep l' (n # ns) \<and> usable l' = usable l"
    and count_ok: "rep l ns \<Longrightarrow> length ns < fuel \<Longrightarrow> count fuel l = Some (of_nat (length ns))"
begin

fun add_all :: "'l \<Rightarrow> nat list \<Rightarrow> 'l option" where
  "add_all l [] = Some l"
| "add_all l (n # ns) = (case add l n of None \<Rightarrow> None | Some l' \<Rightarrow> add_all l' ns)"

lemma add_all_rep:
  "rep l ns \<Longrightarrow> distinct ms \<Longrightarrow> set ms \<inter> set ns = {} \<Longrightarrow> \<forall>n \<in> set ms. usable l n \<Longrightarrow>
   \<exists>l'. add_all l ms = Some l' \<and> rep l' (rev ms @ ns) \<and> usable l' = usable l"
proof (induction ms arbitrary: l ns)
  case (Cons m ms)
  then obtain l1 where l1: "add l m = Some l1" "rep l1 (m # ns)" "usable l1 = usable l"
    using add_ok [of l ns m] by auto
  then show ?case using Cons.IH [of l1 "m # ns"] Cons.prems by auto
qed simp

lemma count_after_adds:
  assumes "rep l []" "distinct ms" "\<forall>n \<in> set ms. usable l n" "length ms < fuel"
  shows "\<exists>l'. add_all l ms = Some l' \<and> count fuel l' = Some (of_nat (length ms))"
  using add_all_rep [of l "[]" ms] count_ok [of _ "rev ms" fuel] assms by auto

end

lemma linked_add:
  assumes "linked l ns" "n \<noteq> head_node l" "n \<notin> set ns"
  shows "ring (((node_next l)(n := node_next l (head_node l)))(head_node l := Some n))
    (head_node l) (n # ns) (head_node l)"
proof -
  have "node_next l (head_node l) = Some (case ns of [] \<Rightarrow> head_node l | m # _ \<Rightarrow> m)"
    using assms(1) ring_start by (auto simp: linked_def)
  then show ?thesis using assms by (cases ns) (auto simp: linked_def)
qed

definition list_rep :: "'d mlist \<Rightarrow> nat list \<Rightarrow> bool" where
  "list_rep l ns \<longleftrightarrow> linked l ns \<and> \<not> list_mutex l"

lemma lf_list_add_eq:
  "n \<noteq> head_node l \<Longrightarrow> linked l ns \<Longrightarrow> n \<notin> set ns \<Longrightarrow> lf_list_add k l n = Some (l\<lparr>node_next :=
     ((node_next l)(n := node_next l (head_node l)))(head_node l := Some n)\<rparr>)"
proof (induction k arbitrary: l)
  case (Suc k)
  let ?l = "l\<lparr>node_next := (node_next l)(n := node_next l (head_node l))\<rparr>"
  have "linked ?l ns" using Suc.prems by (auto simp: linked_def simp del: fun_upd_apply)
  then have "lf_list_add k ?l n = Some (?l\<lparr>node_next :=
      ((node_next ?l)(n := node_next ?l (head_node ?l)))(head_node ?l := Some n)\<rparr>)"
    using Suc.prems by (intro Suc.IH) simp_all
  moreover have "((node_next ?l)(n := node_next ?l (head_node ?l)))(head_node ?l := Some n) =
      ((node_next l)(n := node_next l (head_node l)))(head_node l := Some n)" (is "_ = ?nx")
    using Suc.prems(1) by (auto simp: fun_eq_iff)
  ultimately have "lf_list_add k ?l n = Some (?l\<lparr>node_next := ?nx\<rparr>)" by (simp only:)
  then have "lf_list_add k ?l n = Some (l\<lparr>node_next := ?nx\<rparr>)"
    by (simp del: fun_upd_apply)
  then show ?case unfolding lf_list_add.simps Let_def .
qed simp

lemma list_add_ok:
  assumes "list_rep l ns" "n \<noteq> head_node l" "n \<notin> set ns"
  shows "\<exists>l'. list_add l n = Some l' \<and> list_rep l' (n # ns) \<and>
    (\<lambda>n. n \<noteq> head_node l') = (\<lambda>n. n \<noteq> head_node l)"
  using assms linked_add [of l ns n]
  by (simp add: list_rep_def list_add_def linked_def del: ring.simps)

interpretation list: node_list list_rep "\<lambda>l n. n \<noteq> head_node l" list_add list_size
proof
  fix l :: "'d mlist" and ns fuel
  assume "list_rep l ns" "length ns < fuel"
  then show "list_size fuel l = Some (of_nat (length ns))"
    using walk_size_ring [of "node_next l" "head_node l" ns "head_node l" fuel 0]
    by (simp add: list_rep_def linked_def list_size_def)
qed (rule list_add_ok)

lemma lf_list_add_ok:
  assumes "linked l ns" "n \<noteq> head_node l" "n \<notin> set ns"
  shows "\<exists>l'. lf_list_add k l n = Some l' \<and> linked l' (n # ns) \<and>
    (\<lambda>n. n \<noteq> head_node l') = (\<lambda>n. n \<noteq> head_node l)"
  using assms linked_add [of l ns n] lf_list_add_eq [of n l ns k]
  by (simp add: linked_def del: ring.simps)

interpretation lf_list: node_list linked "\<lambda>l n. n \<noteq> head_node l" "lf_list_add k" lf_list_size
proof
  fix l :: "'d nodes" and ns fuel
  assume "linked l ns" "length ns < fuel"
  then show "lf_list_size fuel l = Some (of_nat (length ns))"
    using walk_size_ring [of "node_next l" "head_node l" ns "head_node l" fuel 0]
    by (simp add: linked_def lf_list_size_def)
qed (rule lf_list_add_ok)

section \<open>Properties\<close>

text \<open>\<open>Delete\<close> removes the node when it is in the list and reports \<open>NOT_FOUND\<close> otherwise, keeps
  the order of the others, and leaves the node destructible (its \<open>next_\<close> is null).\<close>

theorem list_delete_correct:
  assumes "list_rep l ns" and "d \<noteq> head_node l" and "length ns < fuel"
  shows "\<exists>l'. list_delete fuel l d = Some (l', if d \<in> set ns then OK else NOT_FOUND) \<and>
    list_rep l' (remove1 d ns) \<and> (d \<in> set ns \<longrightarrow> node_destroy_ok l' d)"
proof -
  from assms obtain nx' where del: "walk_delete fuel (node_next l) (head_node l) d (head_node l) =
      Some (nx', if d \<in> set ns then OK else NOT_FOUND)"
    and nx': "ring nx' (head_node l) (remove1 d ns) (head_node l)"
      "d \<in> set ns \<longrightarrow> nx' d = None"
    using walk_delete_ring [of "node_next l" "head_node l" ns "head_node l" fuel d]
    by (auto simp: list_rep_def linked_def)
  have "list_rep (l\<lparr>node_next := nx', list_mutex := False\<rparr>) (remove1 d ns)"
    using assms(1) nx'(1) set_remove1_subset [of d ns] by (auto simp: list_rep_def linked_def)
  then show ?thesis
    using assms(1) del nx'(2) by (simp add: list_rep_def list_delete_def node_destroy_ok_def)
qed

definition example_list :: "nat mlist" where
  "example_list = \<lparr>node_next = [0 \<mapsto> 2, 2 \<mapsto> 1, 1 \<mapsto> 0], node_size = (\<lambda>_. 4),
     node_data = (\<lambda>n. 10 * n), head_node = 0, list_mutex = False\<rparr>"

lemma example_list_rep: "list_rep example_list [2, 1]"
  by (simp add: example_list_def list_rep_def linked_def)

theorem list_delete_correct_witness:
  "\<exists>l'. list_delete 3 example_list 1 = Some (l', OK) \<and> list_rep l' [2]"
  using list_delete_correct [OF example_list_rep, of 1 3] by (auto simp: example_list_def)

text \<open>With node sizes that pass the size check, \<open>Foreach\<close> of both classes applies the callback
  to the nodes in list order and stops at the first result other than \<open>OK\<close>, which it returns;
  \<open>List\<close> releases its mutex on both ways out.\<close>

theorem foreach_correct:
  assumes "list_rep l ns" and "linked f ms" and "length ns < fuel" and "length ms < fuel"
    and "\<forall>n \<in> set ns. size_limit_check mode sz (node_size l n)"
    and "\<forall>n \<in> set ms. size_limit_check mode sz (node_size f n)"
  shows "(case foreach_spec func ns (node_data l) s of (ec, data, s') \<Rightarrow>
      list_foreach fuel mode sz l func s = Some (l\<lparr>node_data := data\<rparr>, ec, s')) \<and>
    (case foreach_spec func ms (node_data f) s of (ec, data, s') \<Rightarrow>
      lf_list_foreach fuel mode sz f func s = Some (f\<lparr>node_data := data\<rparr>, ec, s'))"
proof -
  have "l\<lparr>node_data := d, list_mutex := False\<rparr> = l\<lparr>node_data := d\<rparr>" for d
    using assms(1) by (cases l) (simp add: list_rep_def)
  then show ?thesis
    using assms walk_foreach_ring [of "node_next l" "head_node l" ns "head_node l" fuel
        "\<lambda>p. size_limit_check mode sz (node_size l p)" func "node_data l" s]
      walk_foreach_ring [of "node_next f" "head_node f" ms "head_node f" fuel
        "\<lambda>p. size_limit_check mode sz (node_size f p)" func "node_data f" s]
    by (auto simp: list_rep_def linked_def list_foreach_def lf_list_foreach_def split: prod.split)
qed

theorem foreach_correct_witness:
  "\<exists>l'. list_foreach 3 LIMIT_MORE 4 example_list (\<lambda>d s. (if d = 10 then BUSY else OK, d, s + d)) 0 =
    Some (l', BUSY, 30)"
  using foreach_correct [of example_list "[2, 1]" "nodes.truncate example_list" "[2, 1]" 3
      LIMIT_MORE 4 "\<lambda>d s. (if d = 10 then BUSY else OK, d, s + d)" 0] example_list_rep
  by (simp add: list_rep_def linked_def nodes.truncate_def example_list_def)

end
