(* ===== verification/Lock_Free_List.thy ===== *)
theory Lock_Free_List
  imports Linked_List
begin

text \<open>
  Threads on one \<open>LockFreeList\<close> (src/src/structure/lockfree_list.cpp). Every atomic access is a
  step of its own; a thread is between the steps of \<open>Add\<close> or of \<open>Size\<close>. The memory is
  sequentially consistent. Two ghost components, which no step reads, hold the nodes whose
  compare-exchange has succeeded and, per thread, the list at the time \<open>Size\<close> loaded the head.
  A node that is handed to \<open>Add\<close> is in no list and in no other thread's hands.
\<close>

datatype lf_pc =
    Idle
  | Add_Load nat
  | Add_Store nat "nat option"
  | Add_Cas nat "nat option"
  | Size_At "nat option" u32
  | Size_Return u32

record lf_state =
  lf_next :: "nat \<Rightarrow> nat option"
  lf_pcs :: "nat \<Rightarrow> lf_pc"
  added :: "nat list"
  seen :: "nat \<Rightarrow> nat list"

fun in_hand :: "lf_pc \<Rightarrow> nat option" where
  "in_hand (Add_Load n) = Some n"
| "in_hand (Add_Store n ch) = Some n"
| "in_hand (Add_Cas n ch) = Some n"
| "in_hand _ = None"

definition goto :: "lf_state \<Rightarrow> nat \<Rightarrow> lf_pc \<Rightarrow> lf_state" where
  "goto s t pc = s\<lparr>lf_pcs := (lf_pcs s)(t := pc)\<rparr>"

inductive lf_step :: "nat \<Rightarrow> lf_state \<Rightarrow> lf_state \<Rightarrow> bool" for h where
  add_call: "lf_pcs s t = Idle \<Longrightarrow> n \<noteq> h \<Longrightarrow> n \<notin> set (added s) \<Longrightarrow>
    \<forall>u. in_hand (lf_pcs s u) \<noteq> Some n \<Longrightarrow> lf_step h s (goto s t (Add_Load n))"
| add_load: "lf_pcs s t = Add_Load n \<Longrightarrow> lf_step h s (goto s t (Add_Store n (lf_next s h)))"
| add_store: "lf_pcs s t = Add_Store n ch \<Longrightarrow>
    lf_step h s (goto (s\<lparr>lf_next := (lf_next s)(n := ch)\<rparr>) t (Add_Cas n ch))"
| add_cas: "lf_pcs s t = Add_Cas n ch \<Longrightarrow> lf_next s h = ch \<Longrightarrow>
    lf_step h s (goto (s\<lparr>lf_next := (lf_next s)(h := Some n), added := n # added s\<rparr>) t Idle)"
| add_retry: "lf_pcs s t = Add_Cas n ch \<Longrightarrow> lf_step h s (goto s t (Add_Load n))"
| size_call: "lf_pcs s t = Idle \<Longrightarrow>
    lf_step h s (goto (s\<lparr>seen := (seen s)(t := added s)\<rparr>) t (Size_At (lf_next s h) 0))"
| size_next: "lf_pcs s t = Size_At (Some p) c \<Longrightarrow> p \<noteq> h \<Longrightarrow>
    lf_step h s (goto s t (Size_At (lf_next s p) (c + 1)))"
| size_end: "lf_pcs s t = Size_At (Some h) c \<Longrightarrow> lf_step h s (goto s t (Size_Return c))"
| size_return: "lf_pcs s t = Size_Return c \<Longrightarrow> lf_step h s (goto s t Idle)"

definition lf_init :: "nat \<Rightarrow> (nat \<Rightarrow> nat option) \<Rightarrow> lf_state" where
  "lf_init h nx = \<lparr>lf_next = nx(h := Some h), lf_pcs = (\<lambda>_. Idle), added = [], seen = (\<lambda>_. [])\<rparr>"

section \<open>Invariant\<close>

text \<open>What holds of a reader: it has counted a prefix of the list it saw and stands at the
  rest; the list it saw is a suffix of the present one.\<close>

definition reader_ok :: "nat \<Rightarrow> nat list \<Rightarrow> nat list \<Rightarrow> lf_pc \<Rightarrow> bool" where
  "reader_ok h ns sn pc = (case pc of
      Size_At pos c \<Rightarrow> (\<exists>pre done rest. ns = pre @ sn \<and> sn = done @ rest \<and>
        c = of_nat (length done) \<and> pos = Some (first_node rest h))
    | Size_Return c \<Rightarrow> c = of_nat (length sn)
    | _ \<Rightarrow> True)"

definition adder_ok :: "nat \<Rightarrow> (nat \<Rightarrow> nat option) \<Rightarrow> nat list \<Rightarrow> lf_pc \<Rightarrow> bool" where
  "adder_ok h nx ns pc \<longleftrightarrow> (\<forall>n. in_hand pc = Some n \<longrightarrow> n \<noteq> h \<and> n \<notin> set ns) \<and>
     (\<forall>n ch. pc = Add_Cas n ch \<longrightarrow> nx n = ch)"

definition lf_inv :: "nat \<Rightarrow> lf_state \<Rightarrow> bool" where
  "lf_inv h s \<longleftrightarrow> ring (lf_next s) h (added s) h \<and> distinct (h # added s) \<and>
     (\<forall>t. adder_ok h (lf_next s) (added s) (lf_pcs s t) \<and>
       reader_ok h (added s) (seen s t) (lf_pcs s t)) \<and>
     (\<forall>t u n. in_hand (lf_pcs s t) = Some n \<and> in_hand (lf_pcs s u) = Some n \<longrightarrow> t = u)"

lemma lf_inv_init: "lf_inv h (lf_init h nx)"
  by (simp add: lf_inv_def lf_init_def adder_ok_def reader_ok_def)

lemma reader_ok_grow:
  "reader_ok h ns sn pc \<Longrightarrow> reader_ok h (n # ns) sn pc"
  by (auto simp: reader_ok_def split: lf_pc.splits)

lemma adder_ok_write:
  "adder_ok h nx ns pc \<Longrightarrow> in_hand pc \<noteq> Some m \<Longrightarrow> adder_ok h (nx(m := v)) ns pc"
  by (auto simp: adder_ok_def)

lemma lf_inv_goto:
  assumes "lf_inv h s"
    and "adder_ok h (lf_next s) (added s) pc" "reader_ok h (added s) (seen s t) pc"
    and "in_hand pc = None \<or> in_hand pc = in_hand (lf_pcs s t) \<or>
      (\<forall>u. in_hand (lf_pcs s u) \<noteq> in_hand pc)"
  shows "lf_inv h (goto s t pc)"
  using assms unfolding lf_inv_def goto_def by (auto split: if_splits) metis+

lemma lf_inv_adder: "lf_inv h s \<Longrightarrow> adder_ok h (lf_next s) (added s) (lf_pcs s t)"
  by (simp add: lf_inv_def)

lemma lf_inv_reader: "lf_inv h s \<Longrightarrow> reader_ok h (added s) (seen s t) (lf_pcs s t)"
  by (simp add: lf_inv_def)

lemma lf_reader_next:
  assumes "lf_inv h s" "lf_pcs s t = Size_At (Some p) c" "p \<noteq> h"
  shows "reader_ok h (added s) (seen s t) (Size_At (lf_next s p) (c + 1))"
proof -
  from lf_inv_reader [OF assms(1), of t] assms(2) obtain pre dn rest where
    r: "added s = pre @ seen s t" "seen s t = dn @ rest" "c = of_nat (length dn)"
      "p = first_node rest h"
    by (auto simp: reader_ok_def)
  then obtain rest' where rest: "rest = p # rest'"
    using assms(3) by (cases rest) (auto simp: first_node_def)
  have "ring (lf_next s) h (added s) h" using assms(1) by (simp add: lf_inv_def)
  then have "ring (lf_next s) h ((pre @ dn) @ p # rest') h"
    unfolding r(1,2) rest by simp
  then have "lf_next s p = Some (first_node rest' h)"
    using ring_Cons_split [of "lf_next s" h "pre @ dn" p rest' h] ring_start [of "lf_next s" p rest' h]
    by (simp add: first_node_def)
  moreover have "seen s t = (dn @ [p]) @ rest'" "c + 1 = of_nat (length (dn @ [p]))"
    using r(2,3) rest by (simp_all add: algebra_simps)
  ultimately show ?thesis
    using r(1) unfolding reader_ok_def lf_pc.case
    by - (rule exI [of _ pre], rule exI [of _ "dn @ [p]"], rule exI [of _ rest'], simp)
qed

lemma lf_step_inv: "lf_step h s s' \<Longrightarrow> lf_inv h s \<Longrightarrow> lf_inv h s'"
proof (induction rule: lf_step.induct)
  case (add_call s t n)
  then show ?case by (intro lf_inv_goto) (auto simp: adder_ok_def reader_ok_def)
next
  case (add_load s t n)
  then show ?case using lf_inv_adder [of h s t]
    by (intro lf_inv_goto) (auto simp: adder_ok_def reader_ok_def)
next
  case (add_store s t n ch)
  let ?s = "s\<lparr>lf_next := (lf_next s)(n := ch)\<rparr>"
  have n: "n \<noteq> h" "n \<notin> set (added s)"
    using lf_inv_adder [of h s t] add_store by (auto simp: adder_ok_def)
  have others: "u \<noteq> t \<Longrightarrow> in_hand (lf_pcs s u) \<noteq> Some n" for u
    using add_store unfolding lf_inv_def by (metis in_hand.simps(2))
  show ?case
    unfolding lf_inv_def
  proof (intro conjI allI)
    show "ring (lf_next (goto ?s t (Add_Cas n ch))) h (added (goto ?s t (Add_Cas n ch))) h"
      "distinct (h # added (goto ?s t (Add_Cas n ch)))"
      using add_store n by (auto simp: goto_def lf_inv_def)
    fix u
    show "adder_ok h (lf_next (goto ?s t (Add_Cas n ch))) (added (goto ?s t (Add_Cas n ch)))
        (lf_pcs (goto ?s t (Add_Cas n ch)) u)"
      using others [of u] lf_inv_adder [OF add_store(2), of u] n
      by (cases "u = t") (auto simp: goto_def adder_ok_def)
    show "reader_ok h (added (goto ?s t (Add_Cas n ch))) (seen (goto ?s t (Add_Cas n ch)) u)
        (lf_pcs (goto ?s t (Add_Cas n ch)) u)"
      using lf_inv_reader [OF add_store(2), of u] by (auto simp: goto_def reader_ok_def)
    fix v m
    show "in_hand (lf_pcs (goto ?s t (Add_Cas n ch)) u) = Some m \<and>
        in_hand (lf_pcs (goto ?s t (Add_Cas n ch)) v) = Some m \<longrightarrow> u = v"
      using others add_store by (auto simp: goto_def lf_inv_def)
  qed
next
  case (add_cas s t n ch)
  let ?s' = "goto (s\<lparr>lf_next := (lf_next s)(h := Some n), added := n # added s\<rparr>) t Idle"
  have n: "n \<noteq> h" "n \<notin> set (added s)" "lf_next s n = lf_next s h"
    using lf_inv_adder [of h s t] add_cas by (auto simp: adder_ok_def)
  have others: "u \<noteq> t \<Longrightarrow> in_hand (lf_pcs s u) \<noteq> Some n" for u
    using add_cas unfolding lf_inv_def by (metis in_hand.simps(3))
  have start: "ring (lf_next s) h (added s) h" "distinct (h # added s)"
    using add_cas by (auto simp: lf_inv_def)
  then have ring': "ring (lf_next s) n (added s) h"
    using n(3) by (cases "added s") auto
  show ?case
    unfolding lf_inv_def
  proof (intro conjI allI)
    show "ring (lf_next ?s') h (added ?s') h" "distinct (h # added ?s')"
      using ring' start n by (auto simp: goto_def)
    fix u
    show "adder_ok h (lf_next ?s') (added ?s') (lf_pcs ?s' u)"
      using others [of u] lf_inv_adder [OF add_cas(3), of u] by (auto simp: goto_def adder_ok_def)
    show "reader_ok h (added ?s') (seen ?s' u) (lf_pcs ?s' u)"
      using lf_inv_reader [OF add_cas(3), of u] reader_ok_grow
      by (auto simp: goto_def) (simp add: reader_ok_def)
    fix v m
    show "in_hand (lf_pcs ?s' u) = Some m \<and> in_hand (lf_pcs ?s' v) = Some m \<longrightarrow> u = v"
      using add_cas(3) by (auto simp: goto_def lf_inv_def)
  qed
next
  case (add_retry s t n ch)
  then show ?case using lf_inv_adder [of h s t]
    by (intro lf_inv_goto) (auto simp: adder_ok_def reader_ok_def)
next
  case (size_call s t)
  let ?s = "s\<lparr>seen := (seen s)(t := added s)\<rparr>"
  have "lf_inv h ?s"
    using size_call by (auto simp: lf_inv_def reader_ok_def)
  moreover have "lf_next s h = Some (first_node (added s) h)"
    using size_call(2) ring_start unfolding lf_inv_def first_node_def by metis
  then have "reader_ok h (added s) (added s) (Size_At (lf_next s h) 0)"
    unfolding reader_ok_def lf_pc.case
    by - (rule exI [of _ "[]"], rule exI [of _ "[]"], rule exI [of _ "added s"], simp)
  ultimately show ?case
    using lf_inv_goto [of h ?s "Size_At (lf_next s h) 0" t] by (simp add: adder_ok_def)
next
  case (size_next s t p c)
  then show ?case using lf_reader_next [of h s t p c]
    by (intro lf_inv_goto) (auto simp: adder_ok_def)
next
  case (size_end s t c)
  have "c = of_nat (length (seen s t))"
  proof -
    from lf_inv_reader [OF size_end(2), of t] size_end(1) obtain pre dn rest where
      r: "added s = pre @ seen s t" "seen s t = dn @ rest" "c = of_nat (length dn)"
        "h = first_node rest h"
      by (auto simp: reader_ok_def)
    have "h \<notin> set (added s)" using size_end(2) by (auto simp: lf_inv_def)
    then have "rest = []" using r by (cases rest) (auto simp: first_node_def)
    then show ?thesis using r by simp
  qed
  then show ?case using size_end by (intro lf_inv_goto) (auto simp: adder_ok_def reader_ok_def)
next
  case (size_return s t c)
  then show ?case by (intro lf_inv_goto) (auto simp: adder_ok_def reader_ok_def)
qed

lemma lf_reachable_inv: "(lf_step h)\<^sup>*\<^sup>* (lf_init h nx) s \<Longrightarrow> lf_inv h s"
  by (induction rule: rtranclp_induct) (auto intro: lf_inv_init lf_step_inv)

section \<open>Properties\<close>

text \<open>C21: however the threads interleave, the ring from the sentinel holds exactly the nodes whose
  compare-exchange has succeeded, each once and newest first: no concurrent \<open>Add\<close> is lost.\<close>

theorem lockfree_add_keeps_all:
  assumes "(lf_step h)\<^sup>*\<^sup>* (lf_init h nx) s"
  shows "ring (lf_next s) h (added s) h \<and> distinct (h # added s)"
  using lf_reachable_inv [OF assms] by (simp add: lf_inv_def)

text \<open>C22: a concurrent \<open>Size\<close> returns the length of the list at the moment it loaded the head;
  before that it has counted a prefix of that list and stands at a node of the rest (or at the
  sentinel), never at a null pointer.\<close>

theorem lockfree_size_linearizable:
  assumes "(lf_step h)\<^sup>*\<^sup>* (lf_init h nx) s"
  shows "(\<forall>c. lf_pcs s t = Size_Return c \<longrightarrow> c = of_nat (length (seen s t))) \<and>
    (\<forall>pos c. lf_pcs s t = Size_At pos c \<longrightarrow> (\<exists>pre counted rest. added s = pre @ seen s t \<and>
      seen s t = counted @ rest \<and> c = of_nat (length counted) \<and> pos = Some (first_node rest h)))"
proof (intro conjI allI impI)
  note inv = lf_inv_reader [OF lf_reachable_inv [OF assms], of t]
  fix c assume "lf_pcs s t = Size_Return c"
  then show "c = of_nat (length (seen s t))" using inv by (simp add: reader_ok_def)
next
  note inv = lf_inv_reader [OF lf_reachable_inv [OF assms], of t]
  fix pos c assume "lf_pcs s t = Size_At pos c"
  then show "\<exists>pre counted rest. added s = pre @ seen s t \<and>
      seen s t = counted @ rest \<and> c = of_nat (length counted) \<and> pos = Some (first_node rest h)"
    using inv by (simp add: reader_ok_def)
qed

section \<open>Runs\<close>

text \<open>A thread that runs alone finishes \<open>Add\<close> in four steps.\<close>

lemma solo_add:
  assumes "lf_pcs s t = Idle" "n \<noteq> h" "n \<notin> set (added s)" "\<forall>u. in_hand (lf_pcs s u) \<noteq> Some n"
  shows "(lf_step h)\<^sup>*\<^sup>* s (goto (s\<lparr>lf_next := ((lf_next s)(n := lf_next s h))(h := Some n),
    added := n # added s\<rparr>) t Idle)"
proof -
  let ?ch = "lf_next s h"
  let ?s1 = "goto s t (Add_Load n)" and ?s2 = "goto s t (Add_Store n ?ch)"
  let ?s3 = "goto (s\<lparr>lf_next := (lf_next s)(n := ?ch)\<rparr>) t (Add_Cas n ?ch)"
  have "lf_step h s ?s1" using assms by (rule lf_step.add_call)
  moreover have "lf_step h ?s1 ?s2"
    using lf_step.add_load [of ?s1 t n h] by (simp add: goto_def)
  moreover have "lf_step h ?s2 ?s3"
    using lf_step.add_store [of ?s2 t n ?ch h] by (simp add: goto_def)
  moreover have "lf_step h ?s3 (goto (s\<lparr>lf_next := ((lf_next s)(n := ?ch))(h := Some n),
      added := n # added s\<rparr>) t Idle)"
    using lf_step.add_cas [of ?s3 t n ?ch h] assms(2) by (simp add: goto_def)
  ultimately show ?thesis by (meson r_into_rtranclp rtranclp.rtrancl_into_rtrancl)
qed

definition one_node :: lf_state where
  "one_node = goto ((lf_init 0 Map.empty)\<lparr>lf_next := [0 \<mapsto> 0, 5 \<mapsto> 0, 0 \<mapsto> 5], added := [5]\<rparr>) 1 Idle"

lemma one_node_reachable: "(lf_step 0)\<^sup>*\<^sup>* (lf_init 0 Map.empty) one_node"
  using solo_add [of "lf_init 0 Map.empty" 1 5 0] by (simp add: one_node_def lf_init_def)

theorem lockfree_add_keeps_all_witness:
  "\<exists>s. (lf_step 0)\<^sup>*\<^sup>* (lf_init 0 Map.empty) s \<and> added s = [5] \<and> ring (lf_next s) 0 (added s) 0"
proof -
  have "added one_node = [5]" by (simp add: one_node_def goto_def)
  then show ?thesis using one_node_reachable lockfree_add_keeps_all [OF one_node_reachable] by blast
qed

lemma one_node_counted:
  defines "s \<equiv> goto (one_node\<lparr>seen := (seen one_node)(1 := [5])\<rparr>) 1 (Size_Return 1)"
  shows "(lf_step 0)\<^sup>*\<^sup>* (lf_init 0 Map.empty) s"
proof -
  let ?s0 = "one_node\<lparr>seen := (seen one_node)(1 := [5])\<rparr>"
  let ?s1 = "goto ?s0 1 (Size_At (Some 5) 0)" and ?s2 = "goto ?s0 1 (Size_At (Some 0) 1)"
  have "lf_step 0 one_node ?s1"
    using lf_step.size_call [of one_node 1 0] by (simp add: one_node_def goto_def)
  moreover have "lf_step 0 ?s1 ?s2"
    using lf_step.size_next [of ?s1 1 5 0 0] by (simp add: one_node_def goto_def)
  moreover have "lf_step 0 ?s2 s"
    using lf_step.size_end [of ?s2 1 0 1] by (simp add: s_def goto_def)
  ultimately show ?thesis
    using one_node_reachable by (meson rtranclp.rtrancl_into_rtrancl)
qed

theorem lockfree_size_linearizable_witness:
  "\<exists>s. (lf_step 0)\<^sup>*\<^sup>* (lf_init 0 Map.empty) s \<and> lf_pcs s 1 = Size_Return 1 \<and> added s = [5] \<and>
    (1 :: u32) = of_nat (length (seen s 1))"
proof -
  let ?s = "goto (one_node\<lparr>seen := (seen one_node)(1 := [5])\<rparr>) 1 (Size_Return 1)"
  have "lf_pcs ?s 1 = Size_Return 1" "added ?s = [5]" by (simp_all add: one_node_def goto_def)
  then show ?thesis
    using one_node_counted lockfree_size_linearizable [OF one_node_counted, of 1] by blast
qed

end
