(* ===== verification/Lock_Free_Queue.thy ===== *)
theory Lock_Free_Queue
  imports Memory Fifo_Spec "HOL-Library.Monad_Syntax"
begin

text \<open>
  \<open>LockFreeQueue\<close> of src/src/structure/lockfree_queue.hpp as its operations behave when no other
  thread interferes: a ring of \<open>LENGTH + 1\<close> elements of which one stays free. The weak
  compare-exchange of the pop operations may still fail spuriously; the number of such failures
  is a parameter of each loop. An access outside an array is \<open>None\<close>. The concurrent behaviour
  is the subject of the theory Queue_Threads.
\<close>

record 'a lfq =
  lfq_head :: nat
  lfq_tail :: nat
  lfq_LENGTH :: nat
  queue_handle :: "'a list"

section \<open>Operations\<close>

definition align_up :: "nat \<Rightarrow> nat \<Rightarrow> nat" where
  "align_up n align = (n div align + 1) * align"

text \<open>\<open>align\<close> is \<open>LibXR::ALIGN_SIZE\<close>; \<open>fresh\<close> the elements that \<open>new Data[]\<close> constructs.\<close>

definition lfq_new :: "nat \<Rightarrow> nat \<Rightarrow> (nat \<Rightarrow> 'a list) \<Rightarrow> 'a lfq" where
  "lfq_new align len fresh = \<lparr>lfq_head = 0, lfq_tail = 0, lfq_LENGTH = align_up len align - 1,
     queue_handle = fresh (align_up len align - 1 + 1)\<rparr>"

text \<open>\<open>Increment\<close>: \<open>index + 1\<close> is computed in 32 bits, the remainder in \<open>size_t\<close>.\<close>

definition lfq_increment :: "'a lfq \<Rightarrow> nat \<Rightarrow> nat" where
  "lfq_increment q index = ((index + 1) mod 2 ^ 32) mod (lfq_LENGTH q + 1)"

definition lfq_at :: "'a lfq \<Rightarrow> nat \<Rightarrow> 'a option" where
  "lfq_at q index = array_get (queue_handle q) index"

definition lfq_push :: "'a lfq \<Rightarrow> 'a \<Rightarrow> ('a lfq \<times> error_code) option" where
  "lfq_push q item =
     (let current_tail = lfq_tail q; next_tail = lfq_increment q current_tail
      in if next_tail = lfq_head q then Some (q, FULL)
         else do {
           arr \<leftarrow> array_set (queue_handle q) current_tail item;
           Some (q\<lparr>queue_handle := arr, lfq_tail := next_tail\<rparr>, OK)
         })"

text \<open>The loop of \<open>Pop\<close>: \<open>k\<close> spurious failures, each of which reloads the head.\<close>

fun lfq_pop_loop :: "nat \<Rightarrow> 'a lfq \<Rightarrow> nat \<Rightarrow> 'a \<Rightarrow> ('a lfq \<times> error_code \<times> 'a) option" where
  "lfq_pop_loop 0 q current_head item =
     (if current_head = lfq_tail q then Some (q, EMPTY, item)
      else do {
        item' \<leftarrow> array_get (queue_handle q) current_head;
        if lfq_head q = current_head
        then Some (q\<lparr>lfq_head := lfq_increment q current_head\<rparr>, OK, item') else None
      })"
| "lfq_pop_loop (Suc k) q current_head item =
     (if current_head = lfq_tail q then Some (q, EMPTY, item)
      else do {
        item' \<leftarrow> array_get (queue_handle q) current_head;
        lfq_pop_loop k q (lfq_head q) item'
      })"

definition lfq_pop :: "nat \<Rightarrow> 'a lfq \<Rightarrow> 'a \<Rightarrow> ('a lfq \<times> error_code \<times> 'a) option" where
  "lfq_pop k q item = lfq_pop_loop k q (lfq_head q) item"

fun lfq_discard_loop :: "nat \<Rightarrow> 'a lfq \<Rightarrow> nat \<Rightarrow> ('a lfq \<times> error_code) option" where
  "lfq_discard_loop 0 q current_head =
     (if current_head = lfq_tail q then Some (q, EMPTY)
      else if lfq_head q = current_head
      then Some (q\<lparr>lfq_head := lfq_increment q current_head\<rparr>, OK) else None)"
| "lfq_discard_loop (Suc k) q current_head =
     (if current_head = lfq_tail q then Some (q, EMPTY)
      else lfq_discard_loop k q (lfq_head q))"

text \<open>\<open>Pop()\<close> without an output.\<close>

definition lfq_discard :: "nat \<Rightarrow> 'a lfq \<Rightarrow> ('a lfq \<times> error_code) option" where
  "lfq_discard k q = lfq_discard_loop k q (lfq_head q)"

text \<open>Without interference the re-read of the head in \<open>Peek\<close> finds the same value.\<close>

definition lfq_peek :: "'a lfq \<Rightarrow> 'a \<Rightarrow> (error_code \<times> 'a) option" where
  "lfq_peek q item =
     (let current_head = lfq_head q
      in if current_head = lfq_tail q then Some (EMPTY, item)
         else do {
           item' \<leftarrow> array_get (queue_handle q) current_head;
           Some (OK, item')
         })"

definition lfq_free_space :: "'a lfq \<Rightarrow> nat" where
  "lfq_free_space q =
     (let capacity = lfq_LENGTH q + 1; t = lfq_tail q; h = lfq_head q
      in if t \<ge> h then capacity - (t - h) - 1 else h - t - 1)"

definition lfq_available :: "'a lfq \<Rightarrow> nat" where
  "lfq_available q =
     (let capacity = lfq_LENGTH q + 1; t = lfq_tail q; h = lfq_head q
      in if t \<ge> h then t - h else capacity - h + t)"

definition lfq_push_batch :: "'a lfq \<Rightarrow> 'a list \<Rightarrow> nat \<Rightarrow> ('a lfq \<times> error_code) option" where
  "lfq_push_batch q data n =
     (let capacity = lfq_LENGTH q + 1; t = lfq_tail q
      in if lfq_free_space q < n then Some (q, FULL)
         else let first_chunk = min n (capacity - t) in do {
           arr1 \<leftarrow> array_copy (queue_handle q) t data 0 first_chunk;
           arr2 \<leftarrow> (if n > first_chunk
                    then array_copy arr1 0 data first_chunk (n - first_chunk) else Some arr1);
           Some (q\<lparr>queue_handle := arr2, lfq_tail := (t + n) mod capacity\<rparr>, OK)
         })"

text \<open>\<open>PushWithWriter\<close>: the writer gets a span of the ring, with its present elements, and a state
  of its own; it returns the span as it leaves it. A span of another length is a write outside
  it.\<close>

definition write_span :: "'a list \<Rightarrow> nat \<Rightarrow> nat \<Rightarrow> ('a list \<Rightarrow> 's \<Rightarrow> error_code \<times> 'a list \<times> 's) \<Rightarrow> 's \<Rightarrow>
    (error_code \<times> 'a list \<times> 's) option" where
  "write_span arr off n writer s =
     (if off + n \<le> length arr
      then case writer (take n (drop off arr)) s of (ec, span, s') \<Rightarrow>
        if length span = n then Some (ec, blit arr off span, s') else None
      else None)"

definition lfq_push_with_writer :: "'a lfq \<Rightarrow> nat \<Rightarrow> ('a list \<Rightarrow> 's \<Rightarrow> error_code \<times> 'a list \<times> 's) \<Rightarrow>
    's \<Rightarrow> ('a lfq \<times> error_code \<times> 's) option" where
  "lfq_push_with_writer q n writer s =
     (let capacity = lfq_LENGTH q + 1; t = lfq_tail q
      in if n = 0 then Some (q, OK, s)
         else if lfq_free_space q < n then Some (q, FULL, s)
         else let first_chunk = min n (capacity - t) in do {
           (first_ec, arr1, s1) \<leftarrow> write_span (queue_handle q) t first_chunk writer s;
           if first_ec \<noteq> OK then Some (q\<lparr>queue_handle := arr1\<rparr>, first_ec, s1)
           else if n > first_chunk then do {
             (second_ec, arr2, s2) \<leftarrow> write_span arr1 0 (n - first_chunk) writer s1;
             if second_ec \<noteq> OK then Some (q\<lparr>queue_handle := arr2\<rparr>, second_ec, s2)
             else Some (q\<lparr>queue_handle := arr2, lfq_tail := (t + n) mod capacity\<rparr>, OK, s2)
           }
           else Some (q\<lparr>queue_handle := arr1, lfq_tail := (t + n) mod capacity\<rparr>, OK, s1)
         })"

definition lfq_pop_with_reader :: "'a lfq \<Rightarrow> nat \<Rightarrow> ('a list \<Rightarrow> 's \<Rightarrow> error_code \<times> 's) \<Rightarrow> 's \<Rightarrow>
    ('a lfq \<times> error_code \<times> 's) option" where
  "lfq_pop_with_reader q n reader s =
     (let capacity = lfq_LENGTH q + 1; h = lfq_head q; arr = queue_handle q
      in if n = 0 then Some (q, OK, s)
         else if lfq_available q < n then Some (q, EMPTY, s)
         else let first_chunk = min n (capacity - h)
           in if length arr < h + first_chunk then None
           else case reader (take first_chunk (drop h arr)) s of (first_ec, s1) \<Rightarrow>
             if first_ec \<noteq> OK then Some (q, first_ec, s1)
             else if n > first_chunk then
               (if length arr < n - first_chunk then None
                else case reader (take (n - first_chunk) arr) s1 of (second_ec, s2) \<Rightarrow>
                  if second_ec \<noteq> OK then Some (q, second_ec, s2)
                  else Some (q\<lparr>lfq_head := (h + n) mod capacity\<rparr>, OK, s2))
             else Some (q\<lparr>lfq_head := (h + n) mod capacity\<rparr>, OK, s1))"

text \<open>The two copies out of the ring, shared by \<open>PopBatch\<close> and \<open>PeekBatch\<close>; \<open>None\<close> as the
  output is a null pointer.\<close>

definition lfq_copy_out :: "'a lfq \<Rightarrow> nat \<Rightarrow> nat \<Rightarrow> 'a list option \<Rightarrow> 'a list option option" where
  "lfq_copy_out q h n data =
     (case data of None \<Rightarrow> Some None
      | Some buf \<Rightarrow>
          let first_chunk = min n (lfq_LENGTH q + 1 - h) in do {
            b1 \<leftarrow> array_copy buf 0 (queue_handle q) h first_chunk;
            b2 \<leftarrow> (if n > first_chunk
                   then array_copy b1 first_chunk (queue_handle q) 0 (n - first_chunk) else Some b1);
            Some (Some b2)
          })"

fun lfq_pop_batch :: "nat \<Rightarrow> 'a lfq \<Rightarrow> 'a list option \<Rightarrow> nat \<Rightarrow>
    ('a lfq \<times> error_code \<times> 'a list option) option" where
  "lfq_pop_batch 0 q data n =
     (if lfq_available q < n then Some (q, EMPTY, data)
      else do {
        data' \<leftarrow> lfq_copy_out q (lfq_head q) n data;
        Some (q\<lparr>lfq_head := (lfq_head q + n) mod (lfq_LENGTH q + 1)\<rparr>, OK, data')
      })"
| "lfq_pop_batch (Suc k) q data n =
     (if lfq_available q < n then Some (q, EMPTY, data)
      else do {
        data' \<leftarrow> lfq_copy_out q (lfq_head q) n data;
        lfq_pop_batch k q data' n
      })"

definition lfq_peek_batch :: "'a lfq \<Rightarrow> 'a list option \<Rightarrow> nat \<Rightarrow> (error_code \<times> 'a list option) option" where
  "lfq_peek_batch q data n =
     (if n = 0 then Some (OK, data)
      else if lfq_available q < n then Some (EMPTY, data)
      else do {
        data' \<leftarrow> lfq_copy_out q (lfq_head q) n data;
        Some (OK, data')
      })"

definition lfq_reset :: "'a lfq \<Rightarrow> 'a lfq" where
  "lfq_reset q = q\<lparr>lfq_head := 0, lfq_tail := 0\<rparr>"

definition lfq_size :: "'a lfq \<Rightarrow> nat" where
  "lfq_size q =
     (let h = lfq_head q; t = lfq_tail q
      in if t \<ge> h then t - h else (lfq_LENGTH q + 1) - h + t)"

definition lfq_empty_size :: "'a lfq \<Rightarrow> nat" where
  "lfq_empty_size q = lfq_LENGTH q - lfq_size q"

definition lfq_max_size :: "'a lfq \<Rightarrow> nat" where
  "lfq_max_size q = lfq_LENGTH q"

section \<open>Invariant and contents\<close>

definition lfq_wf :: "'a lfq \<Rightarrow> bool" where
  "lfq_wf q \<longleftrightarrow> lfq_head q \<le> lfq_LENGTH q \<and> lfq_tail q \<le> lfq_LENGTH q \<and>
     length (queue_handle q) = lfq_LENGTH q + 1 \<and> lfq_LENGTH q + 1 < 2 ^ 32"

definition lfq_slot :: "'a lfq \<Rightarrow> nat \<Rightarrow> 'a" where
  "lfq_slot q i = queue_handle q ! ((lfq_head q + i) mod (lfq_LENGTH q + 1))"

definition lfq_contents :: "'a lfq \<Rightarrow> 'a list" where
  "lfq_contents q = map (lfq_slot q) [0..<lfq_size q]"

lemma align_up_room: "0 < align \<Longrightarrow> len \<le> align_up len align - 1"
proof -
  assume "0 < align"
  then have "len < align_up len align"
    using dividend_less_div_times [of align len] by (simp add: align_up_def add.commute)
  then show ?thesis by simp
qed

lemma lfq_increment_wf: "lfq_wf q \<Longrightarrow> i \<le> lfq_LENGTH q \<Longrightarrow>
    lfq_increment q i = (i + 1) mod (lfq_LENGTH q + 1)"
  by (simp add: lfq_increment_def lfq_wf_def)

lemma lfq_sizes:
  assumes "lfq_wf q"
  shows "lfq_size q \<le> lfq_LENGTH q" and "lfq_free_space q = lfq_LENGTH q - lfq_size q"
    and "lfq_available q = lfq_size q" and "lfq_tail q = (lfq_head q + lfq_size q) mod (lfq_LENGTH q + 1)"
  using assms
  by (auto simp: lfq_wf_def lfq_size_def lfq_free_space_def lfq_available_def Let_def mod_if)

lemma length_lfq_contents [simp]: "length (lfq_contents q) = lfq_size q"
  by (simp add: lfq_contents_def)

lemma lfq_empty_iff: "lfq_wf q \<Longrightarrow> lfq_head q = lfq_tail q \<longleftrightarrow> lfq_size q = 0"
  by (auto simp: lfq_wf_def lfq_size_def Let_def)

lemma lfq_full_iff:
  assumes "lfq_wf q"
  shows "lfq_increment q (lfq_tail q) = lfq_head q \<longleftrightarrow> lfq_size q = lfq_LENGTH q"
  using assms lfq_increment_wf [OF assms, of "lfq_tail q"]
  by (auto simp: lfq_wf_def lfq_size_def Let_def mod_if split: if_splits)

section \<open>Writing and reading elements\<close>

lemma chunk_1: "i < length xs \<Longrightarrow> chunk 1 i xs = [xs ! i]"
  by (simp add: chunk_def Cons_nth_drop_Suc [symmetric])

lemma nth_ring_write:
  assumes "t < L" "n \<le> L" "n \<le> length data" "length arr = L" "j < L"
  shows "ring_write 1 L arr t data n ! j =
    (if (j + L - t) mod L < n then data ! ((j + L - t) mod L) else arr ! j)"
proof -
  have "length (ring_write 1 L arr t data n) = L"
    using assms length_ring_write [of t L n 1 data arr] by simp
  then have "chunk 1 j (ring_write 1 L arr t data n) = [ring_write 1 L arr t data n ! j]"
    using assms by (intro chunk_1) simp
  moreover have "chunk 1 j (ring_write 1 L arr t data n) =
      (let k = (j + L - t) mod L in if k < n then chunk 1 k data else chunk 1 j arr)"
    using assms by (intro chunk_ring_write) auto
  moreover have "(j + L - t) mod L < n \<Longrightarrow> chunk 1 ((j + L - t) mod L) data = [data ! ((j + L - t) mod L)]"
    using assms by (intro chunk_1) simp
  moreover have "chunk 1 j arr = [arr ! j]" using assms by (intro chunk_1) simp
  ultimately show ?thesis by (auto simp: Let_def split: if_splits)
qed

lemma ring_read_nth:
  assumes "h < L" "n \<le> L" "length arr = L"
  shows "ring_read 1 L arr h n = map (\<lambda>i. arr ! ((h + i) mod L)) [0..<n]"
proof -
  have "ring_read 1 L arr h n = concat (map (\<lambda>i. chunk 1 ((h + i) mod L) arr) [0..<n])"
    using assms by (intro ring_read_slots) auto
  also have "map (\<lambda>i. chunk 1 ((h + i) mod L) arr) [0..<n] = map (\<lambda>i. [arr ! ((h + i) mod L)]) [0..<n]"
    using assms by (intro map_cong refl chunk_1) auto
  finally show ?thesis by simp
qed

text \<open>The queue after writing \<open>n\<close> elements of \<open>data\<close>, and after removing \<open>n\<close> elements.\<close>

definition lfq_written :: "'a lfq \<Rightarrow> 'a list \<Rightarrow> nat \<Rightarrow> 'a lfq" where
  "lfq_written q data n = q\<lparr>
     queue_handle := ring_write 1 (lfq_LENGTH q + 1) (queue_handle q) (lfq_tail q) data n,
     lfq_tail := (lfq_tail q + n) mod (lfq_LENGTH q + 1)\<rparr>"

definition lfq_dropped :: "'a lfq \<Rightarrow> nat \<Rightarrow> 'a lfq" where
  "lfq_dropped q n = q\<lparr>lfq_head := (lfq_head q + n) mod (lfq_LENGTH q + 1)\<rparr>"

lemma lfq_wf_bounds:
  "lfq_wf q \<Longrightarrow> lfq_head q < lfq_LENGTH q + 1" "lfq_wf q \<Longrightarrow> lfq_tail q < lfq_LENGTH q + 1"
  "lfq_wf q \<Longrightarrow> length (queue_handle q) = lfq_LENGTH q + 1"
  by (auto simp: lfq_wf_def)

lemma lfq_written_props:
  assumes wf: "lfq_wf q" and room: "lfq_size q + n \<le> lfq_LENGTH q" and data: "n \<le> length data"
  shows "lfq_wf (lfq_written q data n)" and "lfq_size (lfq_written q data n) = lfq_size q + n"
    and "lfq_contents (lfq_written q data n) = lfq_contents q @ take n data"
proof -
  let ?L = "lfq_LENGTH q + 1" and ?s = "lfq_size q"
  have len: "length (ring_write 1 ?L (queue_handle q) (lfq_tail q) data n) = ?L"
    using length_ring_write [of "lfq_tail q" ?L n 1 data "queue_handle q"]
      lfq_wf_bounds [OF wf] room data by simp
  show "lfq_wf (lfq_written q data n)"
    using wf len mod_less_divisor [of ?L "lfq_tail q + n"]
    by (auto simp: lfq_wf_def lfq_written_def less_Suc_eq_le)
  show size: "lfq_size (lfq_written q data n) = ?s + n"
    using wf room
    by (auto simp: lfq_wf_def lfq_written_def lfq_size_def Let_def ring_add_mod split: if_splits)
  show "lfq_contents (lfq_written q data n) = lfq_contents q @ take n data"
  proof (rule nth_equalityI)
    show "length (lfq_contents (lfq_written q data n)) = length (lfq_contents q @ take n data)"
      using size data by simp
    fix i assume "i < length (lfq_contents (lfq_written q data n))"
    then have i: "i < ?s + n" using size by simp
    let ?j = "(lfq_head q + i) mod ?L"
    have k: "(?j + ?L - lfq_tail q) mod ?L = (if i < ?s then i + ?L - ?s else i - ?s)"
      using i room lfq_wf_bounds(1) [OF wf] lfq_sizes(1) [OF wf]
      by (simp only: lfq_sizes(4) [OF wf]) (rule ring_offset; linarith)
    have "ring_write 1 ?L (queue_handle q) (lfq_tail q) data n ! ?j =
        (if i < ?s then queue_handle q ! ?j else data ! (i - ?s))"
      using nth_ring_write [of "lfq_tail q" ?L n data "queue_handle q" ?j]
        lfq_wf_bounds [OF wf] room data i k by auto
    then show "lfq_contents (lfq_written q data n) ! i = (lfq_contents q @ take n data) ! i"
      using i size data by (auto simp: lfq_contents_def lfq_slot_def lfq_written_def nth_append)
  qed
qed

lemma lfq_dropped_props:
  assumes wf: "lfq_wf q" and some: "n \<le> lfq_size q"
  shows "lfq_wf (lfq_dropped q n)" and "lfq_size (lfq_dropped q n) = lfq_size q - n"
    and "lfq_contents (lfq_dropped q n) = drop n (lfq_contents q)"
proof -
  let ?L = "lfq_LENGTH q + 1"
  show "lfq_wf (lfq_dropped q n)"
    using wf mod_less_divisor [of ?L "lfq_head q + n"]
    by (auto simp: lfq_wf_def lfq_dropped_def less_Suc_eq_le)
  show size: "lfq_size (lfq_dropped q n) = lfq_size q - n"
    using wf some
    by (auto simp: lfq_wf_def lfq_dropped_def lfq_size_def Let_def ring_add_mod split: if_splits)
  show "lfq_contents (lfq_dropped q n) = drop n (lfq_contents q)"
  proof (rule nth_equalityI)
    show "length (lfq_contents (lfq_dropped q n)) = length (drop n (lfq_contents q))"
      using size by simp
    fix i assume "i < length (lfq_contents (lfq_dropped q n))"
    then have "i < lfq_size q - n" using size by simp
    then show "lfq_contents (lfq_dropped q n) ! i = drop n (lfq_contents q) ! i"
      using size ring_shift [of "lfq_head q" n ?L i]
      by (simp add: lfq_contents_def lfq_slot_def lfq_dropped_def)
  qed
qed

lemma lfq_ring_read:
  assumes "lfq_wf q" "n \<le> lfq_size q"
  shows "ring_read 1 (lfq_LENGTH q + 1) (queue_handle q) (lfq_head q) n = take n (lfq_contents q)"
  using assms lfq_sizes(1) [OF assms(1)] lfq_wf_bounds [OF assms(1)]
  by (simp add: ring_read_nth [where L = "Suc (lfq_LENGTH q)", simplified] lfq_contents_def
      take_map lfq_slot_def [abs_def])

text \<open>The operations of the class are one of the two.\<close>

lemma lfq_push_batch_eq:
  assumes "lfq_wf q" "n \<le> length data"
  shows "lfq_push_batch q data n =
    (if lfq_size q + n \<le> lfq_LENGTH q then Some (lfq_written q data n, OK) else Some (q, FULL))"
proof (cases "lfq_size q + n \<le> lfq_LENGTH q")
  case False
  then show ?thesis using lfq_sizes [OF assms(1)] by (auto simp: lfq_push_batch_def Let_def)
next
  case True
  define p where "p = min n (lfq_LENGTH q + 1 - lfq_tail q)"
  note wf = lfq_wf_bounds [OF assms(1)]
  have n: "n \<le> lfq_LENGTH q + 1" using True by simp
  have b: "lfq_tail q + p \<le> length (queue_handle q)" "p \<le> n" "p \<le> length data"
    "n - p \<le> length (queue_handle q)" "p + (n - p) \<le> length data"
    using wf n assms(2) by (auto simp: p_def)
  let ?a1 = "blit (queue_handle q) (lfq_tail q) (take p data)"
  have l1: "length ?a1 = length (queue_handle q)" using b by simp
  have "\<not> lfq_free_space q < n" using True lfq_sizes [OF assms(1)] by simp
  moreover have "array_copy (queue_handle q) (lfq_tail q) data 0 p = Some ?a1"
    using b by (simp add: array_copy_def)
  moreover have "(if n > p then array_copy ?a1 0 data p (n - p) else Some ?a1) =
      Some (blit ?a1 0 (take (n - p) (drop p data)))"
    using b l1 by (simp add: array_copy_def)
  moreover have "blit ?a1 0 (take (n - p) (drop p data)) =
      ring_write 1 (lfq_LENGTH q + 1) (queue_handle q) (lfq_tail q) data n"
    by (simp only: ring_write_def Let_def p_def mult_1_right)
  ultimately show ?thesis
    using True
    by (cases "p < n") (simp_all add: lfq_push_batch_def Let_def p_def [symmetric] lfq_written_def
        del: One_nat_def)
qed

lemma lfq_push_eq:
  assumes "lfq_wf q"
  shows "lfq_push q x =
    (if lfq_size q < lfq_LENGTH q then Some (lfq_written q [x] 1, OK) else Some (q, FULL))"
proof (cases "lfq_size q < lfq_LENGTH q")
  case False
  then have "lfq_increment q (lfq_tail q) = lfq_head q"
    using lfq_full_iff [OF assms] lfq_sizes(1) [OF assms] by simp
  then show ?thesis using False by (simp add: lfq_push_def Let_def)
next
  case True
  have "ring_write 1 (lfq_LENGTH q + 1) (queue_handle q) (lfq_tail q) [x] 1 =
      (queue_handle q)[lfq_tail q := x]"
    using lfq_wf_bounds [OF assms] by (simp add: ring_write_def Let_def blit_def min_def upd_conv_take_nth_drop)
  then show ?thesis
    using True lfq_full_iff [OF assms] lfq_wf_bounds [OF assms] lfq_increment_wf [OF assms, of "lfq_tail q"]
    by (simp add: lfq_push_def Let_def lfq_written_def)
qed

lemma lfq_contents_hd:
  "lfq_wf q \<Longrightarrow> 0 < lfq_size q \<Longrightarrow> queue_handle q ! lfq_head q = hd (lfq_contents q)"
  by (simp add: lfq_contents_def hd_map lfq_slot_def lfq_wf_def)

lemma lfq_pop_eq:
  assumes "lfq_wf q"
  shows "lfq_pop k q y = (if lfq_size q = 0 then Some (q, EMPTY, y)
    else Some (lfq_dropped q 1, OK, hd (lfq_contents q)))"
proof -
  have "lfq_pop_loop k q (lfq_head q) y = (if lfq_size q = 0 then Some (q, EMPTY, y)
      else Some (lfq_dropped q 1, OK, hd (lfq_contents q)))"
    using lfq_empty_iff [OF assms] lfq_wf_bounds [OF assms] lfq_contents_hd [OF assms]
      lfq_increment_wf [OF assms, of "lfq_head q"]
    by (induction k arbitrary: y) (auto simp: lfq_dropped_def)
  then show ?thesis by (simp add: lfq_pop_def)
qed

lemma lfq_discard_eq:
  assumes "lfq_wf q"
  shows "lfq_discard k q = (if lfq_size q = 0 then Some (q, EMPTY) else Some (lfq_dropped q 1, OK))"
proof -
  have "lfq_discard_loop k q (lfq_head q) =
      (if lfq_size q = 0 then Some (q, EMPTY) else Some (lfq_dropped q 1, OK))"
    using lfq_empty_iff [OF assms] lfq_wf_bounds [OF assms]
      lfq_increment_wf [OF assms, of "lfq_head q"]
    by (induction k) (auto simp: lfq_dropped_def)
  then show ?thesis by (simp add: lfq_discard_def)
qed

lemma lfq_peek_eq:
  "lfq_wf q \<Longrightarrow> lfq_peek q y =
    (if lfq_size q = 0 then Some (EMPTY, y) else Some (OK, hd (lfq_contents q)))"
  using lfq_empty_iff [of q] lfq_wf_bounds [of q] lfq_contents_hd [of q]
  by (auto simp: lfq_peek_def Let_def)

lemma lfq_copy_out_eq:
  assumes "lfq_wf q" "n \<le> lfq_size q" "n \<le> length buf"
  shows "lfq_copy_out q (lfq_head q) n (Some buf) = Some (Some (take n (lfq_contents q) @ drop n buf))"
proof -
  define p where "p = min n (lfq_LENGTH q + 1 - lfq_head q)"
  note wf = lfq_wf_bounds [OF assms(1)]
  let ?a = "queue_handle q" and ?h = "lfq_head q"
  have b: "?h + p \<le> length ?a" "p \<le> n" "n - p \<le> length ?a"
    using wf assms lfq_sizes(1) [OF assms(1)] by (auto simp: p_def)
  let ?b1 = "blit buf 0 (take p (drop ?h ?a))"
  have l1: "length ?b1 = length buf" using b assms(3) by simp
  have lp: "length (take p (drop ?h ?a)) = p" using b by simp
  have "array_copy buf 0 ?a ?h p = Some ?b1" using b assms(3) by (simp add: array_copy_def)
  moreover have "(if n > p then array_copy ?b1 p ?a 0 (n - p) else Some ?b1) =
      Some (blit ?b1 p (take (n - p) ?a))"
    using b l1 assms(3) by (simp add: array_copy_def)
  moreover have "blit ?b1 p (take (n - p) ?a) =
      take p (drop ?h ?a) @ take (n - p) ?a @ drop n buf"
    using b lp by (simp add: blit_def)
  moreover have "take p (drop ?h ?a) @ take (n - p) ?a = take n (lfq_contents q)"
    using lfq_ring_read [OF assms(1,2)] by (simp add: ring_read_def Let_def p_def)
  ultimately show ?thesis
    by (cases "p < n") (simp_all add: lfq_copy_out_def p_def [symmetric] Let_def del: One_nat_def)
qed

definition lfq_out :: "'a lfq \<Rightarrow> nat \<Rightarrow> 'a list option \<Rightarrow> 'a list option" where
  "lfq_out q n data = map_option (\<lambda>buf. take n (lfq_contents q) @ drop n buf) data"

lemma lfq_copy_out_opt:
  "lfq_wf q \<Longrightarrow> n \<le> lfq_size q \<Longrightarrow> (\<forall>buf. data = Some buf \<longrightarrow> n \<le> length buf) \<Longrightarrow>
   lfq_copy_out q (lfq_head q) n data = Some (lfq_out q n data)"
  by (cases data) (simp_all add: lfq_copy_out_eq lfq_out_def, simp add: lfq_copy_out_def)

lemma lfq_out_out:
  "n \<le> lfq_size q \<Longrightarrow> lfq_out q n (lfq_out q n data) = lfq_out q n data"
  by (cases data) (simp_all add: lfq_out_def)

lemma lfq_pop_batch_eq:
  "lfq_wf q \<Longrightarrow> \<forall>buf. data = Some buf \<longrightarrow> n \<le> length buf \<Longrightarrow> lfq_pop_batch k q data n =
    (if lfq_size q < n then Some (q, EMPTY, data)
     else Some (lfq_dropped q n, OK, lfq_out q n data))"
proof (induction k arbitrary: data)
  case 0
  then show ?case using lfq_sizes(3) [of q] by (simp add: lfq_copy_out_opt lfq_dropped_def)
next
  case (Suc k)
  show ?case
  proof (cases "lfq_size q < n")
    case False
    then have "\<forall>buf. lfq_out q n data = Some buf \<longrightarrow> n \<le> length buf"
      by (auto simp: lfq_out_def)
    then show ?thesis
      using False Suc lfq_sizes(3) [of q] by (simp add: lfq_copy_out_opt lfq_out_out)
  qed (use Suc.prems lfq_sizes(3) [of q] in simp)
qed

lemma lfq_peek_batch_eq:
  "lfq_wf q \<Longrightarrow> \<forall>buf. data = Some buf \<longrightarrow> n \<le> length buf \<Longrightarrow> lfq_peek_batch q data n =
    (if lfq_size q < n then Some (EMPTY, data) else Some (OK, lfq_out q n data))"
  using lfq_sizes(3) [of q]
  by (cases data) (simp_all add: lfq_peek_batch_def lfq_copy_out_opt lfq_out_def)

text \<open>The spans that \<open>PopWithReader\<close> passes on, in order.\<close>

definition lfq_spans :: "'a lfq \<Rightarrow> nat \<Rightarrow> 'a list \<times> 'a list" where
  "lfq_spans q n = (let p = min n (lfq_LENGTH q + 1 - lfq_head q)
     in (take p (drop (lfq_head q) (queue_handle q)), take (n - p) (queue_handle q)))"

lemma lfq_spans_contents:
  "lfq_wf q \<Longrightarrow> n \<le> lfq_size q \<Longrightarrow> fst (lfq_spans q n) @ snd (lfq_spans q n) = take n (lfq_contents q)"
  using lfq_ring_read [of q n] by (simp add: lfq_spans_def ring_read_def Let_def)

lemma lfq_pop_with_reader_eq:
  assumes "lfq_wf q" "0 < n" "n \<le> lfq_size q"
  shows "lfq_pop_with_reader q n reader s =
    (case lfq_spans q n of (a, b) \<Rightarrow> case reader a s of (ec1, s1) \<Rightarrow>
      if ec1 \<noteq> OK then Some (q, ec1, s1)
      else if b = [] then Some (lfq_dropped q n, OK, s1)
      else case reader b s1 of (ec2, s2) \<Rightarrow>
        if ec2 \<noteq> OK then Some (q, ec2, s2) else Some (lfq_dropped q n, OK, s2))"
proof -
  define p where "p = min n (lfq_LENGTH q + 1 - lfq_head q)"
  have le: "lfq_head q + p \<le> length (queue_handle q)" "n - p \<le> length (queue_handle q)" "p \<le> n"
    using lfq_wf_bounds [OF assms(1)] assms(3) lfq_sizes(1) [OF assms(1)] by (auto simp: p_def)
  have e: "take (n - p) (queue_handle q) = [] \<longleftrightarrow> \<not> p < n"
    using le lfq_wf_bounds(3) [OF assms(1)] by auto
  have sp: "lfq_spans q n = (take p (drop (lfq_head q) (queue_handle q)), take (n - p) (queue_handle q))"
    by (simp add: lfq_spans_def p_def Let_def)
  have "\<not> lfq_available q < n" "n \<noteq> 0" "\<not> length (queue_handle q) < lfq_head q + p"
    "\<not> length (queue_handle q) < n - p"
    using assms lfq_sizes(3) [OF assms(1)] le by simp_all
  then show ?thesis
    unfolding lfq_pop_with_reader_def Let_def p_def [symmetric] sp prod.case e lfq_dropped_def
    by (auto split: prod.splits)
qed

section \<open>The queue meets the contract\<close>

interpretation lfq: bounded_fifo lfq_wf lfq_contents lfq_LENGTH "\<lambda>_ _. True" lfq_push "lfq_pop k"
proof
  fix q :: "'a lfq" and x y xs
  assume wf: "lfq_wf q"
  show "length (lfq_contents q) \<le> lfq_LENGTH q" by (simp add: lfq_sizes(1) wf)
  show "\<exists>q'. lfq_push q x = Some (q', OK) \<and> lfq_wf q' \<and> lfq_contents q' = lfq_contents q @ [x] \<and>
      lfq_LENGTH q' = lfq_LENGTH q \<and> (\<lambda>_ :: 'a. True) = (\<lambda>_. True)"
    if "length (lfq_contents q) < lfq_LENGTH q"
    using that wf lfq_written_props [of q 1 "[x]"] by (simp add: lfq_push_eq) (simp add: lfq_written_def)
  show "lfq_push q x = Some (q, FULL)" if "length (lfq_contents q) = lfq_LENGTH q"
    using that wf by (simp add: lfq_push_eq)
  show "\<exists>q'. lfq_pop k q y = Some (q', OK, x) \<and> lfq_wf q' \<and> lfq_contents q' = xs \<and>
      lfq_LENGTH q' = lfq_LENGTH q \<and> (\<lambda>_ :: 'a. True) = (\<lambda>_. True)"
    if "lfq_contents q = x # xs"
  proof -
    have "0 < lfq_size q" using that length_lfq_contents [of q] by simp
    then show ?thesis
      using that wf lfq_dropped_props [of q 1] by (simp add: lfq_pop_eq) (simp add: lfq_dropped_def)
  qed
  show "lfq_pop k q y = Some (q, EMPTY, y)" if "lfq_contents q = []"
    using that wf length_lfq_contents [of q] by (simp add: lfq_pop_eq)
qed

lemma lfq_new_wf:
  assumes "0 < align" "align_up len align < 2 ^ 32" "\<And>n. length (fresh n) = n"
  shows "lfq_wf (lfq_new align len fresh)" and "lfq_contents (lfq_new align len fresh) = []"
    and "len \<le> lfq_LENGTH (lfq_new align len fresh)"
  using assms align_up_room [of align len]
  by (auto simp: lfq_wf_def lfq_new_def lfq_contents_def lfq_size_def align_up_def)

section \<open>Properties\<close>

text \<open>C6: from a new queue, any sequence of \<open>Push\<close> and \<open>Pop\<close> calls, with any number of spurious
  compare-exchange failures in each \<open>Pop\<close>, has the results of a bounded FIFO list whose bound is
  at least the requested length; nothing is lost, duplicated or reordered.\<close>

theorem lfq_fifo:
  assumes "0 < align" "align_up len align < 2 ^ 32" "\<And>n. length (fresh n) = n"
  shows "\<exists>rs q'. fifo_run lfq_push (lfq_pop k) (lfq_new align len fresh) ops = Some (rs, q') \<and>
    fifo_spec (align_up len align - 1) [] ops = (rs, lfq_contents q') \<and>
    delivered ops rs @ lfq_contents q' = accepted ops rs \<and> len \<le> align_up len align - 1"
proof -
  note new = lfq_new_wf [where fresh = fresh, OF assms]
  have "lfq_LENGTH (lfq_new align len fresh) = align_up len align - 1" by (simp add: lfq_new_def)
  then show ?thesis
    using lfq.run_refines [OF new(1), of ops k] new(2,3) fifo_spec_order [of _ "[]" ops] by fastforce
qed

theorem lfq_fifo_witness:
  "\<exists>rs q'. fifo_run lfq_push (lfq_pop 3) (lfq_new 4 2 (\<lambda>n. replicate n 0))
     [Enqueue 1, Enqueue 2, Enqueue 3, Enqueue (4 :: nat), Dequeue 0] = Some (rs, q') \<and>
     lfq_contents q' = [2, 3]"
proof -
  have "snd (fifo_spec (align_up 2 4 - 1) [] [Enqueue 1, Enqueue 2, Enqueue 3, Enqueue (4 :: nat), Dequeue 0])
    = [2, 3]" by code_simp
  then show ?thesis
    using lfq_fifo [of 4 2 "\<lambda>n. replicate n 0" 3
        "[Enqueue 1, Enqueue 2, Enqueue 3, Enqueue (4 :: nat), Dequeue 0]"]
    by (auto simp: align_up_def)
qed

text \<open>The batch operations are all or nothing and agree with the element-wise ones:
  \<open>PushBatch\<close> appends the \<open>n\<close> elements, \<open>PopBatch\<close> removes the oldest \<open>n\<close> and delivers them (to
  a non-null buffer) in order, \<open>PeekBatch\<close> delivers the same and removes nothing.\<close>

theorem lfq_batch_correct:
  assumes "lfq_wf q" and "n \<le> length data" and "n \<le> length buf"
  shows "\<exists>q1 q2. lfq_push_batch q data n =
      Some (q1, if lfq_size q + n \<le> lfq_LENGTH q then OK else FULL) \<and> lfq_wf q1 \<and>
    lfq_contents q1 = lfq_contents q @ (if lfq_size q + n \<le> lfq_LENGTH q then take n data else []) \<and>
    lfq_pop_batch k q (Some buf) n = (if n \<le> lfq_size q
      then Some (q2, OK, Some (take n (lfq_contents q) @ drop n buf)) else Some (q2, EMPTY, Some buf)) \<and>
    lfq_wf q2 \<and> lfq_contents q2 = (if n \<le> lfq_size q then drop n (lfq_contents q) else lfq_contents q) \<and>
    lfq_peek_batch q (Some buf) n = (if n \<le> lfq_size q
      then Some (OK, Some (take n (lfq_contents q) @ drop n buf)) else Some (EMPTY, Some buf))"
proof -
  let ?q1 = "if lfq_size q + n \<le> lfq_LENGTH q then lfq_written q data n else q"
  let ?q2 = "if n \<le> lfq_size q then lfq_dropped q n else q"
  have "lfq_wf ?q1" "lfq_contents ?q1 = lfq_contents q @ (if lfq_size q + n \<le> lfq_LENGTH q then take n data else [])"
    using lfq_written_props [OF assms(1) _ assms(2)] assms(1) by simp_all
  moreover have "lfq_wf ?q2"
    "lfq_contents ?q2 = (if n \<le> lfq_size q then drop n (lfq_contents q) else lfq_contents q)"
    using lfq_dropped_props [OF assms(1), of n] assms(1) by simp_all
  ultimately show ?thesis
    using lfq_push_batch_eq [OF assms(1,2)] lfq_pop_batch_eq [OF assms(1), of "Some buf" n k]
      lfq_peek_batch_eq [OF assms(1), of "Some buf" n] assms(3)
    by (intro exI [of _ ?q1] exI [of _ ?q2]) (auto simp: lfq_out_def)
qed

theorem lfq_batch_correct_witness:
  "\<exists>q2. lfq_pop_batch 1 \<lparr>lfq_head = 3, lfq_tail = 1, lfq_LENGTH = 3, queue_handle = [8, 0, 0, 7 :: nat]\<rparr>
      (Some [1, 2, 3]) 2 = Some (q2, OK, Some [7, 8, 3])"
proof -
  let ?q = "\<lparr>lfq_head = 3, lfq_tail = 1, lfq_LENGTH = 3, queue_handle = [8, 0, 0, 7 :: nat]\<rparr>"
  have "lfq_contents ?q = [7, 8]" "lfq_size ?q = 2" by code_simp+
  then show ?thesis
    using lfq_batch_correct [of ?q 2 "[1, 2]" "[1, 2, 3]" 1] by (auto simp: lfq_wf_def)
qed

text \<open>C7: \<open>PopWithReader\<close> hands the oldest \<open>n\<close> elements to the reader in order, in one span or
  two, and removes them only if every call of the reader returned \<open>OK\<close>; after an error, which it
  returns, and when fewer elements are there, the queue is as before.\<close>

theorem lfq_pop_with_reader_correct:
  assumes "lfq_wf q" and "0 < n"
  shows "(n \<le> lfq_size q \<longrightarrow> (\<exists>a b ec s' q'. a @ b = take n (lfq_contents q) \<and>
      lfq_pop_with_reader q n reader s = Some (q', ec, s') \<and> lfq_wf q' \<and>
      (ec, s') = (case reader a s of (ec1, s1) \<Rightarrow> if ec1 \<noteq> OK \<or> b = [] then (ec1, s1) else reader b s1) \<and>
      lfq_contents q' = (if ec = OK then drop n (lfq_contents q) else lfq_contents q))) \<and>
    (lfq_size q < n \<longrightarrow> lfq_pop_with_reader q n reader s = Some (q, EMPTY, s))"
proof (intro conjI impI)
  assume n: "n \<le> lfq_size q"
  obtain a b where ab: "lfq_spans q n = (a, b)" by (cases "lfq_spans q n")
  obtain ec1 s1 where r1: "reader a s = (ec1, s1)" by (cases "reader a s")
  obtain ec2 s2 where r2: "reader b s1 = (ec2, s2)" by (cases "reader b s1")
  show "\<exists>a b ec s' q'. a @ b = take n (lfq_contents q) \<and>
      lfq_pop_with_reader q n reader s = Some (q', ec, s') \<and> lfq_wf q' \<and>
      (ec, s') = (case reader a s of (ec1, s1) \<Rightarrow> if ec1 \<noteq> OK \<or> b = [] then (ec1, s1) else reader b s1) \<and>
      lfq_contents q' = (if ec = OK then drop n (lfq_contents q) else lfq_contents q)"
    using lfq_spans_contents [OF assms(1) n] lfq_pop_with_reader_eq [OF assms n, of reader s]
      lfq_dropped_props [OF assms(1) n] assms(1) ab r1 r2
    by (intro exI [of _ a] exI [of _ b]) auto
next
  assume "lfq_size q < n"
  then show "lfq_pop_with_reader q n reader s = Some (q, EMPTY, s)"
    using lfq_sizes(3) [OF assms(1)] by (simp add: lfq_pop_with_reader_def)
qed

theorem lfq_pop_with_reader_correct_witness:
  "\<exists>ec s' q'. lfq_pop_with_reader
      \<lparr>lfq_head = 3, lfq_tail = 1, lfq_LENGTH = 3, queue_handle = [8, 0, 0, 7 :: nat]\<rparr> 2
      (\<lambda>xs s. (if 8 \<in> set xs then BUSY else OK, s @ xs)) [] = Some (q', ec, s') \<and>
    (ec \<noteq> OK \<longrightarrow> lfq_contents q' = [7, 8])"
proof -
  let ?q = "\<lparr>lfq_head = 3, lfq_tail = 1, lfq_LENGTH = 3, queue_handle = [8, 0, 0, 7 :: nat]\<rparr>"
  have "lfq_contents ?q = [7, 8]" "lfq_size ?q = 2" by code_simp+
  then show ?thesis
    using lfq_pop_with_reader_correct [of ?q 2 "\<lambda>xs s. (if 8 \<in> set xs then BUSY else OK, s @ xs)" "[]"]
    by (auto simp: lfq_wf_def)
qed

end
