(* ===== verification/Queue_Threads.thy ===== *)
theory Queue_Threads
  imports Lock_Free_Queue
begin

text \<open>
  One producer and several consumers on a \<open>LockFreeQueue\<close> (\<open>Push\<close> and \<open>Pop\<close> of
  src/src/structure/lockfree_queue.hpp), one atomic access or element copy per step, sequentially
  consistent memory. Two ghost components record the pushed and the delivered elements; a third
  is not needed, the head and the tail are their lengths modulo the capacity as long as there is
  a single consumer. With two consumers a stalled compare-exchange succeeds on a recycled head.
\<close>

datatype 'a prod_pc =
    P_Idle
  | P_Loaded 'a nat nat
  | P_Room 'a nat nat
  | P_Written 'a nat

datatype 'a cons_pc =
    C_Idle
  | C_Head nat
  | C_Some nat
  | C_Read nat 'a

record 'a lfq_state =
  q_slots :: "'a list"
  q_head :: nat
  q_tail :: nat
  producer :: "'a prod_pc"
  consumer :: "nat \<Rightarrow> 'a cons_pc"
  pushed :: "'a list"
  delivered_log :: "'a list"

datatype 'a lfq_event =
    Push_Call 'a
  | Push_Check
  | Push_Write
  | Push_Publish
  | Pop_Call nat
  | Pop_Check nat
  | Pop_Read nat
  | Pop_Cas nat
  | Pop_Spurious nat

fun event_consumer :: "'a lfq_event \<Rightarrow> nat option" where
  "event_consumer (Pop_Call c) = Some c"
| "event_consumer (Pop_Check c) = Some c"
| "event_consumer (Pop_Read c) = Some c"
| "event_consumer (Pop_Cas c) = Some c"
| "event_consumer (Pop_Spurious c) = Some c"
| "event_consumer _ = None"

definition set_consumer :: "'a lfq_state \<Rightarrow> nat \<Rightarrow> 'a cons_pc \<Rightarrow> 'a lfq_state" where
  "set_consumer s c pc = s\<lparr>consumer := (consumer s)(c := pc)\<rparr>"

text \<open>One step on a ring of \<open>cap\<close> slots, \<open>cap\<close> being \<open>LENGTH + 1\<close>; \<open>None\<close> when the thread is not at that
  point. The sum in \<open>Increment\<close> is one of \<open>uint32_t\<close>; an index below \<open>cap\<close> makes it wrap only for
  \<open>cap = 2^32\<close>, where the wrapped sum 0 is the remainder as well. Rings of more slots, which need a
  64-bit \<open>size_t\<close> and an element for each, are not what these steps describe.\<close>

fun lfq_event_step :: "nat \<Rightarrow> 'a lfq_state \<Rightarrow> 'a lfq_event \<Rightarrow> 'a lfq_state option" where
  "lfq_event_step cap s (Push_Call x) =
     (case producer s of
        P_Idle \<Rightarrow> Some (s\<lparr>producer := P_Loaded x (q_tail s) ((q_tail s + 1) mod cap)\<rparr>)
      | _ \<Rightarrow> None)"
| "lfq_event_step cap s Push_Check =
     (case producer s of
        P_Loaded x t nt \<Rightarrow>
          if nt = q_head s then Some (s\<lparr>producer := P_Idle\<rparr>) else Some (s\<lparr>producer := P_Room x t nt\<rparr>)
      | _ \<Rightarrow> None)"
| "lfq_event_step cap s Push_Write =
     (case producer s of
        P_Room x t nt \<Rightarrow> do {
          slots \<leftarrow> array_set (q_slots s) t x;
          Some (s\<lparr>q_slots := slots, producer := P_Written x nt\<rparr>)
        }
      | _ \<Rightarrow> None)"
| "lfq_event_step cap s Push_Publish =
     (case producer s of
        P_Written x nt \<Rightarrow> Some (s\<lparr>q_tail := nt, pushed := pushed s @ [x], producer := P_Idle\<rparr>)
      | _ \<Rightarrow> None)"
| "lfq_event_step cap s (Pop_Call c) =
     (case consumer s c of
        C_Idle \<Rightarrow> Some (set_consumer s c (C_Head (q_head s)))
      | _ \<Rightarrow> None)"
| "lfq_event_step cap s (Pop_Check c) =
     (case consumer s c of
        C_Head h \<Rightarrow>
          if h = q_tail s then Some (set_consumer s c C_Idle) else Some (set_consumer s c (C_Some h))
      | _ \<Rightarrow> None)"
| "lfq_event_step cap s (Pop_Read c) =
     (case consumer s c of
        C_Some h \<Rightarrow> do {
          x \<leftarrow> array_get (q_slots s) h;
          Some (set_consumer s c (C_Read h x))
        }
      | _ \<Rightarrow> None)"
| "lfq_event_step cap s (Pop_Cas c) =
     (case consumer s c of
        C_Read h x \<Rightarrow>
          if q_head s = h
          then Some (set_consumer (s\<lparr>q_head := (h + 1) mod cap, delivered_log := delivered_log s @ [x]\<rparr>)
            c C_Idle)
          else Some (set_consumer s c (C_Head (q_head s)))
      | _ \<Rightarrow> None)"
| "lfq_event_step cap s (Pop_Spurious c) =
     (case consumer s c of
        C_Read h x \<Rightarrow> Some (set_consumer s c (C_Head (q_head s)))
      | _ \<Rightarrow> None)"

definition threads_init :: "'a list \<Rightarrow> 'a lfq_state" where
  "threads_init slots = \<lparr>q_slots = slots, q_head = 0, q_tail = 0, producer = P_Idle,
     consumer = (\<lambda>_. C_Idle), pushed = [], delivered_log = []\<rparr>"

text \<open>The states that the producer and the consumers in \<open>C\<close> reach from a new queue.\<close>

inductive lfq_reach :: "nat set \<Rightarrow> 'a list \<Rightarrow> 'a lfq_state \<Rightarrow> bool" for C slots where
  start: "lfq_reach C slots (threads_init slots)"
| step: "lfq_reach C slots s \<Longrightarrow> event_consumer e = None \<or> (\<exists>c \<in> C. event_consumer e = Some c) \<Longrightarrow>
    lfq_event_step (length slots) s e = Some s' \<Longrightarrow> lfq_reach C slots s'"

section \<open>Invariant for a single consumer\<close>

abbreviation n_out :: "'a lfq_state \<Rightarrow> nat" where
  "n_out s \<equiv> length (delivered_log s)"

abbreviation n_in :: "'a lfq_state \<Rightarrow> nat" where
  "n_in s \<equiv> length (pushed s)"

fun producer_ok :: "nat \<Rightarrow> nat \<Rightarrow> nat \<Rightarrow> nat \<Rightarrow> 'a list \<Rightarrow> 'a prod_pc \<Rightarrow> bool" where
  "producer_ok cap tail out inn slots P_Idle \<longleftrightarrow> True"
| "producer_ok cap tail out inn slots (P_Loaded x t nt) \<longleftrightarrow> t = tail \<and> nt = (tail + 1) mod cap"
| "producer_ok cap tail out inn slots (P_Room x t nt) \<longleftrightarrow>
     t = tail \<and> nt = (tail + 1) mod cap \<and> inn + 1 < out + cap"
| "producer_ok cap tail out inn slots (P_Written x nt) \<longleftrightarrow>
     nt = (tail + 1) mod cap \<and> inn + 1 < out + cap \<and> slots ! tail = x"

fun consumer_ok :: "nat \<Rightarrow> nat \<Rightarrow> 'a list \<Rightarrow> 'a cons_pc \<Rightarrow> bool" where
  "consumer_ok head out inp C_Idle \<longleftrightarrow> True"
| "consumer_ok head out inp (C_Head h) \<longleftrightarrow> h = head"
| "consumer_ok head out inp (C_Some h) \<longleftrightarrow> h = head \<and> out < length inp"
| "consumer_ok head out inp (C_Read h x) \<longleftrightarrow> h = head \<and> out < length inp \<and> x = inp ! out"

definition spsc_inv :: "nat \<Rightarrow> 'a lfq_state \<Rightarrow> bool" where
  "spsc_inv cap s \<longleftrightarrow> length (q_slots s) = cap \<and> 0 < cap \<and>
     q_head s = n_out s mod cap \<and> q_tail s = n_in s mod cap \<and>
     n_out s \<le> n_in s \<and> n_in s < n_out s + cap \<and>
     take (n_out s) (pushed s) = delivered_log s \<and>
     (\<forall>i. n_out s \<le> i \<and> i < n_in s \<longrightarrow> q_slots s ! (i mod cap) = pushed s ! i) \<and>
     producer_ok cap (q_tail s) (n_out s) (n_in s) (q_slots s) (producer s) \<and>
     consumer_ok (q_head s) (n_out s) (pushed s) (consumer s 0)"

lemma mod_window_inj:
  fixes i j :: nat
  assumes "i \<le> j" "j < i + cap" "i mod cap = j mod cap" shows "i = j"
proof -
  have "cap dvd j - i" using assms(1,3) mod_eq_dvd_iff_nat by metis
  then have "j - i = 0" using assms(1,2) by (cases "j - i = 0") (auto dest: dvd_imp_le)
  then show ?thesis using assms(1) by simp
qed

lemma spsc_init: "0 < length slots \<Longrightarrow> spsc_inv (length slots) (threads_init slots)"
  by (simp add: spsc_inv_def threads_init_def)

lemma producer_ok_pop:
  "producer_ok cap tail out inn slots pc \<Longrightarrow> producer_ok cap tail (Suc out) inn slots pc"
  by (cases pc) auto

lemma consumer_ok_push:
  "consumer_ok head out inp pc \<Longrightarrow> consumer_ok head out (inp @ [x]) pc"
  by (cases pc) (auto simp: nth_append)

lemma spsc_invD:
  assumes "spsc_inv cap s"
  shows "length (q_slots s) = cap" "0 < cap" "q_head s = n_out s mod cap" "q_tail s = n_in s mod cap"
    and "n_out s \<le> n_in s" "n_in s < n_out s + cap" "take (n_out s) (pushed s) = delivered_log s"
    and "\<forall>i. n_out s \<le> i \<and> i < n_in s \<longrightarrow> q_slots s ! (i mod cap) = pushed s ! i"
    and "producer_ok cap (q_tail s) (n_out s) (n_in s) (q_slots s) (producer s)"
  using assms unfolding spsc_inv_def by blast+

lemma spsc_consumer: "spsc_inv cap s \<Longrightarrow> consumer_ok (q_head s) (n_out s) (pushed s) (consumer s 0)"
  unfolding spsc_inv_def by blast

lemma spsc_push_check:
  assumes inv: "spsc_inv cap s" and pc: "producer s = P_Loaded x t nt" and ne: "nt \<noteq> q_head s"
  shows "n_in s + 1 < n_out s + cap"
proof (rule ccontr)
  assume "\<not> n_in s + 1 < n_out s + cap"
  then have "n_in s + 1 = n_out s + cap" using inv by (auto simp: spsc_inv_def)
  moreover have "nt = (n_in s + 1) mod cap"
    using inv pc by (simp add: spsc_inv_def mod_Suc_eq)
  ultimately show False using inv ne by (simp add: spsc_inv_def)
qed

lemma spsc_push_write:
  assumes inv: "spsc_inv cap s" and pc: "producer s = P_Room x t nt"
  shows "spsc_inv cap (s\<lparr>q_slots := (q_slots s)[t := x], producer := P_Written x nt\<rparr>)"
proof -
  have pok: "t = q_tail s" "nt = (q_tail s + 1) mod cap" and room: "n_in s + 1 < n_out s + cap"
    using spsc_invD(9) [OF inv] pc by simp_all
  then have t: "t = n_in s mod cap" "t < cap"
    using spsc_invD(2,4) [OF inv] by simp_all
  have "i mod cap \<noteq> t" if "n_out s \<le> i" "i < n_in s" for i
  proof
    assume "i mod cap = t"
    then have "i = n_in s"
      using mod_window_inj [of i "n_in s" cap] that room t(1) by linarith
    then show False using that by simp
  qed
  then have keep: "\<forall>i. n_out s \<le> i \<and> i < n_in s \<longrightarrow> (q_slots s)[t := x] ! (i mod cap) = pushed s ! i"
    using spsc_invD(8) [OF inv] by (metis nth_list_update_neq)
  have "producer_ok cap (q_tail s) (n_out s) (n_in s) ((q_slots s)[t := x]) (P_Written x nt)"
    using pok room t(2) spsc_invD(1) [OF inv] by simp
  with keep spsc_invD(1-7) [OF inv] spsc_consumer [OF inv] show ?thesis
    unfolding spsc_inv_def by (simp (no_asm) del: producer_ok.simps)
qed

lemma spsc_push_publish:
  assumes inv: "spsc_inv cap s" and pc: "producer s = P_Written x nt"
  shows "spsc_inv cap (s\<lparr>q_tail := nt, pushed := pushed s @ [x], producer := P_Idle\<rparr>)"
proof -
  have nt: "nt = (n_in s + 1) mod cap" and room: "n_in s + 1 < n_out s + cap"
    and new: "q_slots s ! (n_in s mod cap) = x"
    using inv pc by (auto simp: spsc_inv_def mod_Suc_eq)
  have "q_slots s ! (i mod cap) = (pushed s @ [x]) ! i" if "n_out s \<le> i" "i < Suc (n_in s)" for i
  proof (cases "i = n_in s")
    case False
    then show ?thesis using that inv by (simp add: spsc_inv_def nth_append)
  qed (use new in simp)
  then show ?thesis
    using nt room spsc_invD(1-7) [OF inv] consumer_ok_push [OF spsc_consumer [OF inv], of x]
    by (simp add: spsc_inv_def)
qed

lemma spsc_pop_check:
  assumes inv: "spsc_inv cap s" and pc: "consumer s 0 = C_Head h" and ne: "h \<noteq> q_tail s"
  shows "n_out s < n_in s"
proof -
  have "q_head s = n_out s mod cap" "q_tail s = n_in s mod cap" "n_out s \<le> n_in s" "h = q_head s"
    using inv pc by (simp_all add: spsc_inv_def)
  with ne show ?thesis by (metis le_neq_implies_less)
qed

lemma spsc_pop_cas:
  assumes inv: "spsc_inv cap s" and pc: "consumer s 0 = C_Read h x"
  shows "spsc_inv cap (set_consumer
    (s\<lparr>q_head := (h + 1) mod cap, delivered_log := delivered_log s @ [x]\<rparr>) 0 C_Idle)"
proof -
  have h: "(h + 1) mod cap = (n_out s + 1) mod cap" "n_out s < n_in s" "x = pushed s ! n_out s"
    using inv pc by (auto simp: spsc_inv_def mod_Suc_eq)
  moreover have "take (Suc (n_out s)) (pushed s) = delivered_log s @ [x]"
    using inv h by (simp add: spsc_inv_def take_Suc_conv_app_nth)
  moreover note producer_ok_pop [OF spsc_invD(9) [OF inv]]
  ultimately show ?thesis
    using spsc_invD(1-8) [OF inv] by (simp add: spsc_inv_def set_consumer_def)
qed

lemma spsc_set_consumer:
  "spsc_inv cap s \<Longrightarrow> c = 0 \<Longrightarrow> consumer_ok (q_head s) (n_out s) (pushed s) pc \<Longrightarrow>
   spsc_inv cap (set_consumer s c pc)"
  unfolding spsc_inv_def set_consumer_def by (hypsubst, simp (no_asm), blast)

lemma spsc_set_producer:
  "spsc_inv cap s \<Longrightarrow> producer_ok cap (q_tail s) (n_out s) (n_in s) (q_slots s) pc \<Longrightarrow>
   spsc_inv cap (s\<lparr>producer := pc\<rparr>)"
  unfolding spsc_inv_def by (simp (no_asm), blast)

lemma spsc_pop_read:
  assumes inv: "spsc_inv cap s" and pc: "consumer s 0 = C_Some h"
  shows "q_slots s ! h = pushed s ! n_out s"
  using assms by (simp add: spsc_inv_def)

lemma spsc_step:
  assumes inv: "spsc_inv cap s" and e: "event_consumer e = None \<or> event_consumer e = Some 0"
    and step: "lfq_event_step cap s e = Some s'"
  shows "spsc_inv cap s'"
proof (cases e)
  case (Push_Call x)
  then show ?thesis using inv step by (auto intro!: spsc_set_producer split: prod_pc.splits)
next
  case Push_Check
  then obtain x t nt where pc: "producer s = P_Loaded x t nt"
    using step by (auto split: prod_pc.splits)
  then have "producer_ok cap (q_tail s) (n_out s) (n_in s) (q_slots s) (P_Loaded x t nt)"
    using inv by (simp add: spsc_inv_def)
  then show ?thesis
    using Push_Check inv step pc spsc_push_check [OF inv pc]
    by (auto intro!: spsc_set_producer split: if_splits)
next
  case Push_Write
  then obtain x t nt where pc: "producer s = P_Room x t nt" and
    "s' = s\<lparr>q_slots := (q_slots s)[t := x], producer := P_Written x nt\<rparr>"
    using step by (auto simp: array_set_def split: prod_pc.splits if_splits)
  then show ?thesis using spsc_push_write [OF inv pc] by simp
next
  case Push_Publish
  then show ?thesis using step spsc_push_publish [OF inv] by (auto split: prod_pc.splits)
next
  case (Pop_Call c)
  then show ?thesis using inv e step by (auto intro!: spsc_set_consumer split: cons_pc.splits)
next
  case (Pop_Check c)
  then show ?thesis
    using inv e step spsc_pop_check [OF inv] spsc_consumer [OF inv]
    by (auto intro!: spsc_set_consumer split: cons_pc.splits if_splits)
next
  case (Pop_Read c)
  then obtain h where pc: "consumer s 0 = C_Some h" and
    s': "s' = set_consumer s 0 (C_Read h (q_slots s ! h))"
    using step e by (auto simp: array_get_def split: cons_pc.splits if_splits)
  then show ?thesis
    using inv spsc_pop_read [OF inv pc] spsc_consumer [OF inv] by (auto intro!: spsc_set_consumer)
next
  case (Pop_Cas c)
  then obtain h x where pc: "consumer s 0 = C_Read h x"
    using step e by (auto split: cons_pc.splits)
  then have "q_head s = h" using spsc_consumer [OF inv] by simp
  then show ?thesis using Pop_Cas step e pc spsc_pop_cas [OF inv pc] by auto
next
  case (Pop_Spurious c)
  then show ?thesis using inv e step by (auto intro!: spsc_set_consumer split: cons_pc.splits)
qed

lemma spsc_reach: "lfq_reach {0} slots s \<Longrightarrow> 0 < length slots \<Longrightarrow> spsc_inv (length slots) s"
  by (induction rule: lfq_reach.induct) (auto intro: spsc_init spsc_step)

section \<open>Runs\<close>

fun lfq_run :: "nat \<Rightarrow> 'a lfq_state \<Rightarrow> 'a lfq_event list \<Rightarrow> 'a lfq_state option" where
  "lfq_run cap s [] = Some s"
| "lfq_run cap s (e # es) =
     (case lfq_event_step cap s e of None \<Rightarrow> None | Some s' \<Rightarrow> lfq_run cap s' es)"

lemma lfq_run_reach:
  "lfq_run (length slots) s es = Some s' \<Longrightarrow> lfq_reach C slots s \<Longrightarrow>
   \<forall>e \<in> set es. event_consumer e = None \<or> (\<exists>c \<in> C. event_consumer e = Some c) \<Longrightarrow>
   lfq_reach C slots s'"
proof (induction es arbitrary: s)
  case (Cons e es)
  then obtain s1 where "lfq_event_step (length slots) s e = Some s1"
    "lfq_run (length slots) s1 es = Some s'" by (auto split: option.splits)
  moreover from this(1) have "lfq_reach C slots s1"
    by (rule lfq_reach.step [OF Cons.prems(2), of e, rotated]) (use Cons.prems(3) in simp)
  ultimately show ?case using Cons.IH Cons.prems(3) by simp
qed simp

definition push_events :: "'a \<Rightarrow> 'a lfq_event list" where
  "push_events x = [Push_Call x, Push_Check, Push_Write, Push_Publish]"

definition pop_events :: "nat \<Rightarrow> 'a lfq_event list" where
  "pop_events c = [Pop_Call c, Pop_Check c, Pop_Read c, Pop_Cas c]"

section \<open>Properties\<close>

text \<open>C5: with one producer and one consumer, in every interleaving, what the consumer has received
  is a prefix of what was pushed, in order, and the elements between the two are in the ring, at
  most \<open>LENGTH\<close> of them: nothing is lost, duplicated, reordered or overwritten unread.\<close>

theorem spsc_no_loss:
  assumes "lfq_reach {0} slots s" and "0 < length slots"
  shows "\<exists>queued. pushed s = delivered_log s @ queued \<and> length queued < length slots \<and>
    (\<forall>i < length queued. q_slots s ! ((q_head s + i) mod length slots) = queued ! i)"
proof -
  note inv = spsc_reach [OF assms]
  let ?q = "drop (n_out s) (pushed s)"
  have pre: "take (n_out s) (pushed s) = delivered_log s" using inv by (simp add: spsc_inv_def)
  have "pushed s = delivered_log s @ ?q"
    using append_take_drop_id [of "n_out s" "pushed s"] pre by simp
  moreover have "length ?q < length slots" using inv by (auto simp: spsc_inv_def)
  moreover have "q_slots s ! ((q_head s + i) mod length slots) = ?q ! i" if "i < length ?q" for i
  proof -
    have "q_slots s ! ((n_out s + i) mod length slots) = pushed s ! (n_out s + i)"
      using inv that by (auto simp: spsc_inv_def)
    then show ?thesis using inv that by (simp add: spsc_inv_def mod_add_left_eq)
  qed
  ultimately show ?thesis by blast
qed

theorem spsc_no_loss_witness:
  "\<exists>s queued. lfq_run 2 (threads_init [0, 0 :: nat]) (push_events 1 @ pop_events 0) = Some s \<and>
    pushed s = delivered_log s @ queued \<and> length queued < 2"
proof -
  have "lfq_run (length [0, 0 :: nat]) (threads_init [0, 0 :: nat]) (push_events (1 :: nat) @ pop_events 0) \<noteq> None"
    by code_simp
  then obtain s where s: "lfq_run (length [0, 0 :: nat]) (threads_init [0, 0 :: nat]) (push_events (1 :: nat) @ pop_events 0) = Some s"
    by blast
  have "lfq_reach {0} [0, 0 :: nat] s"
    by (rule lfq_run_reach [OF s lfq_reach.start [where slots = "[0, 0 :: nat]"]])
      (auto simp: push_events_def pop_events_def)
  from spsc_no_loss [OF this] have "\<exists>queued. pushed s = delivered_log s @ queued \<and> length queued < 2"
    by (simp add: numeral_2_eq_2) blast
  with s show ?thesis by (auto simp: numeral_2_eq_2)
qed

text \<open>With two consumers this fails. A consumer that has read an element and is held up before
  its compare-exchange succeeds when the head has come round to the same index: it delivers the
  element that the other consumer has delivered before, and the element now at the head is
  delivered to nobody.\<close>

definition aba_run :: "nat lfq_event list" where
  "aba_run = push_events 1 @ [Pop_Call 0, Pop_Check 0, Pop_Read 0] @ pop_events 1 @
     push_events 2 @ pop_events 1 @ push_events 3 @ pop_events 1 @ push_events 4 @ pop_events 1 @
     push_events 5 @ [Pop_Cas 0]"

theorem two_consumers_duplicate:
  "\<exists>s. lfq_reach {0, 1} [0, 0, 0, 0] s \<and> pushed s = [1, 2, 3, 4, 5] \<and>
    delivered_log s = [1, 2, 3, 4, 1 :: nat] \<and> q_head s = q_tail s"
proof -
  let ?slots = "[0, 0, 0, 0 :: nat]"
  have run: "map_option (\<lambda>s. (pushed s, delivered_log s, q_head s = q_tail s))
      (lfq_run (length ?slots) (threads_init ?slots) aba_run) = Some ([1, 2, 3, 4, 5], [1, 2, 3, 4, 1], True)"
    by code_simp
  then obtain s where s: "lfq_run (length ?slots) (threads_init ?slots) aba_run = Some s"
    "pushed s = [1, 2, 3, 4, 5]" "delivered_log s = [1, 2, 3, 4, 1]" "q_head s = q_tail s"
    by auto
  have "lfq_reach {0, 1} ?slots s"
    by (rule lfq_run_reach [OF s(1) lfq_reach.start [where slots = ?slots]])
      (auto simp: aba_run_def push_events_def pop_events_def)
  with s show ?thesis by blast
qed

end
