(* ===== verification/Lock_Free_Pool.thy ===== *)
theory Lock_Free_Pool
  imports Fifo_Spec
begin

text \<open>
  \<open>LockFreePool\<close> of src/src/structure/lockfree_pool.hpp as its operations behave without
  interference (each is one function, whose strong compare-exchange then always succeeds). The
  slots are a list of states and data. The loops over the slots are \<open>function\<close>s that end with
  the slot array. The theory Pool_Threads has the interleaved steps.
\<close>

datatype slot_state = SLOT_FREE | SLOT_BUSY | SLOT_READY | SLOT_RECYCLE

type_synonym 'a pool = "(slot_state \<times> 'a) list"

definition writable :: "slot_state \<Rightarrow> bool" where
  "writable st \<longleftrightarrow> st = SLOT_FREE \<or> st = SLOT_RECYCLE"

lemma writable_simps [simp]:
  "writable SLOT_FREE" "writable SLOT_RECYCLE" "\<not> writable SLOT_BUSY" "\<not> writable SLOT_READY"
  by (simp_all add: writable_def)

section \<open>Operations\<close>

definition pool_new :: "'a list \<Rightarrow> 'a pool" where
  "pool_new fresh = map (\<lambda>d. (SLOT_FREE, d)) fresh"

text \<open>\<open>Put(data, start_index)\<close>: the new pool, the result and the value of \<open>start_index\<close>.\<close>

function pool_put_loop :: "'a pool \<Rightarrow> 'a \<Rightarrow> nat \<Rightarrow> nat \<Rightarrow> 'a pool \<times> error_code \<times> nat" where
  "pool_put_loop p d start index =
     (if index < length p
      then if writable (fst (p ! index)) then (p[index := (SLOT_READY, d)], OK, index)
           else pool_put_loop p d start (index + 1)
      else (p, FULL, start))"
  by pat_completeness auto
termination by (relation "measure (\<lambda>(p, d, start, index). length p - index)") auto

declare pool_put_loop.simps [simp del]

definition pool_put_from :: "'a pool \<Rightarrow> 'a \<Rightarrow> nat \<Rightarrow> 'a pool \<times> error_code \<times> nat" where
  "pool_put_from p d start = pool_put_loop p d start start"

definition pool_put :: "'a pool \<Rightarrow> 'a \<Rightarrow> 'a pool \<times> error_code" where
  "pool_put p d = (case pool_put_from p d 0 of (p', ec, i) \<Rightarrow> (p', ec))"

definition pool_put_to_slot :: "'a pool \<Rightarrow> 'a \<Rightarrow> nat \<Rightarrow> ('a pool \<times> error_code) option" where
  "pool_put_to_slot p d index =
     (case array_get p index of
        None \<Rightarrow> None
      | Some (st, d0) \<Rightarrow> Some (if writable st then (p[index := (SLOT_READY, d)], OK) else (p, FULL)))"

text \<open>\<open>Get(data, start_index)\<close>; \<open>out\<close> is the output variable before the call.\<close>

function pool_get_loop :: "'a pool \<Rightarrow> 'a \<Rightarrow> nat \<Rightarrow> 'a pool \<times> error_code \<times> 'a \<times> nat" where
  "pool_get_loop p out index =
     (if index < length p
      then case p ! index of (st, d) \<Rightarrow>
        if st = SLOT_READY then (p[index := (SLOT_RECYCLE, d)], OK, d, index)
        else if st = SLOT_FREE then (p, EMPTY, out, 0)
        else pool_get_loop p out (index + 1)
      else (p, EMPTY, out, 0))"
  by pat_completeness auto
termination by (relation "measure (\<lambda>(p, out, index). length p - index)") auto

declare pool_get_loop.simps [simp del]

definition pool_get_from :: "'a pool \<Rightarrow> 'a \<Rightarrow> nat \<Rightarrow> 'a pool \<times> error_code \<times> 'a \<times> nat" where
  "pool_get_from p out start = pool_get_loop p out start"

definition pool_get :: "'a pool \<Rightarrow> 'a \<Rightarrow> 'a pool \<times> error_code \<times> 'a" where
  "pool_get p out = (case pool_get_from p out 0 of (p', ec, d, i) \<Rightarrow> (p', ec, d))"

definition pool_get_from_slot :: "'a pool \<Rightarrow> 'a \<Rightarrow> nat \<Rightarrow> ('a pool \<times> error_code \<times> 'a) option" where
  "pool_get_from_slot p out index =
     (case array_get p index of
        None \<Rightarrow> None
      | Some (st, d) \<Rightarrow>
          Some (if st = SLOT_READY then (p[index := (SLOT_RECYCLE, d)], OK, d) else (p, EMPTY, out)))"

definition pool_recycle_slot :: "'a pool \<Rightarrow> nat \<Rightarrow> ('a pool \<times> error_code) option" where
  "pool_recycle_slot p index =
     (case array_get p index of
        None \<Rightarrow> None
      | Some (st, d) \<Rightarrow>
          Some (if st = SLOT_READY then (p[index := (SLOT_RECYCLE, d)], OK) else (p, EMPTY)))"

definition pool_size :: "'a pool \<Rightarrow> nat" where
  "pool_size p = length (filter (\<lambda>s. fst s = SLOT_READY) p)"

definition pool_empty_size :: "'a pool \<Rightarrow> nat" where
  "pool_empty_size p = length (filter (\<lambda>s. writable (fst s)) p)"

definition pool_slot_count :: "'a pool \<Rightarrow> nat" where
  "pool_slot_count p = length p"

section \<open>What the pool holds\<close>

definition items :: "'a pool \<Rightarrow> 'a multiset" where
  "items p = mset (map snd (filter (\<lambda>s. fst s = SLOT_READY) p))"

text \<open>No slot behind a free one has been used: what \<open>Get\<close> relies on when it stops at a free
  slot. No slot is busy between the operations.\<close>

definition pool_wf :: "'a pool \<Rightarrow> bool" where
  "pool_wf p \<longleftrightarrow> (\<forall>i < length p. fst (p ! i) \<noteq> SLOT_BUSY) \<and>
     (\<forall>i j. i < j \<and> j < length p \<and> fst (p ! i) = SLOT_FREE \<longrightarrow> fst (p ! j) = SLOT_FREE)"

lemma size_items: "pool_size p = size (items p)"
  unfolding pool_size_def items_def by (metis length_map size_mset)

lemma items_split:
  "i < length p \<Longrightarrow> items p = items (take i p) + items [p ! i] + items (drop (Suc i) p)"
proof -
  assume "i < length p"
  then have "p = take i p @ [p ! i] @ drop (Suc i) p" by (simp add: id_take_nth_drop)
  then have "items p = items (take i p @ [p ! i] @ drop (Suc i) p)" by simp
  then show ?thesis by (simp only: items_def filter_append map_append mset_append add.assoc)
qed

lemma items_update:
  assumes "i < length p"
  shows "items (p[i := s]) + items [p ! i] = items p + items [s]"
  using items_split [of i "p[i := s]"] items_split [OF assms] assms
  by (simp add: ac_simps)

lemma items_single [simp]: "items [(SLOT_READY, d)] = {#d#}" "st \<noteq> SLOT_READY \<Longrightarrow> items [(st, d)] = {#}"
  by (simp_all add: items_def)

lemma items_add: "i < length p \<Longrightarrow> writable (fst (p ! i)) \<Longrightarrow> items (p[i := (SLOT_READY, d)]) = items p + {#d#}"
  using items_update [of i p "(SLOT_READY, d)"] by (cases "p ! i") (auto simp: writable_def)

lemma items_remove:
  "i < length p \<Longrightarrow> p ! i = (SLOT_READY, d) \<Longrightarrow> items (p[i := (SLOT_RECYCLE, d)]) + {#d#} = items p"
  using items_update [of i p "(SLOT_RECYCLE, d)"] by simp

lemma items_empty_iff: "items p = {#} \<longleftrightarrow> (\<forall>i < length p. fst (p ! i) \<noteq> SLOT_READY)"
proof -
  have "items p = {#} \<longleftrightarrow> filter (\<lambda>s. fst s = SLOT_READY) p = []"
    unfolding items_def by (metis mset_zero_iff map_is_Nil_conv)
  then show ?thesis by (simp only: filter_empty_conv all_set_conv_all_nth)
qed

text \<open>Where the loops stop.\<close>

lemma pool_put_loop_spec:
  "(\<exists>i. index \<le> i \<and> i < length p \<and> writable (fst (p ! i)) \<and>
      (\<forall>j. index \<le> j \<and> j < i \<longrightarrow> \<not> writable (fst (p ! j))) \<and>
      pool_put_loop p d start index = (p[i := (SLOT_READY, d)], OK, i)) \<or>
   (\<forall>j. index \<le> j \<and> j < length p \<longrightarrow> \<not> writable (fst (p ! j))) \<and>
      pool_put_loop p d start index = (p, FULL, start)"
proof (induction p d start index rule: pool_put_loop.induct)
  case (1 p d start index)
  show ?case
  proof (cases "index < length p \<and> \<not> writable (fst (p ! index))")
    case True
    then have eq: "pool_put_loop p d start index = pool_put_loop p d start (index + 1)"
      by (subst pool_put_loop.simps) simp
    have ext: "index \<le> j \<Longrightarrow> j \<noteq> index \<Longrightarrow> index + 1 \<le> j" for j by simp
    from 1 True consider (ok) i where "index + 1 \<le> i" "i < length p" "writable (fst (p ! i))"
        "\<forall>j. index + 1 \<le> j \<and> j < i \<longrightarrow> \<not> writable (fst (p ! j))"
        "pool_put_loop p d start (index + 1) = (p[i := (SLOT_READY, d)], OK, i)"
      | (full) "\<forall>j. index + 1 \<le> j \<and> j < length p \<longrightarrow> \<not> writable (fst (p ! j))"
        "pool_put_loop p d start (index + 1) = (p, FULL, start)" by blast
    then show ?thesis
    proof cases
      case ok
      then show ?thesis using eq True ext by (intro disjI1 exI [of _ i]) (metis add_leD1)
    next
      case full
      then show ?thesis using eq True ext by (intro disjI2) metis
    qed
  next
    case False
    then show ?thesis by (subst (1 2) pool_put_loop.simps) auto
  qed
qed

definition get_stops :: "'a pool \<Rightarrow> nat \<Rightarrow> bool" where
  "get_stops p index \<longleftrightarrow> (\<forall>j. index \<le> j \<and> j < length p \<longrightarrow> fst (p ! j) \<noteq> SLOT_READY) \<or>
    (\<exists>i. index \<le> i \<and> i < length p \<and> fst (p ! i) = SLOT_FREE \<and>
      (\<forall>j. index \<le> j \<and> j < i \<longrightarrow> fst (p ! j) \<noteq> SLOT_READY))"

definition get_result :: "'a pool \<Rightarrow> 'a \<Rightarrow> nat \<Rightarrow> 'a pool \<times> error_code \<times> 'a \<times> nat \<Rightarrow> bool" where
  "get_result p out index r \<longleftrightarrow>
    (\<exists>i d. index \<le> i \<and> i < length p \<and> p ! i = (SLOT_READY, d) \<and>
      r = (p[i := (SLOT_RECYCLE, d)], OK, d, i)) \<or> get_stops p index \<and> r = (p, EMPTY, out, 0)"

lemma get_stops_step: "get_stops p (Suc index) \<Longrightarrow> fst (p ! index) \<noteq> SLOT_READY \<Longrightarrow> get_stops p index"
  unfolding get_stops_def by (metis Suc_leI le_eq_less_or_eq Suc_leD)

lemma pool_get_loop_spec: "get_result p out index (pool_get_loop p out index)"
proof (induction p out index rule: pool_get_loop.induct)
  case (1 p out index)
  obtain st d where s: "p ! index = (st, d)" by (cases "p ! index")
  consider "length p \<le> index" | "index < length p" "st = SLOT_READY"
    | "index < length p" "st = SLOT_FREE"
    | "index < length p" "st \<noteq> SLOT_READY" "st \<noteq> SLOT_FREE" by linarith
  then show ?case
  proof cases
    case 1
    then show ?thesis by (auto simp: pool_get_loop.simps [of p out index] get_result_def get_stops_def)
  next
    case 2
    then show ?thesis using s by (auto simp: pool_get_loop.simps [of p out index] get_result_def)
  next
    case 3
    then have "get_stops p index" using s unfolding get_stops_def by (intro disjI2 exI [of _ index]) auto
    then show ?thesis
      using 3 s by (simp add: pool_get_loop.simps [of p out index] get_result_def)
  next
    case 4
    then have "get_result p out (Suc index) (pool_get_loop p out (Suc index))"
      using "1.IH" [of st d] s by simp
    moreover have "pool_get_loop p out index = pool_get_loop p out (Suc index)"
      using 4 s by (simp add: pool_get_loop.simps [of p out index])
    moreover have "get_stops p (Suc index) \<Longrightarrow> get_stops p index"
      using get_stops_step [of p index] 4 s by simp
    ultimately show ?thesis unfolding get_result_def by (metis Suc_leD)
  qed
qed

section \<open>The operations that start at slot 0 keep the invariant\<close>

lemma pool_wf_put:
  assumes "pool_wf p" "i < length p" "\<forall>j. j < i \<longrightarrow> \<not> writable (fst (p ! j))"
  shows "pool_wf (p[i := (SLOT_READY, d)])"
proof -
  have "fst (p ! j) = SLOT_FREE \<Longrightarrow> i \<le> j" for j using assms(3) by (metis linorder_not_le writable_simps(1))
  then show ?thesis using assms(1,2) by (fastforce simp: pool_wf_def nth_list_update split: if_splits)
qed

lemma pool_wf_take:
  assumes "pool_wf p" "i < length p" "p ! i = (SLOT_READY, d)"
  shows "pool_wf (p[i := (SLOT_RECYCLE, d)])"
proof -
  have "j < i \<Longrightarrow> fst (p ! j) \<noteq> SLOT_FREE" for j
    using assms by (fastforce simp: pool_wf_def)
  then show ?thesis using assms(1,2) by (fastforce simp: pool_wf_def nth_list_update split: if_splits)
qed

lemma pool_wf_writable:
  "pool_wf p \<Longrightarrow> i < length p \<Longrightarrow> writable (fst (p ! i)) \<longleftrightarrow> fst (p ! i) \<noteq> SLOT_READY"
  by (cases "fst (p ! i)") (auto simp: pool_wf_def)

lemma pool_full_iff:
  "pool_wf p \<Longrightarrow> size (items p) = length p \<longleftrightarrow> (\<forall>i < length p. \<not> writable (fst (p ! i)))"
proof -
  assume wf: "pool_wf p"
  have "size (items p) = length p \<longleftrightarrow> filter (\<lambda>s. fst s = SLOT_READY) p = p"
    unfolding size_items [symmetric] pool_size_def
    by (metis filter_True length_filter_less nat_less_le)
  then show ?thesis using pool_wf_writable [OF wf] by (simp add: filter_id_conv all_set_conv_all_nth)
qed

lemma pool_items_le: "size (items p) \<le> length p"
  unfolding size_items [symmetric] pool_size_def by (rule length_filter_le)

lemma pool_put_spec:
  assumes "pool_wf p"
  shows "(size (items p) < length p \<longrightarrow> (\<exists>p'. pool_put p d = (p', OK) \<and> pool_wf p' \<and>
      items p' = items p + {#d#} \<and> length p' = length p)) \<and>
    (size (items p) = length p \<longrightarrow> pool_put p d = (p, FULL))"
  using pool_put_loop_spec [of 0 p d 0]
proof
  assume "\<exists>i. 0 \<le> i \<and> i < length p \<and> writable (fst (p ! i)) \<and>
      (\<forall>j. 0 \<le> j \<and> j < i \<longrightarrow> \<not> writable (fst (p ! j))) \<and>
      pool_put_loop p d 0 0 = (p[i := (SLOT_READY, d)], OK, i)"
  then obtain i where i: "i < length p" "writable (fst (p ! i))" "\<forall>j. j < i \<longrightarrow> \<not> writable (fst (p ! j))"
    "pool_put_loop p d 0 0 = (p[i := (SLOT_READY, d)], OK, i)" by auto
  then show ?thesis
    using pool_wf_put [OF assms, of i d] items_add [of i p d] pool_full_iff [OF assms]
    by (auto simp: pool_put_def pool_put_from_def)
next
  assume "(\<forall>j. 0 \<le> j \<and> j < length p \<longrightarrow> \<not> writable (fst (p ! j))) \<and> pool_put_loop p d 0 0 = (p, FULL, 0)"
  then show ?thesis using pool_full_iff [OF assms] by (simp add: pool_put_def pool_put_from_def)
qed

lemma pool_get_spec:
  assumes "pool_wf p"
  shows "(items p \<noteq> {#} \<longrightarrow> (\<exists>p' d. pool_get p out = (p', OK, d) \<and> pool_wf p' \<and>
      items p = items p' + {#d#} \<and> length p' = length p)) \<and>
    (items p = {#} \<longrightarrow> pool_get p out = (p, EMPTY, out))"
  using pool_get_loop_spec [of p out 0] unfolding get_result_def
proof
  assume "\<exists>i d. 0 \<le> i \<and> i < length p \<and> p ! i = (SLOT_READY, d) \<and>
      pool_get_loop p out 0 = (p[i := (SLOT_RECYCLE, d)], OK, d, i)"
  then obtain i d where i: "i < length p" "p ! i = (SLOT_READY, d)"
    "pool_get_loop p out 0 = (p[i := (SLOT_RECYCLE, d)], OK, d, i)" by auto
  then show ?thesis
    using pool_wf_take [OF assms i(1,2)] items_remove [OF i(1,2)] items_empty_iff [of p]
    by (auto simp: pool_get_def pool_get_from_def)
next
  assume r: "get_stops p 0 \<and> pool_get_loop p out 0 = (p, EMPTY, out, 0)"
  have "items p = {#}"
  proof -
    have "fst (p ! j) \<noteq> SLOT_READY" if "get_stops p 0" "j < length p" for j
      using that assms unfolding get_stops_def pool_wf_def
      by (metis le0 linorder_neqE_nat slot_state.distinct(3))
    then show ?thesis using r items_empty_iff by blast
  qed
  then show ?thesis using r by (simp add: pool_get_def pool_get_from_def)
qed

interpretation pool: bounded_bag pool_wf items length "\<lambda>_ _. True"
  "\<lambda>p d. Some (pool_put p d)" "\<lambda>p out. Some (pool_get p out)"
proof
  fix p :: "'a pool" and x y
  assume wf: "pool_wf p"
  show "size (items p) \<le> length p" by (rule pool_items_le)
  show "\<exists>p'. Some (pool_put p x) = Some (p', OK) \<and> pool_wf p' \<and> items p' = items p + {#x#} \<and>
      length p' = length p \<and> (\<lambda>_ :: 'a. True) = (\<lambda>_. True)" if "size (items p) < length p"
    using pool_put_spec [OF wf, of x] that by simp
  show "Some (pool_put p x) = Some (p, FULL)" if "size (items p) = length p"
    using pool_put_spec [OF wf, of x] that by simp
  show "\<exists>p' x. Some (pool_get p y) = Some (p', OK, x) \<and> pool_wf p' \<and> items p = items p' + {#x#} \<and>
      length p' = length p \<and> (\<lambda>_ :: 'a. True) = (\<lambda>_. True)" if "items p \<noteq> {#}"
    using pool_get_spec [OF wf, of y] that by simp
  show "Some (pool_get p y) = Some (p, EMPTY, y)" if "items p = {#}"
    using pool_get_spec [OF wf, of y] that by simp
qed

lemma pool_new_wf: "pool_wf (pool_new fresh)" "items (pool_new fresh) = {#}"
  "length (pool_new fresh) = length fresh"
  by (simp_all add: pool_wf_def pool_new_def items_empty_iff)

section \<open>Properties\<close>

text \<open>From a new pool, any sequence of \<open>Put\<close> and \<open>Get\<close> calls succeeds exactly when there is
  room, respectively something to get, and what was accepted is what was delivered together with
  what the pool still holds.\<close>

theorem pool_conserves:
  "\<exists>rs p. fifo_run (\<lambda>p d. Some (pool_put p d)) (\<lambda>p out. Some (pool_get p out)) (pool_new fresh) ops =
      Some (rs, p) \<and>
    mset (accepted ops rs) = mset (delivered ops rs) + items p \<and>
    fst ` set rs \<subseteq> {OK, FULL, EMPTY} \<and> pool_size p \<le> length fresh"
  using pool.run_conserves [of "pool_new fresh" ops] pool_new_wf [of fresh]
  by (auto simp: size_items) (metis pool_items_le)

text \<open>\<open>Get\<close> stops at the first free slot, so an element that \<open>PutToSlot\<close> stored behind a free
  slot is not found: the pool has an element and \<open>Get\<close> reports \<open>EMPTY\<close>.\<close>

theorem get_misses_put_to_slot:
  assumes "0 < index" and "index < length fresh"
  shows "\<exists>p. pool_put_to_slot (pool_new fresh) d index = Some (p, OK) \<and> pool_size p = 1 \<and>
    pool_get p out = (p, EMPTY, out)"
proof -
  let ?p = "(pool_new fresh)[index := (SLOT_READY, d)]"
  have len: "index < length (pool_new fresh)" using assms(2) by (simp add: pool_new_def)
  have free: "fst (pool_new fresh ! i) = SLOT_FREE" if "i < length fresh" for i
    using that by (simp add: pool_new_def)
  have "pool_put_to_slot (pool_new fresh) d index = Some (?p, OK)"
    using free [OF assms(2)] len by (cases "pool_new fresh ! index") (simp add: pool_put_to_slot_def)
  moreover have "items ?p = {#d#}"
    using items_add [OF len, of d] free [OF assms(2)] by (simp add: pool_new_wf)
  moreover have "pool_get ?p out = (?p, EMPTY, out)"
  proof -
    have "fst (?p ! 0) = SLOT_FREE" "0 < length ?p" using assms free [of 0] len by (cases fresh; auto)+
    then show ?thesis
      by (cases "?p ! 0") (simp add: pool_get_def pool_get_from_def pool_get_loop.simps [of ?p out 0])
  qed
  ultimately show ?thesis by (simp add: size_items)
qed

theorem get_misses_put_to_slot_witness:
  "\<exists>p. pool_put_to_slot (pool_new [0, 0, 0]) 7 2 = Some (p, OK) \<and> pool_size p = 1 \<and>
    pool_get p (0 :: nat) = (p, EMPTY, 0)"
  using get_misses_put_to_slot [of 2 "[0, 0, 0]" 7 0] by simp

end
