(* ===== verification/Pool_Threads.thy ===== *)
theory Pool_Threads
  imports Lock_Free_Pool
begin

text \<open>
  Threads on one \<open>LockFreePool\<close> (src/src/structure/lockfree_pool.hpp): every load, strong
  compare-exchange, data access and store of \<open>Put\<close>, \<open>Get\<close> and \<open>RecycleSlot\<close> is a step of its
  own, in any interleaving. Ghost components record the stored, the delivered and the recycled
  elements.
\<close>

datatype 'a pool_pc =
    Pool_Idle
  | Put_Load 'a nat
  | Put_Cas 'a nat slot_state
  | Put_Write 'a nat
  | Put_Store 'a nat
  | Get_Load nat
  | Get_Cas nat
  | Get_Read nat
  | Get_Store nat 'a
  | Recycle_Cas nat

record 'a pool_sys =
  slots :: "'a pool"
  pcs :: "nat \<Rightarrow> 'a pool_pc"
  stored :: "'a multiset"
  fetched :: "'a multiset"
  recycled :: "'a multiset"

definition pc_set :: "'a pool_sys \<Rightarrow> nat \<Rightarrow> 'a pool_pc \<Rightarrow> 'a pool_sys" where
  "pc_set s t pc = s\<lparr>pcs := (pcs s)(t := pc)\<rparr>"

definition slot_set :: "'a pool_sys \<Rightarrow> nat \<Rightarrow> slot_state \<Rightarrow> 'a \<Rightarrow> 'a pool_sys" where
  "slot_set s i st d = s\<lparr>slots := (slots s)[i := (st, d)]\<rparr>"

abbreviation slot_st :: "'a pool_sys \<Rightarrow> nat \<Rightarrow> slot_state" where
  "slot_st s i \<equiv> fst (slots s ! i)"

abbreviation slot_d :: "'a pool_sys \<Rightarrow> nat \<Rightarrow> 'a" where
  "slot_d s i \<equiv> snd (slots s ! i)"

inductive pool_step :: "'a pool_sys \<Rightarrow> 'a pool_sys \<Rightarrow> bool" where
  put_call: "pcs s t = Pool_Idle \<Longrightarrow> pool_step s (pc_set s t (Put_Load d i))"
| put_full: "pcs s t = Put_Load d i \<Longrightarrow> \<not> i < length (slots s) \<Longrightarrow> pool_step s (pc_set s t Pool_Idle)"
| put_try: "pcs s t = Put_Load d i \<Longrightarrow> i < length (slots s) \<Longrightarrow> writable (slot_st s i) \<Longrightarrow>
    pool_step s (pc_set s t (Put_Cas d i (slot_st s i)))"
| put_next: "pcs s t = Put_Load d i \<Longrightarrow> i < length (slots s) \<Longrightarrow> \<not> writable (slot_st s i) \<Longrightarrow>
    pool_step s (pc_set s t (Put_Load d (Suc i)))"
| put_won: "pcs s t = Put_Cas d i e \<Longrightarrow> slot_st s i = e \<Longrightarrow>
    pool_step s (pc_set (slot_set s i SLOT_BUSY (slot_d s i)) t (Put_Write d i))"
| put_lost: "pcs s t = Put_Cas d i e \<Longrightarrow> slot_st s i \<noteq> e \<Longrightarrow> pool_step s (pc_set s t (Put_Load d (Suc i)))"
| put_write: "pcs s t = Put_Write d i \<Longrightarrow>
    pool_step s (pc_set (slot_set s i (slot_st s i) d) t (Put_Store d i))"
| put_store: "pcs s t = Put_Store d i \<Longrightarrow>
    pool_step s (pc_set ((slot_set s i SLOT_READY (slot_d s i))\<lparr>stored := stored s + {#d#}\<rparr>) t Pool_Idle)"
| get_call: "pcs s t = Pool_Idle \<Longrightarrow> pool_step s (pc_set s t (Get_Load i))"
| get_end: "pcs s t = Get_Load i \<Longrightarrow> \<not> i < length (slots s) \<Longrightarrow> pool_step s (pc_set s t Pool_Idle)"
| get_try: "pcs s t = Get_Load i \<Longrightarrow> i < length (slots s) \<Longrightarrow> slot_st s i = SLOT_READY \<Longrightarrow>
    pool_step s (pc_set s t (Get_Cas i))"
| get_free: "pcs s t = Get_Load i \<Longrightarrow> i < length (slots s) \<Longrightarrow> slot_st s i = SLOT_FREE \<Longrightarrow>
    pool_step s (pc_set s t Pool_Idle)"
| get_next: "pcs s t = Get_Load i \<Longrightarrow> i < length (slots s) \<Longrightarrow>
    slot_st s i = SLOT_BUSY \<or> slot_st s i = SLOT_RECYCLE \<Longrightarrow> pool_step s (pc_set s t (Get_Load (Suc i)))"
| get_won: "pcs s t = Get_Cas i \<Longrightarrow> slot_st s i = SLOT_READY \<Longrightarrow>
    pool_step s (pc_set (slot_set s i SLOT_BUSY (slot_d s i)) t (Get_Read i))"
| get_lost: "pcs s t = Get_Cas i \<Longrightarrow> slot_st s i \<noteq> SLOT_READY \<Longrightarrow>
    pool_step s (pc_set s t (if slot_st s i = SLOT_FREE then Pool_Idle else Get_Load (Suc i)))"
| get_read: "pcs s t = Get_Read i \<Longrightarrow> pool_step s (pc_set s t (Get_Store i (slot_d s i)))"
| get_store: "pcs s t = Get_Store i d \<Longrightarrow>
    pool_step s (pc_set ((slot_set s i SLOT_RECYCLE (slot_d s i))\<lparr>fetched := fetched s + {#d#}\<rparr>) t Pool_Idle)"
| recycle_call: "pcs s t = Pool_Idle \<Longrightarrow> i < length (slots s) \<Longrightarrow> slot_st s i = SLOT_READY \<Longrightarrow>
    pool_step s (pc_set s t (Recycle_Cas i))"
| recycle_won: "pcs s t = Recycle_Cas i \<Longrightarrow> slot_st s i = SLOT_READY \<Longrightarrow>
    pool_step s (pc_set ((slot_set s i SLOT_RECYCLE (slot_d s i))\<lparr>recycled := recycled s + {#slot_d s i#}\<rparr>)
      t Pool_Idle)"
| recycle_lost: "pcs s t = Recycle_Cas i \<Longrightarrow> slot_st s i \<noteq> SLOT_READY \<Longrightarrow>
    pool_step s (pc_set s t Pool_Idle)"

definition pool_init :: "'a list \<Rightarrow> 'a pool_sys" where
  "pool_init fresh = \<lparr>slots = pool_new fresh, pcs = (\<lambda>_. Pool_Idle), stored = {#}, fetched = {#},
     recycled = {#}\<rparr>"

section \<open>Ownership\<close>

text \<open>The slot a thread owns: it has set the slot busy and has not released it.\<close>

fun owns :: "'a pool_pc \<Rightarrow> nat option" where
  "owns (Put_Write d i) = Some i"
| "owns (Put_Store d i) = Some i"
| "owns (Get_Read i) = Some i"
| "owns (Get_Store i d) = Some i"
| "owns _ = None"

text \<open>The slot whose element a thread is taking out.\<close>

fun taking :: "'a pool_pc \<Rightarrow> nat option" where
  "taking (Get_Read i) = Some i"
| "taking (Get_Store i d) = Some i"
| "taking _ = None"

fun pc_ok :: "'a pool \<Rightarrow> 'a pool_pc \<Rightarrow> bool" where
  "pc_ok p (Put_Cas d i e) \<longleftrightarrow> i < length p \<and> writable e"
| "pc_ok p (Put_Write d i) \<longleftrightarrow> i < length p \<and> fst (p ! i) = SLOT_BUSY"
| "pc_ok p (Put_Store d i) \<longleftrightarrow> i < length p \<and> fst (p ! i) = SLOT_BUSY \<and> snd (p ! i) = d"
| "pc_ok p (Get_Cas i) \<longleftrightarrow> i < length p"
| "pc_ok p (Get_Read i) \<longleftrightarrow> i < length p \<and> fst (p ! i) = SLOT_BUSY"
| "pc_ok p (Get_Store i d) \<longleftrightarrow> i < length p \<and> fst (p ! i) = SLOT_BUSY \<and> snd (p ! i) = d"
| "pc_ok p (Recycle_Cas i) \<longleftrightarrow> i < length p"
| "pc_ok p _ \<longleftrightarrow> True"

text \<open>The elements in the pool: those in ready slots and those being taken out.\<close>

definition slot_items :: "'a pool_sys \<Rightarrow> nat \<Rightarrow> 'a multiset" where
  "slot_items s i = (if slot_st s i = SLOT_READY \<or> (\<exists>t. taking (pcs s t) = Some i)
     then {#slot_d s i#} else {#})"

definition inventory :: "'a pool_sys \<Rightarrow> 'a multiset" where
  "inventory s = (\<Sum>i<length (slots s). slot_items s i)"

definition pool_inv :: "'a pool_sys \<Rightarrow> bool" where
  "pool_inv s \<longleftrightarrow> (\<forall>t. pc_ok (slots s) (pcs s t)) \<and>
     (\<forall>t u i. owns (pcs s t) = Some i \<and> owns (pcs s u) = Some i \<longrightarrow> t = u) \<and>
     stored s = fetched s + recycled s + inventory s"

lemma taking_owns: "taking pc = Some i \<Longrightarrow> owns pc = Some i"
  by (cases pc) auto

lemma owned_busy: "pc_ok p pc \<Longrightarrow> owns pc = Some i \<Longrightarrow> i < length p \<and> fst (p ! i) = SLOT_BUSY"
  by (cases pc) auto

lemma pc_ok_other:
  "pc_ok p pc \<Longrightarrow> owns pc \<noteq> Some i \<Longrightarrow> pc_ok (p[i := x]) pc"
  by (cases pc) auto

lemma inventory_cong:
  "length (slots s') = length (slots s) \<Longrightarrow> (\<And>i. i < length (slots s) \<Longrightarrow> slot_items s' i = slot_items s i) \<Longrightarrow>
   inventory s' = inventory s"
  by (simp add: inventory_def)

lemma inventory_one:
  assumes "length (slots s') = length (slots s)" "i < length (slots s)"
    and "\<And>j. j < length (slots s) \<Longrightarrow> j \<noteq> i \<Longrightarrow> slot_items s' j = slot_items s j"
  shows "inventory s' + slot_items s i = inventory s + slot_items s' i"
proof -
  let ?A = "{..<length (slots s)}"
  have "inventory s' = slot_items s' i + (\<Sum>j \<in> ?A - {i}. slot_items s' j)"
    "inventory s = slot_items s i + (\<Sum>j \<in> ?A - {i}. slot_items s j)"
    using assms(1,2) by (simp_all add: inventory_def sum.remove)
  moreover have "(\<Sum>j \<in> ?A - {i}. slot_items s' j) = (\<Sum>j \<in> ?A - {i}. slot_items s j)"
    using assms(3) by (intro sum.cong) auto
  ultimately show ?thesis by (simp add: ac_simps)
qed

text \<open>Steps that change no slot and neither gain nor lose a slot.\<close>

lemma pool_inv_local:
  assumes "pool_inv s" "owns (pcs s t) = owns pc" "taking (pcs s t) = taking pc" "pc_ok (slots s) pc"
  shows "pool_inv (pc_set s t pc)"
proof -
  have "taking (pcs (pc_set s t pc) u) = taking (pcs s u)" for u
    using assms(3) by (simp add: pc_set_def)
  then have "slot_items (pc_set s t pc) i = slot_items s i" for i
    by (simp add: slot_items_def) (simp add: pc_set_def)
  then have "inventory (pc_set s t pc) = inventory s"
    by (intro inventory_cong) (simp_all add: pc_set_def)
  moreover have "owns (pcs (pc_set s t pc) u) = owns (pcs s u)" for u
    using assms(2) by (simp add: pc_set_def)
  ultimately show ?thesis
    using assms(1,4) unfolding pool_inv_def by (simp add: pc_set_def)
qed

text \<open>Steps that change slot \<open>i\<close>, which no other thread owns.\<close>

lemma pool_inv_slot:
  assumes inv: "pool_inv s" and i: "i < length (slots s)"
    and others: "\<And>u. u \<noteq> t \<Longrightarrow> owns (pcs s u) \<noteq> Some i"
    and mine: "owns (pcs s t) = None \<or> owns (pcs s t) = Some i"
    and new: "owns pc = None \<or> owns pc = Some i"
    and ok: "pc_ok ((slots s)[i := (st, d)]) pc"
    and gain: "(if st = SLOT_READY \<or> taking pc = Some i then {#d#} else {#}) + fe + re =
      sto + slot_items s i"
    and s': "s' = pc_set ((slot_set s i st d)\<lparr>stored := stored s + sto, fetched := fetched s + fe,
      recycled := recycled s + re\<rparr>) t pc"
  shows "pool_inv s'"
proof -
  have slots': "slots s' = (slots s)[i := (st, d)]" and pcs': "pcs s' = (pcs s)(t := pc)"
    by (simp_all add: s' pc_set_def slot_set_def)
  have "slot_items s' j = slot_items s j" if "j < length (slots s)" "j \<noteq> i" for j
  proof -
    have "taking pc \<noteq> Some j" "taking (pcs s t) \<noteq> Some j"
      using new mine that(2) taking_owns by fastforce+
    then have "(\<exists>u. taking (pcs s' u) = Some j) \<longleftrightarrow> (\<exists>u. taking (pcs s u) = Some j)"
      by (auto simp: pcs')
    then show ?thesis using that by (simp add: slot_items_def slots')
  qed
  then have inv1: "inventory s' + slot_items s i = inventory s + slot_items s' i"
    using i by (intro inventory_one) (simp_all add: slots')
  have "(\<exists>u. taking (pcs s' u) = Some i) \<longleftrightarrow> taking pc = Some i"
  proof -
    have "u \<noteq> t \<Longrightarrow> taking (pcs s u) \<noteq> Some i" for u using others taking_owns by blast
    then show ?thesis by (auto simp: pcs')
  qed
  then have item: "slot_items s' i = (if st = SLOT_READY \<or> taking pc = Some i then {#d#} else {#})"
    using i by (simp add: slot_items_def slots')
  have "inventory s' + fe + re = inventory s + sto"
  proof -
    have "inventory s' + slot_items s i + (fe + re) = inventory s + (slot_items s' i + fe + re)"
      using inv1 by (simp add: ac_simps)
    also have "\<dots> = inventory s + (sto + slot_items s i)"
      using gain item by (simp add: ac_simps)
    finally show ?thesis by (simp add: ac_simps)
  qed
  then have "stored s' = fetched s' + recycled s' + inventory s'"
    using inv by (simp add: pool_inv_def s' pc_set_def slot_set_def ac_simps)
  moreover have "pc_ok (slots s') (pcs s' u)" for u
    using inv ok others [of u] pc_ok_other [of "slots s" "pcs s u" i]
    by (auto simp: slots' pcs' pool_inv_def)
  moreover have "u = v" if "owns (pcs s' u) = Some j" "owns (pcs s' v) = Some j" for u v j
    using that inv others new by (auto simp: pcs' pool_inv_def split: if_splits)
  ultimately show ?thesis by (auto simp: pool_inv_def)
qed

lemma pool_inv_ok: "pool_inv s \<Longrightarrow> pcs s t = pc \<Longrightarrow> pc_ok (slots s) pc"
  by (auto simp: pool_inv_def)

lemma free_slot_unowned:
  "pool_inv s \<Longrightarrow> slot_st s i \<noteq> SLOT_BUSY \<Longrightarrow> owns (pcs s u) \<noteq> Some i"
  using owned_busy unfolding pool_inv_def by blast

lemma slot_items_unowned:
  "pool_inv s \<Longrightarrow> slot_st s i \<noteq> SLOT_BUSY \<Longrightarrow>
   slot_items s i = (if slot_st s i = SLOT_READY then {#slot_d s i#} else {#})"
  using free_slot_unowned taking_owns unfolding slot_items_def by fastforce

lemma slot_items_owned:
  assumes "pool_inv s" "owns (pcs s t) = Some i"
  shows "slot_items s i = (if taking (pcs s t) = Some i then {#slot_d s i#} else {#})"
    and "u \<noteq> t \<Longrightarrow> owns (pcs s u) \<noteq> Some i"
proof -
  show one: "u \<noteq> t \<Longrightarrow> owns (pcs s u) \<noteq> Some i" for u
    using assms unfolding pool_inv_def by blast
  have "slot_st s i = SLOT_BUSY" using assms owned_busy unfolding pool_inv_def by blast
  moreover have "(\<exists>u. taking (pcs s u) = Some i) \<longleftrightarrow> taking (pcs s t) = Some i"
    using one taking_owns by metis
  ultimately show "slot_items s i = (if taking (pcs s t) = Some i then {#slot_d s i#} else {#})"
    by (simp add: slot_items_def)
qed

lemma pool_step_inv: "pool_step s s' \<Longrightarrow> pool_inv s \<Longrightarrow> pool_inv s'"
proof (induction rule: pool_step.induct)
  case (put_won s t d i e)
  have i: "i < length (slots s)" "writable e" using pool_inv_ok [OF put_won(3,1)] by simp_all
  then have nb: "slot_st s i \<noteq> SLOT_BUSY" "slot_st s i \<noteq> SLOT_READY" using put_won(2) by auto
  show ?case
    by (rule pool_inv_slot [OF put_won(3), where t = t and i = i and st = SLOT_BUSY and d = "slot_d s i"
          and pc = "Put_Write d i" and sto = "{#}" and fe = "{#}" and re = "{#}"])
      (use i nb put_won free_slot_unowned [OF put_won(3) nb(1)]
        slot_items_unowned [OF put_won(3) nb(1)] in \<open>auto simp: slot_set_def\<close>)
next
  case (put_write s t d i)
  have i: "i < length (slots s)" "slot_st s i = SLOT_BUSY"
    using pool_inv_ok [OF put_write(2,1)] by simp_all
  have own: "owns (pcs s t) = Some i" using put_write(1) by simp
  show ?case
    by (rule pool_inv_slot [OF put_write(2), where t = t and i = i and st = "slot_st s i" and d = d
          and pc = "Put_Store d i" and sto = "{#}" and fe = "{#}" and re = "{#}"])
      (use i own put_write slot_items_owned [OF put_write(2) own] in \<open>auto simp: slot_set_def\<close>)
next
  case (put_store s t d i)
  have i: "i < length (slots s)" "slot_st s i = SLOT_BUSY" "slot_d s i = d"
    using pool_inv_ok [OF put_store(2,1)] by simp_all
  have own: "owns (pcs s t) = Some i" using put_store(1) by simp
  show ?case
    by (rule pool_inv_slot [OF put_store(2), where t = t and i = i and st = SLOT_READY
          and d = "slot_d s i" and pc = Pool_Idle and sto = "{#d#}" and fe = "{#}" and re = "{#}"])
      (use i own put_store slot_items_owned [OF put_store(2) own] in \<open>auto simp: slot_set_def\<close>)
next
  case (get_won s t i)
  have i: "i < length (slots s)" using pool_inv_ok [OF get_won(3,1)] by simp
  have nb: "slot_st s i \<noteq> SLOT_BUSY" using get_won(2) by simp
  show ?case
    by (rule pool_inv_slot [OF get_won(3), where t = t and i = i and st = SLOT_BUSY and d = "slot_d s i"
          and pc = "Get_Read i" and sto = "{#}" and fe = "{#}" and re = "{#}"])
      (use i nb get_won free_slot_unowned [OF get_won(3) nb]
        slot_items_unowned [OF get_won(3) nb] in \<open>auto simp: slot_set_def\<close>)
next
  case (get_store s t i d)
  have i: "i < length (slots s)" "slot_st s i = SLOT_BUSY" "slot_d s i = d"
    using pool_inv_ok [OF get_store(2,1)] by simp_all
  have own: "owns (pcs s t) = Some i" using get_store(1) by simp
  show ?case
    by (rule pool_inv_slot [OF get_store(2), where t = t and i = i and st = SLOT_RECYCLE
          and d = "slot_d s i" and pc = Pool_Idle and sto = "{#}" and fe = "{#d#}" and re = "{#}"])
      (use i own get_store slot_items_owned [OF get_store(2) own] in \<open>auto simp: slot_set_def\<close>)
next
  case (recycle_won s t i)
  have i: "i < length (slots s)" using pool_inv_ok [OF recycle_won(3,1)] by simp
  have nb: "slot_st s i \<noteq> SLOT_BUSY" using recycle_won(2) by simp
  show ?case
    by (rule pool_inv_slot [OF recycle_won(3), where t = t and i = i and st = SLOT_RECYCLE
          and d = "slot_d s i" and pc = Pool_Idle and sto = "{#}" and fe = "{#}"
          and re = "{#slot_d s i#}"])
      (use i nb recycle_won free_slot_unowned [OF recycle_won(3) nb]
        slot_items_unowned [OF recycle_won(3) nb] in \<open>auto simp: slot_set_def\<close>)
next
  case (get_read s t i)
  then show ?case using pool_inv_ok [OF get_read(2,1)] by (intro pool_inv_local) auto
qed (auto intro!: pool_inv_local dest: pool_inv_ok)

lemma pool_init_inv: "pool_inv (pool_init fresh)"
  by (simp add: pool_inv_def pool_init_def inventory_def slot_items_def pool_new_def)

lemma pool_reach_inv: "pool_step\<^sup>*\<^sup>* (pool_init fresh) s \<Longrightarrow> pool_inv s"
  by (induction rule: rtranclp_induct) (auto intro: pool_init_inv pool_step_inv)

section \<open>Properties\<close>

text \<open>C8: in every interleaving of any number of threads no two threads are ever inside the same
  slot, and every stored element is accounted for exactly once: fetched, recycled, or still in
  the pool (ready, or being taken out by one thread). No element is delivered twice and none is
  invented, torn or lost.\<close>

theorem pool_threads_conserve:
  assumes "pool_step\<^sup>*\<^sup>* (pool_init fresh) s"
  shows "stored s = fetched s + recycled s + inventory s \<and>
    (\<forall>t u i. owns (pcs s t) = Some i \<and> owns (pcs s u) = Some i \<longrightarrow> t = u)"
  using pool_reach_inv [OF assms] by (simp add: pool_inv_def)

text \<open>A thread stores 7 and another one fetches it.\<close>

lemma put_get_run:
  defines "s \<equiv> \<lparr>slots = [(SLOT_RECYCLE, 7 :: nat)], pcs = (\<lambda>_. Pool_Idle), stored = {#7#}, fetched = {#7#},
    recycled = {#}\<rparr>"
  shows "pool_step\<^sup>*\<^sup>* (pool_init [0]) s"
proof -
  let ?z = "\<lambda>_ :: nat. Pool_Idle :: nat pool_pc"
  let ?mk = "\<lambda>sl pc st fe. \<lparr>slots = [sl], pcs = pc, stored = st, fetched = fe, recycled = {#}\<rparr>"
  let ?s0 = "?mk (SLOT_FREE, 0) ?z {#} {#}"
  let ?s1 = "?mk (SLOT_FREE, 0) (?z(1 := Put_Load 7 0)) {#} {#}"
  let ?s2 = "?mk (SLOT_FREE, 0) (?z(1 := Put_Cas 7 0 SLOT_FREE)) {#} {#}"
  let ?s3 = "?mk (SLOT_BUSY, 0) (?z(1 := Put_Write 7 0)) {#} {#}"
  let ?s4 = "?mk (SLOT_BUSY, 7) (?z(1 := Put_Store 7 0)) {#} {#}"
  let ?s5 = "?mk (SLOT_READY, 7) ?z {#7#} {#}"
  let ?s6 = "?mk (SLOT_READY, 7) (?z(2 := Get_Load 0)) {#7#} {#}"
  let ?s7 = "?mk (SLOT_READY, 7) (?z(2 := Get_Cas 0)) {#7#} {#}"
  let ?s8 = "?mk (SLOT_BUSY, 7) (?z(2 := Get_Read 0)) {#7#} {#}"
  let ?s9 = "?mk (SLOT_BUSY, 7) (?z(2 := Get_Store 0 7)) {#7#} {#}"
  have "?z(k := Pool_Idle) = ?z" for k by (simp add: fun_eq_iff)
  note d = pc_set_def slot_set_def this
  have init: "pool_init [0] = ?s0" by (simp add: pool_init_def pool_new_def)
  have a: "pool_step ?s0 ?s1" using put_call [of ?s0 1 7 0] by (simp add: d)
  have b: "pool_step ?s1 ?s2" using put_try [of ?s1 1 7 0] by (simp add: d)
  have c: "pool_step ?s2 ?s3" using put_won [of ?s2 1 7 0 SLOT_FREE] by (simp add: d)
  have d': "pool_step ?s3 ?s4" using put_write [of ?s3 1 7 0] by (simp add: d)
  have e: "pool_step ?s4 ?s5" using put_store [of ?s4 1 7 0] by (simp add: d)
  have f: "pool_step ?s5 ?s6" using get_call [of ?s5 2 0] by (simp add: d)
  have g: "pool_step ?s6 ?s7" using get_try [of ?s6 2 0] by (simp add: d)
  have h: "pool_step ?s7 ?s8" using get_won [of ?s7 2 0] by (simp add: d)
  have i: "pool_step ?s8 ?s9" using get_read [of ?s8 2 0] by (simp add: d)
  have j: "pool_step ?s9 s" using get_store [of ?s9 2 0 7] by (simp add: d s_def)
  have st: "pool_step x y \<Longrightarrow> pool_step\<^sup>*\<^sup>* y z \<Longrightarrow> pool_step\<^sup>*\<^sup>* x z" for x y z :: "nat pool_sys"
    by (rule converse_rtranclp_into_rtranclp)
  show ?thesis
    unfolding init
    by (rule st [OF a], rule st [OF b], rule st [OF c], rule st [OF d'], rule st [OF e],
      rule st [OF f], rule st [OF g], rule st [OF h], rule st [OF i], rule st [OF j],
      rule rtranclp.rtrancl_refl)
qed

theorem pool_threads_conserve_witness:
  "\<exists>s :: nat pool_sys. pool_step\<^sup>*\<^sup>* (pool_init [0]) s \<and> slots s = [(SLOT_RECYCLE, 7)] \<and> fetched s = {#7#} \<and>
    stored s = fetched s + recycled s + inventory s"
  using pool_threads_conserve [OF put_get_run] put_get_run
  by (intro exI [of _ "\<lparr>slots = [(SLOT_RECYCLE, 7)], pcs = (\<lambda>_. Pool_Idle), stored = {#7#},
    fetched = {#7#}, recycled = {#}\<rparr>"]) simp

end
