(* ===== verification/Packet.thy ===== *)
theory Packet
  imports Memory Crc "HOL-Library.Monad_Syntax"
begin

text \<open>
  The wire format of src/src/middleware/message/packet.cpp and message.hpp: the packed header
  \<open>PackedDataHeader\<close> (17 bytes: prefix, length, topic CRC32, time stamp, CRC8), the payload and
  a CRC8 over both. A packed struct is its bytes; writing a member is a write at its offset,
  \<open>None\<close> outside the caller's buffer.
\<close>

section \<open>Header fields\<close>

definition set_data_len :: "u32 \<Rightarrow> u8 list" where
  "set_data_len len = [ucast (drop_bit 16 len), ucast (drop_bit 8 len), ucast len]"

definition get_data_len :: "u8 list \<Rightarrow> u32" where
  "get_data_len raw = push_bit 16 (ucast (raw ! 0)) OR push_bit 8 (ucast (raw ! 1)) OR ucast (raw ! 2)"

definition set_timestamp :: "u64 \<Rightarrow> u8 list" where
  "set_timestamp value = map (\<lambda>i. ucast (drop_bit ((8 - 1 - i) * 8) value)) [0..<8]"

definition get_timestamp :: "u8 list \<Rightarrow> u64" where
  "get_timestamp raw = foldl (\<lambda>value byte. push_bit 8 value OR ucast byte) 0 raw"

definition PACKET_PREFIX :: u8 where
  "PACKET_PREFIX = 0x5A"

definition HEADER_SIZE :: nat where
  "HEADER_SIZE = 17"

definition PACK_BASE_SIZE :: nat where
  "PACK_BASE_SIZE = HEADER_SIZE + 1"

lemmas packet_sizes = HEADER_SIZE_def PACK_BASE_SIZE_def

section \<open>PackData\<close>

definition pack_data :: "u8 crc_state \<Rightarrow> u32 \<Rightarrow> u8 list \<Rightarrow> u64 \<Rightarrow> u8 list \<Rightarrow>
    (u8 crc_state \<times> u8 list) option" where
  "pack_data st topic_name_crc32 buffer timestamp data = do {
     b1 \<leftarrow> array_copy buffer HEADER_SIZE data 0 (length data);
     b2 \<leftarrow> array_copy b1 0 [PACKET_PREFIX] 0 1;
     b3 \<leftarrow> array_copy b2 4 (word_bytes 4 topic_name_crc32) 0 4;
     b4 \<leftarrow> array_copy b3 1 (set_data_len (of_nat (length data))) 0 3;
     b5 \<leftarrow> array_copy b4 8 (set_timestamp timestamp) 0 8;
     (st1, header_crc8) \<leftarrow> crc8_calculate st b5 (HEADER_SIZE - 1);
     b6 \<leftarrow> array_copy b5 16 [header_crc8] 0 1;
     (st2, pack_crc8) \<leftarrow> crc8_calculate st1 b6 (PACK_BASE_SIZE - 1 + length data);
     b7 \<leftarrow> array_copy b6 (PACK_BASE_SIZE + length data - 1) [pack_crc8] 0 1;
     Some (st2, b7)
   }"

section \<open>The format\<close>

definition header_body :: "u32 \<Rightarrow> u64 \<Rightarrow> nat \<Rightarrow> u8 list" where
  "header_body name ts n =
     PACKET_PREFIX # set_data_len (of_nat n) @ word_bytes 4 name @ set_timestamp ts"

definition header :: "u32 \<Rightarrow> u64 \<Rightarrow> nat \<Rightarrow> u8 list" where
  "header name ts n = header_body name ts n @ crc8_sum (header_body name ts n)"

definition packet :: "u32 \<Rightarrow> u64 \<Rightarrow> u8 list \<Rightarrow> u8 list" where
  "packet name ts data = (let p = header name ts (length data) @ data in p @ crc8_sum p)"

text \<open>The members of a received header.\<close>

definition header_len :: "u8 list \<Rightarrow> u32" where
  "header_len h = get_data_len (take 3 (drop 1 h))"

definition header_name :: "u8 list \<Rightarrow> u32" where
  "header_name h = le_word (take 4 (drop 4 h))"

definition header_timestamp :: "u8 list \<Rightarrow> u64" where
  "header_timestamp h = get_timestamp (take 8 (drop 8 h))"

lemma length_set_data_len [simp]: "length (set_data_len n) = 3"
  by (simp add: set_data_len_def)

lemma length_set_timestamp [simp]: "length (set_timestamp t) = 8"
  by (simp add: set_timestamp_def)

lemma length_crc8_sum [simp]: "length (crc8_sum bs) = 1"
  by (rule crc_sum_length)

lemma length_header_body [simp]: "length (header_body name ts n) = 16"
  by (simp add: header_body_def)

lemma length_header [simp]: "length (header name ts n) = HEADER_SIZE"
  by (simp add: header_def packet_sizes)

lemma length_packet [simp]: "length (packet name ts data) = PACK_BASE_SIZE + length data"
  by (simp add: packet_def Let_def packet_sizes)

section \<open>Round trips\<close>

lemma data_len_roundtrip: "get_data_len (set_data_len len) = len AND mask 24"
proof (rule bit_word_eqI)
  fix n assume "n < LENGTH(32)"
  consider "n < 8" | "8 \<le> n" "n < 16" | "16 \<le> n" "n < 24" | "24 \<le> n" by linarith
  then show "bit (get_data_len (set_data_len len)) n = bit (len AND mask 24) n"
    by cases (auto simp: get_data_len_def set_data_len_def bit_simps)
qed

lemma get_timestamp_snoc: "get_timestamp (bs @ [b]) = push_bit 8 (get_timestamp bs) OR ucast b"
  by (simp add: get_timestamp_def)

lemma bit_get_timestamp:
  "bit (get_timestamp bs) n \<longleftrightarrow> n < 64 \<and> n div 8 < length bs \<and> bit (rev bs ! (n div 8)) (n mod 8)"
proof (induction bs arbitrary: n rule: rev_induct)
  case Nil
  then show ?case by (simp add: get_timestamp_def)
next
  case (snoc b bs)
  show ?case
  proof (cases "n < 8")
    case True
    then show ?thesis by (auto simp: get_timestamp_snoc bit_simps)
  next
    case False
    then have "n div 8 = Suc ((n - 8) div 8)" "n mod 8 = (n - 8) mod 8"
      by (simp_all add: le_div_geq le_mod_geq)
    then show ?thesis
      using False snoc.IH [of "n - 8"] by (auto simp: get_timestamp_snoc bit_simps u8_bit_high)
  qed
qed

lemma timestamp_roundtrip: "get_timestamp (set_timestamp ts) = ts"
proof (rule bit_word_eqI)
  fix n assume n: "n < LENGTH(64)"
  then have d: "n div 8 < 8" by simp
  then have "[0..<8] ! (7 - n div 8) = 7 - n div 8" by (subst nth_upt) simp_all
  then have "rev (set_timestamp ts) ! (n div 8) = ucast (drop_bit (n div 8 * 8) ts)"
    using d by (simp add: set_timestamp_def rev_nth)
  then show "bit (get_timestamp (set_timestamp ts)) n = bit ts n"
    using n d by (simp add: bit_get_timestamp bit_simps)
qed

lemma header_fields:
  "header_len (header name ts n @ rest) = of_nat n AND mask 24"
  "header_name (header name ts n @ rest) = name"
  "header_timestamp (header name ts n @ rest) = ts"
  by (simp_all add: header_len_def header_name_def header_timestamp_def header_def header_body_def
      data_len_roundtrip timestamp_roundtrip le_word_bytes)

lemma header_len_small:
  assumes "n < 2 ^ 24"
  shows "unat (header_len (header name ts n @ rest)) = n"
proof -
  have "unat (of_nat n AND mask 24 :: u32) = take_bit 24 (unat (of_nat n :: u32))"
    by (simp only: take_bit_eq_mask [symmetric] unsigned_take_bit_eq)
  moreover have "unat (of_nat n :: u32) = n" using assms by (simp add: unat_of_nat)
  ultimately show ?thesis using assms by (simp only: header_fields take_bit_nat_eq_self)
qed

section \<open>PackData writes the format\<close>

lemma array_copy_segment:
  "length b = length s \<Longrightarrow> off = length a \<Longrightarrow> n = length s \<Longrightarrow>
   array_copy (a @ b @ c) off s 0 n = Some (a @ s @ c)"
  by (simp add: array_copy_def blit_def)

lemma pack_data_eq:
  assumes ok: "crc_ok 0x8c st" and room: "PACK_BASE_SIZE + length data \<le> length buffer"
  shows "\<exists>st'. crc_ok 0x8c st' \<and> pack_data st name buffer ts data =
    Some (st', packet name ts data @ drop (PACK_BASE_SIZE + length data) buffer)"
proof -
  let ?n = "length data"
  define rest where "rest = drop (18 + ?n) buffer"
  define z where "z = (\<lambda>i k. take k (drop i buffer))"
  have buf: "buffer = z 0 1 @ z 1 3 @ z 4 4 @ z 8 8 @ z 16 1 @ z 17 ?n @ z (17 + ?n) 1 @ rest"
    unfolding z_def rest_def by (simp add: take_add [symmetric] flip: append_assoc)
  have lz: "length (z 0 1) = 1" "length (z 1 3) = 3" "length (z 4 4) = 4" "length (z 8 8) = 8"
    "length (z 16 1) = 1" "length (z 17 ?n) = ?n" "length (z (17 + ?n) 1) = 1"
    using room by (simp_all add: z_def packet_sizes)
  let ?l = "set_data_len (of_nat ?n)" and ?w = "word_bytes 4 name" and ?t = "set_timestamp ts"
  let ?body = "header_body name ts ?n" and ?h = "header name ts ?n"
  let ?tl = "z (17 + ?n) 1 @ rest"
  have 1: "array_copy buffer 17 data 0 ?n = Some (z 0 1 @ z 1 3 @ z 4 4 @ z 8 8 @ z 16 1 @ data @ ?tl)"
    using lz by (subst buf) (simp add: array_copy_def blit_def)
  have 2: "array_copy (z 0 1 @ z 1 3 @ z 4 4 @ z 8 8 @ z 16 1 @ data @ ?tl) 0 [PACKET_PREFIX] 0 1 =
      Some ([PACKET_PREFIX] @ z 1 3 @ z 4 4 @ z 8 8 @ z 16 1 @ data @ ?tl)"
    using lz by (simp add: array_copy_def blit_def)
  have 3: "array_copy ([PACKET_PREFIX] @ z 1 3 @ z 4 4 @ z 8 8 @ z 16 1 @ data @ ?tl) 4 ?w 0 4 =
      Some ([PACKET_PREFIX] @ z 1 3 @ ?w @ z 8 8 @ z 16 1 @ data @ ?tl)"
    using lz by (simp add: array_copy_def blit_def)
  have 4: "array_copy ([PACKET_PREFIX] @ z 1 3 @ ?w @ z 8 8 @ z 16 1 @ data @ ?tl) 1 ?l 0 3 =
      Some ([PACKET_PREFIX] @ ?l @ ?w @ z 8 8 @ z 16 1 @ data @ ?tl)"
    using lz by (simp add: array_copy_def blit_def)
  have 5: "array_copy ([PACKET_PREFIX] @ ?l @ ?w @ z 8 8 @ z 16 1 @ data @ ?tl) 8 ?t 0 8 =
      Some (?body @ z 16 1 @ data @ ?tl)"
    using lz by (simp add: array_copy_def blit_def header_body_def)
  obtain c where c: "crc8_sum ?body = [c]" by (simp add: crc8_sum_def)
  have 6: "array_copy (?body @ z 16 1 @ data @ ?tl) 16 [c] 0 1 = Some (?h @ data @ ?tl)"
    using lz by (simp add: array_copy_def blit_def header_def c)
  obtain e where e: "crc8_sum (?h @ data) = [e]" by (simp add: crc8_sum_def)
  have 7: "array_copy (?h @ data @ ?tl) (18 + ?n - 1) [e] 0 1 = Some (packet name ts data @ rest)"
    using lz by (simp add: array_copy_def blit_def packet_def Let_def e packet_sizes)
  have crc1: "crc8_calculate st (?body @ z 16 1 @ data @ ?tl) 16 = Some (crc8_ready st, c)"
    using c ok lz by (subst crc8_calculate_eq) (simp_all add: crc8_sum_def)
  have crc2: "crc8_calculate (crc8_ready st) (?h @ data @ ?tl) (18 - 1 + ?n) = Some (crc8_ready st, e)"
    using e ok lz by (subst crc8_calculate_eq) (simp_all add: crc8_sum_def packet_sizes)
  show ?thesis
    unfolding pack_data_def packet_sizes
    using 1 2 3 4 5 6 7 crc1 crc2 ok lz(1)
    by (simp add: packet_sizes rest_def)
qed

section \<open>Properties\<close>

text \<open>C32: \<open>PackData\<close> into a buffer with room writes exactly one packet and leaves the rest of the
  buffer; the receiver reads the topic, the time stamp and (below 16 MB) the length back from the
  header, and both CRC8 checks of the receiver accept it.\<close>

theorem pack_data_roundtrip:
  assumes "crc_ok 0x8c st" and "PACK_BASE_SIZE + length data \<le> length buffer" and "length data < 2 ^ 24"
  shows "\<exists>st' p. pack_data st name buffer ts data = Some (st', p) \<and>
    drop (PACK_BASE_SIZE + length data) p = drop (PACK_BASE_SIZE + length data) buffer \<and>
    header_name p = name \<and> header_timestamp p = ts \<and> unat (header_len p) = length data \<and>
    take (length data) (drop HEADER_SIZE p) = data \<and>
    map_option snd (crc8_verify st' (take HEADER_SIZE p) HEADER_SIZE) = Some True \<and>
    map_option snd (crc8_verify st' (take (PACK_BASE_SIZE + length data) p)
      (PACK_BASE_SIZE + length data)) = Some True"
proof -
  obtain st' where st': "crc_ok 0x8c st'" "pack_data st name buffer ts data =
      Some (st', packet name ts data @ drop (PACK_BASE_SIZE + length data) buffer)"
    using pack_data_eq [OF assms(1,2)] by blast
  let ?h = "header name ts (length data)"
  have split: "packet name ts data @ z = ?h @ data @ crc8_sum (?h @ data) @ z" for z
    by (simp add: packet_def Let_def)
  have "map_option snd (crc8_verify st' ?h HEADER_SIZE) = Some True"
    using crc8.accepts [OF st'(1), of "header_body name ts (length data)"]
    by (auto simp: header_def packet_sizes)
  moreover have "map_option snd (crc8_verify st' (packet name ts data) (PACK_BASE_SIZE + length data)) =
      Some True"
    using crc8.accepts [OF st'(1), of "?h @ data"] assms(3)
    by (auto simp: packet_def Let_def packet_sizes)
  moreover let ?p = "packet name ts data @ drop (PACK_BASE_SIZE + length data) buffer"
  have "take (PACK_BASE_SIZE + length data) ?p = packet name ts data"
    "drop (PACK_BASE_SIZE + length data) ?p = drop (PACK_BASE_SIZE + length data) buffer" by simp_all
  moreover have "take HEADER_SIZE ?p = ?h" "take (length data) (drop HEADER_SIZE ?p) = data"
    unfolding split by simp_all
  moreover have "header_name ?p = name" "header_timestamp ?p = ts" "unat (header_len ?p) = length data"
    unfolding split using header_fields header_len_small [OF assms(3)] by simp_all
  ultimately show ?thesis
    using st'(2) by (intro exI [of _ st'] exI [of _ ?p]) simp
qed

theorem pack_data_roundtrip_witness:
  "\<exists>st' p. pack_data crc_fresh 0xCAFE (replicate 20 0) 0x123456789 [1, 2] = Some (st', p) \<and>
    header_name p = 0xCAFE \<and> unat (header_len p) = 2"
  using pack_data_roundtrip [where st = crc_fresh and data = "[1, 2]" and buffer = "replicate 20 0"
      and name = "0xCAFE" and ts = "0x123456789"]
  by (auto simp: packet_sizes)

end
