(* ===== verification/Topic_Server.thy ===== *)
theory Topic_Server
  imports Base_Queue Packet
begin

text \<open>
  The packet parser \<open>Topic::Server\<close> of src/src/middleware/message/server.cpp and server.hpp on
  the byte queue. The red-black tree of the registered topics enters through its \<open>Search\<close>: the
  argument \<open>search\<close> of the parser maps a topic CRC32 to the registered topic, \<open>max_len\<close> a topic
  to its \<open>max_length\<close>. The theory Topic_Network puts in the search of the tree that \<open>Register\<close> fills,
  whose comparison of keys can overflow (Topic_Registry). A publication is an element of the list of deliveries that the parser
  returns (the source returns its length and calls \<open>Publish\<close> for each). Reads outside a buffer
  and running out of fuel are \<open>None\<close>; one unit of fuel per queued byte and one more are enough.
\<close>

datatype server_status = WAIT_START | WAIT_TOPIC | WAIT_DATA_CRC

record 't server =
  srv_status :: server_status
  srv_data_len :: nat
  srv_queue :: base_queue
  parse_buff :: "u8 list"
  current_topic :: "'t option"
  current_timestamp :: u64
  srv_crc :: "u8 crc_state"

type_synonym 't delivery = "'t \<times> u8 list \<times> u64"

section \<open>Operations\<close>

text \<open>The two arrays that the constructor allocates are uninitialised: parameters. A failing
  \<open>ASSERT\<close> is \<open>None\<close>; \<open>st\<close> is the table state of CRC8, which all servers share.\<close>

definition server_new :: "nat \<Rightarrow> u8 list \<Rightarrow> u8 list \<Rightarrow> u8 crc_state \<Rightarrow> 't server option" where
  "server_new buffer_length fresh_queue fresh_buff st =
     (if buffer_length > PACK_BASE_SIZE
      then Some \<lparr>srv_status = WAIT_START, srv_data_len = 0,
        srv_queue = base_queue_new 1 buffer_length fresh_queue, parse_buff = fresh_buff,
        current_topic = None, current_timestamp = 0, srv_crc = st\<rparr>
      else None)"

definition reset_parser :: "'t server \<Rightarrow> 't server" where
  "reset_parser s = s\<lparr>srv_status := WAIT_START, srv_data_len := 0, current_topic := None,
     current_timestamp := 0\<rparr>"

text \<open>\<open>SyncToPacketStart\<close>: the loop over the queued bytes.\<close>

fun sync_loop :: "nat \<Rightarrow> 't server \<Rightarrow> ('t server \<times> bool) option" where
  "sync_loop 0 s = Some (s, False)"
| "sync_loop (Suc n) s = do {
     (ec, prefix) \<leftarrow> bq_peek (srv_queue s) [0];
     if prefix ! 0 = PACKET_PREFIX then Some (s\<lparr>srv_status := WAIT_TOPIC\<rparr>, True)
     else do {
       (q, _, _) \<leftarrow> bq_pop (srv_queue s) None;
       sync_loop n (s\<lparr>srv_queue := q\<rparr>)
     }
   }"

definition sync_to_packet_start :: "'t server \<Rightarrow> ('t server \<times> bool) option" where
  "sync_to_packet_start s = sync_loop (bq_size (srv_queue s)) s"

definition read_header :: "(u32 \<Rightarrow> 't option) \<Rightarrow> 't server \<Rightarrow> ('t server \<times> bool) option" where
  "read_header search s =
     (if bq_size (srv_queue s) < HEADER_SIZE then Some (s, False)
      else do {
        (q, _, buff) \<leftarrow> bq_pop_batch (srv_queue s) (Some (parse_buff s)) HEADER_SIZE;
        buff \<leftarrow> buff;
        (st, ok) \<leftarrow> crc8_verify (srv_crc s) buff HEADER_SIZE;
        let s1 = s\<lparr>srv_queue := q, parse_buff := buff, srv_crc := st\<rparr>;
        if \<not> ok then Some (reset_parser s1, True)
        else case search (header_name buff) of
          None \<Rightarrow> Some (reset_parser s1, True)
        | Some node \<Rightarrow>
            let s2 = s1\<lparr>srv_data_len := unat (header_len buff), current_timestamp := header_timestamp buff,
              current_topic := Some node\<rparr>
            in if srv_data_len s2 + PACK_BASE_SIZE > bq_length (srv_queue s2)
               then Some (reset_parser s2, True)
               else Some (s2\<lparr>srv_status := WAIT_DATA_CRC\<rparr>, True)
      })"

datatype 't parse_result = NEED_MORE | DROPPED | DELIVERED "'t delivery"

definition read_payload :: "('t \<Rightarrow> nat) \<Rightarrow> 't server \<Rightarrow> ('t server \<times> 't parse_result) option" where
  "read_payload max_len s =
     (if bq_size (srv_queue s) < srv_data_len s + 1 then Some (s, NEED_MORE)
      else do {
        (q, _, tail) \<leftarrow> bq_pop_batch (srv_queue s) (Some (drop HEADER_SIZE (parse_buff s))) (srv_data_len s + 1);
        tail \<leftarrow> tail;
        let buff = take HEADER_SIZE (parse_buff s) @ tail;
        (st, ok) \<leftarrow> crc8_verify (srv_crc s) buff (srv_data_len s + HEADER_SIZE + 1);
        let s1 = s\<lparr>srv_queue := q, parse_buff := buff, srv_crc := st\<rparr>;
        if \<not> ok then Some (reset_parser s1, DROPPED)
        else do {
          topic \<leftarrow> current_topic s1;
          let n = (if srv_data_len s1 > max_len topic then max_len topic else srv_data_len s1);
          Some (reset_parser s1, DELIVERED (topic, take n (drop HEADER_SIZE buff), current_timestamp s1))
        }
      })"

text \<open>The loop of \<open>ParseDataRaw\<close>.\<close>

fun parse_loop :: "nat \<Rightarrow> (u32 \<Rightarrow> 't option) \<Rightarrow> ('t \<Rightarrow> nat) \<Rightarrow> 't server \<Rightarrow>
    ('t server \<times> 't delivery list) option" where
  "parse_loop 0 search max_len s = None"
| "parse_loop (Suc fuel) search max_len s = do {
     (s1, synced) \<leftarrow> (if srv_status s = WAIT_START then sync_to_packet_start s else Some (s, True));
     if \<not> synced then Some (s1, [])
     else do {
       (s2, have_header) \<leftarrow> (if srv_status s1 = WAIT_TOPIC then read_header search s1 else Some (s1, True));
       if \<not> have_header then Some (s2, [])
       else if srv_status s2 = WAIT_DATA_CRC then do {
         (s3, res) \<leftarrow> read_payload max_len s2;
         case res of
           NEED_MORE \<Rightarrow> Some (s3, [])
         | DROPPED \<Rightarrow> parse_loop fuel search max_len s3
         | DELIVERED d \<Rightarrow> map_option (\<lambda>(s', ds). (s', d # ds)) (parse_loop fuel search max_len s3)
       }
       else parse_loop fuel search max_len s2
     }
   }"

definition parse_data_raw :: "nat \<Rightarrow> (u32 \<Rightarrow> 't option) \<Rightarrow> ('t \<Rightarrow> nat) \<Rightarrow> 't server \<Rightarrow> u8 list \<Rightarrow>
    ('t server \<times> 't delivery list) option" where
  "parse_data_raw fuel search max_len s data = do {
     (q, _) \<leftarrow> bq_push_batch (srv_queue s) data (length data);
     parse_loop fuel search max_len (s\<lparr>srv_queue := q\<rparr>)
   }"

section \<open>The queue as a byte stream\<close>

text \<open>What the parser relies on: a queue of bytes whose batch operations append to and remove
  from a byte list.\<close>

locale byte_stream =
  fixes inv :: "'q \<Rightarrow> bool"
    and bytes :: "'q \<Rightarrow> u8 list"
    and cap :: "'q \<Rightarrow> nat"
    and count :: "'q \<Rightarrow> nat"
    and push_batch :: "'q \<Rightarrow> u8 list \<Rightarrow> nat \<Rightarrow> ('q \<times> error_code) option"
    and pop_batch :: "'q \<Rightarrow> u8 list option \<Rightarrow> nat \<Rightarrow> ('q \<times> error_code \<times> u8 list option) option"
    and peek :: "'q \<Rightarrow> u8 list \<Rightarrow> (error_code \<times> u8 list) option"
    and pop :: "'q \<Rightarrow> u8 list option \<Rightarrow> ('q \<times> error_code \<times> u8 list option) option"
  assumes count_eq: "inv q \<Longrightarrow> count q = length (bytes q)"
    and count_le: "inv q \<Longrightarrow> length (bytes q) \<le> cap q"
    and push_room: "inv q \<Longrightarrow> data \<noteq> [] \<Longrightarrow> length (bytes q) + length data \<le> cap q \<Longrightarrow>
      \<exists>q'. push_batch q data (length data) = Some (q', OK) \<and> inv q' \<and> bytes q' = bytes q @ data \<and>
        cap q' = cap q"
    and push_full: "inv q \<Longrightarrow> cap q < length (bytes q) + length data \<Longrightarrow>
      push_batch q data (length data) = Some (q, FULL)"
    and pop_front: "inv q \<Longrightarrow> 0 < n \<Longrightarrow> n \<le> length (bytes q) \<Longrightarrow> n \<le> length buf \<Longrightarrow>
      \<exists>q'. pop_batch q (Some buf) n = Some (q', OK, Some (take n (bytes q) @ drop n buf)) \<and> inv q' \<and>
        bytes q' = drop n (bytes q) \<and> cap q' = cap q"
    and peek_front: "inv q \<Longrightarrow> bytes q = b # bs \<Longrightarrow> peek q [x] = Some (OK, [b])"
    and skip_front: "inv q \<Longrightarrow> bytes q = b # bs \<Longrightarrow>
      \<exists>q'. pop q None = Some (q', OK, None) \<and> inv q' \<and> bytes q' = bs \<and> cap q' = cap q"
begin

text \<open>Pushing a stream in pieces that fit is pushing the stream.\<close>

fun push_all :: "'q \<Rightarrow> u8 list list \<Rightarrow> 'q option" where
  "push_all q [] = Some q"
| "push_all q (c # cs) = (case push_batch q c (length c) of None \<Rightarrow> None | Some (q', ec) \<Rightarrow> push_all q' cs)"

lemma push_all_concat:
  "inv q \<Longrightarrow> [] \<notin> set cs \<Longrightarrow> length (bytes q) + length (concat cs) \<le> cap q \<Longrightarrow>
   \<exists>q'. push_all q cs = Some q' \<and> inv q' \<and> bytes q' = bytes q @ concat cs \<and> cap q' = cap q"
proof (induction cs arbitrary: q)
  case (Cons c cs)
  then obtain q1 where "push_batch q c (length c) = Some (q1, OK)" "inv q1"
    "bytes q1 = bytes q @ c" "cap q1 = cap q"
    using push_room [of q c] by auto
  then show ?case using Cons by fastforce
qed simp

end

definition byte_queue :: "base_queue \<Rightarrow> bool" where
  "byte_queue q \<longleftrightarrow> bq_wf q \<and> element_size q = 1"

definition q_bytes :: "base_queue \<Rightarrow> u8 list" where
  "q_bytes q = concat (bq_contents q)"

lemma concat_singles: "\<forall>x \<in> set xs. length x = 1 \<Longrightarrow> length (concat xs) = length xs \<and>
    take n (concat xs) = concat (take n xs) \<and> drop n (concat xs) = concat (drop n xs)"
proof (induction xs arbitrary: n)
  case (Cons x xs)
  then obtain b where "x = [b]" by (auto simp: length_Suc_conv)
  then show ?case using Cons by (cases n) auto
qed simp

lemma q_bytes_props:
  assumes "byte_queue q"
  shows "length (q_bytes q) = bq_size q" "take n (q_bytes q) = concat (take n (bq_contents q))"
    "drop n (q_bytes q) = concat (drop n (bq_contents q))"
proof -
  have "\<forall>x \<in> set (bq_contents q). length x = 1"
    using assms contents_sizes by (auto simp: byte_queue_def)
  from concat_singles [OF this] show "length (q_bytes q) = bq_size q"
    "take n (q_bytes q) = concat (take n (bq_contents q))"
    "drop n (q_bytes q) = concat (drop n (bq_contents q))"
    by (simp_all add: q_bytes_def)
qed

lemma byte_queue_dropped:
  assumes "byte_queue q" "0 < n" "n \<le> bq_size q"
  shows "byte_queue (bq_dropped q n)" "q_bytes (bq_dropped q n) = drop n (q_bytes q)"
    "bq_length (bq_dropped q n) = bq_length q"
  using assms q_bytes_props(3) [OF assms(1), of n] wf_dropped [of q n] contents_dropped [of q n]
  by (simp_all add: byte_queue_def q_bytes_def) (simp_all add: bq_dropped_def)

interpretation bq_bytes: byte_stream byte_queue q_bytes bq_length bq_size bq_push_batch bq_pop_batch
  bq_peek bq_pop
proof
  fix q :: base_queue and data buf bs :: "u8 list" and n and b x :: u8
  assume q: "byte_queue q"
  then have wf: "bq_wf q" "element_size q = 1" by (simp_all add: byte_queue_def)
  note p = q_bytes_props [OF q]
  show "bq_size q = length (q_bytes q)" "length (q_bytes q) \<le> bq_length q"
    using p(1) bq_size_le [OF wf(1)] by simp_all
  show "\<exists>q'. bq_push_batch q data (length data) = Some (q', OK) \<and> byte_queue q' \<and>
      q_bytes q' = q_bytes q @ data \<and> bq_length q' = bq_length q"
    if "data \<noteq> []" "length (q_bytes q) + length data \<le> bq_length q"
  proof -
    have "concat (chunks 1 (length data) data) = data" using concat_chunks [of "length data" 1 data] by simp
    then show ?thesis
      using that wf p(1) wf_written [of q "length data" data] contents_written [of q "length data" data]
      by (simp add: push_batch_eq byte_queue_def q_bytes_def) (simp add: bq_written_def Let_def)
  qed
  show "bq_push_batch q data (length data) = Some (q, FULL)" if "bq_length q < length (q_bytes q) + length data"
    using that wf p(1) by (simp add: push_batch_eq)
  show "\<exists>q'. bq_pop_batch q (Some buf) n = Some (q', OK, Some (take n (q_bytes q) @ drop n buf)) \<and>
      byte_queue q' \<and> q_bytes q' = drop n (q_bytes q) \<and> bq_length q' = bq_length q"
    if "0 < n" "n \<le> length (q_bytes q)" "n \<le> length buf"
    using that wf p(1,2) byte_queue_dropped [OF q, of n] pop_batch_eq [OF wf(1), of n "Some buf"] by simp
  show "bq_peek q [x] = Some (OK, [b])" if "q_bytes q = b # bs"
  proof -
    have sz: "0 < bq_size q" "1 \<le> bq_size q" using that p(1) by simp_all
    have "concat (take 1 (bq_contents q)) = [b]" using p(2) [of 1] that by simp
    moreover have "bq_contents q = bq_slot q 0 # drop 1 (bq_contents q)"
      using sz by (simp add: bq_contents_def upt_conv_Cons)
    ultimately have "bq_slot q 0 = [b]" by (metis append_Nil2 concat.simps take_Suc_Cons One_nat_def take0)
    moreover have "bq_slot q 0 = take 1 (drop (bq_head q) (queue_array q))"
      using wf by (simp add: bq_slot_def chunk_def bq_wf_def)
    ultimately show ?thesis
      using wf sz by (auto simp: bq_peek_def array_copy_def blit_def bq_wf_def)
  qed
  show "\<exists>q'. bq_pop q None = Some (q', OK, None) \<and> byte_queue q' \<and> q_bytes q' = bs \<and>
      bq_length q' = bq_length q" if "q_bytes q = b # bs"
    using that wf p(1) byte_queue_dropped [OF q, of 1] pop_batch_eq [OF wf(1), of 1 None]
    by (auto simp: pop_eq_batch)
qed

section \<open>Specification: splitting a byte stream into messages\<close>

text \<open>A header is accepted when its check sum is right, its topic is registered and the packet
  fits the buffer of \<open>cp\<close> bytes; a body when the check sum of header and body is right.\<close>

definition crc_valid :: "u8 list \<Rightarrow> bool" where
  "crc_valid bs \<longleftrightarrow> crc8_sum (butlast bs) = [last bs]"

definition header_ok :: "(u32 \<Rightarrow> 't option) \<Rightarrow> nat \<Rightarrow> u8 list \<Rightarrow> bool" where
  "header_ok search cp h \<longleftrightarrow> crc_valid h \<and> search (header_name h) \<noteq> None \<and>
     unat (header_len h) + PACK_BASE_SIZE \<le> cp"

definition message :: "(u32 \<Rightarrow> 't option) \<Rightarrow> ('t \<Rightarrow> nat) \<Rightarrow> u8 list \<Rightarrow> u8 list \<Rightarrow> 't delivery" where
  "message search max_len h body =
     (let t = the (search (header_name h))
      in (t, take (min (unat (header_len h)) (max_len t)) body, header_timestamp h))"

text \<open>\<open>frames\<close>: the deliveries from a byte stream, the header whose body is awaited (if any) and the
  bytes that are left.\<close>

function frames :: "(u32 \<Rightarrow> 't option) \<Rightarrow> ('t \<Rightarrow> nat) \<Rightarrow> nat \<Rightarrow> u8 list option \<Rightarrow> u8 list \<Rightarrow>
    't delivery list \<times> u8 list option \<times> u8 list" where
  "frames search max_len cp None bs =
     (let w = dropWhile (\<lambda>b. b \<noteq> PACKET_PREFIX) bs
      in if length w < HEADER_SIZE then ([], None, w)
         else frames search max_len cp
           (if header_ok search cp (take HEADER_SIZE w) then Some (take HEADER_SIZE w) else None)
           (drop HEADER_SIZE w))"
| "frames search max_len cp (Some h) bs =
     (let n = unat (header_len h)
      in if length bs < n + 1 then ([], Some h, bs)
         else let (ds, st, r) = frames search max_len cp None (drop (n + 1) bs)
           in ((if crc_valid (h @ take (n + 1) bs) then [message search max_len h (take n bs)] else []) @ ds,
               st, r))"
  by pat_completeness auto
termination
proof (relation "measure (\<lambda>(search, max_len, cp, st, bs). length bs)")
  fix search :: "u32 \<Rightarrow> 't option" and max_len :: "'t \<Rightarrow> nat" and cp bs w
  assume "w = dropWhile (\<lambda>b. b \<noteq> PACKET_PREFIX) bs" "\<not> length w < HEADER_SIZE"
  moreover have "length (dropWhile (\<lambda>b. b \<noteq> PACKET_PREFIX) bs) \<le> length bs"
    by (rule length_dropWhile_le)
  ultimately show "((search, max_len, cp, if header_ok search cp (take HEADER_SIZE w)
      then Some (take HEADER_SIZE w) else None, drop HEADER_SIZE w), search, max_len, cp, None, bs)
    \<in> measure (\<lambda>(search, max_len, cp, st, bs). length bs)"
    by (simp add: HEADER_SIZE_def)
qed auto

declare frames.simps [simp del]

text \<open>Feeding the stream in two pieces gives the same deliveries.\<close>

lemma dropWhile_restart: "dropWhile P (xs @ ys) = dropWhile P (dropWhile P xs @ ys)"
  by (induction xs) auto

lemma dropWhile_rest: "dropWhile P (dropWhile P xs @ ys) =
    (if dropWhile P xs = [] then dropWhile P ys else dropWhile P xs @ ys)"
  by (induction xs) auto

lemma frames_append:
  "frames search max_len cp st (bs @ cs) =
    (let (ds, st', r) = frames search max_len cp st bs;
         (es, st'', r') = frames search max_len cp st' (r @ cs)
     in (ds @ es, st'', r'))"
proof (induction search max_len cp st bs rule: frames.induct)
  case (1 search max_len cp bs)
  let ?P = "\<lambda>b. b \<noteq> PACKET_PREFIX"
  let ?w = "dropWhile ?P bs"
  have w': "dropWhile ?P (?w @ cs) = (if ?w = [] then dropWhile ?P cs else ?w @ cs)"
    by (rule dropWhile_rest)
  have wa: "dropWhile ?P (bs @ cs) = dropWhile ?P (?w @ cs)"
    by (rule dropWhile_restart)
  show ?case
  proof (cases "length ?w < HEADER_SIZE")
    case True
    then have "frames search max_len cp None bs = ([], None, ?w)" by (simp add: frames.simps Let_def)
    moreover have "frames search max_len cp None (bs @ cs) = frames search max_len cp None (?w @ cs)"
      by (simp add: frames.simps Let_def wa)
    ultimately show ?thesis by (simp split: prod.split)
  next
    case False
    then have ne: "?w \<noteq> []" by (metis HEADER_SIZE_def list.size(3) zero_less_numeral)
    have t: "take HEADER_SIZE (?w @ cs) = take HEADER_SIZE ?w"
      "drop HEADER_SIZE (?w @ cs) = drop HEADER_SIZE ?w @ cs" using False by simp_all
    let ?st = "if header_ok search cp (take HEADER_SIZE ?w) then Some (take HEADER_SIZE ?w) else None"
    have "frames search max_len cp None bs = frames search max_len cp ?st (drop HEADER_SIZE ?w)"
      unfolding frames.simps(1) [of _ _ _ bs] Let_def using False by simp
    moreover have "\<not> length (?w @ cs) < HEADER_SIZE" using False by simp
    then have "frames search max_len cp None (bs @ cs) = frames search max_len cp ?st (drop HEADER_SIZE ?w @ cs)"
      unfolding frames.simps(1) [of _ _ _ "bs @ cs"] Let_def wa w' if_not_P [OF ne] t
      by (simp only: if_False)
    ultimately show ?thesis using 1 [OF refl False] by (simp only:)
  qed
next
  case (2 search max_len cp h bs)
  let ?n = "unat (header_len h)"
  show ?case
  proof (cases "length bs < ?n + 1")
    case True
    then show ?thesis by (simp add: frames.simps(2) [of _ _ _ _ bs] Let_def split: prod.split)
  next
    case False
    then have t: "take (?n + 1) (bs @ cs) = take (?n + 1) bs" "take ?n (bs @ cs) = take ?n bs"
      "drop (?n + 1) (bs @ cs) = drop (?n + 1) bs @ cs" by simp_all
    show ?thesis
      using 2 [OF refl False] False
      by (simp add: frames.simps(2) Let_def t split: prod.split)
  qed
qed

lemma frames_shrinks: "length (snd (snd (frames search max_len cp st bs))) \<le> length bs"
proof (induction search max_len cp st bs rule: frames.induct)
  case (1 search max_len cp bs)
  have "length (dropWhile (\<lambda>b. b \<noteq> PACKET_PREFIX) bs) \<le> length bs" by (rule length_dropWhile_le)
  with 1 [OF refl] show ?case
    by (auto simp: frames.simps(1) [of _ _ _ bs] Let_def)
next
  case (2 search max_len cp h bs)
  then show ?case by (force simp: frames.simps(2) [of _ _ _ _ bs] Let_def split: prod.split)
qed

text \<open>Every delivery stands in the stream.\<close>

lemma frames_sound:
  "frames search max_len cp st bs = (ds, st', r) \<Longrightarrow>
   (\<And>h. st = Some h \<Longrightarrow> header_ok search cp h \<and> length h = HEADER_SIZE) \<Longrightarrow> d \<in> set ds \<Longrightarrow>
   \<exists>pre h body post. (case st of None \<Rightarrow> [] | Some h \<Rightarrow> h) @ bs = pre @ h @ body @ post \<and>
     length h = HEADER_SIZE \<and> header_ok search cp h \<and> crc_valid (h @ body) \<and>
     length body = unat (header_len h) + 1 \<and> d = message search max_len h (butlast body)"
proof (induction search max_len cp st bs arbitrary: ds rule: frames.induct)
  case (1 search max_len cp bs)
  let ?w = "dropWhile (\<lambda>b. b \<noteq> PACKET_PREFIX) bs" and ?j = "takeWhile (\<lambda>b. b \<noteq> PACKET_PREFIX) bs"
  let ?h = "take HEADER_SIZE ?w"
  let ?st = "if header_ok search cp ?h then Some ?h else None"
  have long: "\<not> length ?w < HEADER_SIZE"
    using "1.prems"(1,3) by (auto simp: frames.simps(1) [of _ _ _ bs] Let_def split: if_splits)
  have f: "frames search max_len cp ?st (drop HEADER_SIZE ?w) = (ds, st', r)"
    using "1.prems"(1) long by (simp only: frames.simps(1) [of _ _ _ bs] Let_def if_False)
  have "?st = Some g \<Longrightarrow> header_ok search cp g \<and> length g = HEADER_SIZE" for g
    using long by (cases "header_ok search cp ?h") auto
  from "1.IH" [OF refl long f this "1.prems"(3)] obtain pre h body post where
    h: "(case ?st of None \<Rightarrow> [] | Some h \<Rightarrow> h) @ drop HEADER_SIZE ?w = pre @ h @ body @ post"
      "length h = HEADER_SIZE \<and> header_ok search cp h \<and> crc_valid (h @ body) \<and>
     length body = unat (header_len h) + 1 \<and> d = message search max_len h (butlast body)" by blast
  have "\<exists>x. ?w = x @ pre @ h @ body @ post"
  proof (cases "header_ok search cp ?h")
    case True
    then show ?thesis using h(1) by (intro exI [of _ "[]"]) simp
  next
    case False
    then have d: "drop HEADER_SIZE ?w = pre @ h @ body @ post" using h(1) by simp
    show ?thesis by (rule exI [of _ ?h]) (simp flip: d)
  qed
  then obtain x where "?w = x @ pre @ h @ body @ post" by blast
  then have "bs = (?j @ x @ pre) @ h @ body @ post"
    using takeWhile_dropWhile_id [of "\<lambda>b. b \<noteq> PACKET_PREFIX" bs] by (metis append.assoc)
  then show ?case using h(2) by (metis option.simps(4) append_Nil)
next
  case (2 search max_len cp h bs)
  let ?n = "unat (header_len h)"
  have long: "\<not> length bs < ?n + 1"
    using "2.prems"(1,3) by (auto simp: frames.simps(2) [of _ _ _ h bs] Let_def split: if_splits)
  obtain es where es: "frames search max_len cp None (drop (?n + 1) bs) = (es, st', r)"
    "ds = (if crc_valid (h @ take (?n + 1) bs) then [message search max_len h (take ?n bs)] else []) @ es"
    using "2.prems"(1) long by (auto simp: frames.simps(2) [of _ _ _ h bs] Let_def split: prod.splits)
  consider "d \<in> set es" | "crc_valid (h @ take (?n + 1) bs)" "d = message search max_len h (take ?n bs)"
    using "2.prems"(3) es(2) by (auto split: if_splits)
  then show ?case
  proof cases
    case 1
    from "2.IH" [OF refl long es(1) _ 1] obtain pre g body post where
      g: "drop (?n + 1) bs = pre @ g @ body @ post" "length g = HEADER_SIZE \<and> header_ok search cp g \<and>
        crc_valid (g @ body) \<and> length body = unat (header_len g) + 1 \<and>
        d = message search max_len g (butlast body)" by auto
    then have "h @ bs = (h @ take (?n + 1) bs @ pre) @ g @ body @ post"
      by (metis append.assoc append_take_drop_id)
    then show ?thesis using g(2) by (metis option.simps(5))
  next
    case 2
    have "butlast (take (?n + 1) bs) = take ?n bs" using long by (simp add: butlast_take)
    then show ?thesis using 2 "2.prems"(2) long
      by (intro exI [of _ "[]"] exI [of _ h] exI [of _ "take (?n + 1) bs"] exI [of _ "drop (?n + 1) bs"])
        (simp flip: append_assoc)
  qed
qed

text \<open>A packet for a registered topic that fits is delivered, whatever precedes or follows it, as
  long as no prefix byte precedes it.\<close>

lemma crc_valid_sum: "crc_valid (bs @ crc8_sum bs)"
  by (simp add: crc_valid_def crc8_sum_def)

lemma frames_packet:
  assumes "search name = Some t" "length data + PACK_BASE_SIZE \<le> cp" "length data < 2 ^ 24"
    and "PACKET_PREFIX \<notin> set junk"
  shows "frames search max_len cp None (junk @ packet name ts data @ rest) =
    (let (ds, st, r) = frames search max_len cp None rest
     in ((t, take (max_len t) data, ts) # ds, st, r))"
proof -
  let ?h = "header name ts (length data)"
  have split: "packet name ts data @ rest = ?h @ (data @ crc8_sum (?h @ data)) @ rest"
    by (simp add: packet_def Let_def)
  obtain tl where tl: "?h = PACKET_PREFIX # tl" by (simp add: header_def header_body_def)
  have dw: "dropWhile (\<lambda>b. b \<noteq> PACKET_PREFIX) (junk @ packet name ts data @ rest) =
      packet name ts data @ rest"
    unfolding split using assms(4) by (subst dropWhile_append2) (auto simp: tl)
  have fields: "header_name ?h = name" "header_timestamp ?h = ts" "unat (header_len ?h) = length data"
    using header_fields [of name ts "length data" "[]"] header_len_small [OF assms(3), of name ts "[]"]
    by simp_all
  have ok: "header_ok search cp ?h"
    using assms(1,2) fields crc_valid_sum [of "header_body name ts (length data)"]
    by (simp add: header_ok_def) (simp add: header_def)
  have th: "take HEADER_SIZE (packet name ts data @ rest) = ?h"
    "drop HEADER_SIZE (packet name ts data @ rest) = (data @ crc8_sum (?h @ data)) @ rest"
    unfolding split by simp_all
  have "frames search max_len cp None (junk @ packet name ts data @ rest) =
      frames search max_len cp (Some ?h) ((data @ crc8_sum (?h @ data)) @ rest)"
  proof -
    have "\<not> length (packet name ts data @ rest) < HEADER_SIZE" by (simp add: PACK_BASE_SIZE_def)
    then show ?thesis unfolding frames.simps(1) [of _ _ _ "junk @ packet name ts data @ rest"] dw Let_def th
      using ok by simp
  qed
  also have "\<dots> = (let (ds, st, r) = frames search max_len cp None rest
     in ((t, take (max_len t) data, ts) # ds, st, r))"
  proof -
    let ?b = "(data @ crc8_sum (?h @ data)) @ rest"
    have t: "take (length data + 1) ?b = data @ crc8_sum (?h @ data)" "take (length data) ?b = data"
      "drop (length data + 1) ?b = rest" "\<not> length ?b < length data + 1" by simp_all
    have "crc_valid (?h @ data @ crc8_sum (?h @ data))"
      using crc_valid_sum [of "?h @ data"] by simp
    moreover have "message search max_len ?h data = (t, take (max_len t) data, ts)"
      by (simp only: message_def Let_def fields assms(1) option.sel) (simp add: min_def)
    ultimately show ?thesis
      unfolding frames.simps(2) [of _ _ _ ?h ?b] Let_def fields t if_False by simp
  qed
  finally show ?thesis .
qed

section \<open>The parser implements the specification\<close>

abbreviation resync :: "u8 list \<Rightarrow> u8 list" where
  "resync bs \<equiv> dropWhile (\<lambda>b. b \<noteq> PACKET_PREFIX) bs"

definition srv_inv :: "(u32 \<Rightarrow> 't option) \<Rightarrow> 't server \<Rightarrow> bool" where
  "srv_inv search s \<longleftrightarrow> byte_queue (srv_queue s) \<and> length (parse_buff s) = bq_length (srv_queue s) \<and>
     PACK_BASE_SIZE < bq_length (srv_queue s) \<and> crc_ok 0x8c (srv_crc s) \<and>
     (srv_status s = WAIT_TOPIC \<longrightarrow> (\<exists>bs. q_bytes (srv_queue s) = PACKET_PREFIX # bs)) \<and>
     (srv_status s = WAIT_DATA_CRC \<longrightarrow> (let h = take HEADER_SIZE (parse_buff s)
       in header_ok search (bq_length (srv_queue s)) h \<and> srv_data_len s = unat (header_len h) \<and>
         current_topic s = search (header_name h) \<and> current_timestamp s = header_timestamp h))"

text \<open>The header whose body is awaited.\<close>

definition awaiting :: "'t server \<Rightarrow> u8 list option" where
  "awaiting s = (if srv_status s = WAIT_DATA_CRC then Some (take HEADER_SIZE (parse_buff s)) else None)"

abbreviation srv_bytes :: "'t server \<Rightarrow> u8 list" where
  "srv_bytes s \<equiv> q_bytes (srv_queue s)"

lemma crc8_verify_prefix:
  assumes "crc_ok 0x8c st" "2 \<le> n" "n \<le> length raw"
  shows "crc8_verify st raw n = Some (crc8_ready st, crc_valid (take n raw))"
proof -
  have "take n raw = take (n - 1) raw @ [raw ! (n - 1)]"
    using assms(2,3) take_Suc_conv_app_nth [of "n - 1" raw] by simp
  then have "crc_valid (take n raw) \<longleftrightarrow> crc_ref 0x8c 0xFF (take (n - 1) raw) = raw ! (n - 1)"
    by (simp add: crc_valid_def crc8_sum_def)
  then show ?thesis
    using assms by (simp add: crc8_verify_def Let_def crc8_calculate_eq)
qed

lemma sync_loop_spec:
  "byte_queue (srv_queue s) \<Longrightarrow> n = length (srv_bytes s) \<Longrightarrow>
   \<exists>q. sync_loop n s = Some (s\<lparr>srv_queue := q,
      srv_status := if resync (srv_bytes s) = [] then srv_status s else WAIT_TOPIC\<rparr>,
      resync (srv_bytes s) \<noteq> []) \<and>
    byte_queue q \<and> q_bytes q = resync (srv_bytes s) \<and> bq_length q = bq_length (srv_queue s)"
proof (induction n arbitrary: s)
  case 0
  then show ?case by (intro exI [of _ "srv_queue s"]) simp
next
  case (Suc n)
  then obtain b bs where b: "srv_bytes s = b # bs" by (cases "srv_bytes s") auto
  have peek: "bq_peek (srv_queue s) [0] = Some (OK, [b])"
    by (rule bq_bytes.peek_front [OF Suc.prems(1) b])
  show ?case
  proof (cases "b = PACKET_PREFIX")
    case True
    then show ?thesis using Suc.prems b peek by (intro exI [of _ "srv_queue s"]) simp
  next
    case False
    from bq_bytes.skip_front [OF Suc.prems(1) b] obtain q where
      q: "bq_pop (srv_queue s) None = Some (q, OK, None)" "byte_queue q" "q_bytes q = bs"
        "bq_length q = bq_length (srv_queue s)" by blast
    from Suc.IH [of "s\<lparr>srv_queue := q\<rparr>"] q Suc.prems(2) b
    show ?thesis using False peek by auto
  qed
qed

lemma sync_spec:
  assumes inv: "srv_inv search s" and st: "srv_status s = WAIT_START"
  defines "w \<equiv> dropWhile (\<lambda>b. b \<noteq> PACKET_PREFIX) (srv_bytes s)"
  shows "\<exists>s1. sync_to_packet_start s = Some (s1, w \<noteq> []) \<and> srv_inv search s1 \<and> srv_bytes s1 = w \<and>
    srv_status s1 = (if w = [] then WAIT_START else WAIT_TOPIC) \<and>
    bq_length (srv_queue s1) = bq_length (srv_queue s)"
proof -
  have q: "byte_queue (srv_queue s)" using inv by (simp add: srv_inv_def)
  have "w \<noteq> [] \<Longrightarrow> \<exists>bs. w = PACKET_PREFIX # bs"
    unfolding w_def by (metis (mono_tags, lifting) hd_dropWhile list.collapse)
  then show ?thesis
    using sync_loop_spec [OF q refl] inv st bq_bytes.count_eq [OF q]
    unfolding sync_to_packet_start_def w_def [symmetric] by (auto simp: srv_inv_def)
qed

lemma read_header_spec:
  assumes inv: "srv_inv search s" and st: "srv_status s = WAIT_TOPIC"
    and len: "HEADER_SIZE \<le> length (srv_bytes s)"
  defines "h \<equiv> take HEADER_SIZE (srv_bytes s)"
  shows "\<exists>s1. read_header search s = Some (s1, True) \<and> srv_inv search s1 \<and>
    srv_bytes s1 = drop HEADER_SIZE (srv_bytes s) \<and>
    awaiting s1 = (if header_ok search (bq_length (srv_queue s)) h then Some h else None) \<and>
    srv_status s1 = (if header_ok search (bq_length (srv_queue s)) h then WAIT_DATA_CRC else WAIT_START) \<and>
    bq_length (srv_queue s1) = bq_length (srv_queue s)"
proof -
  have q: "byte_queue (srv_queue s)" and c: "crc_ok 0x8c (srv_crc s)"
    and b: "length (parse_buff s) = bq_length (srv_queue s)" "PACK_BASE_SIZE < bq_length (srv_queue s)"
    using inv by (simp_all add: srv_inv_def)
  have hl: "HEADER_SIZE \<le> length (parse_buff s)" "0 < HEADER_SIZE" "2 \<le> HEADER_SIZE"
    using b by (simp_all add: packet_sizes)
  from bq_bytes.pop_front [OF q hl(2) len hl(1)] obtain q' where
    q': "bq_pop_batch (srv_queue s) (Some (parse_buff s)) HEADER_SIZE =
      Some (q', OK, Some (h @ drop HEADER_SIZE (parse_buff s)))" "byte_queue q'"
      "q_bytes q' = drop HEADER_SIZE (srv_bytes s)" "bq_length q' = bq_length (srv_queue s)"
    unfolding h_def by blast
  let ?b = "h @ drop HEADER_SIZE (parse_buff s)"
  have h: "length h = HEADER_SIZE" "take HEADER_SIZE ?b = h" using len by (simp_all add: h_def)
  have fields: "header_name ?b = header_name h" "header_len ?b = header_len h"
    "header_timestamp ?b = header_timestamp h"
    using h(1) by (simp_all add: header_name_def header_len_def header_timestamp_def packet_sizes)
  have crc: "crc8_verify (srv_crc s) ?b HEADER_SIZE = Some (crc8_ready (srv_crc s), crc_valid h)"
    using crc8_verify_prefix [OF c hl(3), of ?b] h by simp
  have sz: "\<not> bq_size (srv_queue s) < HEADER_SIZE" using len bq_bytes.count_eq [OF q] by simp
  have "HEADER_SIZE + (bq_length (srv_queue s) - HEADER_SIZE) = bq_length (srv_queue s)"
    using hl b by simp
  then show ?thesis
    using q' crc sz fields h b c
    by (cases "search (header_name h)")
      (auto simp: read_header_def reset_parser_def srv_inv_def awaiting_def header_ok_def Let_def
        min_absorb2 hl)
qed

lemma read_payload_spec:
  assumes inv: "srv_inv search s" and st: "srv_status s = WAIT_DATA_CRC"
  defines "h \<equiv> take HEADER_SIZE (parse_buff s)"
  defines "n \<equiv> unat (header_len h)"
  assumes len: "n + 1 \<le> length (srv_bytes s)"
  shows "\<exists>s1. read_payload max_len s = Some (s1,
      if crc_valid (h @ take (n + 1) (srv_bytes s))
      then DELIVERED (message search max_len h (take n (srv_bytes s))) else DROPPED) \<and>
    srv_inv search s1 \<and> srv_bytes s1 = drop (n + 1) (srv_bytes s) \<and>
    srv_status s1 = WAIT_START \<and> bq_length (srv_queue s1) = bq_length (srv_queue s)"
proof -
  have q: "byte_queue (srv_queue s)" and c: "crc_ok 0x8c (srv_crc s)"
    and b: "length (parse_buff s) = bq_length (srv_queue s)" "PACK_BASE_SIZE < bq_length (srv_queue s)"
    and ok: "header_ok search (bq_length (srv_queue s)) h" "srv_data_len s = n"
      "current_topic s = search (header_name h)" "current_timestamp s = header_timestamp h"
    using inv st by (simp_all add: srv_inv_def Let_def h_def n_def)
  obtain t where t: "search (header_name h) = Some t" using ok(1) by (auto simp: header_ok_def)
  have room: "n + 1 \<le> length (drop HEADER_SIZE (parse_buff s))" "n + HEADER_SIZE + 1 \<le> length (parse_buff s)"
  proof -
    have "n + 18 \<le> length (parse_buff s)" using ok(1) b(1) by (simp add: header_ok_def packet_sizes n_def)
    then show "n + 1 \<le> length (drop HEADER_SIZE (parse_buff s))"
      "n + HEADER_SIZE + 1 \<le> length (parse_buff s)" by (simp_all add: packet_sizes)
  qed
  from bq_bytes.pop_front [OF q _ len room(1)] obtain q' where
    q': "bq_pop_batch (srv_queue s) (Some (drop HEADER_SIZE (parse_buff s))) (n + 1) =
      Some (q', OK, Some (take (n + 1) (srv_bytes s) @ drop (n + 1) (drop HEADER_SIZE (parse_buff s))))"
      "byte_queue q'" "q_bytes q' = drop (n + 1) (srv_bytes s)" "bq_length q' = bq_length (srv_queue s)"
    by auto
  let ?tail = "take (n + 1) (srv_bytes s) @ drop (n + 1) (drop HEADER_SIZE (parse_buff s))"
  let ?b = "h @ ?tail"
  have h: "length h = HEADER_SIZE" using b by (simp add: h_def packet_sizes)
  have lb: "length ?b = length (parse_buff s)" using h room len by simp
  have tb: "take (n + HEADER_SIZE + 1) ?b = h @ take (n + 1) (srv_bytes s)" using h len by simp
  have crc: "crc8_verify (srv_crc s) ?b (n + HEADER_SIZE + 1) =
      Some (crc8_ready (srv_crc s), crc_valid (h @ take (n + 1) (srv_bytes s)))"
    using crc8_verify_prefix [OF c, of "n + HEADER_SIZE + 1" ?b] room(2) lb tb by (simp add: packet_sizes)
  have data: "take (if max_len t < n then max_len t else n) (drop HEADER_SIZE ?b) =
      take (min n (max_len t)) (take n (srv_bytes s))"
    using h len by (auto simp: min_def)
  have sz: "\<not> bq_size (srv_queue s) < n + 1" using len bq_bytes.count_eq [OF q] by simp
  show ?thesis
    using q' crc sz ok t b c lb data h
    by (auto simp: read_payload_def reset_parser_def srv_inv_def Let_def message_def n_def [symmetric]
        h_def [symmetric] simp del: append_assoc)
qed


text \<open>What one call of the loop establishes.\<close>

definition parses :: "nat \<Rightarrow> (u32 \<Rightarrow> 't option) \<Rightarrow> ('t \<Rightarrow> nat) \<Rightarrow> 't server \<Rightarrow> bool" where
  "parses fuel search max_len s \<longleftrightarrow> (\<exists>s' ds. parse_loop fuel search max_len s = Some (s', ds) \<and>
     srv_inv search s' \<and> bq_length (srv_queue s') = bq_length (srv_queue s) \<and>
     frames search max_len (bq_length (srv_queue s)) (awaiting s) (srv_bytes s) =
       (ds, awaiting s', srv_bytes s'))"

lemma parses_data:
  assumes inv: "srv_inv search s" and st: "srv_status s = WAIT_DATA_CRC"
    and len: "length (srv_bytes s) < Suc fuel"
    and IH: "\<And>s1 :: 't server. srv_inv search s1 \<Longrightarrow> length (srv_bytes s1) < fuel \<Longrightarrow> parses fuel search max_len s1"
  shows "parses (Suc fuel) search max_len (s :: 't server)"
proof -
  let ?h = "take HEADER_SIZE (parse_buff s)"
  let ?n = "unat (header_len ?h)"
  have aw: "awaiting s = Some ?h" using st by (simp add: awaiting_def)
  show ?thesis
  proof (cases "?n + 1 \<le> length (srv_bytes s)")
    case False
    moreover have "srv_data_len s = ?n" "bq_size (srv_queue s) = length (srv_bytes s)"
      using inv st bq_bytes.count_eq [of "srv_queue s"] by (simp_all add: srv_inv_def Let_def)
    ultimately show ?thesis
      using st inv aw by (simp add: parses_def read_payload_def frames.simps Let_def)
  next
    case True
    from read_payload_spec [OF inv st True, of max_len] obtain s1 where
      s1: "read_payload max_len s = Some (s1, if crc_valid (?h @ take (?n + 1) (srv_bytes s))
          then DELIVERED (message search max_len ?h (take ?n (srv_bytes s))) else DROPPED)"
        "srv_inv search s1" "srv_bytes s1 = drop (?n + 1) (srv_bytes s)" "srv_status s1 = WAIT_START"
        "bq_length (srv_queue s1) = bq_length (srv_queue s)" by blast
    have "parses fuel search max_len s1" using s1(2,3) len True by (intro IH) auto
    then obtain s' ds where s': "parse_loop fuel search max_len s1 = Some (s', ds)" "srv_inv search s'"
      "bq_length (srv_queue s') = bq_length (srv_queue s)"
      "frames search max_len (bq_length (srv_queue s)) None (drop (?n + 1) (srv_bytes s)) =
        (ds, awaiting s', srv_bytes s')"
      using s1 by (auto simp: parses_def awaiting_def)
    then show ?thesis
      using st s1(1) aw True
      by (cases "crc_valid (?h @ take (?n + 1) (srv_bytes s))")
        (simp_all add: parses_def frames.simps(2) [of _ _ _ ?h] Let_def)
  qed
qed

lemma parses_topic:
  assumes inv: "srv_inv search s" and st: "srv_status s = WAIT_TOPIC"
    and len: "length (srv_bytes s) < Suc fuel"
    and IH: "\<And>s1 :: 't server. srv_inv search s1 \<Longrightarrow> length (srv_bytes s1) < fuel \<Longrightarrow> parses fuel search max_len s1"
  shows "parses (Suc fuel) search max_len (s :: 't server)"
proof -
  let ?h = "take HEADER_SIZE (srv_bytes s)" and ?cp = "bq_length (srv_queue s)"
  have aw: "awaiting s = None" using st by (simp add: awaiting_def)
  have sync: "resync (srv_bytes s) = srv_bytes s" using inv st by (auto simp: srv_inv_def)
  show ?thesis
  proof (cases "HEADER_SIZE \<le> length (srv_bytes s)")
    case False
    moreover have "bq_size (srv_queue s) = length (srv_bytes s)"
      using inv bq_bytes.count_eq [of "srv_queue s"] by (simp add: srv_inv_def)
    ultimately show ?thesis
      using st inv aw sync by (simp add: parses_def read_header_def frames.simps Let_def)
  next
    case True
    from read_header_spec [OF inv st True] obtain s1 where
      s1: "read_header search s = Some (s1, True)" "srv_inv search s1"
        "srv_bytes s1 = drop HEADER_SIZE (srv_bytes s)"
        "awaiting s1 = (if header_ok search ?cp ?h then Some ?h else None)"
        "srv_status s1 = (if header_ok search ?cp ?h then WAIT_DATA_CRC else WAIT_START)"
        "bq_length (srv_queue s1) = ?cp" by blast
    have short: "length (srv_bytes s1) < fuel"
      using s1(3) len True by (simp add: HEADER_SIZE_def)
    have fr: "frames search max_len ?cp (awaiting s) (srv_bytes s) =
        frames search max_len ?cp (awaiting s1) (srv_bytes s1)"
      unfolding aw s1(3,4) frames.simps(1) [of _ _ _ "srv_bytes s"] Let_def sync using True by simp
    show ?thesis
    proof (cases "header_ok search ?cp ?h")
      case ok: True
      have "parse_loop (Suc fuel) search max_len s = parse_loop (Suc fuel) search max_len s1"
        using st s1(1,5) ok by simp
      moreover have "parses (Suc fuel) search max_len s1"
        using parses_data [OF s1(2) _ _ IH] s1(5) ok short by simp
      ultimately show ?thesis using fr s1(6) unfolding parses_def by simp
    next
      case bad: False
      have "parse_loop (Suc fuel) search max_len s = parse_loop fuel search max_len s1"
        using st s1(1,5) bad by simp
      moreover have "parses fuel search max_len s1" using IH s1(2) short by blast
      ultimately show ?thesis using fr s1(6) unfolding parses_def by simp
    qed
  qed
qed

lemma parse_loop_spec:
  "srv_inv search s \<Longrightarrow> length (srv_bytes s) < fuel \<Longrightarrow> parses fuel search max_len (s :: 't server)"
proof (induction fuel arbitrary: s)
  case (Suc fuel)
  note IH = Suc.IH
  show ?case
  proof (cases "srv_status s")
    case WAIT_DATA_CRC
    then show ?thesis using parses_data [OF Suc.prems(1) _ Suc.prems(2) IH] by simp
  next
    case WAIT_TOPIC
    then show ?thesis using parses_topic [OF Suc.prems(1) _ Suc.prems(2) IH] by simp
  next
    case st: WAIT_START
    let ?w = "resync (srv_bytes s)"
    from sync_spec [OF Suc.prems(1) st] obtain s1 where
      s1: "sync_to_packet_start s = Some (s1, ?w \<noteq> [])" "srv_inv search s1" "srv_bytes s1 = ?w"
        "srv_status s1 = (if ?w = [] then WAIT_START else WAIT_TOPIC)"
        "bq_length (srv_queue s1) = bq_length (srv_queue s)" by blast
    have aw: "awaiting s = None" "awaiting s1 = None" using st s1(4) by (simp_all add: awaiting_def)
    have fr: "frames search max_len cp None (srv_bytes s) = frames search max_len cp None ?w" for cp
      by (simp add: frames.simps(1) [of _ _ _ "srv_bytes s"] frames.simps(1) [of _ _ _ ?w] Let_def)
    show ?thesis
    proof (cases "?w = []")
      case True
      have "frames search max_len cp None [] = ([], None, [])" for cp
        by (simp add: frames.simps(1) Let_def HEADER_SIZE_def)
      then have "frames search max_len cp None (srv_bytes s) = ([], None, [])" for cp
        unfolding fr True by blast
      then show ?thesis using st s1(1,2,5) s1(3) [unfolded True] aw True by (simp add: parses_def)
    next
      case False
      then have "sync_to_packet_start s = Some (s1, True)" "srv_status s1 = WAIT_TOPIC" using s1(1,4) by presburger+
      then have "parse_loop (Suc fuel) search max_len s = parse_loop (Suc fuel) search max_len s1"
        using st by simp
      moreover have "length (srv_bytes s1) < Suc fuel"
        using s1(3) Suc.prems(2) length_dropWhile_le [of "\<lambda>b. b \<noteq> PACKET_PREFIX" "srv_bytes s"] by simp
      then have "parses (Suc fuel) search max_len s1"
        using parses_topic [OF s1(2) _ _ IH] s1(4) False by simp
      ultimately show ?thesis using fr aw s1(3,5) unfolding parses_def by simp
    qed
  qed
qed simp

section \<open>The properties of the parser\<close>

lemma parse_data_raw_spec:
  assumes inv: "srv_inv search s" and ne: "data \<noteq> []" and fuel: "bq_length (srv_queue s) < fuel"
  defines "cp \<equiv> bq_length (srv_queue s)"
  defines "stream \<equiv> srv_bytes s @ (if length (srv_bytes s) + length data \<le> cp then data else [])"
  shows "\<exists>s' ds. parse_data_raw fuel search max_len s data = Some (s', ds) \<and> srv_inv search s' \<and>
    bq_length (srv_queue s') = cp \<and>
    frames search max_len cp (awaiting s) stream = (ds, awaiting s', srv_bytes s')"
proof -
  have q: "byte_queue (srv_queue s)" using inv by (simp add: srv_inv_def)
  have "\<exists>q ec. bq_push_batch (srv_queue s) data (length data) = Some (q, ec) \<and> byte_queue q \<and>
      q_bytes q = stream \<and> bq_length q = cp"
  proof (cases "length (srv_bytes s) + length data \<le> cp")
    case True
    from bq_bytes.push_room [OF q ne True [unfolded cp_def]] True show ?thesis
      by (auto simp: stream_def cp_def)
  next
    case False
    then show ?thesis using bq_bytes.push_full [OF q, of data] q by (simp add: stream_def cp_def)
  qed
  then obtain q' ec where q': "bq_push_batch (srv_queue s) data (length data) = Some (q', ec)"
    "byte_queue q'" "q_bytes q' = stream" "bq_length q' = cp" by blast
  let ?s = "s\<lparr>srv_queue := q'\<rparr>"
  have "\<exists>ys. stream = PACKET_PREFIX # ys" if "srv_status s = WAIT_TOPIC"
    using that inv by (auto simp: srv_inv_def stream_def)
  then have inv': "srv_inv search ?s"
    using inv q'(2,4) by (simp add: srv_inv_def Let_def cp_def q'(3))
  have short: "length (srv_bytes ?s) < fuel"
    using bq_bytes.count_le [OF q'(2)] q'(4) fuel by (simp add: cp_def)
  have "awaiting ?s = awaiting s" by (simp add: awaiting_def)
  then show ?thesis
    using parse_loop_spec [OF inv' short, of max_len] q'
    by (auto simp: parses_def parse_data_raw_def)
qed

lemma server_new_inv:
  assumes "server_new n fresh_queue fresh_buff st = Some s" "length fresh_queue = n"
    "length fresh_buff = n" "crc_ok 0x8c st"
  shows "srv_inv search s" "awaiting s = None" "srv_bytes s = []" "bq_length (srv_queue s) = n"
proof -
  have s: "s = \<lparr>srv_status = WAIT_START, srv_data_len = 0,
        srv_queue = base_queue_new 1 n fresh_queue, parse_buff = fresh_buff,
        current_topic = None, current_timestamp = 0, srv_crc = st\<rparr>" and n: "PACK_BASE_SIZE < n"
    using assms(1) by (auto simp: server_new_def split: if_splits)
  then show "srv_inv search s"
    using wf_new(2) [of n fresh_queue 1] assms(2-4) n
    by (simp add: srv_inv_def byte_queue_def) (simp add: base_queue_new_def)
  show "awaiting s = None" "srv_bytes s = []" "bq_length (srv_queue s) = n"
    using wf_new(4) [of n fresh_queue 1] assms(2) n
    by (simp_all add: s awaiting_def q_bytes_def) (simp_all add: base_queue_new_def)
qed

text \<open>A server fresh from the constructor, for the witnesses.\<close>

definition example_server :: "nat \<Rightarrow> string server" where
  "example_server n = the (server_new n (replicate n 0) (replicate n 0) crc_fresh)"

lemma example_server:
  assumes "PACK_BASE_SIZE < n"
  shows "srv_inv search (example_server n)" "awaiting (example_server n) = None"
    "srv_bytes (example_server n) = []" "bq_length (srv_queue (example_server n)) = n"
proof -
  have "server_new n (replicate n 0) (replicate n 0) crc_fresh = Some (example_server n)"
    using assms by (simp add: example_server_def server_new_def)
  note new = server_new_inv [OF this]
  show "srv_inv search (example_server n)" "awaiting (example_server n) = None"
    "srv_bytes (example_server n) = []" "bq_length (srv_queue (example_server n)) = n"
    using new by simp_all
qed

text \<open>C28: \<open>ParseDataRaw\<close> always returns: one unit of fuel per byte of the queue and one more are
  enough for its \<open>while (true)\<close> loop. Its publications are the messages of the
  specification \<open>frames\<close> in the stream of the buffered and the new bytes, the parser keeps
  exactly the bytes and the header that the specification leaves, and a batch that does not fit
  the queue is dropped as a whole.\<close>

theorem parser_refines_frames:
  assumes "srv_inv search s" and "data \<noteq> []" and "bq_length (srv_queue s) < fuel"
  shows "\<exists>s' ds. parse_data_raw fuel search max_len s data = Some (s', ds) \<and> srv_inv search s' \<and>
    bq_length (srv_queue s') = bq_length (srv_queue s) \<and>
    frames search max_len (bq_length (srv_queue s)) (awaiting s)
      (srv_bytes s @ (if length (srv_bytes s) + length data \<le> bq_length (srv_queue s) then data else [])) =
      (ds, awaiting s', srv_bytes s')"
  using parse_data_raw_spec [OF assms] by blast

theorem parser_refines_frames_witness:
  "\<exists>s' ds. parse_data_raw 25 (\<lambda>k. if k = 7 then Some ''imu'' else None) (\<lambda>_. 4) (example_server 24) [1, 0x5A, 2] =
      Some (s', ds) \<and> srv_bytes s' = [0x5A, 2]"
proof -
  have "srv_bytes (example_server 24) = []" "awaiting (example_server 24) = None"
    "bq_length (srv_queue (example_server 24)) = 24"
    using example_server [of 24] by (simp_all add: packet_sizes)
  moreover have "frames search ml 24 None [1, 0x5A, 2] = ([], None, [0x5A, 2])"
    for search :: "u32 \<Rightarrow> string option" and ml
    by (simp add: frames.simps(1) Let_def PACKET_PREFIX_def HEADER_SIZE_def)
  ultimately show ?thesis
    using parser_refines_frames [of "\<lambda>k. if k = 7 then Some ''imu'' else None" "example_server 24"
      "[1, 0x5A, 2]" 25 "\<lambda>_. 4"] example_server(1) [of 24]
    by (auto simp: packet_sizes)
qed

text \<open>C29: feeding a stream in two batches publishes the same messages, and leaves the parser with
  the same buffered bytes, as feeding it in one batch, as long as the batches fit the queue.\<close>

theorem parser_chunking_invariant:
  assumes "srv_inv search s" and "data1 \<noteq> []" and "data2 \<noteq> []" and "bq_length (srv_queue s) < fuel"
    and "length (srv_bytes s) + length data1 + length data2 \<le> bq_length (srv_queue s)"
  shows "\<exists>s1 s2 s3 ds1 ds2. parse_data_raw fuel search max_len s data1 = Some (s1, ds1) \<and>
    parse_data_raw fuel search max_len s1 data2 = Some (s2, ds2) \<and>
    parse_data_raw fuel search max_len s (data1 @ data2) = Some (s3, ds1 @ ds2) \<and>
    awaiting s3 = awaiting s2 \<and> srv_bytes s3 = srv_bytes s2"
proof -
  let ?cp = "bq_length (srv_queue s)" and ?b = "srv_bytes s"
  let ?F = "frames search max_len ?cp"
  from parse_data_raw_spec [OF assms(1,2,4), of max_len] assms(5) obtain s1 ds1 where
    s1: "parse_data_raw fuel search max_len s data1 = Some (s1, ds1)" "srv_inv search s1"
      "bq_length (srv_queue s1) = ?cp" "?F (awaiting s) (?b @ data1) = (ds1, awaiting s1, srv_bytes s1)"
    by auto
  have "length (srv_bytes s1) \<le> length (?b @ data1)"
    using frames_shrinks [of search max_len ?cp "awaiting s" "?b @ data1"] s1(4) by simp
  with parse_data_raw_spec [OF s1(2) assms(3), of fuel max_len] assms(4,5) s1(3) obtain s2 ds2 where
    s2: "parse_data_raw fuel search max_len s1 data2 = Some (s2, ds2)"
      "?F (awaiting s1) (srv_bytes s1 @ data2) = (ds2, awaiting s2, srv_bytes s2)"
    by auto
  from parse_data_raw_spec [OF assms(1) _ assms(4), of "data1 @ data2" max_len] assms(2,5) obtain s3 ds3 where
    s3: "parse_data_raw fuel search max_len s (data1 @ data2) = Some (s3, ds3)"
      "?F (awaiting s) ((?b @ data1) @ data2) = (ds3, awaiting s3, srv_bytes s3)"
    by auto
  then show ?thesis
    using s1(1,4) s2 frames_append [of search max_len ?cp "awaiting s" "?b @ data1" data2] by auto
qed

theorem parser_chunking_invariant_witness:
  "\<exists>s1 s2 s3 ds1 ds2. parse_data_raw 25 (\<lambda>_. Some ''imu'') (\<lambda>_. 4) (example_server 24) [0x5A] = Some (s1, ds1) \<and>
    parse_data_raw 25 (\<lambda>_. Some ''imu'') (\<lambda>_. 4) s1 [2, 3] = Some (s2, ds2) \<and>
    parse_data_raw 25 (\<lambda>_. Some ''imu'') (\<lambda>_. 4) (example_server 24) ([0x5A] @ [2, 3]) = Some (s3, ds1 @ ds2) \<and>
    awaiting s3 = awaiting s2 \<and> srv_bytes s3 = srv_bytes s2"
  by (rule parser_chunking_invariant) (simp_all add: example_server packet_sizes)

text \<open>What \<open>PackData\<close> writes, the parser delivers: a packet for a registered topic that fits the
  queue is published with its payload (cut to the topic's length) and its time stamp, even after
  line noise without a prefix byte, and the parser is ready for the next packet.\<close>

theorem packed_data_is_delivered:
  assumes "srv_inv search s" and "srv_status s = WAIT_START" and "srv_bytes s = []"
    and "search name = Some t" and "crc_ok 0x8c st"
    and "PACK_BASE_SIZE + length data = length buffer"
    and "length data < 2 ^ 24" and "PACKET_PREFIX \<notin> set noise"
    and "length noise + length buffer \<le> bq_length (srv_queue s)" and "bq_length (srv_queue s) < fuel"
  shows "\<exists>st' p s'. pack_data st name buffer ts data = Some (st', p) \<and>
    parse_data_raw fuel search max_len s (noise @ p) = Some (s', [(t, take (max_len t) data, ts)]) \<and>
    srv_status s' \<noteq> WAIT_DATA_CRC \<and> srv_bytes s' = []"
proof -
  obtain st' where st': "pack_data st name buffer ts data = Some (st', packet name ts data)"
    using pack_data_eq [OF assms(5), of data buffer name ts] assms(6) by auto
  let ?d = "noise @ packet name ts data"
  have empty: "frames search max_len cp None [] = ([], None, [])" for cp
    by (simp add: frames.simps(1) Let_def HEADER_SIZE_def)
  have "frames search max_len (bq_length (srv_queue s)) None (noise @ packet name ts data @ []) =
      ([(t, take (max_len t) data, ts)], None, [])"
    using frames_packet [of search name t data "bq_length (srv_queue s)" noise max_len ts "[]"] assms(4,6-9)
    by (simp add: empty)
  moreover have "?d \<noteq> []" by (metis append_is_Nil_conv length_packet length_0_conv packet_sizes add_is_0 zero_neq_numeral)
  moreover have "length ?d \<le> bq_length (srv_queue s)" using assms(6,9) by simp
  moreover have "awaiting s = None" using assms(2) by (simp add: awaiting_def)
  ultimately obtain s' where "parse_data_raw fuel search max_len s ?d =
      Some (s', [(t, take (max_len t) data, ts)])" "awaiting s' = None" "srv_bytes s' = []"
    using parse_data_raw_spec [OF assms(1) _ assms(10), of ?d max_len] assms(3) by auto
  then show ?thesis using st' by (auto simp: awaiting_def split: if_splits)
qed

theorem packed_data_is_delivered_witness:
  "\<exists>st' p s'. pack_data crc_fresh 7 (replicate 20 0) 99 [1, 2] = Some (st', p) \<and>
    parse_data_raw 25 (\<lambda>k. if k = 7 then Some ''imu'' else None) (\<lambda>_. 4) (example_server 24) ([0, 1] @ p) =
      Some (s', [(''imu'', [1, 2], 99)]) \<and> srv_bytes s' = []"
  using packed_data_is_delivered [where s = "example_server 24" and name = 7 and buffer = "replicate 20 0"
      and data = "[1, 2]" and noise = "[0, 1]" and st = crc_fresh and ts = 99 and fuel = 25
      and search = "\<lambda>k. if k = 7 then Some ''imu'' else None" and max_len = "\<lambda>_. 4"]
    example_server [of 24]
  by (auto simp: packet_sizes PACKET_PREFIX_def example_server_def server_new_def)

text \<open>C31: the parser publishes nothing but packets of the stream: every publication is the message of
  a header and a body that stand one after the other in the stream, both with the right check sum,
  for a registered topic.\<close>

theorem deliveries_are_packets:
  assumes "srv_inv search s" and "data \<noteq> []" and "bq_length (srv_queue s) < fuel"
    and "parse_data_raw fuel search max_len s data = Some (s', ds)" and "d \<in> set ds"
  shows "\<exists>pre h body post. (case awaiting s of None \<Rightarrow> [] | Some h \<Rightarrow> h) @ srv_bytes s @ data =
      pre @ h @ body @ post \<and> length h = HEADER_SIZE \<and> crc_valid h \<and> crc_valid (h @ body) \<and>
    length body = unat (header_len h) + 1 \<and> search (header_name h) = Some (fst d) \<and>
    d = message search max_len h (butlast body)"
proof -
  let ?cp = "bq_length (srv_queue s)"
  let ?data = "if length (srv_bytes s) + length data \<le> ?cp then data else []"
  have fr: "frames search max_len ?cp (awaiting s) (srv_bytes s @ ?data) = (ds, awaiting s', srv_bytes s')"
    using parse_data_raw_spec [OF assms(1-3), of max_len] assms(4) by auto
  have aw: "awaiting s = Some h \<Longrightarrow> header_ok search ?cp h \<and> length h = HEADER_SIZE" for h
    using assms(1) by (auto simp: awaiting_def srv_inv_def Let_def packet_sizes split: if_splits)
  from frames_sound [OF fr aw assms(5)] obtain pre h body post where
    "(case awaiting s of None \<Rightarrow> [] | Some h \<Rightarrow> h) @ srv_bytes s @ ?data = pre @ h @ body @ post"
    "length h = HEADER_SIZE" "header_ok search ?cp h" "crc_valid (h @ body)"
    "length body = unat (header_len h) + 1" "d = message search max_len h (butlast body)" by blast
  then show ?thesis
    by (intro exI [of _ pre] exI [of _ h] exI [of _ body]
        exI [of _ "if length (srv_bytes s) + length data \<le> ?cp then post else post @ data"])
      (auto simp: header_ok_def message_def Let_def split: if_splits)
qed

theorem deliveries_are_packets_witness:
  "\<exists>pre h body post. packet 7 99 [1, 2] = pre @ h @ body @ post \<and> crc_valid h \<and> crc_valid (h @ body)"
proof -
  let ?search = "\<lambda>k :: u32. if k = 7 then Some ''imu'' else None" and ?s = "example_server 24"
  have inv: "srv_inv ?search ?s" and aw: "awaiting ?s = None" and b: "srv_bytes ?s = []"
    and l: "bq_length (srv_queue ?s) = 24"
    using example_server [of 24] by (simp_all add: packet_sizes)
  have empty: "frames search max_len cp None [] = ([], None, [])" for search :: "u32 \<Rightarrow> string option" and max_len cp
    by (simp add: frames.simps(1) Let_def HEADER_SIZE_def)
  have fr: "frames ?search (\<lambda>_. 4) 24 None (packet 7 99 [1, 2]) = ([(''imu'', [1, 2], 99)], None, [])"
    using frames_packet [of ?search 7 "''imu''" "[1, 2]" 24 "[]" "\<lambda>_. 4" 99 "[]"] by (simp add: empty packet_sizes)
  have len: "length (packet 7 99 [1, 2]) = 20" by (simp add: packet_sizes)
  then have ne: "packet 7 99 [1, 2] \<noteq> []" by (metis list.size(3) zero_neq_numeral)
  from parse_data_raw_spec [OF inv ne, of 25 "\<lambda>_. 4"] aw b l fr len obtain s' where
    s': "parse_data_raw 25 ?search (\<lambda>_. 4) ?s (packet 7 99 [1, 2]) = Some (s', [(''imu'', [1, 2], 99)])"
    by auto
  from deliveries_are_packets [OF inv ne _ s', of "(''imu'', [1, 2], 99)"] aw b l show ?thesis by auto
qed

end
