(* ===== verification/Async_Operation.thy ===== *)
theory Async_Operation
  imports Prelude "HOL-Library.Monad_Syntax"
begin

text \<open>
  \<open>Operation\<close> and \<open>AsyncBlockWait\<close> of src/src/core/libxr_rw.hpp. The objects that an operation points
  to (semaphores, polling flags, callbacks) are addresses in an \<open>op_env\<close>. A semaphore is its count:
  \<open>Post\<close> adds one, \<open>Wait\<close> takes one when there is one; a \<open>Wait\<close> on a count of zero either
  goes on waiting or runs into its timeout, which is an event of its own. The memory is
  sequentially consistent, each step makes one access to a shared object. A failing \<open>ASSERT\<close> ends
  in the program point \<open>Fatal\<close>.
\<close>

section \<open>Operations\<close>

datatype operation_type = OP_CALLBACK nat | OP_BLOCK nat | OP_POLLING nat | OP_NONE

datatype polling_status = READY | RUNNING | DONE | POLL_ERROR

record op_env =
  sem_value :: "nat \<Rightarrow> nat"
  poll_status :: "nat \<Rightarrow> polling_status"
  callback_runs :: "(nat \<times> error_code) list"

fun is_block :: "operation_type \<Rightarrow> bool" where
  "is_block (OP_BLOCK s) = True"
| "is_block _ = False"

definition sem_post :: "nat \<Rightarrow> op_env \<Rightarrow> op_env" where
  "sem_post s env = env\<lparr>sem_value := (sem_value env)(s := sem_value env s + 1)\<rparr>"

definition sem_take :: "nat \<Rightarrow> op_env \<Rightarrow> op_env option" where
  "sem_take s env =
     (if sem_value env s > 0 then Some (env\<lparr>sem_value := (sem_value env)(s := sem_value env s - 1)\<rparr>)
      else None)"

fun update_status :: "operation_type \<Rightarrow> error_code \<Rightarrow> op_env \<Rightarrow> op_env" where
  "update_status (OP_CALLBACK c) status env = env\<lparr>callback_runs := callback_runs env @ [(c, status)]\<rparr>"
| "update_status (OP_BLOCK s) status env = sem_post s env"
| "update_status (OP_POLLING p) status env =
     env\<lparr>poll_status := (poll_status env)(p := if status = OK then DONE else POLL_ERROR)\<rparr>"
| "update_status OP_NONE status env = env"

fun mark_as_running :: "operation_type \<Rightarrow> op_env \<Rightarrow> op_env" where
  "mark_as_running (OP_POLLING p) env = env\<lparr>poll_status := (poll_status env)(p := RUNNING)\<rparr>"
| "mark_as_running _ env = env"

lemma sem_value_env [simp]:
  "sem_value (sem_post s env) = (sem_value env)(s := sem_value env s + 1)"
  "sem_value (mark_as_running op env) = sem_value env"
  "\<not> is_block op \<Longrightarrow> sem_value (update_status op ec env) = sem_value env"
proof -
  show "sem_value (sem_post s env) = (sem_value env)(s := sem_value env s + 1)" by (simp add: sem_post_def)
  show "sem_value (mark_as_running op env) = sem_value env" by (cases op) simp_all
  show "sem_value (update_status op ec env) = sem_value env" if "\<not> is_block op"
    using that by (cases op) simp_all
qed

lemma sem_take_Some:
  "sem_take s env = Some env' \<longleftrightarrow> 0 < sem_value env s \<and>
     env' = env\<lparr>sem_value := (sem_value env)(s := sem_value env s - 1)\<rparr>"
  by (auto simp: sem_take_def)

section \<open>AsyncBlockWait\<close>

datatype wait_state = W_IDLE | W_PENDING | W_CLAIMED | W_DETACHED

text \<open>The program points of the waiting call and of the completing \<open>TryPost\<close>.\<close>

datatype wait_pc = Wait_None | Wait_Sem | Wait_Release | Wait_Load | Wait_Cancel | Wait_Reopen |
  Wait_Drain | Wait_Ret error_code | Wait_Fatal

datatype post_pc = Post_None | Post_Cas error_code | Post_Clear error_code | Post_Result error_code |
  Post_Sem error_code | Post_Ret bool error_code | Post_Fatal

record block_wait =
  bw_state :: wait_state
  bw_result :: error_code
  bw_sem :: nat
  waiter :: wait_pc
  poster :: post_pc

definition block_wait_new :: block_wait where
  "block_wait_new = \<lparr>bw_state = W_IDLE, bw_result = OK, bw_sem = 0, waiter = Wait_None, poster = Post_None\<rparr>"

definition block_wait_start :: "block_wait \<Rightarrow> block_wait" where
  "block_wait_start s = s\<lparr>bw_result := OK, bw_state := W_PENDING\<rparr>"

definition block_wait_cancel :: "block_wait \<Rightarrow> block_wait" where
  "block_wait_cancel s = s\<lparr>bw_state := W_IDLE\<rparr>"

text \<open>\<open>Wait\<close>; the argument tells a semaphore wait whether it runs into its timeout.\<close>

fun block_wait_step :: "bool \<Rightarrow> block_wait \<Rightarrow> block_wait option" where
  "block_wait_step timeout s = (case waiter s of
     Wait_Sem \<Rightarrow>
       if timeout then Some (s\<lparr>waiter := Wait_Cancel\<rparr>)
       else if bw_sem s > 0 then Some (s\<lparr>bw_sem := bw_sem s - 1, waiter := Wait_Release\<rparr>)
       else None
   | Wait_Release \<Rightarrow>
       if bw_state s = W_CLAIMED then Some (s\<lparr>bw_state := W_IDLE, waiter := Wait_Load\<rparr>)
       else Some (s\<lparr>waiter := Wait_Fatal\<rparr>)
   | Wait_Load \<Rightarrow> Some (s\<lparr>waiter := Wait_Ret (bw_result s)\<rparr>)
   | Wait_Cancel \<Rightarrow>
       (case bw_state s of
          W_PENDING \<Rightarrow> Some (s\<lparr>bw_state := W_DETACHED, waiter := Wait_Ret TIMEOUT\<rparr>)
        | W_DETACHED \<Rightarrow> Some (s\<lparr>waiter := Wait_Reopen\<rparr>)
        | W_IDLE \<Rightarrow> Some (s\<lparr>waiter := Wait_Ret TIMEOUT\<rparr>)
        | W_CLAIMED \<Rightarrow> Some (s\<lparr>waiter := Wait_Drain\<rparr>))
   | Wait_Reopen \<Rightarrow> Some (s\<lparr>bw_state := W_IDLE, waiter := Wait_Ret TIMEOUT\<rparr>)
   | Wait_Drain \<Rightarrow>
       if bw_sem s > 0 then Some (s\<lparr>bw_sem := bw_sem s - 1, bw_state := W_IDLE, waiter := Wait_Load\<rparr>)
       else None
   | _ \<Rightarrow> None)"

fun try_post_step :: "block_wait \<Rightarrow> block_wait option" where
  "try_post_step s = (case poster s of
     Post_Cas ec \<Rightarrow>
       (case bw_state s of
          W_PENDING \<Rightarrow> Some (s\<lparr>bw_state := W_CLAIMED, poster := Post_Result ec\<rparr>)
        | W_DETACHED \<Rightarrow> Some (s\<lparr>poster := Post_Clear ec\<rparr>)
        | W_IDLE \<Rightarrow> Some (s\<lparr>poster := Post_Ret False ec\<rparr>)
        | W_CLAIMED \<Rightarrow> Some (s\<lparr>poster := Post_Fatal\<rparr>))
   | Post_Clear ec \<Rightarrow>
       if bw_state s = W_DETACHED then Some (s\<lparr>bw_state := W_IDLE, poster := Post_Ret False ec\<rparr>)
       else Some (s\<lparr>poster := Post_Ret False ec\<rparr>)
   | Post_Result ec \<Rightarrow> Some (s\<lparr>bw_result := ec, poster := Post_Sem ec\<rparr>)
   | Post_Sem ec \<Rightarrow> Some (s\<lparr>bw_sem := bw_sem s + 1, poster := Post_Ret True ec\<rparr>)
   | _ \<Rightarrow> None)"

text \<open>The use of the object by a driver: each operation starts with \<open>Start\<close>, is waited for once and
  completed once with a code of the driver's choice; the next one starts when both have returned.\<close>

inductive bw_step :: "block_wait \<Rightarrow> block_wait \<Rightarrow> bool" where
  first: "waiter s = Wait_None \<Longrightarrow>
    bw_step s ((block_wait_start s)\<lparr>waiter := Wait_Sem, poster := Post_Cas ec\<rparr>)"
| again: "waiter s = Wait_Ret r \<Longrightarrow> poster s = Post_Ret b ec' \<Longrightarrow>
    bw_step s ((block_wait_start s)\<lparr>waiter := Wait_Sem, poster := Post_Cas ec\<rparr>)"
| wait: "block_wait_step timeout s = Some s' \<Longrightarrow> bw_step s s'"
| post: "try_post_step s = Some s' \<Longrightarrow> bw_step s s'"

inductive bw_reach :: "block_wait \<Rightarrow> bool" where
  new: "bw_reach block_wait_new"
| step: "bw_reach s \<Longrightarrow> bw_step s s' \<Longrightarrow> bw_reach s'"

text \<open>The invariant: which combinations of state, result, count and program points occur.\<close>

fun bw_inv :: "wait_state \<Rightarrow> error_code \<Rightarrow> nat \<Rightarrow> wait_pc \<Rightarrow> post_pc \<Rightarrow> bool" where
  "bw_inv st res n w Post_None \<longleftrightarrow> w = Wait_None \<and> st = W_IDLE \<and> n = 0"
| "bw_inv st res n w (Post_Cas ec) \<longleftrightarrow> n = 0 \<and>
     (st = W_PENDING \<and> (w = Wait_Sem \<or> w = Wait_Cancel) \<or> st = W_DETACHED \<and> w = Wait_Ret TIMEOUT)"
| "bw_inv st res n w (Post_Clear ec) \<longleftrightarrow> n = 0 \<and> st = W_DETACHED \<and> w = Wait_Ret TIMEOUT"
| "bw_inv st res n w (Post_Result ec) \<longleftrightarrow> n = 0 \<and> st = W_CLAIMED \<and>
     (w = Wait_Sem \<or> w = Wait_Cancel \<or> w = Wait_Drain)"
| "bw_inv st res n w (Post_Sem ec) \<longleftrightarrow> n = 0 \<and> st = W_CLAIMED \<and> res = ec \<and>
     (w = Wait_Sem \<or> w = Wait_Cancel \<or> w = Wait_Drain)"
| "bw_inv st res n w (Post_Ret True ec) \<longleftrightarrow>
     n = 1 \<and> st = W_CLAIMED \<and> res = ec \<and> (w = Wait_Sem \<or> w = Wait_Cancel \<or> w = Wait_Drain) \<or>
     n = 0 \<and> st = W_CLAIMED \<and> res = ec \<and> w = Wait_Release \<or>
     n = 0 \<and> st = W_IDLE \<and> res = ec \<and> (w = Wait_Load \<or> w = Wait_Ret ec)"
| "bw_inv st res n w (Post_Ret False ec) \<longleftrightarrow> n = 0 \<and> st = W_IDLE \<and> w = Wait_Ret TIMEOUT"
| "bw_inv st res n w Post_Fatal \<longleftrightarrow> False"

lemma bw_inv_wait: "block_wait_step timeout s = Some s' \<Longrightarrow>
    bw_inv (bw_state s) (bw_result s) (bw_sem s) (waiter s) (poster s) \<Longrightarrow>
    bw_inv (bw_state s') (bw_result s') (bw_sem s') (waiter s') (poster s')"
  by (cases "(bw_state s, bw_result s, bw_sem s, waiter s, poster s)" rule: bw_inv.cases)
    (auto split: if_splits wait_state.splits)

lemma bw_inv_post: "try_post_step s = Some s' \<Longrightarrow>
    bw_inv (bw_state s) (bw_result s) (bw_sem s) (waiter s) (poster s) \<Longrightarrow>
    bw_inv (bw_state s') (bw_result s') (bw_sem s') (waiter s') (poster s')"
  by (cases "(bw_state s, bw_result s, bw_sem s, waiter s, poster s)" rule: bw_inv.cases)
    (auto split: if_splits wait_state.splits)

lemma bw_reach_inv: "bw_reach s \<Longrightarrow> bw_inv (bw_state s) (bw_result s) (bw_sem s) (waiter s) (poster s)"
proof (induction rule: bw_reach.induct)
  case new
  then show ?case by (simp add: block_wait_new_def)
next
  case (step s s')
  from step(2,3) show ?case
  proof (cases rule: bw_step.cases)
    case (first ec)
    then show ?thesis using step(3) by (cases "(bw_state s, bw_result s, bw_sem s, waiter s, poster s)" rule: bw_inv.cases)
      (auto simp: block_wait_start_def)
  next
    case (again r b ec' ec)
    then show ?thesis using step(3) by (cases b) (auto simp: block_wait_start_def)
  qed (blast dest: bw_inv_wait bw_inv_post)+
qed

text \<open>C19: in every interleaving of \<open>Wait\<close> and \<open>TryPost\<close> no assertion fails and both sides agree. When
  both have returned, the state is idle and the semaphore is drained, and either the completion was
  delivered and the waiter returns its code, or it was refused and the waiter returns TIMEOUT; as
  long as a delivered completion has a waiter before its semaphore, that waiter can go on.\<close>

theorem block_wait_agreement:
  assumes "bw_reach s"
  shows "waiter s \<noteq> Wait_Fatal \<and> poster s \<noteq> Post_Fatal \<and>
    (\<forall>r b ec. waiter s = Wait_Ret r \<and> poster s = Post_Ret b ec \<longrightarrow>
      bw_state s = W_IDLE \<and> bw_sem s = 0 \<and> r = (if b then ec else TIMEOUT)) \<and>
    (\<forall>b ec. (waiter s = Wait_Sem \<or> waiter s = Wait_Drain) \<and> poster s = Post_Ret b ec \<longrightarrow>
      (\<exists>s'. block_wait_step False s = Some s'))"
proof (intro conjI allI impI)
  note inv = bw_reach_inv [OF assms]
  show "waiter s \<noteq> Wait_Fatal" "poster s \<noteq> Post_Fatal"
    using inv by (cases "(bw_state s, bw_result s, bw_sem s, waiter s, poster s)" rule: bw_inv.cases; auto)+
  fix r b ec
  assume "waiter s = Wait_Ret r \<and> poster s = Post_Ret b ec"
  then show "bw_state s = W_IDLE" "bw_sem s = 0" "r = (if b then ec else TIMEOUT)"
    using inv by (cases b; auto)+
next
  fix b ec
  assume "(waiter s = Wait_Sem \<or> waiter s = Wait_Drain) \<and> poster s = Post_Ret b ec"
  then show "\<exists>s'. block_wait_step False s = Some s'"
    using bw_reach_inv [OF assms] by (cases b) auto
qed

text \<open>A run in which the timeout loses against the completion.\<close>

definition late_timeout :: block_wait where
  "late_timeout = \<lparr>bw_state = W_IDLE, bw_result = FAILED, bw_sem = 0, waiter = Wait_Ret FAILED,
     poster = Post_Ret True FAILED\<rparr>"

lemma late_timeout_reached: "bw_reach late_timeout"
proof -
  define s where "s = (\<lambda>st r n w p. \<lparr>bw_state = st, bw_result = r, bw_sem = n, waiter = w, poster = p\<rparr>)"
  note go = bw_reach.step [OF _ bw_step.wait] bw_reach.step [OF _ bw_step.post]
  have "bw_reach (s W_PENDING OK 0 Wait_Sem (Post_Cas FAILED))"
    using bw_reach.step [OF new first [of block_wait_new FAILED]]
    by (simp add: block_wait_new_def block_wait_start_def s_def)
  from go(1) [OF this, of True "s W_PENDING OK 0 Wait_Cancel (Post_Cas FAILED)"]
  have "bw_reach (s W_PENDING OK 0 Wait_Cancel (Post_Cas FAILED))" by (simp add: s_def)
  from go(2) [OF this, of "s W_CLAIMED OK 0 Wait_Cancel (Post_Result FAILED)"]
  have "bw_reach (s W_CLAIMED OK 0 Wait_Cancel (Post_Result FAILED))" by (simp add: s_def)
  from go(1) [OF this, of False "s W_CLAIMED OK 0 Wait_Drain (Post_Result FAILED)"]
  have "bw_reach (s W_CLAIMED OK 0 Wait_Drain (Post_Result FAILED))" by (simp add: s_def)
  from go(2) [OF this, of "s W_CLAIMED FAILED 0 Wait_Drain (Post_Sem FAILED)"]
  have "bw_reach (s W_CLAIMED FAILED 0 Wait_Drain (Post_Sem FAILED))" by (simp add: s_def)
  from go(2) [OF this, of "s W_CLAIMED FAILED 1 Wait_Drain (Post_Ret True FAILED)"]
  have "bw_reach (s W_CLAIMED FAILED 1 Wait_Drain (Post_Ret True FAILED))" by (simp add: s_def)
  from go(1) [OF this, of False "s W_IDLE FAILED 0 Wait_Load (Post_Ret True FAILED)"]
  have "bw_reach (s W_IDLE FAILED 0 Wait_Load (Post_Ret True FAILED))" by (simp add: s_def)
  from go(1) [OF this, of False "s W_IDLE FAILED 0 (Wait_Ret FAILED) (Post_Ret True FAILED)"]
  show ?thesis by (simp add: s_def late_timeout_def)
qed

theorem block_wait_agreement_witness:
  "waiter late_timeout = Wait_Ret FAILED \<and> bw_state late_timeout = W_IDLE \<and> bw_sem late_timeout = 0"
  using block_wait_agreement [OF late_timeout_reached] by (simp add: late_timeout_def)

end
