(* ===== verification/Read_Port.thy ===== *)
theory Read_Port
  imports Async_Operation Lock_Free_Queue
begin

text \<open>
  \<open>ReadPort\<close> of src/src/core/libxr_rw.cpp as interleaved steps: a reader inside \<open>operator()\<close>, the
  producer inside \<open>ProcessPendingReads\<close> and a thread inside \<open>Reset\<close>, each step one access to the
  shared state (\<open>busy_\<close>, the queue, \<open>info_\<close>, a semaphore). The queue operations are single steps.
  Buffers are lists at addresses. The answer of the backend's \<open>read_fun_\<close> is part of the event.
  Two ghost components, \<open>fed\<close> and \<open>taken\<close>, record the bytes that entered and left the queue, a
  third, \<open>taken_before\<close>, the bytes that had left it when the
  present call found the port free.
\<close>

datatype read_busy = RB_IDLE | RB_PENDING | RB_CLAIMED | RB_DETACHED | RB_EVENT

record read_info =
  info_addr :: nat
  info_size :: nat
  info_op :: operation_type

datatype read_pc = R_None | R_Load | R_Clear | R_Size | R_Pop | R_Done | R_Info | R_Mark | R_Arm | R_Notify |
  R_Rollback error_code | R_Failed error_code | R_Block | R_Wait | R_Release | R_Open | R_Result |
  R_Cancel | R_Reopen | R_Drain | R_Ret error_code | R_Fatal

datatype feed_pc = F_None | F_Load | F_Size | F_Claim | F_Pop | F_Finish bool | F_Post bool |
  F_Status bool | F_Dequeue | F_Event | F_Fatal

datatype reset_pc = Z_None | Z_Load | Z_Cas | Z_Reload | Z_Check read_busy | Z_Store

record read_port =
  rp_readable :: bool
  rp_queue :: "u8 lfq"
  rp_info :: read_info
  rp_busy :: read_busy
  rp_result :: error_code
  rp_env :: op_env
  memory :: "nat \<Rightarrow> u8 list"
  rx_dequeues :: nat
  rp_call :: read_info
  rp_in_isr :: bool
  reader :: read_pc
  feeder :: feed_pc
  resetter :: reset_pc
  fed :: "u8 list"
  taken :: "u8 list"
  taken_before :: "u8 list"

section \<open>Steps\<close>

text \<open>\<open>PopBatch\<close> into the buffer of a request; \<open>None\<close> when it does not answer OK.\<close>

definition pop_into :: "read_info \<Rightarrow> read_port \<Rightarrow> read_port option" where
  "pop_into i s = (case lfq_pop_batch 0 (rp_queue s) (Some (memory s (info_addr i))) (info_size i) of
     Some (q, OK, Some buf) \<Rightarrow> Some (s\<lparr>rp_queue := q, memory := (memory s)(info_addr i := buf),
       taken := taken s @ take (info_size i) buf\<rparr>)
   | _ \<Rightarrow> None)"

text \<open>\<open>operator()\<close>. The event tells a semaphore wait whether it times out and \<open>read_fun_\<close> what it
  answers.\<close>

datatype read_event = Go | Time_Out | Answer error_code

fun read_step :: "read_event \<Rightarrow> read_port \<Rightarrow> read_port option" where
  "read_step e s = (let c = rp_call s; op = info_op c in case reader s of
     R_Load \<Rightarrow>
       if \<not> rp_readable s then Some (s\<lparr>reader := R_Ret NOT_SUPPORT\<rparr>)
       else if rp_busy s \<noteq> RB_IDLE \<and> rp_busy s \<noteq> RB_EVENT then Some (s\<lparr>reader := R_Ret BUSY\<rparr>)
       else Some (s\<lparr>taken_before := taken s, reader := R_Clear\<rparr>)
   | R_Clear \<Rightarrow> Some (s\<lparr>rp_busy := RB_IDLE, reader := R_Size\<rparr>)
   | R_Size \<Rightarrow>
       (let readable_size = lfq_size (rp_queue s) in
        if readable_size \<ge> info_size c \<and> readable_size \<noteq> 0
        then Some (s\<lparr>reader := if info_size c > 0 then R_Pop else R_Done\<rparr>)
        else Some (s\<lparr>reader := R_Info\<rparr>))
   | R_Pop \<Rightarrow> (case pop_into c s of
       None \<Rightarrow> Some (s\<lparr>reader := R_Fatal\<rparr>)
     | Some s1 \<Rightarrow> Some (s1\<lparr>rx_dequeues := rx_dequeues s1 + 1, reader := R_Done\<rparr>))
   | R_Done \<Rightarrow> Some (s\<lparr>rp_env := if is_block op then rp_env s else update_status op OK (rp_env s),
       reader := R_Ret OK\<rparr>)
   | R_Info \<Rightarrow> Some (s\<lparr>rp_info := c, reader := R_Mark\<rparr>)
   | R_Mark \<Rightarrow> Some (s\<lparr>rp_env := mark_as_running op (rp_env s), reader := R_Arm\<rparr>)
   | R_Arm \<Rightarrow>
       if rp_busy s = RB_IDLE then Some (s\<lparr>rp_busy := RB_PENDING, reader := R_Notify\<rparr>)
       else if rp_busy s = RB_EVENT then Some (s\<lparr>reader := R_Clear\<rparr>)
       else Some (s\<lparr>reader := R_Fatal\<rparr>)
   | R_Notify \<Rightarrow> (case e of
       Answer ans \<Rightarrow> Some (s\<lparr>reader := if error_code_value ans \<ge> 0 then R_Block else R_Rollback ans\<rparr>)
     | _ \<Rightarrow> None)
   | R_Rollback ans \<Rightarrow> (case rp_busy s of
       RB_PENDING \<Rightarrow> Some (s\<lparr>rp_busy := RB_IDLE, reader := if is_block op then R_Ret ans else R_Failed ans\<rparr>)
     | RB_DETACHED \<Rightarrow> Some (s\<lparr>reader := R_Ret TIMEOUT\<rparr>)
     | RB_IDLE \<Rightarrow> Some (s\<lparr>reader := if is_block op then R_Fatal else R_Ret OK\<rparr>)
     | RB_CLAIMED \<Rightarrow> Some (s\<lparr>reader := R_Block\<rparr>)
     | RB_EVENT \<Rightarrow> Some (s\<lparr>reader := R_Fatal\<rparr>))
   | R_Failed ans \<Rightarrow> Some (s\<lparr>rp_env := update_status op ans (rp_env s), reader := R_Ret ans\<rparr>)
   | R_Block \<Rightarrow>
       if is_block op then Some (s\<lparr>reader := if rp_in_isr s then R_Fatal else R_Wait\<rparr>)
       else Some (s\<lparr>reader := R_Ret OK\<rparr>)
   | R_Wait \<Rightarrow> (case e of
       Time_Out \<Rightarrow> Some (s\<lparr>reader := R_Cancel\<rparr>)
     | _ \<Rightarrow> (case op of OP_BLOCK k \<Rightarrow> (case sem_take k (rp_env s) of
           Some env \<Rightarrow> Some (s\<lparr>rp_env := env, reader := R_Release\<rparr>)
         | None \<Rightarrow> None)
       | _ \<Rightarrow> None))
   | R_Release \<Rightarrow>
       if rp_busy s = RB_CLAIMED then Some (s\<lparr>reader := R_Open\<rparr>) else Some (s\<lparr>reader := R_Fatal\<rparr>)
   | R_Open \<Rightarrow> Some (s\<lparr>rp_busy := RB_IDLE, reader := R_Result\<rparr>)
   | R_Result \<Rightarrow> Some (s\<lparr>reader := R_Ret (rp_result s)\<rparr>)
   | R_Cancel \<Rightarrow> (case rp_busy s of
       RB_PENDING \<Rightarrow> Some (s\<lparr>rp_busy := RB_IDLE, reader := R_Ret TIMEOUT\<rparr>)
     | RB_DETACHED \<Rightarrow> Some (s\<lparr>reader := R_Reopen\<rparr>)
     | RB_CLAIMED \<Rightarrow> Some (s\<lparr>reader := R_Drain\<rparr>)
     | _ \<Rightarrow> Some (s\<lparr>reader := R_Fatal\<rparr>))
   | R_Reopen \<Rightarrow> Some (s\<lparr>rp_busy := RB_IDLE, reader := R_Ret TIMEOUT\<rparr>)
   | R_Drain \<Rightarrow> (case op of OP_BLOCK k \<Rightarrow> (case sem_take k (rp_env s) of
         Some env \<Rightarrow> Some (s\<lparr>rp_env := env, reader := R_Open\<rparr>)
       | None \<Rightarrow> None)
     | _ \<Rightarrow> None)
   | _ \<Rightarrow> None)"

text \<open>A new call of the reader.\<close>

definition read_call :: "read_info \<Rightarrow> bool \<Rightarrow> read_port \<Rightarrow> read_port" where
  "read_call c in_isr s = s\<lparr>rp_call := c, rp_in_isr := in_isr, reader := R_Load\<rparr>"

text \<open>\<open>Finish\<close>: the two accesses of a BLOCK completion, and the store and the status update of the
  others; \<open>deq\<close> remembers whether \<open>OnRxDequeue\<close> is still to be called.\<close>

definition finish_step :: "bool \<Rightarrow> read_port \<Rightarrow> read_port" where
  "finish_step deq s =
     (if is_block (info_op (rp_info s))
      then if rp_busy s = RB_CLAIMED then s\<lparr>rp_result := OK, feeder := F_Post deq\<rparr>
           else s\<lparr>feeder := F_Fatal\<rparr>
      else s\<lparr>rp_busy := RB_IDLE, feeder := F_Status deq\<rparr>)"

text \<open>\<open>ProcessPendingReads\<close>.\<close>

fun feed_step :: "read_port \<Rightarrow> read_port option" where
  "feed_step s = (let i = rp_info s in case feeder s of
     F_Load \<Rightarrow> (case rp_busy s of
       RB_PENDING \<Rightarrow> Some (s\<lparr>feeder := F_Size\<rparr>)
     | RB_IDLE \<Rightarrow> Some (s\<lparr>feeder := F_Event\<rparr>)
     | _ \<Rightarrow> Some (s\<lparr>feeder := F_None\<rparr>))
   | F_Size \<Rightarrow>
       (let sz = lfq_size (rp_queue s) in
        if sz > 0 \<and> sz \<ge> info_size i
        then Some (s\<lparr>feeder := if is_block (info_op i) then F_Claim else F_Pop\<rparr>)
        else Some (s\<lparr>feeder := F_None\<rparr>))
   | F_Claim \<Rightarrow>
       if rp_busy s = RB_PENDING then Some (s\<lparr>rp_busy := RB_CLAIMED, feeder := F_Pop\<rparr>)
       else Some (s\<lparr>feeder := F_Load\<rparr>)
   | F_Pop \<Rightarrow>
       if info_size i > 0 then (case pop_into i s of
         None \<Rightarrow> Some (s\<lparr>feeder := F_Fatal\<rparr>)
       | Some s1 \<Rightarrow> Some (s1\<lparr>feeder := F_Finish True\<rparr>))
       else Some (s\<lparr>feeder := F_Finish False\<rparr>)
   | F_Finish deq \<Rightarrow> Some (finish_step deq s)
   | F_Post deq \<Rightarrow> Some (s\<lparr>rp_env := update_status (info_op i) OK (rp_env s),
       feeder := if deq then F_Dequeue else F_None\<rparr>)
   | F_Status deq \<Rightarrow> Some (s\<lparr>rp_env := update_status (info_op i) OK (rp_env s),
       feeder := if deq then F_Dequeue else F_None\<rparr>)
   | F_Dequeue \<Rightarrow> Some (s\<lparr>rx_dequeues := rx_dequeues s + 1, feeder := F_None\<rparr>)
   | F_Event \<Rightarrow>
       if rp_busy s = RB_IDLE then Some (s\<lparr>rp_busy := RB_EVENT, feeder := F_None\<rparr>)
       else Some (s\<lparr>feeder := F_Load\<rparr>)
   | _ \<Rightarrow> None)"

text \<open>The backend pushes received bytes and then calls \<open>ProcessPendingReads\<close>.\<close>

definition feed :: "u8 list \<Rightarrow> read_port \<Rightarrow> read_port option" where
  "feed data s = (case lfq_push_batch (rp_queue s) data (length data) of
     None \<Rightarrow> None
   | Some (q, ec) \<Rightarrow> Some (s\<lparr>rp_queue := q, fed := if ec = OK then fed s @ data else fed s, feeder := F_Load\<rparr>))"

text \<open>The producer as an interrupt: nobody else runs until \<open>ProcessPendingReads\<close> returns.\<close>

fun feed_run :: "nat \<Rightarrow> read_port \<Rightarrow> read_port option" where
  "feed_run 0 s = None"
| "feed_run (Suc n) s = (if feeder s = F_None then Some s
     else case feed_step s of None \<Rightarrow> None | Some s1 \<Rightarrow> feed_run n s1)"

definition rx_interrupt :: "u8 list \<Rightarrow> read_port \<Rightarrow> read_port option" where
  "rx_interrupt data s = (case feed data s of None \<Rightarrow> None | Some s1 \<Rightarrow> feed_run 8 s1)"

text \<open>\<open>Reset\<close>.\<close>

definition reset_call :: "read_port \<Rightarrow> read_port" where
  "reset_call s = s\<lparr>rp_queue := lfq_reset (rp_queue s), resetter := Z_Load\<rparr>"

fun reset_step :: "read_port \<Rightarrow> read_port option" where
  "reset_step s = (case resetter s of
     Z_Load \<Rightarrow>
       if rp_busy s = RB_PENDING \<and> is_block (info_op (rp_info s)) then Some (s\<lparr>resetter := Z_Cas\<rparr>)
       else Some (s\<lparr>resetter := Z_Check (rp_busy s)\<rparr>)
   | Z_Cas \<Rightarrow>
       if rp_busy s = RB_PENDING then Some (s\<lparr>rp_busy := RB_DETACHED, resetter := Z_None\<rparr>)
       else Some (s\<lparr>resetter := Z_Reload\<rparr>)
   | Z_Reload \<Rightarrow> Some (s\<lparr>resetter := Z_Check (rp_busy s)\<rparr>)
   | Z_Check st \<Rightarrow>
       if st = RB_CLAIMED \<or> st = RB_DETACHED then Some (s\<lparr>resetter := Z_None\<rparr>)
       else Some (s\<lparr>rp_result := OK, resetter := Z_Store\<rparr>)
   | Z_Store \<Rightarrow> Some (s\<lparr>rp_busy := RB_IDLE, resetter := Z_None\<rparr>)
   | Z_None \<Rightarrow> None)"

text \<open>\<open>ReadPort(buffer_size)\<close> with the queue \<open>q\<close> that it allocates (a \<open>buffer_size\<close> of zero, for which
  there is no queue, is left out), and the assignment of \<open>read_fun_\<close>.\<close>

definition read_port_new :: "u8 lfq \<Rightarrow> (nat \<Rightarrow> u8 list) \<Rightarrow> read_port" where
  "read_port_new q mem = \<lparr>rp_readable = False, rp_queue = q,
     rp_info = \<lparr>info_addr = 0, info_size = 0, info_op = OP_NONE\<rparr>, rp_busy = RB_IDLE, rp_result = OK,
     rp_env = \<lparr>sem_value = \<lambda>_. 0, poll_status = \<lambda>_. READY, callback_runs = []\<rparr>, memory = mem,
     rx_dequeues = 0, rp_call = \<lparr>info_addr = 0, info_size = 0, info_op = OP_NONE\<rparr>, rp_in_isr = False,
     reader = R_None, feeder = F_None, resetter = Z_None, fed = [], taken = [], taken_before = []\<rparr>"

definition set_read_fun :: "read_port \<Rightarrow> read_port" where
  "set_read_fun s = s\<lparr>rp_readable := True\<rparr>"

section \<open>Runs\<close>

datatype rp_event = Set_Fun | Call read_info bool | Read read_event | Interrupt "u8 list" |
  Feed "u8 list" | Feed_Step | Reset_Call | Reset_Step

definition reader_ready :: "read_port \<Rightarrow> bool" where
  "reader_ready s = (case reader s of R_None \<Rightarrow> True | R_Ret _ \<Rightarrow> True | _ \<Rightarrow> False)"

text \<open>Any event of any thread; a thread starts a new call when its last one has returned, with a
  buffer of the requested size.\<close>

fun rp_event_step :: "rp_event \<Rightarrow> read_port \<Rightarrow> read_port option" where
  "rp_event_step Set_Fun s = Some (set_read_fun s)"
| "rp_event_step (Call c in_isr) s =
     (if reader_ready s \<and> info_size c \<le> length (memory s (info_addr c)) \<and>
         \<not> (is_block (info_op c) \<and> in_isr)
      then Some (read_call c in_isr s) else None)"
| "rp_event_step (Read e) s = read_step e s"
| "rp_event_step (Interrupt data) s = (if feeder s = F_None then rx_interrupt data s else None)"
| "rp_event_step (Feed data) s = (if feeder s = F_None then feed data s else None)"
| "rp_event_step Feed_Step s = feed_step s"
| "rp_event_step Reset_Call s = (if resetter s = Z_None then Some (reset_call s) else None)"
| "rp_event_step Reset_Step s = reset_step s"

fun rp_run :: "rp_event list \<Rightarrow> read_port \<Rightarrow> read_port option" where
  "rp_run [] s = Some s"
| "rp_run (e # es) s = (case rp_event_step e s of None \<Rightarrow> None | Some s' \<Rightarrow> rp_run es s')"

text \<open>The states of a port whose producer is an interrupt, which runs \<open>ProcessPendingReads\<close> to its end,
  and that nobody resets: the reader takes any steps, and \<open>read_fun_\<close> may answer anything.\<close>

inductive rp_reach :: "read_port \<Rightarrow> bool" where
  new: "lfq_wf q \<Longrightarrow> lfq_contents q = [] \<Longrightarrow> rp_reach (read_port_new q mem)"
| set_fun: "rp_reach s \<Longrightarrow> rp_reach (set_read_fun s)"
| call: "rp_reach s \<Longrightarrow> rp_event_step (Call c in_isr) s = Some s' \<Longrightarrow> rp_reach s'"
| read: "rp_reach s \<Longrightarrow> read_step e s = Some s' \<Longrightarrow> rp_reach s'"
| interrupt: "rp_reach s \<Longrightarrow> rx_interrupt data s = Some s' \<Longrightarrow> rp_reach s'"

section \<open>One interrupt\<close>

definition enough :: "read_info \<Rightarrow> read_port \<Rightarrow> bool" where
  "enough i s \<longleftrightarrow> 0 < lfq_size (rp_queue s) \<and> info_size i \<le> lfq_size (rp_queue s)"

text \<open>The queue and the buffers are in order, and no byte was lost or duplicated.\<close>

definition port_ok :: "read_port \<Rightarrow> bool" where
  "port_ok s \<longleftrightarrow> lfq_wf (rp_queue s) \<and> fed s = taken s @ lfq_contents (rp_queue s) \<and>
     info_size (rp_info s) \<le> length (memory s (info_addr (rp_info s))) \<and>
     info_size (rp_call s) \<le> length (memory s (info_addr (rp_call s))) \<and> feeder s = F_None"

definition popped :: "read_info \<Rightarrow> read_port \<Rightarrow> read_port" where
  "popped i s = (let n = info_size i; bs = take n (lfq_contents (rp_queue s)) in
     s\<lparr>rp_queue := lfq_dropped (rp_queue s) n, taken := taken s @ bs,
       memory := (memory s)(info_addr i := bs @ drop n (memory s (info_addr i)))\<rparr>)"

lemma pop_into_eq:
  assumes "lfq_wf (rp_queue s)" "info_size i \<le> lfq_size (rp_queue s)"
    "info_size i \<le> length (memory s (info_addr i))"
  shows "pop_into i s = Some (popped i s)"
  using assms lfq_pop_batch_eq [of "rp_queue s" "Some (memory s (info_addr i))" "info_size i" 0]
  by (simp add: pop_into_def lfq_out_def popped_def Let_def)

lemma popped_simps [simp]:
  "rp_busy (popped i s) = rp_busy s" "rp_env (popped i s) = rp_env s" "rp_info (popped i s) = rp_info s"
  "rp_call (popped i s) = rp_call s" "reader (popped i s) = reader s" "fed (popped i s) = fed s"
  "rp_result (popped i s) = rp_result s" "taken_before (popped i s) = taken_before s"
  "rp_in_isr (popped i s) = rp_in_isr s" "rx_dequeues (popped i s) = rx_dequeues s"
  "feeder (popped i s) = feeder s"
  "taken (popped i s) = taken s @ take (info_size i) (lfq_contents (rp_queue s))"
  by (simp_all add: popped_def Let_def)

lemma popped_ok:
  assumes "port_ok s" "info_size i \<le> lfq_size (rp_queue s)" "info_size i \<le> length (memory s (info_addr i))"
  shows "port_ok (popped i s)"
    and "take (info_size i) (memory (popped i s) (info_addr i)) = take (info_size i) (lfq_contents (rp_queue s))"
  using assms lfq_dropped_props [of "rp_queue s" "info_size i"]
  by (auto simp: port_ok_def) (auto simp: popped_def Let_def)

text \<open>The request in \<open>info_\<close> completed.\<close>

definition completed :: "read_port \<Rightarrow> read_port" where
  "completed s = (let i = rp_info s;
       s1 = (if info_size i > 0 then (popped i s)\<lparr>rx_dequeues := rx_dequeues s + 1\<rparr> else s)
     in s1\<lparr>rp_result := if is_block (info_op i) then OK else rp_result s,
       rp_busy := if is_block (info_op i) then RB_CLAIMED else RB_IDLE,
       rp_env := update_status (info_op i) OK (rp_env s)\<rparr>)"

definition interrupted :: "read_port \<Rightarrow> read_port" where
  "interrupted s = (case rp_busy s of
     RB_PENDING \<Rightarrow> if enough (rp_info s) s then completed s else s
   | RB_IDLE \<Rightarrow> s\<lparr>rp_busy := RB_EVENT\<rparr>
   | _ \<Rightarrow> s)"

lemma feed_run_8:
  assumes "port_ok (s\<lparr>feeder := F_None\<rparr>)" "feeder s = F_Load"
  shows "feed_run 8 s = Some (interrupted (s\<lparr>feeder := F_None\<rparr>))"
proof (cases "rp_busy s")
  case RB_PENDING
  have *: "popped (rp_info s) (s\<lparr>rp_busy := b, feeder := f\<rparr>) = (popped (rp_info s) s)\<lparr>rp_busy := b, feeder := f\<rparr>"
    "popped (rp_info s) (s\<lparr>feeder := f\<rparr>) = (popped (rp_info s) s)\<lparr>feeder := f\<rparr>" for b f
    by (simp_all add: popped_def Let_def)
  have "pop_into (rp_info s) (s\<lparr>rp_busy := b, feeder := f\<rparr>) = Some ((popped (rp_info s) s)\<lparr>rp_busy := b, feeder := f\<rparr>)"
    "pop_into (rp_info s) (s\<lparr>feeder := f\<rparr>) = Some ((popped (rp_info s) s)\<lparr>feeder := f\<rparr>)"
    if "info_size (rp_info s) \<le> lfq_size (rp_queue s)" for b f
    using that assms(1) by (subst pop_into_eq; simp add: port_ok_def *)+
  then show ?thesis
    using RB_PENDING assms
    by (cases "is_block (info_op (rp_info s))")
      (auto simp: eval_nat_numeral Let_def finish_step_def interrupted_def enough_def completed_def *)
qed (use assms in \<open>simp_all add: eval_nat_numeral Let_def interrupted_def\<close>)

text \<open>The state after the bytes are pushed.\<close>

definition after_push :: "u8 list \<Rightarrow> read_port \<Rightarrow> read_port" where
  "after_push data s = (if lfq_size (rp_queue s) + length data \<le> lfq_LENGTH (rp_queue s)
     then s\<lparr>rp_queue := lfq_written (rp_queue s) data (length data), fed := fed s @ data\<rparr> else s)"

lemma rx_interrupt_eq:
  assumes "port_ok s"
  shows "rx_interrupt data s = Some (interrupted (after_push data s))" and "port_ok (after_push data s)"
proof -
  have wf: "lfq_wf (rp_queue s)" and none: "feeder s = F_None" using assms by (simp_all add: port_ok_def)
  show ok: "port_ok (after_push data s)"
    using assms lfq_written_props [OF wf, of "length data" data] by (simp add: port_ok_def after_push_def)
  have "feed data s = Some ((after_push data s)\<lparr>feeder := F_Load\<rparr>)"
    using lfq_push_batch_eq [OF wf, of "length data" data] by (simp add: feed_def after_push_def)
  moreover have "(after_push data s)\<lparr>feeder := F_None\<rparr> = after_push data s"
    using none by (simp add: after_push_def)
  ultimately show "rx_interrupt data s = Some (interrupted (after_push data s))"
    using ok feed_run_8 [of "(after_push data s)\<lparr>feeder := F_Load\<rparr>"] by (simp add: rx_interrupt_def)
qed

section \<open>The invariant of the interrupt-driven port\<close>

abbreviation call_op :: "read_port \<Rightarrow> operation_type" where
  "call_op s \<equiv> info_op (rp_call s)"

definition sems_zero :: "read_port \<Rightarrow> bool" where
  "sems_zero s \<longleftrightarrow> (\<forall>k. sem_value (rp_env s) k = 0)"

definition sem_posted :: "read_port \<Rightarrow> bool" where
  "sem_posted s \<longleftrightarrow> (\<exists>k. call_op s = OP_BLOCK k \<and> sem_value (rp_env s) = (\<lambda>_. 0)(k := 1))"

definition port_free :: "read_port \<Rightarrow> bool" where
  "port_free s \<longleftrightarrow> rp_busy s = RB_IDLE \<or> rp_busy s = RB_EVENT"

definition untouched :: "read_port \<Rightarrow> bool" where
  "untouched s \<longleftrightarrow> taken s = taken_before s"

text \<open>The call has got the next bytes of the stream, all that it asked for.\<close>

definition read_delivered :: "read_port \<Rightarrow> bool" where
  "read_delivered s \<longleftrightarrow>
     taken s = taken_before s @ take (info_size (rp_call s)) (memory s (info_addr (rp_call s)))"

text \<open>A non-blocking request of an earlier call may still wait for bytes.\<close>

definition between_calls :: "read_port \<Rightarrow> bool" where
  "between_calls s \<longleftrightarrow> sems_zero s \<and> (port_free s \<or>
     rp_busy s = RB_PENDING \<and> \<not> is_block (info_op (rp_info s)) \<and> \<not> enough (rp_info s) s)"

text \<open>The request of the present call is armed: it waits for bytes, or an interrupt has completed it.\<close>

definition waiting :: "read_port \<Rightarrow> bool" where
  "waiting s \<longleftrightarrow> rp_busy s = RB_PENDING \<and> sems_zero s \<and> untouched s \<and> \<not> enough (rp_call s) s"

definition claimed :: "read_port \<Rightarrow> bool" where
  "claimed s \<longleftrightarrow> rp_busy s = RB_CLAIMED \<and> sem_posted s \<and> rp_result s = OK \<and> read_delivered s"

definition armed :: "read_port \<Rightarrow> bool" where
  "armed s \<longleftrightarrow> rp_info s = rp_call s \<and> (waiting s \<or>
     (if is_block (call_op s) then claimed s else port_free s \<and> sems_zero s \<and> read_delivered s))"

fun reader_inv :: "read_pc \<Rightarrow> read_port \<Rightarrow> bool" where
  "reader_inv R_None s \<longleftrightarrow> between_calls s"
| "reader_inv R_Load s \<longleftrightarrow> between_calls s"
| "reader_inv R_Clear s \<longleftrightarrow> port_free s \<and> sems_zero s \<and> untouched s"
| "reader_inv R_Size s \<longleftrightarrow> port_free s \<and> sems_zero s \<and> untouched s"
| "reader_inv R_Pop s \<longleftrightarrow> port_free s \<and> sems_zero s \<and> untouched s \<and> enough (rp_call s) s"
| "reader_inv R_Done s \<longleftrightarrow> port_free s \<and> sems_zero s \<and> read_delivered s"
| "reader_inv R_Info s \<longleftrightarrow> port_free s \<and> sems_zero s \<and> untouched s \<and>
     (rp_busy s = RB_EVENT \<or> \<not> enough (rp_call s) s)"
| "reader_inv R_Mark s \<longleftrightarrow> port_free s \<and> sems_zero s \<and> untouched s \<and>
     (rp_busy s = RB_EVENT \<or> \<not> enough (rp_call s) s) \<and> rp_info s = rp_call s"
| "reader_inv R_Arm s \<longleftrightarrow> port_free s \<and> sems_zero s \<and> untouched s \<and>
     (rp_busy s = RB_EVENT \<or> \<not> enough (rp_call s) s) \<and> rp_info s = rp_call s"
| "reader_inv R_Notify s \<longleftrightarrow> armed s"
| "reader_inv (R_Rollback ans) s \<longleftrightarrow> armed s \<and> error_code_value ans < 0"
| "reader_inv (R_Failed ans) s \<longleftrightarrow> port_free s \<and> sems_zero s \<and> untouched s \<and> \<not> is_block (call_op s) \<and>
     error_code_value ans < 0"
| "reader_inv R_Block s \<longleftrightarrow> armed s"
| "reader_inv R_Wait s \<longleftrightarrow> armed s \<and> is_block (call_op s)"
| "reader_inv R_Cancel s \<longleftrightarrow> armed s \<and> is_block (call_op s)"
| "reader_inv R_Drain s \<longleftrightarrow> claimed s"
| "reader_inv R_Release s \<longleftrightarrow> rp_busy s = RB_CLAIMED \<and> sems_zero s \<and> rp_result s = OK \<and> read_delivered s"
| "reader_inv R_Open s \<longleftrightarrow> rp_busy s = RB_CLAIMED \<and> sems_zero s \<and> rp_result s = OK \<and> read_delivered s"
| "reader_inv R_Result s \<longleftrightarrow> port_free s \<and> sems_zero s \<and> rp_result s = OK \<and> read_delivered s"
| "reader_inv R_Reopen s \<longleftrightarrow> False"
| "reader_inv (R_Ret ec) s \<longleftrightarrow> between_calls s \<and>
     (ec = OK \<longrightarrow> port_free s \<and> read_delivered s \<or>
       rp_busy s = RB_PENDING \<and> rp_info s = rp_call s \<and> \<not> is_block (call_op s) \<and> untouched s) \<and>
     (ec = TIMEOUT \<longrightarrow> port_free s \<and> untouched s)"
| "reader_inv R_Fatal s \<longleftrightarrow> rp_busy s = RB_EVENT \<and> sems_zero s \<and> \<not> is_block (call_op s) \<and> read_delivered s"

definition call_ok :: "read_port \<Rightarrow> bool" where
  "call_ok s \<longleftrightarrow> \<not> (is_block (call_op s) \<and> rp_in_isr s)"

definition rp_inv :: "read_port \<Rightarrow> bool" where
  "rp_inv s \<longleftrightarrow> port_ok s \<and> call_ok s \<and> reader_inv (reader s) s"

lemmas inv_defs = port_free_def sems_zero_def untouched_def read_delivered_def between_calls_def
  waiting_def claimed_def armed_def sem_posted_def enough_def

lemma take_popped: "port_ok s \<Longrightarrow> i = rp_info s \<Longrightarrow> info_size i \<le> lfq_size (rp_queue s) \<Longrightarrow>
    take (info_size i) (memory (popped i s) (info_addr i)) = take (info_size i) (lfq_contents (rp_queue s))"
  using popped_ok(2) [of s i] by (simp add: port_ok_def)

lemma completed_ok: "port_ok s \<Longrightarrow> enough (rp_info s) s \<Longrightarrow> port_ok (completed s)"
  using popped_ok(1) [of s "rp_info s"]
  by (auto simp: completed_def Let_def enough_def port_ok_def)

lemma completed_simps [simp]:
  "rp_info (completed s) = rp_info s" "rp_call (completed s) = rp_call s" "reader (completed s) = reader s"
  "taken_before (completed s) = taken_before s" "rp_in_isr (completed s) = rp_in_isr s"
  "rp_busy (completed s) = (if is_block (info_op (rp_info s)) then RB_CLAIMED else RB_IDLE)"
  "rp_env (completed s) = update_status (info_op (rp_info s)) OK (rp_env s)"
  "rp_result (completed s) = (if is_block (info_op (rp_info s)) then OK else rp_result s)"
  by (simp_all add: completed_def Let_def)

lemma completed_delivers:
  assumes "port_ok s" "enough (rp_info s) s" "rp_info s = rp_call s" "untouched s"
  shows "read_delivered (completed s)"
proof (cases "info_size (rp_info s) = 0")
  case True
  then show ?thesis using assms by (simp add: completed_def Let_def read_delivered_def untouched_def)
next
  case False
  then show ?thesis
    using assms take_popped [of s "rp_info s"]
    by (simp add: completed_def Let_def read_delivered_def untouched_def enough_def)
qed

text \<open>Pushing bytes keeps what the invariant says, except that a request may now be satisfiable.\<close>

lemma interrupted_inv:
  assumes "port_ok t" "call_ok t"
    and "rp_busy t = RB_PENDING \<Longrightarrow> rp_info t = rp_call t \<or> \<not> is_block (info_op (rp_info t))"
  shows "port_ok (interrupted t)" "call_ok (interrupted t)"
  using assms completed_ok [of t]
  by (auto simp: interrupted_def port_ok_def call_ok_def split: read_busy.splits)

lemma after_push_simps [simp]:
  "rp_busy (after_push data s) = rp_busy s" "rp_env (after_push data s) = rp_env s"
  "rp_info (after_push data s) = rp_info s" "rp_call (after_push data s) = rp_call s"
  "reader (after_push data s) = reader s" "rp_result (after_push data s) = rp_result s"
  "taken (after_push data s) = taken s" "taken_before (after_push data s) = taken_before s"
  "memory (after_push data s) = memory s" "rp_in_isr (after_push data s) = rp_in_isr s"
  by (simp_all add: after_push_def)

lemma after_push_enough: "port_ok s \<Longrightarrow> enough i s \<Longrightarrow> enough i (after_push data s)"
  using lfq_written_props(2) [of "rp_queue s" "length data" data]
  by (auto simp: enough_def after_push_def port_ok_def)

lemma is_blockE: "is_block op \<Longrightarrow> (\<And>k. op = OP_BLOCK k \<Longrightarrow> P) \<Longrightarrow> P"
  by (cases op) auto

text \<open>The effect of an interrupt on the parts of the invariant.\<close>

lemma interrupt_parts:
  fixes data :: "u8 list"
  assumes ok: "port_ok s"
  defines "s' \<equiv> interrupted (after_push data s)"
  shows "port_free s \<Longrightarrow> port_free s' \<and> rp_env s' = rp_env s \<and> taken s' = taken s \<and> memory s' = memory s \<and>
      (enough i s \<longrightarrow> enough i s') \<and> rp_busy s' = RB_EVENT"
    and "rp_busy s = RB_CLAIMED \<Longrightarrow> rp_busy s' = RB_CLAIMED \<and> rp_env s' = rp_env s \<and> taken s' = taken s \<and>
      memory s' = memory s"
    and "rp_info s' = rp_info s" "rp_call s' = rp_call s" "reader s' = reader s"
      "taken_before s' = taken_before s" "rp_in_isr s' = rp_in_isr s"
    and "rp_busy s \<noteq> RB_PENDING \<Longrightarrow> rp_result s' = rp_result s"
  using after_push_enough [OF ok, of i data]
  by (auto simp: s'_def interrupted_def port_free_def enough_def split: read_busy.splits)

lemma interrupt_pending:
  fixes data :: "u8 list"
  assumes ok: "port_ok s" and p: "rp_busy s = RB_PENDING"
  defines "t \<equiv> after_push data s"
  shows "interrupted t = (if enough (rp_info s) t then completed t else t)"
  using p by (simp add: interrupted_def t_def)

lemma interrupt_between: "port_ok s \<Longrightarrow> between_calls s \<Longrightarrow> between_calls (interrupted (after_push data s))"
proof (cases "rp_busy s = RB_PENDING")
  case True
  assume ok: "port_ok s" and b: "between_calls s"
  then show ?thesis
    using True interrupt_pending [OF ok True, where data = data]
    by (auto simp: between_calls_def sems_zero_def port_free_def)
next
  case False
  assume "port_ok s" "between_calls s"
  then show ?thesis
    using False interrupt_parts(1) [of s, where data = data] by (auto simp: between_calls_def sems_zero_def)
qed

lemma interrupt_armed: "port_ok s \<Longrightarrow> armed s \<Longrightarrow> armed (interrupted (after_push data s))"
proof (cases "rp_busy s = RB_PENDING")
  case True
  assume ok: "port_ok s" and a: "armed s"
  let ?t = "after_push data s"
  have w: "waiting s" "rp_info s = rp_call s" using a True by (auto simp: armed_def claimed_def port_free_def split: if_splits)
  have okt: "port_ok ?t" using ok by (rule rx_interrupt_eq)
  show ?thesis
  proof (cases "enough (rp_info s) ?t")
    case True
    then have d: "read_delivered (completed ?t)"
      using completed_delivers [OF okt] w by (simp add: untouched_def waiting_def)
    then show ?thesis
      using True w(2) interrupt_pending [OF ok \<open>rp_busy s = RB_PENDING\<close>, where data = data] w(1)
      by (cases "call_op s")
        (auto simp: armed_def claimed_def port_free_def sem_posted_def sems_zero_def waiting_def sem_post_def)
  next
    case False
    then show ?thesis
      using w interrupt_pending [OF ok \<open>rp_busy s = RB_PENDING\<close>, where data = data]
      by (simp add: armed_def waiting_def sems_zero_def untouched_def)
  qed
next
  case False
  assume ok: "port_ok s" and a: "armed s"
  note ip = interrupt_parts [OF ok, where data = data]
  show ?thesis
  proof (cases "is_block (call_op s)")
    case True
    then have c: "claimed s" "rp_info s = rp_call s" using a False by (auto simp: armed_def waiting_def)
    then show ?thesis using True ip(2-) False
      by (simp add: armed_def claimed_def read_delivered_def sem_posted_def)
  next
    case nb: False
    then have "port_free s" "sems_zero s" "read_delivered s" "rp_info s = rp_call s"
      using a False by (auto simp: armed_def waiting_def)
    then show ?thesis using nb ip(1,3-) by (simp add: armed_def read_delivered_def sems_zero_def)
  qed
qed

lemma interrupt_inv:
  assumes inv: "rp_inv s"
  shows "rp_inv (interrupted (after_push data s))"
proof -
  let ?s = "interrupted (after_push data s)"
  have ok: "port_ok s" and r: "reader_inv (reader s) s" and c: "call_ok s" using inv by (simp_all add: rp_inv_def)
  note ip = interrupt_parts [OF ok, where data = data]
  have okt: "port_ok (after_push data s)" using ok by (rule rx_interrupt_eq)
  have ok': "port_ok ?s" and c': "call_ok ?s"
    using okt completed_ok [OF okt] c
    by (auto simp: interrupted_def port_ok_def call_ok_def split: read_busy.splits)
  have bt: "between_calls s \<Longrightarrow> between_calls ?s" using interrupt_between [OF ok] by blast
  have ar: "armed s \<Longrightarrow> armed ?s" using interrupt_armed [OF ok] by blast
  have "reader_inv (reader s) ?s"
  proof (cases "reader s")
    case (R_Ret ec)
    show ?thesis
    proof (cases "rp_busy s = RB_PENDING")
      case True
      let ?t = "after_push data s"
      have "read_delivered (completed ?t)"
        if "enough (rp_info s) ?t" "rp_info s = rp_call s" "untouched s"
        using completed_delivers [OF okt] that by (simp add: untouched_def)
      then show ?thesis
        using R_Ret r bt True interrupt_pending [OF ok True, where data = data]
        by (auto simp: port_free_def untouched_def split: if_splits)
    next
      case False
      then show ?thesis using R_Ret r bt ip(1,3-)
        by (auto simp: between_calls_def read_delivered_def untouched_def)
    qed
  next
    case R_Drain
    then show ?thesis using r ip(2,4,6,8) by (auto simp: claimed_def read_delivered_def sem_posted_def)
  next
    case R_Release
    then show ?thesis using r ip(2,4,6,8) by (auto simp: read_delivered_def sems_zero_def)
  next
    case R_Open
    then show ?thesis using r ip(2,4,6,8) by (auto simp: read_delivered_def sems_zero_def)
  next
    case R_Fatal
    then show ?thesis using r ip(1,4,6) by (auto simp: read_delivered_def sems_zero_def port_free_def)
  next
    case R_Result
    then show ?thesis using r ip(1,4,6,8) by (auto simp: read_delivered_def sems_zero_def port_free_def)
  qed (use r bt ar ip(1,3,4,6) in \<open>simp_all add: untouched_def read_delivered_def sems_zero_def\<close>)
  then show ?thesis using ok' c' ip(5) by (simp add: rp_inv_def)
qed

text \<open>A step of the reader keeps the invariant.\<close>

lemma port_updates [simp]:
  "port_ok (s\<lparr>reader := p\<rparr>) = port_ok s" "port_ok (s\<lparr>rp_busy := b\<rparr>) = port_ok s"
  "port_ok (s\<lparr>rp_env := v\<rparr>) = port_ok s" "port_ok (s\<lparr>rx_dequeues := n\<rparr>) = port_ok s"
  "port_ok (s\<lparr>taken_before := bs\<rparr>) = port_ok s"
  "call_ok (s\<lparr>reader := p\<rparr>) = call_ok s" "call_ok (s\<lparr>rp_busy := b\<rparr>) = call_ok s"
  "call_ok (s\<lparr>rp_env := v\<rparr>) = call_ok s" "call_ok (s\<lparr>rx_dequeues := n\<rparr>) = call_ok s"
  "call_ok (s\<lparr>taken_before := bs\<rparr>) = call_ok s" "call_ok (s\<lparr>rp_info := i\<rparr>) = call_ok s"
  by (simp_all add: port_ok_def call_ok_def)

lemma read_step_inv:
  assumes inv: "rp_inv s" and step: "read_step e s = Some s'"
  shows "rp_inv s'"
proof -
  have ok: "port_ok s" and r: "reader_inv (reader s) s" and c: "call_ok s"
    using inv by (simp_all add: rp_inv_def)
  show ?thesis
  proof (cases "reader s")
    case R_Pop
    have "pop_into (rp_call s) s = Some (popped (rp_call s) s)"
      using ok r R_Pop by (intro pop_into_eq) (auto simp: port_ok_def enough_def)
    moreover have "port_ok (popped (rp_call s) s)" "read_delivered (popped (rp_call s) s)"
      using ok r R_Pop popped_ok [OF ok, of "rp_call s"]
      by (auto simp: port_ok_def enough_def read_delivered_def untouched_def)
    ultimately show ?thesis
      using step r R_Pop c by (auto simp: rp_inv_def call_ok_def port_free_def sems_zero_def read_delivered_def)
  next
    case R_Load
    then show ?thesis using step ok r c
      by (auto simp: rp_inv_def between_calls_def port_free_def sems_zero_def untouched_def enough_def split: if_splits)
  next
    case R_Clear
    then show ?thesis using step ok r c by (auto simp: rp_inv_def port_free_def sems_zero_def untouched_def)
  next
    case R_Size
    then show ?thesis using step ok r c
      by (auto simp: rp_inv_def Let_def port_free_def sems_zero_def untouched_def enough_def read_delivered_def split: if_splits)
  next
    case R_Done
    then show ?thesis using step ok r c
      by (auto simp: rp_inv_def Let_def between_calls_def port_free_def sems_zero_def read_delivered_def)
  next
    case R_Info
    then show ?thesis using step ok r c
      by (auto simp: rp_inv_def Let_def port_ok_def call_ok_def port_free_def sems_zero_def untouched_def enough_def)
  next
    case R_Mark
    then show ?thesis using step ok r c
      by (auto simp: rp_inv_def Let_def port_free_def sems_zero_def untouched_def enough_def)
  next
    case (R_Failed a)
    then show ?thesis using step ok r c
      by (auto simp: rp_inv_def Let_def between_calls_def port_free_def sems_zero_def untouched_def)
  next
    case R_Open
    then show ?thesis using step ok r c
      by (auto simp: rp_inv_def port_free_def sems_zero_def read_delivered_def)
  next
    case R_Arm
    then show ?thesis using step ok r c
      by (auto simp: rp_inv_def armed_def waiting_def port_free_def sems_zero_def untouched_def enough_def split: if_splits)
  next
    case R_Notify
    then show ?thesis using step ok r c
      by (auto simp: rp_inv_def Let_def armed_def waiting_def claimed_def port_free_def sems_zero_def sem_posted_def
        untouched_def read_delivered_def enough_def split: read_event.splits if_splits)
  next
    case (R_Rollback a)
    show ?thesis
    proof (cases "is_block (call_op s)")
      case True
      then show ?thesis using R_Rollback step ok r c
        by (auto simp: rp_inv_def Let_def armed_def waiting_def claimed_def between_calls_def port_free_def sems_zero_def
          sem_posted_def untouched_def read_delivered_def enough_def split: read_busy.splits)
    next
      case False
      then have "rp_info s = rp_call s" "waiting s \<or> port_free s \<and> sems_zero s \<and> read_delivered s"
        using R_Rollback r by (auto simp: armed_def)
      then show ?thesis using False R_Rollback step ok r c
        by (cases "rp_busy s") (auto simp: rp_inv_def Let_def waiting_def between_calls_def port_free_def sems_zero_def
          untouched_def read_delivered_def)
    qed
  next
    case R_Block
    then show ?thesis using step ok r c
      by (auto simp: rp_inv_def call_ok_def Let_def armed_def waiting_def claimed_def between_calls_def port_free_def sems_zero_def
        sem_posted_def untouched_def read_delivered_def enough_def split: if_splits)
  next
    case R_Wait
    then show ?thesis using step ok r c
      by (auto simp: rp_inv_def Let_def armed_def waiting_def claimed_def sems_zero_def sem_take_Some
        sem_posted_def untouched_def read_delivered_def enough_def split: read_event.splits option.splits operation_type.splits if_splits)
  next
    case R_Release
    then show ?thesis using step ok r c
      by (auto simp: rp_inv_def Let_def port_free_def sems_zero_def read_delivered_def)
  next
    case R_Result
    then show ?thesis using step ok r c
      by (auto simp: rp_inv_def Let_def between_calls_def port_free_def sems_zero_def read_delivered_def)
  next
    case R_Cancel
    then show ?thesis using step ok r c
      by (auto simp: rp_inv_def Let_def armed_def waiting_def claimed_def between_calls_def port_free_def sems_zero_def
        sem_posted_def untouched_def read_delivered_def enough_def split: read_busy.splits)
  next
    case R_Drain
    then show ?thesis using step ok r c
      by (auto simp: rp_inv_def Let_def claimed_def port_free_def sems_zero_def sem_take_Some
        sem_posted_def read_delivered_def split: option.splits)
  qed (use step r in simp_all)
qed

lemma set_fun_simps:
  "rp_busy (set_read_fun s) = rp_busy s" "rp_info (set_read_fun s) = rp_info s" "rp_call (set_read_fun s) = rp_call s"
  "port_free (set_read_fun s) = port_free s" "sems_zero (set_read_fun s) = sems_zero s"
  "untouched (set_read_fun s) = untouched s" "read_delivered (set_read_fun s) = read_delivered s"
  "enough i (set_read_fun s) = enough i s" "sem_posted (set_read_fun s) = sem_posted s"
  "rp_result (set_read_fun s) = rp_result s"
  by (simp_all add: set_read_fun_def inv_defs)

lemma set_fun_reader_inv: "reader_inv p (set_read_fun s) = reader_inv p s"
  by (cases p) (simp_all add: between_calls_def armed_def waiting_def claimed_def set_fun_simps)

lemma rp_reach_inv: "rp_reach s \<Longrightarrow> rp_inv s"
proof (induction rule: rp_reach.induct)
  case (new q mem)
  then show ?case
    by (simp add: rp_inv_def port_ok_def call_ok_def read_port_new_def between_calls_def port_free_def sems_zero_def)
next
  case (set_fun s)
  then show ?case
    by (simp add: rp_inv_def set_fun_reader_inv) (simp add: set_read_fun_def port_ok_def call_ok_def)
next
  case (call s c in_isr s')
  then have b: "between_calls s" and ok: "port_ok s" and s': "s' = read_call c in_isr s"
    and len: "info_size c \<le> length (memory s (info_addr c))" "\<not> (is_block (info_op c) \<and> in_isr)"
    by (auto simp: rp_inv_def reader_ready_def split: if_splits read_pc.splits)
  have "between_calls s'" using b by (simp add: s' read_call_def between_calls_def port_free_def sems_zero_def enough_def)
  then show ?case using ok len by (simp add: rp_inv_def s') (simp add: read_call_def port_ok_def call_ok_def)
next
  case (read s e s')
  then show ?case using read_step_inv by blast
next
  case (interrupt s data s')
  then have "port_ok s" by (simp add: rp_inv_def)
  then show ?case using interrupt rx_interrupt_eq(1) interrupt_inv by fastforce
qed

text \<open>Concrete runs for the witnesses.\<close>

fun interrupt_event :: "rp_event \<Rightarrow> bool" where
  "interrupt_event Set_Fun = True"
| "interrupt_event (Call c in_isr) = True"
| "interrupt_event (Read e) = True"
| "interrupt_event (Interrupt data) = True"
| "interrupt_event _ = False"

lemma rp_run_reach: "rp_run evs s = Some s' \<Longrightarrow> list_all interrupt_event evs \<Longrightarrow> rp_reach s \<Longrightarrow> rp_reach s'"
proof (induction evs arbitrary: s)
  case (Cons e evs)
  then obtain s1 where s1: "rp_event_step e s = Some s1" "rp_run evs s1 = Some s'"
    by (auto split: option.splits)
  have "rp_reach s1"
    using Cons.prems(2,3) s1(1)
    by (cases e rule: interrupt_event.cases) (auto intro: rp_reach.intros split: if_splits)
  then show ?case using Cons.IH s1(2) Cons.prems(2) by simp
qed simp

definition example_read_port :: read_port where
  "example_read_port = read_port_new (lfq_new 4 4 (\<lambda>n. replicate n 0)) (\<lambda>_. replicate 4 0)"

definition example_read :: "nat \<Rightarrow> nat \<Rightarrow> operation_type \<Rightarrow> rp_event" where
  "example_read addr n op = Call \<lparr>info_addr = addr, info_size = n, info_op = op\<rparr> False"

definition example_wait :: "rp_event list" where
  "example_wait = [Set_Fun, example_read 0 2 (OP_BLOCK 7)] @ replicate 6 (Read Go) @ [Read (Answer OK), Read Go]"

lemma example_read_port_reach: "rp_reach example_read_port"
  unfolding example_read_port_def by (rule rp_reach.new) (simp_all add: lfq_new_wf align_up_def)

lemma example_wait_run:
  "case rp_run example_wait example_read_port of None \<Rightarrow> False | Some s \<Rightarrow>
     reader s = R_Wait \<and> lfq_size (rp_queue s) = 0 \<and> lfq_LENGTH (rp_queue s) = 7 \<and> info_size (rp_call s) = 2"
  "case rp_run (example_wait @ [Interrupt [5, 6, 7], Read Go, Read Go, Read Go, Read Go]) example_read_port of
     None \<Rightarrow> False | Some s \<Rightarrow> reader s = R_Ret OK \<and> take 2 (memory s 0) = [5, 6]"
  "list_all interrupt_event example_wait"
  by code_simp+

text \<open>The only step at which an assertion of the reader fails.\<close>

lemma fatal_step:
  assumes inv: "rp_inv s" and step: "read_step e s = Some s'" and f: "reader s' = R_Fatal"
  obtains ans where "reader s = R_Rollback ans" "error_code_value ans < 0" "rp_busy s = RB_EVENT"
    "\<not> is_block (call_op s)" "read_delivered s"
proof -
  have r: "reader_inv (reader s) s" using inv by (simp add: rp_inv_def)
  have f': "\<not> is_block (call_op s')" "rp_busy s' = RB_EVENT"
    using read_step_inv [OF inv step] f by (simp_all add: rp_inv_def)
  show thesis
  proof (cases "reader s")
    case (R_Rollback ans)
    then have nb: "\<not> is_block (call_op s)" "rp_busy s = RB_EVENT" using step f f'
      by (auto simp: Let_def split: read_busy.splits if_splits)
    then have "read_delivered s" using r R_Rollback by (auto simp: armed_def waiting_def)
    then show thesis using R_Rollback r nb that by simp
  next
    case R_Pop
    have "port_ok s" "enough (rp_call s) s" using inv R_Pop by (auto simp: rp_inv_def)
    then have "pop_into (rp_call s) s = Some (popped (rp_call s) s)"
      by (intro pop_into_eq) (auto simp: port_ok_def enough_def)
    then show thesis using R_Pop step f by auto
  qed (use r step f f' inv in \<open>auto simp: Let_def rp_inv_def call_ok_def port_free_def armed_def waiting_def claimed_def
      split: read_event.splits option.splits operation_type.splits if_splits read_busy.splits\<close>)
qed

section \<open>Properties\<close>

text \<open>C9: the producer is an interrupt that runs \<open>ProcessPendingReads\<close> to its end, and nobody calls
  \<open>Reset\<close>. Whatever the order of reads (blocking, polling or with a callback), received bytes, timeouts
  and answers of \<open>read_fun_\<close>, an interrupt always returns and no byte is lost, duplicated or reordered.
  An assertion of the reader fails in one situation only: \<open>read_fun_\<close> of a polling or callback read
  fails after an interrupt has completed that read and a further one has set EVENT.\<close>

theorem read_port_conserves_bytes:
  assumes "rp_reach s"
  shows "fed s = taken s @ lfq_contents (rp_queue s) \<and> feeder s = F_None \<and>
    (\<exists>s'. rx_interrupt data s = Some s' \<and> feeder s' = F_None) \<and>
    (reader s = R_Fatal \<longrightarrow> \<not> is_block (info_op (rp_call s)) \<and> rp_busy s = RB_EVENT) \<and>
    (\<forall>e s'. read_step e s = Some s' \<and> reader s' = R_Fatal \<longrightarrow>
      (\<exists>ans. reader s = R_Rollback ans \<and> error_code_value ans < 0 \<and> rp_busy s = RB_EVENT \<and>
        \<not> is_block (info_op (rp_call s)) \<and>
        taken s = taken_before s @ take (info_size (rp_call s)) (memory s (info_addr (rp_call s)))))"
proof -
  have inv: "rp_inv s" by (rule rp_reach_inv [OF assms])
  then have ok: "port_ok s" by (simp add: rp_inv_def)
  have "rx_interrupt data s = Some (interrupted (after_push data s))" by (rule rx_interrupt_eq [OF ok])
  moreover have "rp_inv (interrupted (after_push data s))" by (rule interrupt_inv [OF inv])
  ultimately have "\<exists>s'. rx_interrupt data s = Some s' \<and> feeder s' = F_None"
    by (simp add: rp_inv_def port_ok_def)
  moreover have "reader s = R_Fatal \<longrightarrow> \<not> is_block (call_op s) \<and> rp_busy s = RB_EVENT"
    using inv by (auto simp: rp_inv_def)
  moreover have "\<exists>ans. reader s = R_Rollback ans \<and> error_code_value ans < 0 \<and> rp_busy s = RB_EVENT \<and>
      \<not> is_block (call_op s) \<and> read_delivered s"
    if "read_step e s = Some s'" "reader s' = R_Fatal" for e s'
    by (rule fatal_step [OF inv that]) blast
  ultimately show ?thesis using ok unfolding port_ok_def read_delivered_def by blast
qed

theorem read_port_conserves_bytes_witness:
  "\<exists>s. rp_run (example_wait @ [Interrupt [5, 6, 7]]) example_read_port = Some s \<and>
    reader s \<noteq> R_Fatal \<and> fed s = taken s @ lfq_contents (rp_queue s) \<and> fed s = [5, 6, 7]"
proof -
  have run: "case rp_run (example_wait @ [Interrupt [5, 6, 7]]) example_read_port of None \<Rightarrow> False
    | Some s \<Rightarrow> fed s = [5, 6, 7] \<and> reader s = R_Wait" by code_simp
  then obtain s where s: "rp_run (example_wait @ [Interrupt [5, 6, 7]]) example_read_port = Some s"
    "fed s = [5, 6, 7]" "reader s = R_Wait" by (auto split: option.splits)
  have "rp_reach s"
    using rp_run_reach [OF s(1)] example_wait_run(3) example_read_port_reach by simp
  from read_port_conserves_bytes [OF this, of "[]"] s show ?thesis by auto
qed

text \<open>C10: with an interrupt as producer and nobody calling \<open>Reset\<close>, a blocking read that returns OK has filled its buffer with the next bytes of the stream, one
  that returns TIMEOUT has taken none; a polling or callback read that returns OK has either got its
  bytes or is pending, and then the queue does not hold enough for it. After every return the
  semaphores are drained.\<close>

theorem read_returns_correct:
  assumes "rp_reach s" and "reader s = R_Ret ec"
  shows "(\<forall>k. sem_value (rp_env s) k = 0) \<and>
    (ec = TIMEOUT \<longrightarrow> taken s = taken_before s) \<and>
    (ec = OK \<longrightarrow>
      taken s = taken_before s @ take (info_size (rp_call s)) (memory s (info_addr (rp_call s))) \<or>
      \<not> is_block (info_op (rp_call s)) \<and> rp_info s = rp_call s \<and> rp_busy s = RB_PENDING \<and>
        taken s = taken_before s \<and>
        (lfq_size (rp_queue s) = 0 \<or> lfq_size (rp_queue s) < info_size (rp_call s)))"
  using rp_reach_inv [OF assms(1)] assms(2)
  by (auto simp: rp_inv_def inv_defs)

theorem read_returns_correct_witness:
  "\<exists>s. rp_run (example_wait @ [Interrupt [5, 6, 7], Read Go, Read Go, Read Go, Read Go]) example_read_port = Some s \<and>
    taken s = taken_before s @ take (info_size (rp_call s)) (memory s (info_addr (rp_call s))) \<and>
    sem_value (rp_env s) 7 = 0"
proof -
  obtain s where s: "rp_run (example_wait @ [Interrupt [5, 6, 7], Read Go, Read Go, Read Go, Read Go]) example_read_port = Some s"
    "reader s = R_Ret OK" "is_block (info_op (rp_call s))"
  proof -
    have "case rp_run (example_wait @ [Interrupt [5, 6, 7], Read Go, Read Go, Read Go, Read Go]) example_read_port of
      None \<Rightarrow> False | Some s \<Rightarrow> reader s = R_Ret OK \<and> is_block (info_op (rp_call s))" by code_simp
    then show ?thesis using that by (auto split: option.splits)
  qed
  have "rp_reach s"
    using rp_run_reach [OF s(1)] example_wait_run(3) example_read_port_reach by simp
  from read_returns_correct [OF this s(2)] s show ?thesis by blast
qed

text \<open>C11: with an interrupt as producer and nobody calling \<open>Reset\<close>, no wake-up is lost: when a reader waits on its semaphore and the received bytes complete the
  request, then after the interrupt it needs four steps to return OK with the bytes.\<close>

theorem blocked_read_is_woken:
  assumes "rp_reach s" and "reader s = R_Wait"
    and "lfq_size (rp_queue s) + length data \<le> lfq_LENGTH (rp_queue s)"
    and "data \<noteq> []" and "info_size (rp_call s) \<le> lfq_size (rp_queue s) + length data"
  shows "\<exists>s'. rp_run [Interrupt data, Read Go, Read Go, Read Go, Read Go] s = Some s' \<and> reader s' = R_Ret OK \<and>
    taken s' = taken_before s @ take (info_size (rp_call s)) (memory s' (info_addr (rp_call s)))"
proof -
  let ?i = "interrupted (after_push data s)"
  have inv: "rp_inv s" by (rule rp_reach_inv [OF assms(1)])
  then have ok: "port_ok s" and blk: "is_block (info_op (rp_call s))" and ar: "armed s" and none: "feeder s = F_None"
    using assms(2) by (auto simp: rp_inv_def port_ok_def)
  have sz: "lfq_size (rp_queue (after_push data s)) = lfq_size (rp_queue s) + length data"
    using assms(3) lfq_written_props(2) [of "rp_queue s" "length data" data] ok
    by (simp add: after_push_def port_ok_def)
  have "rp_inv ?i" by (rule interrupt_inv [OF inv])
  moreover note ip = interrupt_parts [OF ok, where data = data]
  ultimately have ai: "armed ?i" "reader ?i = R_Wait" using assms(2) by (simp_all add: rp_inv_def)
  have "\<not> waiting ?i"
  proof
    assume w: "waiting ?i"
    then have p: "rp_busy s = RB_PENDING"
      using ip(1,2) ar blk by (auto simp: armed_def waiting_def claimed_def)
    have "enough (rp_info s) (after_push data s)"
      using sz assms(4,5) ar by (simp add: enough_def armed_def)
    then show False using w interrupt_pending [OF ok p, where data = data] blk ar
      by (auto simp: waiting_def armed_def)
  qed
  then have cl: "claimed ?i" using ai(1) blk ip(4) by (simp add: armed_def)
  then obtain k where k: "info_op (rp_call s) = OP_BLOCK k" "sem_value (rp_env ?i) = (\<lambda>_. 0)(k := 1)"
    using ip(4) by (auto simp: claimed_def sem_posted_def)
  show ?thesis
    using cl k ai(2) ip(4,6) rx_interrupt_eq(1) [OF ok, of data] none
    by (simp add: claimed_def sem_take_def read_delivered_def)
qed

theorem blocked_read_is_woken_witness:
  "\<exists>s s'. rp_run example_wait example_read_port = Some s \<and>
    rp_run [Interrupt [5, 6, 7], Read Go, Read Go, Read Go, Read Go] s = Some s' \<and> reader s' = R_Ret OK"
proof -
  obtain s where s: "rp_run example_wait example_read_port = Some s" "reader s = R_Wait"
    "lfq_size (rp_queue s) = 0" "lfq_LENGTH (rp_queue s) = 7" "info_size (rp_call s) = 2"
    using example_wait_run(1) by (auto split: option.splits)
  have "rp_reach s" by (rule rp_run_reach [OF s(1) example_wait_run(3) example_read_port_reach])
  from blocked_read_is_woken [OF this s(2), of "[5, 6, 7]"] s obtain s' where
    "rp_run [Interrupt [5, 6, 7], Read Go, Read Go, Read Go, Read Go] s = Some s'" "reader s' = R_Ret OK" by fastforce
  then show ?thesis using s(1) by blast
qed

section \<open>Interleavings that go wrong\<close>

text \<open>A port that \<open>Reset\<close> has detached and that no waiter will release.\<close>

definition stranded :: "read_port \<Rightarrow> bool" where
  "stranded s \<longleftrightarrow> rp_busy s = RB_DETACHED \<and> rp_readable s \<and> feeder s \<in> {F_None, F_Load} \<and>
     reader s \<in> {R_Load, R_Ret TIMEOUT, R_Ret BUSY} \<and> resetter s \<in> {Z_None, Z_Load, Z_Check RB_DETACHED}"

lemma stranded_feed_run: "stranded s \<Longrightarrow> feed_run n s = Some s' \<Longrightarrow> stranded s'"
proof (induction n arbitrary: s)
  case (Suc n)
  show ?case
  proof (cases "feeder s = F_None")
    case False
    then have "feed_step s = Some (s\<lparr>feeder := F_None\<rparr>)" using Suc.prems(1) by (auto simp: stranded_def)
    moreover have "stranded (s\<lparr>feeder := F_None\<rparr>)" using Suc.prems(1) by (simp add: stranded_def)
    ultimately show ?thesis using Suc False by simp
  qed (use Suc.prems in simp)
qed simp

lemma stranded_feed: "stranded s \<Longrightarrow> feed data s = Some s' \<Longrightarrow> stranded s'"
  by (auto simp: stranded_def feed_def split: option.splits)

lemma stranded_read: "stranded s \<Longrightarrow> read_step e s = Some s' \<Longrightarrow> s' = s\<lparr>reader := R_Ret BUSY\<rparr>"
  by (cases "reader s") (auto simp: stranded_def Let_def)

lemma stranded_step:
  assumes st: "stranded s" and step: "rp_event_step e s = Some s'"
  shows "stranded s'"
proof (cases e)
  case (Interrupt data)
  then obtain s1 where "feed data s = Some s1" "feed_run 8 s1 = Some s'"
    using step by (auto simp: rx_interrupt_def simp del: feed_run.simps split: if_splits option.splits)
  then show ?thesis using st stranded_feed stranded_feed_run by blast
next
  case (Read r)
  then have "read_step r s = Some s'" using step by (simp del: read_step.simps)
  from stranded_read [OF st this] show ?thesis using st by (simp add: stranded_def)
next
  case (Feed data)
  then show ?thesis using st step stranded_feed by (simp split: if_splits)
next
  case Feed_Step
  then show ?thesis using st step by (cases "feeder s") (auto simp: stranded_def Let_def)
next
  case Reset_Step
  then show ?thesis using st step by (cases "resetter s") (auto simp: stranded_def)
qed (use st step in \<open>auto simp: stranded_def set_read_fun_def read_call_def reset_call_def split: if_splits\<close>)

lemma stranded_run: "stranded s \<Longrightarrow> rp_run evs s = Some s' \<Longrightarrow> stranded s'"
  by (induction evs arbitrary: s) (auto split: option.splits dest: stranded_step)



text \<open>A polling read whose \<open>read_fun_\<close> fails after two interrupts: the first completed the read and left
  the port IDLE, the second set EVENT, which the code after the failed \<open>read_fun_\<close> does not expect.\<close>

theorem failing_read_fun_meets_event:
  "\<exists>s. rp_run ([Set_Fun, example_read 0 1 (OP_POLLING 0)] @ replicate 6 (Read Go) @
      [Interrupt [7], Interrupt [8], Read (Answer FAILED), Read Go]) example_read_port = Some s \<and>
    reader s = R_Fatal \<and> poll_status (rp_env s) 0 = DONE \<and> hd (memory s 0) = 7"
proof -
  have "case rp_run ([Set_Fun, example_read 0 1 (OP_POLLING 0)] @ replicate 6 (Read Go) @
      [Interrupt [7], Interrupt [8], Read (Answer FAILED), Read Go]) example_read_port of None \<Rightarrow> False | Some s \<Rightarrow>
    reader s = R_Fatal \<and> poll_status (rp_env s) 0 = DONE \<and> hd (memory s 0) = 7" by code_simp
  then show ?thesis by (auto split: option.splits)
qed

text \<open>With a producer thread the size check of \<open>ProcessPendingReads\<close> can be out of date when its
  claim succeeds: the read it looked at timed out and a longer one is pending. The claim then takes
  a read whose bytes are not there; its \<open>PopBatch\<close> fails the assertion.\<close>

theorem stale_size_check_fails:
  "\<exists>s. rp_run ([Set_Fun, example_read 0 1 (OP_BLOCK 0)] @ replicate 6 (Read Go) @ [Read (Answer OK), Read Go,
      Feed [7], Feed_Step, Feed_Step, Read Time_Out, Read Go,
      example_read 0 2 (OP_BLOCK 0)] @ replicate 6 (Read Go) @ [Feed_Step, Feed_Step]) example_read_port = Some s \<and>
    feeder s = F_Fatal \<and> reader s = R_Notify \<and> rp_busy s = RB_CLAIMED"
proof -
  have "case rp_run ([Set_Fun, example_read 0 1 (OP_BLOCK 0)] @ replicate 6 (Read Go) @ [Read (Answer OK), Read Go,
      Feed [7], Feed_Step, Feed_Step, Read Time_Out, Read Go,
      example_read 0 2 (OP_BLOCK 0)] @ replicate 6 (Read Go) @ [Feed_Step, Feed_Step]) example_read_port of
    None \<Rightarrow> False | Some s \<Rightarrow> feeder s = F_Fatal \<and> reader s = R_Notify \<and> rp_busy s = RB_CLAIMED" by code_simp
  then show ?thesis by (auto split: option.splits)
qed

text \<open>\<open>Finish\<close> opens the port before it updates the status through \<open>info_\<close>: when the next
  polling read comes in between, that read is marked DONE without its bytes and the completed one
  stays RUNNING.\<close>

theorem late_status_hits_next_read:
  "\<exists>s. rp_run ([Set_Fun, example_read 0 1 (OP_POLLING 0)] @ replicate 6 (Read Go) @ [Read (Answer OK), Read Go,
      Feed [7]] @ replicate 4 Feed_Step @ [example_read 1 1 (OP_POLLING 1)] @ replicate 4 (Read Go) @ [Feed_Step])
      example_read_port = Some s \<and>
    hd (memory s 0) = 7 \<and> poll_status (rp_env s) 0 = RUNNING \<and> poll_status (rp_env s) 1 = DONE \<and> hd (memory s 1) = 0"
proof -
  have "case rp_run ([Set_Fun, example_read 0 1 (OP_POLLING 0)] @ replicate 6 (Read Go) @ [Read (Answer OK), Read Go,
      Feed [7]] @ replicate 4 Feed_Step @ [example_read 1 1 (OP_POLLING 1)] @ replicate 4 (Read Go) @ [Feed_Step])
      example_read_port of None \<Rightarrow> False | Some s \<Rightarrow>
    hd (memory s 0) = 7 \<and> poll_status (rp_env s) 0 = RUNNING \<and> poll_status (rp_env s) 1 = DONE \<and> hd (memory s 1) = 0"
    by code_simp
  then show ?thesis by (auto split: option.splits)
qed

text \<open>\<open>Reset\<close> runs up to its store, a read arms and waits, the store happens, two bytes arrive, the
  read times out.\<close>

definition reset_race :: "rp_event list" where
  "reset_race = [Set_Fun, Reset_Call, Reset_Step, Reset_Step, example_read 0 1 (OP_BLOCK 0)] @
     replicate 6 (Read Go) @ [Read (Answer OK), Read Go, Reset_Step, Feed [7, 8], Feed_Step, Feed_Step,
     Read Time_Out, Read Go]"

text \<open>A \<open>Reset\<close> that saw the port idle stores IDLE over the PENDING of a read that came in between:
  the bytes that arrive next no longer wake that read, and its timeout fails an assertion.\<close>

theorem reset_overwrites_pending:
  "\<exists>s. rp_run reset_race example_read_port = Some s \<and>
    sem_value (rp_env s) 0 = 0 \<and> lfq_size (rp_queue s) = 2 \<and> reader s = R_Fatal"
proof -
  let ?holds = "\<lambda>P. case rp_run reset_race example_read_port of None \<Rightarrow> False | Some s \<Rightarrow> P s"
  have "?holds (\<lambda>s. sem_value (rp_env s) 0 = 0)" "?holds (\<lambda>s. lfq_size (rp_queue s) = 2)"
    "?holds (\<lambda>s. reader s = R_Fatal)" by code_simp+
  then show ?thesis by (auto split: option.splits)
qed

end
