(* ===== verification/Write_Port.thy ===== *)
theory Write_Port
  imports Async_Operation Lock_Free_Queue
begin

text \<open>
  \<open>WritePort\<close> and \<open>WritePort::Stream\<close> of src/src/core/libxr_rw.cpp as interleaved steps of a writer, a
  backend that completes writes through \<open>Finish\<close>, and a thread inside \<open>Reset\<close>; each step is one
  access to the shared state. The backend itself is not part of the port: it takes an operation from
  the metadata queue with its bytes (\<open>take_write\<close>) and reports its end later. The \<open>Stream\<close>
  operations that only touch what the lock protects are single steps. Ghost components: the bytes of
  the writes in the order of their publication (\<open>published\<close>), the bytes that the backend took for
  each (\<open>sent\<close>), the bytes in the queue that have no metadata yet (\<open>unpublished\<close>). The index of a
  write in \<open>published\<close> is its ticket: an operation in flight carries it, \<open>w_ticket\<close> is that of the
  writer's own write, \<open>fin_ticket\<close> that of the write that the backend reports, and \<open>last_finish\<close> has
  ticket and code of the BLOCK completion since the port was locked last.
\<close>

datatype write_busy = WB_LOCKED | WB_PUBLISHING | WB_WAITING | WB_CLAIMED | WB_DETACHED | WB_RESETTING | WB_IDLE

record write_info =
  wi_addr :: "nat option"
  wi_size :: nat
  wi_op :: operation_type

datatype write_pc = W_None | W_Cas | W_Room | W_Space | W_Fill | W_Publish | W_Push | W_Mark | W_Arm | W_Fun |
  W_Sync error_code | W_Open error_code | W_Status error_code | W_Wait | W_Release | W_Give | W_Result | W_Cancel |
  W_Spin | W_Reopen | W_Drain | W_Free error_code | W_Ret error_code | W_Fatal

datatype finish_pc = B_None | B_Result error_code write_info | B_Cas write_info | B_Cas2 write_info |
  B_Clear | B_Post write_info | B_Fatal

datatype wreset_pc = Y_None | Y_Load | Y_Cas_Idle | Y_Cas_Wait | Y_Data write_busy | Y_Info write_busy |
  Y_Result write_busy | Y_Store write_busy

record write_stream =
  st_op :: operation_type
  batch_capacity :: nat
  buffered_size :: nat
  owns_port :: bool

record write_port =
  wp_writable :: bool
  wp_infos :: "write_info lfq"
  wp_data :: "u8 lfq"
  wp_busy :: write_busy
  wp_result :: error_code
  wp_env :: op_env
  wp_stream :: write_stream
  w_info :: write_info
  w_bytes :: "u8 list"
  w_meta :: bool
  w_in_isr :: bool
  writer :: write_pc
  in_flight :: "(nat \<times> write_info) list"
  finisher :: finish_pc
  wresetter :: wreset_pc
  published :: "u8 list list"
  sent :: "u8 list list"
  unpublished :: "u8 list"
  w_ticket :: nat
  fin_ticket :: nat
  last_finish :: "(nat \<times> error_code) option"

section \<open>The writer\<close>

abbreviation w_op :: "write_port \<Rightarrow> operation_type" where
  "w_op s \<equiv> wi_op (w_info s)"

text \<open>How \<open>CommitWrite\<close> returns: to the caller of \<open>operator()\<close>, or to \<open>Stream::SubmitBuffered\<close> and
  \<open>Commit\<close>, which give the port back unless the write was a BLOCK write.\<close>

definition w_return :: "error_code \<Rightarrow> write_port \<Rightarrow> write_port" where
  "w_return ec s =
     (if w_meta s
      then (let s1 = s\<lparr>wp_stream := (wp_stream s)\<lparr>buffered_size := 0\<rparr>\<rparr> in
        if is_block (w_op s)
        then s1\<lparr>wp_stream := (wp_stream s1)\<lparr>owns_port := False\<rparr>, writer := W_Ret ec\<rparr>
        else s1\<lparr>writer := W_Free ec\<rparr>)
      else s\<lparr>writer := W_Ret ec\<rparr>)"

text \<open>\<open>operator()\<close>: the checks before the compare-exchange.\<close>

definition write_call :: "nat \<Rightarrow> u8 list \<Rightarrow> operation_type \<Rightarrow> bool \<Rightarrow> write_port \<Rightarrow> write_port" where
  "write_call addr bytes op in_isr s =
     (let s1 = s\<lparr>w_info := \<lparr>wi_addr = Some addr, wi_size = length bytes, wi_op = op\<rparr>, w_bytes := bytes,
        w_meta := False, w_in_isr := in_isr\<rparr> in
      if \<not> wp_writable s then s1\<lparr>writer := W_Ret NOT_SUPPORT\<rparr>
      else if length bytes = 0
      then s1\<lparr>wp_env := if is_block op then wp_env s else update_status op OK (wp_env s), writer := W_Ret OK\<rparr>
      else s1\<lparr>writer := W_Cas\<rparr>)"

datatype write_event = W_Go | W_Time_Out | W_Answer error_code

text \<open>\<open>CommitWrite\<close>, up to the call of \<open>write_fun_\<close>.\<close>

fun submit_step :: "write_port \<Rightarrow> write_port option" where
  "submit_step s = (case writer s of
     W_Cas \<Rightarrow>
       if wp_busy s = WB_IDLE then Some (s\<lparr>wp_busy := WB_LOCKED, writer := W_Room, last_finish := None\<rparr>)
       else Some (s\<lparr>writer := W_Ret BUSY\<rparr>)
   | W_Room \<Rightarrow>
       if lfq_empty_size (wp_infos s) < 1 then Some (s\<lparr>writer := W_Open FULL\<rparr>) else Some (s\<lparr>writer := W_Space\<rparr>)
   | W_Space \<Rightarrow>
       if lfq_empty_size (wp_data s) < wi_size (w_info s) then Some (s\<lparr>writer := W_Open FULL\<rparr>)
       else Some (s\<lparr>writer := W_Fill\<rparr>)
   | W_Fill \<Rightarrow> (case lfq_push_batch (wp_data s) (w_bytes s) (wi_size (w_info s)) of
       Some (q, OK) \<Rightarrow> Some (s\<lparr>wp_data := q, unpublished := unpublished s @ w_bytes s,
         writer := if is_block (w_op s) then W_Publish else W_Push\<rparr>)
     | _ \<Rightarrow> Some (s\<lparr>writer := W_Fatal\<rparr>))
   | W_Publish \<Rightarrow> Some (s\<lparr>wp_env := mark_as_running (w_op s) (wp_env s), wp_busy := WB_PUBLISHING,
       writer := W_Push\<rparr>)
   | W_Push \<Rightarrow> (case lfq_push (wp_infos s) (w_info s) of
       Some (q, OK) \<Rightarrow> Some (s\<lparr>wp_infos := q, published := published s @ [unpublished s],
         unpublished := [], w_ticket := length (published s), writer := W_Mark\<rparr>)
     | _ \<Rightarrow> Some (s\<lparr>writer := W_Fatal\<rparr>))
   | W_Mark \<Rightarrow>
       if is_block (w_op s)
       then Some (s\<lparr>wp_env := if w_meta s then mark_as_running (w_op s) (wp_env s) else wp_env s, writer := W_Arm\<rparr>)
       else Some (s\<lparr>wp_env := mark_as_running (w_op s) (wp_env s), writer := W_Fun\<rparr>)
   | W_Arm \<Rightarrow>
       if wp_busy s = WB_PUBLISHING then Some (s\<lparr>wp_busy := WB_WAITING, writer := W_Fun\<rparr>)
       else if wp_busy s = WB_CLAIMED then Some (s\<lparr>writer := W_Fun\<rparr>)
       else Some (s\<lparr>writer := W_Fatal\<rparr>)
   | _ \<Rightarrow> None)"

text \<open>\<open>CommitWrite\<close> from the call of \<open>write_fun_\<close> on.\<close>

fun await_step :: "write_event \<Rightarrow> write_port \<Rightarrow> write_port option" where
  "await_step e s = (case writer s of
     W_Fun \<Rightarrow> (case e of
       W_Answer ans \<Rightarrow>
         if ans \<noteq> PENDING then Some (s\<lparr>writer := W_Sync ans\<rparr>)
         else if is_block (w_op s) then Some (s\<lparr>writer := if w_in_isr s then W_Fatal else W_Wait\<rparr>)
         else Some (if w_meta s then w_return OK s else s\<lparr>writer := W_Open OK\<rparr>)
     | _ \<Rightarrow> None)
   | W_Sync ans \<Rightarrow>
       if is_block (w_op s) then (case wp_busy s of
         WB_RESETTING \<Rightarrow> Some s
       | WB_CLAIMED \<Rightarrow> Some (s\<lparr>writer := W_Drain\<rparr>)
       | WB_DETACHED \<Rightarrow> Some (s\<lparr>writer := W_Reopen\<rparr>)
       | WB_PUBLISHING \<Rightarrow> Some (s\<lparr>writer := W_Fatal\<rparr>)
       | _ \<Rightarrow> Some (s\<lparr>writer := W_Open ans\<rparr>))
       else Some (s\<lparr>wp_busy := if w_meta s then wp_busy s else WB_IDLE, writer := W_Status ans\<rparr>)
   | W_Status ans \<Rightarrow> Some (w_return (if error_code_value ans < 0 then ans else OK)
       (s\<lparr>wp_env := update_status (w_op s) ans (wp_env s)\<rparr>))
   | W_Open ec \<Rightarrow> Some (w_return ec (s\<lparr>wp_busy := WB_IDLE\<rparr>))
   | W_Wait \<Rightarrow> (case e of
       W_Time_Out \<Rightarrow> Some (s\<lparr>writer := W_Cancel\<rparr>)
     | _ \<Rightarrow> (case w_op s of
         OP_BLOCK k \<Rightarrow> map_option (\<lambda>env. s\<lparr>wp_env := env, writer := W_Release\<rparr>) (sem_take k (wp_env s))
       | _ \<Rightarrow> None))
   | W_Release \<Rightarrow>
       if wp_busy s = WB_CLAIMED then Some (s\<lparr>writer := W_Give\<rparr>) else Some (s\<lparr>writer := W_Fatal\<rparr>)
   | W_Give \<Rightarrow> Some (s\<lparr>wp_busy := WB_IDLE, writer := W_Result\<rparr>)
   | W_Result \<Rightarrow> Some (w_return (wp_result s) s)
   | W_Cancel \<Rightarrow> (case wp_busy s of
       WB_WAITING \<Rightarrow> Some (w_return TIMEOUT (s\<lparr>wp_busy := WB_DETACHED\<rparr>))
     | WB_CLAIMED \<Rightarrow> Some (s\<lparr>writer := W_Drain\<rparr>)
     | WB_RESETTING \<Rightarrow> Some (s\<lparr>writer := W_Spin\<rparr>)
     | WB_DETACHED \<Rightarrow> Some (s\<lparr>writer := W_Reopen\<rparr>)
     | WB_PUBLISHING \<Rightarrow> Some (s\<lparr>writer := W_Fatal\<rparr>)
     | _ \<Rightarrow> Some (w_return TIMEOUT s))
   | W_Spin \<Rightarrow> (case wp_busy s of
       WB_RESETTING \<Rightarrow> Some s
     | WB_DETACHED \<Rightarrow> Some (s\<lparr>writer := W_Reopen\<rparr>)
     | WB_IDLE \<Rightarrow> Some (w_return TIMEOUT s)
     | WB_LOCKED \<Rightarrow> Some (w_return TIMEOUT s)
     | _ \<Rightarrow> Some (s\<lparr>writer := W_Fatal\<rparr>))
   | W_Reopen \<Rightarrow> Some (w_return TIMEOUT (s\<lparr>wp_busy := WB_IDLE\<rparr>))
   | W_Drain \<Rightarrow> (case w_op s of
       OP_BLOCK k \<Rightarrow> map_option (\<lambda>env. s\<lparr>wp_env := env, writer := W_Give\<rparr>) (sem_take k (wp_env s))
     | _ \<Rightarrow> None)
   | W_Free ec \<Rightarrow> Some (s\<lparr>wp_stream := (wp_stream s)\<lparr>owns_port := False\<rparr>, wp_busy := WB_IDLE, writer := W_Ret ec\<rparr>)
   | _ \<Rightarrow> None)"

section \<open>Streams\<close>

definition stream_open :: "operation_type \<Rightarrow> write_stream" where
  "stream_open op = \<lparr>st_op = op, batch_capacity = 0, buffered_size = 0, owns_port = False\<rparr>"

text \<open>\<open>Acquire\<close> on a port that exists.\<close>

definition stream_acquire :: "write_port \<Rightarrow> write_port \<times> error_code" where
  "stream_acquire s =
     (if owns_port (wp_stream s) then (s, OK)
      else if \<not> wp_writable s then (s, NOT_SUPPORT)
      else if wp_busy s \<noteq> WB_IDLE then (s, BUSY)
      else if lfq_empty_size (wp_infos s) < 1 then (s\<lparr>wp_busy := WB_IDLE\<rparr>, FULL)
      else (s\<lparr>wp_busy := WB_LOCKED, last_finish := None, wp_stream := (wp_stream s)\<lparr>owns_port := True,
        batch_capacity := lfq_empty_size (wp_data s)\<rparr>\<rparr>, OK))"

definition stream_empty_size :: "write_stream \<Rightarrow> nat" where
  "stream_empty_size st = (if owns_port st then batch_capacity st - buffered_size st else 0)"

text \<open>\<open>Write\<close>; \<open>data\<close> is \<open>None\<close> for a null pointer. An access outside the ring is \<open>None\<close>.\<close>

definition stream_write :: "u8 list option \<Rightarrow> nat \<Rightarrow> write_port \<Rightarrow> (write_port \<times> error_code) option" where
  "stream_write data n s =
     (if n = 0 then Some (s, OK)
      else case data of None \<Rightarrow> Some (s, PTR_NULL)
      | Some bytes \<Rightarrow> (case stream_acquire s of (s1, lock_result) \<Rightarrow>
          if lock_result \<noteq> OK then Some (s1, lock_result)
          else case lfq_push_batch (wp_data s1) bytes n of None \<Rightarrow> None
          | Some (q, ans) \<Rightarrow>
              if ans = OK then Some (s1\<lparr>wp_data := q, unpublished := unpublished s1 @ take n bytes, wp_stream :=
                (wp_stream s1)\<lparr>buffered_size := buffered_size (wp_stream s1) + n\<rparr>\<rparr>, ans)
              else Some (s1\<lparr>wp_data := q\<rparr>, ans)))"

definition stream_append :: "u8 list \<Rightarrow> write_port \<Rightarrow> write_port option" where
  "stream_append data s = (case stream_acquire s of (s1, ec) \<Rightarrow>
     if ec \<noteq> OK then Some s1
     else if stream_empty_size (wp_stream s1) < length data then Some s1
     else map_option fst (stream_write (Some data) (length data) s1))"

definition stream_release :: "write_port \<Rightarrow> write_port" where
  "stream_release s =
     (if owns_port (wp_stream s)
      then s\<lparr>wp_stream := (wp_stream s)\<lparr>owns_port := False\<rparr>, wp_busy := WB_IDLE\<rparr> else s)"

definition stream_discard :: "write_port \<Rightarrow> write_port" where
  "stream_discard s =
     stream_release (s\<lparr>wp_stream := (wp_stream s)\<lparr>buffered_size := 0\<rparr>\<rparr>)"

text \<open>\<open>SubmitBuffered\<close> enters \<open>CommitWrite\<close> with the metadata of the batch; \<open>Commit\<close> and the destructor
  call it when something is buffered and give the port back.\<close>

definition stream_submit :: "write_port \<Rightarrow> write_port" where
  "stream_submit s =
     (let st = wp_stream s in s\<lparr>w_info := \<lparr>wi_addr = None, wi_size = buffered_size st, wi_op = st_op st\<rparr>,
       w_meta := True, w_in_isr := False,
       writer := if is_block (st_op st) then W_Publish else W_Push\<rparr>)"

definition stream_commit :: "write_port \<Rightarrow> write_port" where
  "stream_commit s =
     (if owns_port (wp_stream s) \<and> buffered_size (wp_stream s) > 0 then stream_submit s
      else (stream_release s)\<lparr>writer := W_Ret OK\<rparr>)"

section \<open>The backend\<close>

text \<open>The backend takes the next operation and its bytes.\<close>

definition take_write :: "write_port \<Rightarrow> (write_port \<times> write_info) option" where
  "take_write s = (case lfq_pop 0 (wp_infos s) (w_info s) of
     Some (qi, OK, i) \<Rightarrow> (case lfq_pop_batch 0 (wp_data s) (Some (replicate (wi_size i) 0)) (wi_size i) of
       Some (qd, OK, Some bytes) \<Rightarrow> Some (s\<lparr>wp_infos := qi, wp_data := qd, sent := sent s @ [bytes]\<rparr>, i)
     | _ \<Rightarrow> None)
   | _ \<Rightarrow> None)"

text \<open>\<open>Finish\<close>.\<close>

fun finish_write_step :: "write_port \<Rightarrow> write_port option" where
  "finish_write_step s = (case finisher s of
     B_Result ans i \<Rightarrow>
       if is_block (wi_op i)
       then Some (s\<lparr>wp_result := ans, last_finish := Some (fin_ticket s, ans), finisher := B_Cas i\<rparr>)
       else Some (s\<lparr>wp_env := update_status (wi_op i) ans (wp_env s), finisher := B_None\<rparr>)
   | B_Cas i \<Rightarrow> (case wp_busy s of
       WB_WAITING \<Rightarrow> Some (s\<lparr>wp_busy := WB_CLAIMED, finisher := B_Post i\<rparr>)
     | WB_PUBLISHING \<Rightarrow> Some (s\<lparr>finisher := B_Cas2 i\<rparr>)
     | WB_DETACHED \<Rightarrow> Some (s\<lparr>finisher := B_Clear\<rparr>)
     | WB_CLAIMED \<Rightarrow> Some (s\<lparr>finisher := B_Fatal\<rparr>)
     | _ \<Rightarrow> Some (s\<lparr>finisher := B_None\<rparr>))
   | B_Cas2 i \<Rightarrow> (case wp_busy s of
       WB_PUBLISHING \<Rightarrow> Some (s\<lparr>wp_busy := WB_CLAIMED, finisher := B_Post i\<rparr>)
     | WB_DETACHED \<Rightarrow> Some (s\<lparr>finisher := B_Clear\<rparr>)
     | WB_CLAIMED \<Rightarrow> Some (s\<lparr>finisher := B_Fatal\<rparr>)
     | WB_WAITING \<Rightarrow> Some (s\<lparr>finisher := B_Fatal\<rparr>)
     | _ \<Rightarrow> Some (s\<lparr>finisher := B_None\<rparr>))
   | B_Clear \<Rightarrow>
       Some (s\<lparr>wp_busy := if wp_busy s = WB_DETACHED then WB_IDLE else wp_busy s, finisher := B_None\<rparr>)
   | B_Post i \<Rightarrow> Some (s\<lparr>wp_env := update_status (wi_op i) (wp_result s) (wp_env s), finisher := B_None\<rparr>)
   | _ \<Rightarrow> None)"

section \<open>Reset\<close>

fun write_reset_step :: "write_port \<Rightarrow> write_port option" where
  "write_reset_step s = (case wresetter s of
     Y_Load \<Rightarrow> (case wp_busy s of
       WB_IDLE \<Rightarrow> Some (s\<lparr>wresetter := Y_Cas_Idle\<rparr>)
     | WB_WAITING \<Rightarrow> Some (s\<lparr>wresetter := Y_Cas_Wait\<rparr>)
     | _ \<Rightarrow> Some (s\<lparr>wresetter := Y_None\<rparr>))
   | Y_Cas_Idle \<Rightarrow>
       if wp_busy s = WB_IDLE then Some (s\<lparr>wp_busy := WB_RESETTING, wresetter := Y_Data WB_IDLE\<rparr>)
       else Some (s\<lparr>wresetter := Y_Load\<rparr>)
   | Y_Cas_Wait \<Rightarrow>
       if wp_busy s = WB_WAITING then Some (s\<lparr>wp_busy := WB_RESETTING, wresetter := Y_Data WB_DETACHED\<rparr>)
       else Some (s\<lparr>wresetter := Y_Load\<rparr>)
   | Y_Data b \<Rightarrow> Some (s\<lparr>wp_data := lfq_reset (wp_data s), wresetter := Y_Info b\<rparr>)
   | Y_Info b \<Rightarrow> Some (s\<lparr>wp_infos := lfq_reset (wp_infos s), wresetter := Y_Result b\<rparr>)
   | Y_Result b \<Rightarrow> Some (s\<lparr>wp_result := OK, wresetter := Y_Store b\<rparr>)
   | Y_Store b \<Rightarrow> Some (s\<lparr>wp_busy := b, wresetter := Y_None\<rparr>)
   | Y_None \<Rightarrow> None)"

section \<open>Runs\<close>

definition write_port_new :: "write_info lfq \<Rightarrow> u8 lfq \<Rightarrow> write_port" where
  "write_port_new qi qd = \<lparr>wp_writable = False, wp_infos = qi, wp_data = qd, wp_busy = WB_IDLE, wp_result = OK,
     wp_env = \<lparr>sem_value = \<lambda>_. 0, poll_status = \<lambda>_. READY, callback_runs = []\<rparr>,
     wp_stream = stream_open OP_NONE, w_info = \<lparr>wi_addr = None, wi_size = 0, wi_op = OP_NONE\<rparr>,
     w_bytes = [], w_meta = False, w_in_isr = False, writer = W_None, in_flight = [], finisher = B_None,
     wresetter = Y_None, published = [], sent = [], unpublished = [], w_ticket = 0, fin_ticket = 0,
     last_finish = None\<rparr>"

definition set_write_fun :: "write_port \<Rightarrow> write_port" where
  "set_write_fun s = s\<lparr>wp_writable := True\<rparr>"

definition write_step :: "write_event \<Rightarrow> write_port \<Rightarrow> write_port option" where
  "write_step e s = (case submit_step s of Some s' \<Rightarrow> Some s' | None \<Rightarrow> await_step e s)"

definition writer_ready :: "write_port \<Rightarrow> bool" where
  "writer_ready s = (case writer s of W_None \<Rightarrow> True | W_Ret _ \<Rightarrow> True | _ \<Rightarrow> False)"

text \<open>\<open>Finish\<close> as an interrupt: it runs to its end.\<close>

fun finish_run :: "nat \<Rightarrow> write_port \<Rightarrow> write_port option" where
  "finish_run 0 s = None"
| "finish_run (Suc n) s = (if finisher s = B_None then Some s
     else case finish_write_step s of None \<Rightarrow> None | Some s1 \<Rightarrow> finish_run n s1)"

definition finish_interrupt :: "error_code \<Rightarrow> nat \<times> write_info \<Rightarrow> write_port \<Rightarrow> write_port option" where
  "finish_interrupt ans f s = finish_run 5 (s\<lparr>finisher := B_Result ans (snd f), fin_ticket := fst f\<rparr>)"

datatype wp_event = Set_Write_Fun | Write_Call nat "u8 list" operation_type bool | Write write_event |
  Consume error_code | Open_Stream operation_type | Append "u8 list" | Commit_Stream | Discard_Stream |
  Take | Finish_Interrupt error_code | Finish_Call error_code | Finish_Step | Write_Reset | Write_Reset_Step

text \<open>The writes that are not finished, with their tickets.\<close>

definition outstanding :: "write_port \<Rightarrow> (nat \<times> write_info) list" where
  "outstanding s = in_flight s @ List.enumerate (length (sent s)) (lfq_contents (wp_infos s))"

text \<open>The events of all threads. A stream is opened when the last one is closed. The backend takes
  operations in order and finishes them in order; \<open>Consume\<close> is a \<open>write_fun_\<close> that handles the
  operation on the spot and answers with its code, any other answer but PENDING says that the
  operation has been finished.\<close>

fun wp_event_step :: "wp_event \<Rightarrow> write_port \<Rightarrow> write_port option" where
  "wp_event_step Set_Write_Fun s = Some (set_write_fun s)"
| "wp_event_step (Write_Call addr bytes op in_isr) s =
     (if writer_ready s \<and> \<not> (is_block op \<and> in_isr) then Some (write_call addr bytes op in_isr s) else None)"
| "wp_event_step (Write e) s =
     (case (writer s, e) of
        (W_Fun, W_Answer ans) \<Rightarrow> if ans = PENDING \<or> outstanding s = [] then write_step e s else None
      | _ \<Rightarrow> write_step e s)"
| "wp_event_step (Consume ans) s =
     (if writer s = W_Fun \<and> in_flight s = [] \<and> lfq_size (wp_infos s) = 1 \<and> ans \<noteq> PENDING
      then map_option (\<lambda>(s1, i). s1\<lparr>writer := W_Sync ans\<rparr>) (take_write s) else None)"
| "wp_event_step (Open_Stream op) s =
     (if writer_ready s \<and> \<not> owns_port (wp_stream s)
      then Some (fst (stream_acquire (s\<lparr>wp_stream := stream_open op\<rparr>))) else None)"
| "wp_event_step (Append data) s = (if writer_ready s then stream_append data s else None)"
| "wp_event_step Commit_Stream s = (if writer_ready s then Some (stream_commit s) else None)"
| "wp_event_step Discard_Stream s = (if writer_ready s then Some (stream_discard s) else None)"
| "wp_event_step Take s =
     map_option (\<lambda>(s1, i). s1\<lparr>in_flight := in_flight s1 @ [(length (sent s), i)]\<rparr>) (take_write s)"
| "wp_event_step (Finish_Interrupt ans) s = (case in_flight s of [] \<Rightarrow> None | f # fs \<Rightarrow>
     if finisher s = B_None then finish_interrupt ans f (s\<lparr>in_flight := fs\<rparr>) else None)"
| "wp_event_step (Finish_Call ans) s = (case in_flight s of [] \<Rightarrow> None | f # fs \<Rightarrow>
     if finisher s = B_None
     then Some (s\<lparr>in_flight := fs, finisher := B_Result ans (snd f), fin_ticket := fst f\<rparr>) else None)"
| "wp_event_step Finish_Step s = finish_write_step s"
| "wp_event_step Write_Reset s = (if wresetter s = Y_None then Some (s\<lparr>wresetter := Y_Load\<rparr>) else None)"
| "wp_event_step Write_Reset_Step s = write_reset_step s"

fun wp_run :: "wp_event list \<Rightarrow> write_port \<Rightarrow> write_port option" where
  "wp_run [] s = Some s"
| "wp_run (e # es) s = (case wp_event_step e s of None \<Rightarrow> None | Some s' \<Rightarrow> wp_run es s')"

text \<open>The events of a port whose completions are interrupts, that nobody resets and no stream discards.\<close>

fun normal_event :: "wp_event \<Rightarrow> bool" where
  "normal_event (Finish_Call ans) = False"
| "normal_event Finish_Step = False"
| "normal_event Write_Reset = False"
| "normal_event Write_Reset_Step = False"
| "normal_event Discard_Stream = False"
| "normal_event _ = True"

inductive wp_reach :: "write_port \<Rightarrow> bool" where
  new: "lfq_wf qi \<Longrightarrow> lfq_wf qd \<Longrightarrow> lfq_contents qi = [] \<Longrightarrow> lfq_contents qd = [] \<Longrightarrow>
    wp_reach (write_port_new qi qd)"
| step: "wp_reach s \<Longrightarrow> normal_event e \<Longrightarrow> wp_event_step e s = Some s' \<Longrightarrow> wp_reach s'"

section \<open>The bytes\<close>

text \<open>The data queue holds the bytes of the queued operations in order and then the unpublished ones.\<close>

definition frames_ok :: "write_port \<Rightarrow> bool" where
  "frames_ok s \<longleftrightarrow> lfq_wf (wp_infos s) \<and> lfq_wf (wp_data s) \<and>
     (\<exists>ps. published s = sent s @ ps \<and> map length ps = map wi_size (lfq_contents (wp_infos s)) \<and>
       lfq_contents (wp_data s) = concat ps @ unpublished s)"

lemma frames_ok_cong:
  "wp_infos s' = wp_infos s \<Longrightarrow> wp_data s' = wp_data s \<Longrightarrow> published s' = published s \<Longrightarrow> sent s' = sent s \<Longrightarrow>
   unpublished s' = unpublished s \<Longrightarrow> frames_ok s' = frames_ok s"
  by (simp add: frames_ok_def)

lemma lfq_push_props:
  assumes "lfq_wf q" "lfq_push q x = Some (q', OK)"
  shows "lfq_wf q'" "lfq_contents q' = lfq_contents q @ [x]"
  using assms lfq_written_props [of q 1 "[x]"] by (auto simp: lfq_push_eq split: if_splits)

lemma lfq_push_batch_props:
  assumes "lfq_wf q" "lfq_push_batch q xs n = Some (q', ec)" "n \<le> length xs"
  shows "lfq_wf q'" "lfq_contents q' = lfq_contents q @ (if ec = OK then take n xs else [])"
  using assms lfq_written_props [of q n xs] by (auto simp: lfq_push_batch_eq split: if_splits)

lemma take_write_eq:
  assumes "lfq_wf (wp_infos s)" "lfq_wf (wp_data s)"
  shows "take_write s = (let i = hd (lfq_contents (wp_infos s)) in
    if lfq_size (wp_infos s) = 0 \<or> lfq_size (wp_data s) < wi_size i then None
    else Some (s\<lparr>wp_infos := lfq_dropped (wp_infos s) 1, wp_data := lfq_dropped (wp_data s) (wi_size i),
      sent := sent s @ [take (wi_size i) (lfq_contents (wp_data s))]\<rparr>, i))"
  using assms
  by (simp add: take_write_def lfq_pop_eq lfq_pop_batch_eq lfq_out_def Let_def del: lfq_pop_batch.simps)

lemma take_write_frames:
  assumes "frames_ok s" "take_write s = Some (s', i)"
  shows "frames_ok s'" "lfq_contents (wp_infos s) = i # lfq_contents (wp_infos s')"
proof -
  from assms(1) obtain ps where ps: "lfq_wf (wp_infos s)" "lfq_wf (wp_data s)" "published s = sent s @ ps"
    "map length ps = map wi_size (lfq_contents (wp_infos s))"
    "lfq_contents (wp_data s) = concat ps @ unpublished s"
    by (auto simp: frames_ok_def)
  from assms(2) obtain ne: "0 < lfq_size (wp_infos s)" and i: "i = hd (lfq_contents (wp_infos s))"
    and sz: "wi_size i \<le> lfq_size (wp_data s)"
    and s': "s' = s\<lparr>wp_infos := lfq_dropped (wp_infos s) 1, wp_data := lfq_dropped (wp_data s) (wi_size i),
      sent := sent s @ [take (wi_size i) (lfq_contents (wp_data s))]\<rparr>"
    using ps(1,2) by (auto simp: take_write_eq Let_def split: if_splits)
  have cne: "lfq_contents (wp_infos s) \<noteq> []" using ne length_lfq_contents [of "wp_infos s"] by fastforce
  then obtain p ps' where p: "ps = p # ps'" using ps(4) by (cases ps) auto
  have lp: "length p = wi_size i" "map length ps' = map wi_size (tl (lfq_contents (wp_infos s)))"
    using ps(4) p i cne by (cases "lfq_contents (wp_infos s)"; simp)+
  note d = lfq_dropped_props [OF ps(1), of 1] lfq_dropped_props [OF ps(2) sz]
  show "frames_ok s'"
    using ps p lp d ne sz s' by (auto simp: frames_ok_def drop_Suc)
  show "lfq_contents (wp_infos s) = i # lfq_contents (wp_infos s')"
    using d(3) ne cne i by (simp add: s' drop_Suc)
qed

lemma take_write_same:
  assumes "frames_ok s" "take_write s = Some (s', i)"
  shows "wp_busy s' = wp_busy s" "wp_env s' = wp_env s" "writer s' = writer s" "wp_stream s' = wp_stream s"
    "w_ticket s' = w_ticket s" "published s' = published s" "length (sent s') = Suc (length (sent s))"
    "w_info s' = w_info s" "w_bytes s' = w_bytes s" "w_meta s' = w_meta s" "w_in_isr s' = w_in_isr s"
    "finisher s' = finisher s" "unpublished s' = unpublished s" "last_finish s' = last_finish s"
    "wp_result s' = wp_result s" "in_flight s' = in_flight s"
    "lfq_LENGTH (wp_infos s') = lfq_LENGTH (wp_infos s)" "lfq_LENGTH (wp_data s') = lfq_LENGTH (wp_data s)"
    "lfq_size (wp_data s') \<le> lfq_size (wp_data s)"
  using assms lfq_dropped_props(2) [of "wp_data s" "wi_size i"]
  by (auto simp: take_write_eq frames_ok_def Let_def lfq_dropped_def split: if_splits)

section \<open>The invariant\<close>

abbreviation n_blocks :: "(nat \<times> write_info) list \<Rightarrow> nat" where
  "n_blocks os \<equiv> length (filter (\<lambda>f. is_block (wi_op (snd f))) os)"

lemma outstanding_simps [simp]:
  "outstanding (s\<lparr>wp_busy := b\<rparr>) = outstanding s" "outstanding (s\<lparr>wp_env := v\<rparr>) = outstanding s"
  "outstanding (s\<lparr>writer := p\<rparr>) = outstanding s" "outstanding (s\<lparr>wp_stream := st\<rparr>) = outstanding s"
  "outstanding (s\<lparr>wp_result := r\<rparr>) = outstanding s" "outstanding (s\<lparr>last_finish := f\<rparr>) = outstanding s"
  "outstanding (s\<lparr>wp_data := d\<rparr>) = outstanding s" "outstanding (s\<lparr>unpublished := u\<rparr>) = outstanding s"
  "outstanding (s\<lparr>published := l\<rparr>) = outstanding s" "outstanding (s\<lparr>w_ticket := n\<rparr>) = outstanding s"
  "outstanding (s\<lparr>fin_ticket := n\<rparr>) = outstanding s"
  "outstanding (s\<lparr>w_info := i\<rparr>) = outstanding s" "outstanding (s\<lparr>w_bytes := u\<rparr>) = outstanding s"
  "outstanding (s\<lparr>w_meta := x\<rparr>) = outstanding s" "outstanding (s\<lparr>w_in_isr := x\<rparr>) = outstanding s"
  "outstanding (s\<lparr>wp_writable := x\<rparr>) = outstanding s" "outstanding (s\<lparr>finisher := g\<rparr>) = outstanding s"
  by (simp_all add: outstanding_def)

definition w_zero :: "write_port \<Rightarrow> bool" where
  "w_zero s \<longleftrightarrow> (\<forall>k. sem_value (wp_env s) k = 0)"

definition infos_room :: "write_port \<Rightarrow> bool" where
  "infos_room s \<longleftrightarrow> lfq_size (wp_infos s) < lfq_LENGTH (wp_infos s)"

text \<open>Nobody is inside \<open>CommitWrite\<close>: a stream owns the port, or the port is idle, or a BLOCK write that
  timed out is still on its way.\<close>

definition at_rest :: "write_port \<Rightarrow> bool" where
  "at_rest s \<longleftrightarrow> w_zero s \<and>
     (if owns_port (wp_stream s)
      then wp_busy s = WB_LOCKED \<and> n_blocks (outstanding s) = 0 \<and> infos_room s \<and>
        buffered_size (wp_stream s) = length (unpublished s)
      else unpublished s = [] \<and> buffered_size (wp_stream s) = 0 \<and>
        (wp_busy s = WB_IDLE \<and> n_blocks (outstanding s) = 0 \<or>
         wp_busy s = WB_DETACHED \<and> n_blocks (outstanding s) = 1))"

text \<open>Inside \<open>CommitWrite\<close> the port is locked for the direct call or for the stream.\<close>

definition w_path :: "write_port \<Rightarrow> bool" where
  "w_path s \<longleftrightarrow> (if w_meta s then owns_port (wp_stream s)
     else \<not> owns_port (wp_stream s) \<and> buffered_size (wp_stream s) = 0)"

definition w_locked :: "write_busy \<Rightarrow> write_port \<Rightarrow> bool" where
  "w_locked b s \<longleftrightarrow> w_path s \<and> wp_busy s = b \<and> n_blocks (outstanding s) = 0 \<and> w_zero s"

text \<open>A BLOCK write is on its way, or its completion has claimed the waiter.\<close>

definition w_awaited :: "write_busy \<Rightarrow> write_port \<Rightarrow> bool" where
  "w_awaited b s \<longleftrightarrow> w_path s \<and> unpublished s = [] \<and> wp_busy s = b \<and> n_blocks (outstanding s) = 1 \<and> w_zero s \<and>
     (\<forall>f \<in> set (outstanding s). is_block (wi_op (snd f)) \<longrightarrow> wi_op (snd f) = w_op s \<and> fst f = w_ticket s)"

text \<open>The writer's own write is published; the backend has taken it, with its bytes; it has been
  completed with the result that the port holds.\<close>

definition own_frame :: "write_port \<Rightarrow> bool" where
  "own_frame s \<longleftrightarrow> w_ticket s < length (published s) \<and> (\<not> w_meta s \<longrightarrow> published s ! w_ticket s = w_bytes s)"

definition own_sent :: "write_port \<Rightarrow> bool" where
  "own_sent s \<longleftrightarrow> own_frame s \<and> w_ticket s < length (sent s)"

definition own_finish :: "write_port \<Rightarrow> bool" where
  "own_finish s \<longleftrightarrow> own_sent s \<and> last_finish s = Some (w_ticket s, wp_result s)"

definition flight_ok :: "write_port \<Rightarrow> bool" where
  "flight_ok s \<longleftrightarrow> (\<forall>f \<in> set (in_flight s). fst f < length (sent s))"

definition w_claimed :: "write_port \<Rightarrow> bool" where
  "w_claimed s \<longleftrightarrow> w_path s \<and> unpublished s = [] \<and> wp_busy s = WB_CLAIMED \<and> n_blocks (outstanding s) = 0 \<and>
     own_finish s \<and>
     (\<exists>k. w_op s = OP_BLOCK k \<and> sem_value (wp_env s) = (\<lambda>_. 0)(k := 1))"

fun writer_inv :: "write_pc \<Rightarrow> write_port \<Rightarrow> bool" where
  "writer_inv W_None s \<longleftrightarrow> at_rest s"
| "writer_inv (W_Ret ec) s \<longleftrightarrow> at_rest s"
| "writer_inv W_Cas s \<longleftrightarrow> at_rest s \<and> \<not> w_meta s \<and> length (w_bytes s) = wi_size (w_info s)"
| "writer_inv W_Room s \<longleftrightarrow> w_locked WB_LOCKED s \<and> \<not> w_meta s \<and> unpublished s = [] \<and>
     length (w_bytes s) = wi_size (w_info s)"
| "writer_inv W_Space s \<longleftrightarrow> w_locked WB_LOCKED s \<and> \<not> w_meta s \<and> unpublished s = [] \<and> infos_room s \<and>
     length (w_bytes s) = wi_size (w_info s)"
| "writer_inv W_Fill s \<longleftrightarrow> w_locked WB_LOCKED s \<and> \<not> w_meta s \<and> unpublished s = [] \<and> infos_room s \<and>
     length (w_bytes s) = wi_size (w_info s) \<and> lfq_size (wp_data s) + wi_size (w_info s) \<le> lfq_LENGTH (wp_data s)"
| "writer_inv W_Publish s \<longleftrightarrow> w_locked WB_LOCKED s \<and> is_block (w_op s) \<and> infos_room s \<and>
     length (unpublished s) = wi_size (w_info s) \<and> (\<not> w_meta s \<longrightarrow> unpublished s = w_bytes s)"
| "writer_inv W_Push s \<longleftrightarrow> w_locked (if is_block (w_op s) then WB_PUBLISHING else WB_LOCKED) s \<and> infos_room s \<and>
     length (unpublished s) = wi_size (w_info s) \<and> (\<not> w_meta s \<longrightarrow> unpublished s = w_bytes s)"
| "writer_inv W_Mark s \<longleftrightarrow> unpublished s = [] \<and> own_frame s \<and>
     (if is_block (w_op s) then w_awaited WB_PUBLISHING s \<or> w_claimed s else w_locked WB_LOCKED s)"
| "writer_inv W_Arm s \<longleftrightarrow> is_block (w_op s) \<and> own_frame s \<and> (w_awaited WB_PUBLISHING s \<or> w_claimed s)"
| "writer_inv W_Fun s \<longleftrightarrow> unpublished s = [] \<and> own_frame s \<and>
     (if is_block (w_op s) then w_awaited WB_WAITING s \<or> w_claimed s else w_locked WB_LOCKED s)"
| "writer_inv W_Wait s \<longleftrightarrow> is_block (w_op s) \<and> own_frame s \<and> (w_awaited WB_WAITING s \<or> w_claimed s)"
| "writer_inv W_Cancel s \<longleftrightarrow> is_block (w_op s) \<and> own_frame s \<and> (w_awaited WB_WAITING s \<or> w_claimed s)"
| "writer_inv (W_Sync ans) s \<longleftrightarrow> unpublished s = [] \<and> own_sent s \<and>
     (if is_block (w_op s) then w_locked WB_WAITING s \<or> w_claimed s else w_locked WB_LOCKED s)"
| "writer_inv (W_Open ec) s \<longleftrightarrow> unpublished s = [] \<and> (w_meta s \<longrightarrow> is_block (w_op s)) \<and>
     (w_locked WB_LOCKED s \<or> w_locked WB_WAITING s)"
| "writer_inv (W_Status ans) s \<longleftrightarrow> unpublished s = [] \<and> \<not> is_block (w_op s) \<and>
     w_locked (if w_meta s then WB_LOCKED else WB_IDLE) s"
| "writer_inv W_Release s \<longleftrightarrow> unpublished s = [] \<and> is_block (w_op s) \<and> w_locked WB_CLAIMED s \<and> own_finish s"
| "writer_inv W_Give s \<longleftrightarrow> unpublished s = [] \<and> is_block (w_op s) \<and> w_locked WB_CLAIMED s \<and> own_finish s"
| "writer_inv W_Drain s \<longleftrightarrow> is_block (w_op s) \<and> w_claimed s"
| "writer_inv W_Result s \<longleftrightarrow> unpublished s = [] \<and> is_block (w_op s) \<and> w_locked WB_IDLE s \<and> own_finish s"
| "writer_inv (W_Free ec) s \<longleftrightarrow> unpublished s = [] \<and> w_meta s \<and> \<not> is_block (w_op s) \<and>
     buffered_size (wp_stream s) = 0 \<and> w_locked WB_LOCKED s"
| "writer_inv W_Spin s \<longleftrightarrow> False"
| "writer_inv W_Reopen s \<longleftrightarrow> False"
| "writer_inv W_Fatal s \<longleftrightarrow> False"

definition wp_inv :: "write_port \<Rightarrow> bool" where
  "wp_inv s \<longleftrightarrow> frames_ok s \<and> flight_ok s \<and> \<not> (is_block (w_op s) \<and> w_in_isr s) \<and> finisher s = B_None \<and> writer_inv (writer s) s"

lemmas w_defs = at_rest_def w_path_def w_locked_def w_awaited_def w_claimed_def w_zero_def infos_room_def

lemma lfq_empty_size_eq: "lfq_wf q \<Longrightarrow> lfq_empty_size q = lfq_LENGTH q - lfq_size q \<and> lfq_size q \<le> lfq_LENGTH q"
  using lfq_sizes [of q] by (simp add: lfq_empty_size_def)

lemma frames_updates [simp]:
  "frames_ok (s\<lparr>wp_busy := b\<rparr>) = frames_ok s" "frames_ok (s\<lparr>wp_env := v\<rparr>) = frames_ok s"
  "frames_ok (s\<lparr>writer := p\<rparr>) = frames_ok s" "frames_ok (s\<lparr>wp_stream := st\<rparr>) = frames_ok s"
  "frames_ok (s\<lparr>wp_result := e\<rparr>) = frames_ok s" "frames_ok (s\<lparr>last_finish := f\<rparr>) = frames_ok s"
  "frames_ok (s\<lparr>in_flight := os\<rparr>) = frames_ok s" "frames_ok (s\<lparr>finisher := g\<rparr>) = frames_ok s"
  "frames_ok (s\<lparr>w_info := i\<rparr>) = frames_ok s" "frames_ok (s\<lparr>w_bytes := u\<rparr>) = frames_ok s"
  "frames_ok (s\<lparr>w_meta := x\<rparr>) = frames_ok s" "frames_ok (s\<lparr>w_in_isr := x\<rparr>) = frames_ok s"
  "frames_ok (s\<lparr>wp_writable := x\<rparr>) = frames_ok s" "frames_ok (s\<lparr>w_ticket := n\<rparr>) = frames_ok s"
  "frames_ok (s\<lparr>fin_ticket := n\<rparr>) = frames_ok s"
  by (simp_all add: frames_ok_def)

lemma own_congs:
  assumes "published s' = published s" "w_meta s' = w_meta s" "w_bytes s' = w_bytes s" "w_ticket s' = w_ticket s"
  shows "own_frame s' = own_frame s"
    and "length (sent s) \<le> length (sent s') \<Longrightarrow> own_sent s \<Longrightarrow> own_sent s'"
    and "length (sent s) \<le> length (sent s') \<Longrightarrow> wp_result s' = wp_result s \<Longrightarrow> last_finish s' = last_finish s \<Longrightarrow>
      own_finish s \<Longrightarrow> own_finish s'"
  using assms by (auto simp: own_frame_def own_sent_def own_finish_def)

lemma flight_updates [simp]:
  "flight_ok (s\<lparr>wp_busy := b\<rparr>) = flight_ok s" "flight_ok (s\<lparr>wp_env := v\<rparr>) = flight_ok s"
  "flight_ok (s\<lparr>writer := p\<rparr>) = flight_ok s" "flight_ok (s\<lparr>wp_stream := st\<rparr>) = flight_ok s"
  "flight_ok (s\<lparr>wp_result := e\<rparr>) = flight_ok s" "flight_ok (s\<lparr>last_finish := f\<rparr>) = flight_ok s"
  "flight_ok (s\<lparr>wp_infos := qi\<rparr>) = flight_ok s" "flight_ok (s\<lparr>finisher := g\<rparr>) = flight_ok s"
  "flight_ok (s\<lparr>w_info := i\<rparr>) = flight_ok s" "flight_ok (s\<lparr>w_bytes := u\<rparr>) = flight_ok s"
  "flight_ok (s\<lparr>w_meta := x\<rparr>) = flight_ok s" "flight_ok (s\<lparr>w_in_isr := x\<rparr>) = flight_ok s"
  "flight_ok (s\<lparr>wp_writable := x\<rparr>) = flight_ok s" "flight_ok (s\<lparr>wp_data := qd\<rparr>) = flight_ok s"
  "flight_ok (s\<lparr>published := l\<rparr>) = flight_ok s" "flight_ok (s\<lparr>unpublished := u\<rparr>) = flight_ok s"
  "flight_ok (s\<lparr>w_ticket := n\<rparr>) = flight_ok s" "flight_ok (s\<lparr>fin_ticket := n\<rparr>) = flight_ok s"
  by (simp_all add: flight_ok_def)

lemma own_updates [simp]:
  "own_frame (s\<lparr>wp_busy := b\<rparr>) = own_frame s" "own_frame (s\<lparr>wp_env := v\<rparr>) = own_frame s"
  "own_frame (s\<lparr>writer := p\<rparr>) = own_frame s" "own_frame (s\<lparr>wp_stream := st\<rparr>) = own_frame s"
  "own_sent (s\<lparr>wp_busy := b\<rparr>) = own_sent s" "own_sent (s\<lparr>wp_env := v\<rparr>) = own_sent s"
  "own_sent (s\<lparr>writer := p\<rparr>) = own_sent s" "own_sent (s\<lparr>wp_stream := st\<rparr>) = own_sent s"
  "own_finish (s\<lparr>wp_busy := b\<rparr>) = own_finish s" "own_finish (s\<lparr>wp_env := v\<rparr>) = own_finish s"
  "own_finish (s\<lparr>writer := p\<rparr>) = own_finish s" "own_finish (s\<lparr>wp_stream := st\<rparr>) = own_finish s"
  by (simp_all add: own_frame_def own_sent_def own_finish_def)

lemma submit_inv:
  assumes inv: "wp_inv s" and step: "submit_step s = Some s'"
  shows "wp_inv s'"
proof -
  have fr: "frames_ok s" and r: "writer_inv (writer s) s"
    and c: "\<not> (is_block (w_op s) \<and> w_in_isr s)" "finisher s = B_None" "flight_ok s"
    using inv by (simp_all add: wp_inv_def)
  have wf: "lfq_wf (wp_infos s)" "lfq_wf (wp_data s)" using fr by (simp_all add: frames_ok_def)
  note es = lfq_empty_size_eq [OF wf(1)] lfq_empty_size_eq [OF wf(2)]
  show ?thesis
  proof (cases "writer s")
    case W_Cas
    then show ?thesis using step r c fr
      by (auto simp: wp_inv_def at_rest_def w_locked_def w_path_def w_zero_def infos_room_def split: if_splits)
  next
    case W_Room
    then show ?thesis using step r c fr es
      by (auto simp: wp_inv_def w_locked_def w_path_def w_zero_def infos_room_def split: if_splits)
  next
    case W_Space
    then show ?thesis using step r c fr es
      by (auto simp: wp_inv_def w_locked_def w_path_def w_zero_def infos_room_def split: if_splits)
  next
    case W_Fill
    have len: "wi_size (w_info s) \<le> length (w_bytes s)" using r W_Fill by simp
    have eq: "lfq_push_batch (wp_data s) (w_bytes s) (wi_size (w_info s)) =
        Some (lfq_written (wp_data s) (w_bytes s) (wi_size (w_info s)), OK)"
      using r W_Fill lfq_push_batch_eq [OF wf(2) len] by simp
    let ?q = "lfq_written (wp_data s) (w_bytes s) (wi_size (w_info s))"
    have "frames_ok (s\<lparr>wp_data := ?q, unpublished := unpublished s @ w_bytes s, writer := p\<rparr>)" for p
      using fr r W_Fill lfq_push_batch_props [OF wf(2) eq len] by (auto simp: frames_ok_def)
    then show ?thesis using step r c W_Fill eq
      by (auto simp: wp_inv_def w_locked_def w_path_def w_zero_def infos_room_def)
  next
    case W_Publish
    then show ?thesis using step r c fr
      by (auto simp: wp_inv_def w_locked_def w_path_def w_zero_def infos_room_def)
  next
    case W_Push
    have eq: "lfq_push (wp_infos s) (w_info s) = Some (lfq_written (wp_infos s) [w_info s] 1, OK)"
      using r W_Push lfq_push_eq [OF wf(1), of "w_info s"] by (simp add: infos_room_def)
    note q = lfq_push_props [OF wf(1) eq]
    have fr': "frames_ok (s\<lparr>wp_infos := lfq_written (wp_infos s) [w_info s] 1, published := published s @ [unpublished s],
        unpublished := [], w_ticket := length (published s), writer := W_Mark\<rparr>)"
      using fr q r W_Push by (auto simp: frames_ok_def)
    have own: "own_frame (s\<lparr>wp_infos := qi, published := published s @ [unpublished s], unpublished := [],
        w_ticket := length (published s), writer := p\<rparr>)" for qi p
      using r W_Push by (simp add: own_frame_def)
    have len: "length (published s) = length (sent s) + length (lfq_contents (wp_infos s))"
      using fr map_eq_imp_length_eq by (fastforce simp: frames_ok_def)
    show ?thesis
    proof (cases "is_block (w_op s)")
      case True
      then show ?thesis using step r c fr' W_Push eq q(2) own len
        by (auto simp: wp_inv_def w_locked_def w_awaited_def w_path_def w_zero_def outstanding_def filter_empty_conv
          enumerate_append_eq)
    next
      case False
      then show ?thesis using step r c fr' W_Push eq q(2) own
        by (auto simp: wp_inv_def w_locked_def w_path_def w_zero_def outstanding_def enumerate_append_eq)
    qed
  next
    case W_Mark
    show ?thesis
    proof (cases "is_block (w_op s)")
      case True
      then have "w_awaited WB_PUBLISHING s \<or> w_claimed s" "own_frame s" using r W_Mark by simp_all
      moreover have "s' = s\<lparr>wp_env := if w_meta s then mark_as_running (w_op s) (wp_env s) else wp_env s,
          writer := W_Arm\<rparr>" using step W_Mark True by simp
      ultimately show ?thesis using c fr True
        by (auto simp: wp_inv_def w_awaited_def w_claimed_def w_path_def w_zero_def)
    next
      case False
      then show ?thesis using step r c fr W_Mark
        by (auto simp: wp_inv_def w_locked_def w_path_def w_zero_def)
    qed
  next
    case W_Arm
    then show ?thesis using step r c fr
      by (auto simp: wp_inv_def w_awaited_def w_claimed_def w_path_def w_zero_def split: if_splits)
  qed (use step in simp_all)
qed

text \<open>Returning from \<open>CommitWrite\<close> with the port released.\<close>

lemma w_return_simps [simp]:
  "wp_infos (w_return ec s) = wp_infos s" "wp_data (w_return ec s) = wp_data s"
  "published (w_return ec s) = published s" "sent (w_return ec s) = sent s"
  "unpublished (w_return ec s) = unpublished s" "wp_busy (w_return ec s) = wp_busy s"
  "wp_env (w_return ec s) = wp_env s" "in_flight (w_return ec s) = in_flight s"
  "finisher (w_return ec s) = finisher s" "w_info (w_return ec s) = w_info s"
  "w_in_isr (w_return ec s) = w_in_isr s" "outstanding (w_return ec s) = outstanding s"
  "flight_ok (w_return ec s) = flight_ok s"
  by (simp_all add: w_return_def Let_def outstanding_def flight_ok_def)

lemma w_return_frames [simp]: "frames_ok (w_return ec s) = frames_ok s"
  by (rule frames_ok_cong) simp_all

lemma w_return_rest:
  assumes "w_path s" "w_zero s" "unpublished s = []" "w_meta s \<Longrightarrow> is_block (w_op s)"
    and "wp_busy s = WB_IDLE \<and> n_blocks (outstanding s) = 0 \<or> wp_busy s = WB_DETACHED \<and> n_blocks (outstanding s) = 1"
  shows "writer_inv (writer (w_return ec s)) (w_return ec s)"
  using assms by (cases "w_meta s") (auto simp: w_return_def at_rest_def w_path_def w_zero_def outstanding_def)

lemma none_outstanding: "frames_ok s \<Longrightarrow> outstanding s = [] \<Longrightarrow> own_frame s \<Longrightarrow> own_sent s"
  using map_eq_imp_length_eq
  by (fastforce simp: frames_ok_def outstanding_def own_frame_def own_sent_def enumerate_eq_zip)

lemma await_inv:
  assumes inv: "wp_inv s" and step: "await_step e s = Some s'"
    and ans: "\<And>a. writer s = W_Fun \<Longrightarrow> e = W_Answer a \<Longrightarrow> a = PENDING \<or> outstanding s = []"
  shows "wp_inv s'"
proof -
  have fr: "frames_ok s" and r: "writer_inv (writer s) s"
    and c: "\<not> (is_block (w_op s) \<and> w_in_isr s)" "finisher s = B_None" "flight_ok s"
    using inv by (simp_all add: wp_inv_def)
  show ?thesis
  proof (cases "writer s")
    case W_Fun
    then obtain a where a: "e = W_Answer a" using step by (cases e) auto
    show ?thesis
    proof (cases "is_block (w_op s)")
      case True
      then have "a = PENDING \<or> own_sent s" using ans [OF W_Fun a] none_outstanding [OF fr] r W_Fun by auto
      then show ?thesis using True step r c fr W_Fun a ans [OF W_Fun a]
        by (auto simp: wp_inv_def w_locked_def w_awaited_def w_claimed_def w_path_def w_zero_def split: if_splits)
    next
      case False
      show ?thesis
      proof (cases "a = PENDING \<and> w_meta s")
        case True
        then have "s' = w_return OK s" using step W_Fun a False by simp
        then show ?thesis using True False r c fr W_Fun
          by (simp add: wp_inv_def) (simp add: w_return_def w_locked_def w_path_def w_zero_def outstanding_def)
      next
        case f2: False
        have "a = PENDING \<or> own_sent s" using ans [OF W_Fun a] none_outstanding [OF fr] r W_Fun by auto
        then show ?thesis using f2 step r c fr W_Fun a False
          by (auto simp: wp_inv_def w_locked_def w_path_def w_zero_def split: if_splits)
      qed
    qed
  next
    case (W_Sync a)
    then show ?thesis using step r c fr
      by (auto simp: wp_inv_def w_locked_def w_claimed_def w_path_def w_zero_def split: if_splits)
  next
    case (W_Status a)
    let ?s = "s\<lparr>wp_env := update_status (w_op s) a (wp_env s)\<rparr>"
    have s': "s' = w_return (if error_code_value a < 0 then a else OK) ?s" using step W_Status by simp
    show ?thesis
    proof (cases "w_meta s")
      case True
      then show ?thesis using r c fr W_Status
        by (simp add: s' wp_inv_def) (simp add: w_return_def w_locked_def w_path_def w_zero_def outstanding_def)
    next
      case False
      then have "writer_inv (writer s') s'" using r W_Status unfolding s'
        by (intro w_return_rest) (simp_all add: w_locked_def w_path_def w_zero_def)
      then show ?thesis using c fr by (simp add: wp_inv_def s')
    qed
  next
    case (W_Open ec)
    have s': "s' = w_return ec (s\<lparr>wp_busy := WB_IDLE\<rparr>)" using step W_Open by simp
    have "writer_inv (writer s') s'" using r W_Open unfolding s'
      by (intro w_return_rest) (auto simp: w_locked_def w_path_def w_zero_def)
    then show ?thesis using c fr by (simp add: wp_inv_def s')
  next
    case W_Wait
    then show ?thesis using step r c fr
      by (auto simp: wp_inv_def w_locked_def w_awaited_def w_claimed_def w_path_def w_zero_def sem_take_Some
          split: write_event.splits operation_type.splits)
  next
    case W_Release
    then show ?thesis using step r c fr
      by (auto simp: wp_inv_def w_locked_def w_path_def w_zero_def)
  next
    case W_Give
    then show ?thesis using step r c fr
      by (auto simp: wp_inv_def w_locked_def w_path_def w_zero_def)
  next
    case W_Result
    have s': "s' = w_return (wp_result s) s" using step W_Result by simp
    have "writer_inv (writer s') s'" using r W_Result unfolding s'
      by (intro w_return_rest) (auto simp: w_locked_def)
    then show ?thesis using c fr by (simp add: wp_inv_def s')
  next
    case W_Cancel
    show ?thesis
    proof (cases "w_claimed s")
      case True
      then show ?thesis using step r c fr W_Cancel
        by (auto simp: wp_inv_def w_claimed_def w_path_def)
    next
      case False
      then have aw: "w_awaited WB_WAITING s" "is_block (w_op s)" using r W_Cancel by auto
      then have s': "s' = w_return TIMEOUT (s\<lparr>wp_busy := WB_DETACHED\<rparr>)"
        using step W_Cancel by (simp add: w_awaited_def)
      have "writer_inv (writer s') s'" using aw unfolding s'
        by (intro w_return_rest) (auto simp: w_awaited_def w_path_def w_zero_def)
      then show ?thesis using c fr by (simp add: wp_inv_def s')
    qed
  next
    case W_Drain
    then show ?thesis using step r c fr
      by (auto simp: wp_inv_def w_locked_def w_claimed_def w_path_def w_zero_def sem_take_Some)
  next
    case (W_Free ec)
    then show ?thesis using step r c fr
      by (auto simp: wp_inv_def w_locked_def at_rest_def w_path_def w_zero_def)
  qed (use step r in simp_all)
qed

text \<open>Steps of the backend that leave the control state alone keep the invariant of the writer.\<close>

definition same_control :: "write_port \<Rightarrow> write_port \<Rightarrow> bool" where
  "same_control s s' \<longleftrightarrow> wp_busy s' = wp_busy s \<and> sem_value (wp_env s') = sem_value (wp_env s) \<and>
     wp_stream s' = wp_stream s \<and> w_info s' = w_info s \<and> w_bytes s' = w_bytes s \<and> w_meta s' = w_meta s \<and>
     unpublished s' = unpublished s \<and> w_ticket s' = w_ticket s \<and> published s' = published s \<and>
     length (sent s) \<le> length (sent s') \<and> last_finish s' = last_finish s \<and> wp_result s' = wp_result s \<and>
     n_blocks (outstanding s') = n_blocks (outstanding s) \<and> set (outstanding s') \<subseteq> set (outstanding s) \<and>
     (infos_room s \<longrightarrow> infos_room s') \<and> lfq_size (wp_data s') \<le> lfq_size (wp_data s) \<and>
     lfq_LENGTH (wp_data s') = lfq_LENGTH (wp_data s)"

lemma same_control_parts:
  assumes "same_control s s'"
  shows "at_rest s \<Longrightarrow> at_rest s'" "w_locked b s \<Longrightarrow> w_locked b s'" "w_awaited b s \<Longrightarrow> w_awaited b s'"
    "w_claimed s \<Longrightarrow> w_claimed s'" "infos_room s \<Longrightarrow> infos_room s'"
    "own_frame s \<Longrightarrow> own_frame s'" "own_sent s \<Longrightarrow> own_sent s'" "own_finish s \<Longrightarrow> own_finish s'"
proof -
  show own: "own_frame s \<Longrightarrow> own_frame s'" "own_sent s \<Longrightarrow> own_sent s'" "own_finish s \<Longrightarrow> own_finish s'"
    using assms own_congs [of s' s] by (simp_all add: same_control_def)
  show "at_rest s \<Longrightarrow> at_rest s'"
    using assms unfolding same_control_def at_rest_def w_zero_def by (auto split: if_splits)
  show "w_locked b s \<Longrightarrow> w_locked b s'" using assms by (simp add: same_control_def w_locked_def w_path_def w_zero_def)
  show "w_awaited b s \<Longrightarrow> w_awaited b s'"
  proof -
    assume aw: "w_awaited b s"
    have "set (outstanding s') \<subseteq> set (outstanding s)" using assms by (simp add: same_control_def)
    then have "\<forall>f \<in> set (outstanding s'). is_block (wi_op (snd f)) \<longrightarrow> wi_op (snd f) = w_op s \<and> fst f = w_ticket s"
      using aw unfolding w_awaited_def by blast
    then show "w_awaited b s'" using assms aw
      by (simp add: same_control_def w_awaited_def w_path_def w_zero_def)
  qed
  show "w_claimed s \<Longrightarrow> w_claimed s'" using assms own(3) by (simp add: same_control_def w_claimed_def w_path_def)
  show "infos_room s \<Longrightarrow> infos_room s'" using assms by (simp add: same_control_def)
qed

lemma same_control_writer:
  assumes "same_control s s'" "writer_inv p s"
  shows "writer_inv p s'"
proof -
  have eqs: "w_info s' = w_info s" "w_bytes s' = w_bytes s" "w_meta s' = w_meta s" "wp_stream s' = wp_stream s"
    "unpublished s' = unpublished s" "last_finish s' = last_finish s" "wp_result s' = wp_result s"
    "lfq_size (wp_data s') \<le> lfq_size (wp_data s)" "lfq_LENGTH (wp_data s') = lfq_LENGTH (wp_data s)"
    using assms(1) by (simp_all add: same_control_def)
  note parts = same_control_parts [OF assms(1)]
  show ?thesis
    using assms(2) parts eqs by (cases p) (auto simp del: One_nat_def)
qed

text \<open>\<open>Finish\<close> when it runs to its end.\<close>

definition finished :: "error_code \<Rightarrow> nat \<times> write_info \<Rightarrow> write_port \<Rightarrow> write_port" where
  "finished ans f s0 = (let i = snd f; s = s0\<lparr>fin_ticket := fst f\<rparr> in
      if is_block (wi_op i)
      then (let s1 = s\<lparr>wp_result := ans, last_finish := Some (fst f, ans)\<rparr> in case wp_busy s of
          WB_DETACHED \<Rightarrow> s1\<lparr>wp_busy := WB_IDLE\<rparr>
        | WB_WAITING \<Rightarrow> s1\<lparr>wp_busy := WB_CLAIMED, wp_env := update_status (wi_op i) ans (wp_env s)\<rparr>
        | WB_PUBLISHING \<Rightarrow> s1\<lparr>wp_busy := WB_CLAIMED, wp_env := update_status (wi_op i) ans (wp_env s)\<rparr>
        | _ \<Rightarrow> s1)
      else s\<lparr>wp_env := update_status (wi_op i) ans (wp_env s)\<rparr>)"

lemma finish_interrupt_eq:
  assumes "finisher s = B_None" "is_block (wi_op (snd f)) \<longrightarrow> wp_busy s \<noteq> WB_CLAIMED"
  shows "finish_interrupt ans f s = Some (finished ans f s)"
  using assms
  by (cases "wp_busy s") (auto simp: finish_interrupt_def finished_def eval_nat_numeral Let_def)

lemma finished_simps [simp]:
  "wp_infos (finished ans f s) = wp_infos s" "wp_data (finished ans f s) = wp_data s"
  "published (finished ans f s) = published s" "sent (finished ans f s) = sent s"
  "unpublished (finished ans f s) = unpublished s" "in_flight (finished ans f s) = in_flight s"
  "finisher (finished ans f s) = finisher s" "w_info (finished ans f s) = w_info s"
  "w_in_isr (finished ans f s) = w_in_isr s" "writer (finished ans f s) = writer s"
  "wp_stream (finished ans f s) = wp_stream s" "w_meta (finished ans f s) = w_meta s"
  "w_bytes (finished ans f s) = w_bytes s" "outstanding (finished ans f s) = outstanding s"
  "w_ticket (finished ans f s) = w_ticket s" "frames_ok (finished ans f s) = frames_ok s"
  "own_frame (finished ans f s) = own_frame s" "own_sent (finished ans f s) = own_sent s"
  "flight_ok (finished ans f s) = flight_ok s"
  by (simp_all add: finished_def Let_def outstanding_def frames_ok_def own_frame_def own_sent_def flight_ok_def
      split: write_busy.split)

text \<open>A BLOCK write on its way is awaited or timed out.\<close>

lemma block_on_its_way:
  assumes "writer_inv (writer s) s" "0 < n_blocks (outstanding s)"
  shows "at_rest s \<and> writer s \<in> {W_None, W_Cas} \<union> range W_Ret \<and> wp_busy s = WB_DETACHED \<or>
    is_block (w_op s) \<and> (writer s \<in> {W_Mark, W_Arm} \<and> w_awaited WB_PUBLISHING s \<or>
      writer s \<in> {W_Fun, W_Wait, W_Cancel} \<and> w_awaited WB_WAITING s)"
  using assms
  by (cases "writer s") (auto simp: at_rest_def w_locked_def w_claimed_def split: if_splits)

lemma finish_inv:
  assumes inv: "wp_inv s" and fl: "in_flight s = f # fs"
  shows "finish_interrupt ans f (s\<lparr>in_flight := fs\<rparr>) = Some (finished ans f (s\<lparr>in_flight := fs\<rparr>))"
    and "wp_inv (finished ans f (s\<lparr>in_flight := fs\<rparr>))"
proof -
  let ?t = "s\<lparr>in_flight := fs\<rparr>" and ?i = "snd f"
  have fr: "frames_ok s" and r: "writer_inv (writer s) s"
    and c: "\<not> (is_block (w_op s) \<and> w_in_isr s)" "finisher s = B_None" "flight_ok s"
    using inv by (simp_all add: wp_inv_def)
  have os: "outstanding s = f # outstanding ?t" using fl by (simp add: outstanding_def)
  have tk: "fst f < length (sent s)" and flt: "flight_ok ?t" using c(3) fl by (simp_all add: flight_ok_def)
  have claims: "w_claimed (finished ans f ?t)"
    if a: "is_block (w_op s)" "own_frame s" "w_awaited b s" "b = WB_PUBLISHING \<or> b = WB_WAITING"
      and blk: "is_block (wi_op ?i)" for b
  proof -
    have op: "wi_op ?i = w_op s" "fst f = w_ticket s" using os blk a(3) by (auto simp: w_awaited_def)
    have n: "n_blocks (outstanding ?t) = 0" using os blk a(3) by (simp add: w_awaited_def)
    have "own_finish (finished ans f ?t)"
      using a tk op blk by (auto simp: own_finish_def own_sent_def own_frame_def finished_def Let_def w_awaited_def)
    moreover have "sem_value (wp_env s) = (\<lambda>_. 0)" using a(3) by (auto simp: w_awaited_def w_zero_def)
    ultimately show ?thesis
      using a n op blk by (cases "w_op s")
        (auto simp: w_awaited_def w_claimed_def finished_def Let_def w_path_def)
  qed
  have "finish_interrupt ans f ?t = Some (finished ans f ?t) \<and> writer_inv (writer s) (finished ans f ?t)"
  proof (cases "is_block (wi_op ?i)")
    case False
    then have "same_control s (finished ans f ?t)"
      using os by (auto simp: same_control_def finished_def infos_room_def)
    then have "writer_inv (writer s) (finished ans f ?t)" using r by (rule same_control_writer)
    then show ?thesis using finish_interrupt_eq [of ?t f ans] False c by simp
  next
    case True
    then have pos: "0 < n_blocks (outstanding s)" and n: "n_blocks (outstanding ?t) = n_blocks (outstanding s) - 1"
      using os by simp_all
    from block_on_its_way [OF r pos] show ?thesis
    proof (elim disjE conjE)
      assume a: "at_rest s" "writer s \<in> {W_None, W_Cas} \<union> range W_Ret" "wp_busy s = WB_DETACHED"
      have "at_rest (finished ans f ?t)"
        using a(1,3) n True by (simp add: at_rest_def w_zero_def finished_def Let_def split: if_splits)
      then have "writer_inv (writer s) (finished ans f ?t)" using a(2) r by auto
      then show ?thesis using finish_interrupt_eq [of ?t f ans] a(3) c by simp
    next
      assume a: "is_block (w_op s)" "writer s \<in> {W_Mark, W_Arm}" "w_awaited WB_PUBLISHING s"
      then have own: "own_frame s" using r by auto
      have "w_claimed (finished ans f ?t)" by (rule claims [OF a(1) own a(3) _ True]) simp
      then have "writer_inv (writer s) (finished ans f ?t)" using a own by (auto simp: w_claimed_def own_frame_def)
      then show ?thesis using finish_interrupt_eq [of ?t f ans] a(3) c by (simp add: w_awaited_def)
    next
      assume a: "is_block (w_op s)" "writer s \<in> {W_Fun, W_Wait, W_Cancel}" "w_awaited WB_WAITING s"
      then have own: "own_frame s" using r by auto
      have "w_claimed (finished ans f ?t)" by (rule claims [OF a(1) own a(3) _ True]) simp
      then have "writer_inv (writer s) (finished ans f ?t)" using a own by (auto simp: w_claimed_def own_frame_def)
      then show ?thesis using finish_interrupt_eq [of ?t f ans] a(3) c by (simp add: w_awaited_def)
    qed
  qed
  then show "finish_interrupt ans f ?t = Some (finished ans f ?t)" "wp_inv (finished ans f ?t)"
    using fr c flt by (simp_all add: wp_inv_def)
qed

text \<open>Taking an operation out of the metadata queue.\<close>

lemma take_outstanding:
  assumes fr: "frames_ok s" and t: "take_write s = Some (s1, i)"
  shows "outstanding (s1\<lparr>in_flight := in_flight s1 @ [(length (sent s), i)]\<rparr>) = outstanding s"
    and "in_flight s = [] \<Longrightarrow> outstanding s = (length (sent s), i) # outstanding s1"
    and "infos_room s \<Longrightarrow> infos_room s1"
proof -
  note c = take_write_frames(2) [OF fr t] and eqs = take_write_same [OF fr t]
  show "outstanding (s1\<lparr>in_flight := in_flight s1 @ [(length (sent s), i)]\<rparr>) = outstanding s"
    using c eqs by (simp add: outstanding_def)
  show "in_flight s = [] \<Longrightarrow> outstanding s = (length (sent s), i) # outstanding s1"
    using c eqs by (simp add: outstanding_def)
  have "lfq_size (wp_infos s1) < lfq_size (wp_infos s)"
    using arg_cong [OF c, of length] by simp
  then show "infos_room s \<Longrightarrow> infos_room s1" using eqs by (simp add: infos_room_def)
qed

lemma take_inv:
  assumes inv: "wp_inv s" and t: "take_write s = Some (s1, i)"
  shows "wp_inv (s1\<lparr>in_flight := in_flight s1 @ [(length (sent s), i)]\<rparr>)"
proof -
  let ?s = "s1\<lparr>in_flight := in_flight s1 @ [(length (sent s), i)]\<rparr>"
  have fr: "frames_ok s" and r: "writer_inv (writer s) s" using inv by (simp_all add: wp_inv_def)
  note eqs = take_write_same [OF fr t]
  note o = take_outstanding [OF fr t]
  have room: "infos_room s \<Longrightarrow> infos_room ?s" using o(3) by (simp add: infos_room_def)
  have "same_control s ?s" using o(1) room eqs by (simp add: same_control_def)
  then have "writer_inv (writer s) ?s" using r by (rule same_control_writer)
  moreover have "flight_ok ?s" using inv by (auto simp: wp_inv_def flight_ok_def eqs)
  ultimately show ?thesis using inv take_write_frames(1) [OF fr t] by (simp add: wp_inv_def eqs)
qed

lemma consume_inv:
  assumes inv: "wp_inv s" and w: "writer s = W_Fun" "in_flight s = []" "lfq_size (wp_infos s) = 1"
    and t: "take_write s = Some (s1, i)"
  shows "wp_inv (s1\<lparr>writer := W_Sync ans\<rparr>)"
proof -
  have fr: "frames_ok s" and r: "writer_inv W_Fun s" using inv w by (simp_all add: wp_inv_def)
  note eqs = take_write_same [OF fr t]
  note o = take_outstanding(2) [OF fr t w(2)]
  have "length (outstanding s) = 1" using w(2,3) by (simp add: outstanding_def)
  then have none: "outstanding s1 = []" using o by simp
  have "length (published s) = Suc (length (sent s))"
    using fr w(3) map_eq_imp_length_eq by (fastforce simp: frames_ok_def)
  then have "own_sent (s1\<lparr>writer := W_Sync ans\<rparr>)"
    using r by (auto simp: own_sent_def own_frame_def eqs)
  moreover have "own_finish s \<Longrightarrow> own_finish s1" by (rule own_congs(3)) (simp_all add: eqs)
  ultimately have "writer_inv (W_Sync ans) (s1\<lparr>writer := W_Sync ans\<rparr>)"
    using r none by (auto simp: w_path_def w_locked_def w_awaited_def w_claimed_def w_zero_def eqs split: if_splits)
  moreover have "flight_ok (s1\<lparr>writer := W_Sync ans\<rparr>)" using w(2) by (simp add: flight_ok_def eqs)
  ultimately show ?thesis using inv take_write_frames(1) [OF fr t] by (simp add: wp_inv_def eqs)
qed

text \<open>Streams.\<close>

lemma stream_acquire_inv:
  assumes "frames_ok s" "at_rest s"
  shows "frames_ok (fst (stream_acquire s))" "at_rest (fst (stream_acquire s))"
    "snd (stream_acquire s) = OK \<Longrightarrow> owns_port (wp_stream (fst (stream_acquire s)))"
    "writer (fst (stream_acquire s)) = writer s" "w_info (fst (stream_acquire s)) = w_info s"
    "w_in_isr (fst (stream_acquire s)) = w_in_isr s" "finisher (fst (stream_acquire s)) = finisher s"
    "flight_ok (fst (stream_acquire s)) = flight_ok s"
  using assms lfq_empty_size_eq [of "wp_infos s"]
  by (auto simp: stream_acquire_def at_rest_def w_zero_def infos_room_def frames_ok_def split: if_splits)

lemma stream_write_inv:
  assumes "frames_ok s" "at_rest s" "stream_write (Some bs) (length bs) s = Some (s', ec)"
  shows "frames_ok s' \<and> at_rest s' \<and> writer s' = writer s \<and> w_info s' = w_info s \<and> w_in_isr s' = w_in_isr s \<and>
    finisher s' = finisher s \<and> flight_ok s' = flight_ok s"
proof -
  obtain s1 r where s1: "stream_acquire s = (s1, r)" by (cases "stream_acquire s")
  note a = stream_acquire_inv [OF assms(1,2)]
  have ok1: "frames_ok s1" "at_rest s1" "r = OK \<Longrightarrow> owns_port (wp_stream s1)" "writer s1 = writer s"
    "w_info s1 = w_info s" "w_in_isr s1 = w_in_isr s" "finisher s1 = finisher s"
    "flight_ok s1 = flight_ok s"
    using a by (simp_all add: s1)
  show ?thesis
  proof (cases "bs = [] \<or> r \<noteq> OK")
    case True
    then show ?thesis using assms ok1 by (auto simp: stream_write_def s1 split: if_splits)
  next
    case False
    then obtain q where q: "lfq_push_batch (wp_data s1) bs (length bs) = Some (q, ec)"
      "s' = (if ec = OK then s1\<lparr>wp_data := q, unpublished := unpublished s1 @ bs, wp_stream :=
                (wp_stream s1)\<lparr>buffered_size := buffered_size (wp_stream s1) + length bs\<rparr>\<rparr>
              else s1\<lparr>wp_data := q\<rparr>)"
      using assms(3) by (auto simp: stream_write_def s1 split: option.splits if_splits)
    have "lfq_wf (wp_data s1)" using ok1(1) by (simp add: frames_ok_def)
    note p = lfq_push_batch_props [OF this q(1)]
    have "frames_ok s'" using ok1(1) p by (auto simp: q(2) frames_ok_def)
    moreover have "at_rest s'" using ok1(2,3) False by (auto simp: q(2) at_rest_def w_zero_def infos_room_def)
    ultimately show ?thesis using ok1 by (simp add: q(2))
  qed
qed

lemma stream_append_inv:
  assumes "frames_ok s" "at_rest s" "stream_append bs s = Some s'"
  shows "frames_ok s' \<and> at_rest s' \<and> writer s' = writer s \<and> w_info s' = w_info s \<and> w_in_isr s' = w_in_isr s \<and>
    finisher s' = finisher s \<and> flight_ok s' = flight_ok s"
proof -
  obtain s1 r where s1: "stream_acquire s = (s1, r)" by (cases "stream_acquire s")
  note a = stream_acquire_inv [OF assms(1,2), unfolded s1 fst_conv snd_conv]
  show ?thesis
    using assms(3) a stream_write_inv [OF a(1,2), of bs]
    by (auto simp: stream_append_def s1 split: if_splits)
qed

lemma stream_commit_inv:
  assumes "wp_inv s" "writer_ready s"
  shows "wp_inv (stream_commit s)"
proof -
  have rest: "at_rest s" and fr: "frames_ok s" "flight_ok s" "finisher s = B_None" "\<not> (is_block (w_op s) \<and> w_in_isr s)"
    using assms by (auto simp: wp_inv_def writer_ready_def split: write_pc.splits)
  show ?thesis
  proof (cases "owns_port (wp_stream s) \<and> buffered_size (wp_stream s) > 0")
    case True
    then show ?thesis using rest fr
      by (auto simp: stream_commit_def stream_submit_def wp_inv_def Let_def at_rest_def w_locked_def w_path_def
          w_zero_def infos_room_def)
  next
    case False
    then show ?thesis using rest fr
      by (auto simp: stream_commit_def stream_release_def wp_inv_def at_rest_def w_zero_def infos_room_def)
  qed
qed

lemma ready_rest: "wp_inv s \<Longrightarrow> writer_ready s \<Longrightarrow> at_rest s"
  by (auto simp: wp_inv_def writer_ready_def split: write_pc.splits)

lemma rest_ready: "writer_ready s \<Longrightarrow> at_rest s' \<Longrightarrow> writer s' = writer s \<Longrightarrow> writer_inv (writer s') s'"
  by (auto simp: writer_ready_def split: write_pc.splits)

lemma write_call_inv:
  assumes "wp_inv s" "writer_ready s" "\<not> (is_block op \<and> in_isr)"
  shows "wp_inv (write_call addr bytes op in_isr s)"
proof -
  have rest: "at_rest s" and fr: "frames_ok s" "flight_ok s" "finisher s = B_None"
    using assms ready_rest by (auto simp: wp_inv_def)
  have a: "at_rest (s\<lparr>w_info := i, w_bytes := u, w_meta := m, w_in_isr := x, writer := p\<rparr>)"
    and b: "sem_value v = sem_value (wp_env s) \<Longrightarrow>
      at_rest (s\<lparr>w_info := i, w_bytes := u, w_meta := m, w_in_isr := x, wp_env := v, writer := p\<rparr>)"
    for i u m x p v
    using rest by (auto simp: at_rest_def w_zero_def infos_room_def)
  have "at_rest (s\<lparr>w_info := i, w_bytes := u, w_meta := m, w_in_isr := x,
      wp_env := if is_block op then wp_env s else update_status op OK (wp_env s), writer := p\<rparr>)" for i u m x p
    by (rule b) simp
  then show ?thesis using fr assms(3) a
    by (auto simp: write_call_def Let_def wp_inv_def)
qed

lemma write_step_inv:
  assumes "wp_inv s" "write_step e s = Some s'"
    and "\<And>a. writer s = W_Fun \<Longrightarrow> e = W_Answer a \<Longrightarrow> a = PENDING \<or> outstanding s = []"
  shows "wp_inv s'"
proof (cases "submit_step s")
  case None
  then have "await_step e s = Some s'" using assms(2) by (simp add: write_step_def)
  from await_inv [OF assms(1) this assms(3)] show ?thesis by blast
next
  case (Some s1)
  then show ?thesis using assms(1,2) submit_inv by (simp add: write_step_def)
qed

lemma if_None_D: "(if P then None else x) = Some y \<Longrightarrow> \<not> P \<and> x = Some y"
  by (cases P) simp_all

lemma write_event_eq: "wp_event_step (Write we) s =
    (if writer s = W_Fun \<and> (\<exists>a. we = W_Answer a \<and> a \<noteq> PENDING) \<and> outstanding s \<noteq> [] then None
     else write_step we s)"
  by (cases "writer s") (auto split: write_event.splits)

lemma normal_event_inv:
  assumes inv: "wp_inv s" and norm: "normal_event e" and step: "wp_event_step e s = Some s'"
  shows "wp_inv s'"
proof (cases e)
  case Set_Write_Fun
  have "same_control s (set_write_fun s)"
    by (simp add: same_control_def set_write_fun_def infos_room_def)
  then have "writer_inv (writer s) (set_write_fun s)"
    by (rule same_control_writer) (use inv in \<open>simp add: wp_inv_def\<close>)
  then show ?thesis using inv step Set_Write_Fun by (auto simp: wp_inv_def set_write_fun_def)
next
  case (Write_Call addr bytes op in_isr)
  then show ?thesis using step write_call_inv [OF inv] by (auto split: if_splits)
next
  case (Write we)
  have "(if writer s = W_Fun \<and> (\<exists>a. we = W_Answer a \<and> a \<noteq> PENDING) \<and> outstanding s \<noteq> [] then None
     else write_step we s) = Some s'"
    using step unfolding Write write_event_eq .
  from if_None_D [OF this] have ws: "write_step we s = Some s'"
    and a: "\<And>a. writer s = W_Fun \<Longrightarrow> we = W_Answer a \<Longrightarrow> a = PENDING \<or> outstanding s = []"
    by blast+
  show ?thesis by (rule write_step_inv [OF inv ws a])
next
  case (Consume ans)
  then obtain s1 i where "writer s = W_Fun" "in_flight s = []" "lfq_size (wp_infos s) = 1"
    "take_write s = Some (s1, i)" "s' = s1\<lparr>writer := W_Sync ans\<rparr>"
    using step by (auto split: if_splits)
  then show ?thesis using consume_inv [OF inv] by blast
next
  case (Open_Stream op)
  let ?s = "s\<lparr>wp_stream := stream_open op\<rparr>"
  have r: "writer_ready s" "\<not> owns_port (wp_stream s)" "s' = fst (stream_acquire ?s)"
    using step Open_Stream by (auto split: if_splits)
  then have "at_rest ?s" "frames_ok ?s"
    using ready_rest [OF inv r(1)] inv by (auto simp: at_rest_def w_zero_def stream_open_def wp_inv_def)
  note a = stream_acquire_inv [OF this(2,1)]
  have "writer_inv (writer s') s'" using rest_ready [OF r(1)] a(2,4) r(3) by simp
  then show ?thesis using a(1,5-8) inv by (simp add: wp_inv_def r(3))
next
  case (Append data)
  then have r: "writer_ready s" "stream_append data s = Some s'" using step by (auto split: if_splits)
  have "frames_ok s" using inv by (simp add: wp_inv_def)
  from stream_append_inv [OF this ready_rest [OF inv r(1)] r(2)]
  show ?thesis using inv rest_ready [OF r(1)] by (simp add: wp_inv_def)
next
  case Commit_Stream
  then show ?thesis using step stream_commit_inv [OF inv] by (auto split: if_splits)
next
  case Take
  then show ?thesis using step take_inv [OF inv] by auto
next
  case (Finish_Interrupt ans)
  then obtain i "is" where fl: "in_flight s = i # is" "finish_interrupt ans i (s\<lparr>in_flight := is\<rparr>) = Some s'"
    using step by (auto split: list.splits if_splits)
  then show ?thesis using finish_inv [OF inv fl(1), of ans] by simp
qed (use norm in simp_all)

lemma wp_reach_inv: "wp_reach s \<Longrightarrow> wp_inv s"
proof (induction rule: wp_reach.induct)
  case (new qi qd)
  have "lfq_size qi = 0" using new(3) length_lfq_contents [of qi] by simp
  then show ?case using new
    by (simp add: wp_inv_def write_port_new_def frames_ok_def flight_ok_def at_rest_def w_zero_def stream_open_def outstanding_def)
qed (rule normal_event_inv)

text \<open>Concrete runs for the witnesses; the code equation spares the evaluation of the 32-bit modulus on
  small indices.\<close>

lemma lfq_increment_code [code]:
  "lfq_increment q index = (if index < 100 then (index + 1) mod (lfq_LENGTH q + 1)
     else ((index + 1) mod 2 ^ 32) mod (lfq_LENGTH q + 1))"
  by (simp add: lfq_increment_def)

definition example_write_port :: write_port where
  "example_write_port = write_port_new (lfq_new 4 2 (\<lambda>n. replicate n \<lparr>wi_addr = None, wi_size = 0, wi_op = OP_NONE\<rparr>))
     (lfq_new 4 4 (\<lambda>n. replicate n 0))"

definition go :: "nat \<Rightarrow> wp_event list" where
  "go n = replicate n (Write W_Go)"

text \<open>A BLOCK write of two bytes on semaphore 5 that the backend has taken, its writer waiting.\<close>

definition block_write_waits :: "wp_event list" where
  "block_write_waits = [Set_Write_Fun, Write_Call 0 [1, 2] (OP_BLOCK 5) False] @ go 8 @
     [Write (W_Answer PENDING), Take]"

lemma example_write_port_reach: "wp_reach example_write_port"
  unfolding example_write_port_def by (rule wp_reach.new) (simp_all add: lfq_new_wf align_up_def)

lemma wp_run_reach: "wp_run evs s = Some s' \<Longrightarrow> list_all normal_event evs \<Longrightarrow> wp_reach s \<Longrightarrow> wp_reach s'"
  by (induction evs arbitrary: s) (auto split: option.splits intro: wp_reach.step simp del: wp_event_step.simps)

lemma block_write_waits_run:
  "case wp_run block_write_waits example_write_port of None \<Rightarrow> False | Some s \<Rightarrow>
     writer s = W_Wait \<and> map (wi_op \<circ> snd) (in_flight s) = [OP_BLOCK 5] \<and> sent s = [[1, 2]]"
  "list_all normal_event block_write_waits"
  by code_simp+

section \<open>Properties\<close>





text \<open>When the backend finishes a BLOCK write whose writer waits on its semaphore, the writer
  needs four steps to return the code of the completion, and the port is idle again.\<close>

theorem blocked_write_is_woken:
  assumes "wp_reach s" and "writer s = W_Wait" and "in_flight s = f # fs" and "is_block (wi_op (snd f))"
  shows "\<exists>s'. wp_run [Finish_Interrupt ans, Write W_Go, Write W_Go, Write W_Go, Write W_Go] s = Some s' \<and>
    writer s' = W_Ret ans \<and> wp_busy s' = WB_IDLE"
proof -
  let ?t = "finished ans f (s\<lparr>in_flight := fs\<rparr>)"
  have inv: "wp_inv s" by (rule wp_reach_inv [OF assms(1)])
  have blk: "is_block (w_op s)" and fin: "finisher s = B_None" using inv assms(2) by (auto simp: wp_inv_def)
  have "0 < n_blocks (outstanding s)" using assms(3,4) by (simp add: outstanding_def)
  then have aw: "w_awaited WB_WAITING s"
    using block_on_its_way [of s] inv assms(2) by (auto simp: wp_inv_def)
  then obtain k where op: "wi_op (snd f) = w_op s" "w_op s = OP_BLOCK k"
    using assms(3,4) by (cases "w_op s") (auto simp: w_awaited_def outstanding_def)
  have t: "writer ?t = W_Wait" "wp_busy ?t = WB_CLAIMED" "sem_value (wp_env ?t) k = 1" "wp_result ?t = ans"
    "w_op ?t = OP_BLOCK k"
    using aw op assms(2) by (simp_all add: finished_def w_awaited_def w_zero_def)
  then have "\<exists>s'. wp_run [Write W_Go, Write W_Go, Write W_Go, Write W_Go] ?t = Some s' \<and> writer s' = W_Ret ans \<and> wp_busy s' = WB_IDLE"
    by (simp add: write_step_def sem_take_def w_return_def)
  then show ?thesis using finish_inv(1) [OF inv assms(3), of ans] assms(3) fin by simp
qed

theorem blocked_write_is_woken_witness:
  "\<exists>s s'. wp_run block_write_waits example_write_port = Some s \<and>
    wp_run [Finish_Interrupt FAILED, Write W_Go, Write W_Go, Write W_Go, Write W_Go] s = Some s' \<and> writer s' = W_Ret FAILED"
proof -
  obtain s where s: "wp_run block_write_waits example_write_port = Some s" "writer s = W_Wait"
    "map (wi_op \<circ> snd) (in_flight s) = [OP_BLOCK 5]"
    using block_write_waits_run(1) by (auto split: option.splits)
  then obtain f where f: "in_flight s = [f]" "wi_op (snd f) = OP_BLOCK 5" by auto
  have "wp_reach s" by (rule wp_run_reach [OF s(1) block_write_waits_run(2) example_write_port_reach])
  from blocked_write_is_woken [OF this s(2) f(1), of FAILED] f(2) s(1) show ?thesis by auto
qed

section \<open>Runs that go wrong\<close>

text \<open>\<open>Stream::Discard\<close> leaves the bytes of the discarded batch in the data queue: the next write,
  of two other bytes, is sent as the two discarded ones.\<close>

definition discard_run :: "wp_event list" where
  "discard_run = [Set_Write_Fun, Open_Stream OP_NONE, Append [1, 2], Discard_Stream,
     Write_Call 0 [8, 9] OP_NONE False] @ go 6 @ [Take]"

theorem discarded_bytes_are_sent:
  "\<exists>s. wp_run discard_run example_write_port = Some s \<and> w_bytes s = [8, 9] \<and> sent s = [[1, 2]]"
proof -
  have "case wp_run discard_run example_write_port of None \<Rightarrow> False | Some s \<Rightarrow> w_bytes s = [8, 9]"
    "case wp_run discard_run example_write_port of None \<Rightarrow> False | Some s \<Rightarrow> sent s = [[1, 2]]"
    by code_simp+
  then show ?thesis by (auto split: option.splits)
qed

text \<open>A completion thread whose first compare-exchange sees BLOCK_PUBLISHING misses the waiter when
  the writer arms it before the second one: the assertion of \<open>Finish\<close> fails and the write is never
  reported to its waiter.\<close>

definition arming_race :: "wp_event list" where
  "arming_race = [Set_Write_Fun, Write_Call 0 [1] (OP_BLOCK 0) False] @ go 6 @
     [Take, Finish_Call OK, Finish_Step, Finish_Step] @ go 2 @ [Finish_Step]"

theorem finish_misses_arming_waiter:
  "\<exists>s. wp_run arming_race example_write_port = Some s \<and>
    finisher s = B_Fatal \<and> wp_busy s = WB_WAITING \<and> outstanding s = []"
proof -
  have "case wp_run arming_race example_write_port of None \<Rightarrow> False | Some s \<Rightarrow> finisher s = B_Fatal"
    "case wp_run arming_race example_write_port of None \<Rightarrow> False | Some s \<Rightarrow> wp_busy s = WB_WAITING"
    "case wp_run arming_race example_write_port of None \<Rightarrow> False | Some s \<Rightarrow> outstanding s = []"
    by code_simp+
  then show ?thesis by (auto split: option.splits)
qed

text \<open>\<open>CommitWrite\<close> marks a polling write as running only after it has published it: when the
  completion comes in between, the finished write stays RUNNING for ever.\<close>

definition late_running :: "wp_event list" where
  "late_running = [Set_Write_Fun, Write_Call 0 [1] (OP_POLLING 0) False] @ go 5 @
     [Take, Finish_Interrupt OK] @ go 1 @ [Write (W_Answer PENDING)] @ go 1"

theorem finished_polling_write_stays_running:
  "\<exists>s. wp_run late_running example_write_port = Some s \<and>
    writer s = W_Ret OK \<and> outstanding s = [] \<and> poll_status (wp_env s) 0 = RUNNING"
proof -
  have "case wp_run late_running example_write_port of None \<Rightarrow> False | Some s \<Rightarrow> writer s = W_Ret OK"
    "case wp_run late_running example_write_port of None \<Rightarrow> False | Some s \<Rightarrow> outstanding s = []"
    "case wp_run late_running example_write_port of None \<Rightarrow> False | Some s \<Rightarrow> poll_status (wp_env s) 0 = RUNNING"
    by code_simp+
  then show ?thesis by (auto split: option.splits)
qed

text \<open>After \<open>Reset\<close> has detached a BLOCK write and its waiter has released the port, the late
  completion of that write claims the next BLOCK write, which returns OK while its bytes are still in
  the queue.\<close>

definition stale_completion :: "wp_event list" where
  "stale_completion = [Set_Write_Fun, Write_Call 0 [1] (OP_BLOCK 0) False] @ go 8 @
     [Write (W_Answer PENDING), Take, Write_Reset] @ replicate 6 Write_Reset_Step @
     [Write W_Time_Out] @ go 2 @ [Write_Call 0 [2] (OP_BLOCK 0) False] @ go 8 @
     [Write (W_Answer PENDING), Finish_Interrupt OK] @ go 4"

theorem stale_completion_claims_next_write:
  "\<exists>s. wp_run stale_completion example_write_port = Some s \<and>
    writer s = W_Ret OK \<and> w_bytes s = [2] \<and> sent s = [[1]] \<and> lfq_contents (wp_data s) = [2]"
proof -
  have "case wp_run stale_completion example_write_port of None \<Rightarrow> False | Some s \<Rightarrow> writer s = W_Ret OK"
    "case wp_run stale_completion example_write_port of None \<Rightarrow> False | Some s \<Rightarrow> w_bytes s = [2]"
    "case wp_run stale_completion example_write_port of None \<Rightarrow> False | Some s \<Rightarrow> sent s = [[1]]"
    "case wp_run stale_completion example_write_port of None \<Rightarrow> False | Some s \<Rightarrow> lfq_contents (wp_data s) = [2]"
    by code_simp+
  then show ?thesis by (auto split: option.splits)
qed

end
