(* ===== verification/Flash_Device.thy ===== *)
theory Flash_Device
  imports Memory "HOL-Library.Monad_Syntax"
begin

text \<open>
  The flash of src/src/driver/flash.hpp and flash.cpp with the operations of the Linux device
  (src/driver/linux/linux_flash.hpp): an area of bytes, erased to 0xFF in whole erase units,
  written in whole write units. A failing \<open>ASSERT\<close> is \<open>None\<close>. The copy of the area to a file
  (\<open>SyncToFile\<close>) is left out; the area is what survives a restart.
\<close>

record flash =
  flash_area :: "u8 list"
  min_erase_size :: nat
  min_write_size :: nat
  write_order_check :: bool
  write_as_one_check :: bool

definition flash_size :: "flash \<Rightarrow> nat" where
  "flash_size f = length (flash_area f)"

definition flash_read :: "flash \<Rightarrow> nat \<Rightarrow> nat \<Rightarrow> u8 list option" where
  "flash_read f offset n =
     (if offset + n \<le> flash_size f then Some (take n (drop offset (flash_area f))) else None)"

definition flash_erase :: "flash \<Rightarrow> nat \<Rightarrow> nat \<Rightarrow> (flash \<times> error_code) option" where
  "flash_erase f offset n =
     (if min_erase_size f = 0 \<or> offset mod min_erase_size f \<noteq> 0 \<or> n mod min_erase_size f \<noteq> 0 then None
      else if offset + n > flash_size f then Some (f, OUT_OF_RANGE)
      else Some (f\<lparr>flash_area := blit (flash_area f) offset (replicate n 0xFF)\<rparr>, OK))"

text \<open>The check that a write only clears bits.\<close>

fun clears_only :: "u8 list \<Rightarrow> u8 list \<Rightarrow> bool" where
  "clears_only (d # ds) (s # ss) \<longleftrightarrow> NOT d AND s = 0 \<and> clears_only ds ss"
| "clears_only _ _ \<longleftrightarrow> True"

definition flash_write :: "flash \<Rightarrow> nat \<Rightarrow> u8 list \<Rightarrow> (flash \<times> error_code) option" where
  "flash_write f offset data =
     (if offset + length data > flash_size f then Some (f, OUT_OF_RANGE)
      else if min_write_size f = 0 \<or> offset mod min_write_size f \<noteq> 0 \<or> length data mod min_write_size f \<noteq> 0
      then None
      else if write_order_check f \<and> (min_erase_size f = 0 \<or> offset mod min_erase_size f \<noteq> 0) then None
      else if write_as_one_check f \<and> \<not> clears_only (take (length data) (drop offset (flash_area f))) data
      then None
      else Some (f\<lparr>flash_area := blit (flash_area f) offset data\<rparr>, OK))"

lemma flash_erase_eq:
  "0 < min_erase_size f \<Longrightarrow> offset mod min_erase_size f = 0 \<Longrightarrow> n mod min_erase_size f = 0 \<Longrightarrow>
   offset + n \<le> flash_size f \<Longrightarrow>
   flash_erase f offset n = Some (f\<lparr>flash_area := blit (flash_area f) offset (replicate n 0xFF)\<rparr>, OK)"
  by (simp add: flash_erase_def)

text \<open>An erase leaves bytes that every write may follow.\<close>

lemma not_0xFF: "NOT (0xFF :: u8) AND a = 0"
  by (rule bit_eqI) (simp add: bit_simps)

lemma clears_only_erased: "clears_only (replicate n 0xFF) data"
proof (induction n arbitrary: data)
  case (Suc n)
  then show ?case by (cases data) (simp_all del: mult_minus_right add: not_0xFF [simplified])
qed simp

end
