(* ===== verification/Key_Interface.thy ===== *)
theory Key_Interface
  imports Prelude "HOL-Library.Monad_Syntax"
begin

text \<open>
  The interface \<open>Database\<close> of src/src/middleware/database.hpp and its client \<open>Database::Key\<close>. The
  operations \<open>Get\<close>, \<open>Set\<close> and \<open>Add\<close> are virtual functions; the client takes them as arguments. The
  locale states what the client relies on: the database holds a map from names to data.
\<close>

section \<open>Keys\<close>

text \<open>The constructor of a key: \<open>raw\<close> are the bytes of \<open>data_\<close> before it. The result is the database and
  \<open>data_\<close>. A \<open>Get\<close> may reorganise the database.\<close>

definition key_open ::
  "('d \<Rightarrow> 'n \<Rightarrow> u8 list \<Rightarrow> ('d \<times> error_code \<times> u8 list) option) \<Rightarrow>
   ('d \<Rightarrow> 'n \<Rightarrow> u8 list \<Rightarrow> ('d \<times> error_code) option) \<Rightarrow>
   'd \<Rightarrow> 'n \<Rightarrow> u8 list \<Rightarrow> u8 list \<Rightarrow> ('d \<times> u8 list) option" where
  "key_open db_get db_add d name raw init = do {
     (d1, ec, data) \<leftarrow> db_get d name raw;
     if ec = NOT_FOUND then do {
       (d2, _) \<leftarrow> db_add d1 name init;
       Some (d2, init)
     }
     else Some (d1, data)
   }"

text \<open>Without an initial value the data is cleared.\<close>

definition key_open_zero ::
  "('d \<Rightarrow> 'n \<Rightarrow> u8 list \<Rightarrow> ('d \<times> error_code \<times> u8 list) option) \<Rightarrow>
   ('d \<Rightarrow> 'n \<Rightarrow> u8 list \<Rightarrow> ('d \<times> error_code) option) \<Rightarrow>
   'd \<Rightarrow> 'n \<Rightarrow> u8 list \<Rightarrow> ('d \<times> u8 list) option" where
  "key_open_zero db_get db_add d name raw = key_open db_get db_add d name raw (replicate (length raw) 0)"

definition key_load ::
  "('d \<Rightarrow> 'n \<Rightarrow> u8 list \<Rightarrow> ('d \<times> error_code \<times> u8 list) option) \<Rightarrow>
   'd \<Rightarrow> 'n \<Rightarrow> u8 list \<Rightarrow> ('d \<times> error_code \<times> u8 list) option" where
  "key_load db_get d name data = db_get d name data"

definition key_set ::
  "('d \<Rightarrow> 'n \<Rightarrow> u8 list \<Rightarrow> ('d \<times> error_code) option) \<Rightarrow>
   'd \<Rightarrow> 'n \<Rightarrow> u8 list \<Rightarrow> ('d \<times> error_code) option" where
  "key_set db_set d name value = db_set d name value"

section \<open>What a key relies on\<close>

text \<open>The database holds a map from names to data. \<open>Get\<close> into a buffer that is larger than the stored
  value is left open, since the implementations differ there. A store without room may refuse a value.\<close>

locale key_database =
  fixes db_get :: "'d \<Rightarrow> 'n \<Rightarrow> u8 list \<Rightarrow> ('d \<times> error_code \<times> u8 list) option"
    and db_set :: "'d \<Rightarrow> 'n \<Rightarrow> u8 list \<Rightarrow> ('d \<times> error_code) option"
    and db_add :: "'d \<Rightarrow> 'n \<Rightarrow> u8 list \<Rightarrow> ('d \<times> error_code) option"
    and holds :: "('n \<rightharpoonup> u8 list) \<Rightarrow> 'd \<Rightarrow> bool"
    and name_ok :: "'n \<Rightarrow> bool" and fits :: "'n \<Rightarrow> u8 list \<Rightarrow> bool"
  assumes get_none: "holds m d \<Longrightarrow> name_ok name \<Longrightarrow> m name = None \<Longrightarrow>
    \<exists>d'. db_get d name out = Some (d', NOT_FOUND, out) \<and> holds m d'"
  and get_some: "holds m d \<Longrightarrow> name_ok name \<Longrightarrow> m name = Some v \<Longrightarrow> length out = length v \<Longrightarrow>
    \<exists>d'. db_get d name out = Some (d', OK, v) \<and> holds m d'"
  and get_short: "holds m d \<Longrightarrow> name_ok name \<Longrightarrow> m name = Some v \<Longrightarrow> length out < length v \<Longrightarrow>
    \<exists>d'. db_get d name out = Some (d', FAILED, out) \<and> holds m d'"
  and set_spec: "holds m d \<Longrightarrow> name_ok name \<Longrightarrow> m name = Some w \<Longrightarrow> length w = length v \<Longrightarrow>
    \<exists>d' ec. db_set d name v = Some (d', ec) \<and>
      (ec = OK \<and> holds (m(name \<mapsto> v)) d' \<or> ec = FULL \<and> holds m d')"
  and add_spec: "holds m d \<Longrightarrow> name_ok name \<Longrightarrow> fits name v \<Longrightarrow> m name = None \<Longrightarrow>
    \<exists>d' ec. db_add d name v = Some (d', ec) \<and>
      (ec = OK \<and> holds (m(name \<mapsto> v)) d' \<or> ec = FULL \<and> holds m d')"
begin

text \<open>A key starts with the stored value, or stores its initial value.\<close>

lemma open_stored:
  assumes "holds m d" "name_ok name" "m name = Some v" "length v = length raw"
  shows "\<exists>d'. key_open db_get db_add d name raw init = Some (d', v) \<and> holds m d'"
  using get_some [OF assms(1-3), of raw] assms(4) by (auto simp: key_open_def)

lemma open_new:
  assumes "holds m d" "name_ok name" "fits name init" "m name = None"
  shows "\<exists>d'. key_open db_get db_add d name raw init = Some (d', init) \<and>
    (holds (m(name \<mapsto> init)) d' \<or> holds m d')"
proof -
  obtain d1 where d1: "db_get d name raw = Some (d1, NOT_FOUND, raw)" "holds m d1"
    using get_none [OF assms(1,2,4)] by blast
  then show ?thesis using add_spec [OF d1(2) assms(2-4)] by (auto simp: key_open_def)
qed

text \<open>A value that was taken is loaded again.\<close>

lemma set_then_load:
  assumes "holds m d" "name_ok name" "m name = Some w" "length w = length v"
  shows "\<exists>d' ec. key_set db_set d name v = Some (d', ec) \<and>
    (ec = OK \<and> (\<forall>out. length out = length v \<longrightarrow>
       (\<exists>d''. key_load db_get d' name out = Some (d'', OK, v))) \<or> ec = FULL \<and> holds m d')"
proof -
  obtain d' ec where d': "db_set d name v = Some (d', ec)"
    "ec = OK \<and> holds (m(name \<mapsto> v)) d' \<or> ec = FULL \<and> holds m d'"
    using set_spec [OF assms] by blast
  then show ?thesis using get_some [OF _ assms(2), of "m(name \<mapsto> v)" d' v]
    by (auto simp: key_set_def key_load_def)
qed

end

text \<open>A database that keeps its map over a restart of the program.\<close>

locale restartable_database = key_database +
  fixes restart :: "'a \<Rightarrow> 'a option"
  assumes restart_spec: "holds m d \<Longrightarrow> \<exists>d'. restart d = Some d' \<and> holds m d'"
begin

text \<open>A key that was set starts, after a restart, with the value that was set.\<close>

lemma set_survives_restart:
  assumes "holds m d" "name_ok name" "m name = Some w" "length w = length v" "length raw = length v"
  shows "\<exists>d1 ec. key_set db_set d name v = Some (d1, ec) \<and> (ec = OK \<or> ec = FULL) \<and>
    (\<exists>d2 d3. restart d1 = Some d2 \<and>
      key_open db_get db_add d2 name raw init = Some (d3, if ec = OK then v else w))"
proof -
  obtain d1 ec where d1: "db_set d name v = Some (d1, ec)"
    "ec = OK \<and> holds (m(name \<mapsto> v)) d1 \<or> ec = FULL \<and> holds m d1"
    using set_spec [OF assms(1-4)] by blast
  let ?m = "if ec = OK then m(name \<mapsto> v) else m"
  have "holds ?m d1" using d1(2) by auto
  then obtain d2 where d2: "restart d1 = Some d2" "holds ?m d2" using restart_spec by blast
  have "?m name = Some (if ec = OK then v else w)" "length (if ec = OK then v else w) = length raw"
    using assms(3-5) by simp_all
  then obtain d3 where "key_open db_get db_add d2 name raw init = Some (d3, if ec = OK then v else w)"
    using open_stored [OF d2(2) assms(2)] by blast
  then show ?thesis using d1 d2 by (auto simp: key_set_def)
qed

end

end
