(* ===== verification/Database_Sequential.thy ===== *)
theory Database_Sequential
  imports Flash_Device Key_Interface "HOL-Library.AList"
begin

text \<open>
  \<open>DatabaseRawSequential\<close> of src/src/middleware/database.cpp: keys in one image of
  \<open>max_buffer_size\<close> bytes that is kept in memory and in two blocks of a flash. A read or write
  outside the flash or the buffer and a failing \<open>ASSERT\<close> are \<open>None\<close>. The two sizes are of type
  \<open>uint32_t\<close>, so the constructor truncates them; \<open>size_t\<close> is unbounded here. A name is the list of its
  characters without the final NUL; \<open>cs\<close> tells whether \<open>char\<close> is signed on the target, on which
  the comparison of a stored byte with a character of a name depends.
\<close>

section \<open>Key metadata\<close>

definition set_next_key_exist :: "bool \<Rightarrow> u32 \<Rightarrow> u32" where
  "set_next_key_exist value raw = (raw AND 0x7FFFFFFF) OR push_bit 31 (if value then 1 else 0)"

definition get_next_key_exist :: "u32 \<Rightarrow> bool" where
  "get_next_key_exist raw \<longleftrightarrow> drop_bit 31 raw AND 1 \<noteq> 0"

definition set_name_length :: "u8 \<Rightarrow> u32 \<Rightarrow> u32" where
  "set_name_length len raw = (raw AND 0x80FFFFFF) OR push_bit 24 (ucast (len AND 0x7F))"

definition get_name_length :: "u32 \<Rightarrow> nat" where
  "get_name_length raw = unat (drop_bit 24 raw AND 0x7F)"

definition set_data_size :: "u32 \<Rightarrow> u32 \<Rightarrow> u32" where
  "set_data_size n raw = (raw AND 0xFF000000) OR (n AND 0x00FFFFFF)"

definition get_data_size :: "u32 \<Rightarrow> nat" where
  "get_data_size raw = unat (raw AND 0x00FFFFFF)"

definition key_info :: "bool \<Rightarrow> nat \<Rightarrow> nat \<Rightarrow> u32" where
  "key_info next_key name_len n =
     set_data_size (of_nat n) (set_name_length (of_nat name_len) (set_next_key_exist next_key 0))"

definition KEY_INFO_SIZE :: nat where
  "KEY_INFO_SIZE = 4"

text \<open>\<open>OffsetOf(&FlashInfo::key)\<close> and \<open>sizeof(FlashInfo)\<close>.\<close>

definition FIRST_KEY :: nat where
  "FIRST_KEY = 4"

definition FLASH_HEADER :: u32 where
  "FLASH_HEADER = 0x12345678 + 3"

definition CHECKSUM_BYTE :: u8 where
  "CHECKSUM_BYTE = 0x56"

lemma FIRST_KEY_pos [simp]: "0 < FIRST_KEY"
  by (simp add: FIRST_KEY_def)

lemmas db_sizes = KEY_INFO_SIZE_def FIRST_KEY_def

record database =
  db_flash :: flash
  db_buffer :: "u8 list"
  block_size :: nat
  max_buffer_size :: nat

datatype block_type = MAIN | BACKUP

definition block_offset :: "database \<Rightarrow> block_type \<Rightarrow> nat" where
  "block_offset d block = (if block = BACKUP then block_size d else 0)"

section \<open>Reading\<close>

definition key_at :: "database \<Rightarrow> nat \<Rightarrow> u32 option" where
  "key_at d offset = map_option le_word (flash_read (db_flash d) offset KEY_INFO_SIZE)"

definition is_block_inited :: "database \<Rightarrow> block_type \<Rightarrow> bool option" where
  "is_block_inited d block = map_option (\<lambda>info. le_word (take 4 info) = FLASH_HEADER)
     (flash_read (db_flash d) (block_offset d block) (FIRST_KEY + KEY_INFO_SIZE))"

definition is_block_empty :: "database \<Rightarrow> block_type \<Rightarrow> bool option" where
  "is_block_empty d block = map_option (\<lambda>info. get_name_length (le_word (drop FIRST_KEY info)) = 0)
     (flash_read (db_flash d) (block_offset d block) (FIRST_KEY + KEY_INFO_SIZE))"

definition is_block_error :: "database \<Rightarrow> block_type \<Rightarrow> bool option" where
  "is_block_error d block =
     (if block_offset d block + max_buffer_size d = 0 then None
      else map_option (\<lambda>bs. hd bs \<noteq> CHECKSUM_BYTE)
        (flash_read (db_flash d) (block_offset d block + max_buffer_size d - 1) 1))"

definition has_last_key :: "database \<Rightarrow> nat \<Rightarrow> bool option" where
  "has_last_key d offset = map_option get_next_key_exist (key_at d offset)"

definition get_key_size :: "database \<Rightarrow> nat \<Rightarrow> nat option" where
  "get_key_size d offset =
     map_option (\<lambda>key. KEY_INFO_SIZE + get_name_length key + get_data_size key) (key_at d offset)"

definition get_next_key :: "database \<Rightarrow> nat \<Rightarrow> nat option" where
  "get_next_key d offset = map_option (\<lambda>n. offset + n) (get_key_size d offset)"

text \<open>The loops over the keys end because every key is at least four bytes long and a read beyond the
  flash fails.\<close>

lemma next_key_advances:
  assumes "get_next_key d offset = Some next_offset"
  shows "offset < next_offset" "offset < flash_size (db_flash d)"
  using assms
  by (auto simp: get_next_key_def get_key_size_def key_at_def flash_read_def db_sizes split: if_splits)

function last_key_loop :: "database \<Rightarrow> nat \<Rightarrow> nat option" where
  "last_key_loop d offset =
     (case has_last_key d offset of None \<Rightarrow> None
      | Some False \<Rightarrow> Some offset
      | Some True \<Rightarrow> (case get_next_key d offset of None \<Rightarrow> None
          | Some next_offset \<Rightarrow> last_key_loop d next_offset))"
  by pat_completeness auto
termination
  by (relation "measure (\<lambda>(d, offset). flash_size (db_flash d) - offset)")
    (auto dest: next_key_advances intro: diff_less_mono2)

declare last_key_loop.simps [simp del]

definition get_last_key :: "database \<Rightarrow> block_type \<Rightarrow> nat option" where
  "get_last_key d block = do {
     empty \<leftarrow> is_block_empty d block;
     if empty then Some 0 else last_key_loop d FIRST_KEY
   }"

text \<open>The comparisons answer True when the contents differ.\<close>

fun data_compare_loop :: "database \<Rightarrow> nat \<Rightarrow> u8 list \<Rightarrow> nat \<Rightarrow> nat \<Rightarrow> bool option" where
  "data_compare_loop d base data i 0 = Some False"
| "data_compare_loop d base data i (Suc n) = do {
     stored \<leftarrow> flash_read (db_flash d) (base + i) 1;
     b \<leftarrow> array_get data i;
     if hd stored \<noteq> b then Some True else data_compare_loop d base data (i + 1) n
   }"

definition key_data_compare :: "database \<Rightarrow> nat \<Rightarrow> u8 list \<Rightarrow> nat \<Rightarrow> bool option" where
  "key_data_compare d offset data n = do {
     key \<leftarrow> key_at d offset;
     data_compare_loop d (offset + KEY_INFO_SIZE + get_name_length key) data 0 n
   }"

definition char_value :: "bool \<Rightarrow> u8 \<Rightarrow> int" where
  "char_value cs c = (if cs then sint c else uint c)"

fun name_compare_loop :: "bool \<Rightarrow> database \<Rightarrow> nat \<Rightarrow> u8 list \<Rightarrow> nat \<Rightarrow> nat \<Rightarrow> bool option" where
  "name_compare_loop cs d base name i 0 = Some False"
| "name_compare_loop cs d base name i (Suc n) = do {
     stored \<leftarrow> flash_read (db_flash d) (base + i) 1;
     c \<leftarrow> array_get (name @ [0]) i;
     if uint (hd stored) \<noteq> char_value cs c then Some True
     else name_compare_loop cs d base name (i + 1) n
   }"

definition key_name_compare :: "bool \<Rightarrow> database \<Rightarrow> nat \<Rightarrow> u8 list \<Rightarrow> bool option" where
  "key_name_compare cs d offset name = do {
     key \<leftarrow> key_at d offset;
     name_compare_loop cs d (offset + KEY_INFO_SIZE) name 0 (get_name_length key)
   }"

function search_loop :: "bool \<Rightarrow> database \<Rightarrow> u8 list \<Rightarrow> nat \<Rightarrow> nat option" where
  "search_loop cs d name key_offset =
     (case key_name_compare cs d key_offset name of None \<Rightarrow> None
      | Some False \<Rightarrow> Some key_offset
      | Some True \<Rightarrow> (case has_last_key d key_offset of None \<Rightarrow> None
          | Some False \<Rightarrow> Some 0
          | Some True \<Rightarrow> (case get_next_key d key_offset of None \<Rightarrow> None
              | Some next_offset \<Rightarrow> search_loop cs d name next_offset)))"
  by pat_completeness auto
termination
  by (relation "measure (\<lambda>(cs, d, name, offset). flash_size (db_flash d) - offset)")
    (auto dest: next_key_advances intro: diff_less_mono2)

declare search_loop.simps [simp del]

definition search_key :: "bool \<Rightarrow> database \<Rightarrow> u8 list \<Rightarrow> nat option" where
  "search_key cs d name = do {
     empty \<leftarrow> is_block_empty d MAIN;
     if empty then Some 0 else search_loop cs d name FIRST_KEY
   }"

definition get_key_data :: "database \<Rightarrow> nat \<Rightarrow> u8 list \<Rightarrow> (error_code \<times> u8 list) option" where
  "get_key_data d offset out = do {
     key \<leftarrow> key_at d offset;
     if get_data_size key > length out then Some (FAILED, out)
     else do {
       bytes \<leftarrow> flash_read (db_flash d) (offset + KEY_INFO_SIZE + get_name_length key) (get_data_size key);
       Some (OK, blit out 0 bytes)
     }
   }"

text \<open>\<open>Get\<close> into the data \<open>out\<close> of a key.\<close>

definition db_get :: "bool \<Rightarrow> database \<Rightarrow> u8 list \<Rightarrow> u8 list \<Rightarrow> (error_code \<times> u8 list) option" where
  "db_get cs d name out = do {
     ans \<leftarrow> search_key cs d name;
     if ans = 0 then Some (NOT_FOUND, out)
     else do {
       key \<leftarrow> key_at d ans;
       if length out \<noteq> get_data_size key then Some (FAILED, out)
       else map_option (\<lambda>(_, data). (OK, data)) (get_key_data d ans out)
     }
   }"

section \<open>Writing\<close>

definition db_erase :: "database \<Rightarrow> nat \<Rightarrow> nat \<Rightarrow> database option" where
  "db_erase d offset n = map_option (\<lambda>(f, _). d\<lparr>db_flash := f\<rparr>) (flash_erase (db_flash d) offset n)"

text \<open>A write of the buffer, of which \<open>max_buffer_size\<close> bytes are read.\<close>

definition db_write_buffer :: "database \<Rightarrow> nat \<Rightarrow> database option" where
  "db_write_buffer d offset =
     (if max_buffer_size d \<le> length (db_buffer d)
      then map_option (\<lambda>(f, _). d\<lparr>db_flash := f\<rparr>)
        (flash_write (db_flash d) offset (take (max_buffer_size d) (db_buffer d)))
      else None)"

definition db_read_buffer :: "database \<Rightarrow> nat \<Rightarrow> database option" where
  "db_read_buffer d offset =
     (if max_buffer_size d \<le> length (db_buffer d)
      then map_option (\<lambda>bytes. d\<lparr>db_buffer := blit (db_buffer d) 0 bytes\<rparr>)
        (flash_read (db_flash d) offset (max_buffer_size d))
      else None)"

definition db_save :: "database \<Rightarrow> database option" where
  "db_save d = do {
     d1 \<leftarrow> db_erase d (block_size d) (block_size d);
     d2 \<leftarrow> db_write_buffer d1 (block_size d);
     d3 \<leftarrow> db_erase d2 0 (block_size d);
     db_write_buffer d3 0
   }"

definition db_load :: "database \<Rightarrow> database option" where
  "db_load d = db_read_buffer d 0"

definition init_block :: "database \<Rightarrow> block_type \<Rightarrow> database option" where
  "init_block d block = do {
     d1 \<leftarrow> db_erase d (block_offset d block) (block_size d);
     db_write_buffer d1 (block_offset d block)
   }"

text \<open>The empty image that \<open>Init\<close> and \<open>Restore\<close> build in the buffer.\<close>

definition clear_buffer :: "database \<Rightarrow> database option" where
  "clear_buffer d = do {
     b1 \<leftarrow> array_copy (db_buffer d) 0 (replicate (max_buffer_size d) 0xFF) 0 (max_buffer_size d);
     b2 \<leftarrow> array_copy b1 0 (word_bytes 4 FLASH_HEADER) 0 4;
     b3 \<leftarrow> array_copy b2 FIRST_KEY (word_bytes 4 (key_info False 0 0)) 0 KEY_INFO_SIZE;
     if max_buffer_size d = 0 then None
     else do {
       b4 \<leftarrow> array_set b3 (max_buffer_size d - 1) CHECKSUM_BYTE;
       Some (d\<lparr>db_buffer := b4\<rparr>)
     }
   }"

definition db_restore :: "database \<Rightarrow> database option" where
  "db_restore d = do {
     d1 \<leftarrow> clear_buffer d;
     d2 \<leftarrow> db_write_buffer d1 0;
     db_write_buffer d2 (block_size d2)
   }"

definition db_init :: "database \<Rightarrow> database option" where
  "db_init d = do {
     d1 \<leftarrow> clear_buffer d;
     inited \<leftarrow> is_block_inited d1 BACKUP;
     bad \<leftarrow> (if \<not> inited then Some True else is_block_error d1 BACKUP);
     d2 \<leftarrow> (if bad then init_block d1 BACKUP else Some d1);
     main_bad \<leftarrow> is_block_error d2 MAIN;
     d3 \<leftarrow> (if main_bad
       then do {
         empty \<leftarrow> is_block_empty d2 BACKUP;
         if empty then init_block d2 MAIN
         else do {
           d4 \<leftarrow> db_read_buffer d2 (block_size d2);
           d5 \<leftarrow> db_erase d4 0 (block_size d4);
           db_write_buffer d5 0
         }
       }
       else Some d2);
     db_load d3
   }"

text \<open>The constructor clamps its parameter and allocates the buffer with it, but keeps the given size in
  \<open>max_buffer_size_\<close>.\<close>

text \<open>The constructor keeps its sizes as \<open>uint32_t\<close>; the code equation spares small sizes the modulus.\<close>

definition to_uint32 :: "nat \<Rightarrow> nat" where
  "to_uint32 n = n mod 2 ^ 32"

lemma to_uint32_code [code]: "to_uint32 n = (if n < 1000 then n else n mod 2 ^ 32)"
  by (simp add: to_uint32_def)

definition database_new :: "flash \<Rightarrow> nat \<Rightarrow> (nat \<Rightarrow> u8 list) \<Rightarrow> database option" where
  "database_new f n fresh =
     (if min_erase_size f * 2 \<le> flash_size f \<and> min_erase_size f \<noteq> 0
      then (let clamped = (if n * 2 > flash_size f then flash_size f div 2 else n);
          block_num = flash_size f div min_erase_size f
        in db_init \<lparr>db_flash = f, db_buffer = fresh clamped,
          block_size = to_uint32 (block_num div 2 * min_erase_size f), max_buffer_size = to_uint32 n\<rparr>)
      else None)"

definition set_nest_key_exist :: "database \<Rightarrow> nat \<Rightarrow> bool \<Rightarrow> database option" where
  "set_nest_key_exist d offset exist = do {
     key \<leftarrow> key_at d offset;
     b \<leftarrow> array_copy (db_buffer d) offset (word_bytes 4 (set_next_key_exist exist key)) 0 KEY_INFO_SIZE;
     Some (d\<lparr>db_buffer := b\<rparr>)
   }"

text \<open>\<open>SetKey\<close> at an offset and by name, \<open>AddKey\<close>; \<open>data\<close> is the block of \<open>n\<close> bytes at the pointer.\<close>

definition set_key_at :: "database \<Rightarrow> nat \<Rightarrow> u8 list \<Rightarrow> nat \<Rightarrow> (database \<times> error_code) option" where
  "set_key_at d offset data n =
     (if offset = 0 then None
      else do {
        key \<leftarrow> key_at d offset;
        if get_data_size key = n
        then do {
          differs \<leftarrow> key_data_compare d offset data n;
          if differs
          then do {
            b \<leftarrow> array_copy (db_buffer d) (offset + KEY_INFO_SIZE + get_name_length key) data 0 n;
            d1 \<leftarrow> db_save (d\<lparr>db_buffer := b\<rparr>);
            Some (d1, OK)
          }
          else Some (d, OK)
        }
        else Some (d, FAILED)
      })"

definition set_key :: "bool \<Rightarrow> database \<Rightarrow> u8 list \<Rightarrow> u8 list \<Rightarrow> nat \<Rightarrow> (database \<times> error_code) option" where
  "set_key cs d name data n = do {
     key_offset \<leftarrow> search_key cs d name;
     if key_offset \<noteq> 0 then set_key_at d key_offset data n else Some (d, FAILED)
   }"

definition add_key :: "bool \<Rightarrow> database \<Rightarrow> u8 list \<Rightarrow> u8 list \<Rightarrow> nat \<Rightarrow> (database \<times> error_code) option" where
  "add_key cs d name data n = do {
     ans \<leftarrow> search_key cs d name;
     if ans \<noteq> 0 then set_key_at d ans data n
     else do {
       let name_len = length name + 1;
       last_key_offset \<leftarrow> get_last_key d MAIN;
       key_buf_offset \<leftarrow> (if last_key_offset \<noteq> 0 then get_next_key d last_key_offset else Some FIRST_KEY);
       if 0 < max_buffer_size d \<and> key_buf_offset + KEY_INFO_SIZE + name_len + n > max_buffer_size d - 1
       then Some (d, FULL)
       else do {
         let data_ptr_offset = key_buf_offset + KEY_INFO_SIZE;
         b1 \<leftarrow> array_copy (db_buffer d) data_ptr_offset (name @ [0]) 0 name_len;
         b2 \<leftarrow> array_copy b1 (data_ptr_offset + name_len) data 0 n;
         b3 \<leftarrow> array_copy b2 key_buf_offset (word_bytes 4 (key_info False name_len n)) 0 KEY_INFO_SIZE;
         d1 \<leftarrow> (if last_key_offset \<noteq> 0 then set_nest_key_exist (d\<lparr>db_buffer := b3\<rparr>) last_key_offset True
               else Some (d\<lparr>db_buffer := b3\<rparr>));
         d2 \<leftarrow> db_save d1;
         Some (d2, OK)
       }
     }
   }"

text \<open>The overrides of \<open>Set\<close> and \<open>Add\<close>.\<close>

definition db_set :: "bool \<Rightarrow> database \<Rightarrow> u8 list \<Rightarrow> u8 list \<Rightarrow> (database \<times> error_code) option" where
  "db_set cs d name data = set_key cs d name data (length data)"

definition db_add :: "bool \<Rightarrow> database \<Rightarrow> u8 list \<Rightarrow> u8 list \<Rightarrow> (database \<times> error_code) option" where
  "db_add cs d name data = add_key cs d name data (length data)"

section \<open>Round trip of the key metadata\<close>

text \<open>The bits of the masks, as the simplifier reads them off the integer literals.\<close>

lemma bit_field_masks:
  "bit (0x7F :: int) i \<longleftrightarrow> i < 7" "bit (0xFFFFFF :: int) i \<longleftrightarrow> i < 24"
  "bit (0x7FFFFFFF :: int) i \<longleftrightarrow> i < 31"
  "bit (0xFF000000 :: int) i \<longleftrightarrow> 24 \<le> i \<and> i < 32" "bit (0x80FFFFFF :: int) i \<longleftrightarrow> i < 24 \<or> i = 31"
proof -
  have m: "(0x7F :: int) = mask 7" "(0xFFFFFF :: int) = mask 24" "(0x7FFFFFFF :: int) = mask 31"
    "(0xFF000000 :: int) = push_bit 24 (mask 8)" "(0x80FFFFFF :: int) = set_bit 31 (mask 24)"
    by (simp_all add: mask_eq_exp_minus_1 push_bit_eq_mult set_bit_eq_or)
  show "bit (0x7F :: int) i \<longleftrightarrow> i < 7" "bit (0xFFFFFF :: int) i \<longleftrightarrow> i < 24"
    "bit (0x7FFFFFFF :: int) i \<longleftrightarrow> i < 31"
    "bit (0xFF000000 :: int) i \<longleftrightarrow> 24 \<le> i \<and> i < 32" "bit (0x80FFFFFF :: int) i \<longleftrightarrow> i < 24 \<or> i = 31"
    unfolding m by (auto simp: bit_simps)
qed

lemma bit_key_info:
  "bit (key_info nx n s) i \<longleftrightarrow>
    (if i < 24 then bit (of_nat s :: u32) i
     else if i < 31 then bit (of_nat n :: u8) (i - 24) else i = 31 \<and> nx)"
  by (auto simp: key_info_def set_data_size_def set_name_length_def set_next_key_exist_def bit_simps
      bit_field_masks)

lemma key_info_next [simp]: "get_next_key_exist (key_info nx n s) = nx"
proof -
  have "drop_bit 31 (key_info nx n s) AND 1 = (if nx then 1 else 0)"
    by (rule bit_word_eqI) (auto simp: bit_simps bit_key_info)
  then show ?thesis by (simp add: get_next_key_exist_def)
qed

lemma key_info_name [simp]:
  assumes "n < 128" shows "get_name_length (key_info nx n s) = n"
proof -
  have "drop_bit 24 (key_info nx n s) AND 0x7F = ucast (of_nat n :: u8)"
    if "take_bit 7 n = n"
  proof (rule bit_word_eqI)
    fix i assume "i < LENGTH(32)"
    have "bit n j \<Longrightarrow> j < 7" for j using that by (metis bit_take_bit_iff)
    then show "bit (drop_bit 24 (key_info nx n s) AND 0x7F) i = bit (ucast (of_nat n :: u8) :: u32) i"
      by (auto simp: bit_simps bit_key_info bit_field_masks)
  qed
  then show ?thesis using assms
    by (simp add: get_name_length_def take_bit_nat_eq_self unat_ucast_up unat_of_nat_small)
qed

lemma key_info_size [simp]:
  assumes "s < 2 ^ 24" shows "get_data_size (key_info nx n s) = s"
proof -
  have "key_info nx n s AND 0x00FFFFFF = of_nat s" if "take_bit 24 s = s"
  proof (rule bit_word_eqI)
    fix i assume "i < LENGTH(32)"
    have "bit s j \<Longrightarrow> j < 24" for j using that by (metis bit_take_bit_iff)
    then show "bit (key_info nx n s AND 0x00FFFFFF) i = bit (of_nat s :: u32) i"
      by (auto simp: bit_simps bit_key_info bit_field_masks)
  qed
  then show ?thesis using assms by (simp add: get_data_size_def take_bit_nat_eq_self unat_of_nat_small)
qed

lemma set_next_key_info [simp]: "set_next_key_exist e (key_info nx n s) = key_info e n s"
  by (rule bit_word_eqI)
    (auto simp: set_next_key_exist_def bit_key_info bit_simps bit_field_masks)


section \<open>The layout of a block\<close>

type_synonym entry = "u8 list \<times> u8 list"

definition enc_entry :: "bool \<Rightarrow> entry \<Rightarrow> u8 list" where
  "enc_entry nx e =
     word_bytes 4 (key_info nx (length (fst e) + 1) (length (snd e))) @ fst e @ [0] @ snd e"

fun enc_keys :: "entry list \<Rightarrow> u8 list" where
  "enc_keys [] = []"
| "enc_keys (e # es) = enc_entry (es \<noteq> []) e @ enc_keys es"

definition enc_block :: "entry list \<Rightarrow> u8 list" where
  "enc_block es = (if es = [] then word_bytes 4 (key_info False 0 0) else enc_keys es)"

definition entry_size :: "entry \<Rightarrow> nat" where
  "entry_size e = KEY_INFO_SIZE + length (fst e) + 1 + length (snd e)"

text \<open>What the seven bits of the name length and the 24 bits of the data size can hold.\<close>

definition entry_ok :: "entry \<Rightarrow> bool" where
  "entry_ok e \<longleftrightarrow> length (fst e) + 1 < 128 \<and> 0 \<notin> set (fst e) \<and> length (snd e) < 2 ^ 24"

text \<open>A name that the comparison recognises: with a signed \<open>char\<close> only ASCII names.\<close>

definition plain_name :: "bool \<Rightarrow> u8 list \<Rightarrow> bool" where
  "plain_name cs name \<longleftrightarrow> 0 \<notin> set name \<and> (\<forall>c \<in> set name. char_value cs c = uint c)"

definition image :: "entry list \<Rightarrow> u8 list \<Rightarrow> bool" where
  "image es bs \<longleftrightarrow> distinct (map fst es) \<and> (\<forall>e \<in> set es. entry_ok e) \<and>
     (\<exists>tail. bs = word_bytes 4 FLASH_HEADER @ enc_block es @ tail @ [CHECKSUM_BYTE])"

lemma length_enc_entry [simp]: "length (enc_entry nx e) = entry_size e"
  by (simp add: enc_entry_def entry_size_def db_sizes)

lemma length_enc_keys [simp]: "length (enc_keys es) = sum_list (map entry_size es)"
  by (induction es) simp_all

lemma enc_keys_append:
  "enc_keys (es1 @ es2) =
    (if es2 = [] then enc_keys es1 else concat (map (enc_entry True) es1) @ enc_keys es2)"
  by (induction es1) auto

lemma length_enc_block:
  "length (enc_block es) = (if es = [] then KEY_INFO_SIZE else sum_list (map entry_size es))"
  by (simp add: enc_block_def db_sizes)

section \<open>Reading the layout\<close>

lemma flash_read_at:
  "flash_area f = pre @ mid @ post \<Longrightarrow> offset = length pre \<Longrightarrow> n = length mid \<Longrightarrow>
   flash_read f offset n = Some mid"
  by (simp add: flash_read_def flash_size_def)

lemma key_at_eq:
  "flash_area (db_flash d) = pre @ word_bytes 4 k @ post \<Longrightarrow> offset = length pre \<Longrightarrow>
   key_at d offset = Some k"
  using flash_read_at [of "db_flash d" pre "word_bytes 4 k" post offset KEY_INFO_SIZE]
  by (simp add: key_at_def db_sizes le_word_bytes)

lemma name_compare_loop_eq:
  assumes "flash_area (db_flash d) = pre @ p @ (s @ [0]) @ post" "name = p @ t"
    "0 \<notin> set s" "plain_name cs t"
  shows "name_compare_loop cs d (length pre) name (length p) (length s + 1) = Some (s \<noteq> t)"
  using assms
proof (induction s arbitrary: p t)
  case Nil
  have "flash_read (db_flash d) (length pre + length p) 1 = Some [0]"
    using Nil(1) by (intro flash_read_at [where pre = "pre @ p" and post = post]) simp_all
  then show ?case using Nil
    by (cases t) (auto simp: nth_append plain_name_def char_value_def uint_0_iff)
next
  case (Cons a s)
  have r: "flash_read (db_flash d) (length pre + length p) 1 = Some [a]"
    using Cons.prems(1)
    by (intro flash_read_at [where pre = "pre @ p" and post = "s @ [0] @ post"]) simp_all
  show ?case
  proof (cases t)
    case Nil
    then show ?thesis using r Cons.prems by (simp add: nth_append char_value_def uint_0_iff)
  next
    case (Cons b u)
    have b: "char_value cs b = uint b" "plain_name cs u"
      using Cons \<open>plain_name cs t\<close> by (auto simp: plain_name_def)
    show ?thesis
    proof (cases "a = b")
      case True
      then show ?thesis
        using r b Cons Cons.prems Cons.IH [of "p @ [a]" u] by (simp add: nth_append)
    next
      case False
      then have "uint a \<noteq> uint b" by (simp add: word_uint_eq_iff)
      then show ?thesis using False r b Cons Cons.prems by (simp add: nth_append)
    qed
  qed
qed

lemma key_name_compare_eq:
  assumes "flash_area (db_flash d) = pre @ enc_entry nx e @ post" "entry_ok e" "plain_name cs name"
    "offset = length pre"
  shows "key_name_compare cs d offset name = Some (fst e \<noteq> name)"
proof -
  let ?k = "key_info nx (length (fst e) + 1) (length (snd e))"
  have "key_at d offset = Some ?k"
    using assms by (intro key_at_eq [of _ pre]) (auto simp: enc_entry_def)
  moreover have "name_compare_loop cs d (length (pre @ word_bytes 4 ?k)) name (length ([] :: u8 list)) (length (fst e) + 1) =
      Some (fst e \<noteq> name)"
    using assms by (intro name_compare_loop_eq [where post = "snd e @ post"])
      (auto simp: enc_entry_def entry_ok_def)
  ultimately show ?thesis using assms by (simp add: key_name_compare_def entry_ok_def db_sizes)
qed

lemma key_steps:
  assumes "flash_area (db_flash d) = pre @ enc_entry nx e @ post" "entry_ok e" "offset = length pre"
  shows "has_last_key d offset = Some nx" "get_next_key d offset = Some (offset + entry_size e)"
    "key_at d offset = Some (key_info nx (length (fst e) + 1) (length (snd e)))"
proof -
  show "key_at d offset = Some (key_info nx (length (fst e) + 1) (length (snd e)))"
    using assms by (intro key_at_eq [of _ pre]) (auto simp: enc_entry_def)
  then show "has_last_key d offset = Some nx" "get_next_key d offset = Some (offset + entry_size e)"
    using assms
    by (simp_all add: has_last_key_def get_next_key_def get_key_size_def entry_ok_def entry_size_def)
qed

text \<open>The offset of a name in the layout, 0 when it is not there.\<close>

fun key_offset :: "u8 list \<Rightarrow> nat \<Rightarrow> entry list \<Rightarrow> nat" where
  "key_offset name offset [] = 0"
| "key_offset name offset (e # es) =
     (if fst e = name then offset else key_offset name (offset + entry_size e) es)"

lemma search_loop_eq:
  assumes "flash_area (db_flash d) = pre @ enc_keys es @ post" "es \<noteq> []" "\<forall>e \<in> set es. entry_ok e"
    "plain_name cs name"
  shows "search_loop cs d name (length pre) = Some (key_offset name (length pre) es)"
  using assms
proof (induction es arbitrary: pre)
  case (Cons e es)
  have a: "flash_area (db_flash d) = pre @ enc_entry (es \<noteq> []) e @ enc_keys es @ post" "entry_ok e"
    using Cons.prems by simp_all
  note st = key_name_compare_eq [OF a Cons.prems(4) refl] key_steps [OF a refl]
  show ?case
  proof (cases "fst e = name \<or> es = []")
    case True
    then show ?thesis using st by (subst search_loop.simps) auto
  next
    case False
    have "search_loop cs d name (length (pre @ enc_entry True e)) =
        Some (key_offset name (length (pre @ enc_entry True e)) es)"
      using False Cons.prems by (intro Cons.IH) simp_all
    then show ?thesis using False st by (subst search_loop.simps) simp
  qed
qed simp

lemma last_key_loop_eq:
  assumes "flash_area (db_flash d) = pre @ enc_keys (es @ [e]) @ post" "\<forall>x \<in> set es. entry_ok x" "entry_ok e"
  shows "last_key_loop d (length pre) = Some (length pre + sum_list (map entry_size es))"
  using assms
proof (induction es arbitrary: pre)
  case Nil
  then show ?case using key_steps [of d pre False e post] by (subst last_key_loop.simps) simp
next
  case (Cons x es)
  have a: "flash_area (db_flash d) = pre @ enc_entry True x @ enc_keys (es @ [e]) @ post" "entry_ok x"
    using Cons.prems by simp_all
  have "last_key_loop d (length (pre @ enc_entry True x)) =
      Some (length (pre @ enc_entry True x) + sum_list (map entry_size es))"
    using a Cons.prems by (intro Cons.IH) simp_all
  then show ?case using key_steps [OF a refl] by (subst last_key_loop.simps) (simp add: add.assoc)
qed


section \<open>Writing the blocks\<close>

text \<open>The sizes that the operations need: two blocks fit into the flash, the image fits into a block,
  and erase and write units divide them.\<close>

definition geometry :: "database \<Rightarrow> bool" where
  "geometry d \<longleftrightarrow> 0 < min_erase_size (db_flash d) \<and> min_erase_size (db_flash d) dvd block_size d \<and>
     0 < min_write_size (db_flash d) \<and> min_write_size (db_flash d) dvd block_size d \<and>
     min_write_size (db_flash d) dvd max_buffer_size d \<and> FIRST_KEY + KEY_INFO_SIZE < max_buffer_size d \<and>
     max_buffer_size d \<le> block_size d \<and> 2 * block_size d \<le> flash_size (db_flash d) \<and>
     length (db_buffer d) = max_buffer_size d"

definition block_bytes :: "database \<Rightarrow> u8 list \<Rightarrow> u8 list" where
  "block_bytes d bs = bs @ replicate (block_size d - max_buffer_size d) 0xFF"

definition set_area :: "database \<Rightarrow> u8 list \<Rightarrow> database" where
  "set_area d a = d\<lparr>db_flash := (db_flash d)\<lparr>flash_area := a\<rparr>\<rparr>"

lemma set_area_simps [simp]:
  "db_flash (set_area d a) = (db_flash d)\<lparr>flash_area := a\<rparr>" "db_buffer (set_area d a) = db_buffer d"
  "block_size (set_area d a) = block_size d" "max_buffer_size (set_area d a) = max_buffer_size d"
  "set_area (set_area d a) b = set_area d b" "block_bytes (set_area d a) = block_bytes d"
  "set_area (d\<lparr>db_buffer := b\<rparr>) a = (set_area d a)\<lparr>db_buffer := b\<rparr>"
  by (auto simp: set_area_def block_bytes_def fun_eq_iff)

lemma block_bytes_buffer [simp]: "block_bytes (d\<lparr>db_buffer := b\<rparr>) = block_bytes d"
  by (simp add: block_bytes_def fun_eq_iff)

lemma set_area_same [simp]: "set_area d (flash_area (db_flash d)) = d"
  by (simp add: set_area_def)

lemma geometry_set_area [simp]:
  "length a = length (flash_area (db_flash d)) \<Longrightarrow> geometry (set_area d a) = geometry d"
  by (simp add: geometry_def flash_size_def)

lemma geometry_buffer [simp]:
  "length b = max_buffer_size d \<Longrightarrow> geometry d \<Longrightarrow> geometry (d\<lparr>db_buffer := b\<rparr>)"
  by (simp add: geometry_def)

lemma length_block_bytes [simp]:
  "geometry d \<Longrightarrow> length bs = max_buffer_size d \<Longrightarrow> length (block_bytes d bs) = block_size d"
  by (simp add: block_bytes_def geometry_def)

lemma blit_at:
  "a = pre @ mid @ post \<Longrightarrow> offset = length pre \<Longrightarrow> length mid = length bs \<Longrightarrow>
   blit a offset bs = pre @ bs @ post"
  by (simp add: blit_def)

lemma db_erase_eq:
  assumes "geometry d" "flash_area (db_flash d) = pre @ mid @ post" "length mid = block_size d"
    "offset = length pre" "offset mod min_erase_size (db_flash d) = 0"
  shows "db_erase d offset (block_size d) = Some (set_area d (pre @ replicate (block_size d) 0xFF @ post))"
proof -
  have "flash_erase (db_flash d) offset (block_size d) =
      Some ((db_flash d)\<lparr>flash_area := blit (flash_area (db_flash d)) offset (replicate (block_size d) 0xFF)\<rparr>, OK)"
    using assms by (intro flash_erase_eq) (auto simp: geometry_def flash_size_def)
  then show ?thesis
    using assms blit_at [OF assms(2), of offset "replicate (block_size d) 0xFF"]
    by (simp add: db_erase_def set_area_def)
qed

lemma db_write_eq:
  assumes "geometry d" "flash_area (db_flash d) = pre @ replicate (block_size d) 0xFF @ post"
    "offset = length pre" "offset mod min_erase_size (db_flash d) = 0"
    "offset mod min_write_size (db_flash d) = 0"
  shows "db_write_buffer d offset = Some (set_area d (pre @ block_bytes d (db_buffer d) @ post))"
proof -
  let ?m = "max_buffer_size d" and ?b = "block_size d"
  have r: "replicate ?b (0xFF :: u8) = replicate ?m 0xFF @ replicate (?b - ?m) 0xFF"
    using assms(1) by (simp add: geometry_def flip: replicate_add)
  then have a: "flash_area (db_flash d) = pre @ replicate ?m 0xFF @ replicate (?b - ?m) 0xFF @ post"
    using assms(2) by simp
  have m: "length (db_buffer d) = ?m" "min_write_size (db_flash d) dvd ?m" "0 < min_write_size (db_flash d)"
    "0 < min_erase_size (db_flash d)" "length pre + ?m \<le> flash_size (db_flash d)"
    using assms(1) a by (auto simp: geometry_def flash_size_def)
  have "take ?m (drop offset (flash_area (db_flash d))) = replicate ?m 0xFF"
    using a assms(3) by simp
  then have "flash_write (db_flash d) offset (db_buffer d) =
      Some ((db_flash d)\<lparr>flash_area := blit (flash_area (db_flash d)) offset (db_buffer d)\<rparr>, OK)"
    using m assms by (simp add: flash_write_def clears_only_erased)
  then show ?thesis
    using m assms(3) blit_at [OF a, of offset "db_buffer d"]
    by (simp add: db_write_buffer_def set_area_def block_bytes_def)
qed

definition flash_rest :: "database \<Rightarrow> u8 list" where
  "flash_rest d = drop (2 * block_size d) (flash_area (db_flash d))"

definition saved_area :: "database \<Rightarrow> u8 list \<Rightarrow> u8 list" where
  "saved_area d bs = block_bytes d bs @ block_bytes d bs @ flash_rest d"

lemma area_blocks:
  assumes "geometry d"
  obtains m b where "flash_area (db_flash d) = m @ b @ flash_rest d" "length m = block_size d"
    "length b = block_size d"
proof
  let ?a = "flash_area (db_flash d)" and ?n = "block_size d"
  have "?a = take ?n ?a @ take ?n (drop ?n ?a) @ drop ?n (drop ?n ?a)"
    by (simp only: append_take_drop_id)
  then show "?a = take ?n ?a @ take ?n (drop ?n ?a) @ flash_rest d"
    by (simp add: flash_rest_def mult_2)
qed (use assms in \<open>auto simp: geometry_def flash_size_def\<close>)

lemma geometry_units:
  assumes "geometry d"
  shows "block_size d mod min_erase_size (db_flash d) = 0" "block_size d mod min_write_size (db_flash d) = 0"
    "length (db_buffer d) = max_buffer_size d"
  using assms by (auto simp: geometry_def)

lemma db_save_eq:
  assumes "geometry d"
  shows "db_save d = Some (set_area d (saved_area d (db_buffer d)))"
proof -
  obtain m b where a: "flash_area (db_flash d) = m @ b @ flash_rest d" "length m = block_size d"
    "length b = block_size d" using area_blocks [OF assms] .
  let ?e = "replicate (block_size d) (0xFF :: u8)" and ?i = "block_bytes d (db_buffer d)"
  note u = geometry_units [OF assms]
  have len: "length (flash_area (db_flash d)) = 2 * block_size d + length (flash_rest d)"
    using arg_cong [OF a(1), of length] a by simp
  have i: "length ?i = block_size d" using assms u by simp
  have 1: "db_erase d (block_size d) (block_size d) = Some (set_area d (m @ ?e @ flash_rest d))"
    using db_erase_eq [OF assms a(1) a(3)] a u by simp
  have 2: "db_write_buffer (set_area d (m @ ?e @ flash_rest d)) (block_size d) =
      Some (set_area d (m @ ?i @ flash_rest d))"
    using assms a u len
    by (subst db_write_eq [where pre = m and post = "flash_rest d"]) simp_all
  have 3: "db_erase (set_area d (m @ ?i @ flash_rest d)) 0 (block_size d) =
      Some (set_area d (?e @ ?i @ flash_rest d))"
    using assms a u len i
      db_erase_eq [of "set_area d (m @ ?i @ flash_rest d)" "[]" m "?i @ flash_rest d" 0] by simp
  have 4: "db_write_buffer (set_area d (?e @ ?i @ flash_rest d)) 0 =
      Some (set_area d (?i @ ?i @ flash_rest d))"
    using assms a u len i
    by (subst db_write_eq [where pre = "[]" and post = "?i @ flash_rest d"]) simp_all
  show ?thesis by (simp add: db_save_def 1 2 3 4 saved_area_def)
qed


section \<open>The invariant\<close>

text \<open>The buffer is an image of the entries, and the main block begins with it.\<close>

definition db_ok :: "entry list \<Rightarrow> database \<Rightarrow> bool" where
  "db_ok es d \<longleftrightarrow> geometry d \<and> image es (db_buffer d) \<and>
     take (max_buffer_size d) (flash_area (db_flash d)) = db_buffer d"

lemma db_ok_layout:
  assumes "db_ok es d"
  obtains tail rest where
    "flash_area (db_flash d) = word_bytes 4 FLASH_HEADER @ enc_block es @ tail @ [CHECKSUM_BYTE] @ rest"
    "db_buffer d = word_bytes 4 FLASH_HEADER @ enc_block es @ tail @ [CHECKSUM_BYTE]"
proof -
  obtain tail where t: "db_buffer d = word_bytes 4 FLASH_HEADER @ enc_block es @ tail @ [CHECKSUM_BYTE]"
    using assms by (auto simp: db_ok_def image_def)
  have "flash_area (db_flash d) = db_buffer d @ drop (max_buffer_size d) (flash_area (db_flash d))"
    using assms append_take_drop_id by (metis db_ok_def)
  then show thesis using that t by simp
qed

lemma saved_ok:
  assumes "geometry d" "image es (db_buffer d)"
  shows "db_ok es (set_area d (saved_area d (db_buffer d)))"
proof -
  have "length (saved_area d (db_buffer d)) = length (flash_area (db_flash d))"
    using assms geometry_units [OF assms(1)]
    by (auto simp: saved_area_def flash_rest_def geometry_def flash_size_def)
  then show ?thesis
    using assms geometry_units [OF assms(1)] by (simp add: db_ok_def saved_area_def block_bytes_def)
qed

lemma is_block_empty_eq:
  assumes "flash_area (db_flash d) = pre @ word_bytes 4 FLASH_HEADER @ enc_block es @ post"
    "length pre = block_offset d block" "\<forall>e \<in> set es. entry_ok e"
  shows "is_block_empty d block = Some (es = [])"
proof -
  obtain k post' where k: "enc_block es @ post = word_bytes 4 k @ post'"
    "get_name_length k = 0 \<longleftrightarrow> es = []"
  proof (cases es)
    case Nil
    then show ?thesis using that [of "key_info False 0 0" post] by (simp add: enc_block_def)
  next
    case (Cons e es')
    let ?k = "key_info (es' \<noteq> []) (length (fst e) + 1) (length (snd e))"
    have "get_name_length ?k \<noteq> 0" using assms(3) Cons by (simp add: entry_ok_def)
    then show ?thesis
      using that [of ?k "fst e @ [0] @ snd e @ enc_keys es' @ post"] Cons
      by (simp add: enc_block_def enc_entry_def)
  qed
  have "flash_read (db_flash d) (block_offset d block) (FIRST_KEY + KEY_INFO_SIZE) =
      Some (word_bytes 4 FLASH_HEADER @ word_bytes 4 k)"
    using assms k(1) by (intro flash_read_at [of _ pre _ post']) (simp_all add: db_sizes)
  then show ?thesis using k(2) by (simp add: is_block_empty_def db_sizes le_word_bytes)
qed

lemma db_ok_entries: "db_ok es d \<Longrightarrow> \<forall>e \<in> set es. entry_ok e"
  by (simp add: db_ok_def image_def)

lemma db_ok_empty:
  assumes "db_ok es d" shows "is_block_empty d MAIN = Some (es = [])"
proof -
  obtain tail rest where "flash_area (db_flash d) =
      word_bytes 4 FLASH_HEADER @ enc_block es @ tail @ [CHECKSUM_BYTE] @ rest"
    using db_ok_layout [OF assms] .
  then show ?thesis
    using is_block_empty_eq [of d "[]" es "tail @ [CHECKSUM_BYTE] @ rest" MAIN] db_ok_entries [OF assms]
    by (simp add: block_offset_def)
qed

lemma search_key_eq:
  assumes "db_ok es d" "plain_name cs name"
  shows "search_key cs d name = Some (key_offset name FIRST_KEY es)"
proof (cases "es = []")
  case True
  then show ?thesis using db_ok_empty [OF assms(1)] by (simp add: search_key_def)
next
  case False
  obtain tail rest where a: "flash_area (db_flash d) =
      word_bytes 4 FLASH_HEADER @ enc_block es @ tail @ [CHECKSUM_BYTE] @ rest"
    using db_ok_layout [OF assms(1)] .
  have "search_loop cs d name (length (word_bytes 4 FLASH_HEADER)) =
      Some (key_offset name (length (word_bytes 4 FLASH_HEADER)) es)"
    using False a db_ok_entries [OF assms(1)] assms(2)
    by (intro search_loop_eq [where post = "tail @ [CHECKSUM_BYTE] @ rest"]) (simp_all add: enc_block_def)
  then show ?thesis
    using False db_ok_empty [OF assms(1)] by (simp add: search_key_def db_sizes)
qed

lemma key_offset_cases:
  assumes "0 < offset"
  obtains "key_offset name offset es = 0" "map_of es name = None"
  | es1 v es2 where "es = es1 @ (name, v) # es2" "name \<notin> fst ` set es1" "map_of es name = Some v"
      "key_offset name offset es = offset + sum_list (map entry_size es1)"
      "AList.update name w es = es1 @ (name, w) # es2"
proof (induction es arbitrary: offset thesis)
  case (Cons e es)
  obtain n v where e: "e = (n, v)" by (cases e)
  show ?case
  proof (cases "n = name")
    case True
    then show ?thesis using Cons.prems(2) [of "[]" v es] e by simp
  next
    case False
    show ?thesis
    proof (rule Cons.IH [of "offset + entry_size e"])
      assume "key_offset name (offset + entry_size e) es = 0" "map_of es name = None"
      then show thesis using Cons.prems(1) False e by simp
    next
      fix es1 v' es2
      assume "es = es1 @ (name, v') # es2" "name \<notin> fst ` set es1" "map_of es name = Some v'"
        "key_offset name (offset + entry_size e) es = offset + entry_size e + sum_list (map entry_size es1)"
        "AList.update name w es = es1 @ (name, w) # es2"
      then show thesis using Cons.prems(2) [of "e # es1" v' es2] False e by simp
    qed
  qed
qed simp


section \<open>The operations on entries\<close>

text \<open>The contract: entries in the order of their addition, looked up and updated by name.\<close>

definition kv_get :: "entry list \<Rightarrow> u8 list \<Rightarrow> u8 list \<Rightarrow> error_code \<times> u8 list" where
  "kv_get es name out =
     (case map_of es name of None \<Rightarrow> (NOT_FOUND, out)
      | Some v \<Rightarrow> if length v = length out then (OK, v) else (FAILED, out))"

definition kv_set :: "entry list \<Rightarrow> u8 list \<Rightarrow> u8 list \<Rightarrow> entry list \<times> error_code" where
  "kv_set es name v =
     (case map_of es name of None \<Rightarrow> (es, FAILED)
      | Some w \<Rightarrow> if length w = length v then (AList.update name v es, OK) else (es, FAILED))"

definition kv_used :: "entry list \<Rightarrow> nat" where
  "kv_used es = FIRST_KEY + sum_list (map entry_size es)"

definition kv_add :: "nat \<Rightarrow> entry list \<Rightarrow> u8 list \<Rightarrow> u8 list \<Rightarrow> entry list \<times> error_code" where
  "kv_add capacity es name v =
     (case map_of es name of Some w \<Rightarrow> kv_set es name v
      | None \<Rightarrow> if kv_used es + entry_size (name, v) \<le> capacity - 1
                then (AList.update name v es, OK) else (es, FULL))"

lemma array_copy_at:
  "a = pre @ mid @ post \<Longrightarrow> offset = length pre \<Longrightarrow> length mid = length src \<Longrightarrow> n = length src \<Longrightarrow>
   array_copy a offset src 0 n = Some (pre @ src @ post)"
  by (simp add: array_copy_def blit_def)

text \<open>The bytes around a stored key.\<close>

lemma entry_layout:
  assumes "db_ok (es1 @ (name, v) # es2) d"
  obtains tail rest where
    "flash_area (db_flash d) = (word_bytes 4 FLASH_HEADER @ concat (map (enc_entry True) es1)) @
       enc_entry (es2 \<noteq> []) (name, v) @ enc_keys es2 @ tail @ [CHECKSUM_BYTE] @ rest"
    "db_buffer d = (word_bytes 4 FLASH_HEADER @ concat (map (enc_entry True) es1)) @
       enc_entry (es2 \<noteq> []) (name, v) @ enc_keys es2 @ tail @ [CHECKSUM_BYTE]"
  using assms by (rule db_ok_layout) (auto simp: enc_block_def enc_keys_append)

lemma length_concat_entries [simp]:
  "length (concat (map (enc_entry nx) es)) = sum_list (map entry_size es)"
  by (induction es) simp_all

lemma db_get_eq:
  assumes "db_ok es d" "plain_name cs name"
  shows "db_get cs d name out = Some (kv_get es name out)"
proof (rule key_offset_cases [of FIRST_KEY name es])
  show "0 < FIRST_KEY" by simp
next
  assume "key_offset name FIRST_KEY es = 0" "map_of es name = None"
  then show ?thesis using search_key_eq [OF assms] by (simp add: db_get_def kv_get_def)
next
  fix es1 v es2 w
  assume es: "es = es1 @ (name, v) # es2" and m: "map_of es name = Some v"
    and off: "key_offset name FIRST_KEY es = FIRST_KEY + sum_list (map entry_size es1)"
  let ?o = "FIRST_KEY + sum_list (map entry_size es1)"
  obtain tail rest where a: "flash_area (db_flash d) =
      (word_bytes 4 FLASH_HEADER @ concat (map (enc_entry True) es1)) @
       enc_entry (es2 \<noteq> []) (name, v) @ enc_keys es2 @ tail @ [CHECKSUM_BYTE] @ rest"
    using entry_layout assms(1) unfolding es by blast
  have e: "entry_ok (name, v)" using db_ok_entries [OF assms(1)] es by simp
  have k: "key_at d ?o = Some (key_info (es2 \<noteq> []) (length name + 1) (length v))"
    using key_steps(3) [OF a e, of ?o] by (simp add: db_sizes)
  have r: "flash_read (db_flash d) (?o + KEY_INFO_SIZE + (length name + 1)) (length v) = Some v"
    using a by (intro flash_read_at [where post = "enc_keys es2 @ tail @ [CHECKSUM_BYTE] @ rest" and
        pre = "word_bytes 4 FLASH_HEADER @ concat (map (enc_entry True) es1) @
          word_bytes 4 (key_info (es2 \<noteq> []) (length name + 1) (length v)) @ name @ [0]"])
      (simp_all add: enc_entry_def db_sizes)
  show ?thesis
    using search_key_eq [OF assms] off k r m e
    by (simp add: db_get_def kv_get_def get_key_data_def entry_ok_def blit_def FIRST_KEY_def)
qed

lemma data_compare_loop_eq:
  assumes "flash_area (db_flash d) = pre @ p @ xs @ post" "data = q @ ys" "length q = length p"
    "length xs = length ys"
  shows "data_compare_loop d (length pre) data (length p) (length xs) = Some (xs \<noteq> ys)"
  using assms
proof (induction xs arbitrary: p q ys)
  case (Cons x xs)
  obtain y zs where y: "ys = y # zs" using Cons.prems by (cases ys) auto
  have r: "flash_read (db_flash d) (length pre + length p) 1 = Some [x]"
    using Cons.prems(1)
    by (intro flash_read_at [where pre = "pre @ p" and post = "xs @ post"]) simp_all
  have "data_compare_loop d (length pre) data (length (p @ [x])) (length xs) = Some (xs \<noteq> zs)"
    if "x = y" using Cons.prems y that by (intro Cons.IH [where q = "q @ [y]"]) simp_all
  then show ?case using r y Cons.prems by (auto simp: nth_append)
qed simp

lemma set_key_at_eq:
  assumes ok: "db_ok (es1 @ (name, v) # es2) d" and nm: "name \<notin> fst ` set es1"
  shows "\<exists>d'. set_key_at d (FIRST_KEY + sum_list (map entry_size es1)) data (length data) =
      Some (d', snd (kv_set (es1 @ (name, v) # es2) name data)) \<and>
    db_ok (fst (kv_set (es1 @ (name, v) # es2) name data)) d' \<and>
    (d' = d \<or> d' = set_area (d\<lparr>db_buffer := db_buffer d'\<rparr>) (saved_area d (db_buffer d')))"
proof -
  let ?o = "FIRST_KEY + sum_list (map entry_size es1)" and ?es = "es1 @ (name, v) # es2"
  let ?pre = "word_bytes 4 FLASH_HEADER @ concat (map (enc_entry True) es1)"
  let ?k = "key_info (es2 \<noteq> []) (length name + 1) (length v)"
  obtain tail rest where a: "flash_area (db_flash d) = ?pre @ enc_entry (es2 \<noteq> []) (name, v) @
       enc_keys es2 @ tail @ [CHECKSUM_BYTE] @ rest"
    and b: "db_buffer d = ?pre @ enc_entry (es2 \<noteq> []) (name, v) @ enc_keys es2 @ tail @ [CHECKSUM_BYTE]"
    using entry_layout [OF ok] .
  have e: "entry_ok (name, v)" using db_ok_entries [OF ok] by simp
  have k: "key_at d ?o = Some ?k" using key_steps(3) [OF a e, of ?o] by (simp add: db_sizes)
  have m: "map_of ?es name = Some v" "AList.update name data ?es = es1 @ (name, data) # es2"
    using nm by (induction es1) auto
  have kv: "kv_set ?es name data =
      (if length v = length data then (es1 @ (name, data) # es2, OK) else (?es, FAILED))"
    by (simp only: kv_set_def m option.case)
  note d = set_key_at_def k kv
  show ?thesis
  proof (cases "length v = length data")
    case False
    then show ?thesis using ok e by (simp add: d entry_ok_def)
  next
    case len: True
    have c: "data_compare_loop d (?o + KEY_INFO_SIZE + (length name + 1)) data 0 (length data) =
        Some (v \<noteq> data)"
      using data_compare_loop_eq [of d "?pre @ word_bytes 4 ?k @ name @ [0]" "[]" v
          "enc_keys es2 @ tail @ [CHECKSUM_BYTE] @ rest" data "[]" data] a len
      by (simp add: enc_entry_def db_sizes add.assoc)
    have kc: "key_data_compare d ?o data (length data) = Some (v \<noteq> data)"
      using c k e by (simp add: key_data_compare_def entry_ok_def)
    show ?thesis
    proof (cases "v = data")
      case True
      then show ?thesis using ok e kc kv by (simp add: set_key_at_def k entry_ok_def)
    next
      case False
      let ?b = "?pre @ enc_entry (es2 \<noteq> []) (name, data) @ enc_keys es2 @ tail @ [CHECKSUM_BYTE]"
      let ?d = "d\<lparr>db_buffer := ?b\<rparr>"
      have cp: "array_copy (db_buffer d) (?o + KEY_INFO_SIZE + (length name + 1)) data 0 (length data) = Some ?b"
        using b len array_copy_at [of "db_buffer d" "?pre @ word_bytes 4 ?k @ name @ [0]" v
          "enc_keys es2 @ tail @ [CHECKSUM_BYTE]" _ data "length data"]
        by (simp add: enc_entry_def db_sizes add.assoc)
      have g: "geometry ?d"
        using ok b len by (simp add: db_ok_def geometry_def entry_size_def)
      have "image (es1 @ (name, data) # es2) ?b"
        using ok len e by (auto simp: db_ok_def image_def enc_block_def enc_keys_append entry_ok_def)
      then have "db_ok (es1 @ (name, data) # es2) (set_area ?d (saved_area ?d ?b))"
        using saved_ok [OF g] by simp
      moreover have "set_key_at d ?o data (length data) = Some (set_area ?d (saved_area ?d ?b), OK)"
        using kc k e len False cp db_save_eq [OF g]
        by (simp add: d entry_ok_def)
      moreover have "saved_area ?d = saved_area d"
        by (simp add: saved_area_def block_bytes_def flash_rest_def fun_eq_iff)
      ultimately show ?thesis using kv len by simp
    qed
  qed
qed


lemma set_key_eq:
  assumes "db_ok es d" "plain_name cs name"
  shows "\<exists>d'. set_key cs d name data (length data) = Some (d', snd (kv_set es name data)) \<and>
    db_ok (fst (kv_set es name data)) d' \<and>
    (d' = d \<or> d' = set_area (d\<lparr>db_buffer := db_buffer d'\<rparr>) (saved_area d (db_buffer d')))"
proof (rule key_offset_cases [of FIRST_KEY name es])
  assume "key_offset name FIRST_KEY es = 0" "map_of es name = None"
  then show ?thesis using search_key_eq [OF assms] assms by (simp add: set_key_def kv_set_def)
next
  fix es1 v es2 w
  assume es: "es = es1 @ (name, v) # es2" "name \<notin> fst ` set es1"
    and off: "key_offset name FIRST_KEY es = FIRST_KEY + sum_list (map entry_size es1)"
  show ?thesis
    using set_key_at_eq [of es1 name v es2 d data] search_key_eq [OF assms] off es assms(1)
    by (simp add: set_key_def)
qed simp

text \<open>The bytes of a new key behind the last one.\<close>

lemma key_append_layout:
  fixes d es name v
  defines "T \<equiv> word_bytes 4 FLASH_HEADER"
  assumes ok: "db_ok es d" and fit: "kv_used es + entry_size (name, v) \<le> max_buffer_size d - 1"
  obtains old tail where
    "db_buffer d = T @ enc_block es @ old @ tail @ [CHECKSUM_BYTE]"
    "length (enc_block es @ old) = sum_list (map entry_size es) + entry_size (name, v)"
proof -
  obtain t where b: "db_buffer d = T @ enc_block es @ t @ [CHECKSUM_BYTE]"
    using db_ok_layout [OF ok] unfolding T_def by blast
  let ?n = "sum_list (map entry_size es) + entry_size (name, v) - length (enc_block es)"
  have "length (db_buffer d) = max_buffer_size d" using ok by (simp add: db_ok_def geometry_def)
  then have "?n \<le> length t"
    using b fit by (simp add: T_def kv_used_def db_sizes)
  then show thesis
    using that [of "take ?n t" "drop ?n t"] b
    by (simp add: length_enc_block entry_size_def)
qed


lemma entry_writes:
  assumes "a = pre @ x @ post" "length x = entry_size (name, v)" "offset = length pre"
  shows "do {
    b1 \<leftarrow> array_copy a (offset + KEY_INFO_SIZE) (name @ [0]) 0 (length name + 1);
    b2 \<leftarrow> array_copy b1 (offset + KEY_INFO_SIZE + (length name + 1)) v 0 (length v);
    array_copy b2 offset (word_bytes 4 (key_info False (length name + 1) (length v))) 0 KEY_INFO_SIZE
  } = Some (pre @ enc_entry False (name, v) @ post)"
proof -
  define k n w where "k = take 4 x" "n = take (length name + 1) (drop 4 x)"
    "w = drop (length name + 1) (drop 4 x)"
  have x: "x = k @ n @ w" "length k = 4" "length n = length name + 1" "length w = length v"
    using assms(2) append_take_drop_id [of 4 x] append_take_drop_id [of "length name + 1" "drop 4 x"]
    by (simp_all only: k_n_w_def) (simp_all add: entry_size_def db_sizes)
  have 1: "array_copy a (offset + KEY_INFO_SIZE) (name @ [0]) 0 (length name + 1) =
      Some ((pre @ k) @ (name @ [0]) @ w @ post)"
    using assms x by (intro array_copy_at [of _ _ n]) (simp_all add: db_sizes)
  have 2: "array_copy ((pre @ k) @ (name @ [0]) @ w @ post) (offset + KEY_INFO_SIZE + (length name + 1)) v 0
      (length v) = Some ((pre @ k @ name @ [0]) @ v @ post)"
    using assms x by (intro array_copy_at [of _ _ w]) (simp_all add: db_sizes)
  have 3: "array_copy ((pre @ k @ name @ [0]) @ v @ post) offset
      (word_bytes 4 (key_info False (length name + 1) (length v))) 0 KEY_INFO_SIZE =
      Some (pre @ word_bytes 4 (key_info False (length name + 1) (length v)) @ name @ [0] @ v @ post)"
    using assms x by (intro array_copy_at [of _ _ k]) (simp_all add: db_sizes)
  show ?thesis by (simp only: 1 2 3 bind.bind_lunit) (simp add: enc_entry_def)
qed

text \<open>The offsets that \<open>AddKey\<close> finds: the last key and the first free byte.\<close>

lemma add_offsets:
  assumes ok: "db_ok es d"
  shows "get_last_key d MAIN =
      Some (if es = [] then 0 else FIRST_KEY + sum_list (map entry_size (butlast es)))"
    "es \<noteq> [] \<Longrightarrow> get_next_key d (FIRST_KEY + sum_list (map entry_size (butlast es))) = Some (kv_used es)"
    "es \<noteq> [] \<Longrightarrow> key_at d (FIRST_KEY + sum_list (map entry_size (butlast es))) =
      Some (key_info False (length (fst (last es)) + 1) (length (snd (last es))))"
proof -
  let ?o = "FIRST_KEY + sum_list (map entry_size (butlast es))"
  have "get_last_key d MAIN = Some ?o \<and> get_next_key d ?o = Some (kv_used es) \<and>
      key_at d ?o = Some (key_info False (length (fst (last es)) + 1) (length (snd (last es))))"
    if "es \<noteq> []"
  proof -
    define es' e where "es' = butlast es" "e = last es"
    have es: "es = es' @ [e]" using that by (simp add: es'_e_def)
    obtain tail rest where "flash_area (db_flash d) =
        word_bytes 4 FLASH_HEADER @ enc_block es @ tail @ [CHECKSUM_BYTE] @ rest"
      using db_ok_layout [OF ok] by blast
    then have a: "flash_area (db_flash d) =
        word_bytes 4 FLASH_HEADER @ enc_keys (es' @ [e]) @ tail @ [CHECKSUM_BYTE] @ rest"
      using that es by (simp add: enc_block_def)
    then have a2: "flash_area (db_flash d) = (word_bytes 4 FLASH_HEADER @ concat (map (enc_entry True) es')) @
        enc_entry False e @ tail @ [CHECKSUM_BYTE] @ rest"
      by (simp add: enc_keys_append)
    have eo: "\<forall>x \<in> set es'. entry_ok x" "entry_ok e" using db_ok_entries [OF ok] es by auto
    show ?thesis
      using last_key_loop_eq [OF a eo] key_steps [OF a2 eo(2), of ?o] db_ok_empty [OF ok] es that
      by (simp add: get_last_key_def kv_used_def db_sizes)
  qed
  then show "get_last_key d MAIN = Some (if es = [] then 0 else ?o)"
    "es \<noteq> [] \<Longrightarrow> get_next_key d ?o = Some (kv_used es)"
    "es \<noteq> [] \<Longrightarrow> key_at d ?o =
      Some (key_info False (length (fst (last es)) + 1) (length (snd (last es))))"
    using db_ok_empty [OF ok] by (auto simp: get_last_key_def)
qed

lemma update_new: "map_of es name = None \<Longrightarrow> AList.update name v es = es @ [(name, v)]"
  by (induction es) (auto split: if_splits)

lemma set_nest_key_at:
  assumes "key_at d offset = Some (key_info False (length (fst e) + 1) (length (snd e)))"
    "db_buffer d = pre @ enc_entry False e @ post" "offset = length pre"
  shows "set_nest_key_exist d offset True = Some (d\<lparr>db_buffer := pre @ enc_entry True e @ post\<rparr>)"
proof -
  have "array_copy (db_buffer d) offset (word_bytes 4 (key_info True (length (fst e) + 1) (length (snd e)))) 0
      KEY_INFO_SIZE = Some (pre @ enc_entry True e @ post)"
    using assms(2,3) array_copy_at [of "db_buffer d" pre
      "word_bytes 4 (key_info False (length (fst e) + 1) (length (snd e)))" "fst e @ [0] @ snd e @ post"
      offset "word_bytes 4 (key_info True (length (fst e) + 1) (length (snd e)))" KEY_INFO_SIZE]
    by (simp add: enc_entry_def db_sizes)
  then show ?thesis using assms(1) by (simp add: set_nest_key_exist_def)
qed

text \<open>The image after the writes of \<open>AddKey\<close>, before it is saved.\<close>

lemma add_key_buffer:
  fixes d es name v
  defines "T \<equiv> word_bytes 4 FLASH_HEADER"
  assumes ok: "db_ok es d" and fit: "kv_used es + entry_size (name, v) \<le> max_buffer_size d - 1"
  obtains pre x tail where
    "db_buffer d = pre @ x @ tail @ [CHECKSUM_BYTE]" "length pre = kv_used es"
    "length x = entry_size (name, v)"
    "if es = [] then pre = T
     else pre = (T @ concat (map (enc_entry True) (butlast es))) @ enc_entry False (last es)"
proof -
  obtain old tail where b: "db_buffer d = T @ enc_block es @ old @ tail @ [CHECKSUM_BYTE]"
    and l: "length (enc_block es @ old) = sum_list (map entry_size es) + entry_size (name, v)"
    using key_append_layout [OF ok fit] unfolding T_def by blast
  show thesis
  proof (cases "es = []")
    case True
    then show thesis using that [of T "enc_block es @ old" tail] b l by (simp add: T_def kv_used_def db_sizes)
  next
    case False
    then have k: "enc_block es = concat (map (enc_entry True) (butlast es)) @ enc_entry False (last es)"
      using enc_keys_append [of "butlast es" "[last es]"] by (simp add: enc_block_def)
    have "length old = entry_size (name, v)" "length (enc_block es) = sum_list (map entry_size es)"
      using l False by (simp_all add: length_enc_block)
    then show thesis
      using that [of "T @ enc_block es" old tail] b False k
      by (simp add: T_def kv_used_def db_sizes)
  qed
qed

lemma enc_block_snoc:
  "es \<noteq> [] \<Longrightarrow> enc_block (es @ [e]) =
    concat (map (enc_entry True) (butlast es)) @ enc_entry True (last es) @ enc_entry False e"
  by (cases es rule: rev_cases) (simp_all add: enc_block_def enc_keys_append)

lemma add_key_free:
  assumes "search_key cs d name = Some 0" "get_last_key d MAIN = Some last_offset"
    "(if last_offset \<noteq> 0 then get_next_key d last_offset else Some FIRST_KEY) = Some free"
    "0 < max_buffer_size d"
  shows "add_key cs d name v (length v) =
    (if free + entry_size (name, v) > max_buffer_size d - 1 then Some (d, FULL)
     else do {
       b3 \<leftarrow> do {
         b1 \<leftarrow> array_copy (db_buffer d) (free + KEY_INFO_SIZE) (name @ [0]) 0 (length name + 1);
         b2 \<leftarrow> array_copy b1 (free + KEY_INFO_SIZE + (length name + 1)) v 0 (length v);
         array_copy b2 free (word_bytes 4 (key_info False (length name + 1) (length v))) 0 KEY_INFO_SIZE
       };
       d1 \<leftarrow> (if last_offset \<noteq> 0 then set_nest_key_exist (d\<lparr>db_buffer := b3\<rparr>) last_offset True
             else Some (d\<lparr>db_buffer := b3\<rparr>));
       d2 \<leftarrow> db_save d1;
       Some (d2, OK)
     })"
proof -
  have "free + KEY_INFO_SIZE + (length name + 1) + length v = free + entry_size (name, v)"
    by (simp add: entry_size_def)
  then show ?thesis
    using assms by (simp only: add_key_def Let_def bind.bind_lunit bind_assoc) simp
qed

lemma add_key_eq:
  assumes ok: "db_ok es d" and nm: "plain_name cs name" and e: "entry_ok (name, data)"
  shows "\<exists>d'. add_key cs d name data (length data) =
      Some (d', snd (kv_add (max_buffer_size d) es name data)) \<and>
    db_ok (fst (kv_add (max_buffer_size d) es name data)) d' \<and>
    (d' = d \<or> d' = set_area (d\<lparr>db_buffer := db_buffer d'\<rparr>) (saved_area d (db_buffer d')))"
proof (rule key_offset_cases [of FIRST_KEY name es])
  fix es1 v es2 w
  assume es: "es = es1 @ (name, v) # es2" "name \<notin> fst ` set es1" "map_of es name = Some v"
    and off: "key_offset name FIRST_KEY es = FIRST_KEY + sum_list (map entry_size es1)"
  show ?thesis
    using set_key_at_eq [of es1 name v es2 d data] search_key_eq [OF ok nm] off es ok
    by (simp add: add_key_def kv_add_def)
next
  assume no: "key_offset name FIRST_KEY es = 0" "map_of es name = None"
  let ?s = "sum_list (map entry_size (butlast es))"
  let ?last = "if es = [] then 0 else FIRST_KEY + ?s"
  have next_key: "(if ?last \<noteq> 0 then get_next_key d ?last else Some FIRST_KEY) = Some (kv_used es)"
    using add_offsets [OF ok] FIRST_KEY_pos by (simp add: kv_used_def del: FIRST_KEY_pos)
  have pos: "0 < max_buffer_size d" using ok by (simp add: db_ok_def geometry_def)
  note free = add_key_free [OF search_key_eq [OF ok nm, unfolded no(1)] add_offsets(1) [OF ok] next_key pos,
    of data]
  show ?thesis
  proof (cases "kv_used es + entry_size (name, data) \<le> max_buffer_size d - 1")
    case False
    then have "add_key cs d name data (length data) = Some (d, FULL)"
      by (simp add: free del: not_le)
    then show ?thesis using False no(2) ok by (simp add: kv_add_def)
  next
    case fit: True
    let ?e = "(name, data)" and ?T = "word_bytes 4 FLASH_HEADER :: u8 list"
    obtain pre x tail where b: "db_buffer d = pre @ x @ tail @ [CHECKSUM_BYTE]"
      and x: "length pre = kv_used es" "length x = entry_size ?e"
      and pre: "if es = [] then pre = ?T
        else pre = (?T @ concat (map (enc_entry True) (butlast es))) @ enc_entry False (last es)"
      using add_key_buffer [OF ok fit] .
    let ?b3 = "pre @ enc_entry False ?e @ tail @ [CHECKSUM_BYTE]"
    let ?b4 = "?T @ enc_block (es @ [?e]) @ tail @ [CHECKSUM_BYTE]"
    let ?d = "d\<lparr>db_buffer := ?b4\<rparr>"
    note w = entry_writes [OF b x(2) x(1) [symmetric]]
    have nest: "(if ?last \<noteq> 0 then set_nest_key_exist (d\<lparr>db_buffer := ?b3\<rparr>) ?last True
        else Some (d\<lparr>db_buffer := ?b3\<rparr>)) = Some ?d"
    proof (cases "es = []")
      case True
      then show ?thesis using pre by (simp add: enc_block_def)
    next
      case False
      have "key_at (d\<lparr>db_buffer := ?b3\<rparr>) ?last =
          Some (key_info False (length (fst (last es)) + 1) (length (snd (last es))))"
        using add_offsets(3) [OF ok False] False by (simp add: key_at_def)
      moreover have "db_buffer (d\<lparr>db_buffer := ?b3\<rparr>) = (?T @ concat (map (enc_entry True) (butlast es))) @
          enc_entry False (last es) @ enc_entry False ?e @ tail @ [CHECKSUM_BYTE]"
        using pre False by simp
      moreover have "?last = length (?T @ concat (map (enc_entry True) (butlast es)))"
        using False by (simp add: db_sizes)
      ultimately have "set_nest_key_exist (d\<lparr>db_buffer := ?b3\<rparr>) ?last True = Some (d\<lparr>db_buffer := ?b3, db_buffer :=
          (?T @ concat (map (enc_entry True) (butlast es))) @ enc_entry True (last es) @ enc_entry False ?e @
          tail @ [CHECKSUM_BYTE]\<rparr>)"
        by (rule set_nest_key_at)
      then show ?thesis using False by (simp add: enc_block_snoc)
    qed
    have lb: "length ?b4 = max_buffer_size d"
    proof -
      have "length ?b4 = length (db_buffer d)"
        using b x by (simp add: length_enc_block kv_used_def db_sizes)
      then show ?thesis using ok by (simp add: db_ok_def geometry_def)
    qed
    have g: "geometry ?d" using lb ok by (simp add: db_ok_def)
    have "name \<notin> fst ` set es" using no(2) by (simp add: map_of_eq_None_iff)
    then have "image (es @ [?e]) ?b4"
      using ok e by (auto simp: db_ok_def image_def)
    then have "db_ok (es @ [?e]) (set_area ?d (saved_area ?d ?b4))"
      using saved_ok [OF g] by simp
    moreover have "add_key cs d name data (length data) = Some (set_area ?d (saved_area ?d ?b4), OK)"
      unfolding free w using fit db_save_eq [OF g]
      by (simp only: bind.bind_lunit nest not_less if_False) simp
    moreover have "saved_area ?d = saved_area d"
      by (simp add: saved_area_def block_bytes_def flash_rest_def fun_eq_iff)
    ultimately show ?thesis using fit no(2) by (simp add: kv_add_def update_new)
  qed
qed simp

section \<open>The interface\<close>

definition db_holds :: "(u8 list \<rightharpoonup> u8 list) \<Rightarrow> database \<Rightarrow> bool" where
  "db_holds m d \<longleftrightarrow> (\<exists>es. db_ok es d \<and> m = map_of es)"

lemma db_holdsI: "db_ok es d \<Longrightarrow> db_holds (map_of es) d"
  by (auto simp: db_holds_def)

lemma db_holds_update: "db_ok (AList.update name v es) d \<Longrightarrow> db_holds ((map_of es)(name \<mapsto> v)) d"
  using db_holdsI by (fastforce simp: update_conv' [symmetric])

text \<open>\<open>Get\<close> of the interface: it leaves the database as it is.\<close>

definition seq_get :: "bool \<Rightarrow> database \<Rightarrow> u8 list \<Rightarrow> u8 list \<Rightarrow> (database \<times> error_code \<times> u8 list) option" where
  "seq_get cs d name out = map_option (Pair d) (db_get cs d name out)"

lemma db_get_holds:
  assumes "db_holds m d" "plain_name cs name"
  shows "db_get cs d name out = Some (case m name of None \<Rightarrow> (NOT_FOUND, out)
      | Some v \<Rightarrow> if length v = length out then (OK, v) else (FAILED, out))"
  using assms by (auto simp: db_holds_def db_get_eq kv_get_def)

lemma db_set_holds:
  assumes "db_holds m d" "plain_name cs name" and m: "m name = Some w" "length w = length v"
  shows "\<exists>d'. db_set cs d name v = Some (d', OK) \<and> db_holds (m(name \<mapsto> v)) d'"
proof -
  obtain es where es: "db_ok es d" "m = map_of es" using assms(1) by (auto simp: db_holds_def)
  have "kv_set es name v = (AList.update name v es, OK)" using m es by (simp add: kv_set_def)
  then show ?thesis using set_key_eq [OF es(1) assms(2), of v] es(2)
    by (auto simp: db_set_def intro: db_holds_update)
qed

lemma db_add_holds:
  assumes "db_holds m d" "plain_name cs name" "entry_ok (name, v)" "m name = None"
  shows "\<exists>d' ec. db_add cs d name v = Some (d', ec) \<and>
      (ec = OK \<and> db_holds (m(name \<mapsto> v)) d' \<or> ec = FULL \<and> db_holds m d')"
proof -
  obtain es where es: "db_ok es d" "m = map_of es" "map_of es name = None"
    using assms(1,4) by (auto simp: db_holds_def)
  show ?thesis using add_key_eq [OF es(1) assms(2,3)] es(2,3)
    by (cases "kv_used es + entry_size (name, v) \<le> max_buffer_size d - 1")
      (auto simp: db_add_def kv_add_def intro: db_holds_update db_holdsI)
qed

interpretation seq_db: key_database "seq_get cs" "db_set cs" "db_add cs" db_holds "plain_name cs"
  "\<lambda>name v. entry_ok (name, v)"
proof
  fix m :: "u8 list \<rightharpoonup> u8 list" and d name and v w :: "u8 list"
  assume "db_holds m d" "plain_name cs name" and m: "m name = Some w" "length w = length v"
  then show "\<exists>d' ec. db_set cs d name v = Some (d', ec) \<and>
      (ec = OK \<and> db_holds (m(name \<mapsto> v)) d' \<or> ec = FULL \<and> db_holds m d')"
    using db_set_holds by blast
qed (auto simp: seq_get_def db_get_holds db_add_holds)

end
