(* ===== verification/Database_Recovery.thy ===== *)
theory Database_Recovery
  imports Database_Sequential
begin

text \<open>
  \<open>DatabaseRawSequential\<close> across restarts: what \<open>Init\<close> makes of any contents of the two blocks, the
  single steps of \<open>Save\<close> with a power failure between any two of them, and the sequences of calls.
\<close>

section \<open>Initialisation\<close>

definition empty_image :: "nat \<Rightarrow> u8 list" where
  "empty_image n = word_bytes 4 FLASH_HEADER @ word_bytes 4 (key_info False 0 0) @
     replicate (n - 9) 0xFF @ [CHECKSUM_BYTE]"

lemma image_empty: "image [] (empty_image n)"
  by (simp add: image_def empty_image_def enc_block_def)

lemma clear_buffer_eq:
  assumes "geometry d"
  shows "clear_buffer d = Some (d\<lparr>db_buffer := empty_image (max_buffer_size d)\<rparr>)"
proof -
  let ?m = "max_buffer_size d"
  have m: "8 < ?m" "length (db_buffer d) = ?m" using assms by (simp_all add: geometry_def db_sizes)
  define k where "k = ?m - 9"
  have k: "?m = 9 + k" using m k_def by simp
  let ?h = "word_bytes 4 FLASH_HEADER" and ?f = "\<lambda>n. replicate n (0xFF :: u8)"
  have 1: "array_copy (db_buffer d) 0 (?f ?m) 0 ?m = Some (?f 4 @ ?f 4 @ ?f k @ [0xFF])"
  proof -
    have "?f ?m = ?f 4 @ ?f 4 @ ?f k @ [0xFF]"
      using replicate_add [of 4 "4 + (k + 1)" "0xFF :: u8"] replicate_add [of 4 "k + 1" "0xFF :: u8"]
        replicate_add [of k 1 "0xFF :: u8"] by (simp add: k replicate_Suc [of 0] del: replicate_Suc)
    then show ?thesis using m k by (simp add: array_copy_def blit_def)
  qed
  have 2: "array_copy (?f 4 @ ?f 4 @ ?f k @ [0xFF]) 0 ?h 0 4 = Some (?h @ ?f 4 @ ?f k @ [0xFF])"
    using array_copy_at [of "?f 4 @ ?f 4 @ ?f k @ [0xFF]" "[]" "?f 4" "?f 4 @ ?f k @ [0xFF]" 0 ?h 4]
    by simp
  have 3: "array_copy (?h @ ?f 4 @ ?f k @ [0xFF]) FIRST_KEY (word_bytes 4 (key_info False 0 0)) 0 KEY_INFO_SIZE =
      Some (?h @ word_bytes 4 (key_info False 0 0) @ ?f k @ [0xFF])"
    by (intro array_copy_at [of _ _ "?f 4"]) (simp_all add: db_sizes)
  have 4: "array_set (?h @ word_bytes 4 (key_info False 0 0) @ ?f k @ [0xFF]) (?m - 1) CHECKSUM_BYTE =
      Some (empty_image ?m)"
    by (simp add: array_set_def k empty_image_def list_update_append)
  show ?thesis using m 4 by (simp add: clear_buffer_def 1 2 3)
qed

lemma length_empty_image [simp]: "8 < n \<Longrightarrow> length (empty_image n) = n"
  by (simp add: empty_image_def)

lemma is_block_inited_eq:
  "geometry d \<Longrightarrow> is_block_inited d block =
    Some (le_word (take 4 (drop (block_offset d block) (flash_area (db_flash d)))) = FLASH_HEADER)"
  by (auto simp: is_block_inited_def flash_read_def geometry_def db_sizes block_offset_def)

lemma is_block_error_eq:
  "geometry d \<Longrightarrow> is_block_error d block =
    Some (flash_area (db_flash d) ! (block_offset d block + max_buffer_size d - 1) \<noteq> CHECKSUM_BYTE)"
  by (auto simp: is_block_error_def flash_read_def geometry_def db_sizes block_offset_def flash_size_def
      hd_drop_conv_nth)

definition block_blank :: "u8 list \<Rightarrow> bool" where
  "block_blank bs \<longleftrightarrow> get_name_length (le_word (take 4 (drop FIRST_KEY bs))) = 0"

lemma is_block_empty_read:
  "geometry d \<Longrightarrow> is_block_empty d block =
    Some (block_blank (drop (block_offset d block) (flash_area (db_flash d))))"
  by (auto simp: is_block_empty_def block_blank_def flash_read_def geometry_def db_sizes block_offset_def
      drop_take add.commute)

lemma init_block_eq:
  assumes "geometry d" "flash_area (db_flash d) = pre @ mid @ post" "length mid = block_size d"
    "length pre = block_offset d block"
  shows "init_block d block = Some (set_area d (pre @ block_bytes d (db_buffer d) @ post))"
proof -
  note u = geometry_units [OF assms(1)]
  have off: "block_offset d block mod min_erase_size (db_flash d) = 0"
    "block_offset d block mod min_write_size (db_flash d) = 0"
    using u by (simp_all add: block_offset_def)
  have 1: "db_erase d (block_offset d block) (block_size d) =
      Some (set_area d (pre @ replicate (block_size d) 0xFF @ post))"
    using db_erase_eq [OF assms(1-3)] assms(4) off by simp
  have 2: "db_write_buffer (set_area d (pre @ replicate (block_size d) 0xFF @ post)) (block_offset d block) =
      Some (set_area d (pre @ block_bytes d (db_buffer d) @ post))"
    using assms off
    by (subst db_write_eq [where pre = pre and post = post]) simp_all
  show ?thesis by (simp add: init_block_def 1 2)
qed

lemma db_read_buffer_eq:
  assumes "geometry d" "flash_area (db_flash d) = pre @ mid @ post" "length mid = max_buffer_size d"
    "offset = length pre"
  shows "db_read_buffer d offset = Some (d\<lparr>db_buffer := mid\<rparr>)"
proof -
  have "flash_read (db_flash d) offset (max_buffer_size d) = Some mid"
    using assms by (intro flash_read_at [of _ pre _ post]) simp_all
  moreover have "blit (db_buffer d) 0 mid = mid" using assms by (simp add: blit_def geometry_def)
  ultimately show ?thesis using assms(1) by (simp add: db_read_buffer_def geometry_def)
qed

text \<open>What \<open>Init\<close> makes of the two blocks.\<close>

definition recovered_backup :: "database \<Rightarrow> u8 list \<Rightarrow> u8 list" where
  "recovered_backup d b =
     (if le_word (take 4 b) \<noteq> FLASH_HEADER \<or> b ! (max_buffer_size d - 1) \<noteq> CHECKSUM_BYTE
      then block_bytes d (empty_image (max_buffer_size d)) else b)"

definition recovered_main :: "database \<Rightarrow> u8 list \<Rightarrow> u8 list \<Rightarrow> u8 list" where
  "recovered_main d m b =
     (if m ! (max_buffer_size d - 1) = CHECKSUM_BYTE then m
      else if block_blank b then block_bytes d (empty_image (max_buffer_size d))
      else block_bytes d (take (max_buffer_size d) b))"

lemma db_init_eq:
  assumes g: "geometry d" and a: "flash_area (db_flash d) = m @ b @ rest" "length m = block_size d"
    "length b = block_size d"
  defines "b' \<equiv> recovered_backup d b" and "m' \<equiv> recovered_main d m (recovered_backup d b)"
  shows "db_init d = Some (set_area (d\<lparr>db_buffer := take (max_buffer_size d) m'\<rparr>) (m' @ b' @ rest))"
proof -
  let ?n = "max_buffer_size d" and ?E = "empty_image (max_buffer_size d)"
  let ?d1 = "d\<lparr>db_buffer := ?E\<rparr>"
  have n: "8 < ?n" "?n \<le> block_size d" using g by (simp_all add: geometry_def db_sizes)
  have g1: "geometry ?d1" using g n by simp
  have bl: "length b' = block_size d" using a n g by (simp add: b'_def recovered_backup_def)
  have ml: "length m' = block_size d"
    using a n g bl unfolding b'_def by (simp add: m'_def recovered_main_def)
  define bad where "bad \<longleftrightarrow> le_word (take 4 b) \<noteq> FLASH_HEADER \<or> b ! (?n - 1) \<noteq> CHECKSUM_BYTE"
  have ix: "(m @ b @ rest) ! (block_size d + ?n - 1) = b ! (?n - 1)"
  proof -
    have "block_size d + ?n - 1 = length m + (?n - 1)" "?n - 1 < length b" using a n by simp_all
    then show ?thesis by (simp only: nth_append_length_plus) (simp only: nth_append if_True)
  qed
  have r1: "is_block_inited ?d1 BACKUP = Some (le_word (take 4 b) = FLASH_HEADER)"
    "is_block_error ?d1 BACKUP = Some (b ! (?n - 1) \<noteq> CHECKSUM_BYTE)"
    using is_block_inited_eq [OF g1, of BACKUP] is_block_error_eq [OF g1, of BACKUP] a n ix
    by (simp_all add: block_offset_def)
  define d2 where "d2 = set_area ?d1 (m @ b' @ rest)"
  have d2: "geometry d2" "max_buffer_size d2 = ?n" "flash_area (db_flash d2) = m @ b' @ rest"
    "block_size d2 = block_size d" "db_buffer d2 = ?E"
    using g a bl n by (simp_all add: d2_def geometry_def flash_size_def)
  have s2: "(if bad then init_block ?d1 BACKUP else Some ?d1) = Some d2"
  proof (cases bad)
    case True
    then show ?thesis
      using init_block_eq [OF g1, of m b rest BACKUP] a bad_def
      by (simp add: d2_def b'_def recovered_backup_def block_offset_def)
  next
    case False
    then show ?thesis using a bad_def by (simp add: d2_def b'_def recovered_backup_def set_area_def)
  qed
  have m_at: "(m @ b' @ rest) ! (?n - 1) = m ! (?n - 1)"
    using a n nth_append_left [of "?n - 1" m] by simp
  have r2: "is_block_error d2 MAIN = Some (m ! (?n - 1) \<noteq> CHECKSUM_BYTE)"
    "is_block_empty d2 BACKUP = Some (block_blank (b' @ rest))"
    using is_block_error_eq [OF d2(1), of MAIN] is_block_empty_read [OF d2(1), of BACKUP] a n d2 bl m_at
    by (simp_all add: block_offset_def)
  have blank: "block_blank (b' @ rest) = block_blank b'"
    using bl n by (simp add: block_blank_def db_sizes)
  define d3 where "d3 = (if m ! (?n - 1) = CHECKSUM_BYTE \<or> block_blank b' then set_area d2 (m' @ b' @ rest)
    else set_area (d2\<lparr>db_buffer := take ?n b'\<rparr>) (m' @ b' @ rest))"
  have m'_def2: "m' = recovered_main d m b'" by (simp add: m'_def b'_def)
  have s3: "(if m ! (?n - 1) \<noteq> CHECKSUM_BYTE
      then if block_blank b' then init_block d2 MAIN
        else do {
          d4 \<leftarrow> db_read_buffer d2 (block_size d2);
          d5 \<leftarrow> db_erase d4 0 (block_size d4);
          db_write_buffer d5 0
        }
      else Some d2) = Some d3"
  proof (cases "m ! (?n - 1) = CHECKSUM_BYTE")
    case True
    then show ?thesis using set_area_same [of d2] d2(3) by (simp add: d3_def m'_def2 recovered_main_def)
  next
    case bad_main: False
    show ?thesis
    proof (cases "block_blank b'")
      case True
      then show ?thesis
        using init_block_eq [OF d2(1), of "[]" m "b' @ rest" MAIN] bad_main a(2) d2
        by (simp add: d3_def m'_def2 recovered_main_def block_offset_def d2_def)
    next
      case False
      let ?c = "take ?n b'" and ?e = "replicate (block_size d) (0xFF :: u8)"
      let ?d4 = "d2\<lparr>db_buffer := ?c\<rparr>"
      have c: "length ?c = ?n" "b' = ?c @ drop ?n b'" using bl n by simp_all
      have r: "db_read_buffer d2 (block_size d2) = Some ?d4"
        using d2 a(2) c bl by (intro db_read_buffer_eq [of _ m _ "drop ?n b' @ rest"]) simp_all
      have g4: "geometry ?d4" "flash_area (db_flash ?d4) = [] @ m @ b' @ rest"
        using d2 c by simp_all
      have e: "db_erase ?d4 0 (block_size ?d4) = Some (set_area ?d4 (?e @ b' @ rest))"
        using db_erase_eq [OF g4, of 0] a(2) d2 by simp
      have g5: "geometry (set_area ?d4 (?e @ b' @ rest))"
        using g4 d2 a(2) bl geometry_set_area [of "?e @ b' @ rest" ?d4] by simp
      have w: "db_write_buffer (set_area ?d4 (?e @ b' @ rest)) 0 =
          Some (set_area ?d4 (block_bytes d ?c @ b' @ rest))"
        using db_write_eq [OF g5, of "[]" "b' @ rest" 0] d2
        by (simp add: block_bytes_def)
      show ?thesis
        using bad_main False r e w by (simp add: d3_def m'_def2 recovered_main_def)
    qed
  qed
  have g3: "geometry d3"  "max_buffer_size d3 = ?n" "flash_area (db_flash d3) = m' @ b' @ rest"
    using d2 a bl ml n by (auto simp: d3_def)
  have "flash_area (db_flash d3) = [] @ take ?n m' @ drop ?n m' @ b' @ rest" using g3 by simp
  then have l: "db_load d3 = Some (d3\<lparr>db_buffer := take ?n m'\<rparr>)"
    unfolding db_load_def using g3(1,2) ml n by (intro db_read_buffer_eq) simp_all
  have "d3\<lparr>db_buffer := take ?n m'\<rparr> = set_area (d\<lparr>db_buffer := take ?n m'\<rparr>) (m' @ b' @ rest)"
    by (simp add: d3_def d2_def)
  moreover have "db_init d = db_load d3"
  proof -
    have "(if \<not> le_word (take 4 b) = FLASH_HEADER then Some True else Some (b ! (?n - 1) \<noteq> CHECKSUM_BYTE)) =
        Some bad" by (simp add: bad_def)
    then show ?thesis
      by (simp only: db_init_def clear_buffer_eq [OF g] bind.bind_lunit r1 s2 r2 blank s3)
  qed
  ultimately show ?thesis using l by simp
qed


lemma image_checksum:
  assumes "image es (take n m)" "n \<le> length m" "0 < n" shows "m ! (n - 1) = CHECKSUM_BYTE"
proof -
  obtain xs where x: "take n m = xs @ [CHECKSUM_BYTE]" using assms(1) by (auto simp: image_def)
  have "length (take n m) = n" using assms(2) by simp
  then have "n = Suc (length xs)" by (simp add: x)
  then show ?thesis using arg_cong [OF x, of "\<lambda>l. l ! (n - 1)"] by (simp add: nth_append)
qed

text \<open>Recovery: a main block with an image is kept whatever the backup holds, and otherwise an image in
  the backup is restored.\<close>

lemma init_recovers:
  assumes g: "geometry d" and a: "flash_area (db_flash d) = m @ b @ rest" "length m = block_size d"
    "length b = block_size d"
    and i: "image es (take (max_buffer_size d) m) \<or>
      m ! (max_buffer_size d - 1) \<noteq> CHECKSUM_BYTE \<and> image es (take (max_buffer_size d) b)"
  shows "\<exists>d'. db_init d = Some d' \<and> db_ok es d' \<and> max_buffer_size d' = max_buffer_size d \<and>
    min_erase_size (db_flash d') = min_erase_size (db_flash d)"
proof -
  let ?n = "max_buffer_size d"
  let ?b' = "recovered_backup d b" and ?m' = "recovered_main d m (recovered_backup d b)"
  have n: "8 < ?n" "?n \<le> block_size d" using g by (simp_all add: geometry_def db_sizes)
  have bl: "length ?b' = block_size d" using a n g by (simp add: recovered_backup_def)
  have ml: "length ?m' = block_size d" using a n g bl by (simp add: recovered_main_def)
  have "image es (take ?n ?m')"
  proof (cases "m ! (?n - 1) = CHECKSUM_BYTE")
    case True
    then show ?thesis using i by (simp add: recovered_main_def)
  next
    case False
    have ib: "image es (take ?n b)" using i image_checksum [of es ?n m] a n False by auto
    then have cb: "b ! (?n - 1) = CHECKSUM_BYTE" using image_checksum a n by simp
    obtain tail where t: "take ?n b = word_bytes 4 FLASH_HEADER @ enc_block es @ tail @ [CHECKSUM_BYTE]"
      using ib by (auto simp: image_def)
    have "take 4 b = take 4 (take ?n b)" using n by simp
    then have "take 4 b = word_bytes 4 FLASH_HEADER" using t by simp
    then have b': "?b' = b" using cb by (simp add: recovered_backup_def le_word_bytes)
    show ?thesis
    proof (cases "block_blank b")
      case True
      have "\<forall>e \<in> set es. entry_ok e" using ib by (simp add: image_def)
      have "is_block_empty d BACKUP = Some (block_blank (b @ rest))"
        using is_block_empty_read [OF g, of BACKUP] a by (simp add: block_offset_def)
      moreover have "block_blank (b @ rest) = block_blank b"
        using a n by (simp add: block_blank_def db_sizes)
      moreover have "is_block_empty d BACKUP = Some (es = [])"
      proof (rule is_block_empty_eq)
        have "b = take ?n b @ drop ?n b" by simp
        then show "flash_area (db_flash d) = m @ word_bytes 4 FLASH_HEADER @ enc_block es @
            (tail @ [CHECKSUM_BYTE] @ drop ?n b @ rest)"
          using a(1) t by simp
        show "length m = block_offset d BACKUP" using a by (simp add: block_offset_def)
      qed fact
      ultimately have "es = []" using True by simp
      then show ?thesis
        using False True b' n image_empty by (simp add: recovered_main_def block_bytes_def)
    next
      case nb: False
      then show ?thesis
        using False b' ib a n by (simp add: recovered_main_def block_bytes_def)
    qed
  qed
  then have "db_ok es (set_area (d\<lparr>db_buffer := take ?n ?m'\<rparr>) (?m' @ ?b' @ rest))"
    using g a bl ml n by (auto simp: db_ok_def geometry_def flash_size_def)
  then show ?thesis using db_init_eq [OF g a] by simp
qed

section \<open>Power failures\<close>

text \<open>\<open>Save\<close> as the sequence of what the flash does: the erasure of single units and the programming of
  single bytes, in the order of their addresses. The power can fail between any two of them. \<open>Save\<close> itself
  makes four calls of the abstract class \<open>Flash\<close>; how a device carries one of them out is not in the
  sources, and this order within a call is the one assumed here.\<close>

datatype flash_op = ERASE_UNIT nat | PROGRAM nat u8

fun flash_apply :: "nat \<Rightarrow> u8 list \<Rightarrow> flash_op \<Rightarrow> u8 list" where
  "flash_apply unit a (ERASE_UNIT offset) = blit a offset (replicate unit 0xFF)"
| "flash_apply unit a (PROGRAM offset b) = a[offset := b]"

definition erase_ops :: "nat \<Rightarrow> nat \<Rightarrow> nat \<Rightarrow> flash_op list" where
  "erase_ops unit offset n = map (\<lambda>i. ERASE_UNIT (offset + i * unit)) [0..<n div unit]"

definition program_ops :: "nat \<Rightarrow> u8 list \<Rightarrow> flash_op list" where
  "program_ops offset bs = map (\<lambda>i. PROGRAM (offset + i) (bs ! i)) [0..<length bs]"

definition save_ops :: "database \<Rightarrow> flash_op list" where
  "save_ops d = (let unit = min_erase_size (db_flash d); n = block_size d; bs = db_buffer d
     in erase_ops unit n n @ program_ops n bs @ erase_ops unit 0 n @ program_ops 0 bs)"

definition save_interrupted :: "nat \<Rightarrow> database \<Rightarrow> database" where
  "save_interrupted k d = set_area d
     (foldl (flash_apply (min_erase_size (db_flash d))) (flash_area (db_flash d)) (take k (save_ops d)))"

lemma erase_ops_prefix:
  assumes "length mid = n" "unit dvd n" "offset = length pre" "j \<le> n div unit"
  shows "foldl (flash_apply unit) (pre @ mid @ post) (take j (erase_ops unit offset n)) =
    pre @ replicate (j * unit) 0xFF @ drop (j * unit) mid @ post"
  using assms(4)
proof (induction j)
  case (Suc j)
  let ?r = "\<lambda>k. replicate k (0xFF :: u8)"
  have "(j + 1) * unit \<le> n div unit * unit"
    using Suc.prems mult_le_mono1 [of "j + 1" "n div unit" unit] by simp
  then have u: "j * unit + unit \<le> n" using assms(2) by simp
  have t: "take (Suc j) (erase_ops unit offset n) =
      take j (erase_ops unit offset n) @ [ERASE_UNIT (offset + j * unit)]"
    using Suc.prems by (simp add: erase_ops_def take_Suc_conv_app_nth)
  have "drop (j * unit) mid = take unit (drop (j * unit) mid) @ drop (j * unit + unit) mid"
    by (metis append_take_drop_id drop_drop add.commute)
  then have a: "pre @ ?r (j * unit) @ drop (j * unit) mid @ post =
      (pre @ ?r (j * unit)) @ take unit (drop (j * unit) mid) @ drop (j * unit + unit) mid @ post"
    by (metis append_assoc)
  have w: "blit (pre @ ?r (j * unit) @ drop (j * unit) mid @ post) (offset + j * unit) (?r unit) =
      (pre @ ?r (j * unit)) @ ?r unit @ drop (j * unit + unit) mid @ post"
    using u assms by (intro blit_at [OF a]) simp_all
  have "?r (Suc j * unit) = ?r (j * unit) @ ?r unit"
    by (simp add: add.commute flip: replicate_add)
  moreover have "Suc j * unit = j * unit + unit" by simp
  moreover have "j \<le> n div unit" using Suc.prems by simp
  ultimately show ?case
    using Suc.IH by (simp only: t foldl_append foldl.simps flash_apply.simps w append_assoc)
qed simp

lemma program_ops_prefix:
  assumes "length bs \<le> length mid" "offset = length pre" "j \<le> length bs"
  shows "foldl (flash_apply unit) (pre @ mid @ post) (take j (program_ops offset bs)) =
    pre @ take j bs @ drop j mid @ post"
  using assms(3)
proof (induction j)
  case (Suc j)
  have "take (Suc j) (program_ops offset bs) = take j (program_ops offset bs) @ [PROGRAM (offset + j) (bs ! j)]"
    using Suc.prems by (simp add: program_ops_def take_Suc_conv_app_nth)
  moreover have "drop j mid = mid ! j # drop (Suc j) mid"
    using Suc.prems assms(1) by (simp add: Cons_nth_drop_Suc)
  ultimately show ?case
    using Suc assms by (simp add: take_Suc_conv_app_nth list_update_append)
qed simp


lemma foldl_take_append:
  "foldl f a (take k (xs @ ys)) =
    (if k < length xs then foldl f a (take k xs) else foldl f (foldl f a xs) (take (k - length xs) ys))"
  by simp

lemma length_ops [simp]:
  "length (erase_ops unit offset n) = n div unit" "length (program_ops offset bs) = length bs"
  by (simp_all add: erase_ops_def program_ops_def)

lemma units_le: "j < n div u \<Longrightarrow> j * u \<le> (n :: nat)"
  using order_trans [OF mult_le_mono1 [of j "n div u" u] div_times_less_eq_dividend] by simp

lemma erase_ops_all:
  assumes "length mid = n" "unit dvd n" "offset = length pre"
  shows "foldl (flash_apply unit) (pre @ mid @ post) (erase_ops unit offset n) =
    pre @ replicate n 0xFF @ post"
  using erase_ops_prefix [OF assms, of "n div unit" post] assms by simp

lemma program_ops_all:
  assumes "length bs \<le> length mid" "offset = length pre"
  shows "foldl (flash_apply unit) (pre @ mid @ post) (program_ops offset bs) =
    pre @ bs @ drop (length bs) mid @ post"
  using program_ops_prefix [OF assms, of "length bs" unit post] by simp

text \<open>The blocks after any number of steps of \<open>Save\<close>.\<close>

lemma save_phases:
  assumes g: "geometry d" and a: "flash_area (db_flash d) = m @ b @ rest" "length m = block_size d"
    "length b = block_size d"
  defines "u \<equiv> min_erase_size (db_flash d)" and "I \<equiv> block_bytes d (db_buffer d)"
  obtains m' b' where "save_interrupted k d = set_area d (m' @ b' @ rest)" "length m' = block_size d"
    "length b' = block_size d"
    "m' = m \<or> b' = I \<and>
      (m' = I \<or> (max_buffer_size d \<le> u \<longrightarrow> m' ! (max_buffer_size d - 1) \<noteq> CHECKSUM_BYTE))"
proof -
  let ?n = "block_size d" and ?bs = "db_buffer d" and ?p = "max_buffer_size d"
  let ?q = "?n div u" and ?f = "flash_apply u" and ?r = "\<lambda>k. replicate k (0xFF :: u8)"
  let ?E1 = "erase_ops u ?n ?n" and ?P1 = "program_ops ?n ?bs" and ?E2 = "erase_ops u 0 ?n"
    and ?P2 = "program_ops 0 ?bs"
  have n: "0 < u" "u dvd ?n" "length ?bs = ?p" "?p \<le> ?n" "0 < ?p"
    using g by (simp_all add: geometry_def u_def db_sizes)
  have FF: "(0xFF :: u8) \<noteq> CHECKSUM_BYTE" by (simp add: CHECKSUM_BYTE_def)
  have I: "I = ?bs @ drop ?p (?r ?n)" "length I = ?n"
    using n g by (simp_all add: I_def block_bytes_def)
  have E1: "foldl ?f (m @ b @ rest) ?E1 = m @ ?r ?n @ rest"
    using a n by (intro erase_ops_all) simp_all
  have P1: "foldl ?f (m @ ?r ?n @ rest) ?P1 = m @ I @ rest"
  proof -
    have "foldl ?f (m @ ?r ?n @ rest) ?P1 = m @ ?bs @ drop (length ?bs) (?r ?n) @ rest"
      using a(2) n(3,4) by (intro program_ops_all) simp_all
    then show ?thesis by (simp only: n(3) I(1) append_assoc)
  qed
  have E2: "foldl ?f (m @ I @ rest) ?E2 = ?r ?n @ I @ rest"
    using a n erase_ops_all [of m ?n u 0 "[]" "I @ rest"] by simp
  have s: "save_interrupted k d = set_area d (foldl ?f (m @ b @ rest) (take k (?E1 @ ?P1 @ ?E2 @ ?P2)))"
    using a(1) by (simp add: save_interrupted_def save_ops_def Let_def u_def)
  consider (e1) "k < ?q" | (p1) "k - ?q < ?p" "\<not> k < ?q"
    | (e2) "k - ?q - ?p < ?q" "\<not> k - ?q < ?p" "\<not> k < ?q"
    | (p2) "\<not> k - ?q - ?p < ?q" "\<not> k - ?q < ?p" "\<not> k < ?q" by blast
  then show thesis
  proof cases
    case e1
    then have "foldl ?f (m @ b @ rest) (take k ?E1) = m @ (?r (k * u) @ drop (k * u) b) @ rest"
      using erase_ops_prefix [OF a(3) n(2), of ?n m k rest] a(2) by simp
    then have X: "save_interrupted k d = set_area d (m @ (?r (k * u) @ drop (k * u) b) @ rest)"
      using e1 by (simp only: s foldl_take_append length_ops if_True)
    have "k * u \<le> ?n" using e1 n by (simp add: units_le)
    then show ?thesis using that [OF X] a(2,3) by simp
  next
    case p1
    define j where "j = k - ?q"
    have j: "j < ?p" using p1(1) by (simp only: j_def)
    have "foldl ?f (m @ ?r ?n @ rest) (take j ?P1) = m @ take j ?bs @ drop j (?r ?n) @ rest"
      using a(2) n(3,4) j by (intro program_ops_prefix) simp_all
    then have X: "save_interrupted k d = set_area d (m @ (take j ?bs @ drop j (?r ?n)) @ rest)"
      using p1(2) j
      by (simp only: s foldl_take_append length_ops n(3) if_True if_False E1 j_def [symmetric] append_assoc)
    have "length (take j ?bs @ drop j (?r ?n)) = ?n" using j n(3,4) by simp
    then show ?thesis using that [OF X a(2)] by simp
  next
    case e2
    define j where "j = k - ?q - ?p"
    have j: "j < ?q" using e2(1) by (simp only: j_def)
    let ?m = "?r (j * u) @ drop (j * u) m"
    have "foldl ?f (m @ I @ rest) (take j ?E2) = ?m @ I @ rest"
      using erase_ops_prefix [OF a(2) n(2), of 0 "[]" j "I @ rest"] j by simp
    then have X: "save_interrupted k d = set_area d (?m @ I @ rest)"
      using e2(2,3) j
      by (simp only: s foldl_take_append length_ops n(3) if_True if_False E1 P1 j_def [symmetric])
    have l: "length ?m = ?n" using units_le [OF j] a(2) by simp
    show ?thesis
    proof (cases "j = 0")
      case True
      then show ?thesis using that [of m I] X a(2) I(2) by simp
    next
      case False
      then have "u \<le> j * u" by simp
      then have "?p - 1 < j * u" if "?p \<le> u" using that n(5) by linarith
      then have "?p \<le> u \<longrightarrow> ?m ! (?p - 1) = 0xFF" by (auto simp: nth_append)
      then show ?thesis using that [OF X l I(2)] FF by auto
    qed
  next
    case p2
    define j where "j = min (k - ?q - ?p - ?q) ?p"
    let ?m = "take j ?bs @ drop j (?r ?n)"
    have j: "j \<le> ?p" by (simp add: j_def)
    have "take (k - ?q - ?p - ?q) ?P2 = take j ?P2" using n by (simp add: j_def min_def)
    moreover have "foldl ?f ([] @ ?r ?n @ I @ rest) (take j ?P2) = [] @ take j ?bs @ drop j (?r ?n) @ I @ rest"
      using n(3,4) j by (intro program_ops_prefix) simp_all
    ultimately have X: "save_interrupted k d = set_area d (?m @ I @ rest)"
      using p2
      by (simp only: s foldl_take_append length_ops n(3) if_False E1 P1 E2 append_Nil append_assoc)
    have l: "length ?m = ?n" using j n by simp
    show ?thesis
    proof (cases "j = ?p")
      case True
      then show ?thesis using that [OF X l I(2)] I(1) n by simp
    next
      case False
      then have "j \<le> ?p - 1" "?p - 1 - j < ?n - j" using j n(4,5) by linarith+
      then have "?m ! (?p - 1) = 0xFF" using j n(3,4) by (simp add: nth_append)
      then show ?thesis using that [OF X l I(2)] FF by simp
    qed
  qed
qed


lemma save_runs_to_end:
  assumes "geometry d"
  shows "db_save d = Some (save_interrupted (length (save_ops d)) d)"
proof -
  obtain m b where a: "flash_area (db_flash d) = m @ b @ flash_rest d" "length m = block_size d"
    "length b = block_size d" using area_blocks [OF assms] .
  let ?n = "block_size d" and ?bs = "db_buffer d" and ?p = "max_buffer_size d" and ?u = "min_erase_size (db_flash d)"
  let ?r = "\<lambda>k. replicate k (0xFF :: u8)" and ?I = "block_bytes d (db_buffer d)"
  have n: "?u dvd ?n" "length ?bs = ?p" "?p \<le> ?n" using assms by (simp_all add: geometry_def)
  have I: "?I = ?bs @ drop (length ?bs) (?r ?n)" "length ?I = ?n"
    using n assms by (simp_all add: block_bytes_def)
  have e1: "foldl (flash_apply ?u) (m @ b @ flash_rest d) (erase_ops ?u ?n ?n) = m @ ?r ?n @ flash_rest d"
    using a(2,3) n(1) by (intro erase_ops_all) simp_all
  have "foldl (flash_apply ?u) (m @ ?r ?n @ flash_rest d) (program_ops ?n ?bs) =
      m @ ?bs @ drop (length ?bs) (?r ?n) @ flash_rest d"
    using a(2) n(2,3) by (intro program_ops_all) simp_all
  then have p1: "foldl (flash_apply ?u) (m @ ?r ?n @ flash_rest d) (program_ops ?n ?bs) = m @ ?I @ flash_rest d"
    by (simp only: I(1) append_assoc)
  have e2: "foldl (flash_apply ?u) (m @ ?I @ flash_rest d) (erase_ops ?u 0 ?n) = ?r ?n @ ?I @ flash_rest d"
    using erase_ops_all [OF a(2) n(1), of 0 "[]" "?I @ flash_rest d"] by simp
  have "foldl (flash_apply ?u) ([] @ ?r ?n @ ?I @ flash_rest d) (program_ops 0 ?bs) =
      [] @ ?bs @ drop (length ?bs) (?r ?n) @ ?I @ flash_rest d"
    using n(2,3) by (intro program_ops_all) simp_all
  then have p2: "foldl (flash_apply ?u) (?r ?n @ ?I @ flash_rest d) (program_ops 0 ?bs) = ?I @ ?I @ flash_rest d"
    by (simp only: I(1) append_assoc append_Nil)
  have "save_interrupted (length (save_ops d)) d = set_area d (?I @ ?I @ flash_rest d)"
    by (simp only: save_interrupted_def take_all [OF order_refl] save_ops_def Let_def foldl_append a(1) e1 p1 e2 p2)
  then show ?thesis using db_save_eq [OF assms] by (simp add: saved_area_def)
qed

text \<open>A restart after an interrupted \<open>Save\<close> finds the old or the new entries, when the image fits into one
  erase unit.\<close>

lemma interrupted_recovers:
  assumes ok: "db_ok es d" and new: "image es' bs" "length bs = max_buffer_size d"
    and unit: "max_buffer_size d \<le> min_erase_size (db_flash d)" and l: "length fresh = max_buffer_size d"
  shows "\<exists>d'. db_init ((save_interrupted k (d\<lparr>db_buffer := bs\<rparr>))\<lparr>db_buffer := fresh\<rparr>) = Some d' \<and>
    (db_ok es d' \<or> db_ok es' d')"
proof -
  let ?d = "d\<lparr>db_buffer := bs\<rparr>" and ?p = "max_buffer_size d" and ?I = "block_bytes d bs"
  have g: "geometry d" "geometry ?d" using ok new by (simp_all add: db_ok_def)
  have p: "0 < ?p" "?p \<le> block_size d" using g by (simp_all add: geometry_def)
  obtain m b where a: "flash_area (db_flash d) = m @ b @ flash_rest d" "length m = block_size d"
    "length b = block_size d" using area_blocks [OF g(1)] .
  have m: "image es (take ?p m)" using ok a p by (simp add: db_ok_def)
  obtain m' b' where s: "save_interrupted k ?d = set_area ?d (m' @ b' @ flash_rest d)"
    "length m' = block_size d" "length b' = block_size d"
    and c: "m' = m \<or> b' = ?I \<and> (m' = ?I \<or> m' ! (?p - 1) \<noteq> CHECKSUM_BYTE)"
    using save_phases [OF g(2), of m b "flash_rest d" k] a unit by auto
  let ?c = "(save_interrupted k ?d)\<lparr>db_buffer := fresh\<rparr>"
  have gc: "geometry ?c" using g s a l by (simp add: s(1) geometry_def flash_size_def)
  have ac: "flash_area (db_flash ?c) = m' @ b' @ flash_rest d" by (simp add: s(1))
  have sz: "block_size ?c = block_size d" "max_buffer_size ?c = ?p" by (simp_all add: s(1))
  have I: "take ?p ?I = bs" using new by (simp add: block_bytes_def)
  consider "image es (take ?p m')"
    | "image es' (take ?p m') \<or> m' ! (?p - 1) \<noteq> CHECKSUM_BYTE \<and> image es' (take ?p b')"
    using c m I new by auto
  then show ?thesis
    by cases (use init_recovers [OF gc ac] s sz in \<open>simp, blast\<close>)+
qed


section \<open>Construction\<close>

text \<open>The block size that the constructor computes.\<close>

definition opened :: "database \<Rightarrow> bool" where
  "opened d \<longleftrightarrow> max_buffer_size d < 2 ^ 32 \<and> block_size d =
     flash_size (db_flash d) div min_erase_size (db_flash d) div 2 * min_erase_size (db_flash d) mod 2 ^ 32"

text \<open>The bytes of the two check sums in the area.\<close>

lemma checksum_index:
  assumes "length m = n" "length b = n" "0 < k" "k \<le> n"
  shows "(m @ b @ rest) ! (k - 1) = m ! (k - 1)" "(m @ b @ rest) ! (n + k - 1) = b ! (k - 1)"
proof -
  have "n + k - 1 = length m + (k - 1)" "k - 1 < length b" "k - 1 < length m" using assms by simp_all
  then show "(m @ b @ rest) ! (k - 1) = m ! (k - 1)" "(m @ b @ rest) ! (n + k - 1) = b ! (k - 1)"
    by (simp_all only: nth_append_length_plus) (simp_all only: nth_append if_True)
qed

lemma database_new_eq:
  assumes "geometry d" "opened d" "\<And>n. length (fresh n) = n"
  shows "database_new (db_flash d) (max_buffer_size d) fresh =
    db_init (d\<lparr>db_buffer := fresh (max_buffer_size d)\<rparr>)"
proof -
  let ?u = "min_erase_size (db_flash d)"
  have g: "0 < ?u" "?u dvd block_size d" "max_buffer_size d \<le> block_size d" "0 < max_buffer_size d"
    "2 * block_size d \<le> flash_size (db_flash d)"
    using assms(1) by (simp_all add: geometry_def)
  then have "?u \<le> block_size d" by (intro dvd_imp_le) simp_all
  then have "?u * 2 \<le> flash_size (db_flash d)" "\<not> max_buffer_size d * 2 > flash_size (db_flash d)"
    using g by linarith+
  then show ?thesis
    using g(1) assms(2) by (cases d) (simp add: database_new_def Let_def opened_def to_uint32_def)
qed

lemma reopen_keeps:
  assumes ok: "db_ok es d" and "opened d" "\<And>n. length (fresh n) = n"
  shows "\<exists>d'. database_new (db_flash d) (max_buffer_size d) fresh = Some d' \<and> db_ok es d' \<and>
    max_buffer_size d' = max_buffer_size d"
proof -
  let ?c = "d\<lparr>db_buffer := fresh (max_buffer_size d)\<rparr>"
  have g: "geometry d" using ok by (simp add: db_ok_def)
  obtain m b where a: "flash_area (db_flash d) = m @ b @ flash_rest d" "length m = block_size d"
    "length b = block_size d" using area_blocks [OF g] .
  have m: "image es (take (max_buffer_size d) m)"
    using ok a by (auto simp: db_ok_def geometry_def)
  show ?thesis
    using init_recovers [of ?c m b "flash_rest d" es] database_new_eq [OF g assms(2,3)] g a m assms(3)
    by auto
qed

text \<open>A flash without valid blocks gets an empty database.\<close>

lemma database_new_blank:
  assumes g: "geometry d" and "opened d" "\<And>n. length (fresh n) = n"
    and "flash_area (db_flash d) ! (max_buffer_size d - 1) \<noteq> CHECKSUM_BYTE"
    and "flash_area (db_flash d) ! (block_size d + max_buffer_size d - 1) \<noteq> CHECKSUM_BYTE"
  shows "\<exists>d'. database_new (db_flash d) (max_buffer_size d) fresh = Some d' \<and> db_ok [] d' \<and>
    max_buffer_size d' = max_buffer_size d \<and> opened d' \<and>
    min_erase_size (db_flash d') = min_erase_size (db_flash d)"
proof -
  let ?c = "d\<lparr>db_buffer := fresh (max_buffer_size d)\<rparr>" and ?n = "max_buffer_size d"
  let ?B = "block_bytes d (empty_image ?n)"
  obtain m b where a: "flash_area (db_flash d) = m @ b @ flash_rest d" "length m = block_size d"
    "length b = block_size d" using area_blocks [OF g] .
  have n: "8 < ?n" "?n \<le> block_size d" using g by (simp_all add: geometry_def db_sizes)
  have c: "geometry ?c" using g assms(3) by simp
  have l: "length ?B = block_size d" using g n by simp
  have "0 < ?n" using n by simp
  then have bad: "m ! (?n - 1) \<noteq> CHECKSUM_BYTE" "b ! (?n - 1) \<noteq> CHECKSUM_BYTE"
    using assms(4,5) checksum_index [OF a(2,3) _ n(2), of "flash_rest d"] a(1) by simp_all
  have "take 4 (drop FIRST_KEY ?B) = word_bytes 4 (key_info False 0 0)"
    by (simp add: block_bytes_def empty_image_def db_sizes)
  then have "block_blank ?B" by (simp add: block_blank_def le_word_bytes)
  then have r: "recovered_backup ?c b = ?B" "recovered_main ?c m ?B = ?B"
    using bad by (simp_all add: recovered_backup_def recovered_main_def)
  have "db_init ?c = Some (set_area (?c\<lparr>db_buffer := take ?n ?B\<rparr>) (?B @ ?B @ flash_rest d))"
    using db_init_eq [of ?c m b "flash_rest d"] c a r by simp
  moreover have "take ?n ?B = empty_image ?n" using n by (simp add: block_bytes_def)
  moreover have "db_ok [] (set_area (?c\<lparr>db_buffer := empty_image ?n\<rparr>) (?B @ ?B @ flash_rest d))"
    using g a l n image_empty [of ?n]
    by (simp add: db_ok_def geometry_def flash_size_def) (simp add: block_bytes_def)
  ultimately show ?thesis
    using database_new_eq [OF assms(1-3)] assms(2) a l by (auto simp: opened_def flash_size_def)
qed

section \<open>Call sequences\<close>

datatype db_op = DB_GET "u8 list" "u8 list" | DB_SET "u8 list" "u8 list" | DB_ADD "u8 list" "u8 list"

fun db_exec :: "bool \<Rightarrow> database \<Rightarrow> db_op \<Rightarrow> (database \<times> error_code \<times> u8 list) option" where
  "db_exec cs d (DB_GET name out) = map_option (\<lambda>r. (d, r)) (db_get cs d name out)"
| "db_exec cs d (DB_SET name v) = map_option (\<lambda>(d, ec). (d, ec, v)) (db_set cs d name v)"
| "db_exec cs d (DB_ADD name v) = map_option (\<lambda>(d, ec). (d, ec, v)) (db_add cs d name v)"

fun kv_exec :: "nat \<Rightarrow> entry list \<Rightarrow> db_op \<Rightarrow> entry list \<times> error_code \<times> u8 list" where
  "kv_exec capacity es (DB_GET name out) = (es, kv_get es name out)"
| "kv_exec capacity es (DB_SET name v) = (case kv_set es name v of (es, ec) \<Rightarrow> (es, ec, v))"
| "kv_exec capacity es (DB_ADD name v) = (case kv_add capacity es name v of (es, ec) \<Rightarrow> (es, ec, v))"

fun db_op_ok :: "bool \<Rightarrow> db_op \<Rightarrow> bool" where
  "db_op_ok cs (DB_GET name out) \<longleftrightarrow> plain_name cs name"
| "db_op_ok cs (DB_SET name v) \<longleftrightarrow> plain_name cs name"
| "db_op_ok cs (DB_ADD name v) \<longleftrightarrow> plain_name cs name \<and> entry_ok (name, v)"

fun db_run :: "bool \<Rightarrow> database \<Rightarrow> db_op list \<Rightarrow> (database \<times> (error_code \<times> u8 list) list) option" where
  "db_run cs d [] = Some (d, [])"
| "db_run cs d (c # ops) = do {
     (d1, r) \<leftarrow> db_exec cs d c;
     (d2, rs) \<leftarrow> db_run cs d1 ops;
     Some (d2, r # rs)
   }"

fun kv_run :: "nat \<Rightarrow> entry list \<Rightarrow> db_op list \<Rightarrow> entry list \<times> (error_code \<times> u8 list) list" where
  "kv_run capacity es [] = (es, [])"
| "kv_run capacity es (c # ops) =
     (case kv_exec capacity es c of (es1, r) \<Rightarrow>
      case kv_run capacity es1 ops of (es2, rs) \<Rightarrow> (es2, r # rs))"

definition saved_or_same :: "database \<Rightarrow> database \<Rightarrow> bool" where
  "saved_or_same d d' \<longleftrightarrow>
     d' = d \<or> d' = set_area (d\<lparr>db_buffer := db_buffer d'\<rparr>) (saved_area d (db_buffer d'))"

lemma saved_or_same_frame:
  assumes "saved_or_same d d'" "db_ok es d" "db_ok es' d'"
  shows "max_buffer_size d' = max_buffer_size d" "block_size d' = block_size d"
    "min_erase_size (db_flash d') = min_erase_size (db_flash d)"
    "opened d \<Longrightarrow> opened d'" "length (db_buffer d') = max_buffer_size d"
proof -
  have c: "d' = d \<or> d' = set_area (d\<lparr>db_buffer := db_buffer d'\<rparr>) (saved_area d (db_buffer d'))"
    using assms(1) by (simp add: saved_or_same_def)
  have "max_buffer_size (set_area (d\<lparr>db_buffer := b\<rparr>) a) = max_buffer_size d"
    "block_size (set_area (d\<lparr>db_buffer := b\<rparr>) a) = block_size d"
    "min_erase_size (db_flash (set_area (d\<lparr>db_buffer := b\<rparr>) a)) = min_erase_size (db_flash d)"
    "flash_area (db_flash (set_area (d\<lparr>db_buffer := b\<rparr>) a)) = a" for a b by simp_all
  with c show fr: "max_buffer_size d' = max_buffer_size d" "block_size d' = block_size d"
    "min_erase_size (db_flash d') = min_erase_size (db_flash d)" by metis+
  show l: "length (db_buffer d') = max_buffer_size d"
    using assms(3) fr by (simp add: db_ok_def geometry_def)
  have "length (saved_area d (db_buffer d')) = flash_size (db_flash d)"
    using assms(2) l by (auto simp: db_ok_def saved_area_def flash_rest_def geometry_def flash_size_def)
  with c have "flash_size (db_flash d') = flash_size (db_flash d)"
    by (metis \<open>\<And>b a. flash_area (db_flash (set_area (d\<lparr>db_buffer := b\<rparr>) a)) = a\<close> flash_size_def)
  then show "opened d \<Longrightarrow> opened d'" using fr by (simp add: opened_def)
qed

lemma db_exec_eq:
  assumes "db_ok es d" "db_op_ok cs c"
  shows "\<exists>d'. db_exec cs d c = Some (d', snd (kv_exec (max_buffer_size d) es c)) \<and>
    db_ok (fst (kv_exec (max_buffer_size d) es c)) d' \<and> saved_or_same d d'"
proof (cases c)
  case (DB_GET name out)
  then show ?thesis using assms db_get_eq [of es d cs name out] by (simp add: saved_or_same_def)
next
  case (DB_SET name v)
  then show ?thesis using assms set_key_eq [of es d cs name v]
    by (auto simp: db_set_def saved_or_same_def split: prod.splits)
next
  case (DB_ADD name v)
  then show ?thesis using assms add_key_eq [of es d cs name v]
    by (auto simp: db_add_def saved_or_same_def split: prod.splits)
qed

lemma db_run_eq:
  assumes "db_ok es d" "\<forall>c \<in> set ops. db_op_ok cs c"
  shows "\<exists>d'. db_run cs d ops = Some (d', snd (kv_run (max_buffer_size d) es ops)) \<and>
    db_ok (fst (kv_run (max_buffer_size d) es ops)) d' \<and>
    max_buffer_size d' = max_buffer_size d \<and> (opened d \<longrightarrow> opened d') \<and>
    min_erase_size (db_flash d') = min_erase_size (db_flash d)"
  using assms
proof (induction ops arbitrary: es d)
  case (Cons c ops)
  obtain es1 r where k: "kv_exec (max_buffer_size d) es c = (es1, r)" by (rule prod.exhaust)
  obtain d1 where d1: "db_exec cs d c = Some (d1, r)" "db_ok es1 d1" "saved_or_same d d1"
    using db_exec_eq [OF Cons.prems(1), of cs c] Cons.prems(2) k by auto
  note fr = saved_or_same_frame [OF d1(3) Cons.prems(1) d1(2)]
  show ?case
    using Cons.IH [OF d1(2)] Cons.prems(2) d1(1) fr k by (auto split: prod.splits)
qed auto


section \<open>An example\<close>

definition example_flash :: flash where
  "example_flash = \<lparr>flash_area = replicate 128 0xFF, min_erase_size = 64, min_write_size = 8,
     write_order_check = True, write_as_one_check = True\<rparr>"

definition example_db :: database where
  "example_db = the (database_new example_flash 64 (\<lambda>n. replicate n 0))"

lemma example_db_ok:
  "database_new example_flash 64 (\<lambda>n. replicate n 0) = Some example_db" "db_ok [] example_db"
  "max_buffer_size example_db = 64" "min_erase_size (db_flash example_db) = 64" "opened example_db"
proof -
  let ?d = "\<lparr>db_flash = example_flash, db_buffer = replicate 64 0, block_size = 64, max_buffer_size = 64\<rparr>"
  obtain d' where "database_new example_flash 64 (\<lambda>n. replicate n 0) = Some d'" "db_ok [] d'"
    "max_buffer_size d' = 64" "opened d'" "min_erase_size (db_flash d') = 64"
    using database_new_blank [of ?d "\<lambda>n. replicate n 0"]
    by (auto simp: example_flash_def geometry_def opened_def flash_size_def db_sizes CHECKSUM_BYTE_def)
  then show "database_new example_flash 64 (\<lambda>n. replicate n 0) = Some example_db" "db_ok [] example_db"
    "max_buffer_size example_db = 64" "min_erase_size (db_flash example_db) = 64" "opened example_db"
    by (simp_all add: example_db_def)
qed

section \<open>Properties\<close>

text \<open>C14: any sequence of \<open>Get\<close>, \<open>Set\<close> and \<open>Add\<close> on a sequential database whose buffer is not larger than
  a block and holds, as the flash does, an image of entries (\<open>db_ok\<close>), with names that are free of
  the zero byte and, where \<open>char\<close> is signed, ASCII, and with new entries whose name is shorter than 127
  bytes and whose data is shorter than 2^24 bytes, answers as the list of entries does that it stores,
  and the flash holds that list afterwards. No read or write leaves the flash or the buffer, and no
  assertion fails.\<close>

theorem database_refines_entries:
  assumes "db_ok es d" and "\<forall>c \<in> set ops. db_op_ok cs c"
  shows "\<exists>d'. db_run cs d ops = Some (d', snd (kv_run (max_buffer_size d) es ops)) \<and>
    db_ok (fst (kv_run (max_buffer_size d) es ops)) d'"
  using db_run_eq [OF assms] by blast

theorem database_refines_entries_witness:
  "map_option snd (db_run True example_db
     [DB_ADD [107] [1, 2], DB_GET [107] [0, 0], DB_SET [107] [3, 4], DB_ADD [108] [7], DB_GET [107] [0, 0],
      DB_GET [109] [0], DB_ADD [109] (replicate 60 0)]) =
   Some [(OK, [1, 2]), (OK, [1, 2]), (OK, [3, 4]), (OK, [7]), (OK, [3, 4]), (NOT_FOUND, [0]),
     (FULL, replicate 60 0)]"
  using database_refines_entries [OF example_db_ok(2), of
      "[DB_ADD [107] [1, 2], DB_GET [107] [0, 0], DB_SET [107] [3, 4], DB_ADD [108] [7], DB_GET [107] [0, 0],
        DB_GET [109] [0], DB_ADD [109] (replicate 60 0)]" True]
  by (auto simp: plain_name_def char_value_def entry_ok_def kv_add_def kv_set_def kv_get_def kv_used_def
      entry_size_def db_sizes example_db_ok(3))

text \<open>C15: when the image fits into one erase unit (\<open>max_buffer_size\<close> is at most \<open>min_erase_size\<close>), on a
  device that erases unit by unit and programs byte by byte in the order of the addresses, a power
  failure between any two of these operations of a \<open>Set\<close> or \<open>Add\<close> with a name and data as above loses
  nothing but that call: the next start finds the entries from before it or those from after it.\<close>

theorem power_failure_keeps_entries:
  assumes "db_ok es d" and "opened d" and "db_op_ok cs c"
    and "max_buffer_size d \<le> min_erase_size (db_flash d)"
    and "db_exec cs d c = Some (d', r)" and "\<And>n. length (fresh n) = n"
  shows "\<exists>d2. database_new (db_flash (save_interrupted k (d\<lparr>db_buffer := db_buffer d'\<rparr>)))
      (max_buffer_size d) fresh = Some d2 \<and>
    (db_ok es d2 \<or> db_ok (fst (kv_exec (max_buffer_size d) es c)) d2)"
proof -
  let ?es' = "fst (kv_exec (max_buffer_size d) es c)" and ?d = "d\<lparr>db_buffer := db_buffer d'\<rparr>"
  have d': "db_ok ?es' d'" "saved_or_same d d'"
    using db_exec_eq [OF assms(1,3)] assms(5) by auto
  note fr = saved_or_same_frame [OF d'(2) assms(1) d'(1)]
  have g: "geometry ?d" using assms(1) fr(5) by (simp add: db_ok_def)
  obtain m b where a: "flash_area (db_flash d) = m @ b @ flash_rest d" "length m = block_size d"
    "length b = block_size d" using area_blocks assms(1) unfolding db_ok_def by blast
  have "flash_area (db_flash ?d) = m @ b @ flash_rest d" "length m = block_size ?d" "length b = block_size ?d"
    using a by simp_all
  from save_phases [OF g this, of k]
  obtain m' b' where i: "save_interrupted k ?d = set_area ?d (m' @ b' @ flash_rest d)"
    "length m' = block_size ?d" "length b' = block_size ?d" by blast
  have l: "length (m' @ b' @ flash_rest d) = length (flash_area (db_flash d))" using a i by simp
  have "geometry (save_interrupted k ?d)" "opened (save_interrupted k ?d)"
    using g l assms(2) i(1) by (simp_all add: geometry_def opened_def flash_size_def)
  note new = database_new_eq [OF this assms(6)]
  have "image ?es' (db_buffer d')" using d'(1) by (simp add: db_ok_def)
  then show ?thesis
    using interrupted_recovers [OF assms(1) _ fr(5) assms(4), of ?es' "fresh (max_buffer_size d)" k] new
      assms(6) i(1) by simp
qed

theorem power_failure_keeps_entries_witness:
  "\<exists>d' d2. db_exec True example_db (DB_ADD [107] [1, 2]) = Some (d', OK, [1, 2]) \<and>
    database_new (db_flash (save_interrupted 40 (example_db\<lparr>db_buffer := db_buffer d'\<rparr>)))
      64 (\<lambda>n. replicate n 0) = Some d2 \<and>
    (db_ok [] d2 \<or> db_ok [([107], [1, 2])] d2)"
proof -
  have c: "db_op_ok True (DB_ADD [107] [1, 2])" "fst (kv_exec 64 [] (DB_ADD [107] [1, 2])) = [([107], [1, 2])]"
    "snd (kv_exec 64 [] (DB_ADD [107] [1, 2])) = (OK, [1, 2])"
    by (simp_all add: plain_name_def char_value_def entry_ok_def kv_add_def kv_used_def entry_size_def db_sizes)
  obtain d' where d': "db_exec True example_db (DB_ADD [107] [1, 2]) = Some (d', OK, [1, 2])"
    using db_exec_eq [OF example_db_ok(2) c(1)] c(3) example_db_ok(3) by auto
  show ?thesis
    using power_failure_keeps_entries [OF example_db_ok(2,5) c(1) _ d', of "\<lambda>n. replicate n 0" 40]
      d' c(2) example_db_ok(3,4) by auto
qed

text \<open>C18: a value survives the program: a key that is created, set and, after a restart, created again
  with its initial value, starts with the value that was set.\<close>

theorem key_survives_restart:
  assumes "db_ok es d" and "opened d" and "map_of es name = None" and "plain_name cs name"
    and "entry_ok (name, v)" and "kv_used es + entry_size (name, v) \<le> max_buffer_size d - 1"
    and "length w = length v" and "length raw = length v" and "\<And>n. length (fresh n) = n"
  shows "\<exists>d1 d2 d3 d4. key_open (seq_get cs) (db_add cs) d name raw v = Some (d1, v) \<and>
    key_set (db_set cs) d1 name w = Some (d2, OK) \<and>
    database_new (db_flash d2) (max_buffer_size d2) fresh = Some d3 \<and>
    key_open (seq_get cs) (db_add cs) d3 name raw v = Some (d4, w)"
proof -
  have k: "kv_add (max_buffer_size d) es name v = (AList.update name v es, OK)"
    using assms(3,6) by (simp add: kv_add_def)
  obtain d1 where d1: "db_add cs d name v = Some (d1, OK)" "db_ok (AList.update name v es) d1"
    "saved_or_same d d1"
    using add_key_eq [OF assms(1,4,5)] k by (auto simp: db_add_def saved_or_same_def)
  note f1 = saved_or_same_frame [OF d1(3) assms(1) d1(2)]
  have g: "db_get cs d name raw = Some (NOT_FOUND, raw)"
    using db_get_eq [OF assms(1,4)] assms(3) by (simp add: kv_get_def)
  have s: "kv_set (AList.update name v es) name w = (AList.update name w (AList.update name v es), OK)"
    using assms(7) by (simp add: kv_set_def update_conv')
  obtain d2 where d2: "db_set cs d1 name w = Some (d2, OK)"
    "db_ok (AList.update name w (AList.update name v es)) d2" "saved_or_same d1 d2"
    using set_key_eq [OF d1(2) assms(4), of w] s by (auto simp: db_set_def saved_or_same_def)
  note f2 = saved_or_same_frame [OF d2(3) d1(2) d2(2)]
  obtain d3 where d3: "database_new (db_flash d2) (max_buffer_size d2) fresh = Some d3"
    "db_ok (AList.update name w (AList.update name v es)) d3"
    using reopen_keeps [OF d2(2) _ assms(9)] f1(4) f2(4) assms(2) by blast
  have "\<exists>d4. key_open (seq_get cs) (db_add cs) d3 name raw v = Some (d4, w) \<and>
      db_holds (map_of (AList.update name w (AList.update name v es))) d4"
    using seq_db.open_stored [OF db_holdsI [OF d3(2)] assms(4)] assms(7,8) by (simp add: update_conv')
  then show ?thesis using g d1(1) d2(1) d3(1) by (auto simp: key_open_def key_set_def seq_get_def)
qed

theorem key_survives_restart_witness:
  "\<exists>d1 d2 d3 d4. key_open (seq_get True) (db_add True) example_db [107] [0, 0] [1, 2] = Some (d1, [1, 2]) \<and>
    key_set (db_set True) d1 [107] [3, 4] = Some (d2, OK) \<and>
    database_new (db_flash d2) (max_buffer_size d2) (\<lambda>n. replicate n 0) = Some d3 \<and>
    key_open (seq_get True) (db_add True) d3 [107] [0, 0] [1, 2] = Some (d4, [3, 4])"
  by (rule key_survives_restart [OF example_db_ok(2,5)])
    (simp_all add: plain_name_def char_value_def entry_ok_def kv_used_def entry_size_def db_sizes
      example_db_ok(3))


text \<open>An opened database is a restartable one: the restart opens the flash again.\<close>

definition db_opened :: "(u8 list \<rightharpoonup> u8 list) \<Rightarrow> database \<Rightarrow> bool" where
  "db_opened m d \<longleftrightarrow> (\<exists>es. db_ok es d \<and> m = map_of es) \<and> opened d"

definition db_restart :: "database \<Rightarrow> database option" where
  "db_restart d = database_new (db_flash d) (max_buffer_size d) (\<lambda>n. replicate n 0)"

lemma db_init_opened:
  assumes g: "geometry d" and "opened d" "db_init d = Some d'" shows "opened d'"
proof -
  obtain m b where a: "flash_area (db_flash d) = m @ b @ flash_rest d" "length m = block_size d"
    "length b = block_size d" using area_blocks [OF g] .
  let ?b' = "recovered_backup d b" and ?m' = "recovered_main d m (recovered_backup d b)"
  have n: "8 < max_buffer_size d" "max_buffer_size d \<le> block_size d"
    using g by (simp_all add: geometry_def db_sizes)
  have bl: "length ?b' = block_size d" using a n g by (simp add: recovered_backup_def)
  then have "length ?m' = block_size d" using a n g by (simp add: recovered_main_def)
  then show ?thesis using db_init_eq [OF g a] assms(2,3) a bl by (auto simp: opened_def flash_size_def)
qed

lemma reopen_opened:
  assumes "db_opened m d" shows "\<exists>d'. db_restart d = Some d' \<and> db_opened m d'"
proof -
  let ?c = "d\<lparr>db_buffer := replicate (max_buffer_size d) 0\<rparr>"
  obtain es where es: "db_ok es d" "m = map_of es" "opened d" using assms by (auto simp: db_opened_def)
  have g: "geometry d" using es(1) by (simp add: db_ok_def)
  have g': "geometry ?c" "opened ?c" using g es(3) by (simp_all add: opened_def)
  obtain d' where d': "db_restart d = Some d'" "db_ok es d'"
    using reopen_keeps [OF es(1,3), of "\<lambda>n. replicate n 0"] by (auto simp: db_restart_def)
  then have "db_init ?c = Some d'"
    using database_new_eq [OF g es(3), of "\<lambda>n. replicate n 0"] by (simp add: db_restart_def)
  then show ?thesis using d' es(2) db_init_opened [OF g'] by (auto simp: db_opened_def)
qed

lemma db_exec_opened:
  assumes "db_opened m d" "db_op_ok cs c"
  obtains es d' where "db_ok es d" "m = map_of es"
    "db_exec cs d c = Some (d', snd (kv_exec (max_buffer_size d) es c))"
    "db_opened (map_of (fst (kv_exec (max_buffer_size d) es c))) d'"
proof -
  obtain es where es: "db_ok es d" "m = map_of es" "opened d" using assms by (auto simp: db_opened_def)
  obtain d' where d': "db_exec cs d c = Some (d', snd (kv_exec (max_buffer_size d) es c))"
    "db_ok (fst (kv_exec (max_buffer_size d) es c)) d'" "saved_or_same d d'"
    using db_exec_eq [OF es(1) assms(2)] by blast
  have "opened d'" using saved_or_same_frame(4) [OF d'(3) es(1) d'(2)] es(3) by simp
  then show thesis using that es d' by (auto simp: db_opened_def)
qed

interpretation seq_restart: restartable_database "seq_get cs" "db_set cs" "db_add cs" db_opened "plain_name cs"
  "\<lambda>name v. entry_ok (name, v)" db_restart
proof
  fix m :: "u8 list \<rightharpoonup> u8 list" and d name and v w :: "u8 list"
  assume h: "db_opened m d" "plain_name cs name" and m: "m name = Some w" "length w = length v"
  have op: "db_op_ok cs (DB_SET name v)" using h(2) by simp
  obtain es d' where x: "m = map_of es" "db_exec cs d (DB_SET name v) = Some (d', snd (kv_exec (max_buffer_size d) es (DB_SET name v)))"
    "db_opened (map_of (fst (kv_exec (max_buffer_size d) es (DB_SET name v)))) d'"
    by (rule db_exec_opened [OF h(1) op])
  have "kv_set es name v = (AList.update name v es, OK)" using m x(1) by (simp add: kv_set_def)
  then show "\<exists>d' ec. db_set cs d name v = Some (d', ec) \<and>
      (ec = OK \<and> db_opened (m(name \<mapsto> v)) d' \<or> ec = FULL \<and> db_opened m d')"
    using x by (auto simp: update_conv')
next
  fix m :: "u8 list \<rightharpoonup> u8 list" and d name and v :: "u8 list"
  assume h: "db_opened m d" "plain_name cs name" "entry_ok (name, v)" and m: "m name = None"
  have op: "db_op_ok cs (DB_ADD name v)" using h(2,3) by simp
  obtain es d' where x: "m = map_of es" "db_exec cs d (DB_ADD name v) = Some (d', snd (kv_exec (max_buffer_size d) es (DB_ADD name v)))"
    "db_opened (map_of (fst (kv_exec (max_buffer_size d) es (DB_ADD name v)))) d'"
    by (rule db_exec_opened [OF h(1) op])
  then show "\<exists>d' ec. db_add cs d name v = Some (d', ec) \<and>
      (ec = OK \<and> db_opened (m(name \<mapsto> v)) d' \<or> ec = FULL \<and> db_opened m d')"
    using m by (cases "kv_used es + entry_size (name, v) \<le> max_buffer_size d - 1")
      (auto simp: kv_add_def update_conv' split: prod.splits)
next
  fix m :: "u8 list \<rightharpoonup> u8 list" and d
  assume "db_opened m d"
  then show "\<exists>d'. db_restart d = Some d' \<and> db_opened m d'" by (rule reopen_opened)
qed (auto simp: seq_get_def db_get_eq kv_get_def db_opened_def)

section \<open>Limits\<close>

text \<open>A buffer that is larger than half the flash: the constructor allocates the clamped size and clears
  the unclamped one.\<close>

theorem oversized_buffer_overflows:
  assumes "flash_size f < 2 * size_arg" and "size_arg < 2 ^ 32" and "\<And>n. length (fresh n) = n"
  shows "database_new f size_arg fresh = None"
proof -
  have "\<not> size_arg \<le> flash_size f div 2" using assms(1) by linarith
  then show ?thesis
    using assms by (auto simp: database_new_def Let_def db_init_def clear_buffer_def array_copy_def to_uint32_def)
qed

definition small_flash :: flash where
  "small_flash = \<lparr>flash_area = replicate 36 0xFF, min_erase_size = 9, min_write_size = 1,
     write_order_check = False, write_as_one_check = False\<rparr>"

definition small_db :: "u8 list \<Rightarrow> u8 list \<Rightarrow> database option" where
  "small_db name v = do {
     d \<leftarrow> database_new small_flash 18 (\<lambda>n. replicate n 0);
     (d1, _) \<leftarrow> db_add True d name v;
     Some d1
   }"

text \<open>With a signed \<open>char\<close> a name with a byte above 127 is stored but never found.\<close>

theorem non_ascii_name_not_found:
  "(do { d \<leftarrow> small_db [0xE4] [1, 2]; db_get True d [0xE4] [0, 0] }) = Some (NOT_FOUND, [0, 0])"
  "(do { d \<leftarrow> small_db [0xE4] [1, 2]; db_get False d [0xE4] [0, 0] }) = Some (OK, [1, 2])"
  by code_simp+

text \<open>An image of two erase units: when the power fails between their erasures, \<open>Init\<close> still finds the
  check sum of the main block and does not restore the intact backup; the main block has lost its header
  and its first key.\<close>

theorem torn_erase_not_recovered:
  "(do { d \<leftarrow> small_db [107] [1, 2];
     (d2, _) \<leftarrow> db_set True d [107] [3, 4];
     d3 \<leftarrow> database_new (db_flash (save_interrupted 21 (d\<lparr>db_buffer := db_buffer d2\<rparr>))) 18 (\<lambda>n. replicate n 0);
     Some (is_block_inited d3 MAIN, is_block_inited d3 BACKUP, is_block_error d3 BACKUP, take 9 (db_buffer d3)) }) =
   Some (Some False, Some True, Some False, replicate 9 0xFF)"
  by code_simp

text \<open>\<open>Restore\<close> writes without an erasure; a flash that only clears bits refuses it.\<close>

theorem restore_without_erase:
  "(do { d \<leftarrow> small_db [107] [1, 2];
     Some (db_restore (d\<lparr>db_flash := (db_flash d)\<lparr>write_as_one_check := True\<rparr>\<rparr>)) }) = Some None"
  by code_simp

end
