(* ===== verification/Raw_Database.thy ===== *)
theory Raw_Database
  imports Database_Sequential
begin

text \<open>
  \<open>DatabaseRaw<MinWriteSize>\<close> of src/src/middleware/database.hpp: an append-only store in the first of two
  flash blocks for devices that write only whole units and only clear bits. A key is a header of three
  flags, each a write unit of its own, and a word with the lengths, followed by the name and the data. A
  new value is appended and the old one marked; \<open>Recycle\<close> copies the live keys through the second block.
  A read outside the flash and a failing \<open>ASSERT\<close> are \<open>None\<close>; \<open>rd_debug\<close> tells whether the assertions
  with which the code reports a full store stop the program. Sizes are far below the range of
  \<open>size_t\<close>, so that an underflow of the free space counts as plenty.
\<close>

section \<open>Flags and key headers\<close>

text \<open>\<open>BlockBoolUtil\<close>.\<close>

definition set_flag :: "nat \<Rightarrow> bool \<Rightarrow> u8 list" where
  "set_flag w value = (let bs = replicate w 0xFF in if value then bs else bs[w - 1 := bs ! (w - 1) AND 0xF0])"

definition read_flag :: "u8 list \<Rightarrow> bool" where
  "read_flag bs \<longleftrightarrow> bs ! (length bs - 1) AND 0x0F = 0x0F"

definition flag_valid :: "u8 list \<Rightarrow> bool" where
  "flag_valid bs \<longleftrightarrow> bs \<noteq> [] \<and> (\<forall>i \<in> set [0..<length bs - 1]. bs ! i = 0xFF) \<and>
     bs ! (length bs - 1) AND 0xF0 = 0xF0 \<and>
     (bs ! (length bs - 1) AND 0x0F = 0x0F \<or> bs ! (length bs - 1) AND 0x0F = 0)"

record raw_key =
  rk_no_next :: "u8 list"
  rk_available :: "u8 list"
  rk_uninit :: "u8 list"
  rk_info :: u32

definition raw_key_new :: "nat \<Rightarrow> raw_key" where
  "raw_key_new w = \<lparr>rk_no_next = set_flag w True, rk_available = set_flag w True, rk_uninit = set_flag w True, rk_info = 0\<rparr>"

definition rk_set_name_length :: "u8 \<Rightarrow> raw_key \<Rightarrow> raw_key" where
  "rk_set_name_length len k = k\<lparr>rk_info := (rk_info k AND 0x01FFFFFF) OR push_bit 25 (ucast (len AND 0x7F))\<rparr>"

definition rk_name_length :: "raw_key \<Rightarrow> nat" where
  "rk_name_length k = unat (drop_bit 25 (rk_info k) AND 0x7F)"

definition rk_set_data_size :: "u32 \<Rightarrow> raw_key \<Rightarrow> raw_key" where
  "rk_set_data_size n k = k\<lparr>rk_info := (rk_info k AND 0xFE000000) OR (n AND 0x01FFFFFF)\<rparr>"

definition rk_data_size :: "raw_key \<Rightarrow> nat" where
  "rk_data_size k = unat (rk_info k AND 0x01FFFFFF)"

text \<open>A header as the code builds it, and its bytes.\<close>

definition build_key :: "nat \<Rightarrow> bool \<Rightarrow> bool \<Rightarrow> bool \<Rightarrow> nat \<Rightarrow> nat \<Rightarrow> raw_key" where
  "build_key w no_next available uninit name_len n =
     rk_set_data_size (of_nat n) (rk_set_name_length (of_nat name_len)
       ((raw_key_new w)\<lparr>rk_no_next := set_flag w no_next, rk_available := set_flag w available,
         rk_uninit := set_flag w uninit\<rparr>))"

definition raw_key_bytes :: "raw_key \<Rightarrow> u8 list" where
  "raw_key_bytes k = rk_no_next k @ rk_available k @ rk_uninit k @ word_bytes 4 (rk_info k)"

definition raw_key_of :: "nat \<Rightarrow> u8 list \<Rightarrow> raw_key" where
  "raw_key_of w bs = \<lparr>rk_no_next = take w bs, rk_available = take w (drop w bs),
     rk_uninit = take w (drop (2 * w) bs), rk_info = le_word (drop (3 * w) bs)\<rparr>"

section \<open>The store\<close>

record raw_db =
  rd_flash :: flash
  rd_block_size :: nat
  rd_threshold :: nat
  rd_unit :: nat
  rd_debug :: bool
  rd_signed_char :: bool

definition RAW_CHECKSUM :: u32 where
  "RAW_CHECKSUM = 0x9abcedf0"

text \<open>\<open>sizeof(KeyInfo)\<close>, \<open>OffsetOf(&FlashInfo::key)\<close> and \<open>sizeof(FlashInfo)\<close>.\<close>

definition raw_key_size :: "raw_db \<Rightarrow> nat" where
  "raw_key_size d = 3 * rd_unit d + 4"

definition raw_first_key :: "raw_db \<Rightarrow> nat" where
  "raw_first_key d = max 4 (rd_unit d)"

definition align_size :: "raw_db \<Rightarrow> nat \<Rightarrow> nat" where
  "align_size d n = (n + rd_unit d - 1) div rd_unit d * rd_unit d"

definition raw_block_offset :: "raw_db \<Rightarrow> block_type \<Rightarrow> nat" where
  "raw_block_offset d block = (if block = BACKUP then rd_block_size d else 0)"

definition checksum_size :: "raw_db \<Rightarrow> nat" where
  "checksum_size d = align_size d 4"

definition checksum_offset :: "raw_db \<Rightarrow> nat" where
  "checksum_offset d = rd_block_size d - checksum_size d"

section \<open>Access to the flash\<close>

definition raw_read :: "raw_db \<Rightarrow> nat \<Rightarrow> nat \<Rightarrow> u8 list option" where
  "raw_read d offset n = flash_read (rd_flash d) offset n"

definition raw_read_key :: "raw_db \<Rightarrow> nat \<Rightarrow> raw_key option" where
  "raw_read_key d offset = map_option (raw_key_of (rd_unit d)) (raw_read d offset (raw_key_size d))"

text \<open>The callers ignore the error code of a write or an erasure.\<close>

definition raw_flash_write :: "raw_db \<Rightarrow> nat \<Rightarrow> u8 list \<Rightarrow> raw_db option" where
  "raw_flash_write d offset data = map_option (\<lambda>(f, _). d\<lparr>rd_flash := f\<rparr>) (flash_write (rd_flash d) offset data)"

definition raw_erase :: "raw_db \<Rightarrow> nat \<Rightarrow> nat \<Rightarrow> raw_db option" where
  "raw_erase d offset n = map_option (\<lambda>(f, _). d\<lparr>rd_flash := f\<rparr>) (flash_erase (rd_flash d) offset n)"

definition raw_write :: "raw_db \<Rightarrow> nat \<Rightarrow> u8 list \<Rightarrow> raw_db option" where
  "raw_write d offset data =
     (let w = rd_unit d; n = length data in
      if n = 0 then Some d
      else if n mod w = 0 then raw_flash_write d offset data
      else let final_block_index = n - n mod w in do {
        d1 \<leftarrow> (if final_block_index \<noteq> 0 then raw_flash_write d offset (take final_block_index data) else Some d);
        raw_flash_write d1 (offset + final_block_index) (blit (replicate w 0xFF) 0 (drop final_block_index data))
      })"

text \<open>\<open>CopyFlashData\<close> copies whole write units.\<close>

fun copy_units :: "raw_db \<Rightarrow> nat \<Rightarrow> nat \<Rightarrow> nat \<Rightarrow> raw_db option" where
  "copy_units d dst src 0 = Some d"
| "copy_units d dst src (Suc k) = do {
     bs \<leftarrow> raw_read d src (rd_unit d);
     d1 \<leftarrow> raw_flash_write d dst bs;
     copy_units d1 (dst + rd_unit d) (src + rd_unit d) k
   }"

definition copy_flash_data :: "raw_db \<Rightarrow> nat \<Rightarrow> nat \<Rightarrow> nat \<Rightarrow> raw_db option" where
  "copy_flash_data d dst src n = copy_units d dst src ((n + rd_unit d - 1) div rd_unit d)"

section \<open>Walking the keys\<close>

definition raw_key_length :: "raw_db \<Rightarrow> nat \<Rightarrow> nat option" where
  "raw_key_length d offset = map_option (\<lambda>key. align_size d (raw_key_size d) + align_size d (rk_name_length key) +
     align_size d (rk_data_size key)) (raw_read_key d offset)"

definition raw_next_key :: "raw_db \<Rightarrow> nat \<Rightarrow> nat option" where
  "raw_next_key d offset = map_option (\<lambda>n. offset + n) (raw_key_length d offset)"

definition raw_name_offset :: "raw_db \<Rightarrow> nat \<Rightarrow> nat" where
  "raw_name_offset d offset = offset + align_size d (raw_key_size d)"

definition raw_data_offset :: "raw_db \<Rightarrow> nat \<Rightarrow> nat option" where
  "raw_data_offset d offset = map_option (\<lambda>key. offset + align_size d (raw_key_size d) + align_size d (rk_name_length key))
     (raw_read_key d offset)"

definition raw_info :: "raw_db \<Rightarrow> block_type \<Rightarrow> u8 list option" where
  "raw_info d block = raw_read d (raw_block_offset d block) (raw_first_key d + raw_key_size d)"

definition raw_is_inited :: "raw_db \<Rightarrow> block_type \<Rightarrow> bool option" where
  "raw_is_inited d block = map_option (\<lambda>info. le_word (take 4 info) = FLASH_HEADER) (raw_info d block)"

definition raw_is_empty :: "raw_db \<Rightarrow> block_type \<Rightarrow> bool option" where
  "raw_is_empty d block = map_option
     (\<lambda>info. read_flag (rk_available (raw_key_of (rd_unit d) (drop (raw_first_key d) info)))) (raw_info d block)"

definition raw_is_error :: "raw_db \<Rightarrow> block_type \<Rightarrow> bool option" where
  "raw_is_error d block = map_option (\<lambda>bs. le_word bs \<noteq> RAW_CHECKSUM)
     (raw_read d (raw_block_offset d block + checksum_offset d) 4)"

definition raw_is_valid :: "raw_db \<Rightarrow> block_type \<Rightarrow> bool option" where
  "raw_is_valid d block = do {
     inited \<leftarrow> raw_is_inited d block;
     if inited then map_option Not (raw_is_error d block) else Some False
   }"

partial_function (option) raw_last_key_loop :: "raw_db \<Rightarrow> nat \<Rightarrow> nat option" where
  "raw_last_key_loop d offset = do {
     key \<leftarrow> raw_read_key d offset;
     if read_flag (rk_no_next key) then Some offset
     else do {
       next_offset \<leftarrow> raw_next_key d offset;
       raw_last_key_loop d next_offset
     }
   }"

definition raw_last_key :: "raw_db \<Rightarrow> block_type \<Rightarrow> nat option" where
  "raw_last_key d block = do {
     empty \<leftarrow> raw_is_empty d block;
     if empty then Some 0 else raw_last_key_loop d (raw_block_offset d block + raw_first_key d)
   }"

definition raw_used_size :: "raw_db \<Rightarrow> block_type \<Rightarrow> nat option" where
  "raw_used_size d block = do {
     empty \<leftarrow> raw_is_empty d block;
     offset \<leftarrow> (if empty then Some (raw_block_offset d block + raw_first_key d) else raw_last_key d block);
     next_offset \<leftarrow> raw_next_key d offset;
     Some (next_offset - raw_block_offset d block)
   }"

text \<open>\<open>AvailableSize() < n\<close>, where the difference wraps around when the used size is too big.\<close>

definition available_less :: "raw_db \<Rightarrow> nat \<Rightarrow> bool option" where
  "available_less d n = map_option (\<lambda>used. used \<le> checksum_offset d \<and> checksum_offset d - used < n) (raw_used_size d MAIN)"

text \<open>\<open>TryGetUsedBlockSize\<close>: the size, or \<open>None\<close> inside when the metadata cannot be trusted.\<close>

partial_function (option) try_used_loop :: "raw_db \<Rightarrow> nat \<Rightarrow> nat \<Rightarrow> nat option option" where
  "try_used_loop d limit offset =
     (if offset + align_size d (raw_key_size d) > limit then Some None
      else do {
        key \<leftarrow> raw_read_key d offset;
        if \<not> flag_valid (rk_no_next key) \<or> \<not> flag_valid (rk_available key) \<or> \<not> flag_valid (rk_uninit key)
        then Some None
        else let next_offset = offset + align_size d (raw_key_size d) + align_size d (rk_name_length key) +
               align_size d (rk_data_size key)
          in if next_offset > limit then Some None
             else if read_flag (rk_no_next key) then Some (Some next_offset)
             else try_used_loop d limit next_offset
      })"

definition try_used_size :: "raw_db \<Rightarrow> block_type \<Rightarrow> nat option option" where
  "try_used_size d block = map_option (map_option (\<lambda>end_offset. end_offset - raw_block_offset d block))
     (try_used_loop d (raw_block_offset d block + checksum_offset d) (raw_block_offset d block + raw_first_key d))"

section \<open>Blocks\<close>

text \<open>The bytes of \<open>FlashInfo\<close>: the header is padded to a write unit.\<close>

definition info_bytes :: "raw_db \<Rightarrow> raw_key \<Rightarrow> u8 list" where
  "info_bytes d key = blit (replicate (raw_first_key d) 0xFF) 0 (word_bytes 4 FLASH_HEADER) @ raw_key_bytes key"

definition raw_init_block :: "raw_db \<Rightarrow> block_type \<Rightarrow> raw_db option" where
  "raw_init_block d block = do {
     let offset = raw_block_offset d block;
     d1 \<leftarrow> raw_erase d offset (rd_block_size d);
     d2 \<leftarrow> raw_write d1 offset (info_bytes d1 (build_key (rd_unit d1) True True False 0 0));
     raw_write d2 (offset + checksum_offset d2) (word_bytes 4 RAW_CHECKSUM)
   }"

definition raw_invalidate :: "raw_db \<Rightarrow> block_type \<Rightarrow> raw_db option" where
  "raw_invalidate d block = raw_write d (raw_block_offset d block + checksum_offset d) (word_bytes 4 (0 :: u32))"

definition copy_block_prefix :: "raw_db \<Rightarrow> block_type \<Rightarrow> block_type \<Rightarrow> nat \<Rightarrow> raw_db option" where
  "copy_block_prefix d dst src used_size =
     (if used_size > checksum_offset d then None
      else do {
        d1 \<leftarrow> copy_flash_data d (raw_block_offset d dst) (raw_block_offset d src) used_size;
        copy_flash_data d1 (raw_block_offset d1 dst + checksum_offset d1) (raw_block_offset d1 src + checksum_offset d1)
          (checksum_size d1)
      })"

text \<open>The loop of \<open>Recycle\<close> that copies the live keys behind the position \<open>wr\<close>.\<close>

partial_function (option) recycle_loop :: "raw_db \<Rightarrow> nat \<Rightarrow> nat \<Rightarrow> (raw_db \<times> nat) option" where
  "recycle_loop d koff wr = do {
     offset \<leftarrow> raw_next_key d koff;
     key \<leftarrow> raw_read_key d offset;
     (d1, wr1) \<leftarrow> (if \<not> read_flag (rk_available key) then Some (d, wr)
       else do {
         d2 \<leftarrow> raw_write d wr (raw_key_bytes key);
         let wr2 = wr + align_size d2 (raw_key_size d2);
         d3 \<leftarrow> copy_flash_data d2 wr2 (raw_name_offset d2 offset) (rk_name_length key);
         let wr3 = wr2 + align_size d3 (rk_name_length key);
         data_offset \<leftarrow> raw_data_offset d3 offset;
         d4 \<leftarrow> copy_flash_data d3 wr3 data_offset (rk_data_size key);
         Some (d4, wr3 + align_size d4 (rk_data_size key))
       });
     if read_flag (rk_no_next key) then Some (d1, wr1) else recycle_loop d1 offset wr1
   }"

definition raw_recycle :: "raw_db \<Rightarrow> raw_db option" where
  "raw_recycle d = do {
     empty \<leftarrow> raw_is_empty d MAIN;
     if empty then Some d
     else do {
       valid \<leftarrow> raw_is_valid d BACKUP;
       fresh \<leftarrow> (if \<not> valid then Some False else raw_is_empty d BACKUP);
       d1 \<leftarrow> (if \<not> fresh then raw_init_block d BACKUP else Some d);
       let wr = raw_first_key d1 + rd_block_size d1;
       d2 \<leftarrow> raw_write d1 wr (raw_key_bytes ((raw_key_new (rd_unit d1))\<lparr>rk_uninit := set_flag (rd_unit d1) False,
         rk_available := set_flag (rd_unit d1) False, rk_no_next := set_flag (rd_unit d1) False\<rparr>));
       n \<leftarrow> raw_key_length d2 wr;
       (d3, wr3) \<leftarrow> recycle_loop d2 (raw_first_key d2) (wr + n);
       let used_size = wr3 - rd_block_size d3;
       d4 \<leftarrow> raw_erase d3 0 (rd_block_size d3);
       d5 \<leftarrow> copy_block_prefix d4 MAIN BACKUP used_size;
       raw_init_block d5 BACKUP
     }
   }"

section \<open>Searching\<close>

text \<open>The comparisons answer True when the contents differ.\<close>

fun raw_data_compare_loop :: "raw_db \<Rightarrow> nat \<Rightarrow> u8 list \<Rightarrow> nat \<Rightarrow> nat \<Rightarrow> bool option" where
  "raw_data_compare_loop d base data i 0 = Some False"
| "raw_data_compare_loop d base data i (Suc n) = do {
     stored \<leftarrow> raw_read d (base + i) 1;
     b \<leftarrow> array_get data i;
     if hd stored \<noteq> b then Some True else raw_data_compare_loop d base data (i + 1) n
   }"

definition raw_data_compare :: "raw_db \<Rightarrow> nat \<Rightarrow> u8 list \<Rightarrow> nat \<Rightarrow> bool option" where
  "raw_data_compare d offset data n = do {
     data_offset \<leftarrow> raw_data_offset d offset;
     raw_data_compare_loop d data_offset data 0 n
   }"

fun raw_name_compare_loop :: "raw_db \<Rightarrow> nat \<Rightarrow> u8 list \<Rightarrow> nat \<Rightarrow> nat \<Rightarrow> bool option" where
  "raw_name_compare_loop d base name i 0 = Some False"
| "raw_name_compare_loop d base name i (Suc n) = do {
     stored \<leftarrow> raw_read d (base + i) 1;
     c \<leftarrow> array_get (name @ [0]) i;
     if uint (hd stored) \<noteq> char_value (rd_signed_char d) c then Some True
     else raw_name_compare_loop d base name (i + 1) n
   }"

definition raw_name_compare :: "raw_db \<Rightarrow> nat \<Rightarrow> u8 list \<Rightarrow> bool option" where
  "raw_name_compare d offset name = do {
     key \<leftarrow> raw_read_key d offset;
     raw_name_compare_loop d (offset + align_size d (raw_key_size d)) name 0 (rk_name_length key)
   }"

text \<open>The loop of \<open>SearchKey\<close> counts the dead keys it passes.\<close>

partial_function (option) raw_search_loop :: "raw_db \<Rightarrow> u8 list \<Rightarrow> nat \<Rightarrow> nat \<Rightarrow> (nat \<times> nat) option" where
  "raw_search_loop d name offset need_cycle = do {
     key \<leftarrow> raw_read_key d offset;
     if \<not> read_flag (rk_available key)
     then do {
       next_offset \<leftarrow> raw_next_key d offset;
       raw_search_loop d name next_offset (need_cycle + 1)
     }
     else do {
       differs \<leftarrow> raw_name_compare d offset name;
       if \<not> differs then Some (offset, need_cycle)
       else if read_flag (rk_no_next key) then Some (0, need_cycle)
       else do {
         next_offset \<leftarrow> raw_next_key d offset;
         raw_search_loop d name next_offset need_cycle
       }
     }
   }"

partial_function (option) raw_search_key :: "raw_db \<Rightarrow> u8 list \<Rightarrow> (raw_db \<times> nat) option" where
  "raw_search_key d name = do {
     empty \<leftarrow> raw_is_empty d MAIN;
     if empty then Some (d, 0)
     else do {
       (ans, need_cycle) \<leftarrow> raw_search_loop d name (raw_first_key d) 0;
       if need_cycle > rd_threshold d
       then do {
         d1 \<leftarrow> raw_recycle d;
         raw_search_key d1 name
       }
       else Some (d, ans)
     }
   }"

section \<open>Adding and setting keys\<close>

text \<open>The report of a full store.\<close>

definition report_full :: "raw_db \<Rightarrow> error_code option" where
  "report_full d = (if rd_debug d then None else Some FULL)"

definition add_key_body :: "raw_db \<Rightarrow> nat \<Rightarrow> nat \<Rightarrow> (raw_db \<times> error_code \<times> nat) option" where
  "add_key_body d name_len n = do {
     let need = align_size d (raw_key_size d) + align_size d name_len + align_size d n;
     last0 \<leftarrow> raw_last_key d MAIN;
     short0 \<leftarrow> available_less d need;
     (d1, last_key, full) \<leftarrow> (if \<not> short0 then Some (d, last0, False)
       else do {
         d' \<leftarrow> raw_recycle d;
         last1 \<leftarrow> raw_last_key d' MAIN;
         short1 \<leftarrow> available_less d' need;
         Some (d', last1, short1)
       });
     if full then map_option (\<lambda>ec. (d1, ec, 0)) (report_full d1)
     else do {
       let w = rd_unit d1;
       d2 \<leftarrow> (if last_key = 0 then raw_write d1 0 (info_bytes d1 (build_key w False False False 0 0)) else Some d1);
       key_buf \<leftarrow> (if last_key = 0 then raw_next_key d2 (raw_first_key d2) else raw_next_key d2 last_key);
       d3 \<leftarrow> raw_write d2 key_buf (raw_key_bytes (build_key w True True True name_len n));
       d4 \<leftarrow> (if last_key \<noteq> 0
         then do {
           key \<leftarrow> raw_read_key d3 last_key;
           raw_write d3 last_key (raw_key_bytes (build_key w False (read_flag (rk_available key))
             (read_flag (rk_uninit key)) (rk_name_length key) (rk_data_size key)))
         }
         else Some d3);
       d5 \<leftarrow> raw_write d4 key_buf (raw_key_bytes (build_key w True True False name_len n));
       Some (d5, OK, key_buf)
     }
   }"

text \<open>\<open>AddKey\<close> with the name of a key in the flash.\<close>

definition add_key_copy :: "raw_db \<Rightarrow> nat \<Rightarrow> nat \<Rightarrow> u8 list \<Rightarrow> (raw_db \<times> error_code) option" where
  "add_key_copy d name_offset name_len data = do {
     (d1, ec, key_buf) \<leftarrow> add_key_body d name_len (length data);
     if ec \<noteq> OK then Some (d1, ec)
     else do {
       d2 \<leftarrow> copy_flash_data d1 (raw_name_offset d1 key_buf) name_offset name_len;
       data_offset \<leftarrow> raw_data_offset d2 key_buf;
       d3 \<leftarrow> raw_write d2 data_offset data;
       Some (d3, OK)
     }
   }"

text \<open>\<open>SetKey\<close>; \<open>full\<close> is what it does when the space does not suffice. The first call recycles and tries
  again, the second one reports.\<close>

definition set_key_step ::
  "(raw_db \<Rightarrow> (raw_db \<times> error_code) option) \<Rightarrow> raw_db \<Rightarrow> u8 list \<Rightarrow> u8 list \<Rightarrow> (raw_db \<times> error_code) option" where
  "set_key_step full d name data = do {
     (d1, koff) \<leftarrow> raw_search_key d name;
     if koff = 0 then Some (d1, FAILED)
     else do {
       key \<leftarrow> raw_read_key d1 koff;
       if rk_data_size key \<noteq> length data then Some (d1, FAILED)
       else do {
         differs \<leftarrow> raw_data_compare d1 koff data (length data);
         if \<not> differs then Some (d1, OK)
         else do {
           short \<leftarrow> available_less d1 (align_size d1 (length data) + align_size d1 (raw_key_size d1) +
             align_size d1 (rk_name_length key));
           if short then full d1
           else do {
             d2 \<leftarrow> raw_write d1 koff (raw_key_bytes (build_key (rd_unit d1) (read_flag (rk_no_next key)) False
               (read_flag (rk_uninit key)) (rk_name_length key) (length data)));
             add_key_copy d2 (raw_name_offset d2 koff) (rk_name_length key) data
           }
         }
       }
     }
   }"

definition raw_set_key :: "raw_db \<Rightarrow> u8 list \<Rightarrow> u8 list \<Rightarrow> (raw_db \<times> error_code) option" where
  "raw_set_key d name data = set_key_step (\<lambda>d1. raw_recycle d1 \<bind> (\<lambda>d2.
     set_key_step (\<lambda>d3. map_option (Pair d3) (report_full d3)) d2 name data)) d name data"

definition raw_add_key :: "raw_db \<Rightarrow> u8 list \<Rightarrow> u8 list \<Rightarrow> (raw_db \<times> error_code) option" where
  "raw_add_key d name data = do {
     let name_len = length name + 1;
     (d1, ans) \<leftarrow> raw_search_key d name;
     if ans \<noteq> 0 then raw_set_key d1 name data
     else do {
       (d2, ec, key_buf) \<leftarrow> add_key_body d1 name_len (length data);
       if ec \<noteq> OK then Some (d2, ec)
       else do {
         d3 \<leftarrow> raw_write d2 (raw_name_offset d2 key_buf) (name @ [0]);
         data_offset \<leftarrow> raw_data_offset d3 key_buf;
         d4 \<leftarrow> raw_write d3 data_offset data;
         Some (d4, OK)
       }
     }
   }"

section \<open>The interface\<close>

text \<open>\<open>Get\<close> into the bytes \<open>out\<close> of a key; \<open>Set\<close> also copies the value into the key, which the client's
  model does not need.\<close>

definition raw_get :: "raw_db \<Rightarrow> u8 list \<Rightarrow> u8 list \<Rightarrow> (raw_db \<times> error_code \<times> u8 list) option" where
  "raw_get d name out = do {
     (d1, ans) \<leftarrow> raw_search_key d name;
     if ans = 0 then Some (d1, NOT_FOUND, out)
     else do {
       key \<leftarrow> raw_read_key d1 ans;
       if length out < rk_data_size key then Some (d1, FAILED, out)
       else do {
         data_offset \<leftarrow> raw_data_offset d1 ans;
         bs \<leftarrow> raw_read d1 data_offset (length out);
         Some (d1, OK, bs)
       }
     }
   }"

definition raw_set :: "raw_db \<Rightarrow> u8 list \<Rightarrow> u8 list \<Rightarrow> (raw_db \<times> error_code) option" where
  "raw_set d name data = raw_set_key d name data"

definition raw_add :: "raw_db \<Rightarrow> u8 list \<Rightarrow> u8 list \<Rightarrow> (raw_db \<times> error_code) option" where
  "raw_add d name data = raw_add_key d name data"

text \<open>The loop of \<open>Init\<close> over the keys of the main block.\<close>

partial_function (option) raw_init_loop :: "raw_db \<Rightarrow> nat \<Rightarrow> nat \<Rightarrow> (raw_db \<times> nat) option" where
  "raw_init_loop d offset need_cycle = do {
     key \<leftarrow> raw_read_key d offset;
     if read_flag (rk_no_next key) then Some (d, need_cycle)
     else do {
       next_offset \<leftarrow> raw_next_key d offset;
       if next_offset + align_size d (raw_key_size d) > checksum_offset d
       then map_option (\<lambda>d1. (d1, need_cycle)) (raw_init_block d MAIN)
       else do {
         next_key \<leftarrow> raw_read_key d next_offset;
         if read_flag (rk_uninit next_key) then map_option (\<lambda>d1. (d1, need_cycle)) (raw_init_block d MAIN)
         else raw_init_loop d next_offset (if read_flag (rk_available next_key) then need_cycle else need_cycle + 1)
       }
     }
   }"

text \<open>\<open>Init\<close>: choosing and repairing the main block, and the pass over its keys.\<close>

definition raw_recover :: "raw_db \<Rightarrow> raw_db option" where
  "raw_recover d = do {
     main_valid \<leftarrow> raw_is_valid d MAIN;
     backup_valid \<leftarrow> raw_is_valid d BACKUP;
     backup_empty \<leftarrow> (if backup_valid then raw_is_empty d BACKUP else Some True);
     if \<not> main_valid
     then (if \<not> backup_valid \<or> backup_empty then raw_init_block d MAIN
       else do {
         used \<leftarrow> try_used_size d BACKUP;
         (case used of
            None \<Rightarrow> raw_invalidate d BACKUP \<bind> (\<lambda>d1. raw_init_block d1 MAIN)
          | Some used_size \<Rightarrow> do {
              d1 \<leftarrow> raw_erase d 0 (rd_block_size d);
              d2 \<leftarrow> copy_block_prefix d1 MAIN BACKUP used_size;
              raw_invalidate d2 BACKUP
            })
       })
     else if backup_valid \<and> \<not> backup_empty then raw_invalidate d BACKUP
     else Some d
   }"

definition raw_init :: "raw_db \<Rightarrow> raw_db option" where
  "raw_init d = do {
     d1 \<leftarrow> raw_recover d;
     (d2, need_cycle) \<leftarrow> raw_init_loop d1 (raw_first_key d1) 0;
     if need_cycle > rd_threshold d2 then raw_recycle d2 else Some d2
   }"

definition raw_restore :: "raw_db \<Rightarrow> raw_db option" where
  "raw_restore d = raw_init_block d MAIN \<bind> (\<lambda>d1. raw_init_block d1 BACKUP)"

definition raw_database_new :: "nat \<Rightarrow> bool \<Rightarrow> bool \<Rightarrow> flash \<Rightarrow> nat \<Rightarrow> raw_db option" where
  "raw_database_new w debug signed_char f threshold =
     (if min_erase_size f * 2 \<le> flash_size f \<and> min_write_size f \<le> w \<and> min_erase_size f \<noteq> 0
      then raw_init \<lparr>rd_flash = f, rd_block_size = flash_size f div min_erase_size f div 2 * min_erase_size f mod 2 ^ 32,
        rd_threshold = threshold, rd_unit = w, rd_debug = debug, rd_signed_char = signed_char\<rparr>
      else None)"

declare raw_last_key_loop.simps [code]
declare try_used_loop.simps [code]
declare recycle_loop.simps [code]
declare raw_search_loop.simps [code]
declare raw_search_key.simps [code]
declare raw_init_loop.simps [code]

end
