(* ===== verification/Raw_Image.thy ===== *)
theory Raw_Image
  imports Raw_Database
begin

text \<open>
  The layout of a block of \<open>DatabaseRaw\<close> and the effect of the accesses to the flash on it: flags and
  lengths read back what was written, a write replaces a piece of the area, and the code's own writes
  only clear bits.
\<close>

section \<open>Bits\<close>

lemma set_flag_eq:
  "0 < w \<Longrightarrow> set_flag w v = replicate (w - 1) 0xFF @ [if v then 0xFF else 0xF0]"
proof (cases w)
  case (Suc n)
  have "replicate (Suc n) (0xFF :: u8) = replicate n 0xFF @ [0xFF]" by (metis replicate_append_same replicate_Suc)
  then show ?thesis using Suc by (simp add: set_flag_def nth_append list_update_append)
qed simp

lemma length_set_flag [simp]: "length (set_flag w v) = w"
  by (simp add: set_flag_def Let_def)

lemma read_set_flag [simp]: "0 < w \<Longrightarrow> read_flag (set_flag w v) = v"
  by (simp add: set_flag_eq read_flag_def nth_append)

lemma valid_set_flag [simp]: "0 < w \<Longrightarrow> flag_valid (set_flag w v)"
  by (simp add: set_flag_eq flag_valid_def nth_append)

lemma clears_only_refl [simp]: "clears_only bs bs"
proof (induction bs)
  case (Cons b bs)
  have "NOT b AND b = 0" by (rule bit_eqI) (simp add: bit_simps)
  with Cons show ?case by simp
qed simp

lemma clears_only_append:
  "length xs = length ys \<Longrightarrow> clears_only (xs @ us) (ys @ vs) \<longleftrightarrow> clears_only xs ys \<and> clears_only us vs"
  by (induction xs ys rule: list_induct2) auto

lemma clears_only_zero [simp]: "clears_only bs (replicate n 0)"
proof (induction bs arbitrary: n)
  case (Cons b bs)
  then show ?case by (cases n) simp_all
qed simp

lemma clears_flag [simp]: "(b \<longrightarrow> a) \<Longrightarrow> clears_only (set_flag w a) (set_flag w b)"
proof (cases "w = 0")
  case False
  have "NOT (0xFF :: u8) AND 0xF0 = 0" by simp
  moreover assume "b \<longrightarrow> a"
  ultimately show ?thesis using False
    by (simp add: set_flag_eq clears_only_append del: mult_minus_right)
qed (simp add: set_flag_def)

lemma raw_field_masks:
  "bit (0x01FFFFFF :: int) i \<longleftrightarrow> i < 25" "bit (0xFE000000 :: int) i \<longleftrightarrow> 25 \<le> i \<and> i < 32"
proof -
  have m: "(0x01FFFFFF :: int) = mask 25" "(0xFE000000 :: int) = push_bit 25 (mask 7)"
    by (simp_all add: mask_eq_exp_minus_1 push_bit_eq_mult)
  show "bit (0x01FFFFFF :: int) i \<longleftrightarrow> i < 25" "bit (0xFE000000 :: int) i \<longleftrightarrow> 25 \<le> i \<and> i < 32"
    unfolding m by (auto simp: bit_simps)
qed

lemmas bit_masks = raw_field_masks bit_field_masks

definition key_word :: "nat \<Rightarrow> nat \<Rightarrow> u32" where
  "key_word name_len n = rk_info (build_key 1 True True True name_len n)"

lemma bit_key_word:
  "bit (key_word nl n) i \<longleftrightarrow> i < 32 \<and> (if i < 25 then bit n i else bit nl (i - 25))"
  by (auto simp: key_word_def build_key_def rk_set_data_size_def rk_set_name_length_def raw_key_new_def
    bit_simps bit_masks)

lemma key_word_0 [simp]: "key_word 0 0 = 0"
  by (rule bit_word_eqI) (simp add: bit_key_word)

lemma build_key_fields [simp]:
  "rk_no_next (build_key w x a u nl n) = set_flag w x" "rk_available (build_key w x a u nl n) = set_flag w a"
  "rk_uninit (build_key w x a u nl n) = set_flag w u" "rk_info (build_key w x a u nl n) = key_word nl n"
  by (simp_all add: key_word_def build_key_def rk_set_data_size_def rk_set_name_length_def raw_key_new_def)

lemma key_word_name:
  assumes "nl < 128" "rk_info k = key_word nl n" shows "rk_name_length k = nl"
proof -
  have "drop_bit 25 (key_word nl n) AND 0x7F = of_nat nl"
  proof (rule bit_word_eqI)
    fix i assume "i < LENGTH(32)"
    have "take_bit 7 nl = nl" using assms(1) by (simp add: take_bit_nat_eq_self)
    then have "bit nl j \<Longrightarrow> j < 7" for j by (metis bit_take_bit_iff)
    then show "bit (drop_bit 25 (key_word nl n) AND 0x7F) i = bit (of_nat nl :: u32) i"
      by (auto simp: bit_simps bit_key_word bit_masks)
  qed
  then show ?thesis using assms by (simp add: rk_name_length_def unat_of_nat_small)
qed

lemma key_word_data:
  assumes "n < 2 ^ 25" "rk_info k = key_word nl n" shows "rk_data_size k = n"
proof -
  have "key_word nl n AND 0x01FFFFFF = of_nat n"
  proof (rule bit_word_eqI)
    fix i assume "i < LENGTH(32)"
    have "take_bit 25 n = n" using assms(1) by (simp add: take_bit_nat_eq_self)
    then have "bit n j \<Longrightarrow> j < 25" for j by (metis bit_take_bit_iff)
    then show "bit (key_word nl n AND 0x01FFFFFF) i = bit (of_nat n :: u32) i"
      by (auto simp: bit_simps bit_key_word bit_masks)
  qed
  then show ?thesis using assms by (simp add: rk_data_size_def unat_of_nat_small)
qed

lemma build_key_lengths [simp]:
  "nl < 128 \<Longrightarrow> rk_name_length (build_key w x a u nl n) = nl"
  "n < 2 ^ 25 \<Longrightarrow> rk_data_size (build_key w x a u nl n) = n"
  by (auto intro: key_word_name key_word_data)

lemma length_key_bytes [simp]: "length (raw_key_bytes (build_key w x a u nl n)) = 3 * w + 4"
  by (simp add: raw_key_bytes_def)

lemma raw_key_of_bytes: "raw_key_of w (raw_key_bytes (build_key w x a u nl n)) = build_key w x a u nl n"
  by (rule raw_key.equality) (simp_all add: raw_key_of_def raw_key_bytes_def le_word_bytes)

text \<open>Rewriting a header can clear its flags.\<close>

lemma clears_key:
  "(x' \<longrightarrow> x) \<Longrightarrow> (a' \<longrightarrow> a) \<Longrightarrow> (u' \<longrightarrow> u) \<Longrightarrow>
   clears_only (raw_key_bytes (build_key w x a u nl n)) (raw_key_bytes (build_key w x' a' u' nl n))"
  by (simp add: raw_key_bytes_def clears_only_append)


section \<open>Geometry\<close>

text \<open>The sizes that the operations need: write units divide the blocks, two blocks fit into the flash and
  a block has room for a first key and the checksum. A device that checks the order of writes by erase
  unit cannot carry the store, and with a threshold of 0 the search would recycle for ever.\<close>

definition raw_geometry :: "raw_db \<Rightarrow> bool" where
  "raw_geometry d \<longleftrightarrow> 0 < rd_unit d \<and> (rd_unit d dvd 4 \<or> 4 \<le> rd_unit d) \<and>
     0 < min_write_size (rd_flash d) \<and> min_write_size (rd_flash d) dvd rd_unit d \<and>
     \<not> write_order_check (rd_flash d) \<and>
     0 < min_erase_size (rd_flash d) \<and> min_erase_size (rd_flash d) dvd rd_block_size d \<and>
     rd_unit d dvd rd_block_size d \<and> 2 * rd_block_size d \<le> flash_size (rd_flash d) \<and>
     raw_first_key d + align_size d (raw_key_size d) + checksum_size d \<le> rd_block_size d \<and>
     0 < rd_threshold d"

definition raw_area :: "raw_db \<Rightarrow> u8 list" where
  "raw_area d = flash_area (rd_flash d)"

definition on_area :: "raw_db \<Rightarrow> u8 list \<Rightarrow> raw_db" where
  "on_area d a = d\<lparr>rd_flash := (rd_flash d)\<lparr>flash_area := a\<rparr>\<rparr>"

lemma on_area_simps [simp]:
  "rd_flash (on_area d a) = (rd_flash d)\<lparr>flash_area := a\<rparr>" "rd_block_size (on_area d a) = rd_block_size d"
  "rd_threshold (on_area d a) = rd_threshold d" "rd_unit (on_area d a) = rd_unit d"
  "rd_debug (on_area d a) = rd_debug d" "rd_signed_char (on_area d a) = rd_signed_char d"
  "on_area (on_area d a) b = on_area d b" "raw_area (on_area d a) = a" "on_area d (raw_area d) = d"
  by (simp_all add: on_area_def raw_area_def)

lemma sizes_on_area [simp]:
  "align_size (on_area d a) = align_size d" "raw_key_size (on_area d a) = raw_key_size d"
  "raw_first_key (on_area d a) = raw_first_key d" "raw_block_offset (on_area d a) = raw_block_offset d"
  "checksum_size (on_area d a) = checksum_size d" "checksum_offset (on_area d a) = checksum_offset d"
  by (auto simp: align_size_def raw_key_size_def raw_first_key_def raw_block_offset_def checksum_size_def
      checksum_offset_def fun_eq_iff)

lemma geometry_on_area [simp]:
  "length a = length (raw_area d) \<Longrightarrow> raw_geometry (on_area d a) = raw_geometry d"
  by (simp add: raw_geometry_def flash_size_def raw_area_def)

lemma unit_pos: "raw_geometry d \<Longrightarrow> 0 < rd_unit d"
  by (simp add: raw_geometry_def)

lemma first_key_unit: "raw_geometry d \<Longrightarrow> rd_unit d dvd raw_first_key d"
  by (auto simp: raw_geometry_def raw_first_key_def max_def dest: dvd_imp_le)

text \<open>Data padded to whole write units.\<close>

definition padded :: "raw_db \<Rightarrow> u8 list \<Rightarrow> u8 list" where
  "padded d bs = bs @ replicate (align_size d (length bs) - length bs) 0xFF"

lemma align_unit [simp]: "rd_unit d dvd align_size d n"
  by (simp add: align_size_def)

lemma align_ge: assumes "raw_geometry d" shows "n \<le> align_size d n"
proof -
  let ?w = "rd_unit d"
  have "(n + ?w - 1) div ?w * ?w + (n + ?w - 1) mod ?w = n + ?w - 1" by (rule div_mult_mod_eq)
  moreover have "(n + ?w - 1) mod ?w < ?w" using unit_pos [OF assms] by simp
  ultimately show ?thesis unfolding align_size_def by linarith
qed

lemma align_split:
  assumes "raw_geometry d"
  shows "align_size d n = (if n mod rd_unit d = 0 then n else n - n mod rd_unit d + rd_unit d)"
proof -
  let ?w = "rd_unit d"
  have w: "0 < ?w" by (rule unit_pos [OF assms])
  have n: "n = n div ?w * ?w + n mod ?w" by simp
  show ?thesis
  proof (cases "n mod ?w = 0")
    case True
    then obtain k where k: "n = k * ?w" by (metis mod_0_imp_dvd dvdE mult.commute)
    have "n + ?w - 1 = ?w - 1 + k * ?w" using k w by simp
    also have "\<dots> div ?w = k + (?w - 1) div ?w" using w by (intro div_mult_self1) simp
    also have "\<dots> = k" using w by simp
    finally show ?thesis using True k by (simp add: align_size_def)
  next
    case False
    have lt: "n mod ?w < ?w" using w by simp
    have "n + ?w - 1 = n mod ?w - 1 + (n div ?w + 1) * ?w"
      using n False w unfolding add_mult_distrib by linarith
    also have "\<dots> div ?w = n div ?w + 1 + (n mod ?w - 1) div ?w" using w by (intro div_mult_self1) simp
    also have "\<dots> = n div ?w + 1" using False lt by simp
    finally have "align_size d n = (n div ?w + 1) * ?w" by (simp add: align_size_def)
    also have "\<dots> = n - n mod ?w + ?w" by (simp add: minus_mod_eq_div_mult)
    finally show ?thesis using False by simp
  qed
qed

lemma align_multiple: "raw_geometry d \<Longrightarrow> rd_unit d dvd n \<Longrightarrow> align_size d n = n"
  by (simp add: align_split dvd_eq_mod_eq_0)

lemma length_padded: "raw_geometry d \<Longrightarrow> length (padded d bs) = align_size d (length bs)"
  using align_ge [of d "length bs"] by (simp add: padded_def)

lemma padded_whole: "raw_geometry d \<Longrightarrow> rd_unit d dvd length bs \<Longrightarrow> padded d bs = bs"
  by (simp add: padded_def align_multiple)

lemma padded_on_area [simp]: "padded (on_area d a) = padded d"
  by (simp add: padded_def fun_eq_iff)


section \<open>Accesses\<close>

lemma raw_read_at:
  "a = pre @ mid @ post \<Longrightarrow> offset = length pre \<Longrightarrow> n = length mid \<Longrightarrow> raw_read (on_area d a) offset n = Some mid"
  by (simp add: raw_read_def flash_read_def flash_size_def)

lemma raw_read_within:
  "a = pre @ mid @ post \<Longrightarrow> i + n \<le> length mid \<Longrightarrow> offset = length pre + i \<Longrightarrow>
   raw_read (on_area d a) offset n = Some (take n (drop i mid))"
  by (simp add: raw_read_def flash_read_def flash_size_def)

lemma raw_flash_write_at:
  assumes g: "raw_geometry d" and a: "a = pre @ mid @ post" "length mid = length bs"
    and unit: "rd_unit d dvd length pre" "rd_unit d dvd length bs" and clear: "clears_only mid bs"
    and off: "offset = length pre"
  shows "raw_flash_write (on_area d a) offset bs = Some (on_area d (pre @ bs @ post))"
proof -
  let ?f = "(rd_flash d)\<lparr>flash_area := a\<rparr>"
  have "min_write_size (rd_flash d) dvd offset" "min_write_size (rd_flash d) dvd length bs"
    using g unit off dvd_trans unfolding raw_geometry_def by blast+
  then have "flash_write ?f offset bs = Some (?f\<lparr>flash_area := blit a offset bs\<rparr>, OK)"
    using g a clear off by (simp add: flash_write_def flash_size_def raw_geometry_def dvd_eq_mod_eq_0)
  moreover have "blit a offset bs = pre @ bs @ post" using a off by (simp add: blit_def)
  ultimately show ?thesis by (simp add: raw_flash_write_def on_area_def)
qed

text \<open>\<open>Write\<close> pads its data.\<close>

lemma raw_write_at:
  assumes g: "raw_geometry d" and a: "a = pre @ mid @ post" "length mid = length (padded d bs)"
    and unit: "rd_unit d dvd length pre" and clear: "clears_only mid (padded d bs)" and off: "offset = length pre"
  shows "raw_write (on_area d a) offset bs = Some (on_area d (pre @ padded d bs @ post))"
proof (cases "length bs mod rd_unit d = 0")
  case True
  then have w: "padded d bs = bs" using g by (simp add: padded_whole dvd_eq_mod_eq_0)
  show ?thesis
  proof (cases "bs = []")
    case False
    have "raw_flash_write (on_area d a) offset bs = Some (on_area d (pre @ bs @ post))"
      using a unit clear off w True by (intro raw_flash_write_at [OF g, where mid = mid]) (auto simp: dvd_eq_mod_eq_0)
    then show ?thesis using True False w by (simp add: raw_write_def)
  qed (use a w in \<open>simp add: raw_write_def\<close>)
next
  case False
  let ?w = "rd_unit d" and ?n = "length bs"
  define k where "k = ?n - ?n mod ?w"
  have w: "0 < ?w" by (rule unit_pos [OF g])
  have kn: "k \<le> ?n" "k + ?n mod ?w = ?n" by (simp_all add: k_def)
  have kw: "?w dvd k" by (simp add: k_def minus_mod_eq_mult_div)
  have al: "align_size d ?n = k + ?w" using False align_split [OF g, of ?n] by (simp add: k_def)
  define x where "x = take k bs"
  define y where "y = blit (replicate ?w 0xFF) 0 (drop k bs)"
  have lt: "?n mod ?w < ?w" using w by simp
  have ly: "length x = k" "length y = ?w" using kn lt by (simp_all add: x_def y_def blit_def)
  have "drop k bs @ replicate (?w - (?n - k)) 0xFF = y" by (simp add: y_def blit_def)
  moreover have "k + ?w - ?n = ?w - (?n - k)" using kn lt by linarith
  moreover have "bs = x @ drop k bs" by (simp add: x_def)
  ultimately have p: "padded d bs = x @ y" unfolding padded_def al by (metis append.assoc)
  define m1 where "m1 = take k mid"
  define m2 where "m2 = drop k mid"
  have m: "mid = m1 @ m2" "length m1 = k" "length m2 = ?w"
    using a(2) p ly by (simp_all add: m1_def m2_def)
  have cl: "clears_only m1 x" "clears_only m2 y" using clear m ly by (auto simp: p clears_only_append)
  have first: "(if k \<noteq> 0 then raw_flash_write (on_area d a) offset x else Some (on_area d a)) =
      Some (on_area d (pre @ x @ m2 @ post))"
  proof (cases "k = 0")
    case False
    have "raw_flash_write (on_area d a) offset x = Some (on_area d (pre @ x @ m2 @ post))"
      using a m ly cl unit kw off by (intro raw_flash_write_at [OF g, where mid = m1]) auto
    then show ?thesis using False by simp
  qed (use a m ly in simp)
  have "raw_flash_write (on_area d (pre @ x @ m2 @ post)) (offset + k) y =
      Some (on_area d ((pre @ x) @ y @ post))"
    using m ly cl unit kw off by (intro raw_flash_write_at [OF g, where mid = m2]) auto
  then show ?thesis
    using False first by (simp add: raw_write_def Let_def p flip: k_def x_def y_def) (auto split: if_splits)
qed

lemma raw_write_piece:
  "P = padded d bs \<Longrightarrow> raw_geometry d \<Longrightarrow> a = pre @ mid @ post \<Longrightarrow> length mid = length P \<Longrightarrow>
   rd_unit d dvd length pre \<Longrightarrow> clears_only mid P \<Longrightarrow> offset = length pre \<Longrightarrow>
   raw_write (on_area d a) offset bs = Some (on_area d (pre @ P @ post))"
  using raw_write_at by simp

lemma raw_erase_at:
  assumes "raw_geometry d" "a = pre @ mid @ post" "length mid = rd_block_size d" "offset = length pre"
    "offset = 0 \<or> offset = rd_block_size d"
  shows "raw_erase (on_area d a) offset (rd_block_size d) = Some (on_area d (pre @ replicate (rd_block_size d) 0xFF @ post))"
proof -
  let ?f = "(rd_flash d)\<lparr>flash_area := a\<rparr>"
  have "flash_erase ?f offset (rd_block_size d) =
      Some (?f\<lparr>flash_area := blit a offset (replicate (rd_block_size d) 0xFF)\<rparr>, OK)"
    using assms by (subst flash_erase_eq) (auto simp: raw_geometry_def flash_size_def dvd_eq_mod_eq_0)
  moreover have "blit a offset (replicate (rd_block_size d) 0xFF) = pre @ replicate (rd_block_size d) 0xFF @ post"
    using assms by (simp add: blit_def)
  ultimately show ?thesis by (simp add: raw_erase_def on_area_def)
qed

text \<open>Copying whole units to a place before or behind the source.\<close>

lemma copy_units_back:
  assumes g: "raw_geometry d"
  shows "a = p @ x @ q @ y @ r \<Longrightarrow> length x = k * rd_unit d \<Longrightarrow> length y = k * rd_unit d \<Longrightarrow>
    rd_unit d dvd length p \<Longrightarrow> clears_only x y \<Longrightarrow> dst = length p \<Longrightarrow> src = length p + length x + length q \<Longrightarrow>
    copy_units (on_area d a) dst src k = Some (on_area d (p @ y @ q @ y @ r))"
proof (induction k arbitrary: a p x q y dst src)
  case (Suc k)
  let ?w = "rd_unit d"
  obtain x1 x2 where x: "x = x1 @ x2" "length x1 = ?w" "length x2 = k * ?w"
    using Suc.prems(2) that [of "take ?w x" "drop ?w x"] by simp
  obtain y1 y2 where y: "y = y1 @ y2" "length y1 = ?w" "length y2 = k * ?w"
    using Suc.prems(3) that [of "take ?w y" "drop ?w y"] by simp
  have cl: "clears_only x1 y1" "clears_only x2 y2" using Suc.prems(5) x y by (auto simp: clears_only_append)
  have rd: "raw_read (on_area d a) src ?w = Some y1"
    using Suc.prems x y by (intro raw_read_at [where pre = "p @ x @ q" and post = "y2 @ r"]) auto
  have wr: "raw_flash_write (on_area d a) dst y1 = Some (on_area d (p @ y1 @ x2 @ q @ y @ r))"
    using Suc.prems x y cl by (intro raw_flash_write_at [OF g, where mid = x1]) auto
  have "copy_units (on_area d (p @ y1 @ x2 @ q @ y @ r)) (dst + ?w) (src + ?w) k =
      Some (on_area d ((p @ y1) @ y2 @ (q @ y1) @ y2 @ r))"
    using Suc.prems x y cl by (intro Suc.IH) auto
  then show ?case using rd wr y by simp
qed simp

lemma copy_units_forth:
  assumes g: "raw_geometry d"
  shows "a = p @ y @ q @ x @ r \<Longrightarrow> length x = k * rd_unit d \<Longrightarrow> length y = k * rd_unit d \<Longrightarrow>
    rd_unit d dvd length p \<Longrightarrow> rd_unit d dvd length q \<Longrightarrow> clears_only x y \<Longrightarrow>
    src = length p \<Longrightarrow> dst = length p + length y + length q \<Longrightarrow>
    copy_units (on_area d a) dst src k = Some (on_area d (p @ y @ q @ y @ r))"
proof (induction k arbitrary: a p x q y dst src)
  case (Suc k)
  let ?w = "rd_unit d"
  obtain x1 x2 where x: "x = x1 @ x2" "length x1 = ?w" "length x2 = k * ?w"
    using Suc.prems(2) that [of "take ?w x" "drop ?w x"] by simp
  obtain y1 y2 where y: "y = y1 @ y2" "length y1 = ?w" "length y2 = k * ?w"
    using Suc.prems(3) that [of "take ?w y" "drop ?w y"] by simp
  have cl: "clears_only x1 y1" "clears_only x2 y2" using Suc.prems(6) x y by (auto simp: clears_only_append)
  have rd: "raw_read (on_area d a) src ?w = Some y1"
    using Suc.prems x y by (intro raw_read_at [where pre = p and post = "y2 @ q @ x @ r"]) auto
  have wr: "raw_flash_write (on_area d a) dst y1 = Some (on_area d ((p @ y @ q) @ y1 @ x2 @ r))"
    using Suc.prems x y cl by (intro raw_flash_write_at [OF g, where mid = x1]) auto
  have "copy_units (on_area d ((p @ y @ q) @ y1 @ x2 @ r)) (dst + ?w) (src + ?w) k =
      Some (on_area d ((p @ y1) @ y2 @ (q @ y1) @ y2 @ r))"
    using Suc.prems x y cl by (intro Suc.IH) auto
  then show ?case using rd wr y by simp
qed simp


text \<open>\<open>CopyFlashData\<close> of data that starts a padded piece \<open>y\<close>.\<close>

lemma align_units: "raw_geometry d \<Longrightarrow> length y = align_size d n \<Longrightarrow>
    length y = (n + rd_unit d - 1) div rd_unit d * rd_unit d"
  by (simp add: align_size_def)

lemma copy_back:
  assumes "raw_geometry d" "a = p @ x @ q @ y @ r" "length x = align_size d n" "length y = align_size d n"
    "rd_unit d dvd length p" "clears_only x y" "dst = length p" "src = length p + length x + length q"
  shows "copy_flash_data (on_area d a) dst src n = Some (on_area d (p @ y @ q @ y @ r))"
proof -
  note l = align_units [OF assms(1,3)] align_units [OF assms(1,4)]
  show ?thesis using copy_units_back [OF assms(1,2) l assms(5-8)] by (simp add: copy_flash_data_def)
qed

lemma copy_forth:
  assumes "raw_geometry d" "a = p @ y @ q @ x @ r" "length x = align_size d n" "length y = align_size d n"
    "rd_unit d dvd length p" "rd_unit d dvd length q" "clears_only x y" "src = length p"
    "dst = length p + length y + length q"
  shows "copy_flash_data (on_area d a) dst src n = Some (on_area d (p @ y @ q @ y @ r))"
proof -
  show ?thesis
    using copy_units_forth [OF assms(1,2) align_units [OF assms(1,3)] align_units [OF assms(1,4)] assms(5-9)]
    by (simp add: copy_flash_data_def)
qed

section \<open>Keys in the flash\<close>

definition key_img :: "raw_db \<Rightarrow> bool \<Rightarrow> bool \<Rightarrow> bool \<Rightarrow> nat \<Rightarrow> nat \<Rightarrow> u8 list" where
  "key_img d x a u nl n = padded d (raw_key_bytes (build_key (rd_unit d) x a u nl n))"

lemma length_key_img [simp]: "raw_geometry d \<Longrightarrow> length (key_img d x a u nl n) = align_size d (raw_key_size d)"
  by (simp add: key_img_def length_padded raw_key_size_def)

lemma key_img_on_area [simp]: "key_img (on_area d b) = key_img d"
  by (simp add: key_img_def fun_eq_iff)

lemma clears_key_img:
  "(x' \<longrightarrow> x) \<Longrightarrow> (a' \<longrightarrow> a) \<Longrightarrow> (u' \<longrightarrow> u) \<Longrightarrow> clears_only (key_img d x a u nl n) (key_img d x' a' u' nl n)"
  by (simp add: key_img_def padded_def clears_only_append clears_key)

lemma raw_read_key_at:
  assumes "raw_geometry d" "b = pre @ key_img d x a u nl n @ post" "offset = length pre"
  shows "raw_read_key (on_area d b) offset = Some (build_key (rd_unit d) x a u nl n)"
proof -
  have "raw_read (on_area d b) offset (raw_key_size d) =
      Some (raw_key_bytes (build_key (rd_unit d) x a u nl n))"
    using assms by (intro raw_read_at [where pre = pre]) (auto simp: key_img_def padded_def raw_key_size_def)
  then show ?thesis by (simp add: raw_read_key_def raw_key_of_bytes)
qed

text \<open>An entry of the store: whether it is live, its name without the NUL, its data.\<close>

record raw_entry =
  re_live :: bool
  re_name :: "u8 list"
  re_data :: "u8 list"

definition raw_entry_ok :: "raw_entry \<Rightarrow> bool" where
  "raw_entry_ok e \<longleftrightarrow> length (re_name e) + 1 < 128 \<and> 0 \<notin> set (re_name e) \<and> length (re_data e) < 2 ^ 25"

definition body_img :: "raw_db \<Rightarrow> raw_entry \<Rightarrow> u8 list" where
  "body_img d e = padded d (re_name e @ [0]) @ padded d (re_data e)"

definition rec_img :: "raw_db \<Rightarrow> bool \<Rightarrow> raw_entry \<Rightarrow> u8 list" where
  "rec_img d x e = key_img d x (re_live e) False (length (re_name e) + 1) (length (re_data e)) @ body_img d e"

fun recs_img :: "raw_db \<Rightarrow> raw_entry list \<Rightarrow> u8 list" where
  "recs_img d [] = []"
| "recs_img d (e # es) = rec_img d (es = []) e @ recs_img d es"

definition rec_size :: "raw_db \<Rightarrow> raw_entry \<Rightarrow> nat" where
  "rec_size d e = align_size d (raw_key_size d) + align_size d (length (re_name e) + 1) +
     align_size d (length (re_data e))"

definition recs_size :: "raw_db \<Rightarrow> raw_entry list \<Rightarrow> nat" where
  "recs_size d es = sum_list (map (rec_size d) es)"

lemma recs_size_simps [simp]:
  "recs_size d [] = 0" "recs_size d (e # es) = rec_size d e + recs_size d es"
  "recs_size d (es @ fs) = recs_size d es + recs_size d fs"
  by (simp_all add: recs_size_def)

lemma length_body_img: "raw_geometry d \<Longrightarrow>
    length (body_img d e) = align_size d (length (re_name e) + 1) + align_size d (length (re_data e))"
  by (simp add: body_img_def length_padded)

lemma length_rec_img [simp]: "raw_geometry d \<Longrightarrow> length (rec_img d x e) = rec_size d e"
  by (simp add: rec_img_def rec_size_def length_body_img)

lemma length_recs_img [simp]: "raw_geometry d \<Longrightarrow> length (recs_img d es) = recs_size d es"
  by (induction es) simp_all

lemma rec_size_unit [simp]: "rd_unit d dvd rec_size d e"
  by (simp add: rec_size_def)

lemma recs_size_unit [simp]: "rd_unit d dvd recs_size d es"
  by (induction es) simp_all

lemma imgs_on_area [simp]:
  "body_img (on_area d a) = body_img d" "rec_img (on_area d a) = rec_img d" "rec_size (on_area d a) = rec_size d"
  by (simp_all add: body_img_def rec_img_def rec_size_def fun_eq_iff)

lemma recs_size_on_area [simp]: "recs_size (on_area d a) = recs_size d"
  by (simp add: recs_size_def fun_eq_iff)

lemma recs_img_on_area [simp]: "recs_img (on_area d a) es = recs_img d es"
  by (induction es) simp_all

text \<open>All but the last record of an image say that another follows.\<close>

definition inner_img :: "raw_db \<Rightarrow> raw_entry list \<Rightarrow> u8 list" where
  "inner_img d es = concat (map (rec_img d False) es)"

lemma recs_img_append: "fs \<noteq> [] \<Longrightarrow> recs_img d (es @ fs) = inner_img d es @ recs_img d fs"
  by (induction es) (auto simp: inner_img_def)

lemma length_inner_img [simp]: "raw_geometry d \<Longrightarrow> length (inner_img d es) = recs_size d es"
  by (induction es) (simp_all add: inner_img_def)

section \<open>Walking the image\<close>

lemma raw_steps:
  assumes g: "raw_geometry d" and ok: "raw_entry_ok e" and a: "a = pre @ rec_img d x e @ post"
    and off: "offset = length pre"
  shows "raw_read_key (on_area d a) offset =
      Some (build_key (rd_unit d) x (re_live e) False (length (re_name e) + 1) (length (re_data e)))"
    and "raw_next_key (on_area d a) offset = Some (offset + rec_size d e)"
    and "raw_key_length (on_area d a) offset = Some (rec_size d e)"
    and "raw_data_offset (on_area d a) offset =
      Some (offset + align_size d (raw_key_size d) + align_size d (length (re_name e) + 1))"
proof -
  show k: "raw_read_key (on_area d a) offset =
      Some (build_key (rd_unit d) x (re_live e) False (length (re_name e) + 1) (length (re_data e)))"
    using a off by (intro raw_read_key_at [OF g]) (auto simp: rec_img_def)
  show n: "raw_key_length (on_area d a) offset = Some (rec_size d e)"
    using k ok by (simp add: raw_key_length_def raw_entry_ok_def rec_size_def)
  then show "raw_next_key (on_area d a) offset = Some (offset + rec_size d e)"
    by (simp add: raw_next_key_def)
  show "raw_data_offset (on_area d a) offset =
      Some (offset + align_size d (raw_key_size d) + align_size d (length (re_name e) + 1))"
    using k ok by (simp add: raw_data_offset_def raw_entry_ok_def)
qed

end
