(* ===== verification/Raw_Recycle.thy ===== *)
theory Raw_Recycle
  imports Raw_Image
begin

text \<open>
  A block of \<open>DatabaseRaw\<close> that holds a list of entries (\<open>main_img\<close>), the walks over its keys and
  \<open>Recycle\<close>: it leaves the live entries, in their order, and an empty second block.
\<close>

section \<open>The image of a block\<close>

definition header_img :: "raw_db \<Rightarrow> u8 list" where
  "header_img d = blit (replicate (raw_first_key d) 0xFF) 0 (word_bytes 4 FLASH_HEADER)"

text \<open>The first key holds no data; it is dead and points to a successor when there are entries.\<close>

definition first_img :: "raw_db \<Rightarrow> bool \<Rightarrow> u8 list" where
  "first_img d none = key_img d none none False 0 0"

definition checksum_img :: "raw_db \<Rightarrow> u8 list" where
  "checksum_img d = padded d (word_bytes 4 RAW_CHECKSUM)"

definition raw_capacity :: "raw_db \<Rightarrow> nat" where
  "raw_capacity d = checksum_offset d - raw_first_key d - align_size d (raw_key_size d)"

abbreviation erased :: "nat \<Rightarrow> u8 list" where
  "erased n \<equiv> replicate n 0xFF"

definition main_img :: "raw_db \<Rightarrow> raw_entry list \<Rightarrow> u8 list" where
  "main_img d es = header_img d @ first_img d (es = []) @ recs_img d es @
     erased (raw_capacity d - recs_size d es) @ checksum_img d"

lemma length_header_img [simp]: "length (header_img d) = raw_first_key d"
  by (simp add: header_img_def raw_first_key_def)

lemma length_first_img [simp]: "raw_geometry d \<Longrightarrow> length (first_img d b) = align_size d (raw_key_size d)"
  by (simp add: first_img_def)

lemma length_checksum_img [simp]: "raw_geometry d \<Longrightarrow> length (checksum_img d) = checksum_size d"
  by (simp add: checksum_img_def length_padded checksum_size_def)

lemma block_parts: "raw_geometry d \<Longrightarrow>
    raw_first_key d + align_size d (raw_key_size d) + raw_capacity d = checksum_offset d"
    "raw_geometry d \<Longrightarrow> checksum_offset d + checksum_size d = rd_block_size d"
  by (simp_all add: raw_capacity_def checksum_offset_def raw_geometry_def)

lemma length_main_img [simp]:
  "raw_geometry d \<Longrightarrow> recs_size d es \<le> raw_capacity d \<Longrightarrow> length (main_img d es) = rd_block_size d"
  using block_parts [of d] by (simp add: main_img_def)

lemma block_imgs_on_area [simp]:
  "header_img (on_area d a) = header_img d" "first_img (on_area d a) = first_img d"
  "checksum_img (on_area d a) = checksum_img d" "raw_capacity (on_area d a) = raw_capacity d"
  by (simp_all add: header_img_def first_img_def checksum_img_def raw_capacity_def fun_eq_iff)

lemma main_img_on_area [simp]: "main_img (on_area d a) = main_img d"
  by (simp add: main_img_def fun_eq_iff)

lemma unit_dvd:
  assumes "raw_geometry d"
  shows "rd_unit d dvd checksum_size d" "rd_unit d dvd rd_block_size d" "rd_unit d dvd checksum_offset d"
    "rd_unit d dvd raw_capacity d"
proof -
  show 1: "rd_unit d dvd checksum_size d" "rd_unit d dvd rd_block_size d"
    using assms by (simp_all add: checksum_size_def raw_geometry_def)
  show "rd_unit d dvd checksum_offset d" unfolding checksum_offset_def using 1 by (rule dvd_diff_nat [rotated])
  then show "rd_unit d dvd raw_capacity d"
    unfolding raw_capacity_def using first_key_unit [OF assms] by (intro dvd_diff_nat) simp_all
qed

lemma checksum_size_ge: "raw_geometry d \<Longrightarrow> 4 \<le> checksum_size d"
  using align_ge [of d 4] by (simp add: checksum_size_def)

text \<open>The code's image of a header and a first key.\<close>

lemma padded_info:
  assumes "raw_geometry d"
  shows "padded d (info_bytes d (build_key (rd_unit d) x a u nl n)) = header_img d @ key_img d x a u nl n"
proof -
  let ?k = "raw_key_bytes (build_key (rd_unit d) x a u nl n)"
  have "(raw_first_key d + length ?k) mod rd_unit d = length ?k mod rd_unit d"
    using first_key_unit [OF assms] by (auto elim!: dvdE)
  then have "align_size d (raw_first_key d + length ?k) = raw_first_key d + align_size d (length ?k)"
    using assms mod_less_eq_dividend [of "length ?k" "rd_unit d"] by (auto simp: align_split)
  then show ?thesis by (simp add: padded_def info_bytes_def key_img_def flip: header_img_def)
qed


section \<open>Tests of a block\<close>

lemma info_at:
  assumes g: "raw_geometry d" and a: "a = pre @ header_img d @ key_img d x av u nl n @ post"
    and off: "raw_block_offset d b = length pre"
  shows "raw_is_inited (on_area d a) b = Some True" "raw_is_empty (on_area d a) b = Some av"
proof -
  let ?k = "raw_key_bytes (build_key (rd_unit d) x av u nl n)"
  have "raw_info (on_area d a) b = Some (header_img d @ ?k)"
    using a off unfolding raw_info_def sizes_on_area
    by (intro raw_read_at [where pre = pre]) (auto simp: key_img_def padded_def raw_key_size_def)
  moreover have "take 4 (header_img d @ ?k) = word_bytes 4 FLASH_HEADER"
    by (simp add: header_img_def blit_def raw_first_key_def)
  ultimately show "raw_is_inited (on_area d a) b = Some True" "raw_is_empty (on_area d a) b = Some av"
    using unit_pos [OF g]
    by (simp_all add: raw_is_inited_def raw_is_empty_def le_word_bytes raw_key_of_bytes)
qed

lemma error_at:
  assumes "raw_geometry d" "a = pre @ m @ checksum_img d @ post" "length m = checksum_offset d"
    "raw_block_offset d b = length pre"
  shows "raw_is_error (on_area d a) b = Some False"
proof -
  have "raw_read (on_area d a) (raw_block_offset d b + checksum_offset d) 4 = Some (word_bytes 4 RAW_CHECKSUM)"
    using assms by (intro raw_read_at [where pre = "pre @ m"]) (auto simp: checksum_img_def padded_def)
  then show ?thesis by (simp add: raw_is_error_def le_word_bytes)
qed

text \<open>The state of the tests on a block with entries.\<close>

lemma main_tests:
  assumes g: "raw_geometry d" and fit: "recs_size d es \<le> raw_capacity d" and a: "a = pre @ main_img d es @ post"
    and off: "raw_block_offset d b = length pre"
  shows "raw_is_empty (on_area d a) b = Some (es = [])" "raw_is_valid (on_area d a) b = Some True"
proof -
  have "a = pre @ header_img d @ key_img d (es = []) (es = []) False 0 0 @ recs_img d es @
      erased (raw_capacity d - recs_size d es) @ checksum_img d @ post"
    using a by (simp add: main_img_def first_img_def)
  note i = info_at [OF g this off]
  show "raw_is_empty (on_area d a) b = Some (es = [])" by (rule i(2))
  have "raw_is_error (on_area d a) b = Some False"
    using a fit block_parts [OF g] g off
    by (intro error_at [OF g, where m = "header_img d @ first_img d (es = []) @ recs_img d es @
        erased (raw_capacity d - recs_size d es)" and pre = pre]) (auto simp: main_img_def)
  then show "raw_is_valid (on_area d a) b = Some True" using i by (simp add: raw_is_valid_def)
qed

text \<open>\<open>InitBlock\<close> leaves the image without entries.\<close>

lemma raw_init_block_at:
  assumes g: "raw_geometry d" and a: "a = pre @ mid @ post" "length mid = rd_block_size d"
    and off: "raw_block_offset d b = length pre"
  shows "raw_init_block (on_area d a) b = Some (on_area d (pre @ main_img d [] @ post))"
proof -
  let ?k = "key_img d True True False 0 0" and ?c = "raw_capacity d"
  have bs: "rd_block_size d = raw_first_key d + align_size d (raw_key_size d) + ?c + checksum_size d"
    using block_parts [OF g] by simp
  have pre: "rd_unit d dvd length pre" "length pre = 0 \<or> length pre = rd_block_size d"
    using off unit_dvd(2) [OF g] by (auto simp: raw_block_offset_def split: if_splits)
  have cs: "checksum_offset d = length (header_img d @ ?k) + ?c" using block_parts(1) [OF g] g by simp
  define r where "r = length (header_img d @ ?k)"
  have r: "rd_block_size d = r + (?c + checksum_size d)" using bs g by (simp add: r_def)
  have lr: "raw_first_key d + align_size d (raw_key_size d) = r" using g by (simp add: r_def)
  have 1: "raw_erase (on_area d a) (length pre) (rd_block_size d) =
      Some (on_area d (pre @ erased (rd_block_size d) @ post))"
    using a pre by (intro raw_erase_at [OF g]) auto
  have 2: "raw_write (on_area d (pre @ erased (rd_block_size d) @ post)) (length pre)
      (info_bytes d (build_key (rd_unit d) True True False 0 0)) =
      Some (on_area d (pre @ (header_img d @ ?k) @ erased (?c + checksum_size d) @ post))"
    using pre(1) unfolding padded_info [OF g, symmetric]
    by (intro raw_write_at [OF g, where mid = "erased r"])
      (simp_all add: padded_info [OF g] lr r clears_only_erased replicate_add g)
  have "rd_unit d dvd length pre + checksum_offset d" using pre(1) unit_dvd [OF g] by simp
  then have 3: "raw_write (on_area d (pre @ (header_img d @ ?k) @ erased (?c + checksum_size d) @ post))
      (length pre + checksum_offset d) (word_bytes 4 RAW_CHECKSUM) =
      Some (on_area d ((pre @ (header_img d @ ?k) @ erased ?c) @ checksum_img d @ post))"
    unfolding checksum_img_def
    by (intro raw_write_at [OF g, where mid = "erased (checksum_size d)"])
      (auto simp: clears_only_erased replicate_add length_padded g checksum_size_def cs add.assoc)
  have [simp]: "info_bytes (on_area d b) = info_bytes d" for b by (simp add: info_bytes_def fun_eq_iff)
  show ?thesis using 1 2 3 off by (simp add: raw_init_block_def main_img_def first_img_def)
qed


section \<open>Walks over the entries\<close>

lemma first_steps:
  assumes "raw_geometry d" "a = pre @ first_img d b @ post" "offset = length pre"
  shows "raw_read_key (on_area d a) offset = Some (build_key (rd_unit d) b b False 0 0)"
    and "raw_key_length (on_area d a) offset = Some (align_size d (raw_key_size d))"
    and "raw_next_key (on_area d a) offset = Some (offset + align_size d (raw_key_size d))"
proof -
  show k: "raw_read_key (on_area d a) offset = Some (build_key (rd_unit d) b b False 0 0)"
    using assms by (intro raw_read_key_at) (auto simp: first_img_def)
  have "align_size d 0 = 0" using align_multiple [OF assms(1), of 0] by simp
  then show "raw_key_length (on_area d a) offset = Some (align_size d (raw_key_size d))"
    "raw_next_key (on_area d a) offset = Some (offset + align_size d (raw_key_size d))"
    using k by (simp_all add: raw_key_length_def raw_next_key_def)
qed

lemma last_key_loop_at:
  assumes "raw_geometry d" "a = pre @ recs_img d (es @ [e]) @ post" "\<forall>x \<in> set (es @ [e]). raw_entry_ok x"
  shows "raw_last_key_loop (on_area d a) (length pre) = Some (length pre + recs_size d es)"
  using assms
proof (induction es arbitrary: pre)
  case Nil
  then show ?case using raw_steps(1) [of d e a pre True post] unit_pos [of d]
    by (subst raw_last_key_loop.simps) simp
next
  case (Cons x es)
  have a: "a = pre @ rec_img d False x @ recs_img d (es @ [e]) @ post" "raw_entry_ok x"
    using Cons.prems by simp_all
  have "raw_last_key_loop (on_area d a) (length (pre @ rec_img d False x)) =
      Some (length (pre @ rec_img d False x) + recs_size d es)"
    using a Cons.prems by (intro Cons.IH) simp_all
  then show ?case using raw_steps [OF Cons.prems(1) a(2,1) refl] unit_pos [OF Cons.prems(1)] Cons.prems(1)
    by (subst raw_last_key_loop.simps) (simp add: add.assoc)
qed

definition first_entry :: "raw_db \<Rightarrow> nat" where
  "first_entry d = raw_first_key d + align_size d (raw_key_size d)"

text \<open>A block with entries, of which some bytes of the free space may be in use.\<close>

lemma last_and_used_at:
  assumes g: "raw_geometry d" and ok: "\<forall>x \<in> set es. raw_entry_ok x"
    and a: "a = header_img d @ first_img d (es = []) @ recs_img d es @ post"
  shows "raw_last_key (on_area d a) MAIN = Some (if es = [] then 0 else first_entry d + recs_size d (butlast es))"
    and "raw_used_size (on_area d a) MAIN = Some (first_entry d + recs_size d es)"
proof -
  have a0: "a = [] @ header_img d @ key_img d (es = []) (es = []) False 0 0 @ recs_img d es @ post"
    and a1: "a = header_img d @ first_img d (es = []) @ recs_img d es @ post"
    using a by (simp_all add: first_img_def)
  have off: "raw_block_offset d MAIN = 0" by (simp add: raw_block_offset_def)
  note i = info_at(2) [OF g a0, of MAIN]
  note f = first_steps [OF g a1]
  have w: "0 < rd_unit d" by (rule unit_pos [OF g])
  show l: "raw_last_key (on_area d a) MAIN = Some (if es = [] then 0 else first_entry d + recs_size d (butlast es))"
  proof (cases es rule: rev_cases)
    case Nil
    then show ?thesis using i off by (simp add: raw_last_key_def)
  next
    case (snoc fs e)
    have "raw_last_key_loop (on_area d a) (length (header_img d @ first_img d (es = []))) =
        Some (length (header_img d @ first_img d (es = [])) + recs_size d fs)"
      using a ok snoc by (intro last_key_loop_at [OF g, where e = e and post = post]) auto
    then have "raw_last_key_loop (on_area d a) (raw_first_key d) = Some (first_entry d + recs_size d fs)"
      using f snoc w g by (subst raw_last_key_loop.simps) (simp add: first_entry_def)
    then show ?thesis using i off snoc by (simp add: raw_last_key_def)
  qed
  show "raw_used_size (on_area d a) MAIN = Some (first_entry d + recs_size d es)"
  proof (cases es rule: rev_cases)
    case Nil
    then show ?thesis using i off f by (simp add: raw_used_size_def first_entry_def)
  next
    case (snoc fs e)
    have "a = (header_img d @ first_img d False @ inner_img d fs) @ rec_img d True e @ post"
      using a snoc by (simp add: recs_img_append)
    from raw_steps(2) [OF g _ this refl] ok snoc
    have "raw_next_key (on_area d a) (first_entry d + recs_size d fs) =
        Some (first_entry d + recs_size d fs + rec_size d e)"
      using g by (simp add: first_entry_def add.assoc)
    then show ?thesis using i off l snoc by (simp add: raw_used_size_def)
  qed
qed


section \<open>\<open>Recycle\<close>\<close>

text \<open>The body of the loop, from the key it looks at.\<close>

definition copy_live :: "raw_db \<Rightarrow> nat \<Rightarrow> nat \<Rightarrow> raw_key \<Rightarrow> (raw_db \<times> nat) option" where
  "copy_live d offset wr key = do {
     d2 \<leftarrow> raw_write d wr (raw_key_bytes key);
     let wr2 = wr + align_size d2 (raw_key_size d2);
     d3 \<leftarrow> copy_flash_data d2 wr2 (raw_name_offset d2 offset) (rk_name_length key);
     let wr3 = wr2 + align_size d3 (rk_name_length key);
     data_offset \<leftarrow> raw_data_offset d3 offset;
     d4 \<leftarrow> copy_flash_data d3 wr3 data_offset (rk_data_size key);
     Some (d4, wr3 + align_size d4 (rk_data_size key))
   }"

lemma recycle_loop_step:
  assumes "raw_next_key d koff = Some offset" "raw_read_key d offset = Some key"
  shows "recycle_loop d koff wr =
    ((if \<not> read_flag (rk_available key) then Some (d, wr) else copy_live d offset wr key) \<bind>
      (\<lambda>(d1, wr1). if read_flag (rk_no_next key) then Some (d1, wr1) else recycle_loop d1 offset wr1))"
  using assms by (subst recycle_loop.simps) (simp add: copy_live_def Let_def)

lemma copy_live_at:
  assumes g: "raw_geometry d" and ok: "raw_entry_ok e" "re_live e"
    and a: "a = pre @ rec_img d x e @ mid @ erased (rec_size d e + k) @ post"
    and unit: "rd_unit d dvd length pre" "rd_unit d dvd length mid"
    and wr: "wr = length pre + rec_size d e + length mid"
  shows "copy_live (on_area d a) (length pre) wr
      (build_key (rd_unit d) x True False (length (re_name e) + 1) (length (re_data e))) =
    Some (on_area d (pre @ rec_img d x e @ mid @ rec_img d x e @ erased k @ post), wr + rec_size d e)"
proof -
  define ks nl dl where "ks = align_size d (raw_key_size d)" and "nl = align_size d (Suc (length (re_name e)))"
    and "dl = align_size d (length (re_data e))"
  define K N D where "K = key_img d x True False (length (re_name e) + 1) (length (re_data e))"
    and "N = padded d (re_name e @ [0])" and "D = padded d (re_data e)"
  have Kp: "K = padded d (raw_key_bytes (build_key (rd_unit d) x True False (length (re_name e) + 1) (length (re_data e))))"
    by (simp add: K_def key_img_def)
  have len: "length K = ks" "length N = nl" "length D = dl" "rec_size d e = ks + nl + dl"
    using g by (simp_all add: K_def N_def D_def ks_def nl_def dl_def length_padded rec_size_def)
  have img: "rec_img d x e = K @ N @ D" using ok by (simp add: rec_img_def body_img_def K_def N_def D_def)
  have dv: "rd_unit d dvd ks" "rd_unit d dvd nl" "rd_unit d dvd dl" by (simp_all add: ks_def nl_def dl_def)
  let ?key = "build_key (rd_unit d) x True False (length (re_name e) + 1) (length (re_data e))"
  have a': "a = (pre @ (K @ N @ D) @ mid) @ erased ks @ erased (nl + dl + k) @ post"
    using a img len by (simp add: replicate_add)
  have 1: "raw_write (on_area d a) wr (raw_key_bytes ?key) =
      Some (on_area d ((pre @ (K @ N @ D) @ mid) @ K @ erased (nl + dl + k) @ post))"
    using a' unit dv wr len
    by (intro raw_write_piece [OF Kp g, where mid = "erased ks"]) (simp_all add: clears_only_erased)
  have 2: "copy_flash_data (on_area d ((pre @ (K @ N @ D) @ mid) @ K @ erased (nl + dl + k) @ post))
      (wr + ks) (length pre + ks) (length (re_name e) + 1) =
      Some (on_area d ((pre @ K) @ N @ (D @ mid @ K) @ N @ erased (dl + k) @ post))"
    using unit dv len wr
    by (intro copy_forth [OF g, where x = "erased nl"])
      (auto simp: replicate_add clears_only_erased nl_def)
  have 3: "raw_data_offset (on_area d ((pre @ K) @ N @ (D @ mid @ K) @ N @ erased (dl + k) @ post)) (length pre) =
      Some (length pre + ks + nl)"
    unfolding ks_def nl_def Suc_eq_plus1
    by (rule raw_steps(4) [OF g ok(1), where x = x and pre = pre]) (simp_all add: img)
  have 4: "copy_flash_data (on_area d ((pre @ K) @ N @ (D @ mid @ K) @ N @ erased (dl + k) @ post))
      (wr + ks + nl) (length pre + ks + nl) (length (re_data e)) =
      Some (on_area d ((pre @ K @ N) @ D @ (mid @ K @ N) @ D @ erased k @ post))"
    using unit dv len wr
    by (intro copy_forth [OF g, where x = "erased dl"])
      (auto simp: replicate_add clears_only_erased dl_def)
  have "length (re_name e) + 1 < 128" "length (re_data e) < 2 ^ 25" using ok by (simp_all add: raw_entry_ok_def)
  note lens = build_key_lengths(1) [OF this(1)] build_key_lengths(2) [OF this(2)]
  show ?thesis
    unfolding copy_live_def Let_def lens
    using 1 2 3 4 lens len img by (simp add: raw_name_offset_def add.assoc flip: ks_def nl_def dl_def)
qed


lemma recycle_loop_at:
  assumes "raw_geometry d" "es \<noteq> []" "re_live (last es)" "\<forall>x \<in> set es. raw_entry_ok x"
    "a = pre @ recs_img d es @ mid @ erased (recs_size d (filter re_live es) + k) @ post"
    "rd_unit d dvd length pre" "rd_unit d dvd length mid"
    "wr = length pre + recs_size d es + length mid" "raw_next_key (on_area d a) koff = Some (length pre)"
  shows "recycle_loop (on_area d a) koff wr =
    Some (on_area d (pre @ recs_img d es @ mid @ recs_img d (filter re_live es) @ erased k @ post),
      wr + recs_size d (filter re_live es))"
  using assms
proof (induction es arbitrary: a pre mid koff wr)
  case (Cons e es)
  note g = Cons.prems(1) and a = Cons.prems(5) and wr = Cons.prems(8)
  have ok: "raw_entry_ok e" using Cons.prems by simp
  define x where "x = (es = [])"
  let ?key = "build_key (rd_unit d) x (re_live e) False (length (re_name e) + 1) (length (re_data e))"
  let ?live = "filter re_live es"
  have w: "0 < rd_unit d" by (rule unit_pos [OF g])
  have a1: "a = pre @ rec_img d x e @ (recs_img d es @ mid @ erased (recs_size d (filter re_live (e # es)) + k) @ post)"
    using a by (simp add: x_def)
  note st = raw_steps [OF g ok a1 refl]
  note step = recycle_loop_step [OF Cons.prems(9) st(1), of wr]
  have ne: "?live \<noteq> []" if "\<not> x" using that Cons.prems(3) by (auto simp: x_def filter_empty_conv)
  show ?case
  proof (cases "re_live e")
    case False
    then have x: "\<not> x" using Cons.prems(3) by (auto simp: x_def)
    have "recycle_loop (on_area d a) (length pre) wr =
        Some (on_area d ((pre @ rec_img d x e) @ recs_img d es @ mid @ recs_img d ?live @ erased k @ post),
          wr + recs_size d ?live)"
      using Cons.prems x False a1 st(2) by (intro Cons.IH) (auto simp: x_def)
    then show ?thesis using step False x w by (simp add: x_def)
  next
    case True
    let ?n = "recs_size d ?live"
    define b where "b = pre @ rec_img d x e @ (recs_img d es @ mid) @ rec_img d x e @ erased (?n + k) @ post"
    have "copy_live (on_area d a) (length pre) wr
        (build_key (rd_unit d) x True False (length (re_name e) + 1) (length (re_data e))) =
        Some (on_area d b, wr + rec_size d e)"
      unfolding b_def using Cons.prems a1 True g
      by (intro copy_live_at [OF g ok True]) (auto simp: add.assoc)
    then have 1: "recycle_loop (on_area d a) koff wr =
        (if x then Some (on_area d b, wr + rec_size d e)
         else recycle_loop (on_area d b) (length pre) (wr + rec_size d e))"
      using step True w by simp
    show ?thesis
    proof (cases x)
      case x: True
      then show ?thesis using 1 True by (simp add: b_def x_def)
    next
      case x: False
      note st' = raw_steps(2) [OF g ok b_def refl]
      have "recycle_loop (on_area d b) (length pre) (wr + rec_size d e) =
          Some (on_area d ((pre @ rec_img d x e) @ recs_img d es @ (mid @ rec_img d x e) @ recs_img d ?live @ erased k @ post),
            wr + rec_size d e + ?n)"
        using Cons.prems x st' g by (intro Cons.IH) (auto simp: x_def b_def)
      then show ?thesis using 1 x True ne by (simp add: x_def add.assoc)
    qed
  qed
qed simp


section \<open>The second block\<close>

definition block_marked :: "raw_db \<Rightarrow> u8 list \<Rightarrow> bool" where
  "block_marked d bk \<longleftrightarrow> le_word (take 4 bk) = FLASH_HEADER \<and>
     le_word (take 4 (drop (checksum_offset d) bk)) = RAW_CHECKSUM"

definition block_blank :: "raw_db \<Rightarrow> u8 list \<Rightarrow> bool" where
  "block_blank d bk \<longleftrightarrow> read_flag (take (rd_unit d) (drop (raw_first_key d + rd_unit d) bk))"

text \<open>A block with the marks was written by the code, and one that also claims to be empty is.\<close>

definition backup_ok :: "raw_db \<Rightarrow> u8 list \<Rightarrow> bool" where
  "backup_ok d bk \<longleftrightarrow> length bk = rd_block_size d \<and>
     (block_marked d bk \<longrightarrow> drop (checksum_offset d) bk = checksum_img d) \<and>
     (block_marked d bk \<and> block_blank d bk \<longrightarrow> bk = main_img d [])"

lemma backup_on_area [simp]: "backup_ok (on_area d a) = backup_ok d"
  by (simp add: backup_ok_def block_marked_def block_blank_def fun_eq_iff)

lemma drop_main_img: "raw_geometry d \<Longrightarrow> recs_size d es \<le> raw_capacity d \<Longrightarrow>
    drop (checksum_offset d) (main_img d es) = checksum_img d"
  using block_parts(1) [of d] by (simp add: main_img_def)

lemma backup_main_img [simp]: "raw_geometry d \<Longrightarrow> backup_ok d (main_img d [])"
  by (simp add: backup_ok_def drop_main_img)

lemma info_fits: "raw_geometry d \<Longrightarrow> raw_first_key d + raw_key_size d \<le> checksum_offset d"
  using block_parts(1) [of d] align_ge [of d "raw_key_size d"] by simp

lemma backup_tests:
  assumes g: "raw_geometry d" and a: "a = m @ bk @ rest" "length m = rd_block_size d" "length bk = rd_block_size d"
  shows "raw_is_valid (on_area d a) BACKUP = Some (block_marked d bk)"
    "raw_is_empty (on_area d a) BACKUP = Some (block_blank d bk)"
proof -
  let ?n = "raw_first_key d + raw_key_size d"
  have n: "?n \<le> length bk" "4 \<le> raw_first_key d" "checksum_offset d + 4 \<le> length bk"
    using info_fits [OF g] block_parts(2) [OF g] checksum_size_ge [OF g] a(3) by (simp_all add: raw_first_key_def)
  have "raw_info (on_area d a) BACKUP = Some (take ?n bk)"
    using raw_read_within [OF a(1), of 0 ?n] a n by (simp add: raw_info_def raw_block_offset_def)
  then have i: "raw_is_inited (on_area d a) BACKUP = Some (le_word (take 4 bk) = FLASH_HEADER)"
    and e: "raw_is_empty (on_area d a) BACKUP = Some (block_blank d bk)"
    using n by (simp_all add: raw_is_inited_def raw_is_empty_def block_blank_def raw_key_of_def raw_key_size_def
        drop_take add.commute)
  let ?c = "checksum_offset d"
  have "raw_read (on_area d a) (raw_block_offset d BACKUP + ?c) 4 = Some (take 4 (drop ?c bk))"
    using raw_read_within [OF a(1), of ?c 4] a n by (simp add: raw_block_offset_def)
  then show "raw_is_valid (on_area d a) BACKUP = Some (block_marked d bk)"
    using i by (auto simp: raw_is_valid_def raw_is_error_def block_marked_def)
  show "raw_is_empty (on_area d a) BACKUP = Some (block_blank d bk)" by (rule e)
qed

section \<open>The store with its entries\<close>

definition live_names :: "raw_entry list \<Rightarrow> u8 list list" where
  "live_names es = map re_name (filter re_live es)"

definition raw_layout :: "raw_entry list \<Rightarrow> u8 list \<Rightarrow> u8 list \<Rightarrow> raw_db \<Rightarrow> bool" where
  "raw_layout es bk rest d \<longleftrightarrow> raw_geometry d \<and> (\<forall>e \<in> set es. raw_entry_ok e) \<and>
     recs_size d es \<le> raw_capacity d \<and> backup_ok d bk \<and> raw_area d = main_img d es @ bk @ rest"

text \<open>Between the operations the last entry is live and a name is live at most once.\<close>

definition raw_stored :: "raw_entry list \<Rightarrow> raw_db \<Rightarrow> bool" where
  "raw_stored es d \<longleftrightarrow> (\<exists>bk rest. raw_layout es bk rest d) \<and> distinct (live_names es) \<and>
     (es \<noteq> [] \<longrightarrow> re_live (last es))"

lemma recs_size_filter: "recs_size d (filter P es) \<le> recs_size d es"
  by (induction es) simp_all

text \<open>Copying a block with entries into the erased first block.\<close>

lemma copy_block_prefix_at:
  assumes g: "raw_geometry d" and fit: "recs_size d es \<le> raw_capacity d"
  shows "copy_block_prefix (on_area d (erased (rd_block_size d) @ main_img d es @ rest)) MAIN BACKUP
      (first_entry d + recs_size d es) =
    Some (on_area d (main_img d es @ main_img d es @ rest))"
proof -
  let ?bs = "rd_block_size d" and ?cs = "checksum_size d"
  define Y where "Y = header_img d @ first_img d (es = []) @ recs_img d es"
  define C where "C = checksum_img d"
  define U where "U = first_entry d + recs_size d es"
  define free where "free = raw_capacity d - recs_size d es"
  have main: "main_img d es = Y @ erased free @ C" by (simp add: main_img_def Y_def C_def free_def)
  have len: "length Y = U" "length C = ?cs" using g by (simp_all add: Y_def C_def U_def first_entry_def)
  have U: "checksum_offset d = U + free" "?bs = U + (free + ?cs)"
    using block_parts [OF g] fit by (simp_all add: U_def free_def first_entry_def)
  have dv: "rd_unit d dvd U" "rd_unit d dvd U + free"
    using first_key_unit [OF g] unit_dvd(3) [OF g] U(1) by (simp_all add: U_def first_entry_def)
  have al: "align_size d U = U" "align_size d ?cs = ?cs"
    using align_multiple [OF g] dv(1) unit_dvd(1) [OF g] by simp_all
  have 1: "copy_flash_data (on_area d (erased ?bs @ main_img d es @ rest)) 0 ?bs U =
      Some (on_area d ([] @ Y @ erased (free + ?cs) @ Y @ erased free @ C @ rest))"
    using U al len by (intro copy_back [OF g, where x = "erased U"])
      (simp_all add: main replicate_add clears_only_erased)
  have 2: "copy_flash_data (on_area d (Y @ erased (free + ?cs) @ Y @ erased free @ C @ rest))
      (checksum_offset d) (?bs + checksum_offset d) ?cs =
      Some (on_area d ((Y @ erased free) @ C @ (Y @ erased free) @ C @ rest))"
    using U al len dv by (intro copy_back [OF g, where x = "erased ?cs"])
      (simp_all add: replicate_add clears_only_erased)
  show ?thesis using 1 2 U by (simp add: copy_block_prefix_def raw_block_offset_def main flip: U_def)
qed

lemma raw_recycle_at:
  assumes g: "raw_geometry d" and es: "es \<noteq> []" "re_live (last es)" "\<forall>e \<in> set es. raw_entry_ok e"
    and fit: "recs_size d es \<le> raw_capacity d" and bk: "backup_ok d bk"
    and a: "a = main_img d es @ bk @ rest"
  shows "raw_recycle (on_area d a) = Some (on_area d (main_img d (filter re_live es) @ main_img d [] @ rest))"
proof -
  let ?live = "filter re_live es" and ?bs = "rd_block_size d" and ?fk = "raw_first_key d"
  let ?ks = "align_size d (raw_key_size d)" and ?free = "raw_capacity d - recs_size d (filter re_live es)"
  define n where "n = recs_size d ?live"
  have n: "n \<le> raw_capacity d" using recs_size_filter [of d re_live es] fit by (simp add: n_def)
  have ne: "?live \<noteq> []" using es by (auto simp: filter_empty_conv)
  have m: "length (main_img d es) = ?bs" "length (main_img d []) = ?bs" "length bk = ?bs"
    using g fit bk by (simp_all add: backup_ok_def)
  have off: "raw_block_offset d MAIN = 0" "raw_block_offset d BACKUP = ?bs" by (simp_all add: raw_block_offset_def)
  have empty: "raw_is_empty (on_area d a) MAIN = Some False"
    using main_tests(1) [OF g fit, where pre = "[]" and b = MAIN] a es(1) off by simp
  let ?a1 = "main_img d es @ main_img d [] @ rest"
  obtain v f where init: "raw_is_valid (on_area d a) BACKUP = Some v"
      "(if \<not> v then Some False else raw_is_empty (on_area d a) BACKUP) = Some f"
      "(if \<not> f then raw_init_block (on_area d a) BACKUP else Some (on_area d a)) = Some (on_area d ?a1)"
    using backup_tests [OF g a m(1,3)] raw_init_block_at [OF g a m(3), of BACKUP] m off bk a
    by (cases "block_marked d bk"; cases "block_blank d bk") (auto simp: backup_ok_def)
  have wk: "raw_key_bytes ((raw_key_new (rd_unit d))\<lparr>rk_uninit := set_flag (rd_unit d) False,
      rk_available := set_flag (rd_unit d) False, rk_no_next := set_flag (rd_unit d) False\<rparr>) =
      raw_key_bytes (build_key (rd_unit d) False False False 0 0)"
    by (simp add: raw_key_bytes_def raw_key_new_def)
  define H F C where "H = header_img d" and "F = first_img d False" and "C = checksum_img d"
  define L where "L = recs_img d ?live"
  define free where "free = raw_capacity d - n"
  let ?cap = "raw_capacity d" and ?cs = "checksum_size d"
  have len: "length H = ?fk" "length F = ?ks" "length C = ?cs" "length L = n"
    using g by (simp_all add: H_def F_def C_def L_def n_def)
  have bs: "?bs = ?fk + ?ks + ?cap + ?cs" "checksum_offset d = ?fk + ?ks + ?cap" "n + free = ?cap"
    using block_parts [OF g] n by (simp_all add: free_def)
  have dv: "rd_unit d dvd ?fk" "rd_unit d dvd ?ks" "rd_unit d dvd ?cs" "rd_unit d dvd n" "rd_unit d dvd ?cap" "rd_unit d dvd ?bs"
    using first_key_unit [OF g] unit_dvd [OF g] by (simp_all add: n_def)
  have dvf: "rd_unit d dvd free" unfolding free_def using dv by (intro dvd_diff_nat)
  have live: "main_img d ?live = H @ F @ L @ erased free @ C"
    using ne by (simp add: main_img_def H_def F_def L_def C_def n_def free_def)
  define R where "R = recs_img d es @ erased (?cap - recs_size d es) @ C"
  have M: "main_img d es = H @ F @ R"
    using es(1) by (simp add: main_img_def H_def F_def C_def R_def)
  have lR: "length R = ?cap + ?cs" using g fit len by (simp add: R_def)
  have E: "main_img d [] = H @ first_img d True @ erased ?cap @ C"
    by (simp add: main_img_def H_def C_def)
  have Fp: "F = padded d (raw_key_bytes (build_key (rd_unit d) False False False 0 0))"
    by (simp add: F_def first_img_def key_img_def)
  define P where "P = H @ F @ R @ H"
  have lP: "length P = ?bs + ?fk" using bs len lR by (simp add: P_def)
  define a2 where "a2 = P @ F @ erased ?cap @ C @ rest"
  have 1: "raw_write (on_area d ?a1) (?fk + ?bs) (raw_key_bytes (build_key (rd_unit d) False False False 0 0)) =
      Some (on_area d a2)"
    unfolding a2_def using dv len lP g
    by (intro raw_write_piece [OF Fp g, where mid = "first_img d True"])
      (auto simp: M E P_def F_def first_img_def intro!: clears_key_img)
  have 2: "raw_key_length (on_area d a2) (?fk + ?bs) = Some ?ks"
    by (rule first_steps(2) [OF g, where pre = P and b = False]) (simp_all add: a2_def F_def lP)
  have 3: "raw_next_key (on_area d a2) ?fk = Some (length (H @ F))"
    using first_steps(3) [OF g, of a2 H False "R @ H @ F @ erased ?cap @ C @ rest" ?fk] len
    by (simp add: a2_def P_def flip: F_def)
  define a3 where "a3 = H @ F @ R @ H @ F @ L @ erased free @ C @ rest"
  have 4: "recycle_loop (on_area d a2) ?fk (?fk + ?bs + ?ks) = Some (on_area d a3, ?fk + ?bs + ?ks + n)"
  proof -
    let ?mid = "erased (?cap - recs_size d es) @ C @ H @ F"
    have "recycle_loop (on_area d a2) ?fk (?fk + ?bs + ?ks) =
        Some (on_area d ((H @ F) @ recs_img d es @ ?mid @ recs_img d ?live @ erased free @ C @ rest),
          ?fk + ?bs + ?ks + recs_size d ?live)"
    proof (rule recycle_loop_at [OF g es])
      show "a2 = (H @ F) @ recs_img d es @ ?mid @ erased (recs_size d ?live + free) @ C @ rest"
        using bs(3) by (simp add: a2_def P_def R_def flip: n_def)
      show "rd_unit d dvd length (H @ F)" "rd_unit d dvd length ?mid"
        using dv len by (auto intro!: dvd_add dvd_diff_nat)
      show "?fk + ?bs + ?ks = length (H @ F) + recs_size d es + length ?mid"
        using bs len fit by simp
    qed (rule 3)
    then show ?thesis by (simp add: a3_def R_def L_def n_def)
  qed
  have 5: "raw_erase (on_area d a3) 0 ?bs = Some (on_area d (erased ?bs @ H @ F @ L @ erased free @ C @ rest))"
    using raw_erase_at [OF g, of a3 "[]" "H @ F @ R" "H @ F @ L @ erased free @ C @ rest" 0] bs len lR
    by (simp add: a3_def)
  have U: "first_entry d + recs_size d ?live = ?fk + ?ks + n" by (simp add: first_entry_def n_def)
  have 6: "copy_block_prefix (on_area d (erased ?bs @ H @ F @ L @ erased free @ C @ rest)) MAIN BACKUP (?fk + ?ks + n) =
      Some (on_area d (main_img d ?live @ main_img d ?live @ rest))"
    using copy_block_prefix_at [OF g n [unfolded n_def], of rest] U by (simp add: live)
  have 8: "raw_init_block (on_area d (main_img d ?live @ main_img d ?live @ rest)) BACKUP =
      Some (on_area d (main_img d ?live @ main_img d [] @ rest))"
    using length_main_img [OF g n [unfolded n_def]] by (intro raw_init_block_at [OF g]) (simp_all add: g off)
  show ?thesis
    unfolding raw_recycle_def using empty init 1 2 4 5 6 8
    by (simp add: wk Let_def add.assoc del: if_split)
qed

end
