(* ===== verification/Raw_Operations.thy ===== *)
theory Raw_Operations
  imports Raw_Recycle
begin

text \<open>
  The operations of \<open>DatabaseRaw\<close> on a store with entries: searching a name, adding and setting a key,
  getting its value, and \<open>Init\<close> on a store that is there. They refine updates of a map from names to data
  and give the laws of the interface \<open>key_database\<close>.
\<close>

lemma raw_recycle_stored:
  assumes s: "raw_stored es d"
  shows "\<exists>d'. raw_recycle d = Some d' \<and> raw_stored (filter re_live es) d' \<and> d' = on_area d (raw_area d')"
proof (cases "es = []")
  case True
  obtain bk rest where "raw_layout es bk rest d" using s by (auto simp: raw_stored_def)
  then have l: "raw_geometry d" "raw_area d = [] @ main_img d [] @ bk @ rest" using True by (simp_all add: raw_layout_def)
  have "raw_is_empty d MAIN = Some True"
    using main_tests(1) [OF l(1) _ l(2), of MAIN] by (simp add: raw_block_offset_def)
  then show ?thesis using s True by (simp add: raw_recycle_def)
next
  case False
  obtain bk rest where l: "raw_layout es bk rest d" using s by (auto simp: raw_stored_def)
  let ?live = "filter re_live es"
  let ?a = "main_img d ?live @ main_img d [] @ rest"
  have g: "raw_geometry d" and fit: "recs_size d es \<le> raw_capacity d" using l by (simp_all add: raw_layout_def)
  have "length bk = rd_block_size d" using l by (simp add: raw_layout_def backup_ok_def)
  moreover have fit': "recs_size d ?live \<le> raw_capacity d" using recs_size_filter [of d re_live es] fit by simp
  ultimately have "length ?a = length (raw_area d)" using l g fit by (simp add: raw_layout_def)
  then have "raw_layout ?live (main_img d []) rest (on_area d ?a)"
    using l g fit' by (auto simp: raw_layout_def)
  moreover have "re_live (last ?live)" if "?live \<noteq> []" using that last_in_set by fastforce
  moreover have "distinct (live_names ?live)" using s by (simp add: raw_stored_def live_names_def)
  ultimately have "raw_stored ?live (on_area d ?a)" by (auto simp: raw_stored_def)
  moreover have "raw_recycle (on_area d (raw_area d)) = Some (on_area d ?a)"
    using l s False by (intro raw_recycle_at) (auto simp: raw_layout_def raw_stored_def)
  ultimately show ?thesis by auto
qed

section \<open>Searching\<close>

lemma raw_name_compare_loop_eq:
  assumes "raw_area d = pre @ p @ (s @ [0]) @ post" "name = p @ t" "0 \<notin> set s"
    "plain_name (rd_signed_char d) t"
  shows "raw_name_compare_loop d (length pre) name (length p) (length s + 1) = Some (s \<noteq> t)"
  using assms
proof (induction s arbitrary: p t)
  case Nil
  have "raw_read (on_area d (raw_area d)) (length pre + length p) 1 = Some [0]"
    using Nil(1) by (intro raw_read_at [where pre = "pre @ p" and post = post]) simp_all
  then have "raw_read d (length pre + length p) 1 = Some [0]" by simp
  then show ?case using Nil
    by (cases t) (auto simp: nth_append plain_name_def char_value_def uint_0_iff)
next
  case (Cons a s)
  have "raw_read (on_area d (raw_area d)) (length pre + length p) 1 = Some [a]"
    using Cons.prems(1) by (intro raw_read_at [where pre = "pre @ p" and post = "s @ [0] @ post"]) simp_all
  then have r: "raw_read d (length pre + length p) 1 = Some [a]" by simp
  show ?case
  proof (cases t)
    case Nil
    then show ?thesis using r Cons.prems by (simp add: nth_append char_value_def uint_0_iff)
  next
    case (Cons b u)
    have b: "char_value (rd_signed_char d) b = uint b" "plain_name (rd_signed_char d) u"
      using Cons \<open>plain_name (rd_signed_char d) t\<close> by (auto simp: plain_name_def)
    show ?thesis
    proof (cases "a = b")
      case True
      then show ?thesis
        using r b Cons Cons.prems Cons.IH [of "p @ [a]" u] by (simp add: nth_append)
    next
      case False
      then have "uint a \<noteq> uint b" by (simp add: word_uint_eq_iff)
      then show ?thesis using False r b Cons Cons.prems by (simp add: nth_append)
    qed
  qed
qed

lemma raw_name_compare_at:
  assumes g: "raw_geometry d" and ok: "raw_entry_ok e" and a: "a = pre @ rec_img d x e @ post"
    and name: "plain_name (rd_signed_char d) name" and off: "offset = length pre"
  shows "raw_name_compare (on_area d a) offset name = Some (re_name e \<noteq> name)"
proof -
  let ?k = "key_img d x (re_live e) False (length (re_name e) + 1) (length (re_data e))"
  have "a = (pre @ ?k) @ [] @ (re_name e @ [0]) @
      replicate (align_size d (length (re_name e @ [0])) - length (re_name e @ [0])) 0xFF @ padded d (re_data e) @ post"
    using a by (simp add: rec_img_def body_img_def padded_def)
  then have "raw_name_compare_loop (on_area d a) (length (pre @ ?k)) name (length ([] :: u8 list)) (length (re_name e) + 1) =
      Some (re_name e \<noteq> name)"
    using name ok by (intro raw_name_compare_loop_eq) (auto simp: raw_entry_ok_def)
  then show ?thesis using raw_steps(1) [OF g ok a off] ok off g
    by (simp add: raw_name_compare_def raw_entry_ok_def)
qed

text \<open>The offset of the live key with a name, 0 when there is none, and the dead keys before it.\<close>

fun raw_find :: "raw_db \<Rightarrow> u8 list \<Rightarrow> nat \<Rightarrow> raw_entry list \<Rightarrow> nat \<times> nat" where
  "raw_find d name offset [] = (0, 0)"
| "raw_find d name offset (e # es) =
     (if \<not> re_live e then map_prod id Suc (raw_find d name (offset + rec_size d e) es)
      else if re_name e = name then (offset, 0) else raw_find d name (offset + rec_size d e) es)"

lemma raw_find_on_area [simp]: "raw_find (on_area d a) name offset es = raw_find d name offset es"
  by (induction es arbitrary: offset) simp_all

lemma raw_search_loop_at:
  assumes "raw_geometry d" "a = pre @ recs_img d es @ post" "es \<noteq> []" "re_live (last es)"
    "\<forall>e \<in> set es. raw_entry_ok e" "plain_name (rd_signed_char d) name"
  shows "raw_search_loop (on_area d a) name (length pre) c =
    Some (fst (raw_find d name (length pre) es), c + snd (raw_find d name (length pre) es))"
  using assms
proof (induction es arbitrary: pre c)
  case (Cons e es)
  define x where "x = (es = [])"
  have a: "a = pre @ rec_img d x e @ recs_img d es @ post" "raw_entry_ok e"
    using Cons.prems by (simp_all add: x_def)
  note st = raw_steps [OF Cons.prems(1) a(2,1) refl]
    raw_name_compare_at [OF Cons.prems(1) a(2,1) Cons.prems(6) refl]
  have w: "0 < rd_unit d" by (rule unit_pos [OF Cons.prems(1)])
  have ih: "raw_search_loop (on_area d a) name (length pre + rec_size d e) c' =
      Some (fst (raw_find d name (length pre + rec_size d e) es), c' + snd (raw_find d name (length pre + rec_size d e) es))"
    if "\<not> x" for c'
    using Cons.IH [of "pre @ rec_img d x e" c'] Cons.prems that a by (simp add: x_def)
  show ?case
  proof (cases "re_live e \<and> (re_name e = name \<or> x)")
    case True
    then show ?thesis using st w by (subst raw_search_loop.simps) (auto simp: x_def)
  next
    case False
    then have "\<not> x" using Cons.prems(4) by (auto simp: x_def)
    then show ?thesis using False st w ih by (subst raw_search_loop.simps) (auto simp: prod.case_eq_if)
  qed
qed simp


lemma raw_find_Some:
  assumes "e \<in> set es" "re_live e" "re_name e = name" "0 < offset"
  shows "\<exists>es1 e' es2. es = es1 @ e' # es2 \<and> re_live e' \<and> re_name e' = name \<and>
    fst (raw_find d name offset es) = offset + recs_size d es1"
  using assms
proof (induction es arbitrary: offset)
  case (Cons x es)
  show ?case
  proof (cases "re_live x \<and> re_name x = name")
    case True
    then show ?thesis by (intro exI [of _ "[]"]) simp
  next
    case False
    then have "e \<in> set es" using Cons.prems by auto
    from Cons.IH [OF this Cons.prems(2,3), of "offset + rec_size d x"] Cons.prems(4)
    obtain es1 e' es2 where r: "es = es1 @ e' # es2" "re_live e'" "re_name e' = name"
      "fst (raw_find d name (offset + rec_size d x) es) = offset + rec_size d x + recs_size d es1" by auto
    then show ?thesis using False
      by (intro exI [of _ "x # es1"] exI [of _ e'] exI [of _ es2]) (simp add: map_prod_def prod.case_eq_if)
  qed
qed simp

lemma raw_find_None:
  "(\<And>e. e \<in> set es \<Longrightarrow> re_live e \<Longrightarrow> re_name e \<noteq> name) \<Longrightarrow> fst (raw_find d name offset es) = 0"
  by (induction es arbitrary: offset) (auto simp: map_prod_def prod.case_eq_if)

lemma raw_find_live: "\<forall>e \<in> set es. re_live e \<Longrightarrow> snd (raw_find d name offset es) = 0"
  by (induction es arbitrary: offset) auto

text \<open>The search may recycle; it finds the name in what is then stored.\<close>

lemma raw_search_once:
  assumes s: "raw_stored es d" and name: "plain_name (rd_signed_char d) name" and ne: "es \<noteq> []"
  shows "raw_search_key d name = (let r = raw_find d name (first_entry d) es in
    if snd r + 1 > rd_threshold d then raw_recycle d \<bind> (\<lambda>d1. raw_search_key d1 name) else Some (d, fst r))"
proof -
  obtain bk rest where l: "raw_layout es bk rest d" using s by (auto simp: raw_stored_def)
  then have g: "raw_geometry d" and fit: "recs_size d es \<le> raw_capacity d" by (simp_all add: raw_layout_def)
  have w: "0 < rd_unit d" by (rule unit_pos [OF g])
  define post where "post = erased (raw_capacity d - recs_size d es) @ checksum_img d @ bk @ rest"
  have a: "raw_area d = header_img d @ first_img d False @ recs_img d es @ post"
    using l ne by (simp add: raw_layout_def main_img_def post_def)
  have e: "raw_is_empty (on_area d (raw_area d)) MAIN = Some False"
    using main_tests(1) [OF g fit, of "raw_area d" "[]" "bk @ rest" MAIN] l ne
    by (simp add: raw_layout_def raw_block_offset_def)
  note f = first_steps [OF g a, of "raw_first_key d"]
  have "raw_search_loop (on_area d (raw_area d)) name (length (header_img d @ first_img d False)) 1 =
      Some (fst (raw_find d name (length (header_img d @ first_img d False)) es),
        1 + snd (raw_find d name (length (header_img d @ first_img d False)) es))"
    using raw_search_loop_at [OF g _ ne _ _ name, of "raw_area d" "header_img d @ first_img d False" post 1] l s ne a
    by (simp add: raw_layout_def raw_stored_def)
  then have "raw_search_loop d name (raw_first_key d) 0 =
      Some (fst (raw_find d name (first_entry d) es), 1 + snd (raw_find d name (first_entry d) es))"
    using f g w by (subst raw_search_loop.simps) (simp add: first_entry_def)
  then show ?thesis using e by (subst raw_search_key.simps) (simp add: Let_def)
qed

lemma raw_search_key_eq:
  assumes s: "raw_stored es d" and name: "plain_name (rd_signed_char d) name"
  obtains d' es' where "raw_search_key d name = Some (d', fst (raw_find d name (first_entry d) es'))"
    "raw_stored es' d'" "es' = es \<or> es' = filter re_live es" "d' = on_area d (raw_area d')"
proof -
  note result = that
  obtain bk rest where l: "raw_layout es bk rest d" using s by (auto simp: raw_stored_def)
  then have g: "raw_geometry d" and fit: "recs_size d es \<le> raw_capacity d" by (simp_all add: raw_layout_def)
  show thesis
  proof (cases "es = []")
    case True
    have "raw_is_empty (on_area d (raw_area d)) MAIN = Some True"
      using main_tests(1) [OF g fit, of "raw_area d" "[]" "bk @ rest" MAIN] l True
      by (simp add: raw_layout_def raw_block_offset_def)
    then have "raw_search_key d name = Some (d, 0)" by (subst raw_search_key.simps) simp
    then show thesis using s True by (intro result [of d es]) simp_all
  next
    case False
    let ?live = "filter re_live es"
    show thesis
    proof (cases "snd (raw_find d name (first_entry d) es) + 1 > rd_threshold d")
      case True
      obtain d' where d': "raw_recycle d = Some d'" "raw_stored ?live d'" "d' = on_area d (raw_area d')"
        using raw_recycle_stored [OF s] by blast
      have same: "rd_threshold d' = rd_threshold d" "rd_signed_char d' = rd_signed_char d"
        "raw_find d' name o' xs = raw_find d name o' xs" "first_entry d' = first_entry d" for o' xs
        by (subst d'(3), simp add: first_entry_def)+
      have ne: "?live \<noteq> []" using s False by (auto simp: raw_stored_def filter_empty_conv)
      have "0 < rd_threshold d" using g by (simp add: raw_geometry_def)
      then have "raw_search_key d' name = Some (d', fst (raw_find d name (first_entry d) ?live))"
        using raw_search_once [OF d'(2) _ ne, of name] name same raw_find_live [of ?live d name "first_entry d"]
        by (simp add: Let_def)
      then show thesis using raw_search_once [OF s name False] True d' by (intro result [of d' ?live]) simp_all
    next
      case thr: False
      then show thesis using raw_search_once [OF s name False] s by (intro result [of d es]) (simp_all add: Let_def)
    qed
  qed
qed


section \<open>Appending a key\<close>

lemma info_bytes_on_area [simp]: "info_bytes (on_area d a) = info_bytes d"
  by (simp add: info_bytes_def fun_eq_iff)

lemma available_less_at:
  assumes "raw_geometry d" "\<forall>x \<in> set es. raw_entry_ok x"
    "a = header_img d @ first_img d (es = []) @ recs_img d es @ post"
    "first_entry d + recs_size d es + k = checksum_offset d"
  shows "available_less (on_area d a) n = Some (k < n)"
  using last_and_used_at(2) [OF assms(1-3)] assms(4) by (auto simp: available_less_def)

text \<open>\<open>linked_img\<close> is an image whose last key says that another follows.\<close>

definition linked_img :: "raw_db \<Rightarrow> raw_entry list \<Rightarrow> u8 list" where
  "linked_img d es = header_img d @ first_img d False @ inner_img d es"

lemma length_linked_img [simp]:
  "raw_geometry d \<Longrightarrow> length (linked_img d es) = first_entry d + recs_size d es"
  by (simp add: linked_img_def first_entry_def)

lemma linked_snoc: "linked_img d (es @ [e]) = linked_img d es @ rec_img d False e"
  by (simp add: linked_img_def inner_img_def)

text \<open>The first two writes for a new key behind others: its header, and the link from the last key to it.\<close>

lemma link_key_at:
  fixes nl n :: nat
  assumes g: "raw_geometry d" and oke: "raw_entry_ok e"
    and a: "a = linked_img d fs @ rec_img d True e @ erased (align_size d (raw_key_size d)) @ T"
  defines "pos \<equiv> first_entry d + recs_size d fs + rec_size d e"
  defines "N \<equiv> length (re_name e) + 1" and "M \<equiv> length (re_data e)" and "lp \<equiv> first_entry d + recs_size d fs"
  defines "b \<equiv> linked_img d fs @ rec_img d True e @ key_img d True True True nl n @ T"
  shows "raw_write (on_area d a) pos (raw_key_bytes (build_key (rd_unit d) True True True nl n)) = Some (on_area d b)"
    and "raw_write (on_area d b) lp (raw_key_bytes (build_key (rd_unit d) False (re_live e) False N M)) =
      Some (on_area d (linked_img d (fs @ [e]) @ key_img d True True True nl n @ T))"
proof -
  let ?w = "rd_unit d" and ?ks = "align_size d (raw_key_size d)"
  have dv: "?w dvd first_entry d" using first_key_unit [OF g] by (simp add: first_entry_def)
  define K1 where "K1 = key_img d True True True nl n"
  have Kp: "K1 = padded d (raw_key_bytes (build_key ?w True True True nl n))"
    by (simp add: K1_def key_img_def)
  have lK: "length K1 = ?ks" using g by (simp add: K1_def)
  have "raw_write (on_area d a) pos (raw_key_bytes (build_key ?w True True True nl n)) =
      Some (on_area d ((linked_img d fs @ rec_img d True e) @ K1 @ T))"
    using dv lK g a by (intro raw_write_piece [OF Kp g, where mid = "erased ?ks"])
      (simp_all add: clears_only_erased pos_def)
  then show "raw_write (on_area d a) pos (raw_key_bytes (build_key ?w True True True nl n)) = Some (on_area d b)"
    by (simp add: b_def K1_def)
  let ?e = "\<lambda>x. key_img d x (re_live e) False N M"
  have Lp: "?e False = padded d (raw_key_bytes (build_key ?w False (re_live e) False N M))"
    by (simp add: key_img_def)
  have "raw_write (on_area d b) lp (raw_key_bytes (build_key ?w False (re_live e) False N M)) =
      Some (on_area d (linked_img d fs @ ?e False @ body_img d e @ K1 @ T))"
    using dv g unfolding b_def by (intro raw_write_piece [OF Lp g, where mid = "?e True"])
      (auto simp: rec_img_def N_def M_def lp_def K1_def intro!: clears_key_img)
  then show "raw_write (on_area d b) lp (raw_key_bytes (build_key ?w False (re_live e) False N M)) =
      Some (on_area d (linked_img d (fs @ [e]) @ key_img d True True True nl n @ T))"
    by (simp add: linked_snoc rec_img_def N_def M_def K1_def)
qed

lemma add_key_body_at:
  assumes g: "raw_geometry d" and ok: "\<forall>x \<in> set es. raw_entry_ok x"
    and a: "a = header_img d @ first_img d (es = []) @ recs_img d es @ erased k @ post"
    and k: "first_entry d + recs_size d es + k = checksum_offset d"
    and room: "align_size d (raw_key_size d) + align_size d nl + align_size d n \<le> k"
  shows "add_key_body (on_area d a) nl n =
    Some (on_area d (linked_img d es @ key_img d True True False nl n @
        erased (k - align_size d (raw_key_size d)) @ post), OK, first_entry d + recs_size d es)"
proof -
  let ?ks = "align_size d (raw_key_size d)" and ?fe = "first_entry d" and ?w = "rd_unit d"
  let ?pos = "?fe + recs_size d es"
  have fe: "0 < ?fe" "?w dvd ?fe"
    using first_key_unit [OF g] by (simp_all add: first_entry_def raw_first_key_def less_max_iff_disj)
  have w: "0 < ?w" by (rule unit_pos [OF g])
  define T where "T = erased (k - ?ks) @ post"
  have ke: "erased k @ post = erased ?ks @ T" using room by (simp add: T_def flip: append_assoc replicate_add)
  have av: "available_less (on_area d a) (?ks + align_size d nl + align_size d n) = Some False"
    using available_less_at [OF g ok a k] room by simp
  note last = last_and_used_at(1) [OF g ok a]
  define K1 K2 where "K1 = key_img d True True True nl n" and "K2 = key_img d True True False nl n"
  have Kp: "K1 = padded d (raw_key_bytes (build_key ?w True True True nl n))"
    "K2 = padded d (raw_key_bytes (build_key ?w True True False nl n))"
    by (simp_all add: K1_def K2_def key_img_def)
  have lK: "length K1 = ?ks" "length K2 = ?ks" using g by (simp_all add: K1_def K2_def)
  have K2: "raw_write (on_area d (linked_img d es @ K1 @ T)) ?pos (raw_key_bytes (build_key ?w True True False nl n)) =
      Some (on_area d (linked_img d es @ K2 @ T))"
    using fe lK g by (intro raw_write_piece [OF Kp(2) g]) (auto simp: K1_def K2_def intro!: clears_key_img)
  show ?thesis
  proof (cases es rule: rev_cases)
    case Nil
    let ?H = "header_img d @ first_img d True" and ?G = "header_img d @ first_img d False"
    have G: "?G = padded d (info_bytes d (build_key ?w False False False 0 0))"
      by (simp add: padded_info [OF g] first_img_def)
    have 1: "raw_write (on_area d a) 0 (info_bytes d (build_key ?w False False False 0 0)) =
        Some (on_area d ([] @ ?G @ erased k @ post))"
      using a Nil g by (intro raw_write_piece [OF G g, where mid = ?H])
        (auto simp: clears_only_append first_img_def intro!: clears_key_img)
    have 2: "raw_next_key (on_area d ([] @ ?G @ erased k @ post)) (raw_first_key d) = Some ?fe"
      using first_steps(3) [OF g, of "?G @ erased k @ post" "header_img d" False "erased k @ post"]
      by (simp add: first_entry_def)
    have 3: "raw_write (on_area d ([] @ ?G @ erased k @ post)) ?fe (raw_key_bytes (build_key ?w True True True nl n)) =
        Some (on_area d (?G @ K1 @ T))"
      using fe lK g ke by (intro raw_write_piece [OF Kp(1) g, where mid = "erased ?ks"])
        (auto simp: clears_only_erased first_entry_def)
    show ?thesis using Nil av last 1 2 3 K2
      by (simp add: add_key_body_def Let_def linked_img_def inner_img_def T_def K2_def)
  next
    case (snoc fs e)
    have oke: "raw_entry_ok e" using ok snoc by simp
    define lp where "lp = ?fe + recs_size d fs"
    have a1: "a = linked_img d fs @ rec_img d True e @ erased k @ post"
      using a snoc by (simp add: recs_img_append linked_img_def)
    have lastpos: "lp \<noteq> 0" "lp = length (linked_img d fs)" "?w dvd lp" using fe g by (simp_all add: lp_def)
    note st = raw_steps [OF g oke a1 lastpos(2)]
    have "a = linked_img d fs @ rec_img d True e @ erased ?ks @ T" using a1 ke by simp
    note link = link_key_at [OF g oke this, where nl = nl and n = n]
    define b where "b = linked_img d fs @ rec_img d True e @ K1 @ T"
    have 1: "raw_write (on_area d a) ?pos (raw_key_bytes (build_key ?w True True True nl n)) = Some (on_area d b)"
      using link(1) snoc by (simp add: b_def K1_def add.assoc)
    define N M where "N = length (re_name e) + 1" and "M = length (re_data e)"
    define kk where "kk = build_key ?w True (re_live e) False N M"
    have kk: "raw_read_key (on_area d b) lp = Some kk"
      using raw_steps(1) [OF g oke b_def lastpos(2)] by (simp add: kk_def N_def M_def)
    have "N < 128" "M < 2 ^ 25" using oke by (simp_all add: raw_entry_ok_def N_def M_def)
    then have kf: "read_flag (rk_available kk) = re_live e" "\<not> read_flag (rk_uninit kk)"
      "rk_name_length kk = N" "rk_data_size kk = M" using w by (simp_all add: kk_def)
    have 2: "raw_write (on_area d b) lp (raw_key_bytes (build_key ?w False (re_live e) False N M)) =
        Some (on_area d (linked_img d es @ K1 @ T))"
      using link(2) snoc by (simp add: b_def K1_def lp_def N_def M_def)
    have l: "raw_last_key (on_area d a) MAIN = Some lp" using last snoc by (simp add: lp_def)
    have nx: "raw_next_key (on_area d a) lp = Some ?pos" using st(2) snoc by (simp add: lp_def add.assoc)
    show ?thesis using l av nx lastpos(1) 1 2 K2 kk kf
      by (simp add: add_key_body_def Let_def T_def K2_def)
  qed
qed


lemma main_linked: "main_img d (es @ [e]) = linked_img d es @ rec_img d True e @
    erased (raw_capacity d - recs_size d (es @ [e])) @ checksum_img d"
  by (simp add: main_img_def linked_img_def recs_img_append)

lemma free_space: "raw_geometry d \<Longrightarrow> recs_size d es \<le> raw_capacity d \<Longrightarrow>
    first_entry d + recs_size d es + (raw_capacity d - recs_size d es) = checksum_offset d"
  using block_parts(1) [of d] by (simp add: first_entry_def)

lemma add_key_body_main:
  assumes g: "raw_geometry d" and ok: "\<forall>x \<in> set es. raw_entry_ok x" and oke: "raw_entry_ok e"
    and fit: "recs_size d es + rec_size d e \<le> raw_capacity d"
  shows "add_key_body (on_area d (main_img d es @ post)) (Suc (length (re_name e))) (length (re_data e)) =
    Some (on_area d (linked_img d es @ key_img d True True False (Suc (length (re_name e))) (length (re_data e)) @
        erased (align_size d (Suc (length (re_name e))) + align_size d (length (re_data e)) +
          (raw_capacity d - recs_size d es - rec_size d e)) @ checksum_img d @ post),
      OK, first_entry d + recs_size d es)"
proof -
  let ?k = "raw_capacity d - recs_size d es"
  have k: "?k - align_size d (raw_key_size d) = align_size d (Suc (length (re_name e))) +
      align_size d (length (re_data e)) + (?k - rec_size d e)"
    "align_size d (raw_key_size d) + align_size d (Suc (length (re_name e))) + align_size d (length (re_data e)) \<le> ?k"
    using fit by (simp_all add: rec_size_def)
  show ?thesis
    using add_key_body_at [OF g ok _ free_space [OF g] k(2), of _ "checksum_img d @ post"] fit k(1)
    by (simp add: main_img_def)
qed

text \<open>The data of the new key, its name being there.\<close>

lemma write_data_at:
  assumes g: "raw_geometry d" and oke: "raw_entry_ok e" "re_live e"
    and fit: "recs_size d es + rec_size d e \<le> raw_capacity d"
    and a: "a = linked_img d es @ key_img d True True False (Suc (length (re_name e))) (length (re_data e)) @
      padded d (re_name e @ [0]) @ erased (align_size d (length (re_data e)) +
        (raw_capacity d - recs_size d es - rec_size d e)) @ checksum_img d @ post"
    and pos: "pos = first_entry d + recs_size d es"
  shows "raw_data_offset (on_area d a) pos \<bind> (\<lambda>offset. raw_write (on_area d a) offset (re_data e) \<bind>
      (\<lambda>d1. Some (d1, OK))) = Some (on_area d (main_img d (es @ [e]) @ post), OK)"
proof -
  let ?K = "key_img d True True False (Suc (length (re_name e))) (length (re_data e))"
  let ?N = "padded d (re_name e @ [0])" and ?D = "padded d (re_data e)"
  let ?r = "raw_capacity d - recs_size d es - rec_size d e"
  have 1: "raw_read_key (on_area d a) pos =
      Some (build_key (rd_unit d) True True False (Suc (length (re_name e))) (length (re_data e)))"
    using a pos g by (intro raw_read_key_at [OF g, where pre = "linked_img d es"]) simp_all
  then have off: "raw_data_offset (on_area d a) pos =
      Some (pos + align_size d (raw_key_size d) + align_size d (Suc (length (re_name e))))"
    using oke by (simp add: raw_data_offset_def raw_entry_ok_def)
  have dv: "rd_unit d dvd first_entry d" using first_key_unit [OF g] by (simp add: first_entry_def)
  have "raw_write (on_area d a) (pos + align_size d (raw_key_size d) + align_size d (Suc (length (re_name e)))) (re_data e) =
      Some (on_area d ((linked_img d es @ ?K @ ?N) @ ?D @ erased ?r @ checksum_img d @ post))"
    using a pos g dv by (intro raw_write_at [OF g, where mid = "erased (align_size d (length (re_data e)))"])
      (simp_all add: length_padded replicate_add clears_only_erased)
  then show ?thesis using off oke fit by (simp add: main_linked rec_img_def body_img_def)
qed

lemma add_key_copy_at:
  assumes g: "raw_geometry d" and ok: "\<forall>x \<in> set es. raw_entry_ok x" and oke: "raw_entry_ok e" "re_live e"
    and fit: "recs_size d es + rec_size d e \<le> raw_capacity d"
    and es: "es = es1 @ e0 # es2" "re_name e0 = re_name e"
  shows "add_key_copy (on_area d (main_img d es @ post))
      (first_entry d + recs_size d es1 + align_size d (raw_key_size d)) (Suc (length (re_name e))) (re_data e) =
    Some (on_area d (main_img d (es @ [e]) @ post), OK)"
proof -
  let ?K = "key_img d True True False (Suc (length (re_name e))) (length (re_data e))"
  let ?nl = "align_size d (Suc (length (re_name e)))" and ?dl = "align_size d (length (re_data e))"
  let ?N = "padded d (re_name e @ [0])" and ?r = "raw_capacity d - recs_size d es - rec_size d e"
  let ?pos = "first_entry d + recs_size d es" and ?ks = "align_size d (raw_key_size d)"
  let ?L = "key_img d False (re_live e0) False (length (re_name e0) + 1) (length (re_data e0))"
  define P where "P = linked_img d es1 @ ?L"
  define Q where "Q = padded d (re_data e0) @ inner_img d es2 @ ?K"
  have L: "linked_img d es = linked_img d es1 @ rec_img d False e0 @ inner_img d es2"
    using es by (simp add: linked_img_def inner_img_def)
  have lk: "linked_img d es @ ?K = P @ ?N @ Q"
    using es(2) by (simp add: L P_def Q_def rec_img_def body_img_def)
  have dv: "rd_unit d dvd first_entry d" using first_key_unit [OF g] by (simp add: first_entry_def)
  have len: "length P = first_entry d + recs_size d es1 + ?ks" "length (P @ ?N @ Q) = ?pos + ?ks"
    using g by (simp add: P_def) (simp add: g flip: lk)
  have dvP: "rd_unit d dvd length P" "rd_unit d dvd length Q"
    using dv g by (simp_all add: len(1)) (simp add: Q_def length_padded g)
  define a1 where "a1 = linked_img d es @ ?K @ erased (?nl + ?dl + ?r) @ checksum_img d @ post"
  have 1: "add_key_body (on_area d (main_img d es @ post)) (Suc (length (re_name e))) (length (re_data e)) =
      Some (on_area d a1, OK, ?pos)"
    unfolding a1_def by (rule add_key_body_main [OF g ok oke(1) fit])
  have a1: "a1 = P @ ?N @ Q @ erased ?nl @ erased (?dl + ?r) @ checksum_img d @ post"
    using lk by (simp add: a1_def replicate_add)
  define a2 where "a2 = P @ ?N @ Q @ ?N @ erased (?dl + ?r) @ checksum_img d @ post"
  have 2: "copy_flash_data (on_area d a1) (?pos + ?ks) (length P) (Suc (length (re_name e))) = Some (on_area d a2)"
    unfolding a2_def using dvP len g
    by (intro copy_forth [OF g a1]) (simp_all add: length_padded clears_only_erased)
  have "a2 = linked_img d es @ ?K @ ?N @ erased (?dl + ?r) @ checksum_img d @ post"
    using lk by (simp add: a2_def)
  from write_data_at [OF g oke fit this refl]
  show ?thesis using 1 2 len by (simp add: add_key_copy_def raw_name_offset_def)
qed

lemma add_name_at:
  assumes g: "raw_geometry d" and ok: "\<forall>x \<in> set es. raw_entry_ok x" and oke: "raw_entry_ok e" "re_live e"
    and fit: "recs_size d es + rec_size d e \<le> raw_capacity d"
  shows "(do {
      (d2, ec, key_buf) \<leftarrow> add_key_body (on_area d (main_img d es @ post)) (Suc (length (re_name e))) (length (re_data e));
      if ec \<noteq> OK then Some (d2, ec)
      else do {
        d3 \<leftarrow> raw_write d2 (raw_name_offset d2 key_buf) (re_name e @ [0]);
        data_offset \<leftarrow> raw_data_offset d3 key_buf;
        d4 \<leftarrow> raw_write d3 data_offset (re_data e);
        Some (d4, OK)
      } }) = Some (on_area d (main_img d (es @ [e]) @ post), OK)"
proof -
  let ?K = "key_img d True True False (Suc (length (re_name e))) (length (re_data e))"
  let ?nl = "align_size d (Suc (length (re_name e)))" and ?dl = "align_size d (length (re_data e))"
  let ?N = "padded d (re_name e @ [0])" and ?r = "raw_capacity d - recs_size d es - rec_size d e"
  let ?pos = "first_entry d + recs_size d es" and ?ks = "align_size d (raw_key_size d)"
  have dv: "rd_unit d dvd first_entry d" using first_key_unit [OF g] by (simp add: first_entry_def)
  define a1 where "a1 = linked_img d es @ ?K @ erased (?nl + ?dl + ?r) @ checksum_img d @ post"
  have 1: "add_key_body (on_area d (main_img d es @ post)) (Suc (length (re_name e))) (length (re_data e)) =
      Some (on_area d a1, OK, ?pos)"
    unfolding a1_def by (rule add_key_body_main [OF g ok oke(1) fit])
  have 2: "raw_write (on_area d a1) (?pos + ?ks) (re_name e @ [0]) =
      Some (on_area d ((linked_img d es @ ?K) @ ?N @ erased (?dl + ?r) @ checksum_img d @ post))"
    unfolding a1_def using dv g by (intro raw_write_at [OF g, where mid = "erased ?nl"])
      (simp_all add: length_padded replicate_add clears_only_erased)
  from write_data_at [OF g oke fit refl refl, of post]
  show ?thesis using 1 2 by (simp add: raw_name_offset_def)
qed


section \<open>Setting a key\<close>

definition raw_dead :: "raw_entry \<Rightarrow> raw_entry" where
  "raw_dead e = e\<lparr>re_live := False\<rparr>"

lemma raw_dead_simps [simp]:
  "re_live (raw_dead e) = False" "re_name (raw_dead e) = re_name e" "re_data (raw_dead e) = re_data e"
  "raw_entry_ok (raw_dead e) = raw_entry_ok e" "rec_size d (raw_dead e) = rec_size d e"
  by (simp_all add: raw_dead_def raw_entry_ok_def rec_size_def)

lemma main_split: "main_img d (es1 @ e # es2) = linked_img d es1 @ rec_img d (es2 = []) e @ recs_img d es2 @
    erased (raw_capacity d - recs_size d (es1 @ e # es2)) @ checksum_img d"
  by (simp add: main_img_def linked_img_def recs_img_append)

lemma mark_dead_at:
  assumes g: "raw_geometry d"
  shows "raw_write (on_area d (main_img d (es1 @ e # es2) @ post)) (first_entry d + recs_size d es1)
      (raw_key_bytes (build_key (rd_unit d) (es2 = []) False False (Suc (length (re_name e))) (length (re_data e)))) =
    Some (on_area d (main_img d (es1 @ raw_dead e # es2) @ post))"
proof -
  let ?k = "\<lambda>l. key_img d (es2 = []) l False (Suc (length (re_name e))) (length (re_data e))"
  have dv: "rd_unit d dvd first_entry d" using first_key_unit [OF g] by (simp add: first_entry_def)
  have K: "?k False = padded d (raw_key_bytes (build_key (rd_unit d) (es2 = []) False False
      (Suc (length (re_name e))) (length (re_data e))))" by (simp add: key_img_def)
  have "raw_write (on_area d (main_img d (es1 @ e # es2) @ post)) (first_entry d + recs_size d es1)
      (raw_key_bytes (build_key (rd_unit d) (es2 = []) False False (Suc (length (re_name e))) (length (re_data e)))) =
    Some (on_area d (linked_img d es1 @ ?k False @ body_img d e @ recs_img d es2 @
      erased (raw_capacity d - recs_size d (es1 @ e # es2)) @ checksum_img d @ post))"
    using dv g by (intro raw_write_piece [OF K g, where mid = "?k (re_live e)"])
      (auto simp: main_split rec_img_def intro!: clears_key_img)
  then show ?thesis by (simp add: main_split rec_img_def body_img_def)
qed

lemma raw_data_compare_loop_eq:
  assumes "raw_area d = pre @ p @ s @ post" "data = p' @ t" "length s = length t" "base = length pre" "length p' = length p"
  shows "raw_data_compare_loop d base data (length p) (length t) = Some (s \<noteq> t)"
  using assms
proof (induction s t arbitrary: p p' rule: list_induct2')
  case (4 a s b t)
  have "raw_read (on_area d (raw_area d)) (length pre + length p) 1 = Some [a]"
    using 4 by (intro raw_read_at [where pre = "pre @ p" and post = "s @ post"]) simp_all
  then have r: "raw_read d (length pre + length p) 1 = Some [a]" by simp
  show ?case
  proof (cases "a = b")
    case True
    then show ?thesis using r "4.prems" "4.IH" [of "p @ [a]" "p' @ [b]"] by (simp add: nth_append)
  next
    case False
    then show ?thesis using r "4.prems" by (simp add: nth_append)
  qed
qed simp_all

lemma raw_data_compare_at:
  assumes g: "raw_geometry d" and ok: "raw_entry_ok e" and a: "a = pre @ rec_img d x e @ post"
    and off: "offset = length pre" and n: "length data = length (re_data e)"
  shows "raw_data_compare (on_area d a) offset data (length data) = Some (re_data e \<noteq> data)"
proof -
  let ?k = "key_img d x (re_live e) False (length (re_name e) + 1) (length (re_data e))"
  let ?p = "pre @ ?k @ padded d (re_name e @ [0])"
  let ?q = "replicate (align_size d (length (re_data e)) - length (re_data e)) 0xFF @ post"
  have "a = ?p @ [] @ re_data e @ ?q" using a by (simp add: rec_img_def body_img_def padded_def)
  then have "raw_data_compare_loop (on_area d a) (length ?p) data (length ([] :: u8 list)) (length data) =
      Some (re_data e \<noteq> data)"
    using n by (intro raw_data_compare_loop_eq [where pre = ?p and p' = "[]" and post = ?q]) simp_all
  then show ?thesis using raw_steps(4) [OF g ok a off] off g
    by (simp add: raw_data_compare_def length_padded add.assoc)
qed


section \<open>The map of a store\<close>

definition raw_map :: "raw_entry list \<Rightarrow> u8 list \<rightharpoonup> u8 list" where
  "raw_map es = map_of (map (\<lambda>e. (re_name e, re_data e)) (filter re_live es))"

lemma raw_map_iff:
  "distinct (live_names es) \<Longrightarrow>
   raw_map es name = Some v \<longleftrightarrow> (\<exists>e \<in> set es. re_live e \<and> re_name e = name \<and> re_data e = v)"
  unfolding raw_map_def by (subst map_of_eq_Some_iff) (auto simp: live_names_def comp_def)

lemma raw_map_None: "raw_map es name = None \<longleftrightarrow> (\<forall>e \<in> set es. re_live e \<longrightarrow> re_name e \<noteq> name)"
  unfolding raw_map_def map_of_eq_None_iff by force

lemma raw_map_live [simp]: "raw_map (filter re_live es) = raw_map es"
  by (simp add: raw_map_def)

lemma option_eq_Some: "(\<And>v. x = Some v \<longleftrightarrow> y = Some v) \<Longrightarrow> x = y"
  by (cases x; cases y) auto

lemma raw_map_update:
  assumes "distinct (live_names (es1 @ e # es2))" "re_live e" "re_live e'" "re_name e' = re_name e"
  shows "distinct (live_names (es1 @ raw_dead e # es2 @ [e']))"
    "raw_map (es1 @ raw_dead e # es2 @ [e']) = (raw_map (es1 @ e # es2))(re_name e \<mapsto> re_data e')"
proof -
  show d: "distinct (live_names (es1 @ raw_dead e # es2 @ [e']))"
    using assms by (auto simp: live_names_def)
  show "raw_map (es1 @ raw_dead e # es2 @ [e']) = (raw_map (es1 @ e # es2))(re_name e \<mapsto> re_data e')"
  proof
    fix n
    have "raw_map (es1 @ raw_dead e # es2 @ [e']) n = Some v \<longleftrightarrow>
        ((raw_map (es1 @ e # es2))(re_name e \<mapsto> re_data e')) n = Some v" for v
    proof (cases "n = re_name e")
      case True
      moreover have "re_name x \<noteq> re_name e" if "x \<in> set es1 \<union> set es2" "re_live x" for x
      proof -
        have "re_name e \<notin> re_name ` {x \<in> set es1 \<union> set es2. re_live x}"
          using assms(1,2) by (auto simp: live_names_def)
        then show ?thesis using that by (metis (mono_tags, lifting) imageI mem_Collect_eq)
      qed
      ultimately show ?thesis using assms by (auto simp: raw_map_iff [OF d])
    next
      case False
      then show ?thesis using assms by (auto simp: raw_map_iff [OF d] raw_map_iff [OF assms(1)])
    qed
    then show "raw_map (es1 @ raw_dead e # es2 @ [e']) n =
        ((raw_map (es1 @ e # es2))(re_name e \<mapsto> re_data e')) n" by (rule option_eq_Some)
  qed
qed

lemma raw_map_snoc:
  assumes "distinct (live_names es)" "re_live e" "raw_map es (re_name e) = None"
  shows "distinct (live_names (es @ [e]))" "raw_map (es @ [e]) = (raw_map es)(re_name e \<mapsto> re_data e)"
proof -
  show d: "distinct (live_names (es @ [e]))" using assms by (auto simp: live_names_def raw_map_None)
  show "raw_map (es @ [e]) = (raw_map es)(re_name e \<mapsto> re_data e)"
    using assms(2,3) by (auto simp: raw_map_def map_add_def fun_eq_iff split: option.split)
qed

lemma raw_storedE:
  assumes "raw_stored es d"
  obtains bk rest where "raw_layout es bk rest d" "raw_geometry d" "\<forall>e \<in> set es. raw_entry_ok e"
    "recs_size d es \<le> raw_capacity d" "raw_area d = main_img d es @ bk @ rest" "backup_ok d bk"
    "distinct (live_names es)" "es \<noteq> [] \<longrightarrow> re_live (last es)"
  using assms that by (auto simp: raw_stored_def raw_layout_def)

text \<open>Rewriting the first block keeps the rest.\<close>

lemma raw_stored_main:
  assumes s: "raw_stored es d" and a: "raw_area d = main_img d es @ post"
    and es: "\<forall>e \<in> set es'. raw_entry_ok e" "recs_size d es' \<le> raw_capacity d" "distinct (live_names es')"
      "es' \<noteq> [] \<longrightarrow> re_live (last es')"
  shows "raw_stored es' (on_area d (main_img d es' @ post))"
proof -
  obtain bk rest where l: "raw_geometry d" "recs_size d es \<le> raw_capacity d" "raw_area d = main_img d es @ bk @ rest"
    "backup_ok d bk" using s by (rule raw_storedE) blast
  have post: "post = bk @ rest" using l(3) a by simp
  have "raw_layout es' bk rest (on_area d (main_img d es' @ post))"
    using l es post by (simp add: raw_layout_def)
  then show ?thesis using es by (auto simp: raw_stored_def)
qed

text \<open>Whether the live entries and one more fit into the block.\<close>

definition raw_entry_of :: "u8 list \<Rightarrow> u8 list \<Rightarrow> raw_entry" where
  "raw_entry_of name v = \<lparr>re_live = True, re_name = name, re_data = v\<rparr>"

definition raw_room :: "raw_db \<Rightarrow> raw_entry list \<Rightarrow> u8 list \<Rightarrow> u8 list \<Rightarrow> bool" where
  "raw_room d es name v \<longleftrightarrow> recs_size d (filter re_live es) + rec_size d (raw_entry_of name v) \<le> raw_capacity d"

text \<open>The space of the entries of a map, and whether one more fits beside them.\<close>

definition map_space :: "raw_db \<Rightarrow> (u8 list \<rightharpoonup> u8 list) \<Rightarrow> nat" where
  "map_space d m = (\<Sum>name \<in> dom m. rec_size d (raw_entry_of name (the (m name))))"

definition map_room :: "raw_db \<Rightarrow> (u8 list \<rightharpoonup> u8 list) \<Rightarrow> u8 list \<Rightarrow> u8 list \<Rightarrow> bool" where
  "map_room d m name v \<longleftrightarrow> map_space d m + rec_size d (raw_entry_of name v) \<le> raw_capacity d"

lemma raw_entry_of_simps [simp]:
  "re_live (raw_entry_of name v)" "re_name (raw_entry_of name v) = name" "re_data (raw_entry_of name v) = v"
  by (simp_all add: raw_entry_of_def)

lemma rec_size_of: "rec_size d (raw_entry_of name v) =
    align_size d (raw_key_size d) + align_size d (Suc (length name)) + align_size d (length v)"
  by (simp add: rec_size_def)

lemma live_space:
  assumes "distinct (live_names es)"
  shows "recs_size d (filter re_live es) = map_space d (raw_map es)"
proof -
  let ?f = "\<lambda>n. rec_size d (raw_entry_of n (the (raw_map es n)))"
  have "dom (raw_map es) = set (live_names es)"
    by (auto simp: raw_map_def live_names_def dom_map_of_conv_image_fst image_image)
  moreover have "map ?f (live_names es) = map (rec_size d) (filter re_live es)"
  proof (unfold live_names_def map_map, rule map_cong [OF refl])
    fix e assume "e \<in> set (filter re_live es)"
    then have "raw_map es (re_name e) = Some (re_data e)" using raw_map_iff [OF assms] by auto
    then show "(?f \<circ> re_name) e = rec_size d e" by (simp add: rec_size_def)
  qed
  ultimately show ?thesis
    using sum_list_distinct_conv_sum_set [OF assms, of ?f] by (simp add: map_space_def recs_size_def)
qed

lemma raw_room_map: "raw_stored es d \<Longrightarrow> raw_room d es name v = map_room d (raw_map es) name v"
  by (simp add: raw_room_def map_room_def live_space raw_stored_def)

lemma available_less_stored:
  assumes "raw_stored es d"
  shows "available_less d n = Some (raw_capacity d - recs_size d es < n)"
proof -
  obtain bk rest where l: "raw_geometry d" "\<forall>e \<in> set es. raw_entry_ok e" "recs_size d es \<le> raw_capacity d"
    "raw_area d = main_img d es @ bk @ rest" using assms by (rule raw_storedE) blast
  have "available_less (on_area d (raw_area d)) n = Some (raw_capacity d - recs_size d es < n)"
    using available_less_at [OF l(1,2) _ free_space [OF l(1,3)], of "raw_area d"] l(4) by (simp add: main_img_def)
  then show ?thesis by simp
qed

lemma raw_find_eq:
  assumes "raw_stored es d"
  shows "(case raw_map es name of
      None \<Rightarrow> fst (raw_find d name (first_entry d) es) = 0
    | Some v \<Rightarrow> \<exists>es1 e es2. es = es1 @ e # es2 \<and> re_live e \<and> re_name e = name \<and> re_data e = v \<and>
        fst (raw_find d name (first_entry d) es) = first_entry d + recs_size d es1)"
proof (cases "raw_map es name")
  case None
  then show ?thesis using raw_find_None [of es name d "first_entry d"] iffD1 [OF raw_map_None None] by simp
next
  case (Some v)
  have dist: "distinct (live_names es)" using assms by (simp add: raw_stored_def)
  then obtain e where "e \<in> set es" "re_live e" "re_name e = name" using Some raw_map_iff by blast
  moreover have "0 < first_entry d" by (simp add: first_entry_def raw_first_key_def less_max_iff_disj)
  ultimately obtain es1 e' es2 where r: "es = es1 @ e' # es2" "re_live e'" "re_name e' = name"
    "fst (raw_find d name (first_entry d) es) = first_entry d + recs_size d es1"
    using raw_find_Some [of e es name "first_entry d" d] by blast
  have "raw_map es name = Some (re_data e')" using r raw_map_iff [OF dist] by auto
  then show ?thesis using r Some by auto
qed

end
