(* ===== verification/Raw_Refinement.thy ===== *)
theory Raw_Refinement
  imports Raw_Operations
begin

text \<open>
  \<open>Get\<close>, \<open>Set\<close>, \<open>Add\<close> and \<open>Init\<close> of \<open>DatabaseRaw\<close> on a store with entries, as operations on the map of its
  live entries, and the interpretation of the interface \<open>key_database\<close>.
\<close>

text \<open>The relation of a store before and after an operation: the same device and parameters.\<close>

definition same_store :: "raw_db \<Rightarrow> raw_db \<Rightarrow> bool" where
  "same_store d d' \<longleftrightarrow> d' = on_area d (raw_area d')"

lemma same_store_refl [simp]: "same_store d d"
  by (simp add: same_store_def)

lemma same_store_trans: "same_store d d1 \<Longrightarrow> same_store d1 d2 \<Longrightarrow> same_store d d2"
  unfolding same_store_def by (metis on_area_simps(7))

lemma same_store_on_area [simp]: "same_store d (on_area d a)"
  by (simp add: same_store_def)

lemma same_store_fields:
  assumes "same_store d d'"
  shows "rd_debug d' = rd_debug d" "rd_unit d' = rd_unit d" "rd_signed_char d' = rd_signed_char d"
    "rd_block_size d' = rd_block_size d"
    "raw_capacity d' = raw_capacity d" "recs_size d' = recs_size d" "rec_size d' = rec_size d"
    "align_size d' = align_size d" "raw_key_size d' = raw_key_size d" "first_entry d' = first_entry d"
    "raw_room d' = raw_room d"
  by (subst assms [unfolded same_store_def], simp add: first_entry_def raw_room_def fun_eq_iff)+

lemma raw_search_spec:
  assumes s: "raw_stored es d" and name: "plain_name (rd_signed_char d) name"
  obtains d' es' where "raw_search_key d name = Some (d', fst (raw_find d' name (first_entry d') es'))"
    "raw_stored es' d'" "filter re_live es' = filter re_live es" "same_store d d'" "recs_size d es' \<le> recs_size d es"
proof -
  note result = that
  obtain d' es' where r: "raw_search_key d name = Some (d', fst (raw_find d name (first_entry d) es'))"
    "raw_stored es' d'" "es' = es \<or> es' = filter re_live es" "d' = on_area d (raw_area d')"
    using raw_search_key_eq [OF s name] by blast
  have "raw_find d' name o' xs = raw_find d name o' xs" "first_entry d' = first_entry d" for o' xs
    by (subst r(4), simp add: first_entry_def)+
  then show thesis using r recs_size_filter [of d re_live es]
    by (intro result [of d' es']) (auto simp: same_store_def)
qed

lemma raw_map_filter_eq: "filter re_live es' = filter re_live es \<Longrightarrow> raw_map es' = raw_map es"
  by (simp add: raw_map_def)

text \<open>Reading the header and the data of an entry.\<close>

lemma raw_entry_at:
  assumes s: "raw_stored (es1 @ e # es2) d" and off: "offset = first_entry d + recs_size d es1"
  shows "raw_read_key d offset = Some (build_key (rd_unit d) (es2 = []) (re_live e) False
      (Suc (length (re_name e))) (length (re_data e)))"
    "rk_name_length (build_key (rd_unit d) x y z (Suc (length (re_name e))) n) = Suc (length (re_name e))"
    "rk_data_size (build_key (rd_unit d) x y z nl (length (re_data e))) = length (re_data e)"
    "length data = length (re_data e) \<Longrightarrow> raw_data_compare d offset data (length data) = Some (re_data e \<noteq> data)"
    "\<exists>data_offset. raw_data_offset d offset = Some data_offset \<and>
       (\<forall>n. length (re_data e) \<le> n \<and> (n = length (re_data e) \<or> n \<le> rd_block_size d) \<longrightarrow>
          (\<exists>more. raw_read d data_offset n = Some (re_data e @ more) \<and> length (re_data e @ more) = n))"
proof -
  obtain bk rest where l: "raw_geometry d" "\<forall>x \<in> set (es1 @ e # es2). raw_entry_ok x"
    "raw_area d = main_img d (es1 @ e # es2) @ bk @ rest" using s by (rule raw_storedE) blast
  have ok: "raw_entry_ok e" using l by simp
  have "recs_size d (es1 @ e # es2) \<le> raw_capacity d" using s by (rule raw_storedE) blast
  then have lmem: "first_entry d + recs_size d es1 + rec_size d e \<le> rd_block_size d"
    using block_parts [OF l(1)] by (simp add: first_entry_def)
  obtain post where a: "raw_area d = linked_img d es1 @ rec_img d (es2 = []) e @ post"
    using l(3) by (auto simp: main_split)
  have off: "offset = length (linked_img d es1)" using off l by simp
  note st = raw_steps [OF l(1) ok a off, simplified]
  show "raw_read_key d offset = Some (build_key (rd_unit d) (es2 = []) (re_live e) False
      (Suc (length (re_name e))) (length (re_data e)))" by (rule st(1))
  show "rk_name_length (build_key (rd_unit d) x y z (Suc (length (re_name e))) n) = Suc (length (re_name e))"
    "rk_data_size (build_key (rd_unit d) x y z nl (length (re_data e))) = length (re_data e)"
    using ok by (simp_all add: raw_entry_ok_def)
  show "raw_data_compare d offset data (length data) = Some (re_data e \<noteq> data)"
    if "length data = length (re_data e)"
    using raw_data_compare_at [OF l(1) ok a off that] by simp
  let ?k = "key_img d (es2 = []) (re_live e) False (length (re_name e) + 1) (length (re_data e))"
  let ?p = "linked_img d es1 @ ?k @ padded d (re_name e @ [0])"
  let ?f = "flash_size (rd_flash d)"
  define tail where "tail = replicate (align_size d (length (re_data e)) - length (re_data e)) 0xFF @ post"
  have tail: "raw_area d = ?p @ re_data e @ tail"
    using a by (simp add: rec_img_def body_img_def padded_def tail_def)
  have "?f = length (raw_area d)" by (simp add: raw_area_def flash_size_def)
  then have size: "length ?p + length (re_data e) + length tail = ?f" unfolding tail by simp
  have size2: "2 * rd_block_size d \<le> ?f" using l(1) by (simp add: raw_geometry_def)
  have "length ?p \<le> rd_block_size d"
    using l(1) lmem by (simp add: length_padded rec_size_def)
  then have "\<exists>more. raw_read d (length ?p) n = Some (re_data e @ more) \<and> length (re_data e @ more) = n"
    if "length (re_data e) \<le> n" "n = length (re_data e) \<or> n \<le> rd_block_size d" for n
  proof -
    have n: "n \<le> length (re_data e @ tail)" using size size2 that \<open>length ?p \<le> rd_block_size d\<close> by auto
    have "raw_read (on_area d (raw_area d)) (length ?p) n = Some (take n (drop 0 (re_data e @ tail)))"
      by (rule raw_read_within [where pre = ?p and post = "[]"]) (use tail n in simp_all)
    then show ?thesis using that n by (intro exI [of _ "take (n - length (re_data e)) tail"]) auto
  qed
  moreover have "raw_data_offset d offset = Some (length ?p)"
    using st(4) off l(1) by (simp add: length_padded)
  ultimately show "\<exists>data_offset. raw_data_offset d offset = Some data_offset \<and>
       (\<forall>n. length (re_data e) \<le> n \<and> (n = length (re_data e) \<or> n \<le> rd_block_size d) \<longrightarrow>
          (\<exists>more. raw_read d data_offset n = Some (re_data e @ more) \<and> length (re_data e @ more) = n))" by blast
qed

lemma raw_last_key_stored: assumes "raw_stored es d" shows "\<exists>p. raw_last_key d MAIN = Some p"
proof -
  obtain bk rest where l: "raw_geometry d" "\<forall>x \<in> set es. raw_entry_ok x"
    "raw_area d = main_img d es @ bk @ rest" using assms by (rule raw_storedE) blast
  have "raw_last_key (on_area d (raw_area d)) MAIN \<noteq> None"
    using last_and_used_at(1) [OF l(1,2), of "raw_area d"] l(3) by (simp add: main_img_def)
  then show ?thesis by auto
qed

section \<open>\<open>Get\<close>\<close>

lemma raw_get_spec:
  assumes s: "raw_stored es d" and name: "plain_name (rd_signed_char d) name"
  obtains d' es' where "raw_stored es' d'" "raw_map es' = raw_map es" "same_store d d'"
    "raw_map es name = None \<longrightarrow> raw_get d name out = Some (d', NOT_FOUND, out)"
    "\<forall>v. raw_map es name = Some v \<and> length out < length v \<longrightarrow> raw_get d name out = Some (d', FAILED, out)"
    "\<forall>v. raw_map es name = Some v \<and> length v \<le> length out \<and> (length out = length v \<or> length out \<le> rd_block_size d) \<longrightarrow>
       (\<exists>more. raw_get d name out = Some (d', OK, v @ more) \<and> length (v @ more) = length out)"
proof -
  note result = that
  obtain d' es' where r: "raw_search_key d name = Some (d', fst (raw_find d' name (first_entry d') es'))"
    "raw_stored es' d'" "filter re_live es' = filter re_live es" "same_store d d'"
    using raw_search_spec [OF s name] by blast
  have m: "raw_map es' = raw_map es" by (rule raw_map_filter_eq [OF r(3)])
  note f = raw_find_eq [OF r(2), of name, unfolded m]
  have pos: "0 < first_entry d'" by (simp add: first_entry_def raw_first_key_def less_max_iff_disj)
  have none: "raw_get d name out = Some (d', NOT_FOUND, out)" if "raw_map es name = None"
    using f r(1) that by (simp add: raw_get_def)
  have some: "(length out < length v \<longrightarrow> raw_get d name out = Some (d', FAILED, out)) \<and>
      (length v \<le> length out \<and> (length out = length v \<or> length out \<le> rd_block_size d) \<longrightarrow>
       (\<exists>more. raw_get d name out = Some (d', OK, v @ more) \<and> length (v @ more) = length out))" if v: "raw_map es name = Some v" for v
  proof -
    obtain es1 e es2 where e: "es' = es1 @ e # es2" "re_data e = v"
      "fst (raw_find d' name (first_entry d') es') = first_entry d' + recs_size d' es1" using f v by auto
    note at = raw_entry_at [OF r(2) [unfolded e(1)] refl]
    have bs: "rd_block_size d' = rd_block_size d" using r(4) by (simp add: same_store_fields)
    obtain o1 where o1: "raw_data_offset d' (first_entry d' + recs_size d' es1) = Some o1"
      "\<And>n. length v \<le> n \<Longrightarrow> n = length v \<or> n \<le> rd_block_size d \<Longrightarrow>
        \<exists>more. raw_read d' o1 n = Some (v @ more) \<and> length (v @ more) = n" using at(5) e(2) bs by auto
    have "\<exists>more. raw_get d name out = Some (d', OK, v @ more) \<and> length (v @ more) = length out"
      if out: "length v \<le> length out" "length out = length v \<or> length out \<le> rd_block_size d"
    proof -
      obtain more where "raw_read d' o1 (length out) = Some (v @ more)" "length (v @ more) = length out"
        using o1(2) [OF out] by blast
      then show ?thesis using r(1) e at o1(1) pos out by (simp add: raw_get_def)
    qed
    moreover have "raw_get d name out = Some (d', FAILED, out)" if "length out < length v"
      using r(1) e at pos that by (simp add: raw_get_def)
    ultimately show ?thesis by blast
  qed
  show thesis by (rule result [OF r(2) m r(4)]) (use none some in auto)
qed

section \<open>\<open>Set\<close>\<close>

text \<open>A step stores the value, or leaves the store to what it does when the space does not suffice.\<close>

lemma set_key_step_spec:
  assumes s: "raw_stored es d" and name: "plain_name (rd_signed_char d) name"
    and v: "raw_map es name = Some w" "length w = length v" "w \<noteq> v"
  shows "(\<exists>d2 es2. set_key_step full d name v = Some (d2, OK) \<and> raw_stored es2 d2 \<and>
      raw_map es2 = (raw_map es)(name \<mapsto> v) \<and> same_store d d2 \<and> raw_room d es name v) \<or>
    (\<exists>d1 es1. set_key_step full d name v = full d1 \<and> raw_stored es1 d1 \<and>
      filter re_live es1 = filter re_live es \<and> recs_size d es1 \<le> recs_size d es \<and> same_store d d1 \<and>
      raw_capacity d < recs_size d es1 + rec_size d (raw_entry_of name v))"
proof -
  obtain d1 es1 where r: "raw_search_key d name = Some (d1, fst (raw_find d1 name (first_entry d1) es1))"
    "raw_stored es1 d1" "filter re_live es1 = filter re_live es" "same_store d d1" "recs_size d es1 \<le> recs_size d es"
    using raw_search_spec [OF s name] by blast
  have m: "raw_map es1 = raw_map es" by (rule raw_map_filter_eq [OF r(3)])
  have pos: "0 < first_entry d1" by (simp add: first_entry_def raw_first_key_def less_max_iff_disj)
  obtain fs e gs where e: "es1 = fs @ e # gs" "re_live e" "re_name e = name" "re_data e = w"
    "fst (raw_find d1 name (first_entry d1) es1) = first_entry d1 + recs_size d1 fs"
    using raw_find_eq [OF r(2), of name, unfolded m] v(1) by auto
  note at = raw_entry_at [OF r(2) [unfolded e(1)] refl]
  let ?n = "raw_entry_of name v" and ?pos = "first_entry d1 + recs_size d1 fs"
  let ?short = "raw_capacity d1 - recs_size d1 es1 < rec_size d1 ?n"
  have short: "available_less d1 (align_size d1 (length v) + align_size d1 (raw_key_size d1) +
      align_size d1 (Suc (length name))) = Some ?short"
    using available_less_stored [OF r(2)] by (simp add: rec_size_of add.commute add.left_commute)
  obtain bk rest where l: "raw_geometry d1" "\<forall>x \<in> set es1. raw_entry_ok x" "recs_size d1 es1 \<le> raw_capacity d1"
    "raw_area d1 = main_img d1 es1 @ bk @ rest" "distinct (live_names es1)" using r(2) by (rule raw_storedE) blast
  let ?post = "bk @ rest"
  have w: "0 < rd_unit d1" by (rule unit_pos [OF l(1)])
  let ?es' = "fs @ raw_dead e # gs"
  have 1: "raw_write d1 ?pos (raw_key_bytes (build_key (rd_unit d1) (gs = []) False False
      (Suc (length name)) (length v))) = Some (on_area d1 (main_img d1 ?es' @ ?post))"
    using mark_dead_at [OF l(1), of fs e gs ?post] e v(2) l(4) by (metis on_area_simps(9))
  have step: "set_key_step full d name v = (if ?short then full d1
      else add_key_copy (on_area d1 (main_img d1 ?es' @ ?post)) (?pos + align_size d1 (raw_key_size d1))
        (Suc (length name)) v)"
    unfolding set_key_step_def
    using r(1) e at v pos short 1 w by (simp add: raw_name_offset_def)
  show ?thesis
  proof (cases ?short)
    case True
    then have "raw_capacity d < recs_size d es1 + rec_size d ?n"
      using l(3) by (simp add: same_store_fields [OF r(4)])
    then show ?thesis using step True r by auto
  next
    case False
    have oke: "raw_entry_ok e" using l(2) e(1) by simp
    then have okn: "raw_entry_ok ?n" using e v(2) by (simp add: raw_entry_ok_def)
    have fit: "recs_size d1 ?es' + rec_size d1 ?n \<le> raw_capacity d1"
      using False l(3) e(1) by simp
    have ok': "\<forall>x \<in> set ?es'. raw_entry_ok x" using l(2) e(1) by auto
    have 2: "add_key_copy (on_area d1 (main_img d1 ?es' @ ?post)) (?pos + align_size d1 (raw_key_size d1))
        (Suc (length name)) v = Some (on_area d1 (main_img d1 (?es' @ [?n]) @ ?post), OK)"
      using add_key_copy_at [OF l(1) ok' okn _ fit refl] e by simp
    note upd = raw_map_update [OF l(5) [unfolded e(1)] e(2), of ?n]
    have "raw_stored (?es' @ [?n]) (on_area d1 (main_img d1 (?es' @ [?n]) @ ?post))"
      using ok' okn fit upd(1) e by (intro raw_stored_main [OF r(2) l(4)]) auto
    moreover have "raw_map (?es' @ [?n]) = (raw_map es)(name \<mapsto> v)" using upd(2) e m by simp
    moreover have "same_store d (on_area d1 (main_img d1 (?es' @ [?n]) @ ?post))"
      using r(4) same_store_trans by simp
    moreover have "raw_room d es name v"
      using False l(3) recs_size_filter [of d re_live es1] r(3) by (simp add: raw_room_def same_store_fields [OF r(4)])
    ultimately show ?thesis using step 2 False by auto
  qed
qed


lemma raw_set_spec:
  assumes s: "raw_stored es d" and name: "plain_name (rd_signed_char d) name"
    and v: "raw_map es name = Some w" "length w = length v" and full: "rd_debug d \<longrightarrow> raw_room d es name v"
  shows "\<exists>d' es' ec. raw_set d name v = Some (d', ec) \<and> raw_stored es' d' \<and> same_store d d' \<and>
    (ec = OK \<and> raw_map es' = (raw_map es)(name \<mapsto> v) \<and> (w = v \<or> raw_room d es name v) \<or>
     ec = FULL \<and> raw_map es' = raw_map es \<and> w \<noteq> v \<and> \<not> raw_room d es name v)"
proof (cases "w = v")
  case True
  obtain d1 es1 where r: "raw_search_key d name = Some (d1, fst (raw_find d1 name (first_entry d1) es1))"
    "raw_stored es1 d1" "filter re_live es1 = filter re_live es" "same_store d d1"
    using raw_search_spec [OF s name] by blast
  have m: "raw_map es1 = raw_map es" by (rule raw_map_filter_eq [OF r(3)])
  obtain fs e gs where e: "es1 = fs @ e # gs" "re_live e" "re_name e = name" "re_data e = w"
    "fst (raw_find d1 name (first_entry d1) es1) = first_entry d1 + recs_size d1 fs"
    using raw_find_eq [OF r(2), of name, unfolded m] v(1) by auto
  have "0 < first_entry d1" by (simp add: first_entry_def raw_first_key_def less_max_iff_disj)
  then have "raw_set d name v = Some (d1, OK)"
    using r(1) e raw_entry_at [OF r(2) [unfolded e(1)] refl] v True
    by (simp add: raw_set_def raw_set_key_def set_key_step_def)
  then show ?thesis using r m v True by (intro exI [of _ d1] exI [of _ es1]) (auto simp: fun_upd_idem)
next
  case False
  let ?f = "\<lambda>d3. map_option (Pair d3) (report_full d3)"
  let ?again = "\<lambda>d1. raw_recycle d1 \<bind> (\<lambda>d2. set_key_step ?f d2 name v)"
  have set: "raw_set d name v = set_key_step ?again d name v" by (simp add: raw_set_def raw_set_key_def)
  consider (ok) d2 es2 where "raw_set d name v = Some (d2, OK)" "raw_stored es2 d2"
      "raw_map es2 = (raw_map es)(name \<mapsto> v)" "same_store d d2" "raw_room d es name v"
    | (again) d1 es1 where "raw_set d name v = ?again d1" "raw_stored es1 d1"
      "filter re_live es1 = filter re_live es" "same_store d d1"
    using set_key_step_spec [OF s name v False, of ?again] unfolding set by blast
  then show ?thesis
  proof cases
    case ok
    then show ?thesis by blast
  next
    case again
    let ?live = "filter re_live es"
    obtain d2 where d2: "raw_recycle d1 = Some d2" "raw_stored ?live d2" "same_store d1 d2"
      using raw_recycle_stored [OF again(2)] again(3) unfolding same_store_def by auto
    have same: "same_store d d2" using again(4) d2(3) by (rule same_store_trans)
    have set2: "raw_set d name v = set_key_step ?f d2 name v" using again(1) d2(1) by simp
    have v2: "raw_map ?live name = Some w" "plain_name (rd_signed_char d2) name"
      using v name same_store_fields(3) [OF same] by simp_all
    consider (ok) d3 es3 where "raw_set d name v = Some (d3, OK)" "raw_stored es3 d3"
        "raw_map es3 = (raw_map es)(name \<mapsto> v)" "same_store d d3" "raw_room d2 ?live name v"
      | (full) d3 es3 where "raw_set d name v = ?f d3" "raw_stored es3 d3"
        "filter re_live es3 = ?live" "recs_size d2 es3 \<le> recs_size d2 ?live" "same_store d d3"
        "raw_capacity d2 < recs_size d2 es3 + rec_size d2 (raw_entry_of name v)"
      using set_key_step_spec [OF d2(2) v2(2,1) v(2) False, of ?f] same_store_trans [OF same]
      unfolding set2 by auto
    then show ?thesis
    proof cases
      case ok
      have "raw_room d es name v" using ok(5) by (simp add: raw_room_def same_store_fields [OF same])
      then show ?thesis using ok by blast
    next
      case full
      have "\<not> raw_room d es name v" using full(4,6) same_store_fields [OF same] by (simp add: raw_room_def)
      moreover from this have "raw_set d name v = Some (d3, FULL)"
        using full(1) assms(5) same_store_fields(1) [OF full(5)] by (simp add: report_full_def)
      ultimately show ?thesis using full False raw_map_filter_eq [OF full(3)] by (metis raw_map_live)
    qed
  qed
qed

section \<open>\<open>Add\<close>\<close>

lemma raw_add_spec:
  assumes s: "raw_stored es d" and name: "plain_name (rd_signed_char d) name"
    and ok: "length name + 1 < 128" "length v < 2 ^ 25" and new: "raw_map es name = None"
    and full: "rd_debug d \<longrightarrow> raw_room d es name v"
  shows "\<exists>d' es' ec. raw_add d name v = Some (d', ec) \<and> raw_stored es' d' \<and> same_store d d' \<and>
    (ec = OK \<and> raw_map es' = (raw_map es)(name \<mapsto> v) \<and> raw_room d es name v \<or>
     ec = FULL \<and> raw_map es' = raw_map es \<and> \<not> raw_room d es name v)"
proof -
  let ?e = "raw_entry_of name v" and ?live = "filter re_live es"
  obtain d1 es1 where r: "raw_search_key d name = Some (d1, fst (raw_find d1 name (first_entry d1) es1))"
    "raw_stored es1 d1" "filter re_live es1 = ?live" "same_store d d1"
    using raw_search_spec [OF s name] by blast
  have m: "raw_map es1 = raw_map es" by (rule raw_map_filter_eq [OF r(3)])
  have ans: "fst (raw_find d1 name (first_entry d1) es1) = 0" using raw_find_eq [OF r(2), of name] m new by simp
  have oke: "raw_entry_ok ?e" using ok name by (simp add: raw_entry_ok_def plain_name_def)
  let ?body = "\<lambda>d1. do {
      (d2, ec, key_buf) \<leftarrow> add_key_body d1 (Suc (length name)) (length v);
      if ec \<noteq> OK then Some (d2, ec)
      else do {
        d3 \<leftarrow> raw_write d2 (raw_name_offset d2 key_buf) (name @ [0]);
        data_offset \<leftarrow> raw_data_offset d3 key_buf;
        d4 \<leftarrow> raw_write d3 data_offset v;
        Some (d4, OK)
      } }"
  have add: "raw_add d name v = ?body d1"
    using r(1) ans by (simp add: raw_add_def raw_add_key_def)
  text \<open>The new key fits: it is appended to the entries that are there.\<close>
  have fits: "\<exists>d' es'. ?body d2 = Some (d', OK) \<and> raw_stored es' d' \<and> same_store d2 d' \<and>
      raw_map es' = (raw_map es)(name \<mapsto> v)"
    if st: "raw_stored es2 d2" and m2: "raw_map es2 = raw_map es"
      and fit: "recs_size d2 es2 + rec_size d2 ?e \<le> raw_capacity d2" for d2 es2
  proof -
    obtain bk rest where l: "raw_geometry d2" "\<forall>x \<in> set es2. raw_entry_ok x"
      "raw_area d2 = main_img d2 es2 @ bk @ rest" "distinct (live_names es2)" using st by (rule raw_storedE) blast
    have "?body (on_area d2 (main_img d2 es2 @ bk @ rest)) =
        Some (on_area d2 (main_img d2 (es2 @ [?e]) @ bk @ rest), OK)"
      using add_name_at [OF l(1,2) oke _ fit, of "bk @ rest", unfolded raw_entry_of_simps] by simp
    moreover have "on_area d2 (main_img d2 es2 @ bk @ rest) = d2" using l(3) by (metis on_area_simps(9))
    moreover note upd = raw_map_snoc [OF l(4), of ?e]
    moreover have "raw_stored (es2 @ [?e]) (on_area d2 (main_img d2 (es2 @ [?e]) @ bk @ rest))"
      using l(2) oke fit upd(1) m2 new by (intro raw_stored_main [OF st l(3)]) auto
    ultimately show ?thesis using m2 new by auto
  qed
  let ?need = "align_size d1 (raw_key_size d1) + align_size d1 (Suc (length name)) + align_size d1 (length v)"
  have need: "available_less d2 ?need = Some (raw_capacity d2 - recs_size d2 es2 < rec_size d2 ?e)"
    if "raw_stored es2 d2" "same_store d1 d2" for d2 es2
    using available_less_stored [OF that(1), of ?need] by (simp add: rec_size_of same_store_fields [OF that(2)])
  show ?thesis
  proof (cases "recs_size d1 es1 + rec_size d1 ?e \<le> raw_capacity d1")
    case True
    moreover have "raw_room d es name v"
      using True recs_size_filter [of d re_live es1] r(3) by (simp add: raw_room_def same_store_fields [OF r(4)])
    ultimately show ?thesis using fits [OF r(2) m] add same_store_trans [OF r(4)] by auto
  next
    case False
    obtain d2 where d2: "raw_recycle d1 = Some d2" "raw_stored ?live d2" "same_store d1 d2"
      using raw_recycle_stored [OF r(2)] r(3) unfolding same_store_def by auto
    have same: "same_store d d2" using r(4) d2(3) by (rule same_store_trans)
    note eqs = same_store_fields [OF d2(3)]
    have le: "recs_size x es' \<le> raw_capacity x" if "raw_stored es' x" for x es'
      using that by (rule raw_storedE) blast
    have short: "available_less d1 ?need = Some True" using need [OF r(2)] False le [OF r(2)] by auto
    obtain p q where last: "raw_last_key d1 MAIN = Some p" "raw_last_key d2 MAIN = Some q"
      using raw_last_key_stored [OF r(2)] raw_last_key_stored [OF d2(2)] by auto
    show ?thesis
    proof (cases "recs_size d2 ?live + rec_size d2 ?e \<le> raw_capacity d2")
      case True
      then have "available_less d2 ?need = Some False" using need [OF d2(2,3)] by auto
      then have "add_key_body d1 (Suc (length name)) (length v) = add_key_body d2 (Suc (length name)) (length v)"
        using d2(1) short last by (simp add: add_key_body_def eqs)
      moreover have "raw_room d es name v" using True by (simp add: raw_room_def same_store_fields [OF same])
      ultimately show ?thesis using fits [OF d2(2) _ True] add same_store_trans [OF same] by auto
    next
      case False
      then have "available_less d2 ?need = Some True" using need [OF d2(2,3)] le [OF d2(2)] by auto
      moreover have "\<not> raw_room d es name v" using False same_store_fields [OF same] by (simp add: raw_room_def)
      moreover from this have "report_full d2 = Some FULL"
        using full same_store_fields(1) [OF same] by (simp add: report_full_def)
      ultimately have "raw_add d name v = Some (d2, FULL)"
        using add d2(1) short last by (simp add: add_key_body_def)
      then show ?thesis using d2(2) same \<open>\<not> raw_room d es name v\<close> by (metis raw_map_live)
    qed
  qed
qed


section \<open>\<open>Init\<close>\<close>

definition dead_keys :: "raw_entry list \<Rightarrow> nat" where
  "dead_keys es = length (filter (\<lambda>e. \<not> re_live e) es)"

lemma init_loop_step:
  assumes "raw_read_key d off = Some k" "\<not> read_flag (rk_no_next k)" "raw_next_key d off = Some off'"
    "raw_read_key d off' = Some k'" "off' + align_size d (raw_key_size d) \<le> checksum_offset d"
  shows "raw_init_loop d off c =
    (if read_flag (rk_uninit k') then map_option (\<lambda>d1. (d1, c)) (raw_init_block d MAIN)
     else raw_init_loop d off' (if read_flag (rk_available k') then c else c + 1))"
  using assms by (subst raw_init_loop.simps) simp

text \<open>The loop passes entries that say that another follows.\<close>

lemma init_loop_inner:
  assumes g: "raw_geometry d" and "\<forall>e \<in> set es. raw_entry_ok e" "a = pre @ inner_img d es @ post"
    "length pre + recs_size d es \<le> checksum_offset d"
    "raw_read_key (on_area d a) off = Some k" "\<not> read_flag (rk_no_next k)"
    "raw_next_key (on_area d a) off = Some (length pre)"
  shows "\<exists>off' k'. raw_init_loop (on_area d a) off c = raw_init_loop (on_area d a) off' (c + dead_keys es) \<and>
    raw_read_key (on_area d a) off' = Some k' \<and> \<not> read_flag (rk_no_next k') \<and>
    raw_next_key (on_area d a) off' = Some (length pre + recs_size d es)"
  using assms(2-)
proof (induction es arbitrary: pre off k c)
  case Nil
  then show ?case by (auto simp: dead_keys_def)
next
  case (Cons e es)
  have a: "a = pre @ rec_img d False e @ inner_img d es @ post" "raw_entry_ok e"
    using Cons.prems by (simp_all add: inner_img_def)
  note st = raw_steps [OF g a(2,1) refl]
  have w: "0 < rd_unit d" by (rule unit_pos [OF g])
  have "length pre + align_size d (raw_key_size d) \<le> checksum_offset d"
    using Cons.prems(3) by (simp add: rec_size_def)
  with init_loop_step [of "on_area d a" off k "length pre" _ c] Cons.prems(4-6) st(1) w
  have 1: "raw_init_loop (on_area d a) off c = raw_init_loop (on_area d a) (length pre) (if re_live e then c else c + 1)"
    by simp
  have "\<exists>off' k'. raw_init_loop (on_area d a) (length pre) (if re_live e then c else c + 1) =
      raw_init_loop (on_area d a) off' ((if re_live e then c else c + 1) + dead_keys es) \<and>
    raw_read_key (on_area d a) off' = Some k' \<and> \<not> read_flag (rk_no_next k') \<and>
    raw_next_key (on_area d a) off' = Some (length (pre @ rec_img d False e) + recs_size d es)"
  proof (rule Cons.IH)
    show "raw_read_key (on_area d a) (length pre) = Some (build_key (rd_unit d) False (re_live e) False
        (length (re_name e) + 1) (length (re_data e)))" by (rule st(1))
    show "\<not> read_flag (rk_no_next (build_key (rd_unit d) False (re_live e) False
        (length (re_name e) + 1) (length (re_data e))))" using w by simp
    show "raw_next_key (on_area d a) (length pre) = Some (length (pre @ rec_img d False e))" using st(2) g by simp
  qed (use Cons.prems a g in simp_all)
  then show ?case unfolding 1 using g by (simp add: dead_keys_def add.assoc split: if_splits)
qed

lemma raw_init_loop_at:
  assumes s: "raw_stored es d"
  shows "raw_init_loop d (raw_first_key d) 0 = Some (d, dead_keys es)"
proof -
  obtain bk rest where l: "raw_geometry d" "\<forall>e \<in> set es. raw_entry_ok e" "recs_size d es \<le> raw_capacity d"
    "raw_area d = main_img d es @ bk @ rest" "es \<noteq> [] \<longrightarrow> re_live (last es)" using s by (rule raw_storedE) blast
  note g = l(1)
  define a where "a = raw_area d"
  have d: "on_area d a = d" by (simp add: a_def)
  have w: "0 < rd_unit d" by (rule unit_pos [OF g])
  have le: "first_entry d + recs_size d es \<le> checksum_offset d" using free_space [OF l(1,3)] by simp
  have "a = header_img d @ first_img d (es = []) @ recs_img d es @ erased (raw_capacity d - recs_size d es) @
      checksum_img d @ bk @ rest"
    using l(4) by (simp add: a_def main_img_def)
  note f = first_steps [OF g this, of "raw_first_key d", unfolded d]
  show ?thesis
  proof (cases es rule: rev_cases)
    case Nil
    then show ?thesis using f w by (subst raw_init_loop.simps) (simp add: dead_keys_def)
  next
    case (snoc fs e)
    have live: "re_live e" "raw_entry_ok e" using l(2,5) snoc by simp_all
    define pre where "pre = header_img d @ first_img d False"
    have pre: "length pre = first_entry d" using g by (simp add: pre_def first_entry_def)
    define post where "post = rec_img d True e @ erased (raw_capacity d - recs_size d es) @ checksum_img d @ bk @ rest"
    have a1: "a = pre @ inner_img d fs @ post"
      using l(4) snoc by (simp add: a_def main_linked linked_img_def pre_def post_def)
    have "\<exists>off' k'. raw_init_loop (on_area d a) (raw_first_key d) 0 = raw_init_loop (on_area d a) off' (0 + dead_keys fs) \<and>
      raw_read_key (on_area d a) off' = Some k' \<and> \<not> read_flag (rk_no_next k') \<and>
      raw_next_key (on_area d a) off' = Some (length pre + recs_size d fs)"
      using f l(2) snoc le w pre
      by (intro init_loop_inner [OF g _ a1]) (auto simp: d first_entry_def)
    then obtain off k where o: "raw_init_loop d (raw_first_key d) 0 = raw_init_loop d off (dead_keys fs)"
      "raw_read_key d off = Some k" "\<not> read_flag (rk_no_next k)"
      "raw_next_key d off = Some (first_entry d + recs_size d fs)" by (auto simp: d pre)
    have "a = (pre @ inner_img d fs) @ rec_img d True e @ erased (raw_capacity d - recs_size d es) @ checksum_img d @ bk @ rest"
      using a1 by (simp add: post_def)
    note st = raw_steps(1) [OF g live(2) this refl, unfolded d]
    have k: "raw_read_key d (first_entry d + recs_size d fs) = Some (build_key (rd_unit d) True True False
        (length (re_name e) + 1) (length (re_data e)))"
      using st live pre g by simp
    have "first_entry d + recs_size d fs + align_size d (raw_key_size d) \<le> checksum_offset d"
      using le snoc by (simp add: rec_size_def)
    from init_loop_step [OF o(2-4) k this, of "dead_keys fs"] k w
    have "raw_init_loop d off (dead_keys fs) = raw_init_loop d (first_entry d + recs_size d fs) (dead_keys fs)" by simp
    also have "\<dots> = Some (d, dead_keys fs)" using k w by (subst raw_init_loop.simps) simp
    finally show ?thesis using o(1) snoc live by (simp add: dead_keys_def)
  qed
qed


definition void_img :: "raw_db \<Rightarrow> u8 list" where
  "void_img d = padded d (word_bytes 4 (0 :: u32))"

lemma length_void_img [simp]: "raw_geometry d \<Longrightarrow> length (void_img d) = checksum_size d"
  by (simp add: void_img_def length_padded checksum_size_def)

lemma void_ok:
  assumes "raw_geometry d" "length x = checksum_offset d" shows "backup_ok d (x @ void_img d)"
proof -
  have "\<not> block_marked d (x @ void_img d)"
    using assms(2) by (simp add: block_marked_def void_img_def padded_def le_word_bytes RAW_CHECKSUM_def)
  then show ?thesis using assms block_parts(2) [OF assms(1)] by (simp add: backup_ok_def)
qed

lemma raw_invalidate_at:
  assumes g: "raw_geometry d" and a: "a = m @ x @ checksum_img d @ rest" "length m = rd_block_size d"
    "length x = checksum_offset d"
  shows "raw_invalidate (on_area d a) BACKUP = Some (on_area d (m @ x @ void_img d @ rest))"
proof -
  have "word_bytes 4 (0 :: u32) = replicate 4 0" by (simp add: word_bytes_def map_replicate_trivial)
  then have "clears_only (checksum_img d) (void_img d)"
    by (simp add: checksum_img_def void_img_def padded_def clears_only_append)
  then have "raw_write (on_area d a) (rd_block_size d + checksum_offset d) (word_bytes 4 (0 :: u32)) =
      Some (on_area d ((m @ x) @ void_img d @ rest))"
    using a unit_dvd [OF g] g by (intro raw_write_piece [OF void_img_def g, where mid = "checksum_img d"]) simp_all
  then show ?thesis by (simp add: raw_invalidate_def raw_block_offset_def)
qed

text \<open>Bringing back a store: at most the second block loses its mark, and there may be a recycling.\<close>

lemma raw_recover_stored:
  assumes s: "raw_stored es d"
  shows "\<exists>d'. raw_recover d = Some d' \<and> raw_stored es d' \<and> same_store d d'"
proof -
  obtain bk rest where l: "raw_geometry d" "\<forall>e \<in> set es. raw_entry_ok e" "recs_size d es \<le> raw_capacity d"
    "raw_area d = main_img d es @ bk @ rest" "backup_ok d bk" "distinct (live_names es)"
    "es \<noteq> [] \<longrightarrow> re_live (last es)" using s by (rule raw_storedE) blast
  note g = l(1)
  have m: "length (main_img d es) = rd_block_size d" using g l(3) by simp
  have bk: "length bk = rd_block_size d" using l(5) by (simp add: backup_ok_def)
  have "raw_is_valid (on_area d (raw_area d)) MAIN = Some True"
    by (rule main_tests(2) [OF g l(3), where pre = "[]" and post = "bk @ rest"]) (simp_all add: l(4) raw_block_offset_def)
  then have v: "raw_is_valid d MAIN = Some True" by simp
  note b = backup_tests [OF g l(4) m bk, simplified]
  show ?thesis
  proof (cases "block_marked d bk \<and> \<not> block_blank d bk")
    case False
    then have "raw_recover d = Some d" using v b by (auto simp: raw_recover_def)
    then show ?thesis using s by simp
  next
    case True
    define x where "x = take (checksum_offset d) bk"
    have x: "bk = x @ checksum_img d" "length x = checksum_offset d"
      using True l(5) bk block_parts(2) [OF g] append_take_drop_id [of "checksum_offset d" bk]
      by (auto simp: backup_ok_def x_def)
    have "raw_invalidate (on_area d (raw_area d)) BACKUP = Some (on_area d (main_img d es @ x @ void_img d @ rest))"
      using l(4) x by (intro raw_invalidate_at [OF g _ m x(2)]) simp
    then have r: "raw_recover d = Some (on_area d (main_img d es @ (x @ void_img d) @ rest))"
      using True v b by (simp add: raw_recover_def)
    have "raw_layout es (x @ void_img d) rest (on_area d (main_img d es @ (x @ void_img d) @ rest))"
      using l void_ok [OF g x(2)] x g by (simp add: raw_layout_def)
    then have "raw_stored es (on_area d (main_img d es @ (x @ void_img d) @ rest))"
      using l(6,7) unfolding raw_stored_def by blast
    then show ?thesis using r by auto
  qed
qed

text \<open>What \<open>Init\<close> does when the choice of the block has left a store.\<close>

lemma raw_init_after_recover:
  assumes r: "raw_recover d = Some d1" and s: "raw_stored es d1" and same: "same_store d d1"
  shows "\<exists>d' es'. raw_init d = Some d' \<and> raw_stored es' d' \<and> raw_map es' = raw_map es \<and> same_store d d'"
proof -
  obtain d2 where d2: "raw_recycle d1 = Some d2" "raw_stored (filter re_live es) d2" "same_store d1 d2"
    using raw_recycle_stored [OF s] unfolding same_store_def by auto
  show ?thesis
  proof (cases "dead_keys es > rd_threshold d1")
    case True
    then have "raw_init d = Some d2" using r d2(1) raw_init_loop_at [OF s] by (simp add: raw_init_def)
    moreover have "same_store d d2" using same d2(3) by (rule same_store_trans)
    ultimately show ?thesis using d2(2) raw_map_live by blast
  next
    case False
    then have "raw_init d = Some d1" using r raw_init_loop_at [OF s] by (simp add: raw_init_def)
    then show ?thesis using s same by blast
  qed
qed

lemma raw_init_stored:
  assumes s: "raw_stored es d"
  shows "\<exists>d' es'. raw_init d = Some d' \<and> raw_stored es' d' \<and> raw_map es' = raw_map es \<and> same_store d d'"
proof -
  obtain d1 where "raw_recover d = Some d1" "raw_stored es d1" "same_store d d1"
    using raw_recover_stored [OF s] by blast
  then show ?thesis by (rule raw_init_after_recover)
qed


text \<open>A first block without the marks: \<open>Init\<close> takes the entries of the second one, when it holds a store.\<close>

lemma main_marks:
  assumes g: "raw_geometry d" and a: "raw_area d = m @ post" "length m = rd_block_size d"
  shows "raw_is_valid d MAIN = Some (block_marked d m)"
proof -
  let ?n = "raw_first_key d + raw_key_size d" and ?c = "checksum_offset d"
  have n: "?n \<le> length m" "4 \<le> raw_first_key d" "?c + 4 \<le> length m"
    using info_fits [OF g] block_parts(2) [OF g] checksum_size_ge [OF g] a(2) by (simp_all add: raw_first_key_def)
  have r: "raw_read d i k = Some (take k (drop i m))" if "i + k \<le> length m" for i k
  proof -
    have "raw_read (on_area d (raw_area d)) i k = Some (take k (drop i m))"
      by (rule raw_read_within [where pre = "[]"]) (use a that in simp_all)
    then show ?thesis by simp
  qed
  have "raw_is_inited d MAIN = Some (le_word (take 4 m) = FLASH_HEADER)"
    using r [of 0 ?n] n by (simp add: raw_is_inited_def raw_info_def raw_block_offset_def)
  moreover have "raw_is_error d MAIN = Some (le_word (take 4 (drop ?c m)) \<noteq> RAW_CHECKSUM)"
    using r [of ?c 4] n by (simp add: raw_is_error_def raw_block_offset_def)
  ultimately show ?thesis by (auto simp: raw_is_valid_def block_marked_def)
qed

lemma raw_recover_fresh:
  assumes g: "raw_geometry d" and a: "raw_area d = m @ bk @ rest" "length m = rd_block_size d"
    "length bk = rd_block_size d" and unmarked: "\<not> block_marked d m" "\<not> block_marked d bk"
  shows "\<exists>d'. raw_recover d = Some d' \<and> raw_stored [] d' \<and> same_store d d'"
proof -
  have "raw_init_block (on_area d (raw_area d)) MAIN = Some (on_area d ([] @ main_img d [] @ bk @ rest))"
    using a by (intro raw_init_block_at [OF g, where mid = m]) (simp_all add: raw_block_offset_def)
  then have "raw_recover d = Some (on_area d (main_img d [] @ bk @ rest))"
    using main_marks [OF g a(1,2)] backup_tests [OF g a] unmarked by (simp add: raw_recover_def)
  moreover have "raw_layout [] bk rest (on_area d (main_img d [] @ bk @ rest))"
    using g a unmarked(2) by (simp add: raw_layout_def backup_ok_def)
  then have "raw_stored [] (on_area d (main_img d [] @ bk @ rest))"
    by (auto simp: raw_stored_def live_names_def)
  ultimately show ?thesis by auto
qed

text \<open>The check of the metadata of the second block.\<close>

lemma try_used_loop_at:
  assumes "raw_geometry d" "es \<noteq> []" "\<forall>e \<in> set es. raw_entry_ok e" "a = pre @ recs_img d es @ post"
    "length pre + recs_size d es \<le> limit"
  shows "try_used_loop (on_area d a) limit (length pre) = Some (Some (length pre + recs_size d es))"
  using assms
proof (induction es arbitrary: pre)
  case (Cons e es)
  define x where "x = (es = [])"
  have a: "a = pre @ rec_img d x e @ recs_img d es @ post" "raw_entry_ok e"
    using Cons.prems by (simp_all add: x_def)
  note st = raw_steps(1) [OF Cons.prems(1) a(2,1) refl]
  have w: "0 < rd_unit d" by (rule unit_pos [OF Cons.prems(1)])
  have lens: "rk_name_length (build_key (rd_unit d) x (re_live e) False (length (re_name e) + 1) (length (re_data e))) =
      length (re_name e) + 1"
    "rk_data_size (build_key (rd_unit d) x (re_live e) False (length (re_name e) + 1) (length (re_data e))) =
      length (re_data e)" using a(2) by (simp_all add: raw_entry_ok_def)
  have le: "length pre + align_size d (raw_key_size d) + align_size d (length (re_name e) + 1) +
      align_size d (length (re_data e)) = length pre + rec_size d e" "length pre + rec_size d e \<le> limit"
    "length pre + align_size d (raw_key_size d) \<le> limit"
    using Cons.prems(5) by (simp_all add: rec_size_def)
  have 1: "try_used_loop (on_area d a) limit (length pre) = (if x then Some (Some (length pre + rec_size d e))
      else try_used_loop (on_area d a) limit (length pre + rec_size d e))"
    using le(2,3) w by (subst try_used_loop.simps) (simp only: sizes_on_area st lens le(1) Let_def bind.simps
      valid_set_flag build_key_fields read_set_flag linorder_not_less simp_thms if_False option.case; simp)
  show ?case
  proof (cases x)
    case False
    have "try_used_loop (on_area d a) limit (length (pre @ rec_img d x e)) =
        Some (Some (length (pre @ rec_img d x e) + recs_size d es))"
      using Cons.prems a False by (intro Cons.IH) (simp_all add: x_def)
    then show ?thesis using 1 False Cons.prems(1) by simp
  qed (use 1 in \<open>simp add: x_def\<close>)
qed simp


lemma raw_recover_backup:
  assumes g: "raw_geometry d" and es: "es \<noteq> []" "\<forall>e \<in> set es. raw_entry_ok e" "distinct (live_names es)"
      "re_live (last es)" "recs_size d es \<le> raw_capacity d"
    and a: "raw_area d = m @ main_img d es @ rest" "length m = rd_block_size d" "\<not> block_marked d m"
  shows "\<exists>d'. raw_recover d = Some d' \<and> raw_stored es d' \<and> same_store d d'"
proof -
  let ?bs = "rd_block_size d" and ?a = "raw_area d"
  have off: "raw_block_offset d BACKUP = length m" "raw_block_offset d BACKUP = ?bs" "raw_block_offset d MAIN = 0"
    using a(2) by (simp_all add: raw_block_offset_def)
  have d: "on_area d ?a = d" by simp
  have w: "0 < rd_unit d" by (rule unit_pos [OF g])
  note t = main_tests [OF g es(5) a(1) off(1), unfolded d]
  have v: "raw_is_valid d MAIN = Some False" using main_marks [OF g a(1,2)] a(3) by simp
  have le: "first_entry d + recs_size d es \<le> checksum_offset d" using free_space [OF g es(5)] by simp
  let ?rest = "erased (raw_capacity d - recs_size d es) @ checksum_img d @ rest"
  have used: "try_used_size d BACKUP = Some (Some (first_entry d + recs_size d es))"
  proof -
    have a1: "?a = (m @ header_img d) @ first_img d False @ recs_img d es @ ?rest"
      and a2: "?a = (m @ header_img d @ first_img d False) @ recs_img d es @ ?rest"
      using a(1) es(1) by (simp_all add: main_img_def)
    note f = first_steps(1) [OF g a1, of "?bs + raw_first_key d", unfolded d]
    have "try_used_loop (on_area d ?a) (?bs + checksum_offset d) (length (m @ header_img d @ first_img d False)) =
        Some (Some (length (m @ header_img d @ first_img d False) + recs_size d es))"
      using a(2) g le by (intro try_used_loop_at [OF g es(1,2) a2]) (simp add: first_entry_def)
    then have l: "try_used_loop d (?bs + checksum_offset d) (?bs + first_entry d) =
        Some (Some (?bs + first_entry d + recs_size d es))"
      using a(2) g by (simp add: first_entry_def add.assoc)
    have "rk_name_length (build_key (rd_unit d) False False False 0 0) = 0"
      "rk_data_size (build_key (rd_unit d) False False False 0 0) = 0" "align_size d 0 = 0"
      using align_multiple [OF g, of 0] by simp_all
    then have "try_used_loop d (?bs + checksum_offset d) (?bs + raw_first_key d) =
        Some (Some (?bs + first_entry d + recs_size d es))"
      using f l le w a(2) by (subst try_used_loop.simps) (simp add: first_entry_def Let_def add.assoc)
    then show ?thesis using off by (simp add: try_used_size_def)
  qed
  have 1: "raw_erase d 0 ?bs = Some (on_area d (erased ?bs @ main_img d es @ rest))"
    using raw_erase_at [OF g, of ?a "[]" m "main_img d es @ rest" 0, unfolded d] a(1,2) by simp
  note 2 = copy_block_prefix_at [OF g es(5), of rest]
  define x where "x = take (checksum_offset d) (main_img d es)"
  have x: "main_img d es = x @ checksum_img d" "length x = checksum_offset d"
    using append_take_drop_id [of "checksum_offset d" "main_img d es"] drop_main_img [OF g es(5)] g es(5)
      block_parts(2) [OF g] by (simp_all add: x_def)
  let ?b = "main_img d es @ (x @ void_img d) @ rest"
  have 3: "raw_invalidate (on_area d (main_img d es @ main_img d es @ rest)) BACKUP = Some (on_area d ?b)"
    using raw_invalidate_at [OF g _ length_main_img [OF g es(5)] x(2), of _ rest] x(1) by (metis append.assoc)
  have "raw_recover d = Some (on_area d ?b)"
    using v t es(1) used 1 2 3 by (simp add: raw_recover_def)
  moreover have "length ?b = length ?a" using a x g block_parts(2) [OF g] by simp
  then have "raw_layout es (x @ void_img d) rest (on_area d ?b)"
    using g es void_ok [OF g x(2)] by (simp add: raw_layout_def)
  then have "raw_stored es (on_area d ?b)" using es(3,4) unfolding raw_stored_def by blast
  ultimately show ?thesis by auto
qed


section \<open>A power cut while a key is added\<close>

text \<open>Between the link to a new key and the second write of its header, which clears \<open>uninit\<close>, the store
  cannot be brought back: \<open>Init\<close> takes the unfinished key for damage and starts with an empty store.\<close>

definition unfinished_img :: "raw_db \<Rightarrow> raw_entry list \<Rightarrow> nat \<Rightarrow> nat \<Rightarrow> u8 list" where
  "unfinished_img d es nl n = linked_img d es @ key_img d True True True nl n @
     erased (raw_capacity d - recs_size d es - align_size d (raw_key_size d)) @ checksum_img d"

lemma unfinished_recover:
  assumes g: "raw_geometry d" and room: "recs_size d es + align_size d (raw_key_size d) \<le> raw_capacity d"
    and b: "b = unfinished_img d es nl n @ main_img d [] @ rest"
  shows "length (unfinished_img d es nl n) = rd_block_size d" "raw_recover (on_area d b) = Some (on_area d b)"
proof -
  let ?m = "unfinished_img d es nl n" and ?K = "key_img d True True True nl n"
  let ?E = "erased (raw_capacity d - recs_size d es - align_size d (raw_key_size d))"
  show m: "length ?m = rd_block_size d"
    using g room block_parts [OF g] by (simp add: unfinished_img_def first_entry_def)
  have b1: "b = [] @ header_img d @ key_img d False False False 0 0 @ inner_img d es @ ?K @ ?E @ checksum_img d @
      main_img d [] @ rest"
    by (simp add: b unfinished_img_def linked_img_def first_img_def)
  have "raw_is_error (on_area d b) MAIN = Some False"
    using room g block_parts(1) [OF g]
    by (intro error_at [OF g, where pre = "[]" and m = "linked_img d es @ ?K @ ?E" and post = "main_img d [] @ rest"])
      (simp_all add: b unfinished_img_def raw_block_offset_def first_entry_def)
  then have "raw_is_valid (on_area d b) MAIN = Some True"
    using info_at(1) [OF g b1, of MAIN] by (simp add: raw_is_valid_def raw_block_offset_def)
  moreover have "raw_is_empty (on_area d b) BACKUP = Some True" "raw_is_valid (on_area d b) BACKUP = Some True"
    using main_tests [OF g _ b, of BACKUP] m by (simp_all add: raw_block_offset_def)
  ultimately show "raw_recover (on_area d b) = Some (on_area d b)" by (simp add: raw_recover_def)
qed

lemma unfinished_init_loop:
  assumes g: "raw_geometry d" and room: "recs_size d es + align_size d (raw_key_size d) \<le> raw_capacity d"
    and ok: "\<forall>e \<in> set es. raw_entry_ok e" and b: "b = unfinished_img d es nl n @ main_img d [] @ rest"
  shows "raw_init_loop (on_area d b) (raw_first_key d) 0 =
    Some (on_area d (main_img d [] @ main_img d [] @ rest), dead_keys es)"
proof -
  let ?K = "key_img d True True True nl n" and ?fe = "first_entry d" and ?ks = "align_size d (raw_key_size d)"
  define T where "T = erased (raw_capacity d - recs_size d es - ?ks) @ checksum_img d @ main_img d [] @ rest"
  have w: "0 < rd_unit d" by (rule unit_pos [OF g])
  have b2: "b = header_img d @ first_img d False @ inner_img d es @ ?K @ T"
    and b3: "b = (header_img d @ first_img d False) @ inner_img d es @ ?K @ T"
    by (simp_all add: b T_def unfinished_img_def linked_img_def)
  note f = first_steps [OF g b2, of "raw_first_key d"]
  have fe: "length (header_img d @ first_img d False) = ?fe" using g by (simp add: first_entry_def)
  have le: "?fe + recs_size d es + ?ks \<le> checksum_offset d"
    using block_parts(1) [OF g] room by (simp add: first_entry_def)
  have "\<exists>off' k'. raw_init_loop (on_area d b) (raw_first_key d) 0 = raw_init_loop (on_area d b) off' (0 + dead_keys es) \<and>
      raw_read_key (on_area d b) off' = Some k' \<and> \<not> read_flag (rk_no_next k') \<and>
      raw_next_key (on_area d b) off' = Some (length (header_img d @ first_img d False) + recs_size d es)"
    by (rule init_loop_inner [OF g ok b3, of _ "build_key (rd_unit d) False False False 0 0"])
      (use f w le in \<open>simp_all add: first_entry_def g\<close>)
  then obtain off k' where o: "raw_init_loop (on_area d b) (raw_first_key d) 0 = raw_init_loop (on_area d b) off (dead_keys es)"
    "raw_read_key (on_area d b) off = Some k'" "\<not> read_flag (rk_no_next k')"
    "raw_next_key (on_area d b) off = Some (?fe + recs_size d es)" unfolding fe by auto
  have key: "raw_read_key (on_area d b) (?fe + recs_size d es) = Some (build_key (rd_unit d) True True True nl n)"
    using g by (intro raw_read_key_at [OF g, where pre = "linked_img d es" and post = T])
      (simp_all add: b2 linked_img_def first_entry_def)
  have "raw_init_block (on_area d b) MAIN = Some (on_area d (main_img d [] @ main_img d [] @ rest))"
    using raw_init_block_at [OF g, of b "[]" "unfinished_img d es nl n" "main_img d [] @ rest" MAIN] b
      unfinished_recover(1) [OF g room refl] by (simp add: raw_block_offset_def)
  then show ?thesis using init_loop_step [OF o(2-4) key, of "dead_keys es"] le w o(1) by simp
qed

lemma cut_add_loses:
  assumes s: "raw_stored (fs @ [e]) d" and a: "raw_area d = main_img d (fs @ [e]) @ main_img d [] @ rest"
    and room: "recs_size d (fs @ [e]) + align_size d (raw_key_size d) \<le> raw_capacity d"
  shows "\<exists>d1 d2 d'. raw_write d (first_entry d + recs_size d (fs @ [e]))
        (raw_key_bytes (build_key (rd_unit d) True True True nl n)) = Some d1 \<and>
      raw_write d1 (first_entry d + recs_size d fs) (raw_key_bytes (build_key (rd_unit d) False (re_live e) False
        (length (re_name e) + 1) (length (re_data e)))) = Some d2 \<and>
      raw_init d2 = Some d' \<and> raw_stored [] d'"
proof -
  let ?es = "fs @ [e]" and ?ks = "align_size d (raw_key_size d)"
  obtain bk rs where l: "raw_geometry d" "\<forall>x \<in> set ?es. raw_entry_ok x" "recs_size d ?es \<le> raw_capacity d"
    using s by (rule raw_storedE) blast
  note g = l(1)
  define k where "k = raw_capacity d - recs_size d ?es"
  define T where "T = erased (k - ?ks) @ checksum_img d @ main_img d [] @ rest"
  have "erased ?ks @ T = erased k @ checksum_img d @ main_img d [] @ rest"
    using room by (simp add: T_def k_def flip: append_assoc replicate_add)
  then have a1: "raw_area d = linked_img d fs @ rec_img d True e @ erased ?ks @ T"
    using a by (simp add: main_linked k_def)
  have oke: "raw_entry_ok e" using l(2) by simp
  note link = link_key_at [OF g oke a1, where nl = nl and n = n, simplified]
  define b where "b = unfinished_img d ?es nl n @ main_img d [] @ rest"
  have b: "b = linked_img d ?es @ key_img d True True True nl n @ T"
    by (simp add: b_def unfinished_img_def T_def k_def)
  let ?d = "on_area d (main_img d [] @ main_img d [] @ rest)"
  have "raw_geometry ?d" using a g l(3) by simp
  then have "raw_layout [] (main_img d []) rest ?d" using g by (simp add: raw_layout_def)
  then have st: "raw_stored [] ?d" by (auto simp: raw_stored_def live_names_def)
  obtain d' where d': "raw_recycle ?d = Some d'" "raw_stored [] d'" using raw_recycle_stored [OF st] by auto
  have "\<exists>d'. raw_init (on_area d b) = Some d' \<and> raw_stored [] d'"
    using unfinished_recover(2) [OF g room b_def] unfinished_init_loop [OF g room l(2) b_def] st d'
    by (simp add: raw_init_def)
  then show ?thesis using link unfolding b by (simp add: add.assoc)
qed


section \<open>The interface\<close>

text \<open>A build in which the report of a full store does not stop the program.\<close>

definition raw_holds :: "bool \<Rightarrow> (u8 list \<rightharpoonup> u8 list) \<Rightarrow> raw_db \<Rightarrow> bool" where
  "raw_holds cs m d \<longleftrightarrow> \<not> rd_debug d \<and> rd_signed_char d = cs \<and> (\<exists>es. raw_stored es d \<and> m = raw_map es)"

lemma raw_holdsI:
  "raw_stored es d' \<Longrightarrow> raw_map es = m \<Longrightarrow> same_store d d' \<Longrightarrow> \<not> rd_debug d \<Longrightarrow> rd_signed_char d = cs \<Longrightarrow>
   raw_holds cs m d'"
  by (auto simp: raw_holds_def same_store_fields)

interpretation raw_store: restartable_database raw_get raw_set raw_add "raw_holds cs" "plain_name cs"
  "\<lambda>name v. length name + 1 < 128 \<and> length v < 2 ^ 25" raw_init
proof
  fix m :: "u8 list \<rightharpoonup> u8 list" and d name and out :: "u8 list"
  assume h: "raw_holds cs m d" "plain_name cs name"
  then obtain es where es: "raw_stored es d" "m = raw_map es" "\<not> rd_debug d" "rd_signed_char d = cs"
    by (auto simp: raw_holds_def)
  have name: "plain_name (rd_signed_char d) name" using h(2) es(4) by simp
  obtain d' es' where g: "raw_stored es' d'" "raw_map es' = raw_map es" "same_store d d'"
    "raw_map es name = None \<longrightarrow> raw_get d name out = Some (d', NOT_FOUND, out)"
    "\<forall>v. raw_map es name = Some v \<and> length out < length v \<longrightarrow> raw_get d name out = Some (d', FAILED, out)"
    "\<forall>v. raw_map es name = Some v \<and> length v \<le> length out \<and> (length out = length v \<or> length out \<le> rd_block_size d) \<longrightarrow>
       (\<exists>more. raw_get d name out = Some (d', OK, v @ more) \<and> length (v @ more) = length out)"
    by (rule raw_get_spec [OF es(1) name, of out])
  have hd: "raw_holds cs m d'" using raw_holdsI [OF g(1,2,3) es(3,4)] es(2) by simp
  show "\<exists>d'. raw_get d name out = Some (d', NOT_FOUND, out) \<and> raw_holds cs m d'" if "m name = None"
    using g(4) hd es(2) that by auto
  fix v :: "u8 list"
  show "\<exists>d'. raw_get d name out = Some (d', OK, v) \<and> raw_holds cs m d'" if "m name = Some v" "length out = length v"
    using g(6) hd es(2) that by auto
  show "\<exists>d'. raw_get d name out = Some (d', FAILED, out) \<and> raw_holds cs m d'"
    if "m name = Some v" "length out < length v"
    using g(5) hd es(2) that by auto
next
  fix m :: "u8 list \<rightharpoonup> u8 list" and d name and v w :: "u8 list"
  assume h: "raw_holds cs m d" "plain_name cs name" "m name = Some w" "length w = length v"
  then obtain es where es: "raw_stored es d" "m = raw_map es" "\<not> rd_debug d" "rd_signed_char d = cs"
    by (auto simp: raw_holds_def)
  obtain d' es' ec where "raw_set d name v = Some (d', ec)" "raw_stored es' d'" "same_store d d'"
    "ec = OK \<and> raw_map es' = m(name \<mapsto> v) \<or> ec = FULL \<and> raw_map es' = m"
    using raw_set_spec [OF es(1), of name w v] h es by auto
  then show "\<exists>d' ec. raw_set d name v = Some (d', ec) \<and>
      (ec = OK \<and> raw_holds cs (m(name \<mapsto> v)) d' \<or> ec = FULL \<and> raw_holds cs m d')"
    using raw_holdsI es(3,4) by blast
next
  fix m :: "u8 list \<rightharpoonup> u8 list" and d name and v :: "u8 list"
  assume h: "raw_holds cs m d" "plain_name cs name" "length name + 1 < 128 \<and> length v < 2 ^ 25" "m name = None"
  then obtain es where es: "raw_stored es d" "m = raw_map es" "\<not> rd_debug d" "rd_signed_char d = cs"
    by (auto simp: raw_holds_def)
  obtain d' es' ec where "raw_add d name v = Some (d', ec)" "raw_stored es' d'" "same_store d d'"
    "ec = OK \<and> raw_map es' = m(name \<mapsto> v) \<or> ec = FULL \<and> raw_map es' = m"
    using raw_add_spec [OF es(1), of name v] h es by auto
  then show "\<exists>d' ec. raw_add d name v = Some (d', ec) \<and>
      (ec = OK \<and> raw_holds cs (m(name \<mapsto> v)) d' \<or> ec = FULL \<and> raw_holds cs m d')"
    using raw_holdsI es(3,4) by blast
next
  fix m :: "u8 list \<rightharpoonup> u8 list" and d
  assume "raw_holds cs m d"
  then obtain es where es: "raw_stored es d" "m = raw_map es" "\<not> rd_debug d" "rd_signed_char d = cs"
    by (auto simp: raw_holds_def)
  then show "\<exists>d'. raw_init d = Some d' \<and> raw_holds cs m d'"
    using raw_init_stored [OF es(1)] raw_holdsI by blast
qed

end
