(* ===== verification/Raw_Runs.thy ===== *)
theory Raw_Runs
  imports Raw_Refinement Database_Recovery
begin

text \<open>
  Sequences of calls of \<open>DatabaseRaw\<close> against an abstract key store: a map from names to data that may
  refuse a new value. The second part looks at power cuts: during a recycling nothing is lost, while a key
  is added everything can be.
\<close>

section \<open>The abstract key store\<close>

type_synonym kv_map = "u8 list \<rightharpoonup> u8 list"

text \<open>The store is given by what it has room for beside the entries of a map: \<open>room m name v\<close>. A new value
  is taken exactly when there is room for it; the old value stays until the new one is written, so that
  its space counts as well.\<close>

definition kv_taken :: "(kv_map \<Rightarrow> u8 list \<Rightarrow> u8 list \<Rightarrow> bool) \<Rightarrow> kv_map \<Rightarrow> u8 list \<Rightarrow> u8 list \<Rightarrow> error_code \<times> kv_map" where
  "kv_taken room m name v = (if room m name v then (OK, m(name \<mapsto> v)) else (FULL, m))"

definition kv_replaced ::
  "(kv_map \<Rightarrow> u8 list \<Rightarrow> u8 list \<Rightarrow> bool) \<Rightarrow> kv_map \<Rightarrow> u8 list \<Rightarrow> u8 list \<Rightarrow> error_code \<times> kv_map" where
  "kv_replaced room m name v = (case m name of
      None \<Rightarrow> (FAILED, m)
    | Some w \<Rightarrow> if length w \<noteq> length v then (FAILED, m) else if w = v then (OK, m) else kv_taken room m name v)"

text \<open>What a call returns and leaves; only the bytes behind the data that \<open>Get\<close> returns are open.\<close>

fun kv_allows ::
  "(kv_map \<Rightarrow> u8 list \<Rightarrow> u8 list \<Rightarrow> bool) \<Rightarrow> kv_map \<Rightarrow> db_op \<Rightarrow> kv_map \<Rightarrow> error_code \<times> u8 list \<Rightarrow> bool" where
  "kv_allows room m (DB_GET name out) m' (ec, bs) \<longleftrightarrow> m' = m \<and> (case m name of
      None \<Rightarrow> ec = NOT_FOUND \<and> bs = out
    | Some v \<Rightarrow> if length out < length v then ec = FAILED \<and> bs = out
        else ec = OK \<and> length bs = length out \<and> take (length v) bs = v)"
| "kv_allows room m (DB_SET name v) m' (ec, bs) \<longleftrightarrow> bs = v \<and> (ec, m') = kv_replaced room m name v"
| "kv_allows room m (DB_ADD name v) m' (ec, bs) \<longleftrightarrow> bs = v \<and>
     (ec, m') = (if m name = None then kv_taken room m name v else kv_replaced room m name v)"

inductive kv_runs ::
  "(kv_map \<Rightarrow> u8 list \<Rightarrow> u8 list \<Rightarrow> bool) \<Rightarrow> kv_map \<Rightarrow> db_op list \<Rightarrow> (error_code \<times> u8 list) list \<Rightarrow> kv_map \<Rightarrow> bool"
  for room where
  runs_nil [intro]: "kv_runs room m [] [] m"
| runs_cons [intro]: "kv_allows room m c m1 r \<Longrightarrow> kv_runs room m1 ops rs m2 \<Longrightarrow> kv_runs room m (c # ops) (r # rs) m2"

inductive_simps kv_runs_Nil [simp]: "kv_runs room m [] rs m'"
inductive_simps kv_runs_Cons [simp]: "kv_runs room m (c # ops) rs m'"

lemma map_room_same: "same_store d d' \<Longrightarrow> map_room d' = map_room d"
  by (simp add: map_room_def map_space_def fun_eq_iff same_store_fields)

fun raw_exec :: "raw_db \<Rightarrow> db_op \<Rightarrow> (raw_db \<times> error_code \<times> u8 list) option" where
  "raw_exec d (DB_GET name out) = raw_get d name out"
| "raw_exec d (DB_SET name v) = map_option (\<lambda>(d, ec). (d, ec, v)) (raw_set d name v)"
| "raw_exec d (DB_ADD name v) = map_option (\<lambda>(d, ec). (d, ec, v)) (raw_add d name v)"

fun raw_run :: "raw_db \<Rightarrow> db_op list \<Rightarrow> (raw_db \<times> (error_code \<times> u8 list) list) option" where
  "raw_run d [] = Some (d, [])"
| "raw_run d (c # ops) = do {
     (d1, r) \<leftarrow> raw_exec d c;
     (d2, rs) \<leftarrow> raw_run d1 ops;
     Some (d2, r # rs)
   }"

text \<open>Names that the comparison can find, lengths that the header can hold, buffers no larger than a block.\<close>

fun raw_op_ok :: "bool \<Rightarrow> nat \<Rightarrow> db_op \<Rightarrow> bool" where
  "raw_op_ok cs n (DB_GET name out) \<longleftrightarrow> plain_name cs name \<and> length out \<le> n"
| "raw_op_ok cs n (DB_SET name v) \<longleftrightarrow> plain_name cs name"
| "raw_op_ok cs n (DB_ADD name v) \<longleftrightarrow> plain_name cs name \<and> length name + 1 < 128 \<and> length v < 2 ^ 25"

section \<open>One call\<close>

lemma raw_set_refused:
  assumes s: "raw_stored es d" and name: "plain_name (rd_signed_char d) name"
    and no: "\<forall>w. raw_map es name = Some w \<longrightarrow> length w \<noteq> length v"
  shows "\<exists>d' es'. raw_set d name v = Some (d', FAILED) \<and> raw_stored es' d' \<and> raw_map es' = raw_map es \<and> same_store d d'"
proof -
  obtain d1 es1 where r: "raw_search_key d name = Some (d1, fst (raw_find d1 name (first_entry d1) es1))"
    "raw_stored es1 d1" "filter re_live es1 = filter re_live es" "same_store d d1"
    using raw_search_spec [OF s name] by blast
  have m: "raw_map es1 = raw_map es" by (rule raw_map_filter_eq [OF r(3)])
  note f = raw_find_eq [OF r(2), of name, unfolded m]
  have "raw_set d name v = Some (d1, FAILED)"
  proof (cases "raw_map es name")
    case None
    then show ?thesis using f r(1) by (simp add: raw_set_def raw_set_key_def set_key_step_def)
  next
    case (Some w)
    obtain fs e gs where e: "es1 = fs @ e # gs" "re_data e = w"
      "fst (raw_find d1 name (first_entry d1) es1) = first_entry d1 + recs_size d1 fs" using f Some by auto
    have "0 < first_entry d1" by (simp add: first_entry_def raw_first_key_def less_max_iff_disj)
    then show ?thesis using r(1) e raw_entry_at [OF r(2) [unfolded e(1)] refl] no Some
      by (simp add: raw_set_def raw_set_key_def set_key_step_def)
  qed
  then show ?thesis using r m by blast
qed

lemma raw_set_step:
  assumes h: "raw_holds cs m d" and name: "plain_name cs name"
  shows "\<exists>d' ec m'. raw_set d name v = Some (d', ec) \<and> (ec, m') = kv_replaced (map_room d) m name v \<and> raw_holds cs m' d' \<and> same_store d d'"
proof -
  obtain es where es: "raw_stored es d" "m = raw_map es" "\<not> rd_debug d" "rd_signed_char d = cs"
    using h by (auto simp: raw_holds_def)
  have name': "plain_name (rd_signed_char d) name" using name es(4) by simp
  show ?thesis
  proof (cases "\<exists>w. raw_map es name = Some w \<and> length w = length v")
    case True
    then obtain w where w: "raw_map es name = Some w" "length w = length v" by blast
    from raw_set_spec [OF es(1) name' w] es(3) obtain d' es' ec where
      x: "raw_set d name v = Some (d', ec)" "raw_stored es' d'" "same_store d d'"
        "ec = OK \<and> raw_map es' = m(name \<mapsto> v) \<and> (w = v \<or> map_room d m name v) \<or>
         ec = FULL \<and> raw_map es' = m \<and> w \<noteq> v \<and> \<not> map_room d m name v"
      by (auto simp: es(2) raw_room_map [OF es(1)])
    then have "(ec, raw_map es') = kv_replaced (map_room d) m name v"
      using w es(2) by (auto simp: kv_replaced_def kv_taken_def)
    then show ?thesis using x raw_holdsI [OF x(2) refl x(3) es(3,4)] by blast
  next
    case False
    then obtain d' es' where x: "raw_set d name v = Some (d', FAILED)" "raw_stored es' d'" "raw_map es' = raw_map es"
      "same_store d d'" using raw_set_refused [OF es(1) name', of v] by auto
    have "(FAILED, m) = kv_replaced (map_room d) m name v" using False es(2) by (auto simp: kv_replaced_def split: option.split)
    then show ?thesis using x raw_holdsI [OF x(2,3,4) es(3,4)] es(2) by blast
  qed
qed

lemma raw_add_present:
  assumes h: "raw_holds cs m d" and name: "plain_name cs name" "m name \<noteq> None"
  obtains d1 where "raw_add d name v = raw_set d1 name v" "raw_holds cs m d1" "same_store d d1"
proof -
  obtain es where es: "raw_stored es d" "m = raw_map es" "\<not> rd_debug d" "rd_signed_char d = cs"
    using h by (auto simp: raw_holds_def)
  have name': "plain_name (rd_signed_char d) name" using name(1) es(4) by simp
  obtain d1 es1 where r: "raw_search_key d name = Some (d1, fst (raw_find d1 name (first_entry d1) es1))"
    "raw_stored es1 d1" "filter re_live es1 = filter re_live es" "same_store d d1"
    using raw_search_spec [OF es(1) name'] by blast
  have m: "raw_map es1 = m" using raw_map_filter_eq [OF r(3)] es(2) by simp
  have "0 < first_entry d1" by (simp add: first_entry_def raw_first_key_def less_max_iff_disj)
  then have "fst (raw_find d1 name (first_entry d1) es1) \<noteq> 0"
    using raw_find_eq [OF r(2), of name] m name(2) by auto
  then have "raw_add d name v = raw_set d1 name v"
    using r(1) by (simp add: raw_add_def raw_add_key_def raw_set_def)
  then show thesis using that raw_holdsI [OF r(2) m r(4) es(3,4)] r(4) by blast
qed

lemma raw_exec_step:
  assumes h: "raw_holds cs m d" and ok: "raw_op_ok cs (rd_block_size d) c"
  shows "\<exists>d' r m'. raw_exec d c = Some (d', r) \<and> kv_allows (map_room d) m c m' r \<and> raw_holds cs m' d' \<and> same_store d d'"
proof (cases c)
  case (DB_GET name out)
  obtain es where es: "raw_stored es d" "m = raw_map es" "\<not> rd_debug d" "rd_signed_char d = cs"
    using h by (auto simp: raw_holds_def)
  have name: "plain_name (rd_signed_char d) name" using ok DB_GET es(4) by simp
  obtain d' es' where g: "raw_stored es' d'" "raw_map es' = raw_map es" "same_store d d'"
    "raw_map es name = None \<longrightarrow> raw_get d name out = Some (d', NOT_FOUND, out)"
    "\<forall>v. raw_map es name = Some v \<and> length out < length v \<longrightarrow> raw_get d name out = Some (d', FAILED, out)"
    "\<forall>v. raw_map es name = Some v \<and> length v \<le> length out \<and> (length out = length v \<or> length out \<le> rd_block_size d) \<longrightarrow>
       (\<exists>more. raw_get d name out = Some (d', OK, v @ more) \<and> length (v @ more) = length out)"
    by (rule raw_get_spec [OF es(1) name, of out])
  have "\<exists>r. raw_get d name out = Some (d', r) \<and> kv_allows (map_room d) m (DB_GET name out) m r"
  proof (cases "raw_map es name")
    case None
    then show ?thesis using g(4) es(2) by simp
  next
    case (Some v)
    then show ?thesis using g(5,6) es(2) ok DB_GET by (cases "length out < length v") auto
  qed
  moreover have "raw_holds cs m d'" using raw_holdsI [OF g(1,2,3) es(3,4)] es(2) by simp
  ultimately show ?thesis using DB_GET g(3) by (metis raw_exec.simps(1))
next
  case (DB_SET name v)
  then obtain d' ec m' where x: "raw_set d name v = Some (d', ec)"
    "(ec, m') = kv_replaced (map_room d) m name v" "raw_holds cs m' d'"
    "same_store d d'" using raw_set_step [OF h, of name v] ok by auto
  have "kv_allows (map_room d) m c m' (ec, v)" using DB_SET x(2) by simp
  moreover have "raw_exec d c = Some (d', ec, v)" using DB_SET x(1) by simp
  ultimately show ?thesis using x(3,4) by blast
next
  case (DB_ADD name v)
  show ?thesis
  proof (cases "m name = None")
    case True
    obtain es where es: "raw_stored es d" "m = raw_map es" "\<not> rd_debug d" "rd_signed_char d = cs"
      using h by (auto simp: raw_holds_def)
    have "plain_name (rd_signed_char d) name" "length name + 1 < 128" "length v < 2 ^ 25" "raw_map es name = None"
      using ok DB_ADD True es by simp_all
    from raw_add_spec [OF es(1) this] es(3)
    obtain d' es' ec where x: "raw_add d name v = Some (d', ec)" "raw_stored es' d'" "same_store d d'"
      "ec = OK \<and> raw_map es' = (raw_map es)(name \<mapsto> v) \<and> raw_room d es name v \<or>
       ec = FULL \<and> raw_map es' = raw_map es \<and> \<not> raw_room d es name v" by blast
    then have "kv_allows (map_room d) m c (raw_map es') (ec, v)"
      using DB_ADD True es(2) by (auto simp: kv_taken_def raw_room_map [OF es(1)])
    moreover have "raw_exec d c = Some (d', ec, v)" using DB_ADD x(1) by simp
    ultimately show ?thesis using raw_holdsI [OF x(2) refl x(3) es(3,4)] x(3) by blast
  next
    case False
    obtain d1 where d1: "raw_add d name v = raw_set d1 name v" "raw_holds cs m d1" "same_store d d1"
      using raw_add_present [OF h, of name v] ok DB_ADD False by auto
    obtain d' ec m' where x: "raw_set d1 name v = Some (d', ec)" "(ec, m') = kv_replaced (map_room d1) m name v" "raw_holds cs m' d'"
      "same_store d1 d'" using raw_set_step [OF d1(2), of name v] ok DB_ADD by auto
    have "kv_allows (map_room d) m c m' (ec, v)" using DB_ADD False x(2) map_room_same [OF d1(3)] by auto
    moreover have "raw_exec d c = Some (d', ec, v)" using DB_ADD x(1) d1(1) by simp
    ultimately show ?thesis using x(3) same_store_trans [OF d1(3) x(4)] by blast
  qed
qed

lemma raw_run_refines:
  assumes "raw_holds cs m d" and "\<forall>c \<in> set ops. raw_op_ok cs (rd_block_size d) c"
  shows "\<exists>d' rs m'. raw_run d ops = Some (d', rs) \<and> kv_runs (map_room d) m ops rs m' \<and> raw_holds cs m' d' \<and> same_store d d'"
  using assms
proof (induction ops arbitrary: m d)
  case (Cons c ops)
  obtain d1 r m1 where 1: "raw_exec d c = Some (d1, r)" "kv_allows (map_room d) m c m1 r" "raw_holds cs m1 d1" "same_store d d1"
    using raw_exec_step [OF Cons.prems(1), of c] Cons.prems(2) by auto
  obtain d2 rs m2 where 2: "raw_run d1 ops = Some (d2, rs)" "kv_runs (map_room d) m1 ops rs m2" "raw_holds cs m2 d2" "same_store d1 d2"
    using Cons.IH [OF 1(3)] Cons.prems(2) same_store_fields(4) [OF 1(4)] map_room_same [OF 1(4)] by auto
  then have "raw_run d (c # ops) = Some (d2, r # rs)" "kv_runs (map_room d) m (c # ops) (r # rs) m2"
    using 1(1,2) by (simp, blast)
  then show ?case using 2(3) same_store_trans [OF 1(4) 2(4)] by blast
qed auto


section \<open>An example\<close>

text \<open>A device of 256 bytes with write units of 8 bytes that checks that a write only clears bits.\<close>

definition raw_blank :: raw_db where
  "raw_blank = \<lparr>rd_flash = \<lparr>flash_area = replicate 256 0xFF, min_erase_size = 64, min_write_size = 4,
      write_order_check = False, write_as_one_check = True\<rparr>,
    rd_block_size = 128, rd_threshold = 1, rd_unit = 8, rd_debug = False, rd_signed_char = True\<rparr>"

definition raw_empty :: raw_db where
  "raw_empty = on_area raw_blank (main_img raw_blank [] @ main_img raw_blank [])"

lemma raw_blank_geometry: "raw_geometry raw_blank"
  by (simp add: raw_geometry_def raw_blank_def flash_size_def raw_first_key_def raw_key_size_def align_size_def
      checksum_size_def)

lemma raw_empty_stored: "raw_stored [] raw_empty"
proof -
  have "length (raw_area raw_blank) = 2 * rd_block_size raw_blank" by (simp add: raw_area_def raw_blank_def)
  then have "raw_layout [] (main_img raw_blank []) [] raw_empty"
    using raw_blank_geometry by (simp add: raw_layout_def raw_empty_def)
  then show ?thesis by (auto simp: raw_stored_def live_names_def)
qed

lemma raw_empty_fields [simp]:
  "rd_debug raw_empty = False" "rd_signed_char raw_empty = True" "rd_block_size raw_empty = 128"
  by (simp_all add: raw_empty_def raw_blank_def)

lemma raw_empty_holds: "raw_holds True (\<lambda>_. None) raw_empty"
  using raw_empty_stored by (auto simp: raw_holds_def raw_map_def)

text \<open>The device with one entry.\<close>

definition raw_one :: raw_db where
  "raw_one = on_area raw_blank (main_img raw_blank [raw_entry_of [107] [1, 2]] @ main_img raw_blank [])"

lemma raw_one_fit: "recs_size raw_blank [raw_entry_of [107] [1, 2]] \<le> raw_capacity raw_blank"
  by (simp add: rec_size_of raw_capacity_def checksum_offset_def checksum_size_def align_size_def raw_blank_def
      raw_key_size_def raw_first_key_def)

lemma raw_one_stored: "raw_stored [raw_entry_of [107] [1, 2]] raw_one"
proof -
  have "length (raw_area raw_blank) = 2 * rd_block_size raw_blank" by (simp add: raw_area_def raw_blank_def)
  then have "raw_layout [raw_entry_of [107] [1, 2]] (main_img raw_blank []) [] raw_one"
    using raw_blank_geometry raw_one_fit by (simp add: raw_layout_def raw_one_def raw_entry_ok_def)
  then show ?thesis by (auto simp: raw_stored_def live_names_def)
qed

lemma erased_unmarked: "le_word (replicate 4 0xFF) \<noteq> FLASH_HEADER"
  by code_simp

section \<open>Properties\<close>

text \<open>C16: in a build without \<open>LIBXR_DEBUG_BUILD\<close>, on a device that does not check the order of writes and
  with a positive recycle threshold (\<open>raw_holds\<close>), any sequence of calls of the raw database runs like a
  map: \<open>Get\<close> finds the value and leaves the map alone, \<open>Set\<close> and \<open>Add\<close> replace a value of the same length
  and \<open>Add\<close> enters a new name; a value of another length than the old one is refused as FAILED, a new or
  changed value as FULL exactly when the entries of the map and the new one do not fit into a block. The names are ASCII without a zero byte and shorter than 127 bytes,
  new data is shorter than 2^25 bytes, and the buffers of \<open>Get\<close> are no larger than a block.\<close>

theorem raw_database_runs_like_map:
  assumes "raw_holds cs m d" and "\<forall>c \<in> set ops. raw_op_ok cs (rd_block_size d) c"
  shows "\<exists>d' rs m'. raw_run d ops = Some (d', rs) \<and> kv_runs (map_room d) m ops rs m' \<and> raw_holds cs m' d'"
  using raw_run_refines [OF assms] by blast

theorem raw_database_runs_like_map_witness:
  "\<exists>d' rs m'. raw_run raw_empty [DB_ADD [107] [1, 2], DB_SET [107] [3, 4], DB_GET [107] [0, 0]] = Some (d', rs) \<and>
    kv_runs (map_room raw_empty) (\<lambda>_. None) [DB_ADD [107] [1, 2], DB_SET [107] [3, 4], DB_GET [107] [0, 0]] rs m' \<and>
    raw_holds True m' d'"
  by (rule raw_database_runs_like_map [OF raw_empty_holds]) (simp add: plain_name_def char_value_def)

text \<open>A store reports that it is full only when the live entries and the new one do not fit.\<close>

theorem raw_full_without_room:
  assumes "raw_stored es d" and "\<not> rd_debug d" and "plain_name (rd_signed_char d) name"
    and "length name + 1 < 128" and "length v < 2 ^ 25" and "raw_map es name = None" and "raw_room d es name v"
  shows "\<exists>d' es'. raw_add d name v = Some (d', OK) \<and> raw_stored es' d' \<and> raw_map es' = (raw_map es)(name \<mapsto> v)"
  using raw_add_spec [OF assms(1,3-6)] assms(2,7) by auto

text \<open>Recycling keeps the map and frees the space of the dead entries.\<close>

theorem raw_recycle_keeps_map:
  assumes "raw_stored es d"
  shows "\<exists>d' es'. raw_recycle d = Some d' \<and> raw_stored es' d' \<and> raw_map es' = raw_map es \<and> (\<forall>e \<in> set es'. re_live e)"
proof -
  obtain d' where "raw_recycle d = Some d'" "raw_stored (filter re_live es) d'"
    using raw_recycle_stored [OF assms] by blast
  then show ?thesis by (intro exI [of _ d'] exI [of _ "filter re_live es"]) simp
qed

text \<open>A statement about images, not about the run of \<open>Recycle\<close>: when the second block holds the live
  entries and the first one anything that does not carry both marks, as while it is erased and copied back,
  \<open>Init\<close> brings the entries back. Cuts before the second block is complete, or while it is made empty
  again, are not covered.\<close>

theorem raw_recycle_survives_cut:
  assumes s: "raw_stored es d" and "es \<noteq> []" and "raw_area d = main_img d es @ bk @ rest"
    and m: "length m = rd_block_size d" "length bk = rd_block_size d" "\<not> block_marked d m"
  shows "\<exists>d' es'. raw_init (on_area d (m @ main_img d (filter re_live es) @ rest)) = Some d' \<and> raw_stored es' d' \<and>
    raw_map es' = raw_map es"
proof -
  let ?live = "filter re_live es" and ?d = "on_area d (m @ main_img d (filter re_live es) @ rest)"
  obtain bk' rs where l: "raw_geometry d" "\<forall>e \<in> set es. raw_entry_ok e" "recs_size d es \<le> raw_capacity d"
    "distinct (live_names es)" "es \<noteq> [] \<longrightarrow> re_live (last es)" using s by (rule raw_storedE) blast
  have fit: "recs_size d ?live \<le> raw_capacity d" using recs_size_filter [of d re_live es] l(3) by simp
  have g: "raw_geometry ?d" using l(1,3) fit m assms(3) by simp
  have ne: "?live \<noteq> []" using assms(2) l(5) by (auto simp: filter_empty_conv)
  then have last: "re_live (last ?live)" using last_in_set by fastforce
  have "\<exists>d'. raw_recover ?d = Some d' \<and> raw_stored ?live d' \<and> same_store ?d d'"
    using l(2,4) fit m(1,3) ne last
    by (intro raw_recover_backup [OF g, where m = m and rest = rest]) (auto simp: live_names_def block_marked_def)
  then obtain d' where d': "raw_recover ?d = Some d'" "raw_stored ?live d'" "same_store ?d d'" by blast
  from raw_init_after_recover [OF this] show ?thesis by auto
qed


theorem raw_recycle_survives_cut_witness:
  "\<exists>d' es'. raw_init (on_area raw_one (replicate 128 0xFF @
      main_img raw_one (filter re_live [raw_entry_of [107] [1, 2]]) @ [])) = Some d' \<and>
    raw_stored es' d' \<and> raw_map es' = raw_map [raw_entry_of [107] [1, 2]]"
proof (rule raw_recycle_survives_cut [OF raw_one_stored])
  show "raw_area raw_one = main_img raw_one [raw_entry_of [107] [1, 2]] @ main_img raw_blank [] @ []"
    by (simp add: raw_one_def)
  show "length (main_img raw_blank []) = rd_block_size raw_one"
    using raw_blank_geometry by (simp add: raw_one_def)
  show "\<not> block_marked raw_one (replicate 128 0xFF)"
    using erased_unmarked by (simp add: block_marked_def)
qed (simp_all add: raw_one_def raw_blank_def)

end
