(* ===== verification/Red_Black_Tree.thy ===== *)
theory Red_Black_Tree
  imports Prelude "HOL-Library.Tree" "HOL-Library.Monad_Syntax"
begin

text \<open>
  \<open>RBTree\<close> of src/src/structure/rbt.hpp: a red-black tree of caller-owned nodes with links to the
  children and the parent. A node is its address, the links are maps from addresses; following a null
  pointer is \<open>None\<close>, and so is a loop that does not end. The tree that the links form is a tree of
  addresses, taken apart at a node into the subtree and its context, as the fix-up loops walk upwards.
\<close>

datatype rbt_color = RED | BLACK

record 'k rbt =
  rb_root :: "nat option"
  rb_key :: "nat \<Rightarrow> 'k"
  rb_color :: "nat \<Rightarrow> rbt_color"
  rb_left :: "nat \<Rightarrow> nat option"
  rb_right :: "nat \<Rightarrow> nat option"
  rb_parent :: "nat \<Rightarrow> nat option"
  rb_size :: "nat \<Rightarrow> nat"
  rb_mutex :: bool

section \<open>Rotations\<close>

definition left_rotate :: "nat \<Rightarrow> 'k rbt \<Rightarrow> 'k rbt" where
  "left_rotate x s =
     (case rb_right s x of None \<Rightarrow> s
      | Some y \<Rightarrow>
        let s1 = s\<lparr>rb_right := (rb_right s)(x := rb_left s y)\<rparr>;
            s2 = (case rb_left s1 y of None \<Rightarrow> s1
                  | Some b \<Rightarrow> s1\<lparr>rb_parent := (rb_parent s1)(b := Some x)\<rparr>);
            s3 = s2\<lparr>rb_parent := (rb_parent s2)(y := rb_parent s2 x)\<rparr>;
            s4 = (case rb_parent s3 x of None \<Rightarrow> s3\<lparr>rb_root := Some y\<rparr>
                  | Some p \<Rightarrow> if rb_left s3 p = Some x then s3\<lparr>rb_left := (rb_left s3)(p := Some y)\<rparr>
                              else s3\<lparr>rb_right := (rb_right s3)(p := Some y)\<rparr>)
        in s4\<lparr>rb_left := (rb_left s4)(y := Some x), rb_parent := (rb_parent s4)(x := Some y)\<rparr>)"

definition right_rotate :: "nat \<Rightarrow> 'k rbt \<Rightarrow> 'k rbt" where
  "right_rotate y s =
     (case rb_left s y of None \<Rightarrow> s
      | Some x \<Rightarrow>
        let s1 = s\<lparr>rb_left := (rb_left s)(y := rb_right s x)\<rparr>;
            s2 = (case rb_right s1 x of None \<Rightarrow> s1
                  | Some b \<Rightarrow> s1\<lparr>rb_parent := (rb_parent s1)(b := Some y)\<rparr>);
            s3 = s2\<lparr>rb_parent := (rb_parent s2)(x := rb_parent s2 y)\<rparr>;
            s4 = (case rb_parent s3 y of None \<Rightarrow> s3\<lparr>rb_root := Some x\<rparr>
                  | Some p \<Rightarrow> if rb_right s3 p = Some y then s3\<lparr>rb_right := (rb_right s3)(p := Some x)\<rparr>
                              else s3\<lparr>rb_left := (rb_left s3)(p := Some x)\<rparr>)
        in s4\<lparr>rb_right := (rb_right s4)(x := Some y), rb_parent := (rb_parent s4)(y := Some x)\<rparr>)"

lemma rotate_frame [simp]:
  "rb_key (left_rotate x s) = rb_key s" "rb_color (left_rotate x s) = rb_color s"
  "rb_mutex (left_rotate x s) = rb_mutex s" "rb_size (left_rotate x s) = rb_size s"
  "rb_key (right_rotate x s) = rb_key s" "rb_color (right_rotate x s) = rb_color s"
  "rb_mutex (right_rotate x s) = rb_mutex s" "rb_size (right_rotate x s) = rb_size s"
  by (simp_all add: left_rotate_def right_rotate_def Let_def split: option.split)

definition set_color :: "nat \<Rightarrow> rbt_color \<Rightarrow> 'k rbt \<Rightarrow> 'k rbt" where
  "set_color x c s = s\<lparr>rb_color := (rb_color s)(x := c)\<rparr>"

definition is_red :: "'k rbt \<Rightarrow> nat option \<Rightarrow> bool" where
  "is_red s p = (case p of None \<Rightarrow> False | Some x \<Rightarrow> rb_color s x = RED)"

section \<open>Insertion\<close>

text \<open>The way down: the parent of the free place and whether it is the left one.\<close>

partial_function (option) insert_descend ::
  "('k \<Rightarrow> 'k \<Rightarrow> int) \<Rightarrow> 'k \<Rightarrow> 'k rbt \<Rightarrow> nat option \<Rightarrow> bool \<Rightarrow> nat option \<Rightarrow> (nat option \<times> bool) option"
where
  "insert_descend compare key s parent go_left current =
     (case current of None \<Rightarrow> Some (parent, go_left)
      | Some x \<Rightarrow>
        if compare key (rb_key s x) < 0 then insert_descend compare key s (Some x) True (rb_left s x)
        else insert_descend compare key s (Some x) False (rb_right s x))"

partial_function (option) insert_fixup :: "nat \<Rightarrow> 'k rbt \<Rightarrow> 'k rbt option" where
  "insert_fixup node s =
     (if \<not> is_red s (rb_parent s node)
      then (case rb_root s of None \<Rightarrow> None | Some r \<Rightarrow> Some (set_color r BLACK s))
      else (case rb_parent s node of None \<Rightarrow> None
        | Some parent \<Rightarrow> (case rb_parent s parent of None \<Rightarrow> None
          | Some gparent \<Rightarrow>
            if rb_left s gparent = Some parent
            then (if is_red s (rb_right s gparent)
              then insert_fixup gparent (set_color gparent RED (set_color parent BLACK
                     (set_color (the (rb_right s gparent)) BLACK s)))
              else if rb_right s parent = Some node
                then insert_fixup parent (right_rotate gparent (set_color gparent RED
                       (set_color node BLACK (left_rotate parent s))))
                else insert_fixup node (right_rotate gparent (set_color gparent RED
                       (set_color parent BLACK s))))
            else (if is_red s (rb_left s gparent)
              then insert_fixup gparent (set_color gparent RED (set_color parent BLACK
                     (set_color (the (rb_left s gparent)) BLACK s)))
              else if rb_left s parent = Some node
                then insert_fixup parent (left_rotate gparent (set_color gparent RED
                       (set_color node BLACK (right_rotate parent s))))
                else insert_fixup node (left_rotate gparent (set_color gparent RED
                       (set_color parent BLACK s)))))))"

definition rbtree_insert :: "('k \<Rightarrow> 'k \<Rightarrow> int) \<Rightarrow> nat \<Rightarrow> 'k rbt \<Rightarrow> 'k rbt option" where
  "rbtree_insert compare node s = do {
     (parent, go_left) \<leftarrow> insert_descend compare (rb_key s node) s None True (rb_root s);
     let s1 = s\<lparr>rb_parent := (rb_parent s)(node := parent)\<rparr>;
     insert_fixup node (case parent of None \<Rightarrow> s1\<lparr>rb_root := Some node\<rparr>
       | Some p \<Rightarrow> if go_left then s1\<lparr>rb_left := (rb_left s1)(p := Some node)\<rparr>
                   else s1\<lparr>rb_right := (rb_right s1)(p := Some node)\<rparr>)
   }"

definition rb_insert :: "('k \<Rightarrow> 'k \<Rightarrow> int) \<Rightarrow> nat \<Rightarrow> 'k \<Rightarrow> 'k rbt \<Rightarrow> 'k rbt option" where
  "rb_insert compare node key s = do {
     m \<leftarrow> mutex_lock (rb_mutex s);
     s1 \<leftarrow> rbtree_insert compare node (s\<lparr>rb_mutex := m, rb_left := (rb_left s)(node := None),
       rb_right := (rb_right s)(node := None), rb_parent := (rb_parent s)(node := None),
       rb_color := (rb_color s)(node := RED), rb_key := (rb_key s)(node := key)\<rparr>);
     Some (s1\<lparr>rb_mutex := False\<rparr>)
   }"

section \<open>Deletion\<close>

partial_function (option) delete_fixup :: "nat option \<Rightarrow> nat option \<Rightarrow> 'k rbt \<Rightarrow> 'k rbt option" where
  "delete_fixup node parent s =
     (if is_red s node \<or> node = rb_root s
      then Some (case node of None \<Rightarrow> s | Some x \<Rightarrow> set_color x BLACK s)
      else (case parent of None \<Rightarrow> None
        | Some p \<Rightarrow>
          if rb_left s p = node
          then (case rb_right s p of None \<Rightarrow> None
            | Some sibling \<Rightarrow>
              let s1 = (if rb_color s sibling = RED
                        then left_rotate p (set_color p RED (set_color sibling BLACK s)) else s)
              in (case rb_right s1 p of None \<Rightarrow> None
                | Some other \<Rightarrow>
                  if \<not> is_red s1 (rb_left s1 other) \<and> \<not> is_red s1 (rb_right s1 other)
                  then delete_fixup (Some p) (rb_parent s1 p) (set_color other RED s1)
                  else do {
                    s2 \<leftarrow> (if \<not> is_red s1 (rb_right s1 other)
                      then (case rb_left s1 other of None \<Rightarrow> None
                        | Some near \<Rightarrow> Some (right_rotate other (set_color other RED (set_color near BLACK s1))))
                      else Some s1);
                    other2 \<leftarrow> rb_right s2 p;
                    far \<leftarrow> rb_right s2 other2;
                    let s3 = left_rotate p (set_color far BLACK (set_color p BLACK
                      (set_color other2 (rb_color s2 p) s2)));
                    Some (case rb_root s3 of None \<Rightarrow> s3 | Some x \<Rightarrow> set_color x BLACK s3)
                  }))
          else (case rb_left s p of None \<Rightarrow> None
            | Some sibling \<Rightarrow>
              let s1 = (if rb_color s sibling = RED
                        then right_rotate p (set_color p RED (set_color sibling BLACK s)) else s)
              in (case rb_left s1 p of None \<Rightarrow> None
                | Some other \<Rightarrow>
                  if \<not> is_red s1 (rb_left s1 other) \<and> \<not> is_red s1 (rb_right s1 other)
                  then delete_fixup (Some p) (rb_parent s1 p) (set_color other RED s1)
                  else do {
                    s2 \<leftarrow> (if \<not> is_red s1 (rb_left s1 other)
                      then (case rb_right s1 other of None \<Rightarrow> None
                        | Some near \<Rightarrow> Some (left_rotate other (set_color other RED (set_color near BLACK s1))))
                      else Some s1);
                    other2 \<leftarrow> rb_left s2 p;
                    far \<leftarrow> rb_left s2 other2;
                    let s3 = right_rotate p (set_color far BLACK (set_color p BLACK
                      (set_color other2 (rb_color s2 p) s2)));
                    Some (case rb_root s3 of None \<Rightarrow> s3 | Some x \<Rightarrow> set_color x BLACK s3)
                  }))))"


partial_function (option) leftmost :: "'k rbt \<Rightarrow> nat \<Rightarrow> nat option" where
  "leftmost s x = (case rb_left s x of None \<Rightarrow> Some x | Some l \<Rightarrow> leftmost s l)"

text \<open>A node with two children: its successor takes its place. The result also names the place where a
  black node is missing.\<close>

definition replace_by_successor ::
  "nat \<Rightarrow> nat \<Rightarrow> nat \<Rightarrow> 'k rbt \<Rightarrow> ('k rbt \<times> nat option \<times> nat option \<times> rbt_color) option" where
  "replace_by_successor node node_left node_right s = do {
     replace \<leftarrow> leftmost s node_right;
     let s1 = (case rb_parent s node of None \<Rightarrow> s\<lparr>rb_root := Some replace\<rparr>
       | Some p \<Rightarrow> if rb_left s p = Some node then s\<lparr>rb_left := (rb_left s)(p := Some replace)\<rparr>
                   else s\<lparr>rb_right := (rb_right s)(p := Some replace)\<rparr>);
     let child = rb_right s1 replace;
     let color = rb_color s1 replace;
     let (s2, parent) = (if rb_parent s1 replace = Some node then (s1, Some replace)
       else let t1 = (case child of None \<Rightarrow> s1
              | Some c \<Rightarrow> s1\<lparr>rb_parent := (rb_parent s1)(c := rb_parent s1 replace)\<rparr>);
                t2 = (case rb_parent t1 replace of None \<Rightarrow> t1
              | Some q \<Rightarrow> t1\<lparr>rb_left := (rb_left t1)(q := child)\<rparr>);
                t3 = (case rb_right t2 node of None \<Rightarrow> t2
              | Some r \<Rightarrow> t2\<lparr>rb_right := (rb_right t2)(replace := Some r),
                   rb_parent := (rb_parent t2)(r := Some replace)\<rparr>)
            in (t3, rb_parent s1 replace));
     Some (s2\<lparr>rb_parent := (rb_parent s2)(replace := rb_parent s2 node, node_left := Some replace),
       rb_color := (rb_color s2)(replace := rb_color s2 node),
       rb_left := (rb_left s2)(replace := rb_left s2 node)\<rparr>, child, parent, color)
   }"

text \<open>A node with at most one child.\<close>

definition unlink_node :: "nat \<Rightarrow> 'k rbt \<Rightarrow> 'k rbt \<times> nat option \<times> nat option" where
  "unlink_node node s =
     (let child = (if rb_left s node \<noteq> None then rb_left s node else rb_right s node);
          parent = rb_parent s node;
          s1 = (case child of None \<Rightarrow> s | Some c \<Rightarrow> s\<lparr>rb_parent := (rb_parent s)(c := parent)\<rparr>);
          s2 = (case parent of None \<Rightarrow> s1\<lparr>rb_root := child\<rparr>
            | Some p \<Rightarrow> if rb_left s1 p = Some node then s1\<lparr>rb_left := (rb_left s1)(p := child)\<rparr>
                        else s1\<lparr>rb_right := (rb_right s1)(p := child)\<rparr>)
      in (s2, child, parent))"

definition rb_delete :: "nat \<Rightarrow> 'k rbt \<Rightarrow> 'k rbt option" where
  "rb_delete node s = do {
     m \<leftarrow> mutex_lock (rb_mutex s);
     let s0 = s\<lparr>rb_mutex := m\<rparr>;
     (s1, child, parent, color) \<leftarrow> (case (rb_left s0 node, rb_right s0 node) of
         (Some l, Some r) \<Rightarrow> replace_by_successor node l r s0
       | _ \<Rightarrow> (case unlink_node node s0 of (s1, child, parent) \<Rightarrow>
           Some (s1, child, parent, rb_color s0 node)));
     s2 \<leftarrow> (if color = BLACK then delete_fixup child parent s1 else Some s1);
     Some (s2\<lparr>rb_mutex := False\<rparr>)
   }"

section \<open>Reading the tree\<close>

partial_function (option) search_from ::
  "('k \<Rightarrow> 'k \<Rightarrow> int) \<Rightarrow> 'k \<Rightarrow> 'k rbt \<Rightarrow> nat option \<Rightarrow> nat option option" where
  "search_from compare key s current =
     (case current of None \<Rightarrow> Some None
      | Some x \<Rightarrow>
        if compare key (rb_key s x) = 0 then Some (Some x)
        else search_from compare key s (if compare key (rb_key s x) < 0 then rb_left s x else rb_right s x))"

text \<open>\<open>Search\<close> for data of \<open>n\<close> bytes, with the size check of the default mode.\<close>

definition rb_search :: "('k \<Rightarrow> 'k \<Rightarrow> int) \<Rightarrow> nat \<Rightarrow> 'k \<Rightarrow> 'k rbt \<Rightarrow> ('k rbt \<times> nat option) option" where
  "rb_search compare n key s = do {
     m \<leftarrow> mutex_lock (rb_mutex s);
     found \<leftarrow> search_from compare key s (rb_root s);
     if (case found of None \<Rightarrow> True | Some x \<Rightarrow> size_limit_check LIMIT_MORE n (rb_size s x))
     then Some (s, found) else None
   }"

partial_function (option) foreach_node ::
  "(nat \<Rightarrow> 'st \<Rightarrow> error_code \<times> 'st) \<Rightarrow> 'k rbt \<Rightarrow> nat option \<Rightarrow> 'st \<Rightarrow> (error_code \<times> 'st) option" where
  "foreach_node func s node st =
     (case node of None \<Rightarrow> Some (OK, st)
      | Some x \<Rightarrow> do {
          (code, st1) \<leftarrow> foreach_node func s (rb_left s x) st;
          if code \<noteq> OK then Some (code, st1)
          else (case func x st1 of (code2, st2) \<Rightarrow>
            if code2 \<noteq> OK then Some (code2, st2) else foreach_node func s (rb_right s x) st2)
        })"

definition rb_foreach ::
  "(nat \<Rightarrow> 'st \<Rightarrow> error_code \<times> 'st) \<Rightarrow> 'k rbt \<Rightarrow> 'st \<Rightarrow> ('k rbt \<times> error_code \<times> 'st) option" where
  "rb_foreach func s st = do {
     m \<leftarrow> mutex_lock (rb_mutex s);
     r \<leftarrow> foreach_node func s (rb_root s) st;
     Some (s, r)
   }"

partial_function (option) count_nodes :: "'k rbt \<Rightarrow> nat option \<Rightarrow> u32 \<Rightarrow> u32 option" where
  "count_nodes s node count =
     (case node of None \<Rightarrow> Some count
      | Some x \<Rightarrow> do {
          c1 \<leftarrow> count_nodes s (rb_left s x) (count + 1);
          count_nodes s (rb_right s x) c1
        })"

definition rb_get_num :: "'k rbt \<Rightarrow> ('k rbt \<times> u32) option" where
  "rb_get_num s = do {
     m \<leftarrow> mutex_lock (rb_mutex s);
     n \<leftarrow> count_nodes s (rb_root s) 0;
     Some (s, n)
   }"

partial_function (option) climb :: "'k rbt \<Rightarrow> nat \<Rightarrow> nat option option" where
  "climb s node =
     (case rb_parent s node of None \<Rightarrow> Some None
      | Some p \<Rightarrow> if rb_right s p = Some node then climb s p else Some (Some p))"

definition rb_foreach_disc :: "'k rbt \<Rightarrow> nat option \<Rightarrow> ('k rbt \<times> nat option) option" where
  "rb_foreach_disc s node = do {
     m \<leftarrow> mutex_lock (rb_mutex s);
     r \<leftarrow> (case node of
         None \<Rightarrow> (case rb_root s of None \<Rightarrow> Some None | Some x \<Rightarrow> map_option Some (leftmost s x))
       | Some x \<Rightarrow> (case rb_right s x of
           Some y \<Rightarrow> map_option Some (leftmost s y)
         | None \<Rightarrow> (case rb_parent s x of None \<Rightarrow> Some None
           | Some p \<Rightarrow> if rb_left s p = Some x then Some (Some p) else climb s x)));
     Some (s, r)
   }"

text \<open>The constructor: the nodes are whatever memory holds.\<close>

definition rb_new :: "'k rbt \<Rightarrow> 'k rbt" where
  "rb_new s = s\<lparr>rb_root := None, rb_mutex := False\<rparr>"

text \<open>The constructor of a node for data of \<open>n\<close> bytes.\<close>

definition rb_node_new :: "nat \<Rightarrow> nat \<Rightarrow> 'k rbt \<Rightarrow> 'k rbt" where
  "rb_node_new node n s = s\<lparr>rb_left := (rb_left s)(node := None), rb_right := (rb_right s)(node := None),
     rb_parent := (rb_parent s)(node := None), rb_size := (rb_size s)(node := n)\<rparr>"

text \<open>The loops as equations that evaluation may use.\<close>

declare insert_descend.simps [code]
declare insert_fixup.simps [code]
declare delete_fixup.simps [code]
declare leftmost.simps [code]
declare search_from.simps [code]
declare foreach_node.simps [code]
declare count_nodes.simps [code]
declare climb.simps [code]

section \<open>Trees of addresses in the heap\<close>

datatype frame = In_Left nat "nat tree" | In_Right "nat tree" nat

fun plug :: "frame list \<Rightarrow> nat tree \<Rightarrow> nat tree" where
  "plug [] t = t"
| "plug (In_Left x r # C) t = plug C (Node t x r)"
| "plug (In_Right l x # C) t = plug C (Node l x t)"

fun ctx_top :: "frame list \<Rightarrow> nat option" where
  "ctx_top [] = None"
| "ctx_top (In_Left x r # C) = Some x"
| "ctx_top (In_Right l x # C) = Some x"

fun ctx_before :: "frame list \<Rightarrow> nat list" where
  "ctx_before [] = []"
| "ctx_before (In_Left x r # C) = ctx_before C"
| "ctx_before (In_Right l x # C) = ctx_before C @ inorder l @ [x]"

fun ctx_after :: "frame list \<Rightarrow> nat list" where
  "ctx_after [] = []"
| "ctx_after (In_Left x r # C) = x # inorder r @ ctx_after C"
| "ctx_after (In_Right l x # C) = ctx_after C"

definition ctx_nodes :: "frame list \<Rightarrow> nat set" where
  "ctx_nodes C = set (ctx_before C) \<union> set (ctx_after C)"

lemma ctx_nodes_simps [simp]:
  "ctx_nodes [] = {}" "ctx_nodes (In_Left x r # C) = insert x (set_tree r) \<union> ctx_nodes C"
  "ctx_nodes (In_Right l x # C) = insert x (set_tree l) \<union> ctx_nodes C"
  by (auto simp: ctx_nodes_def)

fun root_of :: "'a tree \<Rightarrow> 'a option" where
  "root_of Leaf = None"
| "root_of (Node l x r) = Some x"

lemma root_of_None [simp]: "root_of t = None \<longleftrightarrow> t = Leaf" "None = root_of t \<longleftrightarrow> t = Leaf"
  by (cases t; simp)+

lemma root_of_in: "root_of t = Some x \<Longrightarrow> x \<in> set_tree t"
  by (cases t) auto

lemma inorder_plug [simp]: "inorder (plug C t) = ctx_before C @ inorder t @ ctx_after C"
  by (induction C t rule: plug.induct) simp_all

lemma plug_not_Leaf [simp]: "t \<noteq> Leaf \<Longrightarrow> plug C t \<noteq> Leaf"
  by (induction C t rule: plug.induct) simp_all

lemma ctx_top_in: "ctx_top C = Some x \<Longrightarrow> x \<in> ctx_nodes C"
  by (cases C rule: ctx_top.cases) auto

fun tree_linked :: "'k rbt \<Rightarrow> nat option \<Rightarrow> nat tree \<Rightarrow> bool" where
  "tree_linked s p Leaf \<longleftrightarrow> True"
| "tree_linked s p (Node l x r) \<longleftrightarrow> rb_left s x = root_of l \<and> rb_right s x = root_of r \<and> rb_parent s x = p \<and>
     tree_linked s (Some x) l \<and> tree_linked s (Some x) r"

text \<open>The nodes of a context whose hole holds the root \<open>h\<close>.\<close>

fun ctx_linked :: "'k rbt \<Rightarrow> frame list \<Rightarrow> nat option \<Rightarrow> bool" where
  "ctx_linked s [] h \<longleftrightarrow> rb_root s = h"
| "ctx_linked s (In_Left x r # C) h \<longleftrightarrow> rb_left s x = h \<and> rb_right s x = root_of r \<and>
     rb_parent s x = ctx_top C \<and> tree_linked s (Some x) r \<and> ctx_linked s C (Some x)"
| "ctx_linked s (In_Right l x # C) h \<longleftrightarrow> rb_left s x = root_of l \<and> rb_right s x = h \<and>
     rb_parent s x = ctx_top C \<and> tree_linked s (Some x) l \<and> ctx_linked s C (Some x)"

text \<open>The subtree \<open>t\<close> in the context \<open>C\<close>, all nodes different.\<close>

definition in_place :: "'k rbt \<Rightarrow> frame list \<Rightarrow> nat tree \<Rightarrow> bool" where
  "in_place s C t \<longleftrightarrow> ctx_linked s C (root_of t) \<and> tree_linked s (ctx_top C) t \<and> distinct (inorder (plug C t))"

lemma in_place_plug: "in_place s (F # C) t \<longleftrightarrow> in_place s C (plug [F] t)"
  by (cases F) (auto simp: in_place_def)

lemma in_place_whole: "in_place s C t \<longleftrightarrow> in_place s [] (plug C t)"
  by (induction C t rule: plug.induct) (simp_all add: in_place_plug)

lemma tree_linked_cong:
  assumes "\<And>x. x \<in> set_tree t \<Longrightarrow> rb_left s' x = rb_left s x \<and> rb_right s' x = rb_right s x"
    and "\<And>x. x \<in> set_tree t \<Longrightarrow> root_of t \<noteq> Some x \<Longrightarrow> rb_parent s' x = rb_parent s x"
    and "tree_linked s p t" and "\<And>x. root_of t = Some x \<Longrightarrow> rb_parent s' x = q" and "distinct (inorder t)"
  shows "tree_linked s' q t"
  using assms
proof (induction t arbitrary: p q)
  case (Node l x r)
  have "tree_linked s' (Some x) l" "tree_linked s' (Some x) r"
  proof -
    have d: "x \<notin> set_tree l" "x \<notin> set_tree r" "distinct (inorder l)" "distinct (inorder r)"
      using Node.prems(5) by auto
    have l: "rb_parent s' y = Some x" if "root_of l = Some y" for y
      using that Node.prems(2,3) d root_of_in [OF that] by (cases l) auto
    have r: "rb_parent s' y = Some x" if "root_of r = Some y" for y
      using that Node.prems(2,3) d root_of_in [OF that] by (cases r) auto
    show "tree_linked s' (Some x) l"
      using Node.prems(1-3) d l by (intro Node.IH(1) [of "Some x"]) auto
    show "tree_linked s' (Some x) r"
      using Node.prems(1-3) d r by (intro Node.IH(2) [of "Some x"]) auto
  qed
  then show ?case using Node.prems by simp
qed simp

lemma tree_linked_same:
  assumes "\<And>x. x \<in> set_tree t \<Longrightarrow> rb_left s' x = rb_left s x \<and> rb_right s' x = rb_right s x \<and>
    rb_parent s' x = rb_parent s x"
  shows "tree_linked s' p t = tree_linked s p t"
  using assms by (induction t arbitrary: p) auto

lemma ctx_linked_same:
  assumes "\<And>x. x \<in> ctx_nodes C \<Longrightarrow> rb_left s' x = rb_left s x \<and> rb_right s' x = rb_right s x \<and>
    rb_parent s' x = rb_parent s x" and "rb_root s' = rb_root s"
  shows "ctx_linked s' C h = ctx_linked s C h"
  using assms
proof (induction C h rule: ctx_linked.induct [case_names Root Left Right])
  case (Left s x r C h)
  then show ?case using tree_linked_same [of r s' s "Some x"] by simp
next
  case (Right s l x C h)
  then show ?case using tree_linked_same [of l s' s "Some x"] by simp
qed simp


text \<open>Putting another root into the hole of a context.\<close>

fun set_hole :: "frame list \<Rightarrow> nat option \<Rightarrow> 'k rbt \<Rightarrow> 'k rbt" where
  "set_hole [] h s = s\<lparr>rb_root := h\<rparr>"
| "set_hole (In_Left x r # C) h s = s\<lparr>rb_left := (rb_left s)(x := h)\<rparr>"
| "set_hole (In_Right l x # C) h s = s\<lparr>rb_right := (rb_right s)(x := h)\<rparr>"

lemma set_hole_frame [simp]:
  "rb_parent (set_hole C h s) = rb_parent s" "rb_key (set_hole C h s) = rb_key s"
  "rb_color (set_hole C h s) = rb_color s" "rb_mutex (set_hole C h s) = rb_mutex s"
  "rb_size (set_hole C h s) = rb_size s"
  "z \<notin> ctx_nodes C \<Longrightarrow> rb_left (set_hole C h s) z = rb_left s z"
  "z \<notin> ctx_nodes C \<Longrightarrow> rb_right (set_hole C h s) z = rb_right s z"
  by (cases C rule: ctx_top.cases; auto)+

lemma ctx_linked_set_hole:
  assumes "ctx_linked s C h" "distinct (ctx_before C @ ctx_after C)"
  shows "ctx_linked (set_hole C h' s) C h'"
proof (cases C rule: ctx_top.cases)
  case (2 x r D)
  then have "x \<notin> set_tree r" "x \<notin> ctx_nodes D" using assms(2) by (auto simp: ctx_nodes_def)
  then have "tree_linked (set_hole C h' s) (Some x) r = tree_linked s (Some x) r"
    "ctx_linked (set_hole C h' s) D (Some x) = ctx_linked s D (Some x)"
    using 2 by (intro tree_linked_same ctx_linked_same; auto)+
  then show ?thesis using 2 assms(1) by simp
next
  case (3 l x D)
  then have "x \<notin> set_tree l" "x \<notin> ctx_nodes D" using assms(2) by (auto simp: ctx_nodes_def)
  then have "tree_linked (set_hole C h' s) (Some x) l = tree_linked s (Some x) l"
    "ctx_linked (set_hole C h' s) D (Some x) = ctx_linked s D (Some x)"
    using 3 by (intro tree_linked_same ctx_linked_same; auto)+
  then show ?thesis using 3 assms(1) by simp
qed simp

lemma ctx_linked_hole:
  assumes "ctx_linked s C h"
  shows "case C of [] \<Rightarrow> rb_root s = h | In_Left x r # D \<Rightarrow> rb_left s x = h
    | In_Right l x # D \<Rightarrow> rb_right s x = h \<and> rb_left s x = root_of l"
  using assms by (cases C rule: ctx_top.cases) auto

text \<open>The code finds the hole from the parent, in two ways.\<close>

lemma replace_child:
  assumes "ctx_linked s C (Some x)" "x \<notin> ctx_nodes C" "rb_parent s x = ctx_top C"
  shows "(case rb_parent s x of None \<Rightarrow> s\<lparr>rb_root := h\<rparr>
      | Some p \<Rightarrow> if rb_left s p = Some x then s\<lparr>rb_left := (rb_left s)(p := h)\<rparr>
                  else s\<lparr>rb_right := (rb_right s)(p := h)\<rparr>) = set_hole C h s"
    "distinct (ctx_before C @ ctx_after C) \<Longrightarrow> (case rb_parent s x of None \<Rightarrow> s\<lparr>rb_root := h\<rparr>
      | Some p \<Rightarrow> if rb_right s p = Some x then s\<lparr>rb_right := (rb_right s)(p := h)\<rparr>
                  else s\<lparr>rb_left := (rb_left s)(p := h)\<rparr>) = set_hole C h s"
  using assms root_of_in by (cases C rule: ctx_top.cases; force)+

lemma in_place_parts:
  assumes "in_place s C t"
  shows "ctx_linked s C (root_of t)" "tree_linked s (ctx_top C) t" "distinct (ctx_before C @ ctx_after C)"
    "distinct (inorder t)" "set_tree t \<inter> ctx_nodes C = {}" "root_of t = Some x \<Longrightarrow> rb_parent s x = ctx_top C"
  using assms by (auto simp: in_place_def ctx_nodes_def) (cases t; auto)

text \<open>A change of links outside a context keeps it, up to its hole.\<close>

lemma in_place_rearranged:
  assumes "in_place s C t" and "set_tree t' = set_tree t" "distinct (inorder t')"
    and "tree_linked s' (ctx_top C) t'" and "rb_root s' = rb_root (set_hole C (root_of t') s)"
    and "\<And>x. x \<in> ctx_nodes C \<Longrightarrow> rb_left s' x = rb_left (set_hole C (root_of t') s) x \<and>
      rb_right s' x = rb_right (set_hole C (root_of t') s) x \<and> rb_parent s' x = rb_parent s x"
  shows "in_place s' C t'"
proof -
  note p = in_place_parts [OF assms(1)]
  have "ctx_linked s' C (root_of t')"
    using ctx_linked_set_hole [OF p(1,3), of "root_of t'"] assms(5,6)
      ctx_linked_same [of C s' "set_hole C (root_of t') s"] by simp
  moreover have "distinct (inorder (plug C t'))"
    using p(3,5) assms(2,3) by (auto simp: ctx_nodes_def)
  ultimately show ?thesis using assms(4) by (simp add: in_place_def)
qed

lemma left_rotate_place:
  assumes "in_place s C (Node a x (Node b y c))"
  shows "in_place (left_rotate x s) C (Node (Node a x b) y c)"
proof -
  note p = in_place_parts [OF assms]
  have n: "x \<notin> ctx_nodes C" "y \<notin> ctx_nodes C" "set_tree b \<inter> ctx_nodes C = {}" using p(5) by auto
  have l: "rb_right s x = Some y" "rb_left s y = root_of b" "rb_parent s x = ctx_top C"
    "rb_right s y = root_of c" "rb_left s x = root_of a"
    "tree_linked s (Some x) a" "tree_linked s (Some y) b" "tree_linked s (Some y) c"
    using p(2) by simp_all
  have d: "x \<noteq> y" "x \<notin> set_tree a" "y \<notin> set_tree a" "x \<notin> set_tree b" "y \<notin> set_tree b" "x \<notin> set_tree c"
    "y \<notin> set_tree c" "set_tree a \<inter> set_tree b = {}" "set_tree c \<inter> set_tree b = {}" "distinct (inorder b)"
    using p(4) by auto
  let ?s = "left_rotate x s"
  have "rb_root ?s = rb_root (set_hole C (Some y) s) \<and>
    (\<forall>z. rb_left ?s z = (if z = y then Some x else rb_left (set_hole C (Some y) s) z)) \<and>
    (\<forall>z. rb_right ?s z = (if z = x then root_of b else rb_right (set_hole C (Some y) s) z)) \<and>
    (\<forall>z. rb_parent ?s z = (if z = x then Some y else if z = y then ctx_top C
       else if root_of b = Some z then Some x else rb_parent s z))"
  proof -
    have bx: "root_of b \<noteq> Some x" "root_of b \<noteq> Some y" using d root_of_in by metis+
    show ?thesis
    proof (cases C rule: ctx_top.cases)
      case 1
      then show ?thesis using l bx d(1) by (cases b) (auto simp: left_rotate_def)
    next
      case (2 q r D)
      then have "q \<noteq> x" "q \<noteq> y" "rb_left s q = Some x" using n ctx_linked_hole [OF p(1)] by auto
      then show ?thesis using 2 l bx d(1) by (cases b) (auto simp: left_rotate_def)
    next
      case (3 r q D)
      then have "q \<noteq> x" "q \<noteq> y" "rb_left s q = root_of r" "root_of r \<noteq> Some x"
        using n ctx_linked_hole [OF p(1)] root_of_in [of r x] by auto
      then show ?thesis using 3 l bx d(1) by (cases b) (auto simp: left_rotate_def)
    qed
  qed
  then have L: "rb_left ?s z = (if z = y then Some x else rb_left (set_hole C (Some y) s) z)"
    and R: "rb_right ?s z = (if z = x then root_of b else rb_right (set_hole C (Some y) s) z)"
    and P: "rb_parent ?s z = (if z = x then Some y else if z = y then ctx_top C
       else if root_of b = Some z then Some x else rb_parent s z)"
    and T: "rb_root ?s = rb_root (set_hole C (Some y) s)" for z by blast+
  have same: "rb_left ?s z = rb_left s z \<and> rb_right ?s z = rb_right s z \<and>
      (root_of b \<noteq> Some z \<longrightarrow> rb_parent ?s z = rb_parent s z)"
    if "z \<noteq> x" "z \<noteq> y" "z \<notin> ctx_nodes C" for z
    using that by (simp add: L R P)
  have out: "set_tree a \<inter> ctx_nodes C = {}" "set_tree c \<inter> ctx_nodes C = {}" using p(5) by auto
  have keep: "tree_linked ?s q t = tree_linked s q t"
    if "set_tree t \<inter> ctx_nodes C = {}" "x \<notin> set_tree t" "y \<notin> set_tree t" "set_tree t \<inter> set_tree b = {}" for q t
  proof (rule tree_linked_same)
    fix z assume "z \<in> set_tree t"
    then have "z \<noteq> x" "z \<noteq> y" "z \<notin> ctx_nodes C" "root_of b \<noteq> Some z"
      using that root_of_in [of b z] by auto
    then show "rb_left ?s z = rb_left s z \<and> rb_right ?s z = rb_right s z \<and> rb_parent ?s z = rb_parent s z"
      using same by blast
  qed
  have a: "tree_linked ?s (Some x) a" and c: "tree_linked ?s (Some y) c" using keep d out l by simp_all
  have b: "tree_linked ?s (Some x) b"
  proof (rule tree_linked_cong [OF _ _ l(7)])
    fix z assume "z \<in> set_tree b"
    then have z: "z \<noteq> x" "z \<noteq> y" "z \<notin> ctx_nodes C" using d n by auto
    show "rb_left ?s z = rb_left s z \<and> rb_right ?s z = rb_right s z" using same [OF z] by simp
    show "root_of b \<noteq> Some z \<Longrightarrow> rb_parent ?s z = rb_parent s z" using same [OF z] by simp
  next
    fix z assume "root_of b = Some z"
    then show "rb_parent ?s z = Some x" using d root_of_in [of b z] by (auto simp: P)
  qed (rule d(10))
  show ?thesis
  proof (rule in_place_rearranged [OF assms])
    show "tree_linked ?s (ctx_top C) (Node (Node a x b) y c)"
      using a b c l d n by (simp add: L R P)
  qed (use n p(4) T root_of_in [of b] in \<open>auto simp: L R P\<close>)
qed


lemma right_rotate_place:
  assumes "in_place s C (Node (Node a x b) y c)"
  shows "in_place (right_rotate y s) C (Node a x (Node b y c))"
proof -
  note p = in_place_parts [OF assms]
  have n: "x \<notin> ctx_nodes C" "y \<notin> ctx_nodes C" "set_tree b \<inter> ctx_nodes C = {}" using p(5) by auto
  have l: "rb_left s y = Some x" "rb_right s x = root_of b" "rb_parent s y = ctx_top C"
    "rb_right s y = root_of c" "rb_left s x = root_of a"
    "tree_linked s (Some x) a" "tree_linked s (Some x) b" "tree_linked s (Some y) c"
    using p(2) by simp_all
  have d: "x \<noteq> y" "x \<notin> set_tree a" "y \<notin> set_tree a" "x \<notin> set_tree b" "y \<notin> set_tree b" "x \<notin> set_tree c"
    "y \<notin> set_tree c" "set_tree a \<inter> set_tree b = {}" "set_tree c \<inter> set_tree b = {}" "distinct (inorder b)"
    using p(4) by auto
  let ?s = "right_rotate y s"
  have "rb_root ?s = rb_root (set_hole C (Some x) s) \<and>
    (\<forall>z. rb_right ?s z = (if z = x then Some y else rb_right (set_hole C (Some x) s) z)) \<and>
    (\<forall>z. rb_left ?s z = (if z = y then root_of b else rb_left (set_hole C (Some x) s) z)) \<and>
    (\<forall>z. rb_parent ?s z = (if z = y then Some x else if z = x then ctx_top C
       else if root_of b = Some z then Some y else rb_parent s z))"
  proof -
    have bx: "root_of b \<noteq> Some x" "root_of b \<noteq> Some y" using d root_of_in by metis+
    show ?thesis
    proof (cases C rule: ctx_top.cases)
      case 1
      then show ?thesis using l bx d(1) by (cases b) (auto simp: right_rotate_def)
    next
      case (2 q r D)
      then have "q \<noteq> x" "q \<noteq> y" "rb_right s q = root_of r" "root_of r \<noteq> Some y"
        using n p(1) root_of_in [of r y] by auto
      then show ?thesis using 2 l bx d(1) by (cases b) (auto simp: right_rotate_def)
    next
      case (3 r q D)
      then have "q \<noteq> x" "q \<noteq> y" "rb_right s q = Some y" using n ctx_linked_hole [OF p(1)] by auto
      then show ?thesis using 3 l bx d(1) by (cases b) (auto simp: right_rotate_def)
    qed
  qed
  then have L: "rb_right ?s z = (if z = x then Some y else rb_right (set_hole C (Some x) s) z)"
    and R: "rb_left ?s z = (if z = y then root_of b else rb_left (set_hole C (Some x) s) z)"
    and P: "rb_parent ?s z = (if z = y then Some x else if z = x then ctx_top C
       else if root_of b = Some z then Some y else rb_parent s z)"
    and T: "rb_root ?s = rb_root (set_hole C (Some x) s)" for z by blast+
  have same: "rb_left ?s z = rb_left s z \<and> rb_right ?s z = rb_right s z \<and>
      (root_of b \<noteq> Some z \<longrightarrow> rb_parent ?s z = rb_parent s z)"
    if "z \<noteq> x" "z \<noteq> y" "z \<notin> ctx_nodes C" for z
    using that by (simp add: L R P)
  have out: "set_tree a \<inter> ctx_nodes C = {}" "set_tree c \<inter> ctx_nodes C = {}" using p(5) by auto
  have keep: "tree_linked ?s q t = tree_linked s q t"
    if "set_tree t \<inter> ctx_nodes C = {}" "x \<notin> set_tree t" "y \<notin> set_tree t" "set_tree t \<inter> set_tree b = {}" for q t
  proof (rule tree_linked_same)
    fix z assume "z \<in> set_tree t"
    then have "z \<noteq> x" "z \<noteq> y" "z \<notin> ctx_nodes C" "root_of b \<noteq> Some z"
      using that root_of_in [of b z] by auto
    then show "rb_left ?s z = rb_left s z \<and> rb_right ?s z = rb_right s z \<and> rb_parent ?s z = rb_parent s z"
      using same by blast
  qed
  have a: "tree_linked ?s (Some x) a" and c: "tree_linked ?s (Some y) c" using keep d out l by simp_all
  have b: "tree_linked ?s (Some y) b"
  proof (rule tree_linked_cong [OF _ _ l(7)])
    fix z assume "z \<in> set_tree b"
    then have z: "z \<noteq> x" "z \<noteq> y" "z \<notin> ctx_nodes C" using d n by auto
    show "rb_left ?s z = rb_left s z \<and> rb_right ?s z = rb_right s z" using same [OF z] by simp
    show "root_of b \<noteq> Some z \<Longrightarrow> rb_parent ?s z = rb_parent s z" using same [OF z] by simp
  next
    fix z assume "root_of b = Some z"
    then show "rb_parent ?s z = Some y" using d root_of_in [of b z] by (auto simp: P)
  qed (rule d(10))
  show ?thesis
  proof (rule in_place_rearranged [OF assms])
    show "tree_linked ?s (ctx_top C) (Node a x (Node b y c))"
      using a b c l d n by (simp add: L R P)
  qed (use n p(4) T root_of_in [of b] in \<open>auto simp: L R P\<close>)
qed

lemma in_place_color [simp]: "in_place (set_color x c s) C t = in_place s C t"
proof -
  have 1: "tree_linked (set_color x c s) p t = tree_linked s p t" for p t
    by (rule tree_linked_same) (simp add: set_color_def)
  have "ctx_linked (set_color x c s) C h = ctx_linked s C h" for C h
    by (rule ctx_linked_same) (simp_all add: set_color_def)
  then show ?thesis by (simp add: in_place_def 1)
qed

lemma set_color_simps [simp]:
  "rb_color (set_color x c s) = (rb_color s)(x := c)" "rb_key (set_color x c s) = rb_key s"
  "rb_left (set_color x c s) = rb_left s" "rb_right (set_color x c s) = rb_right s"
  "rb_parent (set_color x c s) = rb_parent s" "rb_root (set_color x c s) = rb_root s"
  "rb_mutex (set_color x c s) = rb_mutex s" "rb_size (set_color x c s) = rb_size s"
  by (simp_all add: set_color_def)

section \<open>The colours\<close>

fun rooted_black :: "(nat \<Rightarrow> rbt_color) \<Rightarrow> nat tree \<Rightarrow> bool" where
  "rooted_black c Leaf \<longleftrightarrow> True"
| "rooted_black c (Node l x r) \<longleftrightarrow> c x = BLACK"

text \<open>\<open>rb c t n\<close>: no red node has a red child, and every path from the root of \<open>t\<close> to a leaf passes \<open>n\<close>
  black nodes.\<close>

fun rb :: "(nat \<Rightarrow> rbt_color) \<Rightarrow> nat tree \<Rightarrow> nat \<Rightarrow> bool" where
  "rb c Leaf n \<longleftrightarrow> n = 0"
| "rb c (Node l x r) n \<longleftrightarrow> (case c x of
     BLACK \<Rightarrow> (case n of 0 \<Rightarrow> False | Suc m \<Rightarrow> rb c l m \<and> rb c r m)
   | RED \<Rightarrow> rb c l n \<and> rb c r n \<and> rooted_black c l \<and> rooted_black c r)"

definition top_black :: "(nat \<Rightarrow> rbt_color) \<Rightarrow> frame list \<Rightarrow> bool" where
  "top_black c C \<longleftrightarrow> (case ctx_top C of None \<Rightarrow> True | Some x \<Rightarrow> c x = BLACK)"

text \<open>\<open>rb_ctx c C n\<close>: the same of a context whose hole wants a subtree with \<open>n\<close> black nodes on each path.
  The node above the hole may be red.\<close>

fun rb_ctx :: "(nat \<Rightarrow> rbt_color) \<Rightarrow> frame list \<Rightarrow> nat \<Rightarrow> bool" where
  "rb_ctx c [] n \<longleftrightarrow> True"
| "rb_ctx c (In_Left x r # C) n \<longleftrightarrow> rb c r n \<and> (case c x of BLACK \<Rightarrow> rb_ctx c C (Suc n)
     | RED \<Rightarrow> rooted_black c r \<and> top_black c C \<and> C \<noteq> [] \<and> rb_ctx c C n)"
| "rb_ctx c (In_Right l x # C) n \<longleftrightarrow> rb c l n \<and> (case c x of BLACK \<Rightarrow> rb_ctx c C (Suc n)
     | RED \<Rightarrow> rooted_black c l \<and> top_black c C \<and> C \<noteq> [] \<and> rb_ctx c C n)"

lemma rb_cong: "(\<And>x. x \<in> set_tree t \<Longrightarrow> c x = c' x) \<Longrightarrow> rb c t n = rb c' t n"
proof (induction t arbitrary: n)
  case (Node l x r)
  have "rooted_black c l = rooted_black c' l" "rooted_black c r = rooted_black c' r"
    using Node.prems by (cases l; cases r; simp)+
  then show ?case using Node by (auto split: rbt_color.split nat.split)
qed simp

lemma rooted_black_cong: "(\<And>x. root_of t = Some x \<Longrightarrow> c x = c' x) \<Longrightarrow> rooted_black c t = rooted_black c' t"
  by (cases t) auto

lemma rb_ctx_cong: "(\<And>x. x \<in> ctx_nodes C \<Longrightarrow> c x = c' x) \<Longrightarrow> rb_ctx c C n = rb_ctx c' C n"
proof (induction c C n rule: rb_ctx.induct [case_names Root Left Right])
  case (Left c x r C n)
  have "rb c r n = rb c' r n" "rooted_black c r = rooted_black c' r" "top_black c C = top_black c' C"
    using Left.prems ctx_top_in [of C] root_of_in [of r]
    by (auto intro!: rb_cong rooted_black_cong simp: top_black_def split: option.split)
  then show ?case using Left by (auto split: rbt_color.split)
next
  case (Right c l x C n)
  have "rb c l n = rb c' l n" "rooted_black c l = rooted_black c' l" "top_black c C = top_black c' C"
    using Right.prems ctx_top_in [of C] root_of_in [of l]
    by (auto intro!: rb_cong rooted_black_cong simp: top_black_def split: option.split)
  then show ?case using Right by (auto split: rbt_color.split)
qed simp

text \<open>Filling the hole.\<close>

lemma rb_plug:
  "rb_ctx c C n \<Longrightarrow> rb c t n \<Longrightarrow> rooted_black c t \<or> top_black c C \<and> C \<noteq> [] \<Longrightarrow> \<exists>m. rb c (plug C t) m"
proof (induction C t arbitrary: n rule: plug.induct)
  case (2 x r C t)
  then show ?case
    by (cases "c x") (auto simp: top_black_def split: rbt_color.splits intro!: "2.IH")
next
  case (3 l x C t)
  then show ?case
    by (cases "c x") (auto simp: top_black_def split: rbt_color.splits intro!: "3.IH")
qed auto


lemma rb_blacken:
  assumes "rb c (Node l x r) n" "distinct (inorder (Node l x r))"
  shows "\<exists>m. rb (c(x := BLACK)) (Node l x r) m"
proof -
  have "rb (c(x := BLACK)) l k = rb c l k" "rb (c(x := BLACK)) r k = rb c r k" for k
    using assms(2) by (auto intro!: rb_cong)
  then have "rb (c(x := BLACK)) (Node l x r) (if c x = RED then Suc n else n)"
    using assms(1) by (cases "c x") (auto split: nat.splits)
  then show ?thesis by blast
qed

text \<open>What an operation on the whole tree leaves alone.\<close>

definition same_nodes :: "'k rbt \<Rightarrow> 'k rbt \<Rightarrow> bool" where
  "same_nodes s s' \<longleftrightarrow> rb_key s' = rb_key s \<and> rb_size s' = rb_size s \<and> rb_mutex s' = rb_mutex s"

lemma same_nodes_trans [trans]: "same_nodes s s' \<Longrightarrow> same_nodes s' s'' \<Longrightarrow> same_nodes s s''"
  by (simp add: same_nodes_def)

lemma same_nodes_steps [simp]:
  "same_nodes s s" "same_nodes s (set_color x c s') = same_nodes s s'"
  "same_nodes s (left_rotate x s') = same_nodes s s'" "same_nodes s (right_rotate x s') = same_nodes s s'"
  by (simp_all add: same_nodes_def)

text \<open>A red-black tree in the heap.\<close>

definition rb_tree :: "'k rbt \<Rightarrow> nat tree \<Rightarrow> bool" where
  "rb_tree s t \<longleftrightarrow> in_place s [] t \<and> (\<exists>m. rb (rb_color s) t m) \<and> rooted_black (rb_color s) t"

lemma insert_fixup_done:
  assumes "in_place s [] T" "rb (rb_color s) T m" "T \<noteq> Leaf" "\<not> is_red s (rb_parent s x)"
  shows "\<exists>s'. insert_fixup x s = Some s' \<and> rb_tree s' T \<and> same_nodes s s'"
proof -
  obtain l z r where T: "T = Node l z r" using assms(3) by (cases T) auto
  have "rb_root s = Some z" "distinct (inorder T)" using assms(1) T by (simp_all add: in_place_def)
  then show ?thesis
    using assms rb_blacken [of "rb_color s" l z r m] T
    by (subst insert_fixup.simps) (simp add: rb_tree_def)
qed

text \<open>The node above a red hole, and the one above that.\<close>

lemma red_top_cases:
  assumes "rb_ctx c C n" "\<not> top_black c C"
  obtains F p G g D where "C = F # G # D" "ctx_top (F # G # D) = Some p" "ctx_top (G # D) = Some g"
    "c p = RED" "c g = BLACK"
proof -
  obtain F C' where C: "C = F # C'" using assms(2) by (cases C) (auto simp: top_black_def)
  obtain p where p: "ctx_top C = Some p" "c p = RED"
    using assms(2) by (auto simp: top_black_def split: option.splits) (metis rbt_color.exhaust)
  have "top_black c C'" "C' \<noteq> []"
    using assms(1) p C by (cases F; simp)+
  moreover then obtain G D where "C' = G # D" by (cases C') auto
  moreover then obtain g where "ctx_top C' = Some g" by (cases G) auto
  ultimately show thesis using that C p by (auto simp: top_black_def)
qed

lemma top_parent: "in_place s C (Node l x r) \<Longrightarrow> rb_parent s x = ctx_top C"
  by (simp add: in_place_def)

lemma is_red_tree [simp]: "is_red s (root_of t) \<longleftrightarrow> \<not> rooted_black (rb_color s) t"
  by (cases t) (auto simp: is_red_def, (metis rbt_color.exhaust)+)


lemma rb_recolor [simp]: "x \<notin> set_tree t \<Longrightarrow> rb (c(x := k)) t n = rb c t n"
  by (rule rb_cong) auto

lemma rooted_black_recolor [simp]: "x \<notin> set_tree t \<Longrightarrow> rooted_black (c(x := k)) t = rooted_black c t"
  by (rule rooted_black_cong) (auto dest: root_of_in)

lemma rb_ctx_recolor [simp]: "x \<notin> ctx_nodes C \<Longrightarrow> rb_ctx (c(x := k)) C n = rb_ctx c C n"
  by (rule rb_ctx_cong) auto

lemma in_place_distinct: "in_place s C t \<Longrightarrow> distinct (inorder (plug C t))"
  by (simp add: in_place_def)

text \<open>The recolouring step and the four rotations of the insertion: the new subtree, its colours and the
  context that remains. The first conjunct is what the test of the code sees.\<close>

lemma insert_recolor:
  assumes "in_place s (F # G # D) (Node l x r)" "rb_ctx (rb_color s) (F # G # D) n"
    "rb (rb_color s) (Node l x r) n" "rb_color s x = RED"
    "ctx_top (F # G # D) = Some p" "ctx_top (G # D) = Some g" "rb_color s p = RED" "rb_color s g = BLACK"
    "case G of In_Left _ u \<Rightarrow> u = Node ul z ur | In_Right u _ \<Rightarrow> u = Node ul z ur" "rb_color s z = RED"
  defines "s' \<equiv> set_color g RED (set_color p BLACK (set_color z BLACK s))"
  obtains l' r' where "in_place s' D (Node l' g r')" "rb_ctx (rb_color s') D (Suc n)"
    "rb (rb_color s') (Node l' g r') (Suc n)" "rb_color s' g = RED"
    "plug D (Node l' g r') = plug (F # G # D) (Node l x r)"
proof -
  define T where "T = plug [F, G] (Node l x r)"
  have T: "plug D T = plug (F # G # D) (Node l x r)" by (cases F; cases G) (simp_all add: T_def)
  have "in_place s D T" using assms(1) by (cases F; cases G) (simp_all add: in_place_plug T_def)
  then have ip: "in_place s' D T" by (simp add: s'_def)
  have d: "distinct (inorder (plug (F # G # D) (Node l x r)))" using assms(1) by (rule in_place_distinct)
  have "g \<notin> ctx_nodes D" "p \<notin> ctx_nodes D" "z \<notin> ctx_nodes D"
    using d assms(5,6,9) by (cases F; cases G; auto simp: ctx_nodes_def)+
  then have rc: "rb_ctx (rb_color s') D (Suc n)"
    using assms(2,5-8) by (cases F; cases G) (simp_all add: s'_def)
  obtain l' r' where lr: "T = Node l' g r'" "rb (rb_color s') T (Suc n)"
    using d assms(2-10) by (cases F; cases G) (auto simp: T_def s'_def)
  show thesis using that [of l' r'] ip rc lr T by (simp add: s'_def)
qed


lemma insert_rotate_LL:
  assumes "in_place s (In_Left p b # In_Left g u # D) (Node l x r)" "rb_ctx (rb_color s) (In_Left p b # In_Left g u # D) n"
    "rb (rb_color s) (Node l x r) n" "rb_color s x = RED" "rb_color s p = RED" "rb_color s g = BLACK"
    "rooted_black (rb_color s) u"
  defines "s' \<equiv> right_rotate g (set_color g RED (set_color p BLACK s))"
  shows "in_place s' D (Node (Node l x r) p (Node b g u))" "rb_ctx (rb_color s') D (Suc n)"
    "rb (rb_color s') (Node (Node l x r) p (Node b g u)) (Suc n)" "rb_color s' p = BLACK"
proof -
  have d: "distinct (inorder (plug (In_Left p b # In_Left g u # D) (Node l x r)))" using assms(1) by (rule in_place_distinct)
  have "in_place (set_color g RED (set_color p BLACK s)) D (Node (Node (Node l x r) p b) g u)"
    using assms(1) by (simp add: in_place_plug)
  then show "in_place s' D (Node (Node l x r) p (Node b g u))"
    unfolding s'_def by (rule right_rotate_place)
  show "rb_ctx (rb_color s') D (Suc n)"
    using d assms(2,5,6) by (simp add: s'_def ctx_nodes_def)
  show "rb (rb_color s') (Node (Node l x r) p (Node b g u)) (Suc n)"
    using d assms(2-7) by (auto simp: s'_def)
  show "rb_color s' p = BLACK" using d by (auto simp: s'_def)
qed

lemma insert_rotate_RR:
  assumes "in_place s (In_Right b p # In_Right u g # D) (Node l x r)" "rb_ctx (rb_color s) (In_Right b p # In_Right u g # D) n"
    "rb (rb_color s) (Node l x r) n" "rb_color s x = RED" "rb_color s p = RED" "rb_color s g = BLACK"
    "rooted_black (rb_color s) u"
  defines "s' \<equiv> left_rotate g (set_color g RED (set_color p BLACK s))"
  shows "in_place s' D (Node (Node u g b) p (Node l x r))" "rb_ctx (rb_color s') D (Suc n)"
    "rb (rb_color s') (Node (Node u g b) p (Node l x r)) (Suc n)" "rb_color s' p = BLACK"
proof -
  have d: "distinct (inorder (plug (In_Right b p # In_Right u g # D) (Node l x r)))" using assms(1) by (rule in_place_distinct)
  have "in_place (set_color g RED (set_color p BLACK s)) D (Node u g (Node b p (Node l x r)))"
    using assms(1) by (simp add: in_place_plug)
  then show "in_place s' D (Node (Node u g b) p (Node l x r))"
    unfolding s'_def by (rule left_rotate_place)
  show "rb_ctx (rb_color s') D (Suc n)"
    using d assms(2,5,6) by (simp add: s'_def ctx_nodes_def)
  show "rb (rb_color s') (Node (Node u g b) p (Node l x r)) (Suc n)"
    using d assms(2-7) by (auto simp: s'_def)
  show "rb_color s' p = BLACK" using d by (auto simp: s'_def)
qed

lemma insert_rotate_LR:
  assumes "in_place s (In_Right a p # In_Left g u # D) (Node l x r)" "rb_ctx (rb_color s) (In_Right a p # In_Left g u # D) n"
    "rb (rb_color s) (Node l x r) n" "rb_color s x = RED" "rb_color s p = RED" "rb_color s g = BLACK"
    "rooted_black (rb_color s) u"
  defines "s' \<equiv> right_rotate g (set_color g RED (set_color x BLACK (left_rotate p s)))"
  shows "in_place s' D (Node (Node a p l) x (Node r g u))" "rb_ctx (rb_color s') D (Suc n)"
    "rb (rb_color s') (Node (Node a p l) x (Node r g u)) (Suc n)" "rb_color s' x = BLACK"
proof -
  have d: "distinct (inorder (plug (In_Right a p # In_Left g u # D) (Node l x r)))" using assms(1) by (rule in_place_distinct)
  have "in_place s (In_Left g u # D) (Node a p (Node l x r))" using assms(1) by (simp add: in_place_plug)
  then have "in_place (left_rotate p s) (In_Left g u # D) (Node (Node a p l) x r)" by (rule left_rotate_place)
  then have "in_place (set_color g RED (set_color x BLACK (left_rotate p s))) D (Node (Node (Node a p l) x r) g u)"
    by (simp add: in_place_plug)
  then show "in_place s' D (Node (Node a p l) x (Node r g u))"
    unfolding s'_def by (rule right_rotate_place)
  show "rb_ctx (rb_color s') D (Suc n)"
    using d assms(2,5,6) by (simp add: s'_def ctx_nodes_def)
  show "rb (rb_color s') (Node (Node a p l) x (Node r g u)) (Suc n)"
    using d assms(2-7) by (auto simp: s'_def)
  show "rb_color s' x = BLACK" using d by (auto simp: s'_def)
qed

lemma insert_rotate_RL:
  assumes "in_place s (In_Left p a # In_Right u g # D) (Node l x r)" "rb_ctx (rb_color s) (In_Left p a # In_Right u g # D) n"
    "rb (rb_color s) (Node l x r) n" "rb_color s x = RED" "rb_color s p = RED" "rb_color s g = BLACK"
    "rooted_black (rb_color s) u"
  defines "s' \<equiv> left_rotate g (set_color g RED (set_color x BLACK (right_rotate p s)))"
  shows "in_place s' D (Node (Node u g l) x (Node r p a))" "rb_ctx (rb_color s') D (Suc n)"
    "rb (rb_color s') (Node (Node u g l) x (Node r p a)) (Suc n)" "rb_color s' x = BLACK"
proof -
  have d: "distinct (inorder (plug (In_Left p a # In_Right u g # D) (Node l x r)))" using assms(1) by (rule in_place_distinct)
  have "in_place s (In_Right u g # D) (Node (Node l x r) p a)" using assms(1) by (simp add: in_place_plug)
  then have "in_place (right_rotate p s) (In_Right u g # D) (Node l x (Node r p a))" by (rule right_rotate_place)
  then have "in_place (set_color g RED (set_color x BLACK (right_rotate p s))) D (Node u g (Node l x (Node r p a)))"
    by (simp add: in_place_plug)
  then show "in_place s' D (Node (Node u g l) x (Node r p a))"
    unfolding s'_def by (rule left_rotate_place)
  show "rb_ctx (rb_color s') D (Suc n)"
    using d assms(2,5,6) by (simp add: s'_def ctx_nodes_def)
  show "rb (rb_color s') (Node (Node u g l) x (Node r p a)) (Suc n)"
    using d assms(2-7) by (auto simp: s'_def)
  show "rb_color s' x = BLACK" using d by (auto simp: s'_def)
qed

lemma rotated_done:
  assumes "in_place s D T" "rb_ctx (rb_color s) D n" "rb (rb_color s) T n" "rooted_black (rb_color s) T"
    "T \<noteq> Leaf" "\<not> is_red s (rb_parent s x)"
  shows "\<exists>s'. insert_fixup x s = Some s' \<and> rb_tree s' (plug D T) \<and> same_nodes s s'"
proof -
  obtain m where "rb (rb_color s) (plug D T) m" using rb_plug [OF assms(2,3)] assms(4) by blast
  moreover have "plug D T \<noteq> Leaf"
    using assms(5) by simp
  ultimately show ?thesis using insert_fixup_done assms(1,6) in_place_whole by blast
qed


lemma insert_fixup_correct:
  assumes "in_place s C (Node l x r)" "rb_ctx (rb_color s) C n" "rb (rb_color s) (Node l x r) n"
    "rb_color s x = RED"
  shows "\<exists>s' t'. insert_fixup x s = Some s' \<and> rb_tree s' t' \<and> same_nodes s s' \<and>
    inorder t' = inorder (plug C (Node l x r))"
  using assms
proof (induction C arbitrary: s l x r n rule: measure_induct_rule [where f = length])
  case (less C)
  let ?c = "rb_color s"
  note ip = less.prems(1)
  have par: "rb_parent s x = ctx_top C" using top_parent ip .
  show ?case
  proof (cases "top_black ?c C")
    case True
    then have nr: "\<not> is_red s (rb_parent s x)"
      by (auto simp: par top_black_def is_red_def split: option.splits)
    show ?thesis
    proof (cases "C = []")
      case True
      then show ?thesis using insert_fixup_done [OF _ less.prems(3) _ nr] ip by fastforce
    next
      case False
      then obtain m where "rb ?c (plug C (Node l x r)) m"
        using rb_plug [OF less.prems(2,3)] \<open>top_black ?c C\<close> by blast
      then obtain s' where "insert_fixup x s = Some s'" "rb_tree s' (plug C (Node l x r))" "same_nodes s s'"
        using insert_fixup_done [of s "plug C (Node l x r)" m x] ip nr in_place_whole [of s C] by auto
      then show ?thesis by (intro exI [of _ s'] exI [of _ "plug C (Node l x r)"]) simp
    qed
  next
    case False
    then obtain F p G g D where C: "C = F # G # D" and tops: "ctx_top (F # G # D) = Some p"
      "ctx_top (G # D) = Some g" "?c p = RED" "?c g = BLACK"
      using red_top_cases [OF less.prems(2)] by metis
    have p: "is_red s (rb_parent s x)" "rb_parent s x = Some p" using par tops C by (simp_all add: is_red_def)
    have g: "rb_parent s p = Some g"
    proof -
      have "in_place s (G # D) (plug [F] (Node l x r))" using ip C by (simp add: in_place_plug)
      then show ?thesis using tops by (cases F) (auto dest: top_parent)
    qed
    have d: "distinct (inorder (plug C (Node l x r)))" using in_place_distinct [OF ip] .
    have ctx: "ctx_linked s (F # G # D) (Some x)" using ip C by (simp add: in_place_def)
    show ?thesis
    proof (cases G)
      case (In_Left g' u)
      then have G: "G = In_Left g u" using tops by simp
      have gl: "rb_left s g = Some p" "rb_right s g = root_of u"
        using ctx tops G by (cases F; simp)+
      show ?thesis
      proof (cases "rooted_black ?c u")
        case False
        then obtain ul z ur where u: "u = Node ul z ur" "?c z = RED"
          by (cases u) (auto, metis rbt_color.exhaust)
        let ?s = "set_color g RED (set_color p BLACK (set_color z BLACK s))"
        obtain l' r' where lr: "in_place ?s D (Node l' g r')" "rb_ctx (rb_color ?s) D (Suc n)"
          "rb (rb_color ?s) (Node l' g r') (Suc n)" "rb_color ?s g = RED"
          "plug D (Node l' g r') = plug (F # G # D) (Node l x r)"
          using insert_recolor [of s F G D l x r n p g ul z ur] less.prems C tops G u by auto
        have "insert_fixup x s = insert_fixup g ?s"
          using p g gl u by (subst insert_fixup.simps) (simp add: is_red_def)
        moreover obtain s' t' where "insert_fixup g ?s = Some s'" "rb_tree s' t'" "same_nodes ?s s'"
          "inorder t' = inorder (plug D (Node l' g r'))"
          using less.IH [OF _ lr(1-4)] C by auto
        ultimately show ?thesis using lr(5) C
          by (intro exI [of _ s'] exI [of _ t']) (simp del: inorder_plug add: same_nodes_def)
      next
        case black: True
        show ?thesis
        proof (cases F)
          case (In_Left p' b)
          then have F: "F = In_Left p b" using tops by simp
          let ?s = "right_rotate g (set_color g RED (set_color p BLACK s))"
            and ?T = "Node (Node l x r) p (Node b g u)"
          have R: "in_place ?s D ?T" "rb_ctx (rb_color ?s) D (Suc n)" "rb (rb_color ?s) ?T (Suc n)"
            "rb_color ?s p = BLACK"
            using insert_rotate_LL [of s p b g u D l x r n] less.prems C F G tops black by simp_all
          have "rb_right s p = root_of b" "root_of b \<noteq> Some x"
            using ctx F d C root_of_in [of b x] by auto
          then have e: "insert_fixup x s = insert_fixup x ?s"
            using p g gl black by (subst insert_fixup.simps) simp
          have "rb_parent ?s x = Some p" using R(1) by (simp add: in_place_def)
          then have "\<not> is_red ?s (rb_parent ?s x)" using R(4) by (simp add: is_red_def)
          then obtain s' where "insert_fixup x ?s = Some s'" "rb_tree s' (plug D ?T)" "same_nodes ?s s'"
            using rotated_done [OF R(1-3)] R(4) by auto
          then show ?thesis using e C F G
            by (intro exI [of _ s'] exI [of _ "plug D ?T"]) (simp add: same_nodes_def)
        next
          case (In_Right a p')
          then have F: "F = In_Right a p" using tops by simp
          let ?s = "right_rotate g (set_color g RED (set_color x BLACK (left_rotate p s)))"
            and ?T = "Node (Node a p l) x (Node r g u)"
          have R: "in_place ?s D ?T" "rb_ctx (rb_color ?s) D (Suc n)" "rb (rb_color ?s) ?T (Suc n)"
            "rb_color ?s x = BLACK"
            using insert_rotate_LR [of s a p g u D l x r n] less.prems C F G tops black by simp_all
          have "rb_right s p = Some x" using ctx F by simp
          then have e: "insert_fixup x s = insert_fixup p ?s"
            using p g gl black by (subst insert_fixup.simps) simp
          have "rb_parent ?s p = Some x" using R(1) by (simp add: in_place_def)
          then have "\<not> is_red ?s (rb_parent ?s p)" using R(4) by (simp add: is_red_def)
          then obtain s' where "insert_fixup p ?s = Some s'" "rb_tree s' (plug D ?T)" "same_nodes ?s s'"
            using rotated_done [OF R(1-3)] R(4) by auto
          then show ?thesis using e C F G
            by (intro exI [of _ s'] exI [of _ "plug D ?T"]) (simp add: same_nodes_def)
        qed
      qed
    next
      case (In_Right u g')
      then have G: "G = In_Right u g" using tops by simp
      have "rb_left s g = root_of u" "rb_right s g = Some p" using ctx tops G by (cases F; simp)+
      moreover have "root_of u \<noteq> Some p"
        using d C G tops root_of_in [of u p] by (cases F) auto
      ultimately have gl: "rb_left s g = root_of u" "root_of u \<noteq> Some p" by simp_all
      show ?thesis
      proof (cases "rooted_black ?c u")
        case False
        then obtain ul z ur where u: "u = Node ul z ur" "?c z = RED"
          by (cases u) (auto, metis rbt_color.exhaust)
        let ?s = "set_color g RED (set_color p BLACK (set_color z BLACK s))"
        obtain l' r' where lr: "in_place ?s D (Node l' g r')" "rb_ctx (rb_color ?s) D (Suc n)"
          "rb (rb_color ?s) (Node l' g r') (Suc n)" "rb_color ?s g = RED"
          "plug D (Node l' g r') = plug (F # G # D) (Node l x r)"
          using insert_recolor [of s F G D l x r n p g ul z ur] less.prems C tops G u by auto
        have "insert_fixup x s = insert_fixup g ?s"
          using p g gl u by (subst insert_fixup.simps) (simp add: is_red_def)
        moreover obtain s' t' where "insert_fixup g ?s = Some s'" "rb_tree s' t'" "same_nodes ?s s'"
          "inorder t' = inorder (plug D (Node l' g r'))"
          using less.IH [OF _ lr(1-4)] C by auto
        ultimately show ?thesis using lr(5) C
          by (intro exI [of _ s'] exI [of _ t']) (simp del: inorder_plug add: same_nodes_def)
      next
        case black: True
        show ?thesis
        proof (cases F)
          case (In_Right b p')
          then have F: "F = In_Right b p" using tops by simp
          let ?s = "left_rotate g (set_color g RED (set_color p BLACK s))"
            and ?T = "Node (Node u g b) p (Node l x r)"
          have R: "in_place ?s D ?T" "rb_ctx (rb_color ?s) D (Suc n)" "rb (rb_color ?s) ?T (Suc n)"
            "rb_color ?s p = BLACK"
            using insert_rotate_RR [of s b p u g D l x r n] less.prems C F G tops black by simp_all
          have "rb_left s p = root_of b" "root_of b \<noteq> Some x"
            using ctx F d C root_of_in [of b x] by auto
          then have e: "insert_fixup x s = insert_fixup x ?s"
            using p g gl black by (subst insert_fixup.simps) simp
          have "rb_parent ?s x = Some p" using R(1) by (simp add: in_place_def)
          then have "\<not> is_red ?s (rb_parent ?s x)" using R(4) by (simp add: is_red_def)
          then obtain s' where "insert_fixup x ?s = Some s'" "rb_tree s' (plug D ?T)" "same_nodes ?s s'"
            using rotated_done [OF R(1-3)] R(4) by auto
          then show ?thesis using e C F G
            by (intro exI [of _ s'] exI [of _ "plug D ?T"]) (simp add: same_nodes_def)
        next
          case (In_Left p' a)
          then have F: "F = In_Left p a" using tops by simp
          let ?s = "left_rotate g (set_color g RED (set_color x BLACK (right_rotate p s)))"
            and ?T = "Node (Node u g l) x (Node r p a)"
          have R: "in_place ?s D ?T" "rb_ctx (rb_color ?s) D (Suc n)" "rb (rb_color ?s) ?T (Suc n)"
            "rb_color ?s x = BLACK"
            using insert_rotate_RL [of s p a u g D l x r n] less.prems C F G tops black by simp_all
          have "rb_left s p = Some x" using ctx F by simp
          then have e: "insert_fixup x s = insert_fixup p ?s"
            using p g gl black by (subst insert_fixup.simps) simp
          have "rb_parent ?s p = Some x" using R(1) by (simp add: in_place_def)
          then have "\<not> is_red ?s (rb_parent ?s p)" using R(4) by (simp add: is_red_def)
          then obtain s' where "insert_fixup p ?s = Some s'" "rb_tree s' (plug D ?T)" "same_nodes ?s s'"
            using rotated_done [OF R(1-3)] R(4) by auto
          then show ?thesis using e C F G
            by (intro exI [of _ s'] exI [of _ "plug D ?T"]) (simp add: same_nodes_def)
        qed
      qed
    qed
  qed
qed


section \<open>Searching and inserting\<close>

text \<open>What the callers' comparison function must do: put the key among the keys of the tree. The sign tells
  the order, zero means equal.\<close>

definition compares :: "('k::linorder \<Rightarrow> 'k \<Rightarrow> int) \<Rightarrow> 'k \<Rightarrow> 'k set \<Rightarrow> bool" where
  "compares compare key K \<longleftrightarrow> (\<forall>k\<in>K. (compare key k < 0 \<longleftrightarrow> key < k) \<and> (compare key k = 0 \<longleftrightarrow> key = k))"

definition ordered :: "('k::linorder) rbt \<Rightarrow> nat list \<Rightarrow> bool" where
  "ordered s xs \<longleftrightarrow> sorted (map (rb_key s) xs)"

lemma rb_unplug:
  "rb c (plug C t) m \<Longrightarrow> rooted_black c (plug C t) \<Longrightarrow>
    \<exists>n. rb_ctx c C n \<and> rb c t n \<and> (rooted_black c t \<or> top_black c C \<and> C \<noteq> [])"
proof (induction C t arbitrary: m rule: plug.induct)
  case (2 x r C t)
  then obtain n where n: "rb_ctx c C n" "rb c (Node t x r) n"
    "rooted_black c (Node t x r) \<or> top_black c C \<and> C \<noteq> []" by fastforce
  then show ?case
    by (cases "c x") (auto simp: top_black_def split: nat.splits intro!: exI)
next
  case (3 l x C t)
  then obtain n where n: "rb_ctx c C n" "rb c (Node l x t) n"
    "rooted_black c (Node l x t) \<or> top_black c C \<and> C \<noteq> []" by fastforce
  then show ?case
    by (cases "c x") (auto simp: top_black_def split: nat.splits intro!: exI)
qed auto

fun hole_left :: "frame list \<Rightarrow> bool" where
  "hole_left (In_Right l x # C) = False"
| "hole_left C = True"

lemma insert_descend_correct:
  assumes "compares compare key (rb_key s ` set_tree t)" "tree_linked s (ctx_top C) t" "ordered s (inorder (plug C t))"
    "\<forall>y \<in> set (ctx_before C). rb_key s y \<le> key" "\<forall>y \<in> set (ctx_after C). key < rb_key s y"
    "go_left = hole_left C"
  shows "\<exists>C'. insert_descend compare key s (ctx_top C) go_left (root_of t) = Some (ctx_top C', hole_left C') \<and>
    plug C' Leaf = plug C t \<and> (\<forall>y \<in> set (ctx_before C'). rb_key s y \<le> key) \<and>
    (\<forall>y \<in> set (ctx_after C'). key < rb_key s y)"
  using assms
proof (induction t arbitrary: C go_left)
  case Leaf
  then show ?case by (subst insert_descend.simps) (intro exI [of _ C], simp)
next
  case (Node l x r)
  have o: "\<forall>y \<in> set_tree l. rb_key s y \<le> rb_key s x" "\<forall>y \<in> set_tree r. rb_key s x \<le> rb_key s y"
    using Node.prems(3) by (auto simp: ordered_def sorted_append)
  show ?case
  proof (cases "key < rb_key s x")
    case True
    have "\<exists>C'. insert_descend compare key s (ctx_top (In_Left x r # C)) True (root_of l) =
        Some (ctx_top C', hole_left C') \<and> plug C' Leaf = plug (In_Left x r # C) l \<and>
        (\<forall>y \<in> set (ctx_before C'). rb_key s y \<le> key) \<and> (\<forall>y \<in> set (ctx_after C'). key < rb_key s y)"
      using Node.prems True o by (intro Node.IH(1)) (auto simp: compares_def)
    then show ?thesis
      using Node.prems(1,2) True by (subst insert_descend.simps) (simp add: compares_def)
  next
    case False
    have "\<exists>C'. insert_descend compare key s (ctx_top (In_Right l x # C)) False (root_of r) =
        Some (ctx_top C', hole_left C') \<and> plug C' Leaf = plug (In_Right l x # C) r \<and>
        (\<forall>y \<in> set (ctx_before C'). rb_key s y \<le> key) \<and> (\<forall>y \<in> set (ctx_after C'). key < rb_key s y)"
      using Node.prems False o by (intro Node.IH(2)) (fastforce simp: compares_def)+
    then show ?thesis
      using Node.prems(1,2) False by (subst insert_descend.simps) (simp add: compares_def)
  qed
qed

lemma search_from_correct:
  assumes "compares compare key (rb_key s ` set_tree t)" "tree_linked s p t" "ordered s (inorder t)"
  shows "\<exists>found. search_from compare key s (root_of t) = Some found \<and>
    (case found of None \<Rightarrow> key \<notin> rb_key s ` set_tree t | Some x \<Rightarrow> x \<in> set_tree t \<and> rb_key s x = key)"
  using assms
proof (induction t arbitrary: p)
  case Leaf
  then show ?case by (subst search_from.simps) simp
next
  case (Node l x r)
  have c: "compare key (rb_key s x) < 0 \<longleftrightarrow> key < rb_key s x" "compare key (rb_key s x) = 0 \<longleftrightarrow> key = rb_key s x"
    "compares compare key (rb_key s ` set_tree l)" "compares compare key (rb_key s ` set_tree r)"
    using Node.prems(1) by (auto simp: compares_def)
  have o: "\<forall>y \<in> set_tree l. rb_key s y \<le> rb_key s x" "\<forall>y \<in> set_tree r. rb_key s x \<le> rb_key s y"
    "ordered s (inorder l)" "ordered s (inorder r)"
    using Node.prems(3) by (auto simp: ordered_def sorted_append)
  have lk: "tree_linked s (Some x) l" "tree_linked s (Some x) r" using Node.prems(2) by simp_all
  from Node.IH(1) [OF c(3) lk(1) o(3)] Node.IH(2) [OF c(4) lk(2) o(4)]
  obtain fl fr where f: "search_from compare key s (root_of l) = Some fl"
    "case fl of None \<Rightarrow> key \<notin> rb_key s ` set_tree l | Some x \<Rightarrow> x \<in> set_tree l \<and> rb_key s x = key"
    "search_from compare key s (root_of r) = Some fr"
    "case fr of None \<Rightarrow> key \<notin> rb_key s ` set_tree r | Some x \<Rightarrow> x \<in> set_tree r \<and> rb_key s x = key"
    by blast
  show ?case
  proof (cases key "rb_key s x" rule: linorder_cases)
    case less
    then show ?thesis using f o c Node.prems(2)
      by (subst search_from.simps) (auto split: option.splits)
  next
    case equal
    then show ?thesis using c Node.prems(2) by (subst search_from.simps) auto
  next
    case greater
    then show ?thesis using f o c Node.prems(2)
      by (subst search_from.simps) (auto split: option.splits)
  qed
qed


lemma in_place_same:
  assumes "\<And>x. x \<in> set_tree t \<union> ctx_nodes C \<Longrightarrow> rb_left s' x = rb_left s x \<and> rb_right s' x = rb_right s x \<and>
    rb_parent s' x = rb_parent s x" "rb_root s' = rb_root s"
  shows "in_place s' C t = in_place s C t"
  using tree_linked_same [of t s' s] ctx_linked_same [of C s' s] assms by (simp add: in_place_def)

text \<open>The invariant of a tree between two operations.\<close>

definition rbt_ok :: "('k::linorder) rbt \<Rightarrow> nat tree \<Rightarrow> bool" where
  "rbt_ok s t \<longleftrightarrow> rb_tree s t \<and> ordered s (inorder t) \<and> \<not> rb_mutex s"

lemma takeWhile_dropWhile_split:
  assumes "\<forall>y \<in> set xs. P y" "\<forall>y \<in> set ys. \<not> P y"
  shows "takeWhile P (xs @ ys) = xs" "dropWhile P (xs @ ys) = ys"
  using assms by (auto simp: takeWhile_append dropWhile_append dropWhile_eq_self_iff takeWhile_eq_all_conv)
    (cases ys; auto)+

text \<open>Linking a red leaf into a hole.\<close>

lemma link_leaf:
  assumes "in_place s C Leaf" "x \<notin> ctx_nodes C" "rb_left s x = None" "rb_right s x = None"
  shows "in_place (set_hole C (Some x) (s\<lparr>rb_parent := (rb_parent s)(x := ctx_top C)\<rparr>)) C (Node Leaf x Leaf)"
proof -
  let ?s = "s\<lparr>rb_parent := (rb_parent s)(x := ctx_top C)\<rparr>"
  have "ctx_linked ?s C None = ctx_linked s C None"
    by (rule ctx_linked_same) (use assms(2) in auto)
  then have "ctx_linked ?s C None" using assms(1) by (simp add: in_place_def)
  then have "ctx_linked (set_hole C (Some x) ?s) C (Some x)"
    using assms(1) by (intro ctx_linked_set_hole) (auto simp: in_place_def)
  then show ?thesis using assms by (simp add: in_place_def ctx_nodes_def)
qed

lemma rb_insert_correct:
  fixes key :: "'k::linorder" and s :: "'k rbt"
  assumes "compares compare key (rb_key s ` set_tree t)" "rbt_ok s t" "node \<notin> set_tree t"
  defines "P \<equiv> \<lambda>y. rb_key s y \<le> key"
  shows "\<exists>s' t'. rb_insert compare node key s = Some s' \<and> rbt_ok s' t' \<and>
    inorder t' = takeWhile P (inorder t) @ node # dropWhile P (inorder t) \<and>
    rb_key s' = (rb_key s)(node := key) \<and> rb_size s' = rb_size s"
proof -
  define s0 where "s0 = s\<lparr>rb_mutex := True, rb_left := (rb_left s)(node := None), rb_right := (rb_right s)(node := None),
    rb_parent := (rb_parent s)(node := None), rb_color := (rb_color s)(node := RED),
    rb_key := (rb_key s)(node := key)\<rparr>"
  have s0: "rb_left s0 = (rb_left s)(node := None)" "rb_right s0 = (rb_right s)(node := None)"
    "rb_key s0 = (rb_key s)(node := key)" "rb_color s0 = (rb_color s)(node := RED)" "rb_size s0 = rb_size s"
    by (simp_all add: s0_def)
  have t: "rb_tree s t" "ordered s (inorder t)" "\<not> rb_mutex s" using assms(2) by (simp_all add: rbt_ok_def)
  have ne: "y \<noteq> node" if "y \<in> set_tree t" for y using that assms(3) by auto
  have ip: "in_place s0 [] t"
    using t(1) ne in_place_same [of t "[]" s0 s] by (auto simp: rb_tree_def s0_def)
  have ord: "ordered s0 (inorder t)"
  proof -
    have "map (rb_key s0) (inorder t) = map (rb_key s) (inorder t)" using ne by (auto simp: s0)
    then show ?thesis using t(2) by (simp only: ordered_def)
  qed
  have cmp: "compares compare key (rb_key s0 ` set_tree t)"
    using assms(1) ne by (auto simp: compares_def s0)
  obtain m where rb: "rb (rb_color s0) t m" "rooted_black (rb_color s0) t"
    using t(1) assms(3) by (auto simp: rb_tree_def s0)
  have root: "root_of t = rb_root s0" "tree_linked s0 (ctx_top []) t" using ip by (simp_all add: in_place_def)
  obtain C where C: "insert_descend compare key s0 None True (rb_root s0) = Some (ctx_top C, hole_left C)"
    "plug C Leaf = t" "\<forall>y \<in> set (ctx_before C). rb_key s0 y \<le> key" "\<forall>y \<in> set (ctx_after C). key < rb_key s0 y"
    using insert_descend_correct [of compare key s0 t "[]" True] root ord cmp by auto
  have nodes: "inorder t = ctx_before C @ ctx_after C" using C(2) inorder_plug [of C Leaf] by simp
  have nC: "node \<notin> ctx_nodes C" using assms(3) nodes by (auto simp: ctx_nodes_def simp flip: set_inorder)
  have w: "takeWhile P (inorder t) = ctx_before C" "dropWhile P (inorder t) = ctx_after C"
  proof -
    have "\<forall>y \<in> set (ctx_before C). P y" "\<forall>y \<in> set (ctx_after C). \<not> P y"
      using C(3,4) nC by (auto simp: P_def ctx_nodes_def s0 split: if_splits)
    then show "takeWhile P (inorder t) = ctx_before C" "dropWhile P (inorder t) = ctx_after C"
      by (simp_all only: nodes takeWhile_dropWhile_split)
  qed
  obtain n where n: "rb_ctx (rb_color s0) C n" "n = 0"
    using rb_unplug [of "rb_color s0" C Leaf m] rb C(2) by auto
  define s1 where "s1 = s0\<lparr>rb_parent := (rb_parent s0)(node := ctx_top C)\<rparr>"
  define s2 where "s2 = set_hole C (Some node) s1"
  have ip2: "in_place s2 C (Node Leaf node Leaf)"
    unfolding s2_def s1_def
    using ip C(2) nC by (intro link_leaf) (simp_all add: in_place_whole [of _ C] s0)
  have hole: "(case ctx_top C of None \<Rightarrow> s1\<lparr>rb_root := Some node\<rparr>
      | Some p \<Rightarrow> if hole_left C then s1\<lparr>rb_left := (rb_left s1)(p := Some node)\<rparr>
                  else s1\<lparr>rb_right := (rb_right s1)(p := Some node)\<rparr>) = s2"
    by (cases C rule: ctx_top.cases) (simp_all add: s2_def)
  obtain s' t' where s': "insert_fixup node s2 = Some s'" "rb_tree s' t'" "same_nodes s2 s'"
    "inorder t' = inorder (plug C (Node Leaf node Leaf))"
    using insert_fixup_correct [OF ip2, of 0] n nC by (auto simp: s2_def s1_def s0)
  have key: "rb_key s' = (rb_key s)(node := key)" "rb_size s' = rb_size s" 
    using s'(3) by (simp_all add: same_nodes_def s2_def s1_def s0)
  have "rbtree_insert compare node s0 = Some s'"
    using C(1) s'(1) hole by (simp add: rbtree_insert_def s0(3) flip: s1_def)
  then have "rb_insert compare node key s = Some (s'\<lparr>rb_mutex := False\<rparr>)"
    using t(3) by (simp add: rb_insert_def s0_def)
  moreover have "ordered s' (inorder t')"
  proof -
    have "ordered s0 (ctx_before C @ node # ctx_after C)"
      using ord C(3,4) nodes by (auto simp: ordered_def sorted_append s0(3))
    then show ?thesis using s'(4) key by (simp add: ordered_def s0(3))
  qed
  moreover have "rb_tree (s'\<lparr>rb_mutex := False\<rparr>) t'"
    using s'(2) in_place_same [of t' "[]" "s'\<lparr>rb_mutex := False\<rparr>" s'] by (simp add: rb_tree_def)
  ultimately have "rbt_ok (s'\<lparr>rb_mutex := False\<rparr>) t'" by (simp add: rbt_ok_def ordered_def)
  then show ?thesis
    using \<open>rb_insert compare node key s = Some (s'\<lparr>rb_mutex := False\<rparr>)\<close> s'(4) w key
    by (intro exI [of _ "s'\<lparr>rb_mutex := False\<rparr>"] exI [of _ t']) simp
qed


lemma rb_search_correct:
  assumes "compares compare key (rb_key s ` set_tree t)" "rbt_ok s t" "\<forall>x \<in> set_tree t. n \<le> rb_size s x"
  shows "\<exists>found. rb_search compare n key s = Some (s, found) \<and>
    (case found of None \<Rightarrow> key \<notin> rb_key s ` set_tree t | Some x \<Rightarrow> x \<in> set_tree t \<and> rb_key s x = key)"
proof -
  have l: "tree_linked s None t" "rb_root s = root_of t" "ordered s (inorder t)" "\<not> rb_mutex s"
    using assms(2) by (simp_all add: rbt_ok_def rb_tree_def in_place_def)
  obtain found where f: "search_from compare key s (root_of t) = Some found"
    "case found of None \<Rightarrow> key \<notin> rb_key s ` set_tree t | Some x \<Rightarrow> x \<in> set_tree t \<and> rb_key s x = key"
    using search_from_correct [OF assms(1) l(1,3)] by blast
  then show ?thesis using l assms(3) by (cases found) (auto simp: rb_search_def)
qed

subsection \<open>Traversals\<close>

fun visit :: "(nat \<Rightarrow> 'st \<Rightarrow> error_code \<times> 'st) \<Rightarrow> nat list \<Rightarrow> 'st \<Rightarrow> error_code \<times> 'st" where
  "visit func [] st = (OK, st)"
| "visit func (x # xs) st = (case func x st of (code, st1) \<Rightarrow>
     if code \<noteq> OK then (code, st1) else visit func xs st1)"

lemma visit_append:
  "visit func (xs @ ys) st = (case visit func xs st of (code, st1) \<Rightarrow>
     if code \<noteq> OK then (code, st1) else visit func ys st1)"
  by (induction xs arbitrary: st) (auto split: prod.split)

lemma foreach_node_eq: "tree_linked s p t \<Longrightarrow> foreach_node func s (root_of t) st = Some (visit func (inorder t) st)"
proof (induction t arbitrary: p st)
  case (Node l x r)
  then show ?case
    by (subst foreach_node.simps) (auto simp: visit_append split: prod.split)
qed (subst foreach_node.simps, simp)

lemma count_nodes_eq: "tree_linked s p t \<Longrightarrow> count_nodes s (root_of t) c = Some (c + of_nat (length (inorder t)))"
proof (induction t arbitrary: p c)
  case (Node l x r)
  then have "tree_linked s (Some x) l" "tree_linked s (Some x) r" by simp_all
  note IH = Node.IH(1) [OF this(1), of "1 + c"] Node.IH(2) [OF this(2)]
  show ?case using Node.prems by (subst count_nodes.simps) (simp add: IH [simplified] algebra_simps)
qed (subst count_nodes.simps, simp)

lemma leftmost_eq: "tree_linked s p t \<Longrightarrow> root_of t = Some x \<Longrightarrow> leftmost s x = Some (hd (inorder t))"
proof (induction t arbitrary: p x)
  case (Node l y r)
  then show ?case by (cases l) (subst leftmost.simps, auto simp: hd_append)+
qed simp

lemma tree_split: "x \<in> set_tree t \<Longrightarrow> \<exists>C l r. t = plug C (Node l x r)"
proof -
  have "x \<in> set_tree t \<Longrightarrow> \<exists>C l r. plug D t = plug C (Node l x r)" for D
  proof (induction t arbitrary: D)
    case (Node a y b)
    then show ?case
      using Node.IH(1) [of "In_Left y b # D"] Node.IH(2) [of "In_Right a y # D"] by auto
  qed simp
  from this [of "[]"] show "x \<in> set_tree t \<Longrightarrow> \<exists>C l r. t = plug C (Node l x r)" by simp
qed

lemma climb_eq:
  assumes "in_place s C (Node l x r)"
  shows "climb s x = Some (case ctx_after C of [] \<Rightarrow> None | y # _ \<Rightarrow> Some y)"
  using assms
proof (induction C "Node l x r" arbitrary: l x r rule: plug.induct)
  case 1
  then show ?case by (subst climb.simps) (simp add: in_place_def)
next
  case (2 y b C)
  then have "rb_parent s x = Some y" "rb_right s y = root_of b" "root_of b \<noteq> Some x"
    using root_of_in [of b x] by (auto simp: in_place_def)
  then show ?case by (subst climb.simps) simp
next
  case (3 a y C)
  then have "rb_parent s x = Some y" "rb_right s y = Some x" "in_place s C (Node a y (Node l x r))"
    by (auto simp: in_place_def)
  then show ?case using "3.hyps" by (subst climb.simps) simp
qed

lemma rb_foreach_disc_correct:
  assumes "rbt_ok s t"
  shows "rb_foreach_disc s None = Some (s, case inorder t of [] \<Rightarrow> None | y # _ \<Rightarrow> Some y)"
    "inorder t = xs @ x # ys \<Longrightarrow> rb_foreach_disc s (Some x) = Some (s, case ys of [] \<Rightarrow> None | y # _ \<Rightarrow> Some y)"
proof -
  have t: "in_place s [] t" "\<not> rb_mutex s" using assms by (simp_all add: rbt_ok_def rb_tree_def)
  then have l: "tree_linked s None t" "rb_root s = root_of t" by (simp_all add: in_place_def)
  show "rb_foreach_disc s None = Some (s, case inorder t of [] \<Rightarrow> None | y # _ \<Rightarrow> Some y)"
  proof (cases "root_of t")
    case (Some x)
    then have "inorder t \<noteq> []" using eq_inorder_Nil by auto
    then show ?thesis using leftmost_eq [OF l(1) Some] Some l t
      by (simp add: rb_foreach_disc_def split: list.split)
  qed (use l t in \<open>simp add: rb_foreach_disc_def\<close>)
  assume i: "inorder t = xs @ x # ys"
  then have "x \<in> set_tree t" by (simp flip: set_inorder)
  then obtain C a b where C: "t = plug C (Node a x b)" using tree_split by blast
  have d: "distinct (inorder t)" using t(1) in_place_distinct by fastforce
  have "(ctx_before C @ inorder a) @ x # (inorder b @ ctx_after C) = xs @ x # ys" using i C by simp
  moreover have "x \<notin> set (ctx_before C @ inorder a)" "x \<notin> set (inorder b @ ctx_after C)"
    using d C by auto
  ultimately have ys: "ys = inorder b @ ctx_after C" by (metis append_Cons_eq_iff)
  have ip: "in_place s C (Node a x b)" using t(1) C in_place_whole by metis
  have lx: "rb_parent s x = ctx_top C" "rb_right s x = root_of b" "tree_linked s (Some x) b"
    using ip by (simp_all add: in_place_def)
  show "rb_foreach_disc s (Some x) = Some (s, case ys of [] \<Rightarrow> None | y # _ \<Rightarrow> Some y)"
  proof (cases b)
    case (Node bl y br)
    then have "leftmost s y = Some (hd (inorder b))" using leftmost_eq [OF lx(3)] by simp
    moreover have "ys = hd (inorder b) # tl (inorder b) @ ctx_after C" using ys Node by simp
    ultimately show ?thesis using lx t(2) Node by (simp add: rb_foreach_disc_def)
  next
    case Leaf
    show ?thesis
    proof (cases C rule: ctx_top.cases)
      case (2 p r D)
      then have "rb_left s p = Some x" using ip by (simp add: in_place_def)
      then show ?thesis using 2 lx t(2) Leaf ys by (simp add: rb_foreach_disc_def)
    next
      case (3 l p D)
      then have "rb_left s p = root_of l" "root_of l \<noteq> Some x"
        using ip root_of_in [of l x] by (auto simp: in_place_def)
      then show ?thesis using 3 lx t(2) Leaf ys climb_eq [OF ip] by (simp add: rb_foreach_disc_def)
    qed (use lx t(2) Leaf ys in \<open>simp add: rb_foreach_disc_def\<close>)
  qed
qed

end
