(* ===== verification/Red_Black_Delete.thy ===== *)
theory Red_Black_Delete
  imports Red_Black_Tree
begin

text \<open>
  Deletion from the red-black tree of src/src/structure/rbt.hpp: unlinking a node, putting the successor in
  its place, and the fix-up loop for a missing black node. The definitions are in Red_Black_Tree.
\<close>

section \<open>The fix-up loop\<close>

lemma rooted_plug: "rb_ctx c C n \<Longrightarrow> C \<noteq> [] \<Longrightarrow> rooted_black c (plug C t)"
proof (induction C t arbitrary: n rule: plug.induct)
  case (2 x r C t)
  then show ?case by (cases "C = []"; cases "c x") auto
next
  case (3 l x C t)
  then show ?case by (cases "C = []"; cases "c x") auto
qed simp

lemma plug_root: "y \<in> set_tree t \<Longrightarrow> root_of t \<noteq> Some y \<Longrightarrow> distinct (inorder (plug C t)) \<Longrightarrow>
    root_of (plug C t) \<noteq> Some y"
proof (induction C t rule: plug.induct)
  case (2 x r C t)
  have "root_of (plug C (Node t x r)) \<noteq> Some y" by (rule "2.IH") (use "2.prems" in auto)
  then show ?case by simp
next
  case (3 l x C t)
  have "root_of (plug C (Node l x t)) \<noteq> Some y" by (rule "3.IH") (use "3.prems" in auto)
  then show ?case by simp
qed simp

text \<open>What the loop achieves.\<close>

definition fixup_ok :: "'k rbt \<Rightarrow> frame list \<Rightarrow> nat tree \<Rightarrow> 'k rbt option \<Rightarrow> bool" where
  "fixup_ok s C t res \<longleftrightarrow> (\<exists>s' t'. res = Some s' \<and> rb_tree s' t' \<and> same_nodes s s' \<and> inorder t' = inorder (plug C t))"

lemma fixup_ok_trans: "fixup_ok s' C' t' res \<Longrightarrow> same_nodes s s' \<Longrightarrow> inorder (plug C' t') = inorder (plug C t) \<Longrightarrow>
    fixup_ok s C t res"
  unfolding fixup_ok_def by (metis same_nodes_trans)

text \<open>The hole wants one black node more than the subtree has.\<close>

definition black_short :: "'k rbt \<Rightarrow> frame list \<Rightarrow> nat tree \<Rightarrow> nat \<Rightarrow> bool" where
  "black_short s C t n \<longleftrightarrow> in_place s C t \<and> rb_ctx (rb_color s) C (Suc n) \<and> rb (rb_color s) t n"

lemma rb_tree_plug:
  assumes "in_place s C t" "rb_ctx (rb_color s) C n" "rb (rb_color s) t n"
    "rooted_black (rb_color s) t \<or> top_black (rb_color s) C \<and> C \<noteq> []"
  shows "rb_tree s (plug C t)"
proof -
  obtain m where "rb (rb_color s) (plug C t) m" using rb_plug [OF assms(2-4)] by blast
  moreover have "rooted_black (rb_color s) (plug C t)"
    using assms(4) rooted_plug [OF assms(2)] by (cases "C = []") auto
  ultimately show ?thesis using assms(1) in_place_whole [of s C] by (auto simp: rb_tree_def)
qed

text \<open>A red node at the hole, or the root, ends the loop.\<close>

lemma blacken_fixed:
  assumes "in_place s C (Node l x r)" "rb_ctx (rb_color s) C (Suc n)"
    "rb ((rb_color s)(x := BLACK)) (Node l x r) (Suc n)"
  shows "fixup_ok s C (Node l x r) (Some (set_color x BLACK s))"
proof -
  have "x \<notin> ctx_nodes C" using in_place_distinct [OF assms(1)] by (auto simp: ctx_nodes_def)
  then have "rb_tree (set_color x BLACK s) (plug C (Node l x r))"
    using assms by (intro rb_tree_plug [where n = "Suc n"]) simp_all
  then show ?thesis unfolding fixup_ok_def by force
qed

lemma blacken_red:
  assumes "black_short s C (Node l x r) n" "rb_color s x = RED"
  shows "fixup_ok s C (Node l x r) (Some (set_color x BLACK s))"
proof -
  have i: "in_place s C (Node l x r)" using assms(1) by (simp add: black_short_def)
  have "x \<notin> set_tree l" "x \<notin> set_tree r" using in_place_distinct [OF i] by auto
  then show ?thesis using assms by (intro blacken_fixed) (auto simp: black_short_def)
qed

lemma delete_fixup_red:
  "rb_color s x = RED \<Longrightarrow> delete_fixup (Some x) q s = Some (set_color x BLACK s)"
  by (subst delete_fixup.simps) (simp add: is_red_def)

lemma delete_fixup_root:
  assumes "black_short s [] t n"
  shows "fixup_ok s [] t (delete_fixup (root_of t) q s)"
proof (cases t)
  case Leaf
  then have "delete_fixup (root_of t) q s = Some s" using assms
    by (subst delete_fixup.simps) (simp add: black_short_def in_place_def)
  moreover have "rb_tree s t" using assms Leaf by (auto simp: black_short_def rb_tree_def)
  ultimately show ?thesis by (auto simp: fixup_ok_def)
next
  case (Node l x r)
  then have s: "in_place s [] (Node l x r)" "rb (rb_color s) (Node l x r) n" using assms by (simp_all add: black_short_def)
  have e: "delete_fixup (root_of t) q s = Some (set_color x BLACK s)" using s(1) Node
    by (subst delete_fixup.simps) (simp add: in_place_def)
  have "distinct (inorder (Node l x r))" using in_place_distinct [OF s(1)] by simp
  from rb_blacken [OF s(2) this] obtain m where "rb ((rb_color s)(x := BLACK)) (Node l x r) m" by blast
  then show ?thesis using s(1) Node e unfolding fixup_ok_def
    by (intro exI [of _ "set_color x BLACK s"] exI [of _ t]) (auto simp: rb_tree_def)
qed

text \<open>After the last rotation the code blackens the root, which is black already or may become so.\<close>

lemma final_root:
  assumes "in_place s D T" "rb_ctx (rb_color s) D k" "rb (rb_color s) T k" "T \<noteq> Leaf"
    "rooted_black (rb_color s) T \<or> top_black (rb_color s) D \<and> D \<noteq> []"
  shows "fixup_ok s D T (Some (case rb_root s of None \<Rightarrow> s | Some x \<Rightarrow> set_color x BLACK s))"
proof -
  have t: "rb_tree s (plug D T)" using rb_tree_plug assms by blast
  obtain l z r where T: "plug D T = Node l z r" using assms(4) plug_not_Leaf [of T D] by (cases "plug D T") auto
  have "rb_root s = Some z" "rb_color s z = BLACK" using t T by (simp_all add: rb_tree_def in_place_def)
  then have "set_color z BLACK s = s" by (simp add: set_color_def fun_upd_idem)
  then show ?thesis using t \<open>rb_root s = Some z\<close> unfolding fixup_ok_def by force
qed

section \<open>A black node missing on the left\<close>

text \<open>The three cases of a black sibling \<open>sb\<close>, in terms of the subtrees; \<open>p\<close> is the parent of the hole.\<close>

lemma left_recolor:
  assumes "black_short s (In_Left p (Node wl sb wr) # D) t n" "rb_color s sb = BLACK"
    "rooted_black (rb_color s) wl" "rooted_black (rb_color s) wr" "rooted_black (rb_color s) t"
  defines "s' \<equiv> set_color sb RED s"
  shows "if rb_color s p = RED then fixup_ok s' D (Node t p (Node wl sb wr)) (Some (set_color p BLACK s'))
    else black_short s' D (Node t p (Node wl sb wr)) (Suc n)"
proof -
  have i: "in_place s D (Node t p (Node wl sb wr))"
    and c: "rb_ctx (rb_color s) (In_Left p (Node wl sb wr) # D) (Suc n)" "rb (rb_color s) t n"
    using assms(1) by (simp_all add: black_short_def in_place_plug)
  have d: "distinct (inorder (plug D (Node t p (Node wl sb wr))))" using in_place_distinct [OF i] .
  have i': "in_place s' D (Node t p (Node wl sb wr))" using i by (simp add: s'_def)
  show ?thesis
  proof (cases "rb_color s p")
    case RED
    have "rb_ctx (rb_color s') D (Suc n)" "rb ((rb_color s')(p := BLACK)) (Node t p (Node wl sb wr)) (Suc n)"
      using c d RED assms(2-5) by (auto simp: s'_def ctx_nodes_def)
    then show ?thesis using RED blacken_fixed [OF i'] by simp
  next
    case BLACK
    have "rb_ctx (rb_color s') D (Suc (Suc n))" "rb (rb_color s') (Node t p (Node wl sb wr)) (Suc n)"
      using c d BLACK assms(2-5) by (auto simp: s'_def ctx_nodes_def)
    then show ?thesis using BLACK i' by (simp add: black_short_def)
  qed
qed

text \<open>A red nephew on the far side: one rotation ends the loop.\<close>

lemma left_far:
  assumes "black_short s (In_Left p (Node wl sb (Node a f b)) # D) t n" "rb_color s sb = BLACK" "rb_color s f = RED"
  defines "s' \<equiv> left_rotate p (set_color f BLACK (set_color p BLACK (set_color sb (rb_color s p) s)))"
  shows "fixup_ok s (In_Left p (Node wl sb (Node a f b)) # D) t
    (Some (case rb_root s' of None \<Rightarrow> s' | Some x \<Rightarrow> set_color x BLACK s'))"
proof -
  let ?k = "if rb_color s p = RED then Suc n else Suc (Suc n)"
  let ?T = "Node (Node t p wl) sb (Node a f b)"
  have i: "in_place s D (Node t p (Node wl sb (Node a f b)))"
    and c: "rb_ctx (rb_color s) (In_Left p (Node wl sb (Node a f b)) # D) (Suc n)" "rb (rb_color s) t n"
    using assms(1) by (simp_all add: black_short_def in_place_plug)
  have d: "distinct (inorder (plug D (Node t p (Node wl sb (Node a f b)))))" using in_place_distinct [OF i] .
  have i': "in_place s' D ?T" unfolding s'_def by (rule left_rotate_place) (simp add: i)
  have ctx: "rb_ctx (rb_color s') D ?k" "top_black (rb_color s') D = top_black (rb_color s) D"
    using c d by (cases "rb_color s p"; auto simp: s'_def ctx_nodes_def top_black_def split: option.split dest: ctx_top_in)+
  have tr: "rb (rb_color s') ?T ?k"
    using c d assms(2,3) by (cases "rb_color s p") (auto simp: s'_def)
  have tp: "rooted_black (rb_color s') ?T \<or> top_black (rb_color s') D \<and> D \<noteq> []"
    using c d ctx(2) by (cases "rb_color s p") (auto simp: s'_def)
  have "fixup_ok s' D ?T (Some (case rb_root s' of None \<Rightarrow> s' | Some x \<Rightarrow> set_color x BLACK s'))"
    using final_root [OF i' ctx(1) tr _ tp] by simp
  then show ?thesis by (rule fixup_ok_trans) (simp_all add: s'_def)
qed

text \<open>A red nephew on the near side is rotated to the far side first.\<close>

lemma left_near:
  assumes "black_short s (In_Left p (Node (Node a z b) sb wr) # D) t n" "rb_color s sb = BLACK" "rb_color s z = RED"
    "rooted_black (rb_color s) wr"
  defines "s' \<equiv> right_rotate sb (set_color sb RED (set_color z BLACK s))"
  shows "black_short s' (In_Left p (Node a z (Node b sb wr)) # D) t n" "rb_color s' z = BLACK" "rb_color s' sb = RED"
    "rb_color s' p = rb_color s p"
proof -
  let ?C = "In_Right t p # D"
  have i: "in_place s ?C (Node (Node a z b) sb wr)"
    and c: "rb_ctx (rb_color s) (In_Left p (Node (Node a z b) sb wr) # D) (Suc n)" "rb (rb_color s) t n"
    using assms(1) by (simp_all add: black_short_def in_place_plug)
  have d: "distinct (inorder (plug ?C (Node (Node a z b) sb wr)))" using in_place_distinct [OF i] .
  have "in_place s' ?C (Node a z (Node b sb wr))" unfolding s'_def by (rule right_rotate_place) (simp add: i)
  then have i': "in_place s' (In_Left p (Node a z (Node b sb wr)) # D) t" by (simp add: in_place_plug)
  have "rb_ctx (rb_color s') (In_Left p (Node a z (Node b sb wr)) # D) (Suc n)" "rb (rb_color s') t n"
    using c d assms(2-4)
    by (cases "rb_color s p"; auto simp: s'_def ctx_nodes_def top_black_def split: option.split dest: ctx_top_in)+
  then show "black_short s' (In_Left p (Node a z (Node b sb wr)) # D) t n" using i' by (simp add: black_short_def)
  show "rb_color s' z = BLACK" "rb_color s' sb = RED" "rb_color s' p = rb_color s p"
    using d by (auto simp: s'_def)
qed

text \<open>A red sibling is rotated up; its near child becomes the sibling, and the parent is red.\<close>

lemma left_red_sibling:
  assumes "black_short s (In_Left p (Node wl sb wr) # D) t n" "rb_color s sb = RED"
  defines "s' \<equiv> left_rotate p (set_color p RED (set_color sb BLACK s))"
  shows "black_short s' (In_Left p wl # In_Left sb wr # D) t n" "rb_color s' p = RED" "rooted_black (rb_color s') wl" "wl \<noteq> Leaf"
    "rooted_black (rb_color s') t = rooted_black (rb_color s) t"
proof -
  have i: "in_place s D (Node t p (Node wl sb wr))"
    and c: "rb_ctx (rb_color s) (In_Left p (Node wl sb wr) # D) (Suc n)" "rb (rb_color s) t n"
    using assms(1) by (simp_all add: black_short_def in_place_plug)
  have d: "distinct (inorder (plug D (Node t p (Node wl sb wr))))" using in_place_distinct [OF i] .
  have "in_place s' D (Node (Node t p wl) sb wr)" unfolding s'_def by (rule left_rotate_place) (simp add: i)
  then have i': "in_place s' (In_Left p wl # In_Left sb wr # D) t" by (simp add: in_place_plug)
  have pb: "rb_color s p = BLACK" using c(1) assms(2) by (cases "rb_color s p") auto
  have "rb_ctx (rb_color s') (In_Left p wl # In_Left sb wr # D) (Suc n)" "rb (rb_color s') t n"
    using c d pb assms(2) by (auto simp: s'_def ctx_nodes_def top_black_def)
  then show "black_short s' (In_Left p wl # In_Left sb wr # D) t n" using i' by (simp add: black_short_def)
  show "rb_color s' p = RED" using d by (auto simp: s'_def)
  show "rooted_black (rb_color s') wl" "rooted_black (rb_color s') t = rooted_black (rb_color s) t"
    using c d pb assms(2) by (auto simp: s'_def)
  show "wl \<noteq> Leaf" using c(1) pb assms(2) by auto
qed

text \<open>The pointers that one turn of the loop follows.\<close>

lemma left_links:
  assumes "in_place s (In_Left p (Node wl sb wr) # D) t"
  shows "rb_left s p = root_of t" "rb_right s p = Some sb" "rb_left s sb = root_of wl" "rb_right s sb = root_of wr"
    "root_of t \<noteq> rb_root s" "Some sb \<noteq> root_of t" "rb_parent s p = ctx_top D"
proof -
  have "ctx_linked s (In_Left p (Node wl sb wr) # D) (root_of t)" and d: "distinct (inorder (plug (In_Left p (Node wl sb wr) # D) t))"
    using assms by (simp_all add: in_place_def)
  then show "rb_left s p = root_of t" "rb_right s p = Some sb" "rb_left s sb = root_of wl"
    "rb_right s sb = root_of wr" "rb_parent s p = ctx_top D" by simp_all
  show "Some sb \<noteq> root_of t" using d root_of_in [of t sb] by auto
  have "in_place s [] (plug D (Node t p (Node wl sb wr)))" using assms in_place_whole by (metis in_place_plug plug.simps)
  then have "rb_root s = root_of (plug D (Node t p (Node wl sb wr)))" by (simp add: in_place_def)
  moreover have "root_of (plug D (Node t p (Node wl sb wr))) \<noteq> root_of t"
  proof (cases t)
    case (Node l y r)
    then show ?thesis using plug_root [of y "Node t p (Node wl sb wr)" D] d by simp
  qed simp
  ultimately show "root_of t \<noteq> rb_root s" by simp
qed

lemma left_black_sibling:
  fixes s :: "'k rbt"
  assumes sh: "black_short s (In_Left p (Node wl sb wr) # D) t n" and sb: "rb_color s sb = BLACK"
    and tb: "rooted_black (rb_color s) t"
    and up: "\<And>(s' :: 'k rbt) T. rb_color s p = BLACK \<Longrightarrow> black_short s' D T (Suc n) \<Longrightarrow>
      fixup_ok s' D T (delete_fixup (root_of T) (ctx_top D) s')"
  shows "fixup_ok s (In_Left p (Node wl sb wr) # D) t (delete_fixup (root_of t) (Some p) s)"
proof -
  have ip: "in_place s (In_Left p (Node wl sb wr) # D) t" using sh by (simp add: black_short_def)
  note l = left_links [OF ip]
  have nr: "\<not> is_red s (root_of t)" using tb by simp
  show ?thesis
  proof (cases "rooted_black (rb_color s) wl \<and> rooted_black (rb_color s) wr")
    case True
    let ?s = "set_color sb RED s" and ?T = "Node t p (Node wl sb wr)"
    have e: "delete_fixup (root_of t) (Some p) s = delete_fixup (Some p) (ctx_top D) ?s"
      using l nr sb True by (subst delete_fixup.simps) simp
    have "fixup_ok ?s D ?T (delete_fixup (Some p) (ctx_top D) ?s)"
    proof (cases "rb_color s p")
      case RED
      then have "p \<noteq> sb" using sb by auto
      then show ?thesis
        using left_recolor [OF sh sb] True tb RED delete_fixup_red [of ?s p] by simp
    next
      case BLACK
      then show ?thesis using left_recolor [OF sh sb] True tb up [OF BLACK, of ?s ?T] by simp
    qed
    then show ?thesis unfolding e by (rule fixup_ok_trans) simp_all
  next
    case red: False
    show ?thesis
    proof (cases "rooted_black (rb_color s) wr")
      case True
      then obtain a z b where wl: "wl = Node a z b" "rb_color s z = RED"
        using red by (cases wl) (auto, metis rbt_color.exhaust)
      define s2 where "s2 = right_rotate sb (set_color sb RED (set_color z BLACK s))"
      note near = left_near [OF sh [unfolded wl(1)] sb wl(2) True, folded s2_def]
      have ip2: "in_place s2 (In_Left p (Node a z (Node b sb wr)) # D) t" using near(1) by (simp add: black_short_def)
      note l2 = left_links [OF ip2]
      define s3 where "s3 = left_rotate p (set_color sb BLACK (set_color p BLACK (set_color z (rb_color s2 p) s2)))"
      have z: "is_red s (Some z)" "is_red s (root_of wl)" using wl by (simp_all add: is_red_def)
      have "delete_fixup (root_of t) (Some p) s =
          Some (case rb_root s3 of None \<Rightarrow> s3 | Some x \<Rightarrow> set_color x BLACK s3)"
        using l nr sb True z by (subst delete_fixup.simps) (simp add: wl(1) l2 Let_def flip: s2_def s3_def split: option.split)
      moreover have "fixup_ok s2 (In_Left p (Node a z (Node b sb wr)) # D) t
          (Some (case rb_root s3 of None \<Rightarrow> s3 | Some x \<Rightarrow> set_color x BLACK s3))"
        unfolding s3_def by (rule left_far [OF near(1,2,3)])
      moreover have "same_nodes s s2" by (simp add: s2_def)
      ultimately show ?thesis by (auto intro: fixup_ok_trans simp: wl(1))
    next
      case False
      then obtain a f b where wr: "wr = Node a f b" "rb_color s f = RED"
        by (cases wr) (auto, metis rbt_color.exhaust)
      let ?s3 = "left_rotate p (set_color f BLACK (set_color p BLACK (set_color sb (rb_color s p) s)))"
      have "delete_fixup (root_of t) (Some p) s =
          Some (case rb_root ?s3 of None \<Rightarrow> ?s3 | Some x \<Rightarrow> set_color x BLACK ?s3)"
        using l nr sb wr by (subst delete_fixup.simps) (simp add: is_red_def Let_def)
      then show ?thesis using left_far [OF sh [unfolded wr(1)] sb wr(2)] wr(1) by simp
    qed
  qed
qed

section \<open>A black node missing on the right\<close>

text \<open>The three cases of a black sibling \<open>sb\<close>, in terms of the subtrees; \<open>p\<close> is the parent of the hole.\<close>

lemma right_recolor:
  assumes "black_short s (In_Right (Node wr sb wl) p # D) t n" "rb_color s sb = BLACK"
    "rooted_black (rb_color s) wl" "rooted_black (rb_color s) wr" "rooted_black (rb_color s) t"
  defines "s' \<equiv> set_color sb RED s"
  shows "if rb_color s p = RED then fixup_ok s' D (Node (Node wr sb wl) p t) (Some (set_color p BLACK s'))
    else black_short s' D (Node (Node wr sb wl) p t) (Suc n)"
proof -
  have i: "in_place s D (Node (Node wr sb wl) p t)"
    and c: "rb_ctx (rb_color s) (In_Right (Node wr sb wl) p # D) (Suc n)" "rb (rb_color s) t n"
    using assms(1) by (simp_all add: black_short_def in_place_plug)
  have d: "distinct (inorder (plug D (Node (Node wr sb wl) p t)))" using in_place_distinct [OF i] .
  have i': "in_place s' D (Node (Node wr sb wl) p t)" using i by (simp add: s'_def)
  show ?thesis
  proof (cases "rb_color s p")
    case RED
    have "rb_ctx (rb_color s') D (Suc n)" "rb ((rb_color s')(p := BLACK)) (Node (Node wr sb wl) p t) (Suc n)"
      using c d RED assms(2-5) by (auto simp: s'_def ctx_nodes_def)
    then show ?thesis using RED blacken_fixed [OF i'] by simp
  next
    case BLACK
    have "rb_ctx (rb_color s') D (Suc (Suc n))" "rb (rb_color s') (Node (Node wr sb wl) p t) (Suc n)"
      using c d BLACK assms(2-5) by (auto simp: s'_def ctx_nodes_def)
    then show ?thesis using BLACK i' by (simp add: black_short_def)
  qed
qed

text \<open>A red nephew on the far side: one rotation ends the loop.\<close>

lemma right_far:
  assumes "black_short s (In_Right (Node (Node b f a) sb wl) p # D) t n" "rb_color s sb = BLACK" "rb_color s f = RED"
  defines "s' \<equiv> right_rotate p (set_color f BLACK (set_color p BLACK (set_color sb (rb_color s p) s)))"
  shows "fixup_ok s (In_Right (Node (Node b f a) sb wl) p # D) t
    (Some (case rb_root s' of None \<Rightarrow> s' | Some x \<Rightarrow> set_color x BLACK s'))"
proof -
  let ?k = "if rb_color s p = RED then Suc n else Suc (Suc n)"
  let ?T = "Node (Node b f a) sb (Node wl p t)"
  have i: "in_place s D (Node (Node (Node b f a) sb wl) p t)"
    and c: "rb_ctx (rb_color s) (In_Right (Node (Node b f a) sb wl) p # D) (Suc n)" "rb (rb_color s) t n"
    using assms(1) by (simp_all add: black_short_def in_place_plug)
  have d: "distinct (inorder (plug D (Node (Node (Node b f a) sb wl) p t)))" using in_place_distinct [OF i] .
  have i': "in_place s' D ?T" unfolding s'_def by (rule right_rotate_place) (simp add: i)
  have ctx: "rb_ctx (rb_color s') D ?k" "top_black (rb_color s') D = top_black (rb_color s) D"
    using c d by (cases "rb_color s p"; auto simp: s'_def ctx_nodes_def top_black_def split: option.split dest: ctx_top_in)+
  have tr: "rb (rb_color s') ?T ?k"
    using c d assms(2,3) by (cases "rb_color s p") (auto simp: s'_def)
  have tp: "rooted_black (rb_color s') ?T \<or> top_black (rb_color s') D \<and> D \<noteq> []"
    using c d ctx(2) by (cases "rb_color s p") (auto simp: s'_def)
  have "fixup_ok s' D ?T (Some (case rb_root s' of None \<Rightarrow> s' | Some x \<Rightarrow> set_color x BLACK s'))"
    using final_root [OF i' ctx(1) tr _ tp] by simp
  then show ?thesis by (rule fixup_ok_trans) (simp_all add: s'_def)
qed

text \<open>A red nephew on the near side is rotated to the far side first.\<close>

lemma right_near:
  assumes "black_short s (In_Right (Node wr sb (Node b z a)) p # D) t n" "rb_color s sb = BLACK" "rb_color s z = RED"
    "rooted_black (rb_color s) wr"
  defines "s' \<equiv> left_rotate sb (set_color sb RED (set_color z BLACK s))"
  shows "black_short s' (In_Right (Node (Node wr sb b) z a) p # D) t n" "rb_color s' z = BLACK" "rb_color s' sb = RED"
    "rb_color s' p = rb_color s p"
proof -
  let ?C = "In_Left p t # D"
  have i: "in_place s ?C (Node wr sb (Node b z a))"
    and c: "rb_ctx (rb_color s) (In_Right (Node wr sb (Node b z a)) p # D) (Suc n)" "rb (rb_color s) t n"
    using assms(1) by (simp_all add: black_short_def in_place_plug)
  have d: "distinct (inorder (plug ?C (Node wr sb (Node b z a))))" using in_place_distinct [OF i] .
  have "in_place s' ?C (Node (Node wr sb b) z a)" unfolding s'_def by (rule left_rotate_place) (simp add: i)
  then have i': "in_place s' (In_Right (Node (Node wr sb b) z a) p # D) t" by (simp add: in_place_plug)
  have "rb_ctx (rb_color s') (In_Right (Node (Node wr sb b) z a) p # D) (Suc n)" "rb (rb_color s') t n"
    using c d assms(2-4)
    by (cases "rb_color s p"; auto simp: s'_def ctx_nodes_def top_black_def split: option.split dest: ctx_top_in)+
  then show "black_short s' (In_Right (Node (Node wr sb b) z a) p # D) t n" using i' by (simp add: black_short_def)
  show "rb_color s' z = BLACK" "rb_color s' sb = RED" "rb_color s' p = rb_color s p"
    using d by (auto simp: s'_def)
qed

text \<open>A red sibling is rotated up; its near child becomes the sibling, and the parent is red.\<close>

lemma right_red_sibling:
  assumes "black_short s (In_Right (Node wr sb wl) p # D) t n" "rb_color s sb = RED"
  defines "s' \<equiv> right_rotate p (set_color p RED (set_color sb BLACK s))"
  shows "black_short s' (In_Right wl p # In_Right wr sb # D) t n" "rb_color s' p = RED" "rooted_black (rb_color s') wl" "wl \<noteq> Leaf"
    "rooted_black (rb_color s') t = rooted_black (rb_color s) t"
proof -
  have i: "in_place s D (Node (Node wr sb wl) p t)"
    and c: "rb_ctx (rb_color s) (In_Right (Node wr sb wl) p # D) (Suc n)" "rb (rb_color s) t n"
    using assms(1) by (simp_all add: black_short_def in_place_plug)
  have d: "distinct (inorder (plug D (Node (Node wr sb wl) p t)))" using in_place_distinct [OF i] .
  have "in_place s' D (Node wr sb (Node wl p t))" unfolding s'_def by (rule right_rotate_place) (simp add: i)
  then have i': "in_place s' (In_Right wl p # In_Right wr sb # D) t" by (simp add: in_place_plug)
  have pb: "rb_color s p = BLACK" using c(1) assms(2) by (cases "rb_color s p") auto
  have "rb_ctx (rb_color s') (In_Right wl p # In_Right wr sb # D) (Suc n)" "rb (rb_color s') t n"
    using c d pb assms(2) by (auto simp: s'_def ctx_nodes_def top_black_def)
  then show "black_short s' (In_Right wl p # In_Right wr sb # D) t n" using i' by (simp add: black_short_def)
  show "rb_color s' p = RED" using d by (auto simp: s'_def)
  show "rooted_black (rb_color s') wl" "rooted_black (rb_color s') t = rooted_black (rb_color s) t"
    using c d pb assms(2) by (auto simp: s'_def)
  show "wl \<noteq> Leaf" using c(1) pb assms(2) by auto
qed

text \<open>The pointers that one turn of the loop follows.\<close>

lemma right_links:
  assumes "in_place s (In_Right (Node wr sb wl) p # D) t"
  shows "rb_right s p = root_of t" "rb_left s p = Some sb" "rb_right s sb = root_of wl" "rb_left s sb = root_of wr"
    "root_of t \<noteq> rb_root s" "Some sb \<noteq> root_of t" "rb_parent s p = ctx_top D"
proof -
  have "ctx_linked s (In_Right (Node wr sb wl) p # D) (root_of t)" and d: "distinct (inorder (plug (In_Right (Node wr sb wl) p # D) t))"
    using assms by (simp_all add: in_place_def)
  then show "rb_right s p = root_of t" "rb_left s p = Some sb" "rb_right s sb = root_of wl"
    "rb_left s sb = root_of wr" "rb_parent s p = ctx_top D" by simp_all
  show "Some sb \<noteq> root_of t" using d root_of_in [of t sb] by auto
  have "in_place s [] (plug D (Node (Node wr sb wl) p t))" using assms in_place_whole by (metis in_place_plug plug.simps)
  then have "rb_root s = root_of (plug D (Node (Node wr sb wl) p t))" by (simp add: in_place_def)
  moreover have "root_of (plug D (Node (Node wr sb wl) p t)) \<noteq> root_of t"
  proof (cases t)
    case (Node l y r)
    then show ?thesis using plug_root [of y "Node (Node wr sb wl) p t" D] d by simp
  qed simp
  ultimately show "root_of t \<noteq> rb_root s" by simp
qed

lemma right_black_sibling:
  fixes s :: "'k rbt"
  assumes sh: "black_short s (In_Right (Node wr sb wl) p # D) t n" and sb: "rb_color s sb = BLACK"
    and tb: "rooted_black (rb_color s) t"
    and up: "\<And>(s' :: 'k rbt) T. rb_color s p = BLACK \<Longrightarrow> black_short s' D T (Suc n) \<Longrightarrow>
      fixup_ok s' D T (delete_fixup (root_of T) (ctx_top D) s')"
  shows "fixup_ok s (In_Right (Node wr sb wl) p # D) t (delete_fixup (root_of t) (Some p) s)"
proof -
  have ip: "in_place s (In_Right (Node wr sb wl) p # D) t" using sh by (simp add: black_short_def)
  note l = right_links [OF ip]
  have nr: "\<not> is_red s (root_of t)" using tb by simp
  show ?thesis
  proof (cases "rooted_black (rb_color s) wl \<and> rooted_black (rb_color s) wr")
    case True
    let ?s = "set_color sb RED s" and ?T = "Node (Node wr sb wl) p t"
    have e: "delete_fixup (root_of t) (Some p) s = delete_fixup (Some p) (ctx_top D) ?s"
      using l nr sb True by (subst delete_fixup.simps) simp
    have "fixup_ok ?s D ?T (delete_fixup (Some p) (ctx_top D) ?s)"
    proof (cases "rb_color s p")
      case RED
      then have "p \<noteq> sb" using sb by auto
      then show ?thesis
        using right_recolor [OF sh sb] True tb RED delete_fixup_red [of ?s p] by simp
    next
      case BLACK
      then show ?thesis using right_recolor [OF sh sb] True tb up [OF BLACK, of ?s ?T] by simp
    qed
    then show ?thesis unfolding e by (rule fixup_ok_trans) simp_all
  next
    case red: False
    show ?thesis
    proof (cases "rooted_black (rb_color s) wr")
      case True
      then obtain a z b where wl: "wl = Node b z a" "rb_color s z = RED"
        using red by (cases wl) (auto, metis rbt_color.exhaust)
      define s2 where "s2 = left_rotate sb (set_color sb RED (set_color z BLACK s))"
      note near = right_near [OF sh [unfolded wl(1)] sb wl(2) True, folded s2_def]
      have ip2: "in_place s2 (In_Right (Node (Node wr sb b) z a) p # D) t" using near(1) by (simp add: black_short_def)
      note l2 = right_links [OF ip2]
      define s3 where "s3 = right_rotate p (set_color sb BLACK (set_color p BLACK (set_color z (rb_color s2 p) s2)))"
      have z: "is_red s (Some z)" "is_red s (root_of wl)" using wl by (simp_all add: is_red_def)
      have "delete_fixup (root_of t) (Some p) s =
          Some (case rb_root s3 of None \<Rightarrow> s3 | Some x \<Rightarrow> set_color x BLACK s3)"
        using l nr sb True z by (subst delete_fixup.simps) (simp add: wl(1) l2 Let_def flip: s2_def s3_def split: option.split)
      moreover have "fixup_ok s2 (In_Right (Node (Node wr sb b) z a) p # D) t
          (Some (case rb_root s3 of None \<Rightarrow> s3 | Some x \<Rightarrow> set_color x BLACK s3))"
        unfolding s3_def by (rule right_far [OF near(1,2,3)])
      moreover have "same_nodes s s2" by (simp add: s2_def)
      ultimately show ?thesis by (auto intro: fixup_ok_trans simp: wl(1))
    next
      case False
      then obtain a f b where wr: "wr = Node b f a" "rb_color s f = RED"
        by (cases wr) (auto, metis rbt_color.exhaust)
      let ?s3 = "right_rotate p (set_color f BLACK (set_color p BLACK (set_color sb (rb_color s p) s)))"
      have "delete_fixup (root_of t) (Some p) s =
          Some (case rb_root ?s3 of None \<Rightarrow> ?s3 | Some x \<Rightarrow> set_color x BLACK ?s3)"
        using l nr sb wr by (subst delete_fixup.simps) (simp add: is_red_def Let_def)
      then show ?thesis using right_far [OF sh [unfolded wr(1)] sb wr(2)] wr(1) by simp
    qed
  qed
qed

section \<open>The whole loop\<close>

text \<open>After a red sibling is rotated up, the loop body continues as from the rotated tree.\<close>

lemma left_red_sibling_step:
  assumes "black_short s (In_Left p (Node wl sb wr) # D) t n" "rb_color s sb = RED" "rooted_black (rb_color s) t"
  defines "s' \<equiv> left_rotate p (set_color p RED (set_color sb BLACK s))"
  shows "delete_fixup (root_of t) (Some p) s = delete_fixup (root_of t) (Some p) s'"
proof -
  have ip: "in_place s (In_Left p (Node wl sb wr) # D) t" using assms(1) by (simp add: black_short_def)
  note red = left_red_sibling [OF assms(1,2), folded s'_def]
  obtain a y b where wl: "wl = Node a y b" using red(4) by (cases wl) auto
  have ip2: "in_place s' (In_Left p (Node a y b) # In_Left sb wr # D) t" using red(1) by (simp add: black_short_def wl)
  have y: "rb_color s' y = BLACK" using red(3) by (simp add: wl)
  note l = left_links [OF ip] and l2 = left_links [OF ip2]
  have nr: "\<not> is_red s (root_of t)" "\<not> is_red s' (root_of t)" using assms(3) red(5) by simp_all
  show ?thesis
    unfolding delete_fixup.simps [of "root_of t" "Some p" s] delete_fixup.simps [of "root_of t" "Some p" s']
    using l l2 nr y assms(2) by (simp add: Let_def flip: s'_def)
qed

lemma right_red_sibling_step:
  assumes "black_short s (In_Right (Node wr sb wl) p # D) t n" "rb_color s sb = RED" "rooted_black (rb_color s) t"
  defines "s' \<equiv> right_rotate p (set_color p RED (set_color sb BLACK s))"
  shows "delete_fixup (root_of t) (Some p) s = delete_fixup (root_of t) (Some p) s'"
proof -
  have ip: "in_place s (In_Right (Node wr sb wl) p # D) t" using assms(1) by (simp add: black_short_def)
  note red = right_red_sibling [OF assms(1,2), folded s'_def]
  obtain a y b where wl: "wl = Node b y a" using red(4) by (cases wl) auto
  have ip2: "in_place s' (In_Right (Node b y a) p # In_Right wr sb # D) t" using red(1) by (simp add: black_short_def wl)
  have y: "rb_color s' y = BLACK" using red(3) by (simp add: wl)
  note l = right_links [OF ip] and l2 = right_links [OF ip2]
  have nr: "\<not> is_red s (root_of t)" "\<not> is_red s' (root_of t)" using assms(3) red(5) by simp_all
  show ?thesis
    unfolding delete_fixup.simps [of "root_of t" "Some p" s] delete_fixup.simps [of "root_of t" "Some p" s']
    using l l2 nr y assms(2) by (simp add: Let_def flip: s'_def)
qed

text \<open>The sibling exists: the other side of the parent has a black node more.\<close>

lemma sibling_exists:
  "black_short s (In_Left p w # D) t n \<Longrightarrow> w \<noteq> Leaf" "black_short s (In_Right w p # D) t n \<Longrightarrow> w \<noteq> Leaf"
  by (cases "rb_color s p"; auto simp: black_short_def)+

lemma left_fixup_turn:
  fixes s :: "'k rbt"
  assumes sh: "black_short s (In_Left p w # D) t n" and tb: "rooted_black (rb_color s) t"
    and up: "\<And>(s' :: 'k rbt) T. black_short s' D T (Suc n) \<Longrightarrow>
      fixup_ok s' D T (delete_fixup (root_of T) (ctx_top D) s')"
  shows "fixup_ok s (In_Left p w # D) t (delete_fixup (root_of t) (Some p) s)"
proof -
  obtain wl sb wr where w: "w = Node wl sb wr" using sibling_exists(1) [OF sh] by (cases w) auto
  note sh = sh [unfolded w]
  show ?thesis
  proof (cases "rb_color s sb")
    case BLACK
    show ?thesis unfolding w by (rule left_black_sibling [OF sh BLACK tb up])
  next
    case RED
    define s' where "s' = left_rotate p (set_color p RED (set_color sb BLACK s))"
    note red = left_red_sibling [OF sh RED, folded s'_def]
    obtain a y b where wl: "wl = Node a y b" using red(4) by (cases wl) auto
    have "fixup_ok s' (In_Left p wl # In_Left sb wr # D) t (delete_fixup (root_of t) (Some p) s')"
      using left_black_sibling [OF red(1) [unfolded wl]] red(2,3,5) tb wl by simp
    then have "fixup_ok s (In_Left p w # D) t (delete_fixup (root_of t) (Some p) s')"
      by (rule fixup_ok_trans) (simp_all add: w s'_def)
    then show ?thesis using left_red_sibling_step [OF sh RED tb] by (simp flip: s'_def)
  qed
qed

lemma right_fixup_turn:
  fixes s :: "'k rbt"
  assumes sh: "black_short s (In_Right w p # D) t n" and tb: "rooted_black (rb_color s) t"
    and up: "\<And>(s' :: 'k rbt) T. black_short s' D T (Suc n) \<Longrightarrow>
      fixup_ok s' D T (delete_fixup (root_of T) (ctx_top D) s')"
  shows "fixup_ok s (In_Right w p # D) t (delete_fixup (root_of t) (Some p) s)"
proof -
  obtain wl sb wr where w: "w = Node wr sb wl" using sibling_exists(2) [OF sh] by (cases w) auto
  note sh = sh [unfolded w]
  show ?thesis
  proof (cases "rb_color s sb")
    case BLACK
    show ?thesis unfolding w by (rule right_black_sibling [OF sh BLACK tb up])
  next
    case RED
    define s' where "s' = right_rotate p (set_color p RED (set_color sb BLACK s))"
    note red = right_red_sibling [OF sh RED, folded s'_def]
    obtain a y b where wl: "wl = Node b y a" using red(4) by (cases wl) auto
    have "fixup_ok s' (In_Right wl p # In_Right wr sb # D) t (delete_fixup (root_of t) (Some p) s')"
      using right_black_sibling [OF red(1) [unfolded wl]] red(2,3,5) tb wl by simp
    then have "fixup_ok s (In_Right w p # D) t (delete_fixup (root_of t) (Some p) s')"
      by (rule fixup_ok_trans) (simp_all add: w s'_def)
    then show ?thesis using right_red_sibling_step [OF sh RED tb] by (simp flip: s'_def)
  qed
qed

theorem delete_fixup_correct:
  fixes s :: "'k rbt"
  assumes "black_short s C t n"
  shows "fixup_ok s C t (delete_fixup (root_of t) (ctx_top C) s)"
  using assms
proof (induction C arbitrary: s t n)
  case Nil
  then show ?case by (simp add: delete_fixup_root)
next
  case (Cons F D)
  show ?case
  proof (cases "rooted_black (rb_color s) t")
    case False
    then obtain l x r where t: "t = Node l x r" "rb_color s x = RED"
      by (cases t) (auto, metis rbt_color.exhaust)
    then show ?thesis using blacken_red Cons.prems delete_fixup_red [of s x] by simp
  next
    case True
    then show ?thesis using Cons by (cases F) (auto intro: left_fixup_turn right_fixup_turn)
  qed
qed

section \<open>Taking a node out\<close>

lemma set_hole_at:
  "rb_left (set_hole C h s) z = (if \<exists>r D. C = In_Left z r # D then h else rb_left s z)"
  "rb_right (set_hole C h s) z = (if \<exists>l D. C = In_Right l z # D then h else rb_right s z)"
  "rb_root (set_hole C h s) = (if C = [] then h else rb_root s)"
  by (cases C rule: ctx_top.cases; auto)+

lemma plug_append [simp]: "plug (E @ C) t = plug C (plug E t)"
  by (induction E t rule: plug.induct) simp_all

lemma ctx_append [simp]:
  "ctx_before (E @ C) = ctx_before C @ ctx_before E" "ctx_after (E @ C) = ctx_after E @ ctx_after C"
  "ctx_nodes (E @ C) = ctx_nodes E \<union> ctx_nodes C" "ctx_top (E @ C) = (if E = [] then ctx_top C else ctx_top E)"
proof -
  show 1: "ctx_before (E @ C) = ctx_before C @ ctx_before E" "ctx_after (E @ C) = ctx_after E @ ctx_after C"
    by (induction E rule: ctx_before.induct) simp_all
  then show "ctx_nodes (E @ C) = ctx_nodes E \<union> ctx_nodes C" by (auto simp: ctx_nodes_def)
  show "ctx_top (E @ C) = (if E = [] then ctx_top C else ctx_top E)" by (cases E rule: ctx_top.cases) simp_all
qed

text \<open>Another subtree in the hole, whatever happens to the nodes that are no longer in the tree.\<close>

lemma in_place_replaced:
  assumes "in_place s C t" "distinct (inorder (plug C t'))"
    and "tree_linked s' (ctx_top C) t'" and "rb_root s' = rb_root (set_hole C (root_of t') s)"
    and "\<And>x. x \<in> ctx_nodes C \<Longrightarrow> rb_left s' x = rb_left (set_hole C (root_of t') s) x \<and>
      rb_right s' x = rb_right (set_hole C (root_of t') s) x \<and> rb_parent s' x = rb_parent s x"
  shows "in_place s' C t'"
proof -
  note p = in_place_parts [OF assms(1)]
  have "ctx_linked s' C (root_of t')"
    using ctx_linked_set_hole [OF p(1,3), of "root_of t'"] assms(4,5)
      ctx_linked_same [of C s' "set_hole C (root_of t') s"] by simp
  then show ?thesis using assms(2,3) by (simp add: in_place_def)
qed

lemma tree_linked_moved:
  assumes "tree_linked s p t" "distinct (inorder t)"
    and "\<And>z. z \<in> set_tree t \<Longrightarrow> rb_left s' z = rb_left s z \<and> rb_right s' z = rb_right s z"
    and "\<And>z. z \<in> set_tree t \<Longrightarrow> rb_parent s' z = (if root_of t = Some z then q else rb_parent s z)"
  shows "tree_linked s' q t"
  using assms by (intro tree_linked_cong [of t s' s p q]) (auto dest: root_of_in)

text \<open>A node with at most one child.\<close>

definition set_parent :: "nat option \<Rightarrow> nat option \<Rightarrow> 'k rbt \<Rightarrow> 'k rbt" where
  "set_parent child p s = (case child of None \<Rightarrow> s | Some c \<Rightarrow> s\<lparr>rb_parent := (rb_parent s)(c := p)\<rparr>)"

lemma set_parent_simps [simp]:
  "rb_left (set_parent c p s) = rb_left s" "rb_right (set_parent c p s) = rb_right s"
  "rb_root (set_parent c p s) = rb_root s" "rb_key (set_parent c p s) = rb_key s"
  "rb_color (set_parent c p s) = rb_color s" "rb_mutex (set_parent c p s) = rb_mutex s"
  "rb_size (set_parent c p s) = rb_size s"
  "rb_parent (set_parent c p s) z = (if c = Some z then p else rb_parent s z)"
  by (auto simp: set_parent_def split: option.split)

lemma pulled_up:
  assumes "in_place s C (Node l x r)" "t' = l \<or> t' = r"
    "rb_parent s' = rb_parent (set_parent (root_of t') (ctx_top C) s)"
    "rb_left s' = rb_left (set_hole C (root_of t') s)" "rb_right s' = rb_right (set_hole C (root_of t') s)"
    "rb_root s' = rb_root (set_hole C (root_of t') s)"
  shows "in_place s' C t'"
proof (rule in_place_replaced [OF assms(1)])
  note p = in_place_parts [OF assms(1)]
  have t': "set_tree t' \<inter> ctx_nodes C = {}" "tree_linked s (Some x) t'" "distinct (inorder t')" "root_of t' \<noteq> Some x"
    using p(2,4,5) assms(2) root_of_in by fastforce+
  show "distinct (inorder (plug C t'))" using in_place_distinct [OF assms(1)] assms(2) by auto
  have out: "z \<notin> ctx_nodes C" if "z \<in> set_tree t'" for z using that t'(1) by auto
  show "tree_linked s' (ctx_top C) t'"
    by (rule tree_linked_moved [OF t'(2,3)]) (use assms(3-5) in \<open>simp_all add: out\<close>)
  show "rb_left s' z = rb_left (set_hole C (root_of t') s) z \<and>
      rb_right s' z = rb_right (set_hole C (root_of t') s) z \<and> rb_parent s' z = rb_parent s z"
    if "z \<in> ctx_nodes C" for z
    using that assms(3-5) t'(1) root_of_in [of t' z] by auto
qed (rule assms(6))

lemma unlink_node_place:
  assumes "in_place s C (Node l x r)" "l = Leaf \<or> r = Leaf"
  defines "t' \<equiv> if l = Leaf then r else l"
  obtains s' where "unlink_node x s = (s', root_of t', ctx_top C)" "in_place s' C t'" "same_nodes s s'"
    "rb_color s' = rb_color s"
proof -
  note p = in_place_parts [OF assms(1)]
  have l: "rb_left s x = root_of l" "rb_right s x = root_of r" "rb_parent s x = ctx_top C" using p(2) by simp_all
  have "x \<notin> ctx_nodes C" "root_of t' \<noteq> Some x" using p(4,5) root_of_in [of t' x] by (auto simp: t'_def)
  moreover have n: "set_tree t' \<inter> ctx_nodes C = {}" using p(5) by (auto simp: t'_def)
  define s1 where "s1 = set_parent (root_of t') (ctx_top C) s"
  have "ctx_linked s1 C (Some x) = ctx_linked s C (Some x)"
    by (rule ctx_linked_same) (use n root_of_in [of t'] in \<open>auto simp: s1_def\<close>)
  then have "ctx_linked s1 C (Some x)" using p(1) by simp
  ultimately have h: "(case rb_parent s1 x of None \<Rightarrow> s1\<lparr>rb_root := root_of t'\<rparr>
      | Some p \<Rightarrow> if rb_left s1 p = Some x then s1\<lparr>rb_left := (rb_left s1)(p := root_of t')\<rparr>
                  else s1\<lparr>rb_right := (rb_right s1)(p := root_of t')\<rparr>) = set_hole C (root_of t') s1"
    using l by (intro replace_child) (simp_all add: s1_def)
  have "rb_parent s1 x = ctx_top C" using l \<open>root_of t' \<noteq> Some x\<close> by (simp add: s1_def)
  moreover have "(if rb_left s x \<noteq> None then rb_left s x else rb_right s x) = root_of t'" using l by (simp add: t'_def)
  ultimately have "unlink_node x s = (set_hole C (root_of t') s1, root_of t', ctx_top C)"
    using h [unfolded s1_def] l unfolding s1_def
    by (cases "ctx_top C") (simp_all add: unlink_node_def Let_def split: if_splits flip: set_parent_def)
  moreover have "in_place (set_hole C (root_of t') s1) C t'"
    by (rule pulled_up [OF assms(1)]) (auto simp: t'_def s1_def fun_eq_iff set_hole_at)
  ultimately show thesis using that by (simp add: same_nodes_def s1_def)
qed

text \<open>The successor of a node with two children is the first node on its right.\<close>

lemma left_spine:
  assumes "tree_linked s q r" "root_of r = Some z"
  obtains E y b where "r = plug E (Node Leaf y b)" "leftmost s z = Some y" "ctx_before E = []"
    "\<And>l x F. E \<noteq> In_Right l x # F"
proof -
  have "\<exists>E y b. r = plug E (Node Leaf y b) \<and> leftmost s z = Some y \<and> ctx_before E = [] \<and> list_all (\<lambda>F. \<exists>x c. F = In_Left x c) E"
    using assms
  proof (induction r arbitrary: q z)
    case (Node a x c)
    show ?case
    proof (cases "root_of a")
      case None
      then show ?thesis using Node.prems
        by (intro exI [of _ "[]"] exI [of _ x] exI [of _ c]) (subst leftmost.simps, simp)
    next
      case (Some w)
      then obtain E y b where "a = plug E (Node Leaf y b)" "leftmost s w = Some y" "ctx_before E = []"
        "list_all (\<lambda>F. \<exists>x c. F = In_Left x c) E"
        using Node.IH(1) [of "Some x" w] Node.prems(1) by auto
      then show ?thesis using Node.prems Some
        by (intro exI [of _ "E @ [In_Left x c]"] exI [of _ y] exI [of _ b]) (subst leftmost.simps, simp)
    qed
  qed simp
  then obtain E y b where e: "r = plug E (Node Leaf y b)" "leftmost s z = Some y" "ctx_before E = []"
    "list_all (\<lambda>F. \<exists>x c. F = In_Left x c) E" by blast
  then have "E \<noteq> In_Right l x # F" for l x F by auto
  then show thesis using that e by blast
qed

text \<open>A node \<open>y\<close> from outside takes the place of \<open>x\<close>.\<close>

lemma substituted:
  assumes "in_place s C (Node l x r)" "y \<notin> set_tree l" "y \<notin> set_tree r" "y \<notin> ctx_nodes C"
    and root: "rb_root s' = rb_root (set_hole C (Some y) s)"
    and same: "\<And>z. z \<in> set_tree l \<union> set_tree r \<union> ctx_nodes C \<Longrightarrow>
      rb_left s' z = rb_left (set_hole C (Some y) s) z \<and> rb_right s' z = rb_right (set_hole C (Some y) s) z \<and>
      rb_parent s' z = (if root_of l = Some z \<or> root_of r = Some z then Some y else rb_parent s z)"
    and y: "rb_left s' y = root_of l" "rb_right s' y = root_of r" "rb_parent s' y = ctx_top C"
  shows "in_place s' C (Node l y r)"
proof (rule in_place_replaced [OF assms(1)])
  note p = in_place_parts [OF assms(1)]
  have lk: "tree_linked s (Some x) l" "tree_linked s (Some x) r" "distinct (inorder l)" "distinct (inorder r)"
    "set_tree l \<inter> set_tree r = {}" using p(2,4) by auto
  have out: "z \<notin> ctx_nodes C" if "z \<in> set_tree l \<or> z \<in> set_tree r" for z using that p(5) by auto
  show "distinct (inorder (plug C (Node l y r)))"
    using in_place_distinct [OF assms(1)] assms(2-4) by (auto simp: ctx_nodes_def)
  have rl: "root_of l \<noteq> Some z" if "z \<in> set_tree r" for z using that lk(5) root_of_in [of l z] by auto
  have rr: "root_of r \<noteq> Some z" if "z \<in> set_tree l" for z using that lk(5) root_of_in [of r z] by auto
  have "tree_linked s' (Some y) l"
    by (rule tree_linked_moved [OF lk(1,3)]) (simp_all add: same out rr)
  moreover have "tree_linked s' (Some y) r"
    by (rule tree_linked_moved [OF lk(2,4)]) (simp_all add: same out rl)
  ultimately show "tree_linked s' (ctx_top C) (Node l y r)" using y by simp
  have "root_of l \<noteq> Some z" "root_of r \<noteq> Some z" if "z \<in> ctx_nodes C" for z
    using that out root_of_in [of l z] root_of_in [of r z] by blast+
  then show "rb_left s' z = rb_left (set_hole C (root_of (Node l y r)) s) z \<and>
      rb_right s' z = rb_right (set_hole C (root_of (Node l y r)) s) z \<and> rb_parent s' z = rb_parent s z"
    if "z \<in> ctx_nodes C" for z
    using that same [of z] by auto
  show "rb_root s' = rb_root (set_hole C (root_of (Node l y r)) s)" using root by simp
qed

lemma root_of_plug: "root_of t = root_of t' \<Longrightarrow> root_of (plug C t) = root_of (plug C t')"
proof (cases "C = []")
  case False
  then have "root_of (plug C t) = root_of (plug C t')" for t t'
    by (induction C t arbitrary: t' rule: plug.induct) (metis plug.simps root_of.simps(2))+
  then show ?thesis .
qed simp

lemma successor_place:
  assumes "in_place s C (Node l x r)" "root_of l = Some lr" "root_of r = Some rr"
  obtains s' E y b where "r = plug E (Node Leaf y b)" "ctx_before E = []"
    "replace_by_successor x lr rr s = Some (s', root_of b, ctx_top (E @ In_Right l y # C), rb_color s y)"
    "in_place s' (E @ In_Right l y # C) b" "same_nodes s s'" "rb_color s' = (rb_color s)(y := rb_color s x)"
proof -
  note result = that and p = in_place_parts [OF assms(1)]
  have lk: "rb_left s x = Some lr" "rb_right s x = Some rr" "rb_parent s x = ctx_top C"
    "tree_linked s (Some x) l" "tree_linked s (Some x) r" using p(2) assms(2,3) by simp_all
  obtain E y b where e: "r = plug E (Node Leaf y b)" "leftmost s rr = Some y" "ctx_before E = []"
    "\<And>l x F. E \<noteq> In_Right l x # F"
    using left_spine [OF lk(5) assms(3)] by blast
  let ?A = "E @ In_Right l x # C"
  have ipA: "in_place s ?A (Node Leaf y b)" using assms(1) e(1) in_place_whole [of s ?A] in_place_whole [of s C] by simp
  note pA = in_place_parts [OF ipA]
  have d: "x \<noteq> y" "y \<notin> ctx_nodes C" "x \<notin> ctx_nodes C" "y \<notin> set_tree l" "x \<notin> set_tree l" "y \<notin> ctx_nodes E"
    "x \<notin> ctx_nodes E" "x \<notin> set_tree b" "y \<notin> set_tree b" "set_tree l \<inter> set_tree r = {}"
    using pA(3-5) p(4,5) e(1) by (auto simp: ctx_nodes_def simp flip: set_inorder)
  define sa where "sa = set_hole ?A (root_of b) (set_parent (root_of b) (ctx_top ?A) s)"
  have "in_place sa ?A b"
    by (rule pulled_up [OF ipA]) (auto simp: sa_def fun_eq_iff set_hole_at)
  then have ipa: "in_place sa C (Node l x (plug E b))" using in_place_whole [of sa ?A] in_place_whole [of sa C] by simp
  define s1 where "s1 = set_hole C (Some y) s"
  have s1: "(case rb_parent s x of None \<Rightarrow> s\<lparr>rb_root := Some y\<rparr>
      | Some p \<Rightarrow> if rb_left s p = Some x then s\<lparr>rb_left := (rb_left s)(p := Some y)\<rparr>
                  else s\<lparr>rb_right := (rb_right s)(p := Some y)\<rparr>) = s1"
    unfolding s1_def using p(1) d(3) lk(3) by (intro replace_child) simp_all
  have y: "rb_right s y = root_of b" "rb_left s y = None" "rb_parent s y = ctx_top ?A" "root_of b \<noteq> Some y"
    using pA(2) d(9) root_of_in [of b y] by auto
  have s1f: "rb_parent s1 = rb_parent s" "rb_color s1 = rb_color s" "same_nodes s s1"
    "rb_right s1 y = root_of b" "rb_left s1 x = Some lr" "rb_right s1 x = Some rr"
    using d(2,3) y(1) lk by (simp_all add: s1_def same_nodes_def)
  have fin: thesis if "in_place sf (E @ In_Right l y # C) b" "same_nodes s sf"
    "replace_by_successor x lr rr s = Some (sf, root_of b, ctx_top (E @ In_Right l y # C), rb_color s y)"
    "rb_color sf = (rb_color s)(y := rb_color s x)" for sf
    using result [OF e(1,3) that(3,1,2,4)] .
  show thesis
  proof (cases E)
    case Nil
    define sf where "sf = s1\<lparr>rb_parent := (rb_parent s1)(y := rb_parent s1 x, lr := Some y),
      rb_color := (rb_color s1)(y := rb_color s1 x), rb_left := (rb_left s1)(y := rb_left s1 x)\<rparr>"
    have "replace_by_successor x lr rr s = Some (sf, root_of b, Some y, rb_color s y)"
      using e(2) s1f y(3) Nil unfolding replace_by_successor_def by (simp add: s1 sf_def)
    moreover have "in_place sf C (Node l y (plug E b))"
    proof (rule substituted [OF ipa])
      have L: "rb_left (set_hole C (Some y) sa) = rb_left s1"
        and R: "z \<noteq> x \<Longrightarrow> rb_right (set_hole C (Some y) sa) z = rb_right s1 z"
        and P: "rb_parent sa z = (if root_of b = Some z then Some x else rb_parent s z)"
        and T: "rb_root (set_hole C (Some y) sa) = rb_root s1" for z
        by (auto simp: fun_eq_iff sa_def s1_def set_hole_at Nil)
      show "y \<notin> set_tree l" "y \<notin> ctx_nodes C" "y \<notin> set_tree (plug E b)" using d Nil by simp_all
      show "rb_root sf = rb_root (set_hole C (Some y) sa)" by (simp add: sf_def T)
      show "rb_left sf y = root_of l" "rb_parent sf y = ctx_top C"
        using s1f lk assms(2) d(4) root_of_in [of l y] by (auto simp: sf_def)
      show "rb_right sf y = root_of (plug E b)" using y Nil by (simp add: sf_def s1f)
      fix z assume z: "z \<in> set_tree l \<union> set_tree (plug E b) \<union> ctx_nodes C"
      then have n: "z \<noteq> x" "z \<noteq> y" using d Nil by auto
      have "root_of b = Some z \<Longrightarrow> rb_parent s z = Some y" using pA(2) by (cases b) auto
      then show "rb_left sf z = rb_left (set_hole C (Some y) sa) z \<and> rb_right sf z = rb_right (set_hole C (Some y) sa) z \<and>
          rb_parent sf z = (if root_of l = Some z \<or> root_of (plug E b) = Some z then Some y else rb_parent sa z)"
        using n Nil by (simp add: sf_def L R P s1f assms(2))
    qed
    then have "in_place sf (E @ In_Right l y # C) b"
      using in_place_whole [of sf "E @ In_Right l y # C"] in_place_whole [of sf C] by simp
    moreover have "same_nodes s sf" "rb_color sf = (rb_color s)(y := rb_color s x)"
      using s1f by (simp_all add: sf_def same_nodes_def)
    ultimately show thesis using Nil by (intro fin) simp_all
  next
    case (Cons F D)
    then obtain q c where F: "F = In_Left q c" using e(4) by (cases F) auto
    have q: "rb_parent s y = Some q" "q \<noteq> x" "q \<noteq> y" "q \<notin> ctx_nodes C" "q \<notin> set_tree l"
      using y(3) d pA(3) p(4,5) e(1) Cons F by (auto simp: ctx_nodes_def)
    have "root_of (plug E b) = root_of r"
      unfolding e(1) Cons F plug.simps by (rule root_of_plug) simp
    moreover have "root_of r \<noteq> Some y"
      using plug_root [of y "Node (Node Leaf y b) q c" D] q(3) p(4) e(1) Cons F by simp
    ultimately have rr: "root_of (plug E b) = Some rr" "rr \<noteq> y" using assms(3) by auto
    define t1 where "t1 = set_parent (root_of b) (Some q) s1"
    define t2 where "t2 = t1\<lparr>rb_left := (rb_left t1)(q := root_of b)\<rparr>"
    define t3 where "t3 = t2\<lparr>rb_right := (rb_right t2)(y := Some rr), rb_parent := (rb_parent t2)(rr := Some y)\<rparr>"
    define sf where "sf = t3\<lparr>rb_parent := (rb_parent t3)(y := rb_parent t3 x, lr := Some y),
      rb_color := (rb_color t3)(y := rb_color t3 x), rb_left := (rb_left t3)(y := rb_left t3 x)\<rparr>"
    have bx: "root_of b \<noteq> Some x" using d(8) root_of_in [of b x] by auto
    have rx: "rr \<noteq> x" using assms(3) root_of_in [of r x] p(4) by auto
    have t: "rb_parent t1 y = Some q" "rb_right t2 x = Some rr" "rb_parent t3 x = ctx_top C" "rb_left t3 x = Some lr"
      "rb_color t3 = rb_color s" "same_nodes s t3"
      using q y bx rx s1f lk by (simp_all add: t1_def t2_def t3_def same_nodes_def)
    have "replace_by_successor x lr rr s = Some (sf, root_of b, Some q, rb_color s y)"
      using e(2) s1f q(1,2) t(1,2) unfolding replace_by_successor_def
      by (simp add: s1 Let_def flip: set_parent_def t1_def t2_def t3_def sf_def)
    moreover have "in_place sf C (Node l y (plug E b))"
    proof (rule substituted [OF ipa])
      have L: "rb_left (set_hole C (Some y) sa) z = (if z = q then root_of b else rb_left s1 z)"
        and R: "rb_right (set_hole C (Some y) sa) = rb_right s1"
        and P: "rb_parent sa z = (if root_of b = Some z then Some q else rb_parent s z)"
        and T: "rb_root (set_hole C (Some y) sa) = rb_root s1" for z
        using q(4) by (auto simp: fun_eq_iff sa_def s1_def set_hole_at Cons F)
      show "y \<notin> set_tree l" "y \<notin> ctx_nodes C" "y \<notin> set_tree (plug E b)"
        using d p(4) e(1) by (auto simp flip: set_inorder)
      show "rb_root sf = rb_root (set_hole C (Some y) sa)" by (simp add: sf_def t1_def t2_def t3_def T)
      show "rb_left sf y = root_of l" "rb_parent sf y = ctx_top C"
        using t assms(2) d(4) root_of_in [of l y] by (auto simp: sf_def)
      show "rb_right sf y = root_of (plug E b)" using rr by (simp add: sf_def t3_def)
      fix z assume z: "z \<in> set_tree l \<union> set_tree (plug E b) \<union> ctx_nodes C"
      then have n: "z \<noteq> y" using d p(4) e(1) by (auto simp flip: set_inorder)
      then show "rb_left sf z = rb_left (set_hole C (Some y) sa) z \<and> rb_right sf z = rb_right (set_hole C (Some y) sa) z \<and>
          rb_parent sf z = (if root_of l = Some z \<or> root_of (plug E b) = Some z then Some y else rb_parent sa z)"
        by (simp add: sf_def t1_def t2_def t3_def L R P s1f assms(2) rr(1))
    qed
    then have "in_place sf (E @ In_Right l y # C) b"
      using in_place_whole [of sf "E @ In_Right l y # C"] in_place_whole [of sf C] by simp
    moreover have "same_nodes s sf" "rb_color sf = (rb_color s)(y := rb_color s x)"
      using t by (simp_all add: sf_def same_nodes_def)
    ultimately show thesis using Cons F by (intro fin) simp_all
  qed
qed

lemma top_black_renamed:
  "y \<notin> ctx_nodes E \<Longrightarrow> y \<notin> ctx_nodes C \<Longrightarrow>
    top_black (c(y := c x)) (E @ In_Right l y # C) = top_black c (E @ In_Right l x # C)"
  using ctx_top_in [of E] by (auto simp: top_black_def split: option.split)

lemma top_black_recolor [simp]: "y \<notin> ctx_nodes C \<Longrightarrow> top_black (c(y := k)) C = top_black c C"
  using ctx_top_in [of C] by (auto simp: top_black_def split: option.split)

lemma rb_ctx_renamed:
  assumes "rb_ctx c (E @ In_Right l x # C) n" "y \<notin> ctx_nodes E" "y \<notin> set_tree l" "y \<notin> ctx_nodes C"
  shows "rb_ctx (c(y := c x)) (E @ In_Right l y # C) n"
proof -
  define c' where "c' = c(y := c x)"
  have e: "c' y = c x" "\<And>z. z \<noteq> y \<Longrightarrow> c' z = c z" "\<And>t k. y \<notin> set_tree t \<Longrightarrow> rb c' t k = rb c t k"
    "\<And>t. y \<notin> set_tree t \<Longrightarrow> rooted_black c' t = rooted_black c t" by (simp_all add: c'_def)
  have C: "top_black c' C = top_black c C" "rb_ctx c' C k = rb_ctx c C k" for k
    using assms(4) by (simp_all add: c'_def)
  have "rb_ctx c' (E @ In_Right l y # C) n" using assms
  proof (induction E arbitrary: n)
    case Nil
    then show ?case by (simp add: e C split: rbt_color.splits)
  next
    case (Cons F E)
    have top: "top_black c' (E @ In_Right l y # C) = top_black c (E @ In_Right l x # C)"
      unfolding c'_def using Cons.prems by (intro top_black_renamed) (cases F; simp)+
    show ?case
    proof (cases F)
      case (In_Left q w)
      then show ?thesis using Cons top by (cases "c q") (auto simp: e)
    next
      case (In_Right w q)
      then show ?thesis using Cons top by (cases "c q") (auto simp: e)
    qed
  qed
  then show ?thesis by (simp add: c'_def)
qed

text \<open>After the unlinking the tree is either a red-black tree or a black node is missing at the hole.\<close>

lemma delete_finish:
  assumes "in_place s C t" "rb_ctx (rb_color s) C n"
    "case k of BLACK \<Rightarrow> n \<noteq> 0 \<and> rb (rb_color s) t (n - 1)
     | RED \<Rightarrow> rb (rb_color s) t n \<and> rooted_black (rb_color s) t"
  shows "fixup_ok s C t (if k = BLACK then delete_fixup (root_of t) (ctx_top C) s else Some s)"
proof (cases k)
  case BLACK
  then have "black_short s C t (n - 1)" using assms by (simp add: black_short_def)
  then show ?thesis using BLACK delete_fixup_correct by simp
next
  case RED
  then have "rb_tree s (plug C t)" using assms by (intro rb_tree_plug [where n = n]) simp_all
  then show ?thesis using RED by (auto simp: fixup_ok_def)
qed

lemma remove1_middle: "distinct (xs @ x # ys) \<Longrightarrow> remove1 x (xs @ x # ys) = xs @ ys"
  by (simp add: remove1_append)

lemma unlink_colors:
  assumes "rb c (Node l x r) n" "l = Leaf \<or> r = Leaf"
  shows "case c x of BLACK \<Rightarrow> n \<noteq> 0 \<and> rb c (if l = Leaf then r else l) (n - 1)
    | RED \<Rightarrow> rb c (if l = Leaf then r else l) n \<and> rooted_black c (if l = Leaf then r else l)"
  using assms by (auto split: rbt_color.splits nat.splits)

lemma fixup_ok_result:
  assumes "fixup_ok s1 C t res" "d = res \<bind> (\<lambda>s2. Some (s2\<lparr>rb_mutex := False\<rparr>))" "same_nodes s0 s1"
    "inorder (plug C t) = xs"
  shows "\<exists>s2 t'. d = Some (s2\<lparr>rb_mutex := False\<rparr>) \<and> rb_tree s2 t' \<and> same_nodes s0 s2 \<and> inorder t' = xs"
proof -
  obtain s2 t' where "res = Some s2" "rb_tree s2 t'" "same_nodes s1 s2" "inorder t' = xs"
    using assms(1,4) by (auto simp: fixup_ok_def)
  then show ?thesis using assms(2) same_nodes_trans [OF assms(3)] by auto
qed

theorem rb_delete_correct:
  fixes s :: "'k::linorder rbt"
  assumes "rbt_ok s t" "x \<in> set_tree t"
  shows "\<exists>s' t'. rb_delete x s = Some s' \<and> rbt_ok s' t' \<and> inorder t' = remove1 x (inorder t) \<and>
    rb_key s' = rb_key s \<and> rb_size s' = rb_size s"
proof -
  obtain C l r where t: "t = plug C (Node l x r)" using tree_split [OF assms(2)] by blast
  have ok: "rb_tree s t" "ordered s (inorder t)" "\<not> rb_mutex s" using assms(1) by (simp_all add: rbt_ok_def)
  then obtain m where m: "rb (rb_color s) t m" "rooted_black (rb_color s) t" "in_place s [] t"
    by (auto simp: rb_tree_def)
  define s0 where "s0 = s\<lparr>rb_mutex := True\<rparr>"
  have s0: "rb_color s0 = rb_color s" "rb_key s0 = rb_key s" "rb_size s0 = rb_size s" "rb_mutex s0"
    "rb_left s0 = rb_left s" "rb_right s0 = rb_right s" by (simp_all add: s0_def)
  have "in_place s0 [] t" using m(3) in_place_same [of t "[]" s0 s] by (simp add: s0_def)
  then have ip: "in_place s0 C (Node l x r)" using in_place_whole [of s0 C] by (simp add: t)
  have lk: "rb_left s0 x = root_of l" "rb_right s0 x = root_of r" using ip by (simp_all add: in_place_def)
  have dist: "distinct (inorder t)" using in_place_distinct [OF m(3)] by simp
  have rem: "remove1 x (inorder t) = (ctx_before C @ inorder l) @ inorder r @ ctx_after C"
    using remove1_middle [of "ctx_before C @ inorder l" x "inorder r @ ctx_after C"] dist by (simp add: t)
  have "\<exists>s2 t'. rb_delete x s = Some (s2\<lparr>rb_mutex := False\<rparr>) \<and> rb_tree s2 t' \<and> same_nodes s0 s2 \<and>
    inorder t' = remove1 x (inorder t)"
  proof (cases "l = Leaf \<or> r = Leaf")
    case True
    let ?t' = "if l = Leaf then r else l"
    obtain s1 where s1: "unlink_node x s0 = (s1, root_of ?t', ctx_top C)" "in_place s1 C ?t'" "same_nodes s0 s1"
      "rb_color s1 = rb_color s0"
      using unlink_node_place [OF ip True] by blast
    obtain n where n: "rb_ctx (rb_color s) C n" "rb (rb_color s) (Node l x r) n"
      using rb_unplug [of "rb_color s" C "Node l x r" m] m by (auto simp: t)
    have "fixup_ok s1 C ?t' (if rb_color s x = BLACK then delete_fixup (root_of ?t') (ctx_top C) s1 else Some s1)"
      by (rule delete_finish [OF s1(2), where n = n])
        (use n(1) unlink_colors [OF n(2) True] in \<open>simp_all only: s1(4) s0(1)\<close>)
    moreover have "rb_delete x s = (if rb_color s x = BLACK then delete_fixup (root_of ?t') (ctx_top C) s1 else Some s1) \<bind>
        (\<lambda>s2. Some (s2\<lparr>rb_mutex := False\<rparr>))"
      using True lk [unfolded s0] s1(1) ok(3)
      by (auto simp: rb_delete_def mutex_lock_def s0(1,5,6) split: option.split simp flip: s0_def)
    moreover have "inorder (plug C ?t') = remove1 x (inorder t)" using True rem by auto
    ultimately show ?thesis by (rule fixup_ok_result [OF _ _ s1(3)])
  next
    case False
    then obtain lr rr where lr: "root_of l = Some lr" "root_of r = Some rr" by fastforce
    obtain s1 E y b where e: "r = plug E (Node Leaf y b)" "ctx_before E = []"
      "replace_by_successor x lr rr s0 = Some (s1, root_of b, ctx_top (E @ In_Right l y # C), rb_color s0 y)"
      "in_place s1 (E @ In_Right l y # C) b" "same_nodes s0 s1" "rb_color s1 = (rb_color s0)(y := rb_color s0 x)"
      by (rule successor_place [OF ip lr])
    let ?B = "E @ In_Right l y # C"
    have t2: "t = plug (E @ In_Right l x # C) (Node Leaf y b)" by (simp add: t e(1))
    have d: "y \<notin> ctx_nodes E" "y \<notin> set_tree l" "y \<notin> ctx_nodes C" "y \<notin> set_tree b"
      using dist by (auto simp: t2 ctx_nodes_def)
    obtain n where n: "rb_ctx (rb_color s) (E @ In_Right l x # C) n" "rb (rb_color s) (Node Leaf y b) n"
      using rb_unplug [of "rb_color s" "E @ In_Right l x # C" "Node Leaf y b" m] m t2 by auto
    have ctx: "rb_ctx (rb_color s1) ?B n" using rb_ctx_renamed [OF n(1) d(1-3)] e(6) s0(1) by simp
    have "fixup_ok s1 ?B b (if rb_color s y = BLACK then delete_fixup (root_of b) (ctx_top ?B) s1 else Some s1)"
      using delete_finish [OF e(4) ctx, of "rb_color s y"] unlink_colors [OF n(2)] d(4) e(6) s0(1)
      by (auto split: rbt_color.splits)
    moreover have "rb_delete x s = (if rb_color s y = BLACK then delete_fixup (root_of b) (ctx_top ?B) s1 else Some s1) \<bind>
        (\<lambda>s2. Some (s2\<lparr>rb_mutex := False\<rparr>))"
      using lr lk [unfolded s0] e(3) ok(3) by (simp add: rb_delete_def mutex_lock_def s0(1,5,6) flip: s0_def)
    moreover have "inorder (plug ?B b) = remove1 x (inorder t)" using rem e(1,2) by simp
    ultimately show ?thesis by (rule fixup_ok_result [OF _ _ e(5)])
  qed
  then obtain s2 t' where s2: "rb_delete x s = Some (s2\<lparr>rb_mutex := False\<rparr>)" "rb_tree s2 t'" "same_nodes s0 s2"
    "inorder t' = remove1 x (inorder t)" by blast
  have k: "rb_key s2 = rb_key s" "rb_size s2 = rb_size s" using s2(3) s0 by (simp_all add: same_nodes_def)
  have "rb_tree (s2\<lparr>rb_mutex := False\<rparr>) t'"
    using s2(2) in_place_same [of t' "[]" "s2\<lparr>rb_mutex := False\<rparr>" s2] by (simp add: rb_tree_def)
  moreover have "ordered (s2\<lparr>rb_mutex := False\<rparr>) (inorder t')"
  proof -
    have "sorted (map (rb_key s) (remove1 x (inorder t)))"
      using ok(2) unfolding rem by (simp add: ordered_def t sorted_append)
    then show ?thesis by (simp add: ordered_def s2(4) k)
  qed
  ultimately show ?thesis
    using s2(1,4) k by (intro exI [of _ "s2\<lparr>rb_mutex := False\<rparr>"] exI [of _ t']) (simp add: rbt_ok_def)
qed

end
