(* ===== verification/Ordered_Nodes.thy ===== *)
theory Ordered_Nodes
  imports Red_Black_Delete
begin

text \<open>
  The contract of the red-black tree towards its users: a list of nodes in the order of their keys, under
  insertion, deletion and search. The locale \<open>ordered_nodes\<close> states it, the tree of
  src/src/structure/rbt.hpp meets it for every comparison function that orders the keys in use. Runs of
  any length, the height of the tree and its traversals are then statements about that list.
\<close>

section \<open>Users of a tree\<close>

datatype 'k tree_cmd = Insert_Node nat 'k | Delete_Node nat | Search_Key 'k

fun run_cmd :: "(nat \<Rightarrow> 'k \<Rightarrow> 's \<Rightarrow> 's option) \<Rightarrow> (nat \<Rightarrow> 's \<Rightarrow> 's option) \<Rightarrow>
    ('k \<Rightarrow> 's \<Rightarrow> ('s \<times> nat option) option) \<Rightarrow> 'k tree_cmd \<Rightarrow> 's \<Rightarrow> ('s \<times> nat option) option" where
  "run_cmd ins del lookup (Insert_Node n k) s = map_option (\<lambda>s'. (s', None)) (ins n k s)"
| "run_cmd ins del lookup (Delete_Node n) s = map_option (\<lambda>s'. (s', None)) (del n s)"
| "run_cmd ins del lookup (Search_Key k) s = lookup k s"

fun run_cmds :: "(nat \<Rightarrow> 'k \<Rightarrow> 's \<Rightarrow> 's option) \<Rightarrow> (nat \<Rightarrow> 's \<Rightarrow> 's option) \<Rightarrow>
    ('k \<Rightarrow> 's \<Rightarrow> ('s \<times> nat option) option) \<Rightarrow> 'k tree_cmd list \<Rightarrow> 's \<Rightarrow> ('s \<times> nat option list) option" where
  "run_cmds ins del lookup [] s = Some (s, [])"
| "run_cmds ins del lookup (c # cs) s = do {
     (s1, r) \<leftarrow> run_cmd ins del lookup c s;
     (s2, rs) \<leftarrow> run_cmds ins del lookup cs s1;
     Some (s2, r # rs)
   }"

section \<open>Sorted lists of nodes\<close>

type_synonym 'k nodes_list = "(nat \<times> 'k) list"

definition put_node :: "nat \<Rightarrow> 'k::linorder \<Rightarrow> 'k nodes_list \<Rightarrow> 'k nodes_list" where
  "put_node n k xs = takeWhile (\<lambda>p. snd p \<le> k) xs @ (n, k) # dropWhile (\<lambda>p. snd p \<le> k) xs"

definition drop_node :: "nat \<Rightarrow> 'k nodes_list \<Rightarrow> 'k nodes_list" where
  "drop_node n xs = filter (\<lambda>p. fst p \<noteq> n) xs"

definition found_ok :: "'k nodes_list \<Rightarrow> 'k \<Rightarrow> nat option \<Rightarrow> bool" where
  "found_ok xs k r \<longleftrightarrow> (case r of None \<Rightarrow> k \<notin> snd ` set xs | Some n \<Rightarrow> (n, k) \<in> set xs)"

text \<open>The list after a run, if the answers are right.\<close>

fun list_cmds :: "'k::linorder nodes_list \<Rightarrow> 'k tree_cmd list \<Rightarrow> nat option list \<Rightarrow> 'k nodes_list option" where
  "list_cmds xs [] [] = Some xs"
| "list_cmds xs (Insert_Node n k # cs) (None # rs) = list_cmds (put_node n k xs) cs rs"
| "list_cmds xs (Delete_Node n # cs) (None # rs) = list_cmds (drop_node n xs) cs rs"
| "list_cmds xs (Search_Key k # cs) (r # rs) = (if found_ok xs k r then list_cmds xs cs rs else None)"
| "list_cmds xs _ _ = None"

text \<open>What the caller owes: a new node for an insertion, a node of the tree for a deletion, keys that the
  comparison function handles.\<close>

fun cmds_allowed :: "('k \<Rightarrow> 'k set \<Rightarrow> bool) \<Rightarrow> 'k::linorder nodes_list \<Rightarrow> 'k tree_cmd list \<Rightarrow> bool" where
  "cmds_allowed fits xs [] \<longleftrightarrow> True"
| "cmds_allowed fits xs (Insert_Node n k # cs) \<longleftrightarrow> n \<notin> fst ` set xs \<and> fits k (snd ` set xs) \<and>
     cmds_allowed fits (put_node n k xs) cs"
| "cmds_allowed fits xs (Delete_Node n # cs) \<longleftrightarrow> n \<in> fst ` set xs \<and> cmds_allowed fits (drop_node n xs) cs"
| "cmds_allowed fits xs (Search_Key k # cs) \<longleftrightarrow> fits k (snd ` set xs) \<and> cmds_allowed fits xs cs"

lemma set_put_node [simp]: "set (put_node n k xs) = insert (n, k) (set xs)"
proof -
  have "set xs = set (takeWhile (\<lambda>p. snd p \<le> k) xs @ dropWhile (\<lambda>p. snd p \<le> k) xs)" by simp
  then show ?thesis unfolding put_node_def by (simp del: takeWhile_dropWhile_id) 
qed

lemma set_drop_node [simp]: "set (drop_node n xs) = {p \<in> set xs. fst p \<noteq> n}"
  by (auto simp: drop_node_def)

locale ordered_nodes =
  fixes ins :: "nat \<Rightarrow> 'k::linorder \<Rightarrow> 's \<Rightarrow> 's option"
    and del :: "nat \<Rightarrow> 's \<Rightarrow> 's option"
    and lookup :: "'k \<Rightarrow> 's \<Rightarrow> ('s \<times> nat option) option"
    and holds :: "'s \<Rightarrow> 'k nodes_list \<Rightarrow> bool"
    and fits :: "'k \<Rightarrow> 'k set \<Rightarrow> bool"
  assumes insert_law: "holds s xs \<Longrightarrow> n \<notin> fst ` set xs \<Longrightarrow> fits k (snd ` set xs) \<Longrightarrow>
      \<exists>s'. ins n k s = Some s' \<and> holds s' (put_node n k xs)"
    and delete_law: "holds s xs \<Longrightarrow> n \<in> fst ` set xs \<Longrightarrow> \<exists>s'. del n s = Some s' \<and> holds s' (drop_node n xs)"
    and search_law: "holds s xs \<Longrightarrow> fits k (snd ` set xs) \<Longrightarrow> \<exists>r. lookup k s = Some (s, r) \<and> found_ok xs k r"
begin

lemma run_law:
  "holds s xs \<Longrightarrow> cmds_allowed fits xs cs \<Longrightarrow>
    \<exists>s' rs ys. run_cmds ins del lookup cs s = Some (s', rs) \<and> list_cmds xs cs rs = Some ys \<and> holds s' ys"
proof (induction cs arbitrary: s xs)
  case (Cons c cs)
  show ?case
  proof (cases c)
    case (Insert_Node n k)
    then obtain s1 where "ins n k s = Some s1" "holds s1 (put_node n k xs)"
      using insert_law [OF Cons.prems(1), of n k] Cons.prems(2) by auto
    then show ?thesis using Cons.IH [of s1] Cons.prems(2) Insert_Node by fastforce
  next
    case (Delete_Node n)
    then obtain s1 where "del n s = Some s1" "holds s1 (drop_node n xs)"
      using delete_law [OF Cons.prems(1), of n] Cons.prems(2) by auto
    then show ?thesis using Cons.IH [of s1] Cons.prems(2) Delete_Node by fastforce
  next
    case (Search_Key k)
    then obtain r where "lookup k s = Some (s, r)" "found_ok xs k r"
      using search_law [OF Cons.prems(1), of k] Cons.prems(2) by auto
    then show ?thesis using Cons.IH [OF Cons.prems(1)] Cons.prems(2) Search_Key by fastforce
  qed
qed simp

end

section \<open>The tree meets the contract\<close>

text \<open>A new node for data of \<open>sz\<close> bytes, and its insertion.\<close>

definition insert_new :: "('k \<Rightarrow> 'k \<Rightarrow> int) \<Rightarrow> nat \<Rightarrow> nat \<Rightarrow> 'k \<Rightarrow> 'k rbt \<Rightarrow> 'k rbt option" where
  "insert_new compare sz node key s = rb_insert compare node key (rb_node_new node sz s)"

definition tree_holds :: "nat \<Rightarrow> 'k::linorder rbt \<Rightarrow> 'k nodes_list \<Rightarrow> bool" where
  "tree_holds sz s xs \<longleftrightarrow> (\<exists>t. rbt_ok s t \<and> xs = map (\<lambda>x. (x, rb_key s x)) (inorder t) \<and>
     (\<forall>x \<in> set_tree t. sz \<le> rb_size s x))"

lemma tree_holdsI:
  "rbt_ok s t \<Longrightarrow> map (\<lambda>x. (x, rb_key s x)) (inorder t) = xs \<Longrightarrow>
    \<forall>x \<in> set (inorder t). sz \<le> rb_size s x \<Longrightarrow> tree_holds sz s xs"
  by (auto simp: tree_holds_def)

lemma rbt_ok_node_new:
  assumes "rbt_ok s t" "node \<notin> set_tree t"
  shows "rbt_ok (rb_node_new node sz s) t"
proof -
  have "in_place (rb_node_new node sz s) [] t = in_place s [] t"
    by (rule in_place_same) (use assms(2) in \<open>auto simp: rb_node_new_def\<close>)
  then show ?thesis using assms(1) by (simp add: rbt_ok_def rb_tree_def ordered_def rb_node_new_def)
qed

lemma put_node_map:
  assumes "n \<notin> set ns"
  shows "put_node n k (map (\<lambda>x. (x, f x)) ns) =
    map (\<lambda>x. (x, (f(n := k)) x)) (takeWhile (\<lambda>x. f x \<le> k) ns @ n # dropWhile (\<lambda>x. f x \<le> k) ns)"
proof -
  have "x \<noteq> n" if "x \<in> set (takeWhile P ns) \<or> x \<in> set (dropWhile P ns)" for x P
    using that assms set_takeWhileD set_dropWhileD by metis
  then show ?thesis by (auto simp: put_node_def takeWhile_map dropWhile_map comp_def)
qed

lemma drop_node_map:
  "distinct ns \<Longrightarrow> drop_node n (map (\<lambda>x. (x, f x)) ns) = map (\<lambda>x. (x, f x)) (remove1 n ns)"
  by (simp add: drop_node_def filter_map comp_def distinct_remove1_removeAll removeAll_filter_not_eq)
    (metis (mono_tags))

lemma rbt_distinct: "rbt_ok s t \<Longrightarrow> distinct (inorder t)"
  using in_place_distinct [of s "[]" t] by (simp add: rbt_ok_def rb_tree_def)

lemma nodes_of_tree [simp]:
  "fst ` set (map (\<lambda>x. (x, f x)) (inorder t)) = set_tree t"
  "snd ` set (map (\<lambda>x. (x, f x)) (inorder t)) = f ` set_tree t"
  by (force simp: image_iff)+

interpretation tree: ordered_nodes "insert_new compare sz" rb_delete "rb_search compare sz" "tree_holds sz"
    "compares compare" for compare :: "'k::linorder \<Rightarrow> 'k \<Rightarrow> int" and sz
proof
  fix s :: "'k rbt" and xs :: "'k nodes_list" and n k
  assume h: "tree_holds sz s xs"
  then obtain t where t: "rbt_ok s t" "xs = map (\<lambda>x. (x, rb_key s x)) (inorder t)" "\<forall>x \<in> set_tree t. sz \<le> rb_size s x"
    by (auto simp: tree_holds_def)
  have ks: "snd ` set xs = rb_key s ` set_tree t" "fst ` set xs = set_tree t" by (simp_all only: t(2) nodes_of_tree)
  show "\<exists>s'. insert_new compare sz n k s = Some s' \<and> tree_holds sz s' (put_node n k xs)"
    if new: "n \<notin> fst ` set xs" "compares compare k (snd ` set xs)"
  proof -
    let ?s = "rb_node_new n sz s"
    have key: "rb_key ?s = rb_key s" and nt: "n \<notin> set_tree t" using new(1) unfolding ks by (simp_all add: rb_node_new_def)
    obtain s' t' where s': "rb_insert compare n k ?s = Some s'" "rbt_ok s' t'" "rb_size s' = rb_size ?s"
      "inorder t' = takeWhile (\<lambda>x. rb_key s x \<le> k) (inorder t) @ n # dropWhile (\<lambda>x. rb_key s x \<le> k) (inorder t)"
      "rb_key s' = (rb_key s)(n := k)"
      using rb_insert_correct [of compare k ?s t n] rbt_ok_node_new [OF t(1) nt] new nt unfolding ks key by blast
    have "set (inorder t') \<subseteq> insert n (set_tree t)"
      unfolding s'(4) by (auto dest: set_takeWhileD set_dropWhileD)
    then have "\<forall>x \<in> set (inorder t'). sz \<le> rb_size s' x"
      using t(3) unfolding s'(3) by (auto simp: rb_node_new_def)
    moreover have "map (\<lambda>x. (x, rb_key s' x)) (inorder t') = put_node n k xs"
      unfolding s'(4,5) t(2) using put_node_map [of n "inorder t" k "rb_key s"] nt by simp
    ultimately show ?thesis using s'(1) tree_holdsI [OF s'(2)] by (auto simp: insert_new_def)
  qed
  show "\<exists>s'. rb_delete n s = Some s' \<and> tree_holds sz s' (drop_node n xs)" if "n \<in> fst ` set xs"
  proof -
    obtain s' t' where s': "rb_delete n s = Some s'" "rbt_ok s' t'" "inorder t' = remove1 n (inorder t)"
      "rb_key s' = rb_key s" "rb_size s' = rb_size s"
      using rb_delete_correct [OF t(1), of n] \<open>n \<in> fst ` set xs\<close> unfolding ks by blast
    have "tree_holds sz s' (drop_node n xs)"
      by (rule tree_holdsI [OF s'(2)], simp_all only: s'(3-5) t(2) drop_node_map [OF rbt_distinct [OF t(1)]])
        (use t(3) in \<open>auto dest: notin_set_remove1\<close>)
    then show ?thesis using s'(1) by blast
  qed
  show "\<exists>r. rb_search compare sz k s = Some (s, r) \<and> found_ok xs k r" if "compares compare k (snd ` set xs)"
    using rb_search_correct [of compare k s t sz] t(1,3) that unfolding found_ok_def ks
    by (auto simp: t(2) image_iff split: option.splits)
qed

section \<open>The height\<close>

lemma rb_size_bound: "rb c t n \<Longrightarrow> 2 ^ n \<le> size1 t"
proof (induction t arbitrary: n)
  case (Node l x r)
  show ?case
  proof (cases "c x")
    case RED
    then have "2 ^ n \<le> size1 l" using Node.prems by (intro Node.IH(1)) simp
    then show ?thesis by simp
  next
    case BLACK
    then obtain m where m: "n = Suc m" "rb c l m" "rb c r m" using Node.prems by (cases n) auto
    then show ?thesis using Node.IH(1) [OF m(2)] Node.IH(2) [OF m(3)] by simp
  qed
qed simp

lemma rb_height_bound: "rb c t n \<Longrightarrow> height t \<le> 2 * n + (if rooted_black c t then 0 else 1)"
proof (induction t arbitrary: n)
  case (Node l x r)
  show ?case
  proof (cases "c x")
    case RED
    then have p: "rb c l n" "rb c r n" "rooted_black c l" "rooted_black c r" using Node.prems by simp_all
    then show ?thesis using Node.IH(1) [OF p(1)] Node.IH(2) [OF p(2)] RED by simp
  next
    case BLACK
    then obtain m where m: "n = Suc m" "rb c l m" "rb c r m" using Node.prems by (cases n) auto
    have "height l \<le> 2 * m + 1" "height r \<le> 2 * m + 1"
      using Node.IH(1) [OF m(2)] Node.IH(2) [OF m(3)] by (simp_all split: if_splits)
    then show ?thesis using BLACK m(1) by simp
  qed
qed simp

lemma rbt_height:
  assumes "rbt_ok s t"
  shows "2 ^ height t \<le> (length (inorder t) + 1) ^ 2"
proof -
  obtain n where n: "rb (rb_color s) t n" "rooted_black (rb_color s) t"
    using assms by (auto simp: rbt_ok_def rb_tree_def)
  have "(2::nat) ^ height t \<le> 2 ^ (2 * n)" using rb_height_bound [OF n(1)] n(2) by (intro power_increasing) simp_all
  also have "\<dots> = (2 ^ n) ^ 2" by (simp add: power_mult mult.commute)
  also have "\<dots> \<le> (size1 t) ^ 2" using rb_size_bound [OF n(1)] by (intro power_mono) simp_all
  finally show ?thesis by (simp add: size1_size)
qed

lemma tree_linked_unique:
  "tree_linked s p t \<Longrightarrow> tree_linked s q u \<Longrightarrow> root_of t = root_of u \<Longrightarrow> t = u"
proof (induction t arbitrary: p q u)
  case (Node l x r)
  then show ?case by (cases u) auto
qed auto

lemma tree_holds_unique: "tree_holds sz s xs \<Longrightarrow> tree_holds sz s ys \<Longrightarrow> xs = ys"
  using tree_linked_unique [of s None _ None]
  by (fastforce simp: tree_holds_def rbt_ok_def rb_tree_def in_place_def)

lemma tree_holds_distinct: "tree_holds sz s xs \<Longrightarrow> distinct (map fst xs)"
  using rbt_distinct [of s] by (auto simp: tree_holds_def comp_def)

lemma rb_new_holds: "tree_holds sz (rb_new s) []"
  by (rule tree_holdsI [of _ Leaf])
    (simp_all add: rb_new_def rbt_ok_def rb_tree_def in_place_def ordered_def)

section \<open>Properties\<close>

text \<open>\<open>C33:\<close> From the empty tree, any sequence of insertions of new nodes, deletions and searches that obeys the
  caller's duties runs without a null dereference, an endless loop or a failed check; it answers as a list
  sorted by key does, with later nodes of a key behind earlier ones; and the tree it leaves is a red-black
  tree of that list whose height is at most twice the logarithm of its size.\<close>

theorem tree_runs_like_sorted_list:
  fixes compare :: "'k::linorder \<Rightarrow> 'k \<Rightarrow> int"
  assumes "cmds_allowed (compares compare) [] cs"
  shows "\<exists>s' rs t. run_cmds (insert_new compare sz) rb_delete (rb_search compare sz) cs (rb_new s) = Some (s', rs) \<and>
    rbt_ok s' t \<and> list_cmds [] cs rs = Some (map (\<lambda>x. (x, rb_key s' x)) (inorder t)) \<and>
    2 ^ height t \<le> (length (inorder t) + 1) ^ 2"
proof -
  obtain s' rs ys where r: "run_cmds (insert_new compare sz) rb_delete (rb_search compare sz) cs (rb_new s) = Some (s', rs)"
    "list_cmds [] cs rs = Some ys" "tree_holds sz s' ys"
    using tree.run_law [OF rb_new_holds assms] by blast
  then obtain t where "rbt_ok s' t" "ys = map (\<lambda>x. (x, rb_key s' x)) (inorder t)" by (auto simp: tree_holds_def)
  then show ?thesis using r rbt_height by blast
qed

definition blank_tree :: "int rbt" where
  "blank_tree = \<lparr>rb_root = None, rb_key = (\<lambda>_. 0), rb_color = (\<lambda>_. RED), rb_left = (\<lambda>_. None),
     rb_right = (\<lambda>_. None), rb_parent = (\<lambda>_. None), rb_size = (\<lambda>_. 8), rb_mutex = False\<rparr>"

theorem tree_runs_like_sorted_list_witness:
  "\<exists>s' rs t. run_cmds (insert_new (-) 8) rb_delete (rb_search (-) 8)
      [Insert_Node 3 30, Insert_Node 1 10, Insert_Node 2 20, Delete_Node 1, Search_Key 20] (rb_new blank_tree) =
      Some (s', rs) \<and> rbt_ok s' t \<and>
    list_cmds [] [Insert_Node 3 30, Insert_Node 1 10, Insert_Node 2 20, Delete_Node 1, Search_Key 20] rs =
      Some (map (\<lambda>x. (x, rb_key s' x)) (inorder t)) \<and> 2 ^ height t \<le> (length (inorder t) + 1) ^ 2"
  by (rule tree_runs_like_sorted_list) (simp_all add: blank_tree_def compares_def put_node_def drop_node_def)

text \<open>\<open>C34:\<close> \<open>Insert\<close> of a new node keeps the tree well formed: the links are a tree, the colours are
  those of a red-black tree, the keys are in order, the mutex is free; the node comes behind all nodes with
  keys up to its own, and no other node is touched.\<close>

theorem rbt_insert_well_formed:
  fixes key :: "'k::linorder"
  assumes "rbt_ok s t" "node \<notin> set_tree t" "compares compare key (rb_key s ` set_tree t)"
  shows "\<exists>s' t'. rb_insert compare node key s = Some s' \<and> rbt_ok s' t' \<and>
    inorder t' = takeWhile (\<lambda>y. rb_key s y \<le> key) (inorder t) @ node # dropWhile (\<lambda>y. rb_key s y \<le> key) (inorder t) \<and>
    rb_key s' = (rb_key s)(node := key)"
  using rb_insert_correct [OF assms(3,1,2)] by blast

text \<open>A tree of three nodes.\<close>

definition three_nodes :: "int rbt" where
  "three_nodes = blank_tree\<lparr>rb_root := Some 2, rb_key := (\<lambda>x. 10 * int x), rb_color := (\<lambda>x. if x = 2 then BLACK else RED),
     rb_left := (\<lambda>x. if x = 2 then Some 1 else None), rb_right := (\<lambda>x. if x = 2 then Some 3 else None),
     rb_parent := (\<lambda>x. if x = 2 then None else Some 2)\<rparr>"

lemma three_nodes_ok: "rbt_ok three_nodes (Node (Node Leaf 1 Leaf) 2 (Node Leaf 3 Leaf))"
proof -
  have "rb (rb_color three_nodes) (Node (Node Leaf 1 Leaf) 2 (Node Leaf 3 Leaf)) 1"
    by (simp add: three_nodes_def)
  then show ?thesis
    by (auto simp: rbt_ok_def rb_tree_def in_place_def ordered_def three_nodes_def blank_tree_def simp del: rb.simps)
qed

theorem rbt_insert_well_formed_witness:
  "\<exists>s' t'. rb_insert (-) 4 25 three_nodes = Some s' \<and> rbt_ok s' t' \<and> inorder t' = [1, 2, 4, 3] \<and>
    rb_key s' = (rb_key three_nodes)(4 := 25)"
  using rbt_insert_well_formed [OF three_nodes_ok, of 4 "(-)" 25]
  by (simp add: compares_def three_nodes_def)

text \<open>\<open>C35:\<close> \<open>Delete\<close> of a node of the tree, whether it is a leaf, has one child or two, takes exactly
  that node out and leaves a red-black tree; keys and sizes stay. A second deletion is not a tree
  operation any more: the contract asks for a node of the tree.\<close>

theorem rbt_delete_removes_node:
  fixes s :: "'k::linorder rbt"
  assumes "rbt_ok s t" "node \<in> set_tree t"
  shows "\<exists>s' t'. rb_delete node s = Some s' \<and> rbt_ok s' t' \<and> inorder t' = remove1 node (inorder t) \<and>
    rb_key s' = rb_key s \<and> rb_size s' = rb_size s"
  using rb_delete_correct [OF assms] .

theorem rbt_delete_removes_node_witness:
  "\<exists>s' t'. rb_delete 2 three_nodes = Some s' \<and> rbt_ok s' t' \<and> inorder t' = [1, 3] \<and>
    rb_key s' = rb_key three_nodes \<and> rb_size s' = rb_size three_nodes"
  using rbt_delete_removes_node [OF three_nodes_ok, of 2] by simp

text \<open>\<open>C36:\<close> The three ways to read the whole tree agree: \<open>Foreach\<close> calls the function on the nodes in
  key order and stops at the first error, \<open>GetNum\<close> counts them (modulo \<open>2 ^ 32\<close>), and stepping with
  \<open>ForeachDisc\<close> from a null node yields the first one, then each one's successor, and null at the end.\<close>

theorem rbt_traversals:
  fixes s :: "'k::linorder rbt"
  assumes "rbt_ok s t"
  shows "rb_foreach func s st = Some (s, visit func (inorder t) st) \<and>
    rb_get_num s = Some (s, of_nat (length (inorder t))) \<and>
    rb_foreach_disc s None = Some (s, case inorder t of [] \<Rightarrow> None | y # _ \<Rightarrow> Some y) \<and>
    (\<forall>xs x ys. inorder t = xs @ x # ys \<longrightarrow>
      rb_foreach_disc s (Some x) = Some (s, case ys of [] \<Rightarrow> None | y # _ \<Rightarrow> Some y))"
proof -
  have l: "tree_linked s None t" "rb_root s = root_of t" "\<not> rb_mutex s"
    using assms by (simp_all add: rbt_ok_def rb_tree_def in_place_def)
  then have "rb_foreach func s st = Some (s, visit func (inorder t) st)"
    "rb_get_num s = Some (s, of_nat (length (inorder t)))"
    by (simp_all add: rb_foreach_def rb_get_num_def foreach_node_eq [OF l(1)] count_nodes_eq [OF l(1)] split: prod.split)
  then show ?thesis using rb_foreach_disc_correct [OF assms] by blast
qed

theorem rbt_traversals_witness:
  "rb_foreach (\<lambda>x st. (if x = 2 then FAILED else OK, st @ [x])) three_nodes [] = Some (three_nodes, FAILED, [1, 2]) \<and>
   rb_get_num three_nodes = Some (three_nodes, 3) \<and>
   rb_foreach_disc three_nodes None = Some (three_nodes, Some 1) \<and>
   rb_foreach_disc three_nodes (Some 3) = Some (three_nodes, None)"
proof -
  note r = rbt_traversals [OF three_nodes_ok, of "\<lambda>x st. (if x = 2 then FAILED else OK, st @ [x])" "[]"]
  have "rb_foreach_disc three_nodes (Some 3) = Some (three_nodes, None)"
    using r [THEN conjunct2, THEN conjunct2, THEN conjunct2, rule_format, of "[1, 2]" 3 "[]"] by simp
  then show ?thesis
    using r [THEN conjunct1] r [THEN conjunct2, THEN conjunct1] r [THEN conjunct2, THEN conjunct2, THEN conjunct1] by simp
qed

end
