(* ===== verification/Event_Manager.thy ===== *)
theory Event_Manager
  imports Ordered_Nodes Linked_List
begin

text \<open>
  \<open>Event\<close> of src/src/middleware/event.hpp and event.cpp: a red-black tree from event ids to lock-free
  lists of callbacks. Several event objects can be chained with \<open>Bind\<close>, so the model is a world of
  event objects; \<open>new\<close> hands out addresses that were never used. A callback is the user's, which here
  only leaves a mark in a trace, or the one that \<open>Bind\<close> creates. A cycle of bindings makes \<open>Active\<close>
  recurse without end, which is \<open>None\<close>; without a cycle every activation returns.
\<close>

section \<open>Data\<close>

datatype callback = User nat | Bind_To nat u32

record block =
  blk_event :: u32
  blk_cb :: callback

record event_obj =
  ev_tree :: "u32 rbt"
  ev_lists :: "nat \<Rightarrow> block nodes"

record ev_world =
  ev_objs :: "nat \<Rightarrow> event_obj"
  ev_fresh :: nat
  ev_trace :: "(nat \<times> bool \<times> u32) list"
  sizeof_list :: nat
  sizeof_block :: nat

text \<open>The comparison of the constructor; the overflow of the signed subtraction is taken to wrap around.\<close>

definition event_compare :: "u32 \<Rightarrow> u32 \<Rightarrow> int" where
  "event_compare a b = sint (a - b)"

section \<open>Operations\<close>

definition event_new :: "nat \<Rightarrow> ev_world \<Rightarrow> ev_world" where
  "event_new e w = w\<lparr>ev_objs := (ev_objs w)(e := (ev_objs w e)\<lparr>ev_tree := rb_new (ev_tree (ev_objs w e))\<rparr>)\<rparr>"

text \<open>\<open>GetList\<close>; \<open>Register\<close> starts in the same way. The list lives in the tree node, and its sentinel
  has the node's address.\<close>

definition event_get_list :: "nat \<Rightarrow> u32 \<Rightarrow> ev_world \<Rightarrow> (ev_world \<times> nat) option" where
  "event_get_list e event w = do {
     let ob = ev_objs w e;
     (tree, node) \<leftarrow> rb_search event_compare (sizeof_list w) event (ev_tree ob);
     (case node of
        Some x \<Rightarrow> Some (w, x)
      | None \<Rightarrow> do {
          let n = ev_fresh w;
          tree2 \<leftarrow> insert_new event_compare (sizeof_list w) n event tree;
          let fresh_list = lf_list_new ((ev_lists ob n)\<lparr>head_node := n\<rparr>);
          Some (w\<lparr>ev_objs := (ev_objs w)(e := ob\<lparr>ev_tree := tree2, ev_lists := (ev_lists ob)(n := fresh_list)\<rparr>),
            ev_fresh := Suc n\<rparr>, n)
        })
   }"

definition event_register :: "nat \<Rightarrow> u32 \<Rightarrow> callback \<Rightarrow> ev_world \<Rightarrow> ev_world option" where
  "event_register e event cb w = do {
     (w1, x) \<leftarrow> event_get_list e event w;
     let ob = ev_objs w1 e;
     let n = ev_fresh w1;
     let l = ev_lists ob x;
     l2 \<leftarrow> lf_list_add 0 (l\<lparr>node_next := (node_next l)(n := None), node_size := (node_size l)(n := sizeof_block w1),
       node_data := (node_data l)(n := \<lparr>blk_event = event, blk_cb = cb\<rparr>)\<rparr>) n;
     Some (w1\<lparr>ev_objs := (ev_objs w1)(e := ob\<lparr>ev_lists := (ev_lists ob)(x := l2)\<rparr>), ev_fresh := Suc n\<rparr>)
   }"

text \<open>The loop of \<open>Foreach\<close> over the list at node \<open>x\<close>, with the callbacks it runs. The loop reads
  the links again after every callback.\<close>

partial_function (option) run_callbacks ::
  "nat \<Rightarrow> nat \<Rightarrow> nat option \<Rightarrow> bool \<Rightarrow> u32 \<Rightarrow> ev_world \<Rightarrow> ev_world option" where
  "run_callbacks e x pos in_isr event w =
     (let l = ev_lists (ev_objs w e) x in
      if pos = Some (head_node l) then Some w
      else (case pos of None \<Rightarrow> None
        | Some p \<Rightarrow>
          if \<not> size_limit_check LIMIT_MORE (sizeof_block w) (node_size l p) then None
          else (case blk_cb (node_data l p) of
            User u \<Rightarrow> run_callbacks e x (node_next l p) in_isr event
              (w\<lparr>ev_trace := ev_trace w @ [(u, in_isr, event)]\<rparr>)
          | Bind_To target event2 \<Rightarrow> do {
              (w1, y) \<leftarrow> event_get_list target event2 w;
              let l2 = ev_lists (ev_objs w1 target) y;
              w2 \<leftarrow> run_callbacks target y (node_next l2 (head_node l2)) in_isr event2 w1;
              run_callbacks e x (node_next (ev_lists (ev_objs w2 e) x) p) in_isr event w2
            })))"

declare run_callbacks.simps [code]

definition event_active_from_callback ::
  "nat \<Rightarrow> nat option \<Rightarrow> u32 \<Rightarrow> bool \<Rightarrow> ev_world \<Rightarrow> ev_world option" where
  "event_active_from_callback e ls event in_isr w =
     (case ls of None \<Rightarrow> Some w
      | Some x \<Rightarrow> let l = ev_lists (ev_objs w e) x
                 in run_callbacks e x (node_next l (head_node l)) in_isr event w)"

definition event_active :: "nat \<Rightarrow> u32 \<Rightarrow> ev_world \<Rightarrow> ev_world option" where
  "event_active e event w = do {
     (tree, node) \<leftarrow> rb_search event_compare (sizeof_list w) event (ev_tree (ev_objs w e));
     (case node of None \<Rightarrow> Some w
      | Some x \<Rightarrow> let l = ev_lists (ev_objs w e) x
                 in run_callbacks e x (node_next l (head_node l)) False event w)
   }"

definition event_bind :: "nat \<Rightarrow> nat \<Rightarrow> u32 \<Rightarrow> u32 \<Rightarrow> ev_world \<Rightarrow> ev_world option" where
  "event_bind e sources source_event target_event w =
     event_register sources source_event (Bind_To e target_event) w"

section \<open>The registry\<close>

text \<open>Abstractly a world is a registry: for every object and event id the callbacks, latest first.\<close>

type_synonym registry = "nat \<Rightarrow> u32 \<Rightarrow> callback list"

definition small_id :: "u32 \<Rightarrow> bool" where
  "small_id k \<longleftrightarrow> k < 0x80000000"

lemma event_compare_small:
  assumes "small_id a" "small_id b"
  shows "event_compare a b < 0 \<longleftrightarrow> a < b" "event_compare a b = 0 \<longleftrightarrow> a = b"
proof -
  have "uint a < 2147483648" "uint b < 2147483648" using assms by (simp_all add: small_id_def word_less_def)
  moreover have "0 \<le> uint a" "0 \<le> uint b" by simp_all
  ultimately have "(uint a - uint b + 2147483648) mod 4294967296 = uint a - uint b + 2147483648"
    by (intro mod_pos_pos_trivial) linarith+
  then have "sint (a - b) = uint a - uint b"
    by (simp add: sint_uint uint_word_ariths signed_take_bit_eq_take_bit_shift take_bit_eq_mod mod_add_left_eq)
  then show "event_compare a b < 0 \<longleftrightarrow> a < b" "event_compare a b = 0 \<longleftrightarrow> a = b"
    by (simp_all add: event_compare_def word_less_def word_uint_eq_iff)
qed

lemma event_compares: "small_id k \<Longrightarrow> \<forall>j \<in> K. small_id j \<Longrightarrow> compares event_compare k K"
  by (simp add: compares_def event_compare_small)

text \<open>The list at tree node \<open>x\<close> holds the callbacks \<open>cbs\<close> at the nodes \<open>ns\<close>.\<close>

definition list_at :: "ev_world \<Rightarrow> nat \<Rightarrow> nat \<Rightarrow> nat list \<Rightarrow> callback list \<Rightarrow> bool" where
  "list_at w e x ns cbs \<longleftrightarrow> (let l = ev_lists (ev_objs w e) x in
     linked l ns \<and> head_node l = x \<and> map (blk_cb \<circ> node_data l) ns = cbs \<and>
     (\<forall>n \<in> set ns. sizeof_block w \<le> node_size l n \<and> n < ev_fresh w))"

definition registry_ok :: "ev_world \<Rightarrow> registry \<Rightarrow> bool" where
  "registry_ok w R \<longleftrightarrow> (\<forall>e. \<exists>xs. tree_holds (sizeof_list w) (ev_tree (ev_objs w e)) xs \<and> distinct (map snd xs) \<and>
     (\<forall>k. k \<notin> snd ` set xs \<longrightarrow> R e k = []) \<and>
     (\<forall>x k. (x, k) \<in> set xs \<longrightarrow> small_id k \<and> x < ev_fresh w \<and> (\<exists>ns. list_at w e x ns (R e k))))"

definition node_of :: "ev_world \<Rightarrow> nat \<Rightarrow> u32 \<Rightarrow> nat \<Rightarrow> bool" where
  "node_of w e k x \<longleftrightarrow> (\<exists>xs. tree_holds (sizeof_list w) (ev_tree (ev_objs w e)) xs \<and> (x, k) \<in> set xs)"

text \<open>Later worlds keep all links and lists that existed.\<close>

definition grown :: "ev_world \<Rightarrow> ev_world \<Rightarrow> bool" where
  "grown w w' \<longleftrightarrow> ev_fresh w \<le> ev_fresh w' \<and> sizeof_list w' = sizeof_list w \<and> sizeof_block w' = sizeof_block w \<and>
     (\<forall>e x. x < ev_fresh w \<longrightarrow> ev_lists (ev_objs w' e) x = ev_lists (ev_objs w e) x)"

lemma grown_refl [simp]: "grown w w" "grown w (w\<lparr>ev_trace := t\<rparr>)"
  by (simp_all add: grown_def)

lemma grown_trans: "grown w w' \<Longrightarrow> grown w' w'' \<Longrightarrow> grown w w''"
  by (auto simp: grown_def)

lemma list_at_grown: "list_at w e x ns cbs \<Longrightarrow> x < ev_fresh w \<Longrightarrow> grown w w' \<Longrightarrow> list_at w' e x ns cbs"
  by (fastforce simp: list_at_def grown_def Let_def)

lemma registry_ok_trace [simp]: "registry_ok (w\<lparr>ev_trace := t\<rparr>) R = registry_ok w R"
  by (simp add: registry_ok_def list_at_def)

lemma registry_search:
  assumes "registry_ok w R" "small_id k"
  obtains x where "rb_search event_compare (sizeof_list w) k (ev_tree (ev_objs w e)) =
      Some (ev_tree (ev_objs w e), x)"
    "case x of None \<Rightarrow> R e k = [] | Some x \<Rightarrow> x < ev_fresh w \<and> node_of w e k x \<and> (\<exists>ns. list_at w e x ns (R e k))"
proof -
  obtain xs where xs: "tree_holds (sizeof_list w) (ev_tree (ev_objs w e)) xs"
    "\<forall>k. k \<notin> snd ` set xs \<longrightarrow> R e k = []"
    "\<forall>x k. (x, k) \<in> set xs \<longrightarrow> small_id k \<and> x < ev_fresh w \<and> (\<exists>ns. list_at w e x ns (R e k))"
    using assms(1) unfolding registry_ok_def by blast
  have "compares event_compare k (snd ` set xs)" using assms(2) xs(3) by (intro event_compares) auto
  then obtain r where "rb_search event_compare (sizeof_list w) k (ev_tree (ev_objs w e)) =
      Some (ev_tree (ev_objs w e), r)" "found_ok xs k r"
    using tree.search_law [OF xs(1)] by blast
  then show thesis using that [of r] xs by (auto simp: found_ok_def node_of_def split: option.splits)
qed

lemma event_get_list_correct:
  assumes "registry_ok w R" "small_id k"
  obtains w' x ns where "event_get_list e k w = Some (w', x)" "registry_ok w' R" "grown w w'"
    "ev_trace w' = ev_trace w" "x < ev_fresh w'" "node_of w' e k x" "list_at w' e x ns (R e k)"
proof -
  note result = that
  let ?n = "ev_fresh w" and ?ob = "ev_objs w e" and ?sz = "sizeof_list w"
  obtain r where r: "rb_search event_compare ?sz k (ev_tree ?ob) = Some (ev_tree ?ob, r)"
    "case r of None \<Rightarrow> R e k = [] | Some x \<Rightarrow> x < ev_fresh w \<and> node_of w e k x \<and> (\<exists>ns. list_at w e x ns (R e k))"
    using registry_search [OF assms] by blast
  show thesis
  proof (cases r)
    case (Some x)
    then obtain ns where "x < ev_fresh w" "node_of w e k x" "list_at w e x ns (R e k)" using r(2) by auto
    then show thesis using result [of w x ns] assms(1) r(1) Some by (simp add: event_get_list_def)
  next
    case None
    obtain xs where xs: "tree_holds ?sz (ev_tree ?ob) xs" "distinct (map snd xs)"
      "\<And>k. k \<notin> snd ` set xs \<Longrightarrow> R e k = []"
      "\<And>x k. (x, k) \<in> set xs \<Longrightarrow> small_id k \<and> x < ?n \<and> (\<exists>ns. list_at w e x ns (R e k))"
      using assms(1) unfolding registry_ok_def by blast
    have small: "\<forall>j \<in> snd ` set xs. small_id j" using xs(4) by auto
    note cmp = event_compares [OF assms(2) small]
    have new: "k \<notin> snd ` set xs"
      using tree.search_law [OF xs(1) cmp] r(1) None by (auto simp: found_ok_def)
    have "?n \<notin> fst ` set xs" using xs(4) by force
    from tree.insert_law [OF xs(1) this cmp] obtain t2 where
      t2: "insert_new event_compare ?sz ?n k (ev_tree ?ob) = Some t2" "tree_holds ?sz t2 (put_node ?n k xs)" by blast
    define ls where "ls = (ev_lists ?ob)(?n := lf_list_new ((ev_lists ?ob ?n)\<lparr>head_node := ?n\<rparr>))"
    define w' where "w' = w\<lparr>ev_objs := (ev_objs w)(e := ?ob\<lparr>ev_tree := t2, ev_lists := ls\<rparr>), ev_fresh := Suc ?n\<rparr>"
    have g: "grown w w'" by (simp add: grown_def w'_def ls_def)
    have at: "list_at w' e ?n [] (R e k)"
      using xs(3) [OF new] by (simp add: list_at_def w'_def ls_def lf_list_new_def linked_def)
    have "distinct (map snd (put_node ?n k xs))"
    proof -
      have "distinct (map snd (takeWhile P xs @ dropWhile P xs))" for P using xs(2) by simp
      then have "distinct (map snd (takeWhile P xs) @ map snd (dropWhile P xs))" for P by (simp only: map_append)
      moreover have "k \<notin> snd ` set (takeWhile P xs)" "k \<notin> snd ` set (dropWhile P xs)" for P
        using new by (auto dest: set_takeWhileD set_dropWhileD)
      ultimately show ?thesis by (auto simp: put_node_def)
    qed
    moreover have "small_id j \<and> x < ev_fresh w' \<and> (\<exists>ns. list_at w' e x ns (R e j))" if "(x, j) \<in> set (put_node ?n k xs)" for x j
      using that at xs(4) [of x j] assms(2) list_at_grown [OF _ _ g] by (fastforce simp: w'_def)
    ultimately have mine: "\<exists>xs. tree_holds ?sz (ev_tree (ev_objs w' e)) xs \<and> distinct (map snd xs) \<and>
        (\<forall>k. k \<notin> snd ` set xs \<longrightarrow> R e k = []) \<and>
        (\<forall>x k. (x, k) \<in> set xs \<longrightarrow> small_id k \<and> x < ev_fresh w' \<and> (\<exists>ns. list_at w' e x ns (R e k)))"
      using t2(2) xs(3) by (intro exI [of _ "put_node ?n k xs"]) (simp add: w'_def)
    have "registry_ok w' R"
      unfolding registry_ok_def
    proof
      fix d
      have sz: "sizeof_list w' = ?sz" by (simp add: w'_def)
      show "\<exists>xs. tree_holds (sizeof_list w') (ev_tree (ev_objs w' d)) xs \<and> distinct (map snd xs) \<and>
        (\<forall>k. k \<notin> snd ` set xs \<longrightarrow> R d k = []) \<and>
        (\<forall>x k. (x, k) \<in> set xs \<longrightarrow> small_id k \<and> x < ev_fresh w' \<and> (\<exists>ns. list_at w' d x ns (R d k)))"
      proof (cases "d = e")
        case True
        then show ?thesis using mine sz by simp
      next
        case False
        then have "ev_objs w' d = ev_objs w d" by (simp add: w'_def)
        moreover obtain ys where "tree_holds ?sz (ev_tree (ev_objs w d)) ys" "distinct (map snd ys)"
          "\<forall>k. k \<notin> snd ` set ys \<longrightarrow> R d k = []"
          "\<forall>x k. (x, k) \<in> set ys \<longrightarrow> small_id k \<and> x < ?n \<and> (\<exists>ns. list_at w d x ns (R d k))"
          using assms(1) unfolding registry_ok_def by blast
        ultimately show ?thesis using sz list_at_grown [OF _ _ g] g
          by (intro exI [of _ ys]) (simp, meson grown_def order_less_le_trans)
      qed
    qed
    moreover have "event_get_list e k w = Some (w', ?n)"
      using r(1) None t2(1) by (simp add: event_get_list_def w'_def ls_def Let_def)
    moreover have "node_of w' e k ?n" using t2(2) by (auto simp: node_of_def w'_def)
    ultimately show thesis using result [of w' ?n "[]"] g at by (simp add: w'_def)
  qed
qed

lemma event_register_correct:
  assumes "registry_ok w R" "small_id k"
  shows "\<exists>w'. event_register e k cb w = Some w' \<and> registry_ok w' (R(e := (R e)(k := cb # R e k))) \<and>
    ev_trace w' = ev_trace w"
proof -
  obtain w1 x ns where w1: "event_get_list e k w = Some (w1, x)" "registry_ok w1 R" "ev_trace w1 = ev_trace w"
    "x < ev_fresh w1" "list_at w1 e x ns (R e k)" "node_of w1 e k x"
    using event_get_list_correct [OF assms] by blast
  let ?n = "ev_fresh w1" and ?ob = "ev_objs w1 e" and ?R = "R(e := (R e)(k := cb # R e k))"
  define l where "l = (let l = ev_lists ?ob x in l\<lparr>node_next := (node_next l)(?n := None),
    node_size := (node_size l)(?n := sizeof_block w1), node_data := (node_data l)(?n := \<lparr>blk_event = k, blk_cb = cb\<rparr>)\<rparr>)"
  have ns: "?n \<notin> set ns" "?n \<noteq> x" using w1(4,5) by (auto simp: list_at_def Let_def)
  have l: "linked l ns" "head_node l = x" "node_size l = (node_size (ev_lists ?ob x))(?n := sizeof_block w1)"
    "node_data l = (node_data (ev_lists ?ob x))(?n := \<lparr>blk_event = k, blk_cb = cb\<rparr>)"
    using w1(5) ns by (auto simp: l_def list_at_def Let_def linked_def)
  define l2 where "l2 = l\<lparr>node_next := ((node_next l)(?n := node_next l x))(x := Some ?n)\<rparr>"
  have add: "lf_list_add 0 l ?n = Some l2"
    using lf_list_add_eq [of ?n l ns 0] l(1,2) ns by (simp add: l2_def)
  have l2: "linked l2 (?n # ns)" "head_node l2 = x" "node_size l2 = node_size l" "node_data l2 = node_data l"
    using linked_add [of l ns ?n] l(1,2) ns by (auto simp: l2_def linked_def simp del: ring.simps fun_upd_apply)
  define w' where "w' = w1\<lparr>ev_objs := (ev_objs w1)(e := ?ob\<lparr>ev_lists := (ev_lists ?ob)(x := l2)\<rparr>), ev_fresh := Suc ?n\<rparr>"
  have reg: "event_register e k cb w = Some w'"
    using w1(1) add by (simp add: event_register_def Let_def w'_def l_def)
  have at: "list_at w' e x (?n # ns) (cb # R e k)"
  proof -
    have "map (blk_cb \<circ> node_data l) ns = map (blk_cb \<circ> node_data (ev_lists ?ob x)) ns" using ns(1) by (auto simp: l(4))
    also have "\<dots> = R e k" using w1(5) by (simp add: list_at_def Let_def)
    finally have "map (blk_cb \<circ> node_data l2) ns = R e k" by (simp only: l2(4))
    moreover have "blk_cb (node_data l2 ?n) = cb" by (simp add: l2(4) l(4))
    moreover have "\<forall>n \<in> set (?n # ns). sizeof_block w1 \<le> node_size l2 n \<and> n < Suc ?n"
      using w1(5) by (auto simp: l2(3) l(3) list_at_def Let_def)
    moreover have "ev_lists (ev_objs w' e) x = l2" "sizeof_block w' = sizeof_block w1" "ev_fresh w' = Suc ?n"
      by (simp_all add: w'_def)
    ultimately show ?thesis using l2(1,2) by (simp add: list_at_def del: ring.simps)
  qed
  have other: "list_at w' d y ms cbs" if "list_at w1 d y ms cbs" "(d, y) \<noteq> (e, x)" for d y ms cbs
    using that by (auto simp: list_at_def w'_def Let_def)
  have "registry_ok w' ?R"
    unfolding registry_ok_def
  proof
    fix d
    obtain xs where xs: "tree_holds (sizeof_list w1) (ev_tree (ev_objs w1 d)) xs" "distinct (map snd xs)"
      "\<And>k. k \<notin> snd ` set xs \<Longrightarrow> R d k = []"
      "\<And>x k. (x, k) \<in> set xs \<Longrightarrow> small_id k \<and> x < ?n \<and> (\<exists>ns. list_at w1 d x ns (R d k))"
      using w1(2) unfolding registry_ok_def by blast
    show "\<exists>xs. tree_holds (sizeof_list w') (ev_tree (ev_objs w' d)) xs \<and> distinct (map snd xs) \<and>
        (\<forall>k. k \<notin> snd ` set xs \<longrightarrow> ?R d k = []) \<and>
        (\<forall>x k. (x, k) \<in> set xs \<longrightarrow> small_id k \<and> x < ev_fresh w' \<and> (\<exists>ns. list_at w' d x ns (?R d k)))"
    proof (intro exI [of _ xs] conjI allI impI)
      show "tree_holds (sizeof_list w') (ev_tree (ev_objs w' d)) xs" using xs(1) by (cases "d = e") (simp_all add: w'_def)
      have mem: "(x, k) \<in> set xs" if "d = e"
        using that w1(6) xs(1) tree_holds_unique unfolding node_of_def by blast
      show "?R d j = []" if "j \<notin> snd ` set xs" for j using that xs(3) mem by force
      fix y j
      assume y: "(y, j) \<in> set xs"
      then show "small_id j" "y < ev_fresh w'" using xs(4) [of y j] by (simp_all add: w'_def)
      show "\<exists>ns. list_at w' d y ns (?R d j)"
      proof (cases "d = e \<and> j = k")
        case True
        then have "y = x" using y mem inj_onD [of snd "set xs" "(y, k)" "(x, k)"] xs(2) by (simp add: distinct_map)
        then show ?thesis using at True by auto
      next
        case False
        then have "(d, y) \<noteq> (e, x)"
          using y mem tree_holds_distinct [OF xs(1)] by (metis eq_key_imp_eq_value Pair_inject)
        then show ?thesis using other xs(4) [OF y] False by fastforce
      qed
    qed (rule xs(2))
  qed
  then show ?thesis using reg w1(3) by (intro exI [of _ w']) (simp add: w'_def)
qed

section \<open>Activation\<close>

text \<open>What an activation delivers, following bindings at most \<open>n\<close> deep.\<close>

fun deliver :: "registry \<Rightarrow> nat \<Rightarrow> nat \<Rightarrow> u32 \<Rightarrow> bool \<Rightarrow> (nat \<times> bool \<times> u32) list" where
  "deliver R 0 e k in_isr = []"
| "deliver R (Suc n) e k in_isr = concat (map (\<lambda>cb. case cb of User u \<Rightarrow> [(u, in_isr, k)]
     | Bind_To target k2 \<Rightarrow> deliver R n target k2 in_isr) (R e k))"

definition deliver_to :: "registry \<Rightarrow> nat \<Rightarrow> bool \<Rightarrow> u32 \<Rightarrow> callback list \<Rightarrow> (nat \<times> bool \<times> u32) list" where
  "deliver_to R n in_isr k cbs = concat (map (\<lambda>cb. case cb of User u \<Rightarrow> [(u, in_isr, k)]
     | Bind_To target k2 \<Rightarrow> deliver R n target k2 in_isr) cbs)"

lemma deliver_to_simps [simp]:
  "deliver_to R n in_isr k [] = []"
  "deliver_to R n in_isr k (User u # cbs) = (u, in_isr, k) # deliver_to R n in_isr k cbs"
  "deliver_to R n in_isr k (Bind_To target k2 # cbs) = deliver R n target k2 in_isr @ deliver_to R n in_isr k cbs"
  "deliver_to R n in_isr k (R e k) = deliver R (Suc n) e k in_isr"
  by (simp_all add: deliver_to_def)

text \<open>The callbacks of the nodes \<open>ns\<close>.\<close>

definition cbs_at :: "ev_world \<Rightarrow> nat \<Rightarrow> nat \<Rightarrow> nat list \<Rightarrow> callback list" where
  "cbs_at w e x ns = map (blk_cb \<circ> node_data (ev_lists (ev_objs w e) x)) ns"

lemma cbs_at_simps [simp]:
  "cbs_at w e x [] = []"
  "cbs_at w e x (p # ns) = blk_cb (node_data (ev_lists (ev_objs w e) x) p) # cbs_at w e x ns"
  "cbs_at (w\<lparr>ev_trace := t\<rparr>) e x ns = cbs_at w e x ns"
  by (simp_all add: cbs_at_def)

lemma cbs_at_list: "list_at w e x ns cbs \<Longrightarrow> cbs_at w e x ns = cbs"
  by (simp add: cbs_at_def list_at_def Let_def)

lemma cbs_at_grown: "grown w w' \<Longrightarrow> x < ev_fresh w \<Longrightarrow> cbs_at w' e x ns = cbs_at w e x ns"
  by (simp add: cbs_at_def grown_def)

text \<open>No cycles: every binding leads to a lower rank.\<close>

definition bindings_ok :: "registry \<Rightarrow> (nat \<Rightarrow> u32 \<Rightarrow> nat) \<Rightarrow> bool" where
  "bindings_ok R rank \<longleftrightarrow> (\<forall>e k target k2. Bind_To target k2 \<in> set (R e k) \<longrightarrow> rank target k2 < rank e k \<and> small_id k2)"

lemma list_at_step:
  assumes "list_at w e x (ms @ p # ns) cbs"
  shows "node_next (ev_lists (ev_objs w e) x) p = Some (first_node ns x)" "p \<noteq> x"
    "sizeof_block w \<le> node_size (ev_lists (ev_objs w e) x) p" "p < ev_fresh w"
    "blk_cb (node_data (ev_lists (ev_objs w e) x) p) \<in> set cbs"
proof -
  let ?l = "ev_lists (ev_objs w e) x"
  have l: "linked ?l (ms @ p # ns)" "head_node ?l = x" "map (blk_cb \<circ> node_data ?l) (ms @ p # ns) = cbs"
    using assms by (simp_all add: list_at_def Let_def)
  then have "ring (node_next ?l) p ns x"
    using ring_Cons_split [of "node_next ?l" x ms p ns x] by (simp add: linked_def)
  then show "node_next ?l p = Some (first_node ns x)" using ring_start by (simp add: first_node_def)
  show "p \<noteq> x" "sizeof_block w \<le> node_size ?l p" "p < ev_fresh w"
    using assms l by (auto simp: list_at_def Let_def linked_def)
  show "blk_cb (node_data ?l p) \<in> set cbs" using l(3) by force
qed

lemma list_at_first:
  "list_at w e x ns cbs \<Longrightarrow> node_next (ev_lists (ev_objs w e) x) x = Some (first_node ns x)"
  by (auto simp: list_at_def Let_def linked_def first_node_def dest: ring_start)

lemma run_callbacks_correct:
  assumes "bindings_ok R rank"
  shows "rank e k \<le> n \<Longrightarrow> registry_ok w R \<Longrightarrow> x < ev_fresh w \<Longrightarrow> list_at w e x (ms @ ns) (R e k) \<Longrightarrow>
    \<exists>w'. run_callbacks e x (Some (first_node ns x)) in_isr k w = Some w' \<and> registry_ok w' R \<and> grown w w' \<and>
      ev_trace w' = ev_trace w @ deliver_to R n in_isr k (cbs_at w e x ns)"
proof (induction n arbitrary: e k w x ms ns rule: less_induct)
  case (less n)
  note outer = less.IH
  show ?case using less.prems
  proof (induction ns arbitrary: w ms)
    case Nil
    then have "head_node (ev_lists (ev_objs w e) x) = x" by (simp add: list_at_def Let_def)
    then show ?case using Nil by (subst run_callbacks.simps) (simp add: first_node_def)
  next
    case (Cons p ns)
    let ?l = "ev_lists (ev_objs w e) x"
    note st = list_at_step [OF Cons.prems(4)]
    have at: "list_at w e x ((ms @ [p]) @ ns) (R e k)" using Cons.prems(4) by simp
    have hd: "head_node ?l = x" using at by (simp add: list_at_def Let_def)
    show ?case
    proof (cases "blk_cb (node_data ?l p)")
      case (User u)
      let ?w = "w\<lparr>ev_trace := ev_trace w @ [(u, in_isr, k)]\<rparr>"
      have at2: "list_at ?w e x ((ms @ [p]) @ ns) (R e k)" using at by (simp add: list_at_def)
      obtain w' where "run_callbacks e x (Some (first_node ns x)) in_isr k ?w = Some w'" "registry_ok w' R" "grown ?w w'"
        "ev_trace w' = ev_trace ?w @ deliver_to R n in_isr k (cbs_at w e x ns)"
        using Cons.IH [of ?w "ms @ [p]"] Cons.prems(1-3) at2 by auto
      moreover from this have "grown w w'" by (simp add: grown_def)
      ultimately show ?thesis using st(1-3) hd User
        by (subst run_callbacks.simps) (simp add: first_node_def)
    next
      case (Bind_To t j)
      then have rk: "rank t j < rank e k" "small_id j" using assms st(5) by (auto simp: bindings_ok_def)
      obtain w1 y ys where w1: "event_get_list t j w = Some (w1, y)" "registry_ok w1 R" "grown w w1"
        "ev_trace w1 = ev_trace w" "y < ev_fresh w1" "list_at w1 t y ys (R t j)"
        using event_get_list_correct [OF Cons.prems(2) rk(2)] by metis
      obtain m where m: "n = Suc m" "rank t j \<le> m" using rk(1) Cons.prems(1) by (cases n) auto
      have hd1: "head_node (ev_lists (ev_objs w1 t) y) = y"
        "cbs_at w1 t y ys = R t j"
        using w1(6) cbs_at_list by (simp_all add: list_at_def Let_def)
      have "list_at w1 t y ([] @ ys) (R t j)" using w1(6) by simp
      then obtain w2 where w2: "run_callbacks t y (Some (first_node ys y)) in_isr j w1 = Some w2" "registry_ok w2 R"
        "grown w1 w2" "ev_trace w2 = ev_trace w1 @ deliver R n t j in_isr"
        using outer [of m t j w1 y "[]" ys] m w1(2,5) hd1(2) by auto
      have g: "grown w w2" using grown_trans w1(3) w2(3) by blast
      then have l2: "ev_lists (ev_objs w2 e) x = ?l" "x < ev_fresh w2" "cbs_at w2 e x ns = cbs_at w e x ns"
        using Cons.prems(3) cbs_at_grown by (auto simp: grown_def)
      obtain w' where w': "run_callbacks e x (Some (first_node ns x)) in_isr k w2 = Some w'" "registry_ok w' R" "grown w2 w'"
        "ev_trace w' = ev_trace w2 @ deliver_to R n in_isr k (cbs_at w e x ns)"
        using Cons.IH [of w2 "ms @ [p]"] Cons.prems(1) w2(2) l2 list_at_grown [OF at Cons.prems(3) g] by auto
      have "run_callbacks e x (Some (first_node (p # ns) x)) in_isr k w = Some w'"
        using st(1-3) hd Bind_To w1(1) w2(1) w'(1) l2(1) hd1(1) list_at_first [OF w1(6)]
        by (subst run_callbacks.simps) (simp add: first_node_def Let_def)
      then show ?thesis using w'(2-4) w2(4) w1(4) grown_trans [OF g] Bind_To by simp
    qed
  qed
qed

lemma event_active_correct:
  assumes "registry_ok w R" "small_id k" "bindings_ok R rank"
  shows "\<exists>w'. event_active e k w = Some w' \<and> registry_ok w' R \<and>
    ev_trace w' = ev_trace w @ deliver R (Suc (rank e k)) e k False"
proof -
  obtain r where r: "rb_search event_compare (sizeof_list w) k (ev_tree (ev_objs w e)) = Some (ev_tree (ev_objs w e), r)"
    "case r of None \<Rightarrow> R e k = [] | Some x \<Rightarrow> x < ev_fresh w \<and> node_of w e k x \<and> (\<exists>ns. list_at w e x ns (R e k))"
    using registry_search [OF assms(1,2)] by blast
  show ?thesis
  proof (cases r)
    case None
    then show ?thesis using r assms(1) by (simp add: event_active_def)
  next
    case (Some x)
    then obtain ns where ns: "x < ev_fresh w" "list_at w e x ns (R e k)" using r(2) by auto
    have h: "head_node (ev_lists (ev_objs w e) x) = x" "cbs_at w e x ns = R e k"
      using ns(2) cbs_at_list by (simp_all add: list_at_def Let_def)
    from run_callbacks_correct [OF assms(3) order_refl assms(1) ns(1), where ms = "[]" and ns = ns and e = e and k = k and in_isr = False] ns(2)
    obtain w' where "run_callbacks e x (Some (first_node ns x)) False k w = Some w'" "registry_ok w' R"
      "ev_trace w' = ev_trace w @ deliver R (Suc (rank e k)) e k False"
      unfolding h(2) by auto
    then show ?thesis using r(1) Some h(1) list_at_first [OF ns(2)] by (simp add: event_active_def Let_def)
  qed
qed

lemma event_active_from_callback_correct:
  assumes "registry_ok w R" "small_id k" "bindings_ok R rank"
  shows "\<exists>w'. event_get_list e k w \<bind> (\<lambda>(w1, x). event_active_from_callback e (Some x) k in_isr w1) = Some w' \<and>
    registry_ok w' R \<and> ev_trace w' = ev_trace w @ deliver R (Suc (rank e k)) e k in_isr"
proof -
  obtain w1 x ns where w1: "event_get_list e k w = Some (w1, x)" "registry_ok w1 R" "ev_trace w1 = ev_trace w"
    "x < ev_fresh w1" "list_at w1 e x ns (R e k)"
    using event_get_list_correct [OF assms(1,2)] by metis
  have h: "head_node (ev_lists (ev_objs w1 e) x) = x" "cbs_at w1 e x ns = R e k"
    using w1(5) cbs_at_list by (simp_all add: list_at_def Let_def)
  from run_callbacks_correct [OF assms(3) order_refl w1(2,4), where ms = "[]" and ns = ns and e = e and k = k
      and in_isr = in_isr] w1(5)
  obtain w' where "run_callbacks e x (Some (first_node ns x)) in_isr k w1 = Some w'" "registry_ok w' R"
    "ev_trace w' = ev_trace w1 @ deliver R (Suc (rank e k)) e k in_isr"
    unfolding h(2) by auto
  then show ?thesis using w1(1,3) h(1) list_at_first [OF w1(5)]
    by (simp add: event_active_from_callback_def Let_def)
qed

section \<open>Properties\<close>

datatype event_op = Register_Op nat u32 callback | Bind_Op nat nat u32 u32 | Active_Op nat u32 | From_Callback_Op nat u32 bool

fun run_event_op :: "event_op \<Rightarrow> ev_world \<Rightarrow> ev_world option" where
  "run_event_op (Register_Op e k cb) w = event_register e k cb w"
| "run_event_op (Bind_Op e sources k k2) w = event_bind e sources k k2 w"
| "run_event_op (Active_Op e k) w = event_active e k w"
| "run_event_op (From_Callback_Op e k in_isr) w = event_get_list e k w \<bind>
     (\<lambda>(w1, x). event_active_from_callback e (Some x) k in_isr w1)"

fun event_ops :: "event_op list \<Rightarrow> ev_world \<Rightarrow> ev_world option" where
  "event_ops [] w = Some w"
| "event_ops (c # cs) w = run_event_op c w \<bind> event_ops cs"

fun registered :: "event_op \<Rightarrow> registry \<Rightarrow> registry" where
  "registered (Register_Op e k cb) R = R(e := (R e)(k := cb # R e k))"
| "registered (Bind_Op e sources k k2) R = R(sources := (R sources)(k := Bind_To e k2 # R sources k))"
| "registered _ R = R"

fun delivered :: "(nat \<Rightarrow> u32 \<Rightarrow> nat) \<Rightarrow> registry \<Rightarrow> event_op list \<Rightarrow> (nat \<times> bool \<times> u32) list" where
  "delivered rank R [] = []"
| "delivered rank R (c # cs) = (case c of Active_Op e k \<Rightarrow> deliver R (Suc (rank e k)) e k False
     | From_Callback_Op e k in_isr \<Rightarrow> deliver R (Suc (rank e k)) e k in_isr | _ \<Rightarrow> []) @ delivered rank (registered c R) cs"

fun op_allowed :: "(nat \<Rightarrow> u32 \<Rightarrow> nat) \<Rightarrow> event_op \<Rightarrow> bool" where
  "op_allowed rank (Register_Op e k cb) \<longleftrightarrow> small_id k \<and>
     (case cb of User u \<Rightarrow> True | Bind_To e2 k2 \<Rightarrow> small_id k2 \<and> rank e2 k2 < rank e k)"
| "op_allowed rank (Bind_Op e sources k k2) \<longleftrightarrow> small_id k \<and> small_id k2 \<and> rank e k2 < rank sources k"
| "op_allowed rank (Active_Op e k) \<longleftrightarrow> small_id k"
| "op_allowed rank (From_Callback_Op e k in_isr) \<longleftrightarrow> small_id k"

lemma bindings_ok_registered: "bindings_ok R rank \<Longrightarrow> op_allowed rank c \<Longrightarrow> bindings_ok (registered c R) rank"
  by (cases c) (auto simp: bindings_ok_def split: callback.splits)

lemma event_op_correct:
  assumes "registry_ok w R" "bindings_ok R rank" "op_allowed rank c"
  shows "\<exists>w'. run_event_op c w = Some w' \<and> registry_ok w' (registered c R) \<and>
    ev_trace w' = ev_trace w @ delivered rank R [c]"
proof (cases c)
  case (Register_Op e k cb)
  then show ?thesis using event_register_correct [OF assms(1), of k e cb] assms(3) by auto
next
  case (Bind_Op e sources k k2)
  then show ?thesis
    using event_register_correct [OF assms(1), of k sources "Bind_To e k2"] assms(3) by (auto simp: event_bind_def)
next
  case (Active_Op e k)
  then show ?thesis using event_active_correct [OF assms(1) _ assms(2), of k e] assms(3) by simp
next
  case (From_Callback_Op e k in_isr)
  then show ?thesis using event_active_from_callback_correct [OF assms(1) _ assms(2), of k e in_isr] assms(3) by simp
qed

lemma event_ops_correct:
  "registry_ok w R \<Longrightarrow> bindings_ok R rank \<Longrightarrow> list_all (op_allowed rank) cs \<Longrightarrow>
    \<exists>w'. event_ops cs w = Some w' \<and> ev_trace w' = ev_trace w @ delivered rank R cs"
proof (induction cs arbitrary: w R)
  case (Cons c cs)
  then obtain w1 where w1: "run_event_op c w = Some w1" "registry_ok w1 (registered c R)"
    "ev_trace w1 = ev_trace w @ delivered rank R [c]"
    using event_op_correct [of w R rank c] by auto
  then show ?case
    using Cons.IH [OF w1(2)] Cons.prems bindings_ok_registered [of R rank c] by auto
qed simp

lemma registry_ok_new:
  assumes "\<forall>e. \<exists>t. ev_tree (ev_objs w e) = rb_new t"
  shows "registry_ok w (\<lambda>_ _. [])"
  unfolding registry_ok_def
proof
  fix e
  obtain t where "ev_tree (ev_objs w e) = rb_new t" using assms by blast
  then have "tree_holds (sizeof_list w) (ev_tree (ev_objs w e)) []" by (simp add: rb_new_holds)
  then show "\<exists>xs. tree_holds (sizeof_list w) (ev_tree (ev_objs w e)) xs \<and> distinct (map snd xs) \<and>
     (\<forall>k. k \<notin> snd ` set xs \<longrightarrow> [] = []) \<and>
     (\<forall>x k. (x, k) \<in> set xs \<longrightarrow> small_id k \<and> x < ev_fresh w \<and> (\<exists>ns. list_at w e x ns []))"
    by (intro exI [of _ "[]"]) simp
qed

text \<open>\<open>C37:\<close> With event ids below \<open>2 ^ 31\<close> and no cycle of bindings (every \<open>Bind\<close> leads to a lower
  rank), any sequence of registrations, bindings and activations on freshly constructed event objects
  returns, and each activation calls exactly the callbacks registered under that id so far, the latest
  first, follows bindings in place, and passes on whether it runs in an interrupt.\<close>

theorem events_reach_registered_callbacks:
  assumes "\<forall>e. \<exists>t. ev_tree (ev_objs w e) = rb_new t" "ev_trace w = []" "list_all (op_allowed rank) cs"
  shows "\<exists>w'. event_ops cs w = Some w' \<and> ev_trace w' = delivered rank (\<lambda>_ _. []) cs"
  using event_ops_correct [OF registry_ok_new [OF assms(1)] _ assms(3)] assms(2) by (simp add: bindings_ok_def)

definition empty_world :: ev_world where
  "empty_world = \<lparr>ev_objs = (\<lambda>_. \<lparr>ev_tree = rb_new \<lparr>rb_root = None, rb_key = (\<lambda>_. 0), rb_color = (\<lambda>_. RED),
       rb_left = (\<lambda>_. None), rb_right = (\<lambda>_. None), rb_parent = (\<lambda>_. None), rb_size = (\<lambda>_. 0), rb_mutex = True\<rparr>,
       ev_lists = (\<lambda>_. \<lparr>node_next = (\<lambda>_. None), node_size = (\<lambda>_. 0), node_data = (\<lambda>_. \<lparr>blk_event = 0, blk_cb = User 0\<rparr>),
         head_node = 0\<rparr>)\<rparr>),
     ev_fresh = 1, ev_trace = [], sizeof_list = 3, sizeof_block = 2\<rparr>"

theorem events_reach_registered_callbacks_witness:
  "\<exists>w'. event_ops [Register_Op 0 5 (User 7), Bind_Op 0 1 3 5, Register_Op 1 3 (User 8), Register_Op 0 5 (User 9),
      Active_Op 1 3, Active_Op 1 4, From_Callback_Op 0 5 True] empty_world = Some w' \<and>
    ev_trace w' = [(8, False, 3), (9, False, 5), (7, False, 5), (9, True, 5), (7, True, 5)]"
  using events_reach_registered_callbacks [of empty_world "\<lambda>e k. e" "[Register_Op 0 5 (User 7), Bind_Op 0 1 3 5,
      Register_Op 1 3 (User 8), Register_Op 0 5 (User 9), Active_Op 1 3, Active_Op 1 4, From_Callback_Op 0 5 True]"]
  by (auto simp: empty_world_def small_id_def)

text \<open>With ids on both sides of \<open>2 ^ 31\<close> the wrapped difference is not an order, and a registered callback
  can be lost: after the insertion of eight ids the search for the third finds nothing.\<close>

lemma event_compare_not_transitive:
  "event_compare 0x80000000 0 < 0" "event_compare 0 1 < 0" "\<not> event_compare 0x80000000 1 < 0"
  by (simp_all add: event_compare_def)

definition blank_events :: "u32 rbt" where
  "blank_events = \<lparr>rb_root = None, rb_key = (\<lambda>_. 0), rb_color = (\<lambda>_. RED), rb_left = (\<lambda>_. None),
     rb_right = (\<lambda>_. None), rb_parent = (\<lambda>_. None), rb_size = (\<lambda>_. 0), rb_mutex = False\<rparr>"

lemmas insertion_steps = insert_new_def rb_node_new_def rb_insert_def rbtree_insert_def insert_descend.simps
  insert_fixup.simps set_color_def is_red_def left_rotate_def right_rotate_def Let_def mutex_lock_def

lemma inserted_event_not_found:
  "insert_new event_compare 3 1 0x60000000 blank_events \<bind>
      insert_new event_compare 3 2 0x40000000 \<bind>
      insert_new event_compare 3 3 0xc0000000 \<bind>
      insert_new event_compare 3 4 0x30000000 \<bind>
      insert_new event_compare 3 5 0x20000000 \<bind>
      insert_new event_compare 3 6 0x10000000 \<bind>
      insert_new event_compare 3 7 0xf0000000 \<bind>
      insert_new event_compare 3 8 0xe0000000 \<bind>
      (\<lambda>s. map_option snd (rb_search event_compare 3 0xc0000000 s)) = Some None"
  by (simp add: insertion_steps blank_events_def event_compare_def rb_search_def search_from.simps)

end
