(* ===== verification/Callbacks.thy ===== *)
theory Callbacks
  imports Prelude
begin

text \<open>
  Callback objects of src/src/core/libxr_cb.hpp: the empty callback, plain callback blocks and
  \<open>GuardedCallbackBlock\<close>, which turns calls from inside the callback into replays after it. The user
  function is a parameter: in its \<open>n\<close>-th call it gets its arguments and makes some calls of the same
  object. Runs of the function are recorded in a trace with their depth of nesting.
\<close>

section \<open>Data and operations\<close>

record 'a guarded =
  cb_running :: bool
  cb_pending :: bool
  pending_args :: 'a
  cb_trace :: "(nat \<times> bool \<times> 'a) list"

text \<open>A call of the object: whether it comes from an interrupt, and the arguments. The user function maps
  the number of the call and its arguments to the calls it makes.\<close>

type_synonym 'a reentry = "nat \<Rightarrow> 'a \<Rightarrow> (bool \<times> 'a) list"

text \<open>\<open>CallbackBlock::InvokeThunk\<close>: \<open>Invoke\<close> returns for a null function (\<open>None\<close>) and runs any other at
  once; the fuel bounds the depth.\<close>

fun plain_run :: "nat \<Rightarrow> 'a reentry option \<Rightarrow> nat \<Rightarrow> bool \<Rightarrow> 'a \<Rightarrow> 'a guarded \<Rightarrow> 'a guarded option"
and plain_runs :: "nat \<Rightarrow> 'a reentry option \<Rightarrow> nat \<Rightarrow> (bool \<times> 'a) list \<Rightarrow> 'a guarded \<Rightarrow> 'a guarded option" where
  "plain_run 0 user depth in_isr args s = None"
| "plain_run (Suc fuel) None depth in_isr args s = Some s"
| "plain_run (Suc fuel) (Some user) depth in_isr args s =
     plain_runs fuel (Some user) (Suc depth) (user (length (cb_trace s)) args)
       (s\<lparr>cb_trace := cb_trace s @ [(depth, in_isr, args)]\<rparr>)"
| "plain_runs fuel user depth [] s = Some s"
| "plain_runs fuel user depth ((in_isr, args) # cs) s =
     Option.bind (plain_run fuel user depth in_isr args s) (plain_runs fuel user depth cs)"

text \<open>\<open>GuardedCallbackBlock::InvokeThunk\<close>. A call while the function runs only leaves its arguments;
  the first call runs the function again as long as arguments were left.\<close>

fun guarded_run :: "nat \<Rightarrow> 'a reentry option \<Rightarrow> nat \<Rightarrow> bool \<Rightarrow> 'a \<Rightarrow> 'a guarded \<Rightarrow> 'a guarded option"
and guarded_loop :: "nat \<Rightarrow> 'a reentry option \<Rightarrow> nat \<Rightarrow> bool \<Rightarrow> 'a \<Rightarrow> 'a guarded \<Rightarrow> 'a guarded option"
and guarded_runs :: "nat \<Rightarrow> 'a reentry option \<Rightarrow> nat \<Rightarrow> (bool \<times> 'a) list \<Rightarrow> 'a guarded \<Rightarrow> 'a guarded option" where
  "guarded_run 0 user depth in_isr args s = None"
| "guarded_run (Suc fuel) user depth in_isr args s =
     (if \<not> cb_running s
      then map_option (\<lambda>s1. s1\<lparr>cb_running := False\<rparr>) (guarded_loop fuel user depth in_isr args (s\<lparr>cb_running := True\<rparr>))
      else Some (s\<lparr>pending_args := args, cb_pending := True\<rparr>))"
| "guarded_loop 0 user depth in_isr cur_args s = None"
| "guarded_loop (Suc fuel) user depth in_isr cur_args s =
     Option.bind
       (case user of
          None \<Rightarrow> Some (s\<lparr>cb_pending := False\<rparr>)
        | Some f \<Rightarrow> guarded_runs fuel user (Suc depth) (f (length (cb_trace s)) cur_args)
            (s\<lparr>cb_pending := False, cb_trace := cb_trace s @ [(depth, in_isr, cur_args)]\<rparr>))
       (\<lambda>s1. if cb_pending s1 then guarded_loop fuel user depth in_isr (pending_args s1) s1 else Some s1)"
| "guarded_runs fuel user depth [] s = Some s"
| "guarded_runs fuel user depth ((in_isr, args) # cs) s =
     Option.bind (guarded_run fuel user depth in_isr args s) (guarded_runs fuel user depth cs)"

text \<open>\<open>Callback::Run\<close> dispatches through the block; the empty block does nothing.\<close>

datatype cb_block = Empty_Block | Plain_Block | Guarded_Block

fun callback_run :: "cb_block \<Rightarrow> nat \<Rightarrow> 'a reentry option \<Rightarrow> bool \<Rightarrow> 'a \<Rightarrow> 'a guarded \<Rightarrow> 'a guarded option" where
  "callback_run Empty_Block fuel user in_isr args s = Some s"
| "callback_run Plain_Block fuel user in_isr args s = plain_run fuel user 0 in_isr args s"
| "callback_run Guarded_Block fuel user in_isr args s = guarded_run fuel user 0 in_isr args s"

section \<open>Serialization\<close>

text \<open>The arguments with which the function runs: first those of the call, then the latest that the run
  before left, at most \<open>n\<close> in all; \<open>None\<close> when the user function never stops calling.\<close>

fun replays :: "nat \<Rightarrow> 'a reentry \<Rightarrow> nat \<Rightarrow> 'a \<Rightarrow> 'a list option" where
  "replays 0 user i args = None"
| "replays (Suc n) user i args = (case user i args of [] \<Rightarrow> Some [args]
     | c # cs \<Rightarrow> map_option ((#) args) (replays n user (Suc i) (snd (last (c # cs)))))"

lemma reentrant_runs:
  "cb_running s \<Longrightarrow> guarded_runs (Suc fuel) user depth cs s =
     Some (if cs = [] then s else s\<lparr>pending_args := snd (last cs), cb_pending := True\<rparr>)"
proof (induction cs arbitrary: s)
  case (Cons c cs)
  then show ?case by (cases c) (cases "cs = []"; simp)
qed simp

lemma guarded_loop_replays:
  "replays n user (length (cb_trace s)) args = Some as \<Longrightarrow> cb_running s \<Longrightarrow> n + 1 \<le> fuel \<Longrightarrow>
    \<exists>s'. guarded_loop fuel (Some user) depth in_isr args s = Some s' \<and> cb_running s' \<and> \<not> cb_pending s' \<and>
      cb_trace s' = cb_trace s @ map (\<lambda>a. (depth, in_isr, a)) as"
proof (induction n arbitrary: s args as fuel)
  case (Suc n)
  obtain f where f: "fuel = Suc (Suc f)" using Suc.prems(3) by (cases fuel; cases "fuel - 1") auto
  let ?s = "s\<lparr>cb_pending := False, cb_trace := cb_trace s @ [(depth, in_isr, args)]\<rparr>"
  show ?case
  proof (cases "user (length (cb_trace s)) args")
    case Nil
    then show ?thesis using Suc.prems f by (auto simp: reentrant_runs)
  next
    case (Cons c cs)
    let ?t = "?s\<lparr>pending_args := snd (last (c # cs)), cb_pending := True\<rparr>"
    obtain bs where bs: "replays n user (length (cb_trace ?t)) (snd (last (c # cs))) = Some bs" "as = args # bs"
      using Suc.prems(1) Cons by auto
    have "cb_running ?t" using Suc.prems(2) by simp
    from Suc.IH [OF bs(1) this, of "Suc f"] Suc.prems(3) f obtain s' where
      "guarded_loop (Suc f) (Some user) depth in_isr (snd (last (c # cs))) ?t = Some s'" "cb_running s'" "\<not> cb_pending s'"
      "cb_trace s' = cb_trace ?t @ map (\<lambda>a. (depth, in_isr, a)) bs" by auto
    moreover have "guarded_loop fuel (Some user) depth in_isr args s = guarded_loop (Suc f) (Some user) depth in_isr (snd (last (c # cs))) ?t"
      using Suc.prems(2) Cons f reentrant_runs [of ?s f "Some user" "Suc depth" "c # cs"] by (simp del: guarded_runs.simps)
    ultimately show ?thesis using bs(2) by simp
  qed
qed simp

text \<open>\<open>C39:\<close> A guarded callback never nests: a call from outside runs the user function first with its
  own arguments, then once for the latest arguments left by each run, one run after the other at the same
  depth, and returns idle when a run leaves none. Of several calls from inside one run only the last is
  replayed, and all replays carry the interrupt mark of the outer call.\<close>

theorem guarded_callback_serializes:
  assumes "\<not> cb_running s" "replays n user (length (cb_trace s)) args = Some as"
  shows "\<exists>s'. callback_run Guarded_Block (n + 2) (Some user) in_isr args s = Some s' \<and> \<not> cb_running s' \<and> \<not> cb_pending s' \<and>
    cb_trace s' = cb_trace s @ map (\<lambda>a. (0, in_isr, a)) as"
proof -
  have "replays n user (length (cb_trace (s\<lparr>cb_running := True\<rparr>))) args = Some as" using assms(2) by simp
  from guarded_loop_replays [OF this, of "n + 1" 0 in_isr] show ?thesis using assms(1) by auto
qed

text \<open>A user function that in the first call calls the object twice, and once in the second.\<close>

theorem guarded_callback_serializes_witness:
  "\<exists>s'. callback_run Guarded_Block 5
      (Some (\<lambda>i a. if i = 0 then [(False, 10), (True, 20)] else if i = 1 then [(False, a + 1)] else []))
      False (5::nat) \<lparr>cb_running = False, cb_pending = False, pending_args = 0, cb_trace = []\<rparr> = Some s' \<and>
    cb_trace s' = [(0, False, 5), (0, False, 20), (0, False, 21)]"
proof -
  let ?user = "\<lambda>i a. if i = 0 then [(False, 10), (True, 20)] else if i = 1 then [(False, a + 1)] else []"
  let ?s = "\<lparr>cb_running = False, cb_pending = False, pending_args = 0, cb_trace = []\<rparr> :: nat guarded"
  have "replays 3 ?user (length (cb_trace ?s)) 5 = Some [5, 20, 21]" by (simp add: numeral_3_eq_3)
  from guarded_callback_serializes [OF _ this, of False] show ?thesis by (simp del: callback_run.simps) blast
qed

text \<open>A block without a function leaves no trace.\<close>

lemma null_callback_does_nothing:
  "callback_run Plain_Block (Suc n) None in_isr args s = Some s"
  "\<not> cb_running s \<Longrightarrow> callback_run Guarded_Block (Suc (Suc n)) None in_isr args s = Some (s\<lparr>cb_running := False, cb_pending := False\<rparr>)"
  by simp_all

text \<open>The plain callback runs the inner calls inside the outer one.\<close>

lemma plain_callback_nests:
  "callback_run Plain_Block 3 (Some (\<lambda>i a. if i = 0 then [(True, 20)] else [])) False (5::nat)
      \<lparr>cb_running = False, cb_pending = False, pending_args = 0, cb_trace = []\<rparr> =
    Some \<lparr>cb_running = False, cb_pending = False, pending_args = 0, cb_trace = [(0, False, 5), (1, True, 20)]\<rparr>"
  by (simp add: numeral_3_eq_3)

end
