(* ===== verification/Flags.thy ===== *)
theory Flags
  imports Prelude
begin

text \<open>
  \<open>Flag::Atomic\<close>, \<open>Flag::Plain\<close> and \<open>Flag::ScopedRestore\<close> of src/src/utils/flag.hpp. Both flags
  meet one contract, the locale \<open>flag\<close>, on which the scoped restorer rests. Each member function of the
  atomic flag is one atomic access, so a run of several threads is a sequence of calls.
\<close>

section \<open>The two flags\<close>

record atomic_flag = af_value :: u32

record plain_flag = pf_value :: bool

definition atomic_new :: atomic_flag where "atomic_new = \<lparr>af_value = 0\<rparr>"

definition atomic_set :: "atomic_flag \<Rightarrow> atomic_flag" where
  "atomic_set f = f\<lparr>af_value := 1\<rparr>"

definition atomic_clear :: "atomic_flag \<Rightarrow> atomic_flag" where
  "atomic_clear f = f\<lparr>af_value := 0\<rparr>"

definition atomic_is_set :: "atomic_flag \<Rightarrow> bool" where
  "atomic_is_set f = (af_value f \<noteq> 0)"

definition atomic_test_and_set :: "atomic_flag \<Rightarrow> atomic_flag \<times> bool" where
  "atomic_test_and_set f = (f\<lparr>af_value := 1\<rparr>, af_value f \<noteq> 0)"

definition atomic_test_and_clear :: "atomic_flag \<Rightarrow> atomic_flag \<times> bool" where
  "atomic_test_and_clear f = (f\<lparr>af_value := 0\<rparr>, af_value f \<noteq> 0)"

definition atomic_exchange :: "bool \<Rightarrow> atomic_flag \<Rightarrow> atomic_flag \<times> bool" where
  "atomic_exchange set_value f = (f\<lparr>af_value := if set_value then 1 else 0\<rparr>, af_value f \<noteq> 0)"

definition plain_new :: plain_flag where "plain_new = \<lparr>pf_value = False\<rparr>"

definition plain_set :: "plain_flag \<Rightarrow> plain_flag" where
  "plain_set f = f\<lparr>pf_value := True\<rparr>"

definition plain_clear :: "plain_flag \<Rightarrow> plain_flag" where
  "plain_clear f = f\<lparr>pf_value := False\<rparr>"

definition plain_is_set :: "plain_flag \<Rightarrow> bool" where
  "plain_is_set f = pf_value f"

definition plain_test_and_set :: "plain_flag \<Rightarrow> plain_flag \<times> bool" where
  "plain_test_and_set f = (let old = pf_value f in (f\<lparr>pf_value := True\<rparr>, old))"

definition plain_test_and_clear :: "plain_flag \<Rightarrow> plain_flag \<times> bool" where
  "plain_test_and_clear f = (let old = pf_value f in (f\<lparr>pf_value := False\<rparr>, old))"

definition plain_exchange :: "bool \<Rightarrow> plain_flag \<Rightarrow> plain_flag \<times> bool" where
  "plain_exchange set_value f = (let old = pf_value f in (f\<lparr>pf_value := set_value\<rparr>, old))"

section \<open>Scoped restoration\<close>

text \<open>The constructor remembers the old value, the destructor writes it back; between them runs the scope,
  which may use the flag and produce a result.\<close>

definition scoped_restore :: "(bool \<Rightarrow> 'f \<Rightarrow> 'f \<times> bool) \<Rightarrow> bool \<Rightarrow> ('f \<Rightarrow> 'f \<times> 'r) \<Rightarrow> 'f \<Rightarrow> 'f \<times> 'r" where
  "scoped_restore exchange set_value body f =
     (case exchange set_value f of (f1, prev) \<Rightarrow>
        case body f1 of (f2, r) \<Rightarrow> (fst (exchange prev f2), r))"

section \<open>The contract\<close>

datatype flag_op = Set_Flag | Clear_Flag | Is_Set | Test_And_Set | Test_And_Clear | Exchange_Flag bool

text \<open>What a call does to a boolean, and what it returns (calls without a result return \<open>False\<close>).\<close>

fun flag_spec :: "flag_op \<Rightarrow> bool \<Rightarrow> bool \<times> bool" where
  "flag_spec Set_Flag b = (True, False)"
| "flag_spec Clear_Flag b = (False, False)"
| "flag_spec Is_Set b = (b, b)"
| "flag_spec Test_And_Set b = (True, b)"
| "flag_spec Test_And_Clear b = (False, b)"
| "flag_spec (Exchange_Flag v) b = (v, b)"

fun atomic_op :: "flag_op \<Rightarrow> atomic_flag \<Rightarrow> atomic_flag \<times> bool" where
  "atomic_op Set_Flag f = (atomic_set f, False)"
| "atomic_op Clear_Flag f = (atomic_clear f, False)"
| "atomic_op Is_Set f = (f, atomic_is_set f)"
| "atomic_op Test_And_Set f = atomic_test_and_set f"
| "atomic_op Test_And_Clear f = atomic_test_and_clear f"
| "atomic_op (Exchange_Flag v) f = atomic_exchange v f"

fun plain_op :: "flag_op \<Rightarrow> plain_flag \<Rightarrow> plain_flag \<times> bool" where
  "plain_op Set_Flag f = (plain_set f, False)"
| "plain_op Clear_Flag f = (plain_clear f, False)"
| "plain_op Is_Set f = (f, plain_is_set f)"
| "plain_op Test_And_Set f = plain_test_and_set f"
| "plain_op Test_And_Clear f = plain_test_and_clear f"
| "plain_op (Exchange_Flag v) f = plain_exchange v f"

fun flag_ops :: "(flag_op \<Rightarrow> 'f \<Rightarrow> 'f \<times> bool) \<Rightarrow> flag_op list \<Rightarrow> 'f \<Rightarrow> 'f \<times> bool list" where
  "flag_ops run [] f = (f, [])"
| "flag_ops run (c # cs) f = (case run c f of (f1, r) \<Rightarrow> case flag_ops run cs f1 of (f2, rs) \<Rightarrow> (f2, r # rs))"

locale flag =
  fixes run :: "flag_op \<Rightarrow> 'f \<Rightarrow> 'f \<times> bool" and value_of :: "'f \<Rightarrow> bool"
  assumes run_law: "(case run c f of (f', r) \<Rightarrow> (value_of f', r)) = flag_spec c (value_of f)"
begin

lemma runs_law: "(case flag_ops run cs f of (f', rs) \<Rightarrow> (value_of f', rs)) = flag_ops flag_spec cs (value_of f)"
proof (induction cs arbitrary: f)
  case (Cons c cs)
  obtain f1 r where 1: "run c f = (f1, r)" by fastforce
  obtain f2 rs where 2: "flag_ops run cs f1 = (f2, rs)" by fastforce
  have "flag_spec c (value_of f) = (value_of f1, r)" using run_law [of c f] 1 by simp
  moreover have "flag_ops flag_spec cs (value_of f1) = (value_of f2, rs)" using Cons.IH [of f1] 2 by simp
  ultimately show ?case using 1 2 by simp
qed simp

lemma runs_answers: "snd (flag_ops run cs f) = snd (flag_ops flag_spec cs (value_of f))"
  using runs_law [of cs f] by (cases "flag_ops run cs f") (metis prod.case snd_conv)

lemma scoped_restore_law:
  "value_of (fst (scoped_restore (\<lambda>v. run (Exchange_Flag v)) set_value body f)) = value_of f"
  "\<exists>f1. value_of f1 = set_value \<and>
    snd (scoped_restore (\<lambda>v. run (Exchange_Flag v)) set_value body f) = snd (body f1)"
proof -
  obtain f1 prev where 1: "run (Exchange_Flag set_value) f = (f1, prev)" by fastforce
  then have v: "value_of f1 = set_value" "prev = value_of f" using run_law [of "Exchange_Flag set_value" f] by simp_all
  obtain f2 r where 2: "body f1 = (f2, r)" by fastforce
  obtain f3 p where 3: "run (Exchange_Flag prev) f2 = (f3, p)" by fastforce
  then have "value_of f3 = prev" using run_law [of "Exchange_Flag prev" f2] by simp
  then show "value_of (fst (scoped_restore (\<lambda>v. run (Exchange_Flag v)) set_value body f)) = value_of f"
    using 1 2 3 v by (simp add: scoped_restore_def)
  show "\<exists>f1. value_of f1 = set_value \<and>
      snd (scoped_restore (\<lambda>v. run (Exchange_Flag v)) set_value body f) = snd (body f1)"
    using 1 2 v by (intro exI [of _ f1]) (simp add: scoped_restore_def)
qed

end

interpretation atomic: flag atomic_op atomic_is_set
proof
  show "(case atomic_op c f of (f', r) \<Rightarrow> (atomic_is_set f', r)) = flag_spec c (atomic_is_set f)" for c f
    by (cases c) (simp_all add: atomic_set_def atomic_clear_def atomic_is_set_def atomic_test_and_set_def
      atomic_test_and_clear_def atomic_exchange_def)
qed

interpretation plain: flag plain_op plain_is_set
proof
  show "(case plain_op c f of (f', r) \<Rightarrow> (plain_is_set f', r)) = flag_spec c (plain_is_set f)" for c f
    by (cases c) (simp_all add: plain_set_def plain_clear_def plain_is_set_def plain_test_and_set_def
      plain_test_and_clear_def plain_exchange_def)
qed

section \<open>Properties\<close>

text \<open>Of the threads that call \<open>TestAndSet\<close> between two clears, in whatever order their calls take effect,
  exactly the first wins.\<close>

lemma test_and_set_rest: "flag_ops flag_spec (replicate n Test_And_Set) True = (True, replicate n True)"
  by (induction n) simp_all

text \<open>\<open>C40:\<close> The atomic and the plain flag give the same answers to every sequence of calls, a scope that
  changes a flag restores it whatever happens inside, and of any number of threads that call
  \<open>TestAndSet\<close> on a clear flag exactly one, the first, is told that it was clear.\<close>

theorem flags_agree_and_restore:
  "snd (flag_ops atomic_op cs atomic_new) = snd (flag_ops plain_op cs plain_new) \<and>
   atomic_is_set (fst (scoped_restore atomic_exchange v body f)) = atomic_is_set f \<and>
   plain_is_set (fst (scoped_restore plain_exchange v body' g)) = plain_is_set g \<and>
   snd (flag_ops atomic_op (Clear_Flag # replicate (Suc n) Test_And_Set) f) = False # False # replicate n True"
proof -
  have "atomic_is_set atomic_new = plain_is_set plain_new"
    by (simp add: atomic_is_set_def atomic_new_def plain_is_set_def plain_new_def)
  then have "snd (flag_ops atomic_op cs atomic_new) = snd (flag_ops plain_op cs plain_new)"
    by (simp add: atomic.runs_answers plain.runs_answers)
  moreover have "snd (flag_ops atomic_op (Clear_Flag # replicate (Suc n) Test_And_Set) f) = False # False # replicate n True"
    unfolding atomic.runs_answers by (simp add: test_and_set_rest)
  moreover have "(\<lambda>v. atomic_op (Exchange_Flag v)) = atomic_exchange" "(\<lambda>v. plain_op (Exchange_Flag v)) = plain_exchange"
    by (simp_all add: fun_eq_iff)
  ultimately show ?thesis
    using atomic.scoped_restore_law(1) [of v body f] plain.scoped_restore_law(1) [of v body' g] by (simp del: flag_ops.simps)
qed

end
