(* ===== verification/Timer.thy ===== *)
theory Timer
  imports Linked_List
begin

text \<open>
  The software timer of src/src/system/timer.hpp and timer.cpp: a lock-free list of control blocks that
  \<open>Refresh\<close>, called once per millisecond, goes through. A task leaves its handle in a trace; a handle is
  the address of the block's list node. An assertion that fails is \<open>None\<close>.
\<close>

record control_block =
  tb_handle :: nat
  tb_cycle :: u32
  tb_count :: u32
  tb_enable :: bool

text \<open>The static members: \<open>list_\<close> is null before the first use, which also starts the thread that calls
  \<open>Refresh\<close>.\<close>

record timer =
  tm_nodes :: "control_block nodes"
  tm_created :: bool
  tm_threads :: nat
  tm_runs :: "nat list"

section \<open>Operations\<close>

definition timer_create :: "nat \<Rightarrow> nat \<Rightarrow> u32 \<Rightarrow> timer \<Rightarrow> timer option" where
  "timer_create handle sz cycle s =
     (if \<not> cycle > 0 then None
      else let l = tm_nodes s in
        Some (s\<lparr>tm_nodes := l\<lparr>node_next := (node_next l)(handle := None), node_size := (node_size l)(handle := sz),
          node_data := (node_data l)(handle := \<lparr>tb_handle = handle, tb_cycle = cycle, tb_count = 0, tb_enable = False\<rparr>)\<rparr>\<rparr>))"

definition timer_start :: "nat \<Rightarrow> timer \<Rightarrow> timer" where
  "timer_start handle s = (let l = tm_nodes s in s\<lparr>tm_nodes := l\<lparr>node_data :=
     (node_data l)(handle := (node_data l handle)\<lparr>tb_enable := True\<rparr>)\<rparr>\<rparr>)"

definition timer_stop :: "nat \<Rightarrow> timer \<Rightarrow> timer" where
  "timer_stop handle s = (let l = tm_nodes s in s\<lparr>tm_nodes := l\<lparr>node_data :=
     (node_data l)(handle := (node_data l handle)\<lparr>tb_enable := False\<rparr>)\<rparr>\<rparr>)"

definition timer_set_cycle :: "nat \<Rightarrow> u32 \<Rightarrow> timer \<Rightarrow> timer option" where
  "timer_set_cycle handle cycle s =
     (if \<not> cycle > 0 then None
      else let l = tm_nodes s in Some (s\<lparr>tm_nodes := l\<lparr>node_data :=
        (node_data l)(handle := (node_data l handle)\<lparr>tb_cycle := cycle\<rparr>)\<rparr>\<rparr>))"

text \<open>The common start of \<open>Add\<close> and \<open>Refresh\<close>.\<close>

definition timer_ensure :: "timer \<Rightarrow> timer" where
  "timer_ensure s = (if tm_created s then s
     else s\<lparr>tm_nodes := lf_list_new (tm_nodes s), tm_created := True, tm_threads := Suc (tm_threads s)\<rparr>)"

definition timer_add :: "nat \<Rightarrow> timer \<Rightarrow> timer option" where
  "timer_add handle s =
     (if node_next (tm_nodes s) handle \<noteq> None then None
      else let s1 = timer_ensure s
           in map_option (\<lambda>l. s1\<lparr>tm_nodes := l\<rparr>) (lf_list_add 0 (tm_nodes s1) handle))"

text \<open>The function that \<open>Refresh\<close> runs on each block.\<close>

definition refresh_block :: "control_block \<Rightarrow> nat list \<Rightarrow> error_code \<times> control_block \<times> nat list" where
  "refresh_block block runs =
     (if \<not> tb_enable block then (OK, block, runs)
      else let b = block\<lparr>tb_count := tb_count block + 1\<rparr>
           in if tb_count b \<ge> tb_cycle b then (OK, b\<lparr>tb_count := 0\<rparr>, runs @ [tb_handle b])
              else (OK, b, runs))"

definition timer_refresh :: "nat \<Rightarrow> nat \<Rightarrow> timer \<Rightarrow> timer option" where
  "timer_refresh fuel sz s =
     (let s1 = timer_ensure s
      in map_option (\<lambda>(l, ec, runs). s1\<lparr>tm_nodes := l, tm_runs := runs\<rparr>)
           (lf_list_foreach fuel LIMIT_MORE sz (tm_nodes s1) refresh_block (tm_runs s1)))"

text \<open>The first rounds of \<open>RefreshThreadFunction\<close>, one per millisecond.\<close>

fun timer_rounds :: "nat \<Rightarrow> nat \<Rightarrow> nat \<Rightarrow> timer \<Rightarrow> timer option" where
  "timer_rounds fuel sz 0 s = Some s"
| "timer_rounds fuel sz (Suc k) s = Option.bind (timer_refresh fuel sz s) (timer_rounds fuel sz k)"

section \<open>One round\<close>

definition timer_ok :: "nat \<Rightarrow> timer \<Rightarrow> nat list \<Rightarrow> bool" where
  "timer_ok sz s ns \<longleftrightarrow> tm_created s \<and> linked (tm_nodes s) ns \<and> (\<forall>n \<in> set ns. sz \<le> node_size (tm_nodes s) n \<and>
     tb_handle (node_data (tm_nodes s) n) = n \<and> tb_count (node_data (tm_nodes s) n) < tb_cycle (node_data (tm_nodes s) n))"

text \<open>A block after one round, and whether its task ran.\<close>

definition ticked :: "control_block \<Rightarrow> control_block" where
  "ticked b = fst (snd (refresh_block b []))"

definition due :: "control_block \<Rightarrow> bool" where
  "due b \<longleftrightarrow> tb_enable b \<and> tb_count b + 1 \<ge> tb_cycle b"

lemma refresh_block_eq: "refresh_block b runs = (OK, ticked b, runs @ (if due b then [tb_handle b] else []))"
  by (simp add: refresh_block_def ticked_def due_def Let_def)

lemma foreach_refresh:
  "distinct ns \<Longrightarrow> \<forall>m \<in> set ns. data m = d m \<Longrightarrow> foreach_spec refresh_block ns data runs =
    (OK, (\<lambda>n. if n \<in> set ns then ticked (d n) else data n), runs @ map (tb_handle \<circ> d) (filter (due \<circ> d) ns))"
proof (induction ns arbitrary: data runs)
  case (Cons n ns)
  have "\<forall>m \<in> set ns. (data(n := ticked (d n))) m = d m" using Cons.prems by auto
  then show ?case using Cons by (simp add: refresh_block_eq fun_eq_iff)
qed (simp add: fun_eq_iff)

lemma next_count:
  fixes c :: u32
  assumes "cnt < c"
  shows "unat (cnt + 1) = Suc (unat cnt)" "cnt + 1 \<ge> c \<longleftrightarrow> Suc (unat cnt) = unat c"
    "\<not> cnt + 1 \<ge> c \<Longrightarrow> cnt + 1 < c"
proof -
  have "unat c < 2 ^ LENGTH(32)" by (rule unsigned_less)
  moreover have "unat cnt < unat c" using assms by (simp add: word_less_nat_alt)
  ultimately show u: "unat (cnt + 1) = Suc (unat cnt)" by (simp add: unat_word_ariths)
  with \<open>unat cnt < unat c\<close> show "cnt + 1 \<ge> c \<longleftrightarrow> Suc (unat cnt) = unat c" by (auto simp: word_le_nat_alt)
  show "\<not> cnt + 1 \<ge> c \<Longrightarrow> cnt + 1 < c" by simp
qed

text \<open>The count runs through the cycle.\<close>

lemma ticked_simps:
  assumes "tb_count b < tb_cycle b"
  shows "tb_handle (ticked b) = tb_handle b" "tb_cycle (ticked b) = tb_cycle b" "tb_enable (ticked b) = tb_enable b"
    "unat (tb_count (ticked b)) = (if tb_enable b then Suc (unat (tb_count b)) mod unat (tb_cycle b) else unat (tb_count b))"
    "due b \<longleftrightarrow> tb_enable b \<and> Suc (unat (tb_count b)) = unat (tb_cycle b)"
    "tb_count (ticked b) < tb_cycle (ticked b)"
proof -
  have lt: "unat (tb_count b) < unat (tb_cycle b)" using assms by (simp add: word_less_nat_alt)
  note n = next_count [OF assms]
  show "tb_handle (ticked b) = tb_handle b" "tb_cycle (ticked b) = tb_cycle b" "tb_enable (ticked b) = tb_enable b"
    by (simp_all add: ticked_def refresh_block_def Let_def)
  show d: "due b \<longleftrightarrow> tb_enable b \<and> Suc (unat (tb_count b)) = unat (tb_cycle b)" using n(2) by (simp add: due_def)
  show u: "unat (tb_count (ticked b)) = (if tb_enable b then Suc (unat (tb_count b)) mod unat (tb_cycle b) else unat (tb_count b))"
    using n lt by (auto simp: ticked_def refresh_block_def Let_def)
  show "tb_count (ticked b) < tb_cycle (ticked b)"
    using u lt by (simp add: word_less_nat_alt ticked_def refresh_block_def Let_def split: if_splits)
qed

lemma timer_refresh_correct:
  assumes "timer_ok sz s ns" "length ns < fuel"
  obtains s' where "timer_refresh fuel sz s = Some s'" "timer_ok sz s' ns"
    "\<And>n. n \<in> set ns \<Longrightarrow> node_data (tm_nodes s') n = ticked (node_data (tm_nodes s) n)"
    "tm_runs s' = tm_runs s @ filter (\<lambda>n. due (node_data (tm_nodes s) n)) ns" "tm_threads s' = tm_threads s"
proof -
  let ?l = "tm_nodes s"
  define data where "data = (\<lambda>n. if n \<in> set ns then ticked (node_data ?l n) else node_data ?l n)"
  have ok: "linked ?l ns" "distinct ns" "\<forall>n \<in> set ns. sz \<le> node_size ?l n"
    "\<forall>n \<in> set ns. tb_handle (node_data ?l n) = n" "\<forall>n \<in> set ns. tb_count (node_data ?l n) < tb_cycle (node_data ?l n)"
    "timer_ensure s = s"
    using assms(1) by (auto simp: timer_ok_def linked_def timer_ensure_def)
  have "map (tb_handle \<circ> node_data ?l) (filter (due \<circ> node_data ?l) ns) = filter (due \<circ> node_data ?l) ns"
    using ok(4) by (intro map_idI) auto
  then have "lf_list_foreach fuel LIMIT_MORE sz ?l refresh_block (tm_runs s) =
      Some (?l\<lparr>node_data := data\<rparr>, OK, tm_runs s @ filter (due \<circ> node_data ?l) ns)"
    using walk_foreach_ring [of "node_next ?l" "head_node ?l" ns "head_node ?l" fuel
        "\<lambda>p. size_limit_check LIMIT_MORE sz (node_size ?l p)" refresh_block "node_data ?l" "tm_runs s"] ok assms(2)
      foreach_refresh [of ns "node_data ?l" "node_data ?l" "tm_runs s"]
    by (simp add: lf_list_foreach_def linked_def data_def)
  then have "timer_refresh fuel sz s = Some (s\<lparr>tm_nodes := ?l\<lparr>node_data := data\<rparr>,
      tm_runs := tm_runs s @ filter (due \<circ> node_data ?l) ns\<rparr>)"
    by (simp add: timer_refresh_def ok(6))
  moreover have "timer_ok sz (s\<lparr>tm_nodes := ?l\<lparr>node_data := data\<rparr>, tm_runs := tm_runs s @ filter (due \<circ> node_data ?l) ns\<rparr>) ns"
    using assms(1) ticked_simps(1,6) by (auto simp: timer_ok_def linked_def data_def)
  ultimately show thesis using that by (simp add: data_def comp_def)
qed

section \<open>Properties\<close>

lemma count_filter_distinct: "distinct ns \<Longrightarrow> count_list (filter P ns) n = (if n \<in> set ns \<and> P n then 1 else 0)"
  by (induction ns) auto

lemma tick_arith:
  assumes "cnt < (c::nat)"
  shows "(if Suc cnt = c then 1 else 0) + (Suc cnt mod c + k) div c = (cnt + Suc k) div c"
    "(Suc cnt mod c + k) mod c = (cnt + Suc k) mod c"
proof -
  show "(if Suc cnt = c then 1 else 0) + (Suc cnt mod c + k) div c = (cnt + Suc k) div c"
  proof (cases "Suc cnt = c")
    case True
    then have "cnt + Suc k = k + c" by simp
    then have "(cnt + Suc k) div c = (k + c) div c" by (simp only:)
    also have "\<dots> = Suc (k div c)" using assms by (subst div_add_self2) auto
    finally show ?thesis using True by simp
  qed (use assms in simp)
  show "(Suc cnt mod c + k) mod c = (cnt + Suc k) mod c" by (simp add: mod_simps)
qed

lemma timer_rounds_correct:
  "timer_ok sz s ns \<Longrightarrow> length ns < fuel \<Longrightarrow>
    \<exists>s'. timer_rounds fuel sz k s = Some s' \<and> timer_ok sz s' ns \<and> (\<forall>n \<in> set ns.
      let b = node_data (tm_nodes s) n; b' = node_data (tm_nodes s') n; c = unat (tb_cycle b);
          ticks = unat (tb_count b) + (if tb_enable b then k else 0)
      in tb_cycle b' = tb_cycle b \<and> tb_enable b' = tb_enable b \<and> unat (tb_count b') = ticks mod c \<and>
         count_list (tm_runs s') n = count_list (tm_runs s) n + ticks div c)"
proof (induction k arbitrary: s)
  case 0
  then show ?case by (auto simp: timer_ok_def Let_def word_less_nat_alt)
next
  case (Suc k)
  obtain s1 where s1: "timer_refresh fuel sz s = Some s1" "timer_ok sz s1 ns"
    "\<And>n. n \<in> set ns \<Longrightarrow> node_data (tm_nodes s1) n = ticked (node_data (tm_nodes s) n)"
    "tm_runs s1 = tm_runs s @ filter (\<lambda>n. due (node_data (tm_nodes s) n)) ns"
    using timer_refresh_correct [OF Suc.prems] by metis
  obtain s' where s': "timer_rounds fuel sz k s1 = Some s'" "timer_ok sz s' ns" "\<forall>n \<in> set ns.
      let b = node_data (tm_nodes s1) n; b' = node_data (tm_nodes s') n; c = unat (tb_cycle b);
          ticks = unat (tb_count b) + (if tb_enable b then k else 0)
      in tb_cycle b' = tb_cycle b \<and> tb_enable b' = tb_enable b \<and> unat (tb_count b') = ticks mod c \<and>
         count_list (tm_runs s') n = count_list (tm_runs s1) n + ticks div c"
    using Suc.IH [OF s1(2) Suc.prems(2)] by blast
  have d: "distinct ns" using Suc.prems(1) by (simp add: timer_ok_def linked_def)
  have "let b = node_data (tm_nodes s) n; b' = node_data (tm_nodes s') n; c = unat (tb_cycle b);
          ticks = unat (tb_count b) + (if tb_enable b then Suc k else 0)
      in tb_cycle b' = tb_cycle b \<and> tb_enable b' = tb_enable b \<and> unat (tb_count b') = ticks mod c \<and>
         count_list (tm_runs s') n = count_list (tm_runs s) n + ticks div c" if n: "n \<in> set ns" for n
  proof -
    let ?b = "node_data (tm_nodes s) n"
    have lt: "tb_count ?b < tb_cycle ?b" using Suc.prems(1) n by (simp add: timer_ok_def)
    have lt2: "unat (tb_count ?b) < unat (tb_cycle ?b)" using lt by (simp add: word_less_nat_alt)
    note t = ticked_simps [OF lt]
    have "count_list (tm_runs s1) n = count_list (tm_runs s) n +
        (if tb_enable ?b \<and> Suc (unat (tb_count ?b)) = unat (tb_cycle ?b) then 1 else 0)"
      using s1(4) count_filter_distinct [OF d, of "\<lambda>n. due (node_data (tm_nodes s) n)" n] n t(5) by simp
    then show ?thesis
      using s'(3) [rule_format, OF n] s1(3) [OF n] t tick_arith [OF lt2, of k] by (auto simp: Let_def)
  qed
  then show ?case using s1(1) s'(1,2) by auto
qed

text \<open>\<open>C38:\<close> After \<open>k\<close> rounds a task that is enabled, with cycle \<open>c\<close> and its count at \<open>n < c\<close>, has run
  exactly \<open>(n + k) div c\<close> times and its count is \<open>(n + k) mod c\<close>: it runs once in every \<open>c\<close> rounds, first
  after \<open>c - n\<close>. A stopped task never runs and keeps its count. Every round returns.\<close>

theorem timer_runs_every_cycle:
  assumes "timer_ok sz s ns" "n \<in> set ns" "b = node_data (tm_nodes s) n" "c = unat (tb_cycle b)"
  shows "\<exists>s'. timer_rounds (Suc (length ns)) sz k s = Some s' \<and>
    count_list (tm_runs s') n = count_list (tm_runs s) n + (if tb_enable b then (unat (tb_count b) + k) div c else 0) \<and>
    unat (tb_count (node_data (tm_nodes s') n)) = (if tb_enable b then (unat (tb_count b) + k) mod c else unat (tb_count b))"
proof -
  have "unat (tb_count b) < c" using assms by (simp add: timer_ok_def word_less_nat_alt)
  then show ?thesis
    using timer_rounds_correct [OF assms(1), of "Suc (length ns)" k] assms(2-4) by (fastforce simp: Let_def)
qed

text \<open>Two tasks in the list, of which the first runs every three rounds.\<close>

definition two_tasks :: timer where
  "two_tasks = \<lparr>tm_nodes = \<lparr>node_next = [0 \<mapsto> 2, 2 \<mapsto> 1, 1 \<mapsto> 0], node_size = (\<lambda>_. 24),
     node_data = (\<lambda>n. \<lparr>tb_handle = n, tb_cycle = 3, tb_count = 1, tb_enable = (n = 1)\<rparr>), head_node = 0\<rparr>,
     tm_created = True, tm_threads = 1, tm_runs = []\<rparr>"

theorem timer_runs_every_cycle_witness:
  "\<exists>s'. timer_rounds 3 24 10 two_tasks = Some s' \<and> count_list (tm_runs s') 1 = 3 \<and>
    unat (tb_count (node_data (tm_nodes s') 1)) = 2"
proof -
  have "timer_ok 24 two_tasks [2, 1]" by (simp add: two_tasks_def timer_ok_def linked_def)
  note r = timer_runs_every_cycle [OF this _ refl refl, of 1 10]
  have "Suc (length [2, 1 :: nat]) = 3" "tm_runs two_tasks = []" "tb_enable (node_data (tm_nodes two_tasks) 1)"
    "unat (tb_count (node_data (tm_nodes two_tasks) 1)) = 1" "unat (tb_cycle (node_data (tm_nodes two_tasks) 1)) = 3"
    by (simp_all add: two_tasks_def)
  with r [unfolded this] have "\<exists>s'. timer_rounds 3 24 10 two_tasks = Some s' \<and>
      count_list (tm_runs s') 1 = (if tb_enable (node_data (tm_nodes two_tasks) 1) then (1 + 10) div 3 else 0) \<and>
      unat (tb_count (node_data (tm_nodes s') 1)) = (if tb_enable (node_data (tm_nodes two_tasks) 1) then (1 + 10) mod 3 else 1)"
    by simp
  moreover have "tb_enable (node_data (tm_nodes two_tasks) 1)" by (simp add: two_tasks_def)
  ultimately show ?thesis by simp
qed

text \<open>The life of a task, with any number of tasks in the list already.\<close>

lemma timer_ensure_ok:
  assumes "tm_created s \<longrightarrow> linked (tm_nodes s) ns" "\<not> tm_created s \<longrightarrow> ns = []"
  shows "linked (tm_nodes (timer_ensure s)) ns" "tm_created (timer_ensure s)"
    "tm_threads (timer_ensure s) = (if tm_created s then tm_threads s else Suc (tm_threads s))"
    "head_node (tm_nodes (timer_ensure s)) = head_node (tm_nodes s)"
    "node_data (tm_nodes (timer_ensure s)) = node_data (tm_nodes s)"
  using assms by (auto simp: timer_ensure_def linked_def lf_list_new_def)

lemma ring_next: "ring nx p ns h \<Longrightarrow> n \<in> set ns \<Longrightarrow> nx n \<noteq> None"
  by (induction ns arbitrary: p) (auto dest: ring_start)

lemma timer_create_add:
  assumes "tm_created s \<longrightarrow> timer_ok sz s ns" "\<not> tm_created s \<longrightarrow> ns = []" "cycle > 0"
    "h \<notin> set ns" "h \<noteq> head_node (tm_nodes s)"
  obtains s1 s2 where "timer_create h sz cycle s = Some s1" "timer_add h s1 = Some s2" "timer_ok sz s2 (h # ns)"
    "tm_runs s2 = tm_runs s" "tm_threads s2 = (if tm_created s then tm_threads s else Suc (tm_threads s))"
    "node_data (tm_nodes s2) = (node_data (tm_nodes s))(h :=
       \<lparr>tb_handle = h, tb_cycle = cycle, tb_count = 0, tb_enable = False\<rparr>)"
    "timer_add h s2 = None"
proof -
  note result = that
  let ?l = "tm_nodes s"
  define s1 where "s1 = s\<lparr>tm_nodes := ?l\<lparr>node_next := (node_next ?l)(h := None), node_size := (node_size ?l)(h := sz),
    node_data := (node_data ?l)(h := \<lparr>tb_handle = h, tb_cycle = cycle, tb_count = 0, tb_enable = False\<rparr>)\<rparr>\<rparr>"
  have c: "timer_create h sz cycle s = Some s1" using assms(3) by (simp add: timer_create_def s1_def Let_def)
  have "tm_created s1 \<longrightarrow> linked (tm_nodes s1) ns" "\<not> tm_created s1 \<longrightarrow> ns = []"
    using assms by (auto simp: s1_def timer_ok_def linked_def)
  note e = timer_ensure_ok [OF this]
  let ?m = "tm_nodes (timer_ensure s1)"
  define l2 where "l2 = ?m\<lparr>node_next := ((node_next ?m)(h := node_next ?m (head_node ?m)))(head_node ?m := Some h)\<rparr>"
  have h: "h \<noteq> head_node ?m" using assms(5) e(4) by (simp add: s1_def)
  have a: "lf_list_add 0 ?m h = Some l2" using lf_list_add_eq [OF h e(1) assms(4)] by (simp add: l2_def)
  have l2: "linked l2 (h # ns)"
    using linked_add [OF e(1) h assms(4)] e(1) h assms(4) by (simp add: l2_def linked_def del: ring.simps fun_upd_apply)
  define s2 where "s2 = (timer_ensure s1)\<lparr>tm_nodes := l2\<rparr>"
  have add: "timer_add h s1 = Some s2" using a by (simp add: timer_add_def s2_def Let_def) (simp add: s1_def)
  have d: "node_data l2 = (node_data ?l)(h := \<lparr>tb_handle = h, tb_cycle = cycle, tb_count = 0, tb_enable = False\<rparr>)"
    using e(5) by (simp add: l2_def s1_def)
  have sz: "sz \<le> node_size l2 n" if "n \<in> set (h # ns)" for n
  proof -
    have "n = h \<or> tm_created s" using that assms(2) by auto
    then show ?thesis using that assms(1) h by (auto simp: l2_def timer_ensure_def lf_list_new_def s1_def timer_ok_def)
  qed
  have "timer_ok sz s2 (h # ns)"
    unfolding timer_ok_def
  proof (intro conjI ballI)
    fix n
    assume n: "n \<in> set (h # ns)"
    then have "n = h \<or> tm_created s" using assms(2) by auto
    then show "tb_handle (node_data (tm_nodes s2) n) = n"
      "tb_count (node_data (tm_nodes s2) n) < tb_cycle (node_data (tm_nodes s2) n)"
      using n assms(1,3,4) by (auto simp: s2_def d timer_ok_def)
    show "sz \<le> node_size (tm_nodes s2) n" using sz [OF n] by (simp add: s2_def)
  qed (use e(2) l2 in \<open>simp_all add: s2_def\<close>)
  moreover have "node_next (tm_nodes s2) h \<noteq> None"
    using l2 ring_next [of "node_next l2" "head_node l2" "h # ns" "head_node l2" h] by (simp add: s2_def linked_def)
  then have "timer_add h s2 = None" by (simp add: timer_add_def)
  ultimately show thesis
    using result [OF c add] d e(3) by (simp add: s2_def) (simp add: s1_def timer_ensure_def)
qed

text \<open>\<open>C?:\<close> The life of a task: creation with a positive cycle yields a stopped task, \<open>Add\<close> puts it into
  the list (a second \<open>Add\<close> fails its assertion), and after \<open>Start\<close> it runs for the first time in the
  round whose number is its cycle, and in no round before.\<close>

theorem new_task_runs_after_cycle:
  assumes "tm_created s \<longrightarrow> timer_ok sz s ns" "\<not> tm_created s \<longrightarrow> ns = []" "cycle > 0"
    "h \<notin> set ns" "h \<noteq> head_node (tm_nodes s)"
  shows "\<exists>s1 s2. timer_create h sz cycle s = Some s1 \<and> timer_add h s1 = Some s2 \<and> timer_add h s2 = None \<and>
    (\<forall>k < unat cycle. \<exists>s3 s4. timer_rounds (length ns + 2) sz k (timer_start h s2) = Some s3 \<and>
      count_list (tm_runs s3) h = count_list (tm_runs s) h \<and>
      timer_rounds (length ns + 2) sz (unat cycle) (timer_start h s2) = Some s4 \<and>
      count_list (tm_runs s4) h = Suc (count_list (tm_runs s) h))"
proof -
  obtain s1 s2 where s: "timer_create h sz cycle s = Some s1" "timer_add h s1 = Some s2" "timer_ok sz s2 (h # ns)"
    "tm_runs s2 = tm_runs s" "node_data (tm_nodes s2) = (node_data (tm_nodes s))(h :=
       \<lparr>tb_handle = h, tb_cycle = cycle, tb_count = 0, tb_enable = False\<rparr>)" "timer_add h s2 = None"
    using timer_create_add [OF assms] by metis
  let ?s = "timer_start h s2"
  have ok: "timer_ok sz ?s (h # ns)"
    using s(3) by (auto simp: timer_ok_def timer_start_def Let_def linked_def simp del: ring.simps)
  have b: "node_data (tm_nodes ?s) h = \<lparr>tb_handle = h, tb_cycle = cycle, tb_count = 0, tb_enable = True\<rparr>"
    "tm_runs ?s = tm_runs s"
    by (simp_all add: timer_start_def Let_def s(4,5))
  have run: "\<exists>s'. timer_rounds (length ns + 2) sz k ?s = Some s' \<and>
      count_list (tm_runs s') h = count_list (tm_runs s) h + k div unat cycle" for k
    using timer_rounds_correct [OF ok, of "length ns + 2" k] b by (auto simp: Let_def)
  have pos: "0 < unat cycle" using assms(3) by (simp add: word_less_nat_alt)
  obtain s4 where s4: "timer_rounds (length ns + 2) sz (unat cycle) ?s = Some s4"
    "count_list (tm_runs s4) h = Suc (count_list (tm_runs s) h)"
    using run [of "unat cycle"] pos by auto
  have "\<exists>s3. timer_rounds (length ns + 2) sz k ?s = Some s3 \<and> count_list (tm_runs s3) h = count_list (tm_runs s) h"
    if "k < unat cycle" for k
    using run [of k] that by simp
  then show ?thesis using s(1,2,6) s4 by blast
qed

text \<open>The first task of a system.\<close>

theorem new_task_runs_after_cycle_witness:
  "\<exists>s1 s2 s4. timer_create 5 24 3 (two_tasks\<lparr>tm_created := False\<rparr>) = Some s1 \<and> timer_add 5 s1 = Some s2 \<and>
    timer_rounds 2 24 3 (timer_start 5 s2) = Some s4 \<and> count_list (tm_runs s4) 5 = 1"
proof -
  have "\<exists>s1 s2. timer_create 5 24 3 (two_tasks\<lparr>tm_created := False\<rparr>) = Some s1 \<and> timer_add 5 s1 = Some s2 \<and> timer_add 5 s2 = None \<and>
    (\<forall>k < unat (3 :: u32). \<exists>s3 s4. timer_rounds (length ([] :: nat list) + 2) 24 k (timer_start 5 s2) = Some s3 \<and>
      count_list (tm_runs s3) 5 = count_list (tm_runs (two_tasks\<lparr>tm_created := False\<rparr>)) 5 \<and>
      timer_rounds (length ([] :: nat list) + 2) 24 (unat (3 :: u32)) (timer_start 5 s2) = Some s4 \<and>
      count_list (tm_runs s4) 5 = Suc (count_list (tm_runs (two_tasks\<lparr>tm_created := False\<rparr>)) 5))"
    by (rule new_task_runs_after_cycle) (simp_all add: two_tasks_def)
  then obtain s1 s2 where s: "timer_create 5 24 3 (two_tasks\<lparr>tm_created := False\<rparr>) = Some s1" "timer_add 5 s1 = Some s2"
    and r: "\<forall>k < unat (3 :: u32). \<exists>s3 s4. timer_rounds (length ([] :: nat list) + 2) 24 k (timer_start 5 s2) = Some s3 \<and>
      count_list (tm_runs s3) 5 = count_list (tm_runs (two_tasks\<lparr>tm_created := False\<rparr>)) 5 \<and>
      timer_rounds (length ([] :: nat list) + 2) 24 (unat (3 :: u32)) (timer_start 5 s2) = Some s4 \<and>
      count_list (tm_runs s4) 5 = Suc (count_list (tm_runs (two_tasks\<lparr>tm_created := False\<rparr>)) 5)" by blast
  have "tm_runs (two_tasks\<lparr>tm_created := False\<rparr>) = []" "unat (3 :: u32) = 3" "length ([] :: nat list) + 2 = 2"
    by (simp_all add: two_tasks_def)
  note r' = r [unfolded this, rule_format, of 0]
  then show ?thesis using s by auto
qed

text \<open>A cycle that is set below the count takes effect in the next round.\<close>

lemma shortened_cycle_runs_next:
  assumes "timer_set_cycle n c s = Some s'" "b = node_data (tm_nodes s') n" "tb_enable b"
    "c \<le> tb_count (node_data (tm_nodes s) n)" "tb_count b < max_word"
  shows "refresh_block b runs = (OK, b\<lparr>tb_count := 0\<rparr>, runs @ [tb_handle b])"
proof -
  have "s' = (let l = tm_nodes s in s\<lparr>tm_nodes := l\<lparr>node_data := (node_data l)(n := (node_data l n)\<lparr>tb_cycle := c\<rparr>)\<rparr>\<rparr>)"
    using assms(1) by (simp add: timer_set_cycle_def Let_def split: if_splits)
  then have b: "tb_cycle b = c" "c \<le> tb_count b" using assms(2,4) by (simp_all add: Let_def)
  then have "c \<le> tb_count b + 1" using next_count(1) [OF assms(5)] by (simp add: word_le_nat_alt)
  then show ?thesis using b(1) assms(3) by (simp add: refresh_block_def Let_def)
qed

end
