(* ===== verification/Topic.thy ===== *)
theory Topic
  imports Packet Event_Manager Lock_Free_Queue
begin

text \<open>
  \<open>Topic\<close> of src/src/middleware/message (topic.cpp, publish.cpp, message.hpp, subscriber.hpp): named
  channels in domains, their publishers and four kinds of subscribers. The world holds every object: a
  buffer or variable is a block of bytes at an address, a queue the model of \<open>LockFreeQueue\<close>, a
  topic its block with the lock-free list of subscribers. A message is read through its address and
  size, as \<open>RawData\<close> does, and reading past the end of an object is \<open>None\<close>; so are a failing
  assertion and a mutex that never comes free. User callbacks leave a mark with what they could see.
\<close>

section \<open>Data\<close>

record raw_data =
  rd_addr :: "nat option"
  rd_size :: nat

datatype sync_wait_state = WAIT_IDLE | WAITING | WAIT_CLAIMED

datatype async_state = ASYNC_IDLE | ASYNC_WAITING | DATA_READY

record sync_block =
  sy_buff :: raw_data
  sy_timestamp :: u64
  sy_wait :: sync_wait_state
  sy_sem :: nat

record async_block =
  as_buff :: raw_data
  as_timestamp :: u64
  as_state :: async_state

text \<open>The two handlers of a queue subscriber, with the size of the data type.\<close>

datatype queue_fun = Push_Data nat | Push_Message nat

datatype payload_arg = Raw_Payload | View_Payload nat | Typed_Payload nat

datatype topic_callback = Empty_Callback | Payload_Only nat payload_arg | Timestamp_Payload nat payload_arg

datatype suber = SYNC sync_block | ASYNC async_block | QUEUE nat queue_fun | CALLBACK topic_callback

datatype lock_state = UNLOCKED | LOCKED | USE_MUTEX

record topic_block =
  t_busy :: lock_state
  t_subers :: "suber nodes"
  t_max_length :: nat
  t_crc32 :: u32
  t_mutex :: "bool option"
  t_data :: raw_data
  t_timestamp :: u64
  t_cache :: bool
  t_check_length :: bool

datatype queue_item = Data_Item "u8 list" | Message_Item u64 "u8 list"

text \<open>What a callback gets: the raw bytes, a view with a time stamp, or typed data.\<close>

datatype payload_seen = Saw_Raw "u8 list" | Saw_View u64 "u8 list" | Saw_Data "u8 list"

record callback_mark =
  run_fun :: nat
  run_in_isr :: bool
  run_timestamp :: "u64 option"
  run_payload :: payload_seen

record topic_world =
  tw_mem :: "nat \<Rightarrow> u8 list option"
  tw_queues :: "nat \<Rightarrow> queue_item lfq"
  tw_runs :: "callback_mark list"
  tw_blocks :: "nat \<Rightarrow> topic_block"
  tw_domains :: "nat \<Rightarrow> u32 rbt"
  tw_registry :: "u32 rbt option"
  tw_default :: "nat option"
  tw_fresh :: nat
  tw_crc32 :: "u32 crc_state"
  tw_crc8 :: "u8 crc_state"
  sizeof_suber :: nat
  sizeof_kind :: "suber \<Rightarrow> nat"
  sizeof_topic :: nat
  sizeof_tree :: nat

definition set_block :: "nat \<Rightarrow> topic_block \<Rightarrow> topic_world \<Rightarrow> topic_world" where
  "set_block t b w = w\<lparr>tw_blocks := (tw_blocks w)(t := b)\<rparr>"

section \<open>Objects\<close>

definition read_object :: "topic_world \<Rightarrow> nat option \<Rightarrow> nat \<Rightarrow> u8 list option" where
  "read_object w a n =
     (if n = 0 then Some []
      else do { p \<leftarrow> a; bs \<leftarrow> tw_mem w p; if n \<le> length bs then Some (take n bs) else None })"

text \<open>\<open>FastCopy\<close> between two objects; the copy routine itself is the subject of the theory Memory.\<close>

definition copy_object :: "nat option \<Rightarrow> nat option \<Rightarrow> nat \<Rightarrow> topic_world \<Rightarrow> topic_world option" where
  "copy_object dst src n w =
     (if n = 0 then Some w
      else do {
        bs \<leftarrow> read_object w src n;
        d \<leftarrow> dst;
        old \<leftarrow> tw_mem w d;
        new \<leftarrow> array_copy old 0 bs 0 n;
        Some (w\<lparr>tw_mem := (tw_mem w)(d \<mapsto> new)\<rparr>)
      })"

section \<open>Locks\<close>

definition topic_lock :: "topic_block \<Rightarrow> topic_block option" where
  "topic_lock b =
     (case t_mutex b of
        Some held \<Rightarrow> if held then None else Some (b\<lparr>t_mutex := Some True\<rparr>)
      | None \<Rightarrow> if t_busy b = UNLOCKED then Some (b\<lparr>t_busy := LOCKED\<rparr>) else None)"

definition topic_unlock :: "topic_block \<Rightarrow> topic_block" where
  "topic_unlock b =
     (case t_mutex b of
        Some held \<Rightarrow> b\<lparr>t_mutex := Some False\<rparr>
      | None \<Rightarrow> b\<lparr>t_busy := UNLOCKED\<rparr>)"

definition topic_lock_from_callback :: "topic_block \<Rightarrow> topic_block option" where
  "topic_lock_from_callback b =
     (case t_mutex b of
        Some held \<Rightarrow> None
      | None \<Rightarrow> if t_busy b = UNLOCKED then Some (b\<lparr>t_busy := LOCKED\<rparr>) else None)"

definition topic_unlock_from_callback :: "topic_block \<Rightarrow> topic_block option" where
  "topic_unlock_from_callback b =
     (case t_mutex b of
        Some held \<Rightarrow> None
      | None \<Rightarrow> Some (b\<lparr>t_busy := UNLOCKED\<rparr>))"

section \<open>Publishing\<close>

definition check_publish_size :: "topic_block \<Rightarrow> nat \<Rightarrow> bool" where
  "check_publish_size b n = (if t_check_length b then n = t_max_length b else n \<le> t_max_length b)"

definition store_published_data :: "nat \<Rightarrow> nat option \<Rightarrow> nat \<Rightarrow> u64 \<Rightarrow> topic_world \<Rightarrow>
    (topic_world \<times> raw_data) option" where
  "store_published_data t addr n ts w =
     (let b = tw_blocks w t in do {
        (w1, data) \<leftarrow> (if t_cache b
          then do {
            w1 \<leftarrow> copy_object (rd_addr (t_data b)) addr n w;
            Some (w1, (t_data b)\<lparr>rd_size := n\<rparr>)
          }
          else Some (w, (t_data b)\<lparr>rd_addr := addr, rd_size := n\<rparr>));
        Some (set_block t (b\<lparr>t_data := data, t_timestamp := ts\<rparr>) w1, data)
      })"

text \<open>The four steps of a delivery to a synchronous subscriber.\<close>

definition sync_claim :: "sync_block \<Rightarrow> (sync_block \<times> bool)" where
  "sync_claim s = (if sy_wait s = WAITING then (s\<lparr>sy_wait := WAIT_CLAIMED\<rparr>, True) else (s, False))"

definition sync_stamp :: "u64 \<Rightarrow> sync_block \<Rightarrow> sync_block" where
  "sync_stamp ts s = s\<lparr>sy_timestamp := ts\<rparr>"

definition sync_post :: "sync_block \<Rightarrow> sync_block" where
  "sync_post s = s\<lparr>sy_sem := sy_sem s + 1\<rparr>"

text \<open>\<open>InvokePayload\<close>; a null address is only harmless for a callback that takes the raw data.\<close>

definition invoke_payload :: "payload_arg \<Rightarrow> u64 \<Rightarrow> raw_data \<Rightarrow> topic_world \<Rightarrow> payload_seen option" where
  "invoke_payload arg ts data w =
     (case arg of
        Raw_Payload \<Rightarrow> map_option Saw_Raw (read_object w (rd_addr data) (rd_size data))
      | View_Payload n \<Rightarrow> map_option (Saw_View ts) (read_object w (rd_addr data) n)
      | Typed_Payload n \<Rightarrow> map_option Saw_Data (read_object w (rd_addr data) n))"

definition run_callback :: "topic_callback \<Rightarrow> bool \<Rightarrow> u64 \<Rightarrow> raw_data \<Rightarrow> topic_world \<Rightarrow> topic_world option" where
  "run_callback cb in_isr ts data w =
     (case cb of
        Empty_Callback \<Rightarrow> Some w
      | Payload_Only f arg \<Rightarrow> do {
          p \<leftarrow> invoke_payload arg ts data w;
          Some (w\<lparr>tw_runs := tw_runs w @ [\<lparr>run_fun = f, run_in_isr = in_isr, run_timestamp = None, run_payload = p\<rparr>]\<rparr>)
        }
      | Timestamp_Payload f arg \<Rightarrow> do {
          p \<leftarrow> invoke_payload arg ts data w;
          Some (w\<lparr>tw_runs := tw_runs w @ [\<lparr>run_fun = f, run_in_isr = in_isr, run_timestamp = Some ts, run_payload = p\<rparr>]\<rparr>)
        })"

text \<open>\<open>Callback::PayloadSize\<close>\<close>

definition payload_size :: "topic_callback \<Rightarrow> nat" where
  "payload_size cb =
     (let size = (\<lambda>arg. case arg of Raw_Payload \<Rightarrow> 0 | View_Payload n \<Rightarrow> n | Typed_Payload n \<Rightarrow> n) in
      case cb of Empty_Callback \<Rightarrow> 0 | Payload_Only f arg \<Rightarrow> size arg | Timestamp_Payload f arg \<Rightarrow> size arg)"

definition push_to_queue :: "nat \<Rightarrow> queue_item \<Rightarrow> topic_world \<Rightarrow> topic_world option" where
  "push_to_queue q item w = do {
     (queue, _) \<leftarrow> lfq_push (tw_queues w q) item;
     Some (w\<lparr>tw_queues := (tw_queues w)(q := queue)\<rparr>)
   }"

definition queue_handler :: "queue_fun \<Rightarrow> u64 \<Rightarrow> raw_data \<Rightarrow> nat \<Rightarrow> topic_world \<Rightarrow> topic_world option" where
  "queue_handler f ts data q w =
     (case f of
        Push_Data n \<Rightarrow> do {
          bs \<leftarrow> read_object w (rd_addr data) n;
          push_to_queue q (Data_Item bs) w
        }
      | Push_Message n \<Rightarrow> do {
          bs \<leftarrow> read_object w (rd_addr data) n;
          push_to_queue q (Message_Item ts bs) w
        })"

definition dispatch_subscriber :: "u64 \<Rightarrow> raw_data \<Rightarrow> bool \<Rightarrow> bool \<Rightarrow> suber \<Rightarrow> topic_world \<Rightarrow>
    (suber \<times> topic_world) option" where
  "dispatch_subscriber ts data from_callback in_isr block w =
     (case block of
        SYNC s \<Rightarrow>
          let (s1, wake_waiter) = sync_claim s in
          if \<not> wake_waiter then Some (SYNC s1, w)
          else do {
            w1 \<leftarrow> copy_object (rd_addr (sy_buff s1)) (rd_addr data) (rd_size data) w;
            Some (SYNC (sync_post (sync_stamp ts s1)), w1)
          }
      | ASYNC a \<Rightarrow>
          if as_state a = ASYNC_WAITING
          then do {
            w1 \<leftarrow> copy_object (rd_addr (as_buff a)) (rd_addr data) (rd_size data) w;
            Some (ASYNC (a\<lparr>as_timestamp := ts, as_state := DATA_READY\<rparr>), w1)
          }
          else Some (ASYNC a, w)
      | QUEUE q f \<Rightarrow> map_option (Pair (QUEUE q f)) (queue_handler f ts data q w)
      | CALLBACK cb \<Rightarrow> map_option (Pair (CALLBACK cb)) (run_callback cb (from_callback \<and> in_isr) ts data w))"

text \<open>The function object that \<open>DispatchSubscribers\<close> hands to \<open>Foreach\<close>; a failed step stays failed.\<close>

definition dispatch_each :: "u64 \<Rightarrow> raw_data \<Rightarrow> bool \<Rightarrow> bool \<Rightarrow> suber \<Rightarrow> topic_world option \<Rightarrow>
    error_code \<times> suber \<times> topic_world option" where
  "dispatch_each ts data from_callback in_isr block r =
     (case r of None \<Rightarrow> (OK, block, None)
      | Some w \<Rightarrow> (case dispatch_subscriber ts data from_callback in_isr block w of
          None \<Rightarrow> (OK, block, None) | Some (block', w') \<Rightarrow> (OK, block', Some w')))"

definition dispatch_subscribers :: "nat \<Rightarrow> nat \<Rightarrow> u64 \<Rightarrow> raw_data \<Rightarrow> bool \<Rightarrow> bool \<Rightarrow> topic_world \<Rightarrow>
    topic_world option" where
  "dispatch_subscribers fuel t ts data from_callback in_isr w = do {
     (subers, ec, r) \<leftarrow> lf_list_foreach fuel LIMIT_MORE (sizeof_suber w) (t_subers (tw_blocks w t))
       (dispatch_each ts data from_callback in_isr) (Some w);
     w1 \<leftarrow> r;
     Some (set_block t ((tw_blocks w1 t)\<lparr>t_subers := subers\<rparr>) w1)
   }"

definition publish_raw :: "nat \<Rightarrow> nat \<Rightarrow> nat option \<Rightarrow> nat \<Rightarrow> u64 \<Rightarrow> bool \<Rightarrow> bool \<Rightarrow> topic_world \<Rightarrow>
    topic_world option" where
  "publish_raw fuel t addr n ts from_callback in_isr w = do {
     b \<leftarrow> (if from_callback then topic_lock_from_callback (tw_blocks w t) else topic_lock (tw_blocks w t));
     (if \<not> check_publish_size b n then None
      else do {
        (w1, data) \<leftarrow> store_published_data t addr n ts (set_block t b w);
        w2 \<leftarrow> dispatch_subscribers fuel t ts data from_callback in_isr w1;
        b2 \<leftarrow> (if from_callback then topic_unlock_from_callback (tw_blocks w2 t)
              else Some (topic_unlock (tw_blocks w2 t)));
        Some (set_block t b2 w2)
      })
   }"

text \<open>The public entry points; \<open>now\<close> is the reading of the timebase.\<close>

definition publish :: "nat \<Rightarrow> nat \<Rightarrow> nat option \<Rightarrow> nat \<Rightarrow> u64 \<Rightarrow> topic_world \<Rightarrow> topic_world option" where
  "publish fuel t addr n ts w = publish_raw fuel t addr n ts False False w"

definition publish_now :: "nat \<Rightarrow> nat \<Rightarrow> nat option \<Rightarrow> nat \<Rightarrow> u64 \<Rightarrow> topic_world \<Rightarrow> topic_world option" where
  "publish_now fuel t addr n now w = publish fuel t addr n now w"

definition publish_from_callback :: "nat \<Rightarrow> nat \<Rightarrow> nat option \<Rightarrow> nat \<Rightarrow> u64 \<Rightarrow> bool \<Rightarrow> topic_world \<Rightarrow>
    topic_world option" where
  "publish_from_callback fuel t addr n ts in_isr w = publish_raw fuel t addr n ts True in_isr w"

section \<open>Cache and dumps\<close>

text \<open>\<open>junk\<close> is what the allocated memory contains.\<close>

definition enable_cache :: "(nat \<Rightarrow> u8) \<Rightarrow> nat \<Rightarrow> topic_world \<Rightarrow> topic_world option" where
  "enable_cache junk t w = do {
     b \<leftarrow> topic_lock (tw_blocks w t);
     let w1 = (if \<not> t_cache b
       then set_block t (topic_unlock (b\<lparr>t_cache := True, t_data := (t_data b)\<lparr>rd_addr := Some (tw_fresh w)\<rparr>\<rparr>))
              (w\<lparr>tw_mem := (tw_mem w)(tw_fresh w \<mapsto> map junk [0..<t_max_length b]), tw_fresh := Suc (tw_fresh w)\<rparr>)
       else set_block t (topic_unlock b) w);
     Some w1
   }"

text \<open>\<open>DumpPayload\<close> into a buffer object; the out-parameter is the time stamp if the copy is made.\<close>

definition dump_payload :: "size_limit_mode \<Rightarrow> nat \<Rightarrow> raw_data \<Rightarrow> topic_world \<Rightarrow>
    (topic_world \<times> error_code \<times> u64 option) option" where
  "dump_payload mode t buffer w =
     (let b = tw_blocks w t; payload_size = rd_size (t_data b) in
      if rd_addr (t_data b) = None then Some (w, EMPTY, None)
      else if mode = LIMIT_EQUAL \<and> payload_size \<noteq> rd_size buffer then Some (w, SIZE_ERR, None)
      else if mode = LIMIT_LESS \<and> payload_size < rd_size buffer then Some (w, SIZE_ERR, None)
      else if mode = LIMIT_MORE \<and> payload_size > rd_size buffer then Some (w, SIZE_ERR, None)
      else do {
        let copy_size = (if mode = LIMIT_LESS then rd_size buffer else payload_size);
        b1 \<leftarrow> topic_lock b;
        w1 \<leftarrow> copy_object (rd_addr buffer) (rd_addr (t_data b1)) copy_size (set_block t b1 w);
        Some (set_block t (topic_unlock b1) w1, OK, Some (t_timestamp b1))
      })"

definition dump_packet :: "size_limit_mode \<Rightarrow> nat \<Rightarrow> raw_data \<Rightarrow> topic_world \<Rightarrow> (topic_world \<times> error_code) option" where
  "dump_packet mode t buffer w =
     (let b = tw_blocks w t in
      if rd_addr (t_data b) = None then Some (w, EMPTY)
      else if \<not> size_limit_check mode (PACK_BASE_SIZE + rd_size (t_data b)) (rd_size buffer) then None
      else do {
        b1 \<leftarrow> topic_lock b;
        payload \<leftarrow> read_object w (rd_addr (t_data b1)) (rd_size (t_data b1));
        a \<leftarrow> rd_addr buffer;
        old \<leftarrow> tw_mem w a;
        (st, new) \<leftarrow> pack_data (tw_crc8 w) (t_crc32 b1) old (t_timestamp b1) payload;
        Some (set_block t (topic_unlock b1) (w\<lparr>tw_mem := (tw_mem w)(a \<mapsto> new), tw_crc8 := st\<rparr>), OK)
      })"

definition topic_get_timestamp :: "nat option \<Rightarrow> topic_world \<Rightarrow> u64" where
  "topic_get_timestamp topic w = (case topic of None \<Rightarrow> 0 | Some t \<Rightarrow> t_timestamp (tw_blocks w t))"


text \<open>\<open>DumpData\<close> into a packed structure for data of \<open>n\<close> bytes.\<close>

definition dump_data_packed :: "nat \<Rightarrow> nat \<Rightarrow> raw_data \<Rightarrow> topic_world \<Rightarrow> (topic_world \<times> error_code) option" where
  "dump_data_packed n t buffer w =
     (let b = tw_blocks w t in
      if rd_addr (t_data b) = None then Some (w, EMPTY)
      else if n \<noteq> rd_size (t_data b) then None
      else dump_packet LIMIT_NONE t buffer w)"

section \<open>Subscribers\<close>

definition check_subscriber_data_size :: "topic_block \<Rightarrow> nat \<Rightarrow> bool" where
  "check_subscriber_data_size b n = (if t_check_length b then t_max_length b = n else t_max_length b \<le> n)"

text \<open>A new node with the block \<open>s\<close>, added to the subscribers of \<open>t\<close>.\<close>

definition add_suber :: "nat \<Rightarrow> suber \<Rightarrow> topic_world \<Rightarrow> (topic_world \<times> nat) option" where
  "add_suber t s w = do {
     let n = tw_fresh w;
     let l = t_subers (tw_blocks w t);
     l2 \<leftarrow> lf_list_add 0 (l\<lparr>node_next := (node_next l)(n := None), node_size := (node_size l)(n := sizeof_kind w s),
       node_data := (node_data l)(n := s)\<rparr>) n;
     Some (set_block t ((tw_blocks w t)\<lparr>t_subers := l2\<rparr>) (w\<lparr>tw_fresh := Suc n\<rparr>), n)
   }"

text \<open>\<open>data\<close> is the variable of the subscriber, of type \<open>Data\<close> with \<open>rd_size data\<close> bytes.\<close>

definition sync_subscribe :: "nat \<Rightarrow> raw_data \<Rightarrow> topic_world \<Rightarrow> (topic_world \<times> nat) option" where
  "sync_subscribe t data w =
     (if check_subscriber_data_size (tw_blocks w t) (rd_size data)
      then add_suber t (SYNC \<lparr>sy_buff = data, sy_timestamp = 0, sy_wait = WAIT_IDLE, sy_sem = 0\<rparr>) w
      else None)"

definition async_subscribe :: "(nat \<Rightarrow> u8) \<Rightarrow> nat \<Rightarrow> nat \<Rightarrow> topic_world \<Rightarrow> (topic_world \<times> nat) option" where
  "async_subscribe junk t n w =
     (if check_subscriber_data_size (tw_blocks w t) n
      then let a = tw_fresh w
        in add_suber t (ASYNC \<lparr>as_buff = \<lparr>rd_addr = Some a, rd_size = n\<rparr>, as_timestamp = 0, as_state = ASYNC_IDLE\<rparr>)
             (w\<lparr>tw_mem := (tw_mem w)(a \<mapsto> map junk [0..<n]), tw_fresh := Suc a\<rparr>)
      else None)"

definition queue_fun_size :: "queue_fun \<Rightarrow> nat" where
  "queue_fun_size f = (case f of Push_Data n \<Rightarrow> n | Push_Message n \<Rightarrow> n)"

definition queue_subscribe :: "nat \<Rightarrow> nat \<Rightarrow> queue_fun \<Rightarrow> topic_world \<Rightarrow> (topic_world \<times> nat) option" where
  "queue_subscribe t q f w =
     (if check_subscriber_data_size (tw_blocks w t) (queue_fun_size f) then add_suber t (QUEUE q f) w else None)"

definition register_callback :: "nat \<Rightarrow> topic_callback \<Rightarrow> topic_world \<Rightarrow> (topic_world \<times> nat) option" where
  "register_callback t cb w =
     (if payload_size cb \<noteq> 0 \<and> \<not> check_subscriber_data_size (tw_blocks w t) (payload_size cb) then None
      else add_suber t (CALLBACK cb) w)"

definition async_available :: "async_block \<Rightarrow> bool" where
  "async_available a = (as_state a = DATA_READY)"

text \<open>\<open>GetData\<close> returns a reference to the buffer; the value is what it holds.\<close>

definition async_get_data :: "async_block \<Rightarrow> async_block \<times> nat option" where
  "async_get_data a =
     ((if as_state a = DATA_READY then a\<lparr>as_state := ASYNC_IDLE\<rparr> else a), rd_addr (as_buff a))"

definition async_start_waiting :: "async_block \<Rightarrow> async_block" where
  "async_start_waiting a = (if as_state a = ASYNC_IDLE then a\<lparr>as_state := ASYNC_WAITING\<rparr> else a)"

section \<open>Domains and topics by name\<close>

definition topic_compare :: "u32 \<Rightarrow> u32 \<Rightarrow> int" where
  "topic_compare a b = sint (a - b)"

definition ensure_domain_registry :: "u32 rbt \<Rightarrow> topic_world \<Rightarrow> topic_world" where
  "ensure_domain_registry junk w =
     (case tw_registry w of None \<Rightarrow> w\<lparr>tw_registry := Some (rb_new junk)\<rparr> | Some r \<Rightarrow> w)"

definition name_crc :: "u8 list \<Rightarrow> topic_world \<Rightarrow> (topic_world \<times> u32) option" where
  "name_crc name w = do {
     (st, crc) \<leftarrow> crc32_calculate (tw_crc32 w) name (length name);
     Some (w\<lparr>tw_crc32 := st\<rparr>, crc)
   }"

definition domain_new :: "u32 rbt \<Rightarrow> u8 list \<Rightarrow> topic_world \<Rightarrow> (topic_world \<times> nat) option" where
  "domain_new junk name w = do {
     (w1, crc) \<leftarrow> name_crc name (ensure_domain_registry junk w);
     registry \<leftarrow> tw_registry w1;
     (registry1, found) \<leftarrow> rb_search topic_compare (sizeof_tree w1) crc registry;
     (case found of
        Some d \<Rightarrow> Some (w1, d)
      | None \<Rightarrow> do {
          let d = tw_fresh w1;
          registry2 \<leftarrow> insert_new topic_compare (sizeof_tree w1) d crc registry1;
          Some (w1\<lparr>tw_registry := Some registry2, tw_domains := (tw_domains w1)(d := rb_new (tw_domains w1 d)),
            tw_fresh := Suc d\<rparr>, d)
        })
   }"

text \<open>\<open>''libxr_def_domain''\<close>\<close>

definition default_domain_name :: "u8 list" where
  "default_domain_name = [108, 105, 98, 120, 114, 95, 100, 101, 102, 95, 100, 111, 109, 97, 105, 110]"

definition ensure_default_domain :: "u32 rbt \<Rightarrow> topic_world \<Rightarrow> (topic_world \<times> nat) option" where
  "ensure_default_domain junk w =
     (case tw_default w of
        Some d \<Rightarrow> Some (w, d)
      | None \<Rightarrow> do {
          (w1, d) \<leftarrow> domain_new junk default_domain_name w;
          Some (w1\<lparr>tw_default := Some d\<rparr>, d)
        })"

definition new_topic_block :: "suber nodes \<Rightarrow> nat \<Rightarrow> nat \<Rightarrow> u32 \<Rightarrow> bool \<Rightarrow> bool \<Rightarrow> topic_block" where
  "new_topic_block garbage t max_length crc multi_publisher check_length = \<lparr>
     t_busy = (if multi_publisher then USE_MUTEX else UNLOCKED),
     t_subers = lf_list_new (garbage\<lparr>head_node := t\<rparr>), t_max_length = max_length, t_crc32 = crc,
     t_mutex = (if multi_publisher then Some False else None),
     t_data = \<lparr>rd_addr = None, rd_size = 0\<rparr>, t_timestamp = 0, t_cache = False, t_check_length = check_length\<rparr>"

text \<open>The constructor; \<open>junk_tree\<close> and \<open>junk\<close> are the contents of allocated memory.\<close>

definition topic_new :: "u32 rbt \<Rightarrow> (nat \<Rightarrow> u8) \<Rightarrow> u8 list \<Rightarrow> nat \<Rightarrow> nat option \<Rightarrow> bool \<Rightarrow> bool \<Rightarrow> bool \<Rightarrow> topic_world \<Rightarrow>
    (topic_world \<times> nat) option" where
  "topic_new junk_tree junk name max_length domain multi_publisher cache check_length w = do {
     (w1, d) \<leftarrow> (case domain of None \<Rightarrow> ensure_default_domain junk_tree w | Some d \<Rightarrow> Some (w, d));
     (w2, crc) \<leftarrow> name_crc name w1;
     (tree, found) \<leftarrow> rb_search topic_compare (sizeof_topic w2) crc (tw_domains w2 d);
     (w3, t) \<leftarrow> (case found of
         Some t \<Rightarrow>
           let b = tw_blocks w2 t in
           if t_max_length b = max_length \<and> t_check_length b = check_length \<and>
              \<not> (multi_publisher \<and> t_mutex b = None) then Some (w2, t) else None
       | None \<Rightarrow> do {
           let t = tw_fresh w2;
           tree2 \<leftarrow> insert_new topic_compare (sizeof_topic w2) t crc tree;
           Some (set_block t (new_topic_block (t_subers (tw_blocks w2 t)) t max_length crc multi_publisher check_length)
             (w2\<lparr>tw_domains := (tw_domains w2)(d := tree2), tw_fresh := Suc t\<rparr>), t)
         });
     w4 \<leftarrow> (if cache \<and> \<not> t_cache (tw_blocks w3 t) then enable_cache junk t w3 else Some w3);
     Some (w4, t)
   }"

definition topic_find :: "u8 list \<Rightarrow> nat option \<Rightarrow> topic_world \<Rightarrow> (topic_world \<times> nat option) option" where
  "topic_find name domain w =
     (case (case domain of None \<Rightarrow> tw_default w | Some d \<Rightarrow> Some d) of
        None \<Rightarrow> Some (w, None)
      | Some d \<Rightarrow> do {
          (w1, crc) \<leftarrow> name_crc name w;
          (_, found) \<leftarrow> rb_search topic_compare (sizeof_topic w1) crc (tw_domains w1 d);
          Some (w1, found)
        })"

definition find_or_create :: "u32 rbt \<Rightarrow> (nat \<Rightarrow> u8) \<Rightarrow> u8 list \<Rightarrow> nat \<Rightarrow> nat option \<Rightarrow> bool \<Rightarrow> bool \<Rightarrow> bool \<Rightarrow>
    topic_world \<Rightarrow> (topic_world \<times> nat) option" where
  "find_or_create junk_tree junk name n domain multi_publisher cache check_length w = do {
     (w1, found) \<leftarrow> topic_find name domain w;
     (case found of
        Some t \<Rightarrow> Some (w1, t)
      | None \<Rightarrow> topic_new junk_tree junk name n domain multi_publisher cache check_length w1)
   }"

text \<open>\<open>WaitTopic\<close>: every round looks the topic up and reads the clock; \<open>polls\<close> are the results and
  readings of the rounds.\<close>

fun wait_topic :: "u32 \<Rightarrow> u32 \<Rightarrow> (nat option \<times> u32) list \<Rightarrow> nat option option" where
  "wait_topic start timeout [] = None"
| "wait_topic start timeout ((found, now) # polls) =
     (case found of
        Some t \<Rightarrow> Some (Some t)
      | None \<Rightarrow> if timeout \<noteq> -1 \<and> now - start \<ge> timeout then Some None
                else wait_topic start timeout polls)"

definition get_key :: "nat option \<Rightarrow> u32 rbt \<Rightarrow> u32" where
  "get_key topic tree = (case topic of None \<Rightarrow> 0 | Some t \<Rightarrow> rb_key tree t)"

end
