(* ===== verification/Topic_Delivery.thy ===== *)
theory Topic_Delivery
  imports Topic
begin

text \<open>
  What a publication does. Every subscriber has a view: the bytes in its buffer with time stamp and state,
  the messages in its queue, or its callback. When no two subscribers share a buffer or a queue, a
  publication takes the view of each to \<open>received\<close> of it, and the callbacks run in list order.
\<close>

section \<open>Views\<close>

datatype sub_view =
    V_Sync "u8 list" u64 sync_wait_state nat
  | V_Async "u8 list" u64 async_state
  | V_Queue "queue_item list" nat queue_fun
  | V_Callback topic_callback

definition object_bytes :: "topic_world \<Rightarrow> raw_data \<Rightarrow> u8 list" where
  "object_bytes w r = (case rd_addr r of None \<Rightarrow> [] | Some a \<Rightarrow> (case tw_mem w a of None \<Rightarrow> [] | Some bs \<Rightarrow> bs))"

fun suber_view :: "topic_world \<Rightarrow> suber \<Rightarrow> sub_view" where
  "suber_view w (SYNC s) = V_Sync (object_bytes w (sy_buff s)) (sy_timestamp s) (sy_wait s) (sy_sem s)"
| "suber_view w (ASYNC a) = V_Async (object_bytes w (as_buff a)) (as_timestamp a) (as_state a)"
| "suber_view w (QUEUE q f) = V_Queue (lfq_contents (tw_queues w q)) (lfq_LENGTH (tw_queues w q)) f"
| "suber_view w (CALLBACK cb) = V_Callback cb"

fun queued_item :: "queue_fun \<Rightarrow> u64 \<Rightarrow> u8 list \<Rightarrow> queue_item" where
  "queued_item (Push_Data n) ts bs = Data_Item (take n bs)"
| "queued_item (Push_Message n) ts bs = Message_Item ts (take n bs)"

fun received :: "u64 \<Rightarrow> u8 list \<Rightarrow> sub_view \<Rightarrow> sub_view" where
  "received ts bs (V_Sync buf t wt k) =
     (if wt = WAITING then V_Sync (blit buf 0 bs) ts WAIT_CLAIMED (k + 1) else V_Sync buf t wt k)"
| "received ts bs (V_Async buf t st) =
     (if st = ASYNC_WAITING then V_Async (blit buf 0 bs) ts DATA_READY else V_Async buf t st)"
| "received ts bs (V_Queue items cap f) =
     V_Queue (if length items < cap then items @ [queued_item f ts bs] else items) cap f"
| "received ts bs (V_Callback cb) = V_Callback cb"

definition seen_payload :: "payload_arg \<Rightarrow> u64 \<Rightarrow> u8 list \<Rightarrow> payload_seen" where
  "seen_payload arg ts bs = (case arg of Raw_Payload \<Rightarrow> Saw_Raw bs | View_Payload n \<Rightarrow> Saw_View ts (take n bs)
     | Typed_Payload n \<Rightarrow> Saw_Data (take n bs))"

fun callback_marks :: "u64 \<Rightarrow> u8 list \<Rightarrow> bool \<Rightarrow> suber \<Rightarrow> callback_mark list" where
  "callback_marks ts bs isr (CALLBACK (Payload_Only f arg)) =
     [\<lparr>run_fun = f, run_in_isr = isr, run_timestamp = None, run_payload = seen_payload arg ts bs\<rparr>]"
| "callback_marks ts bs isr (CALLBACK (Timestamp_Payload f arg)) =
     [\<lparr>run_fun = f, run_in_isr = isr, run_timestamp = Some ts, run_payload = seen_payload arg ts bs\<rparr>]"
| "callback_marks ts bs isr _ = []"

section \<open>Well-formed subscribers\<close>

fun suber_objects :: "suber \<Rightarrow> nat set" where
  "suber_objects (SYNC s) = set_option (rd_addr (sy_buff s))"
| "suber_objects (ASYNC a) = set_option (rd_addr (as_buff a))"
| "suber_objects _ = {}"

fun suber_queues :: "suber \<Rightarrow> nat set" where
  "suber_queues (QUEUE q f) = {q}"
| "suber_queues _ = {}"

definition buffer_ok :: "topic_world \<Rightarrow> nat \<Rightarrow> raw_data \<Rightarrow> bool" where
  "buffer_ok w m r \<longleftrightarrow> (\<exists>a bs. rd_addr r = Some a \<and> tw_mem w a = Some bs \<and> m \<le> length bs)"

fun suber_ok :: "topic_world \<Rightarrow> nat \<Rightarrow> suber \<Rightarrow> bool" where
  "suber_ok w m (SYNC s) \<longleftrightarrow> buffer_ok w m (sy_buff s)"
| "suber_ok w m (ASYNC a) \<longleftrightarrow> buffer_ok w m (as_buff a)"
| "suber_ok w m (QUEUE q f) \<longleftrightarrow> lfq_wf (tw_queues w q)"
| "suber_ok w m (CALLBACK cb) \<longleftrightarrow> True"

text \<open>The bytes of the message that a subscriber reads, whatever the size of the message.\<close>

fun suber_reads :: "suber \<Rightarrow> nat" where
  "suber_reads (QUEUE q f) = queue_fun_size f"
| "suber_reads (CALLBACK cb) = payload_size cb"
| "suber_reads _ = 0"

definition same_but_env :: "topic_world \<Rightarrow> topic_world \<Rightarrow> bool" where
  "same_but_env w w' \<longleftrightarrow>
     w' = w\<lparr>tw_mem := tw_mem w', tw_queues := tw_queues w', tw_runs := tw_runs w'\<rparr>"

text \<open>\<open>w'\<close> differs from \<open>w\<close> at most in the objects \<open>A\<close>, the queues \<open>Q\<close> and the marks.\<close>

definition changes :: "nat set \<Rightarrow> nat set \<Rightarrow> topic_world \<Rightarrow> topic_world \<Rightarrow> bool" where
  "changes A Q w w' \<longleftrightarrow> same_but_env w w' \<and> (\<forall>a. a \<notin> A \<longrightarrow> tw_mem w' a = tw_mem w a) \<and>
     (\<forall>q. q \<notin> Q \<longrightarrow> tw_queues w' q = tw_queues w q)"

lemma same_but_env_fields:
  assumes "same_but_env w w'"
  shows "tw_blocks w' = tw_blocks w" "tw_domains w' = tw_domains w" "tw_registry w' = tw_registry w"
    "tw_default w' = tw_default w" "tw_fresh w' = tw_fresh w" "sizeof_suber w' = sizeof_suber w"
    "sizeof_kind w' = sizeof_kind w" "tw_crc8 w' = tw_crc8 w" "tw_crc32 w' = tw_crc32 w"
proof -
  obtain m q r where "w' = w\<lparr>tw_mem := m, tw_queues := q, tw_runs := r\<rparr>"
    using assms unfolding same_but_env_def by blast
  then show "tw_blocks w' = tw_blocks w" "tw_domains w' = tw_domains w" "tw_registry w' = tw_registry w"
    "tw_default w' = tw_default w" "tw_fresh w' = tw_fresh w" "sizeof_suber w' = sizeof_suber w"
    "sizeof_kind w' = sizeof_kind w" "tw_crc8 w' = tw_crc8 w" "tw_crc32 w' = tw_crc32 w"
    by simp_all
qed

lemma same_but_env_upd [simp]:
  "same_but_env w w" "same_but_env w (w\<lparr>tw_mem := m\<rparr>)" "same_but_env w (w\<lparr>tw_queues := q\<rparr>)"
  "same_but_env w (w\<lparr>tw_runs := r\<rparr>)"
  by (cases w, simp add: same_but_env_def)+

lemma same_but_env_trans: "same_but_env w w1 \<Longrightarrow> same_but_env w1 w2 \<Longrightarrow> same_but_env w w2"
proof -
  assume "same_but_env w w1" "same_but_env w1 w2"
  then obtain m q r where "w1 = w\<lparr>tw_mem := m, tw_queues := q, tw_runs := r\<rparr>"
    "w2 = w1\<lparr>tw_mem := tw_mem w2, tw_queues := tw_queues w2, tw_runs := tw_runs w2\<rparr>"
    unfolding same_but_env_def by blast
  then have "w2 = w\<lparr>tw_mem := tw_mem w2, tw_queues := tw_queues w2, tw_runs := tw_runs w2\<rparr>" by simp
  then show ?thesis unfolding same_but_env_def .
qed

lemma changes_refl [simp]: "changes A Q w w" "changes A Q w (w\<lparr>tw_runs := r\<rparr>)"
  by (simp_all add: changes_def)

lemma changes_trans:
  "changes A Q w w1 \<Longrightarrow> changes B R w1 w2 \<Longrightarrow> changes (A \<union> B) (Q \<union> R) w w2"
  unfolding changes_def by (auto intro: same_but_env_trans)

text \<open>A change elsewhere is not seen.\<close>

lemma object_bytes_frame:
  assumes "changes A Q w w'" "set_option (rd_addr r) \<inter> A = {}"
  shows "object_bytes w' r = object_bytes w r" "buffer_ok w' m r = buffer_ok w m r"
  using assms by (cases "rd_addr r"; simp add: changes_def object_bytes_def buffer_ok_def)+

lemma suber_frame:
  assumes "changes A Q w w'" "suber_objects s \<inter> A = {}" "suber_queues s \<inter> Q = {}"
  shows "suber_view w' s = suber_view w s" "suber_ok w' m s = suber_ok w m s"
proof -
  have "suber_view w' s = suber_view w s \<and> suber_ok w' m s = suber_ok w m s"
  proof (cases s)
    case (QUEUE q f)
    then have "tw_queues w' q = tw_queues w q" using assms by (simp add: changes_def)
    then show ?thesis by (simp add: QUEUE)
  qed (use assms object_bytes_frame [OF assms(1)] in simp_all)
  then show "suber_view w' s = suber_view w s" "suber_ok w' m s = suber_ok w m s" by simp_all
qed

section \<open>One subscriber\<close>

text \<open>The message \<open>bs\<close> at \<open>data\<close>.\<close>

definition message_at :: "topic_world \<Rightarrow> raw_data \<Rightarrow> u8 list \<Rightarrow> bool" where
  "message_at w data bs \<longleftrightarrow> rd_size data = length bs \<and>
     (bs = [] \<or> (\<exists>a m. rd_addr data = Some a \<and> tw_mem w a = Some m \<and> take (length bs) m = bs))"

lemma message_at_length: "message_at w data bs \<Longrightarrow> rd_size data = length bs"
  by (simp add: message_at_def)

lemma message_at_read: "message_at w data bs \<Longrightarrow> n \<le> length bs \<Longrightarrow> read_object w (rd_addr data) n = Some (take n bs)"
proof -
  assume m: "message_at w data bs" "n \<le> length bs"
  show ?thesis
  proof (cases "n = 0")
    case True
    then show ?thesis by (simp add: read_object_def)
  next
    case False
    then obtain a mem where a: "rd_addr data = Some a" "tw_mem w a = Some mem" "take (length bs) mem = bs"
      using m by (auto simp: message_at_def)
    then have "length bs \<le> length mem" by (metis nat_le_linear take_all)
    moreover have "take n bs = take n (take (length bs) mem)" using a(3) by simp
    then have "take n mem = take n bs" using m(2) by (simp add: min_def)
    ultimately show ?thesis using a m(2) False by (simp add: read_object_def)
  qed
qed

lemma copy_message:
  assumes "message_at w data bs" "buffer_ok w m r" "length bs \<le> m"
  obtains w' where "copy_object (rd_addr r) (rd_addr data) (rd_size data) w = Some w'"
    "changes (set_option (rd_addr r)) {} w w'" "tw_runs w' = tw_runs w"
    "object_bytes w' r = blit (object_bytes w r) 0 bs" "buffer_ok w' m r"
proof -
  obtain a old where a: "rd_addr r = Some a" "tw_mem w a = Some old" "m \<le> length old"
    using assms(2) by (auto simp: buffer_ok_def)
  note len = message_at_length [OF assms(1)]
  show thesis
  proof (cases "bs = []")
    case True
    then show thesis using that [of w] assms(2) len by (simp add: copy_object_def)
  next
    case False
    then have "copy_object (rd_addr r) (rd_addr data) (rd_size data) w =
        Some (w\<lparr>tw_mem := (tw_mem w)(a \<mapsto> blit old 0 bs)\<rparr>)"
      using a assms(3) len message_at_read [OF assms(1), of "length bs"]
      by (simp add: copy_object_def array_copy_def)
    then show thesis using that a assms(3)
      by (simp add: changes_def object_bytes_def buffer_ok_def)
  qed
qed

lemma push_to_queue_ok:
  assumes "lfq_wf (tw_queues w q)"
  obtains w' where "push_to_queue q item w = Some w'" "changes {} {q} w w'" "tw_runs w' = tw_runs w"
    "lfq_wf (tw_queues w' q)" "lfq_LENGTH (tw_queues w' q) = lfq_LENGTH (tw_queues w q)"
    "lfq_contents (tw_queues w' q) = (let items = lfq_contents (tw_queues w q) in
       if length items < lfq_LENGTH (tw_queues w q) then items @ [item] else items)"
proof (cases "length (lfq_contents (tw_queues w q)) < lfq_LENGTH (tw_queues w q)")
  case True
  then obtain q' where "lfq_push (tw_queues w q) item = Some (q', OK)" "lfq_wf q'"
    "lfq_contents q' = lfq_contents (tw_queues w q) @ [item]" "lfq_LENGTH q' = lfq_LENGTH (tw_queues w q)"
    using lfq.push_room [OF assms, of item] by auto
  then show thesis using that [of "w\<lparr>tw_queues := (tw_queues w)(q := q')\<rparr>"] True
    by (simp add: push_to_queue_def changes_def Let_def)
next
  case False
  then have "lfq_push (tw_queues w q) item = Some (tw_queues w q, FULL)"
    using lfq.push_full [OF assms, of item] lfq.bound [OF assms] by auto
  then show thesis using that [of w] False assms by (simp add: push_to_queue_def Let_def)
qed


lemma invoke_payload_ok:
  assumes "message_at w data bs" "\<forall>n. arg \<in> {View_Payload n, Typed_Payload n} \<longrightarrow> n \<le> length bs"
  shows "invoke_payload arg ts data w = Some (seen_payload arg ts bs)"
  using assms(2) message_at_read [OF assms(1)] message_at_length [OF assms(1)]
  by (cases arg) (simp_all add: invoke_payload_def seen_payload_def)

lemma run_callback_ok:
  assumes "message_at w data bs" "payload_size cb \<le> length bs"
  shows "run_callback cb isr ts data w = Some (w\<lparr>tw_runs := tw_runs w @ callback_marks ts bs isr (CALLBACK cb)\<rparr>)"
proof -
  have "invoke_payload arg ts data w = Some (seen_payload arg ts bs)"
    if "cb = Payload_Only f arg \<or> cb = Timestamp_Payload f arg" for f arg
    by (rule invoke_payload_ok [OF assms(1)]) (use that assms(2) in \<open>auto simp: payload_size_def\<close>)
  then show ?thesis by (cases cb) (simp_all add: run_callback_def)
qed

lemma queue_handler_ok:
  assumes "message_at w data bs" "queue_fun_size f \<le> length bs"
  shows "queue_handler f ts data q w = push_to_queue q (queued_item f ts bs) w"
  using assms(2) message_at_read [OF assms(1)] by (cases f) (simp_all add: queue_handler_def queue_fun_size_def)

lemma dispatch_subscriber_ok:
  assumes "message_at w data bs" "suber_ok w m s" "length bs \<le> m" "suber_reads s \<le> length bs"
  obtains s' w' where "dispatch_subscriber ts data fc isr s w = Some (s', w')"
    "changes (suber_objects s) (suber_queues s) w w'"
    "tw_runs w' = tw_runs w @ callback_marks ts bs (fc \<and> isr) s"
    "suber_view w' s' = received ts bs (suber_view w s)" "suber_ok w' m s'"
    "suber_objects s' = suber_objects s" "suber_queues s' = suber_queues s" "suber_reads s' = suber_reads s"
proof (cases s)
  case (SYNC y)
  show thesis
  proof (cases "sy_wait y = WAITING")
    case True
    obtain w' where "copy_object (rd_addr (sy_buff y)) (rd_addr data) (rd_size data) w = Some w'"
      "changes (set_option (rd_addr (sy_buff y))) {} w w'" "tw_runs w' = tw_runs w"
      "object_bytes w' (sy_buff y) = blit (object_bytes w (sy_buff y)) 0 bs" "buffer_ok w' m (sy_buff y)"
      using copy_message [OF assms(1) _ assms(3)] assms(2) SYNC by auto
    then show thesis using that [of "SYNC (sync_post (sync_stamp ts (y\<lparr>sy_wait := WAIT_CLAIMED\<rparr>)))" w'] SYNC True
      by (simp add: dispatch_subscriber_def sync_claim_def sync_post_def sync_stamp_def)
  next
    case False
    then show thesis using that [of s w] SYNC assms(2) by (simp add: dispatch_subscriber_def sync_claim_def)
  qed
next
  case (ASYNC a)
  show thesis
  proof (cases "as_state a = ASYNC_WAITING")
    case True
    obtain w' where "copy_object (rd_addr (as_buff a)) (rd_addr data) (rd_size data) w = Some w'"
      "changes (set_option (rd_addr (as_buff a))) {} w w'" "tw_runs w' = tw_runs w"
      "object_bytes w' (as_buff a) = blit (object_bytes w (as_buff a)) 0 bs" "buffer_ok w' m (as_buff a)"
      using copy_message [OF assms(1) _ assms(3)] assms(2) ASYNC by auto
    then show thesis using that [of "ASYNC (a\<lparr>as_timestamp := ts, as_state := DATA_READY\<rparr>)" w'] ASYNC True
      by (simp add: dispatch_subscriber_def)
  next
    case False
    then show thesis using that [of s w] ASYNC assms(2) by (simp add: dispatch_subscriber_def)
  qed
next
  case (QUEUE q f)
  obtain w' where "push_to_queue q (queued_item f ts bs) w = Some w'" "changes {} {q} w w'" "tw_runs w' = tw_runs w"
    "lfq_wf (tw_queues w' q)" "lfq_LENGTH (tw_queues w' q) = lfq_LENGTH (tw_queues w q)"
    "lfq_contents (tw_queues w' q) = (let items = lfq_contents (tw_queues w q) in
       if length items < lfq_LENGTH (tw_queues w q) then items @ [queued_item f ts bs] else items)"
    using push_to_queue_ok [of w q] assms(2) QUEUE by auto
  then show thesis using that [of s w'] QUEUE queue_handler_ok [OF assms(1), of f ts q] assms(4)
    by (simp add: dispatch_subscriber_def Let_def)
next
  case (CALLBACK cb)
  then show thesis
    using that [of s "w\<lparr>tw_runs := tw_runs w @ callback_marks ts bs (fc \<and> isr) s\<rparr>"]
      run_callback_ok [OF assms(1), of cb "fc \<and> isr" ts] assms(4)
    by (simp add: dispatch_subscriber_def)
qed

section \<open>All subscribers\<close>

definition separate :: "(nat \<Rightarrow> suber) \<Rightarrow> nat list \<Rightarrow> bool" where
  "separate d ns \<longleftrightarrow> (\<forall>n \<in> set ns. \<forall>m \<in> set ns. n \<noteq> m \<longrightarrow>
     suber_objects (d n) \<inter> suber_objects (d m) = {} \<and> suber_queues (d n) \<inter> suber_queues (d m) = {})"

definition all_objects :: "(nat \<Rightarrow> suber) \<Rightarrow> nat list \<Rightarrow> nat set" where
  "all_objects d ns = (\<Union>n \<in> set ns. suber_objects (d n))"

definition all_queues :: "(nat \<Rightarrow> suber) \<Rightarrow> nat list \<Rightarrow> nat set" where
  "all_queues d ns = (\<Union>n \<in> set ns. suber_queues (d n))"

lemma all_objects_Cons [simp]: "all_objects d (n # ns) = suber_objects (d n) \<union> all_objects d ns"
  "all_queues d (n # ns) = suber_queues (d n) \<union> all_queues d ns"
  by (simp_all add: all_objects_def all_queues_def)

lemma all_objects_upd [simp]: "n \<notin> set ns \<Longrightarrow> all_objects (d(n := s)) ns = all_objects d ns"
  "n \<notin> set ns \<Longrightarrow> all_queues (d(n := s)) ns = all_queues d ns"
  by (auto simp: all_objects_def all_queues_def split: if_splits)

lemma separate_Cons:
  "separate d (n # ns) \<Longrightarrow> n \<notin> set ns \<Longrightarrow> separate d ns \<and> suber_objects (d n) \<inter> all_objects d ns = {} \<and>
    suber_queues (d n) \<inter> all_queues d ns = {} \<and> separate (d(n := s)) ns"
proof -
  assume sep: "separate d (n # ns)" and n: "n \<notin> set ns"
  have "suber_objects (d n) \<inter> suber_objects (d m) = {}" "suber_queues (d n) \<inter> suber_queues (d m) = {}"
    if "m \<in> set ns" for m
    using sep that n unfolding separate_def by (metis list.set_intros)+
  then have "suber_objects (d n) \<inter> all_objects d ns = {}" "suber_queues (d n) \<inter> all_queues d ns = {}"
    by (auto simp: all_objects_def all_queues_def)
  moreover have "separate d ns" using sep by (simp add: separate_def)
  moreover have "separate (d(n := s)) ns" using sep n by (auto simp: separate_def)
  ultimately show ?thesis by simp
qed

lemma message_at_frame:
  assumes "message_at w data bs" "changes A Q w w'" "set_option (rd_addr data) \<inter> A = {}"
  shows "message_at w' data bs"
  using assms by (fastforce simp: message_at_def changes_def)

text \<open>Nobody but the subscribers themselves sees or causes a change.\<close>

lemma dispatch_each_ok:
  assumes "message_at w data bs" "length bs \<le> m" "distinct ns" "separate d ns"
    "\<forall>n \<in> set ns. suber_ok w m (d n) \<and> suber_reads (d n) \<le> length bs"
    "set_option (rd_addr data) \<inter> all_objects d ns = {}"
  obtains d' w' where "foreach_spec (dispatch_each ts data fc isr) ns d (Some w) = (OK, d', Some w')"
    "changes (all_objects d ns) (all_queues d ns) w w'"
    "tw_runs w' = tw_runs w @ concat (map (\<lambda>n. callback_marks ts bs (fc \<and> isr) (d n)) ns)"
    "\<forall>n. n \<notin> set ns \<longrightarrow> d' n = d n"
    "\<forall>n \<in> set ns. suber_view w' (d' n) = received ts bs (suber_view w (d n)) \<and> suber_ok w' m (d' n) \<and>
       suber_objects (d' n) = suber_objects (d n) \<and> suber_queues (d' n) = suber_queues (d n) \<and>
       suber_reads (d' n) = suber_reads (d n)"
  using assms
proof (induction ns arbitrary: d w thesis)
  case Nil
  show ?case by (rule Nil.prems(1) [of d w]) (simp_all add: all_objects_def all_queues_def)
next
  case (Cons n ns)
  have n: "n \<notin> set ns" "distinct ns" using Cons.prems(4) by auto
  obtain s' w1 where s: "dispatch_subscriber ts data fc isr (d n) w = Some (s', w1)"
    "changes (suber_objects (d n)) (suber_queues (d n)) w w1"
    "tw_runs w1 = tw_runs w @ callback_marks ts bs (fc \<and> isr) (d n)"
    "suber_view w1 s' = received ts bs (suber_view w (d n))" "suber_ok w1 m s'"
    "suber_objects s' = suber_objects (d n)" "suber_queues s' = suber_queues (d n)"
    "suber_reads s' = suber_reads (d n)"
    using dispatch_subscriber_ok [OF Cons.prems(2) _ Cons.prems(3), of "d n" ts fc isr] Cons.prems(6) by auto
  define d1 where "d1 = d(n := s')"
  have d1: "d1 k = d k" if "k \<in> set ns" for k using that n by (auto simp: d1_def)
  note sep = separate_Cons [OF Cons.prems(5) n(1), of s', folded d1_def]
  have frame: "suber_view w1 (d k) = suber_view w (d k)" "suber_ok w1 m (d k) = suber_ok w m (d k)"
    if "k \<in> set ns" for k
  proof -
    have "suber_objects (d k) \<inter> suber_objects (d n) = {}" "suber_queues (d k) \<inter> suber_queues (d n) = {}"
      using that sep unfolding all_objects_def all_queues_def by blast+
    then show "suber_view w1 (d k) = suber_view w (d k)" "suber_ok w1 m (d k) = suber_ok w m (d k)"
      using suber_frame [OF s(2), of "d k"] by simp_all
  qed
  have m1: "message_at w1 data bs"
    by (rule message_at_frame [OF Cons.prems(2) s(2)]) (use Cons.prems(7) in auto)
  have all: "all_objects d1 ns = all_objects d ns" "all_queues d1 ns = all_queues d ns"
    using n(1) by (simp_all add: d1_def)
  obtain d' w' where r: "foreach_spec (dispatch_each ts data fc isr) ns d1 (Some w1) = (OK, d', Some w')"
    "changes (all_objects d1 ns) (all_queues d1 ns) w1 w'"
    "tw_runs w' = tw_runs w1 @ concat (map (\<lambda>n. callback_marks ts bs (fc \<and> isr) (d1 n)) ns)"
    "\<forall>n. n \<notin> set ns \<longrightarrow> d' n = d1 n"
    "\<forall>n \<in> set ns. suber_view w' (d' n) = received ts bs (suber_view w1 (d1 n)) \<and> suber_ok w' m (d' n) \<and>
       suber_objects (d' n) = suber_objects (d1 n) \<and> suber_queues (d' n) = suber_queues (d1 n) \<and>
       suber_reads (d' n) = suber_reads (d1 n)"
  proof (rule Cons.IH [of d1 w1])
    show "\<forall>n \<in> set ns. suber_ok w1 m (d1 n) \<and> suber_reads (d1 n) \<le> length bs"
      using Cons.prems(6) frame d1 by auto
    show "set_option (rd_addr data) \<inter> all_objects d1 ns = {}" using Cons.prems(7) all by auto
  qed (use m1 Cons.prems(3) n sep in auto)
  show ?case
  proof (rule Cons.prems(1) [of d' w'])
    show "foreach_spec (dispatch_each ts data fc isr) (n # ns) d (Some w) = (OK, d', Some w')"
      using s(1) r(1) by (simp add: dispatch_each_def d1_def)
    show "changes (all_objects d (n # ns)) (all_queues d (n # ns)) w w'"
      using changes_trans [OF s(2) r(2)] all by simp
    have eq: "map (\<lambda>n. callback_marks ts bs (fc \<and> isr) (d1 n)) ns = map (\<lambda>n. callback_marks ts bs (fc \<and> isr) (d n)) ns"
      using d1 by simp
    show "tw_runs w' = tw_runs w @ concat (map (\<lambda>n. callback_marks ts bs (fc \<and> isr) (d n)) (n # ns))"
      using r(3) [unfolded eq] s(3) by simp
    show "\<forall>k. k \<notin> set (n # ns) \<longrightarrow> d' k = d k" using r(4) by (simp add: d1_def)
    have me: "d' n = s'" using r(4) n(1) by (simp add: d1_def)
    have "suber_view w' s' = suber_view w1 s'" "suber_ok w' m s' = suber_ok w1 m s'"
      using suber_frame [OF r(2), of s'] sep s(6,7) all by auto
    then have "suber_view w' (d' n) = received ts bs (suber_view w (d n))" "suber_ok w' m (d' n)"
      using me s(4,5) by simp_all
    then show "\<forall>k \<in> set (n # ns). suber_view w' (d' k) = received ts bs (suber_view w (d k)) \<and> suber_ok w' m (d' k) \<and>
       suber_objects (d' k) = suber_objects (d k) \<and> suber_queues (d' k) = suber_queues (d k) \<and>
       suber_reads (d' k) = suber_reads (d k)"
      using r(5) me s(6-8) frame d1 by simp
  qed
qed


section \<open>Publication\<close>

definition topic_free :: "topic_block \<Rightarrow> bool" where
  "topic_free b \<longleftrightarrow> (case t_mutex b of Some held \<Rightarrow> \<not> held | None \<Rightarrow> t_busy b = UNLOCKED)"

abbreviation subers_of :: "topic_world \<Rightarrow> nat \<Rightarrow> nat \<Rightarrow> suber" where
  "subers_of w t \<equiv> node_data (t_subers (tw_blocks w t))"

definition cache_ok :: "topic_world \<Rightarrow> nat \<Rightarrow> nat list \<Rightarrow> bool" where
  "cache_ok w t ns \<longleftrightarrow> (let b = tw_blocks w t in t_cache b \<longrightarrow> buffer_ok w (t_max_length b) (t_data b) \<and>
     set_option (rd_addr (t_data b)) \<inter> all_objects (subers_of w t) ns = {})"

definition subers_ok :: "topic_world \<Rightarrow> nat \<Rightarrow> nat list \<Rightarrow> bool" where
  "subers_ok w t ns \<longleftrightarrow> (let l = t_subers (tw_blocks w t) in linked l ns \<and> separate (node_data l) ns \<and>
     (\<forall>n \<in> set ns. sizeof_suber w \<le> node_size l n \<and> suber_ok w (t_max_length (tw_blocks w t)) (node_data l n)))"

definition topic_ok :: "topic_world \<Rightarrow> nat \<Rightarrow> nat list \<Rightarrow> bool" where
  "topic_ok w t ns \<longleftrightarrow> topic_free (tw_blocks w t) \<and> subers_ok w t ns \<and> cache_ok w t ns"

text \<open>What the publisher owes: a message of an allowed size that fits the readers, in memory that is not a
  subscriber's buffer, and no callback context for a topic with a mutex.\<close>

definition may_publish :: "topic_world \<Rightarrow> nat \<Rightarrow> nat list \<Rightarrow> nat option \<Rightarrow> u8 list \<Rightarrow> bool \<Rightarrow> bool" where
  "may_publish w t ns addr bs fc \<longleftrightarrow> (let b = tw_blocks w t in
     message_at w \<lparr>rd_addr = addr, rd_size = length bs\<rparr> bs \<and> check_publish_size b (length bs) \<and>
     set_option addr \<inter> all_objects (subers_of w t) ns = {} \<and>
     (\<forall>n \<in> set ns. suber_reads (subers_of w t n) \<le> length bs) \<and> (fc \<longrightarrow> t_mutex b = None))"

lemma check_publish_size_le: "check_publish_size b n \<Longrightarrow> n \<le> t_max_length b"
  by (simp add: check_publish_size_def split: if_splits)

lemma lock_cycle:
  assumes "topic_free b" "fc \<longrightarrow> t_mutex b = None"
  obtains b1 where "(if fc then topic_lock_from_callback b else topic_lock b) = Some b1"
    "\<And>l d ts. (if fc then topic_unlock_from_callback (b1\<lparr>t_subers := l, t_data := d, t_timestamp := ts\<rparr>)
       else Some (topic_unlock (b1\<lparr>t_subers := l, t_data := d, t_timestamp := ts\<rparr>))) =
         Some (b\<lparr>t_subers := l, t_data := d, t_timestamp := ts\<rparr>)"
    "t_subers b1 = t_subers b" "t_data b1 = t_data b" "t_cache b1 = t_cache b" "t_max_length b1 = t_max_length b"
    "t_check_length b1 = t_check_length b" "t_timestamp b1 = t_timestamp b" "t_crc32 b1 = t_crc32 b"
proof (cases "t_mutex b")
  case None
  then show thesis using that [of "b\<lparr>t_busy := LOCKED\<rparr>"] assms
    by (cases b) (simp add: topic_free_def topic_lock_def topic_unlock_def topic_lock_from_callback_def
        topic_unlock_from_callback_def)
next
  case (Some h)
  then show thesis using that [of "b\<lparr>t_mutex := Some True\<rparr>"] assms
    by (cases b) (simp add: topic_free_def topic_lock_def topic_unlock_def)
qed

lemma store_published_data_ok:
  assumes "cache_ok w t ns" "message_at w \<lparr>rd_addr = addr, rd_size = length bs\<rparr> bs"
    "length bs \<le> t_max_length (tw_blocks w t)" "set_option addr \<inter> all_objects (subers_of w t) ns = {}"
  obtains w1 data where
    "store_published_data t addr (length bs) ts w =
       Some (set_block t ((tw_blocks w t)\<lparr>t_data := data, t_timestamp := ts\<rparr>) w1, data)"
    "changes (if t_cache (tw_blocks w t) then set_option (rd_addr (t_data (tw_blocks w t))) else {}) {} w w1"
    "tw_runs w1 = tw_runs w" "message_at w1 data bs"
    "set_option (rd_addr data) \<inter> all_objects (subers_of w t) ns = {}"
    "t_cache (tw_blocks w t) \<longrightarrow> rd_addr data = rd_addr (t_data (tw_blocks w t)) \<and>
       buffer_ok w1 (t_max_length (tw_blocks w t)) data"
    "\<not> t_cache (tw_blocks w t) \<longrightarrow> rd_addr data = addr"
proof (cases "t_cache (tw_blocks w t)")
  case True
  let ?b = "tw_blocks w t" and ?data = "(t_data (tw_blocks w t))\<lparr>rd_size := length bs\<rparr>"
  have ok: "buffer_ok w (t_max_length ?b) (t_data ?b)"
    "set_option (rd_addr (t_data ?b)) \<inter> all_objects (subers_of w t) ns = {}"
    using assms(1) True by (simp_all add: cache_ok_def Let_def)
  obtain w1 where w1: "copy_object (rd_addr (t_data ?b)) addr (length bs) w = Some w1"
    "changes (set_option (rd_addr (t_data ?b))) {} w w1" "tw_runs w1 = tw_runs w"
    "object_bytes w1 (t_data ?b) = blit (object_bytes w (t_data ?b)) 0 bs" "buffer_ok w1 (t_max_length ?b) (t_data ?b)"
    using copy_message [OF assms(2) ok(1) assms(3)] by auto
  obtain a m where a: "rd_addr (t_data ?b) = Some a" "tw_mem w1 a = Some m" "length bs \<le> length m"
    using w1(5) assms(3) by (auto simp: buffer_ok_def)
  have "take (length bs) m = bs" using w1(4) a by (simp add: object_bytes_def blit_def)
  then have "message_at w1 ?data bs" using a by (simp add: message_at_def)
  moreover have "buffer_ok w1 (t_max_length ?b) ?data" using w1(5) by (simp add: buffer_ok_def)
  ultimately show thesis
    using that [of ?data w1] w1 True ok(2) same_but_env_fields(1)
    by (simp add: store_published_data_def Let_def)
next
  case False
  let ?data = "(t_data (tw_blocks w t))\<lparr>rd_addr := addr, rd_size := length bs\<rparr>"
  have "message_at w ?data bs" using assms(2) by (simp add: message_at_def)
  then show thesis using that [of ?data w] False assms(4) by (simp add: store_published_data_def Let_def)
qed


lemma set_block_frame [simp]:
  "tw_mem (set_block t b w) = tw_mem w" "tw_queues (set_block t b w) = tw_queues w"
  "tw_runs (set_block t b w) = tw_runs w" "tw_blocks (set_block t b w) = (tw_blocks w)(t := b)"
  "sizeof_suber (set_block t b w) = sizeof_suber w" "tw_fresh (set_block t b w) = tw_fresh w" "tw_crc8 (set_block t b w) = tw_crc8 w"
  "message_at (set_block t b w) data bs = message_at w data bs"
  "buffer_ok (set_block t b w) m r = buffer_ok w m r" "object_bytes (set_block t b w) r = object_bytes w r"
  by (simp_all add: set_block_def object_bytes_def buffer_ok_def message_at_def split: option.split)

lemma set_block_views [simp]:
  "suber_view (set_block t b w) s = suber_view w s" "suber_ok (set_block t b w) m s = suber_ok w m s"
  by (cases s; simp)+

lemma set_block_twice [simp]: "set_block t b (set_block t b' w) = set_block t b w"
  by (simp add: set_block_def)

lemma dispatch_subscribers_ok:
  assumes "subers_ok w t ns" "length ns < fuel" "message_at w data bs" "length bs \<le> t_max_length (tw_blocks w t)"
    "\<forall>n \<in> set ns. suber_reads (subers_of w t n) \<le> length bs"
    "set_option (rd_addr data) \<inter> all_objects (subers_of w t) ns = {}"
  obtains d' w' where
    "dispatch_subscribers fuel t ts data fc isr w = Some (set_block t ((tw_blocks w t)\<lparr>t_subers :=
       (t_subers (tw_blocks w t))\<lparr>node_data := d'\<rparr>\<rparr>) w')"
    "changes (all_objects (subers_of w t) ns) (all_queues (subers_of w t) ns) w w'"
    "tw_runs w' = tw_runs w @ concat (map (\<lambda>n. callback_marks ts bs (fc \<and> isr) (subers_of w t n)) ns)"
    "\<forall>n. n \<notin> set ns \<longrightarrow> d' n = subers_of w t n"
    "\<forall>n \<in> set ns. suber_view w' (d' n) = received ts bs (suber_view w (subers_of w t n)) \<and>
       suber_ok w' (t_max_length (tw_blocks w t)) (d' n) \<and>
       suber_objects (d' n) = suber_objects (subers_of w t n) \<and>
       suber_queues (d' n) = suber_queues (subers_of w t n) \<and> suber_reads (d' n) = suber_reads (subers_of w t n)"
proof -
  let ?l = "t_subers (tw_blocks w t)" and ?f = "dispatch_each ts data fc isr"
  have l: "linked ?l ns" "separate (node_data ?l) ns" "\<forall>n \<in> set ns. sizeof_suber w \<le> node_size ?l n"
    "\<forall>n \<in> set ns. suber_ok w (t_max_length (tw_blocks w t)) (node_data ?l n)"
    using assms(1) by (simp_all add: subers_ok_def Let_def)
  have dist: "distinct ns" using l(1) by (simp add: linked_def)
  have each: "\<forall>n \<in> set ns. suber_ok w (t_max_length (tw_blocks w t)) (node_data ?l n) \<and> suber_reads (node_data ?l n) \<le> length bs"
    using l(4) assms(5) by simp
  obtain d' w' where r: "foreach_spec ?f ns (node_data ?l) (Some w) = (OK, d', Some w')"
    "changes (all_objects (node_data ?l) ns) (all_queues (node_data ?l) ns) w w'"
    "tw_runs w' = tw_runs w @ concat (map (\<lambda>n. callback_marks ts bs (fc \<and> isr) (node_data ?l n)) ns)"
    "\<forall>n. n \<notin> set ns \<longrightarrow> d' n = node_data ?l n"
    "\<forall>n \<in> set ns. suber_view w' (d' n) = received ts bs (suber_view w (node_data ?l n)) \<and>
       suber_ok w' (t_max_length (tw_blocks w t)) (d' n) \<and> suber_objects (d' n) = suber_objects (node_data ?l n) \<and>
       suber_queues (d' n) = suber_queues (node_data ?l n) \<and> suber_reads (d' n) = suber_reads (node_data ?l n)"
    by (rule dispatch_each_ok [OF assms(3,4) dist l(2) each assms(6), of ts fc isr]) (rule that; assumption)
  have "lf_list_foreach fuel LIMIT_MORE (sizeof_suber w) ?l ?f (Some w) = Some (?l\<lparr>node_data := d'\<rparr>, OK, Some w')"
    using walk_foreach_ring [of "node_next ?l" "head_node ?l" ns "head_node ?l" fuel
      "\<lambda>p. size_limit_check LIMIT_MORE (sizeof_suber w) (node_size ?l p)" ?f "node_data ?l" "Some w"] l(1,3) assms(2) r(1)
    by (simp add: lf_list_foreach_def linked_def)
  moreover have "tw_blocks w' = tw_blocks w" using r(2) same_but_env_fields(1) by (simp add: changes_def)
  ultimately show thesis using that [of d' w'] r(2-5) by (simp add: dispatch_subscribers_def)
qed

text \<open>A publication: the new block, the views, the callbacks and the memory.\<close>

lemma publish_raw_ok:
  assumes "topic_ok w t ns" "may_publish w t ns addr bs fc" "length ns < fuel"
  obtains w' d' data where "publish_raw fuel t addr (length bs) ts fc isr w = Some w'"
    "tw_blocks w' = (tw_blocks w)(t := (tw_blocks w t)\<lparr>t_subers := (t_subers (tw_blocks w t))\<lparr>node_data := d'\<rparr>,
       t_data := data, t_timestamp := ts\<rparr>)"
    "topic_ok w' t ns"
    "tw_runs w' = tw_runs w @ concat (map (\<lambda>n. callback_marks ts bs (fc \<and> isr) (subers_of w t n)) ns)"
    "\<forall>n. n \<notin> set ns \<longrightarrow> d' n = subers_of w t n"
    "\<forall>n \<in> set ns. suber_view w' (d' n) = received ts bs (suber_view w (subers_of w t n)) \<and>
       suber_objects (d' n) = suber_objects (subers_of w t n) \<and>
       suber_queues (d' n) = suber_queues (subers_of w t n) \<and> suber_reads (d' n) = suber_reads (subers_of w t n)"
    "message_at w' data bs"
    "rd_addr data = (if t_cache (tw_blocks w t) then rd_addr (t_data (tw_blocks w t)) else addr)"
    "\<forall>a. a \<notin> all_objects (subers_of w t) ns \<and> (t_cache (tw_blocks w t) \<longrightarrow> a \<notin> set_option (rd_addr (t_data (tw_blocks w t))))
       \<longrightarrow> tw_mem w' a = tw_mem w a"
    "sizeof_suber w' = sizeof_suber w" "tw_crc8 w' = tw_crc8 w"
proof -
  let ?b = "tw_blocks w t"
  have ok: "topic_free ?b" "subers_ok w t ns" "cache_ok w t ns" using assms(1) by (simp_all add: topic_ok_def)
  have pub: "message_at w \<lparr>rd_addr = addr, rd_size = length bs\<rparr> bs" "check_publish_size ?b (length bs)"
    "set_option addr \<inter> all_objects (subers_of w t) ns = {}" "\<forall>n \<in> set ns. suber_reads (subers_of w t n) \<le> length bs"
    "fc \<longrightarrow> t_mutex ?b = None" using assms(2) by (simp_all add: may_publish_def Let_def)
  obtain b1 where b1: "(if fc then topic_lock_from_callback ?b else topic_lock ?b) = Some b1"
    "\<And>l d ts. (if fc then topic_unlock_from_callback (b1\<lparr>t_subers := l, t_data := d, t_timestamp := ts\<rparr>)
       else Some (topic_unlock (b1\<lparr>t_subers := l, t_data := d, t_timestamp := ts\<rparr>))) =
         Some (?b\<lparr>t_subers := l, t_data := d, t_timestamp := ts\<rparr>)"
    "t_subers b1 = t_subers ?b" "t_data b1 = t_data ?b" "t_cache b1 = t_cache ?b" "t_max_length b1 = t_max_length ?b"
    "t_check_length b1 = t_check_length ?b" 
    by (rule lock_cycle [OF ok(1) pub(5)]) (rule that; assumption)
  define w0 where "w0 = set_block t b1 w"
  have w0: "cache_ok w0 t ns" "message_at w0 \<lparr>rd_addr = addr, rd_size = length bs\<rparr> bs" "tw_blocks w0 t = b1"
    "subers_of w0 t = subers_of w t"
    using ok(3) pub(1) b1(3-6) by (simp_all add: w0_def cache_ok_def Let_def)
  have w0len: "length bs \<le> t_max_length (tw_blocks w0 t)" using check_publish_size_le [OF pub(2)] b1(6) w0(3) by simp
  have w0sep: "set_option addr \<inter> all_objects (subers_of w0 t) ns = {}" using pub(3) w0(4) by simp
  obtain w1 data where st: "store_published_data t addr (length bs) ts w0 =
       Some (set_block t (b1\<lparr>t_data := data, t_timestamp := ts\<rparr>) w1, data)"
    "changes (if t_cache ?b then set_option (rd_addr (t_data ?b)) else {}) {} w0 w1"
    "tw_runs w1 = tw_runs w0" "message_at w1 data bs" "set_option (rd_addr data) \<inter> all_objects (subers_of w t) ns = {}"
    "t_cache ?b \<longrightarrow> rd_addr data = rd_addr (t_data ?b) \<and> buffer_ok w1 (t_max_length ?b) data"
    "\<not> t_cache ?b \<longrightarrow> rd_addr data = addr"
    by (rule store_published_data_ok [OF w0(1,2) w0len w0sep, of ts]) (rule that; simp only: w0(3,4) b1(3-6))
  define w1s where "w1s = set_block t (b1\<lparr>t_data := data, t_timestamp := ts\<rparr>) w1"
  have frame0: "suber_view w1 (subers_of w t n) = suber_view w (subers_of w t n)"
    "suber_ok w1 m (subers_of w t n) = suber_ok w m (subers_of w t n)" if "n \<in> set ns" for n m
  proof -
    have "t_cache ?b \<longrightarrow> suber_objects (subers_of w t n) \<inter> set_option (rd_addr (t_data ?b)) = {}"
      using ok(3) that by (auto simp: cache_ok_def Let_def all_objects_def)
    then show "suber_view w1 (subers_of w t n) = suber_view w (subers_of w t n)"
      "suber_ok w1 m (subers_of w t n) = suber_ok w m (subers_of w t n)"
      using suber_frame [OF st(2), of "subers_of w t n"] by (simp_all add: w0_def split: if_splits)
  qed
  have env1: "tw_blocks w1 = tw_blocks w0" "sizeof_suber w1 = sizeof_suber w0" "tw_crc8 w1 = tw_crc8 w0"
    using st(2) same_but_env_fields by (simp_all add: changes_def)
  have s1: "subers_ok w1s t ns" "message_at w1s data bs" "tw_blocks w1s t = b1\<lparr>t_data := data, t_timestamp := ts\<rparr>"
    using ok(2) st(4) b1(3,6) frame0 env1 by (simp_all add: w1s_def w0_def subers_ok_def Let_def)
  have s14: "subers_of w1s t = subers_of w t" "t_max_length (tw_blocks w1s t) = t_max_length ?b"
    using s1(3) b1(3,6) by simp_all
  have s1pre: "length bs \<le> t_max_length (tw_blocks w1s t)" "\<forall>n \<in> set ns. suber_reads (subers_of w1s t n) \<le> length bs"
    "set_option (rd_addr data) \<inter> all_objects (subers_of w1s t) ns = {}"
    using check_publish_size_le [OF pub(2)] pub(4) st(5) s14 by simp_all
  obtain d' w2 where d: "dispatch_subscribers fuel t ts data fc isr w1s = Some (set_block t ((tw_blocks w1s t)\<lparr>t_subers :=
       (t_subers (tw_blocks w1s t))\<lparr>node_data := d'\<rparr>\<rparr>) w2)"
    "changes (all_objects (subers_of w t) ns) (all_queues (subers_of w t) ns) w1s w2"
    "tw_runs w2 = tw_runs w1s @ concat (map (\<lambda>n. callback_marks ts bs (fc \<and> isr) (subers_of w t n)) ns)"
    "\<forall>n. n \<notin> set ns \<longrightarrow> d' n = subers_of w t n"
    "\<forall>n \<in> set ns. suber_view w2 (d' n) = received ts bs (suber_view w1s (subers_of w t n)) \<and>
       suber_ok w2 (t_max_length ?b) (d' n) \<and>
       suber_objects (d' n) = suber_objects (subers_of w t n) \<and>
       suber_queues (d' n) = suber_queues (subers_of w t n) \<and> suber_reads (d' n) = suber_reads (subers_of w t n)"
    by (rule dispatch_subscribers_ok [OF s1(1) assms(3) s1(2) s1pre, of ts fc isr]) (rule that; simp only: s14)
  let ?b' = "?b\<lparr>t_subers := (t_subers ?b)\<lparr>node_data := d'\<rparr>, t_data := data, t_timestamp := ts\<rparr>"
  define w' where "w' = set_block t ?b' w2"
  have env2: "tw_blocks w2 = tw_blocks w1s" "sizeof_suber w2 = sizeof_suber w1s" "tw_crc8 w2 = tw_crc8 w1s"
    using d(2) same_but_env_fields [of w1s w2] by (simp_all add: changes_def)
  have "publish_raw fuel t addr (length bs) ts fc isr w = Some w'"
  proof -
    have "check_publish_size b1 (length bs)" using pub(2) b1(6,7) by (simp add: check_publish_size_def)
    moreover have "b1\<lparr>t_data := data, t_timestamp := ts, t_subers := (t_subers b1)\<lparr>node_data := d'\<rparr>\<rparr> =
        b1\<lparr>t_subers := (t_subers ?b)\<lparr>node_data := d'\<rparr>, t_data := data, t_timestamp := ts\<rparr>"
      using b1(3) by simp
    ultimately show ?thesis
      using b1(1) st(1) d(1) b1(2) [of ts data "(t_subers ?b)\<lparr>node_data := d'\<rparr>"]
      unfolding publish_raw_def w0_def [symmetric] w1s_def [symmetric] 
      by (cases fc; simp add: s1(3) w'_def w1s_def w0_def)
  qed
  moreover have blocks: "tw_blocks w' = (tw_blocks w)(t := ?b')"
    using env2(1) env1(1) by (simp add: w'_def w1s_def w0_def)
  moreover have sz: "sizeof_suber w' = sizeof_suber w"
    using env2(2) env1(2) by (simp add: w'_def w1s_def w0_def)
  moreover have "tw_crc8 w' = tw_crc8 w" using env2(3) env1(3) by (simp add: w'_def w1s_def w0_def)
  moreover have "topic_ok w' t ns"
    unfolding topic_ok_def
  proof (intro conjI)
    show "topic_free (tw_blocks w' t)" using ok(1) by (simp add: blocks topic_free_def split: option.splits)
    have objs: "all_objects d' ns = all_objects (subers_of w t) ns" using d(5) by (simp add: all_objects_def)
    have "separate d' ns" using ok(2) d(5) by (simp add: subers_ok_def Let_def separate_def)
    then show "subers_ok w' t ns" using ok(2) d(5) sz by (simp add: subers_ok_def Let_def blocks linked_def w'_def)
    have "t_cache ?b \<longrightarrow> buffer_ok w2 (t_max_length ?b) data"
      using st(6) st(5) object_bytes_frame(2) [OF d(2), of data] by (simp add: w1s_def)
    then show "cache_ok w' t ns" using st(5) objs by (simp add: cache_ok_def Let_def blocks w'_def)
  qed
  moreover have "tw_runs w' = tw_runs w @ concat (map (\<lambda>n. callback_marks ts bs (fc \<and> isr) (subers_of w t n)) ns)"
    using d(3) st(3) by (simp add: w'_def w1s_def w0_def)
  moreover note d(4)
  moreover have "\<forall>n \<in> set ns. suber_view w' (d' n) = received ts bs (suber_view w (subers_of w t n)) \<and>
       suber_objects (d' n) = suber_objects (subers_of w t n) \<and>
       suber_queues (d' n) = suber_queues (subers_of w t n) \<and> suber_reads (d' n) = suber_reads (subers_of w t n)"
    using d(5) frame0(1) by (simp add: w'_def w1s_def)
  moreover have "message_at w' data bs"
    using message_at_frame [OF s1(2) d(2) st(5)] by (simp add: w'_def)
  moreover have "rd_addr data = (if t_cache ?b then rd_addr (t_data ?b) else addr)" using st(6,7) by simp
  moreover have "\<forall>a. a \<notin> all_objects (subers_of w t) ns \<and> (t_cache ?b \<longrightarrow> a \<notin> set_option (rd_addr (t_data ?b)))
       \<longrightarrow> tw_mem w' a = tw_mem w a"
    using d(2) st(2) by (simp add: changes_def w'_def w1s_def w0_def split: if_splits)
  ultimately show thesis using that sz by blast
qed

end
