(* ===== verification/Topic_Runs.thy ===== *)
theory Topic_Runs
  imports Topic_Delivery
begin

text \<open>
  A topic in use. A publisher with a variable of its own publishes and overwrites, subscribers wait, read
  and pop, a reader dumps the last message into a buffer: whatever the sequence, the code answers as the
  abstract topic does, which has only the views of the subscribers and the last message. From it follow
  the rules that users rely on: an asynchronous subscriber keeps the first message after
  \<open>StartWaiting\<close>, and a cached message survives that the publisher reuses its variable.
\<close>

section \<open>Users of a topic\<close>

datatype topic_op =
    Op_Publish "u8 list" u64 bool bool
  | Op_Overwrite "u8 list"
  | Op_Start nat
  | Op_Available nat
  | Op_Get nat
  | Op_Pop nat
  | Op_Dump size_limit_mode "u8 list"

datatype topic_reply =
    R_None
  | R_Bool bool
  | R_Bytes "u8 list"
  | R_Item "queue_item option"
  | R_Dump error_code "u8 list" "u64 option"

definition set_suber :: "nat \<Rightarrow> nat \<Rightarrow> suber \<Rightarrow> topic_world \<Rightarrow> topic_world" where
  "set_suber t n s w = set_block t ((tw_blocks w t)\<lparr>t_subers := (t_subers (tw_blocks w t))\<lparr>node_data :=
     (subers_of w t)(n := s)\<rparr>\<rparr>) w"

definition set_object :: "nat \<Rightarrow> u8 list \<Rightarrow> topic_world \<Rightarrow> topic_world" where
  "set_object a bs w = w\<lparr>tw_mem := (tw_mem w)(a \<mapsto> bs)\<rparr>"

text \<open>\<open>p\<close> is the publisher's variable and \<open>b\<close> the buffer for dumps.\<close>

fun run_topic_op :: "nat \<Rightarrow> nat \<Rightarrow> nat \<Rightarrow> nat \<Rightarrow> topic_op \<Rightarrow> topic_world \<Rightarrow> (topic_world \<times> topic_reply) option" where
  "run_topic_op fuel p b t (Op_Publish bs ts fc isr) w =
     map_option (\<lambda>w1. (w1, R_None)) (publish_raw fuel t (Some p) (length bs) ts fc isr (set_object p bs w))"
| "run_topic_op fuel p b t (Op_Overwrite bs) w = Some (set_object p bs w, R_None)"
| "run_topic_op fuel p b t (Op_Start n) w =
     (case subers_of w t n of ASYNC a \<Rightarrow> Some (set_suber t n (ASYNC (async_start_waiting a)) w, R_None) | _ \<Rightarrow> None)"
| "run_topic_op fuel p b t (Op_Available n) w =
     (case subers_of w t n of ASYNC a \<Rightarrow> Some (w, R_Bool (async_available a)) | _ \<Rightarrow> None)"
| "run_topic_op fuel p b t (Op_Get n) w =
     (case subers_of w t n of
        ASYNC a \<Rightarrow> (case async_get_data a of (a1, ref) \<Rightarrow> do {
          x \<leftarrow> ref;
          bs \<leftarrow> tw_mem w x;
          Some (set_suber t n (ASYNC a1) w, R_Bytes bs)
        })
      | _ \<Rightarrow> None)"
| "run_topic_op fuel p b t (Op_Pop n) w =
     (case subers_of w t n of
        QUEUE q f \<Rightarrow> do {
          (queue, ec, item) \<leftarrow> lfq_pop 0 (tw_queues w q) (Data_Item []);
          Some (w\<lparr>tw_queues := (tw_queues w)(q := queue)\<rparr>, R_Item (if ec = OK then Some item else None))
        }
      | _ \<Rightarrow> None)"
| "run_topic_op fuel p b t (Op_Dump mode buf) w = do {
     (w1, ec, ts) \<leftarrow> dump_payload mode t \<lparr>rd_addr = Some b, rd_size = length buf\<rparr> (set_object b buf w);
     bs \<leftarrow> tw_mem w1 b;
     Some (w1, R_Dump ec bs ts)
   }"

fun run_topic_ops :: "nat \<Rightarrow> nat \<Rightarrow> nat \<Rightarrow> nat \<Rightarrow> topic_op list \<Rightarrow> topic_world \<Rightarrow> (topic_world \<times> topic_reply list) option"
where
  "run_topic_ops fuel p b t [] w = Some (w, [])"
| "run_topic_ops fuel p b t (op # ops) w = do {
     (w1, r) \<leftarrow> run_topic_op fuel p b t op w;
     (w2, rs) \<leftarrow> run_topic_ops fuel p b t ops w1;
     Some (w2, r # rs)
   }"

section \<open>The abstract topic\<close>

record abs_topic =
  av_views :: "nat \<Rightarrow> sub_view"
  av_last :: "(u8 list \<times> u64) option"
  av_marks :: "callback_mark list"

fun view_marks :: "u64 \<Rightarrow> u8 list \<Rightarrow> bool \<Rightarrow> sub_view \<Rightarrow> callback_mark list" where
  "view_marks ts bs isr (V_Callback cb) = callback_marks ts bs isr (CALLBACK cb)"
| "view_marks ts bs isr _ = []"

definition abs_dump :: "size_limit_mode \<Rightarrow> u8 list \<Rightarrow> (u8 list \<times> u64) option \<Rightarrow> topic_reply" where
  "abs_dump mode buf last_message =
     (case last_message of
        None \<Rightarrow> R_Dump EMPTY buf None
      | Some (bs, ts) \<Rightarrow>
          if mode = LIMIT_EQUAL \<and> length bs \<noteq> length buf \<or> mode = LIMIT_LESS \<and> length bs < length buf \<or>
             mode = LIMIT_MORE \<and> length bs > length buf
          then R_Dump SIZE_ERR buf None
          else R_Dump OK (blit buf 0 (if mode = LIMIT_LESS then take (length buf) bs else bs)) (Some ts))"

text \<open>\<open>cached\<close> says whether the topic keeps a copy; without one the last message is what the
  variable of the publisher holds now.\<close>

fun abs_op :: "bool \<Rightarrow> nat list \<Rightarrow> topic_op \<Rightarrow> abs_topic \<Rightarrow> abs_topic \<times> topic_reply" where
  "abs_op cached ns (Op_Publish bs ts fc isr) A =
     (A\<lparr>av_views := (\<lambda>n. if n \<in> set ns then received ts bs (av_views A n) else av_views A n), av_last := Some (bs, ts),
        av_marks := av_marks A @ concat (map (\<lambda>n. view_marks ts bs (fc \<and> isr) (av_views A n)) ns)\<rparr>, R_None)"
| "abs_op cached ns (Op_Overwrite bs) A =
     (if cached then A else A\<lparr>av_last := map_option (\<lambda>(old, ts). (take (length old) bs, ts)) (av_last A)\<rparr>, R_None)"
| "abs_op cached ns (Op_Start n) A =
     (case av_views A n of
        V_Async buf ts st \<Rightarrow> (A\<lparr>av_views := (av_views A)(n :=
          V_Async buf ts (if st = ASYNC_IDLE then ASYNC_WAITING else st))\<rparr>, R_None)
      | _ \<Rightarrow> (A, R_None))"
| "abs_op cached ns (Op_Available n) A =
     (A, case av_views A n of V_Async buf ts st \<Rightarrow> R_Bool (st = DATA_READY) | _ \<Rightarrow> R_None)"
| "abs_op cached ns (Op_Get n) A =
     (case av_views A n of
        V_Async buf ts st \<Rightarrow> (A\<lparr>av_views := (av_views A)(n :=
          V_Async buf ts (if st = DATA_READY then ASYNC_IDLE else st))\<rparr>, R_Bytes buf)
      | _ \<Rightarrow> (A, R_None))"
| "abs_op cached ns (Op_Pop n) A =
     (case av_views A n of
        V_Queue (x # items) cap f \<Rightarrow> (A\<lparr>av_views := (av_views A)(n := V_Queue items cap f)\<rparr>, R_Item (Some x))
      | _ \<Rightarrow> (A, R_Item None))"
| "abs_op cached ns (Op_Dump mode buf) A = (A, abs_dump mode buf (av_last A))"

fun abs_ops :: "bool \<Rightarrow> nat list \<Rightarrow> topic_op list \<Rightarrow> abs_topic \<Rightarrow> abs_topic \<times> topic_reply list" where
  "abs_ops cached ns [] A = (A, [])"
| "abs_ops cached ns (op # ops) A =
     (let (A1, r) = abs_op cached ns op A; (A2, rs) = abs_ops cached ns ops A1 in (A2, r # rs))"

text \<open>What the users owe. \<open>cfg\<close> is the block of the topic, of which only the constant part counts.\<close>

fun view_reads :: "sub_view \<Rightarrow> nat" where
  "view_reads (V_Queue items cap f) = queue_fun_size f"
| "view_reads (V_Callback cb) = payload_size cb"
| "view_reads _ = 0"

fun topic_op_allowed :: "topic_block \<Rightarrow> nat list \<Rightarrow> topic_op \<Rightarrow> abs_topic \<Rightarrow> bool" where
  "topic_op_allowed cfg ns (Op_Publish bs ts fc isr) A \<longleftrightarrow> check_publish_size cfg (length bs) \<and>
     (fc \<longrightarrow> t_mutex cfg = None) \<and> (\<forall>n \<in> set ns. view_reads (av_views A n) \<le> length bs)"
| "topic_op_allowed cfg ns (Op_Overwrite bs) A \<longleftrightarrow> (case av_last A of None \<Rightarrow> True | Some (old, ts) \<Rightarrow> length old \<le> length bs)"
| "topic_op_allowed cfg ns (Op_Start n) A \<longleftrightarrow> n \<in> set ns \<and> (case av_views A n of V_Async _ _ _ \<Rightarrow> True | _ \<Rightarrow> False)"
| "topic_op_allowed cfg ns (Op_Available n) A \<longleftrightarrow> n \<in> set ns \<and> (case av_views A n of V_Async _ _ _ \<Rightarrow> True | _ \<Rightarrow> False)"
| "topic_op_allowed cfg ns (Op_Get n) A \<longleftrightarrow> n \<in> set ns \<and> (case av_views A n of V_Async _ _ _ \<Rightarrow> True | _ \<Rightarrow> False)"
| "topic_op_allowed cfg ns (Op_Pop n) A \<longleftrightarrow> n \<in> set ns \<and> (case av_views A n of V_Queue _ _ _ \<Rightarrow> True | _ \<Rightarrow> False)"
| "topic_op_allowed cfg ns (Op_Dump mode buf) A \<longleftrightarrow> mode \<noteq> LIMIT_NONE \<or>
     (case av_last A of None \<Rightarrow> True | Some (bs, ts) \<Rightarrow> length bs \<le> length buf)"

fun topic_ops_allowed :: "topic_block \<Rightarrow> nat list \<Rightarrow> topic_op list \<Rightarrow> abs_topic \<Rightarrow> bool" where
  "topic_ops_allowed cfg ns [] A \<longleftrightarrow> True"
| "topic_ops_allowed cfg ns (op # ops) A \<longleftrightarrow> topic_op_allowed cfg ns op A \<and>
     topic_ops_allowed cfg ns ops (fst (abs_op (t_cache cfg) ns op A))"

section \<open>The relation\<close>

definition same_config :: "topic_block \<Rightarrow> topic_block \<Rightarrow> bool" where
  "same_config b c \<longleftrightarrow> t_max_length b = t_max_length c \<and> t_check_length b = t_check_length c \<and>
     t_cache b = t_cache c \<and> (t_mutex b = None) = (t_mutex c = None)"

definition last_holds :: "topic_world \<Rightarrow> nat \<Rightarrow> nat \<Rightarrow> (u8 list \<times> u64) option \<Rightarrow> bool" where
  "last_holds w t p last_message \<longleftrightarrow> (let b = tw_blocks w t in
     case last_message of
       None \<Rightarrow> rd_addr (t_data b) = None
     | Some (bs, ts) \<Rightarrow> (\<exists>a m. rd_addr (t_data b) = Some a \<and> tw_mem w a = Some m \<and> rd_size (t_data b) = length bs \<and>
         length bs \<le> length m \<and> take (length bs) m = bs \<and> t_timestamp b = ts \<and> (\<not> t_cache b \<longrightarrow> a = p)))"

text \<open>The variable and the buffer belong to nobody else.\<close>

definition own_object :: "topic_world \<Rightarrow> nat \<Rightarrow> nat list \<Rightarrow> nat \<Rightarrow> bool" where
  "own_object w t ns a \<longleftrightarrow> a \<notin> all_objects (subers_of w t) ns \<and>
     (t_cache (tw_blocks w t) \<longrightarrow> rd_addr (t_data (tw_blocks w t)) \<noteq> Some a)"

definition topic_is :: "topic_world \<Rightarrow> nat \<Rightarrow> nat list \<Rightarrow> nat \<Rightarrow> nat \<Rightarrow> topic_block \<Rightarrow> abs_topic \<Rightarrow> bool" where
  "topic_is w t ns p b cfg A \<longleftrightarrow> topic_ok w t ns \<and> same_config (tw_blocks w t) cfg \<and>
     (\<forall>n \<in> set ns. suber_view w (subers_of w t n) = av_views A n) \<and> tw_runs w = av_marks A \<and>
     last_holds w t p (av_last A) \<and> own_object w t ns p \<and> own_object w t ns b \<and> p \<noteq> b"


lemma set_object_changes: "changes {a} {} w (set_object a bs w)"
  by (simp add: changes_def set_object_def)

lemma set_object_fields [simp]: "tw_blocks (set_object a bs w) = tw_blocks w" "tw_runs (set_object a bs w) = tw_runs w"
  "tw_mem (set_object a bs w) = (tw_mem w)(a \<mapsto> bs)" "sizeof_suber (set_object a bs w) = sizeof_suber w"
  by (simp_all add: set_object_def)

text \<open>Writing an object that belongs to nobody.\<close>

lemma set_object_frame:
  assumes "own_object w t ns a"
  shows "topic_ok w t ns \<Longrightarrow> topic_ok (set_object a bs w) t ns"
    "n \<in> set ns \<Longrightarrow> suber_view (set_object a bs w) (subers_of w t n) = suber_view w (subers_of w t n)"
proof -
  have sub: "suber_view (set_object a bs w) (subers_of w t n) = suber_view w (subers_of w t n)"
    "suber_ok (set_object a bs w) m (subers_of w t n) = suber_ok w m (subers_of w t n)" if "n \<in> set ns" for n m
  proof -
    have "suber_objects (subers_of w t n) \<inter> {a} = {}" using assms that by (auto simp: own_object_def all_objects_def)
    then show "suber_view (set_object a bs w) (subers_of w t n) = suber_view w (subers_of w t n)"
      "suber_ok (set_object a bs w) m (subers_of w t n) = suber_ok w m (subers_of w t n)"
      using suber_frame [OF set_object_changes] by simp_all
  qed
  then show "n \<in> set ns \<Longrightarrow> suber_view (set_object a bs w) (subers_of w t n) = suber_view w (subers_of w t n)" by simp
  assume ok: "topic_ok w t ns"
  have "t_cache (tw_blocks w t) \<longrightarrow> buffer_ok (set_object a bs w) m (t_data (tw_blocks w t)) =
      buffer_ok w m (t_data (tw_blocks w t))" for m
    using assms by (auto simp: own_object_def buffer_ok_def)
  then show "topic_ok (set_object a bs w) t ns"
    using ok sub(2) by (simp add: topic_ok_def subers_ok_def cache_ok_def Let_def)
qed

lemma view_reads_suber [simp]: "view_reads (suber_view w s) = suber_reads s"
  by (cases s) simp_all

lemma view_marks_suber: "view_marks ts bs isr (suber_view w s) = callback_marks ts bs isr s"
  by (cases s) simp_all

lemma last_holds_cong:
  assumes "tw_blocks w' t = tw_blocks w t" "\<forall>a. rd_addr (t_data (tw_blocks w t)) = Some a \<longrightarrow> tw_mem w' a = tw_mem w a"
  shows "last_holds w' t p x = last_holds w t p x"
proof (cases x)
  case (Some y)
  obtain bs ts where y: "y = (bs, ts)" by force
  show ?thesis by (auto simp: Some y last_holds_def Let_def assms)
qed (simp add: last_holds_def assms(1))

lemma run_publish:
  assumes "topic_is w t ns p b cfg A" "topic_op_allowed cfg ns (Op_Publish bs ts fc isr) A" "length ns < fuel"
  shows "\<exists>w'. run_topic_op fuel p b t (Op_Publish bs ts fc isr) w = Some (w', R_None) \<and>
    topic_is w' t ns p b cfg (fst (abs_op (t_cache cfg) ns (Op_Publish bs ts fc isr) A)) \<and>
    tw_crc8 w' = tw_crc8 w \<and> t_crc32 (tw_blocks w' t) = t_crc32 (tw_blocks w t)"
proof -
  let ?w = "set_object p bs w" and ?b = "tw_blocks w t"
  have is_: "topic_ok w t ns" "same_config ?b cfg" "\<forall>n \<in> set ns. suber_view w (subers_of w t n) = av_views A n"
    "tw_runs w = av_marks A" "own_object w t ns p" "own_object w t ns b" "p \<noteq> b"
    using assms(1) by (simp_all add: topic_is_def)
  have views: "suber_view ?w (subers_of w t n) = av_views A n" "suber_reads (subers_of w t n) = view_reads (av_views A n)"
    "callback_marks ts bs i (subers_of w t n) = view_marks ts bs i (av_views A n)" if "n \<in> set ns" for n i
    using set_object_frame(2) [OF is_(5) that] is_(3) that
    by (simp_all, metis view_reads_suber, metis view_marks_suber)
  have "may_publish ?w t ns (Some p) bs fc"
    using assms(2) is_(2,5) views(2)
    by (simp add: may_publish_def message_at_def own_object_def check_publish_size_def same_config_def Let_def)
  then obtain w' d' data where w': "publish_raw fuel t (Some p) (length bs) ts fc isr ?w = Some w'"
    "tw_blocks w' = (tw_blocks ?w)(t := (tw_blocks ?w t)\<lparr>t_subers := (t_subers (tw_blocks ?w t))\<lparr>node_data := d'\<rparr>,
       t_data := data, t_timestamp := ts\<rparr>)"
    "topic_ok w' t ns"
    "tw_runs w' = tw_runs ?w @ concat (map (\<lambda>n. callback_marks ts bs (fc \<and> isr) (subers_of ?w t n)) ns)"
    "\<forall>n \<in> set ns. suber_view w' (d' n) = received ts bs (suber_view ?w (subers_of ?w t n)) \<and>
       suber_objects (d' n) = suber_objects (subers_of ?w t n) \<and>
       suber_queues (d' n) = suber_queues (subers_of ?w t n) \<and> suber_reads (d' n) = suber_reads (subers_of ?w t n)"
    "message_at w' data bs"
    "rd_addr data = (if t_cache (tw_blocks ?w t) then rd_addr (t_data (tw_blocks ?w t)) else Some p)"
    "\<forall>a. a \<notin> all_objects (subers_of ?w t) ns \<and>
       (t_cache (tw_blocks ?w t) \<longrightarrow> a \<notin> set_option (rd_addr (t_data (tw_blocks ?w t)))) \<longrightarrow> tw_mem w' a = tw_mem ?w a"
    "tw_crc8 w' = tw_crc8 ?w"
    by (rule publish_raw_ok [OF set_object_frame(1) [OF is_(5,1), of bs] _ assms(3), of "Some p" bs fc ts isr]) (rule that; assumption)
  have objs: "all_objects d' ns = all_objects (subers_of w t) ns" using w'(5) by (simp add: all_objects_def)
  have marks: "map (\<lambda>n. callback_marks ts bs (fc \<and> isr) (subers_of w t n)) ns =
      map (\<lambda>n. view_marks ts bs (fc \<and> isr) (av_views A n)) ns" using views(3) by simp
  have "\<exists>a m. rd_addr data = Some a \<and> tw_mem w' a = Some m \<and> (\<not> t_cache ?b \<longrightarrow> a = p)"
  proof (cases "t_cache ?b")
    case True
    then show ?thesis using w'(2,3) by (auto simp: topic_ok_def cache_ok_def buffer_ok_def Let_def)
  next
    case False
    then show ?thesis using w'(7,8) is_(5) by (simp add: own_object_def)
  qed
  then obtain a m where a: "rd_addr data = Some a" "tw_mem w' a = Some m" "\<not> t_cache ?b \<longrightarrow> a = p" by blast
  have "take (length bs) m = bs" using w'(6) a by (auto simp: message_at_def)
  then have last: "last_holds w' t p (Some (bs, ts))"
    using a w'(2) message_at_length [OF w'(6)] by (auto simp: last_holds_def Let_def) (metis nat_le_linear take_all)
  have "topic_is w' t ns p b cfg (fst (abs_op (t_cache cfg) ns (Op_Publish bs ts fc isr) A))"
    unfolding topic_is_def
    using w'(2,3,4,5,7) is_(2-7) views(1) last objs marks
    by (auto simp: same_config_def own_object_def)
  moreover have "tw_crc8 w' = tw_crc8 w" using w'(9) by (simp add: set_object_def)
  ultimately show ?thesis using w'(1,2) by auto
qed


lemma run_overwrite:
  assumes "topic_is w t ns p b cfg A" "topic_op_allowed cfg ns (Op_Overwrite bs) A"
  shows "topic_is (set_object p bs w) t ns p b cfg (fst (abs_op (t_cache cfg) ns (Op_Overwrite bs) A))"
proof -
  have is_: "topic_ok w t ns" "same_config (tw_blocks w t) cfg" "\<forall>n \<in> set ns. suber_view w (subers_of w t n) = av_views A n"
    "tw_runs w = av_marks A" "last_holds w t p (av_last A)" "own_object w t ns p" "own_object w t ns b" "p \<noteq> b"
    using assms(1) by (simp_all add: topic_is_def)
  have "last_holds (set_object p bs w) t p (if t_cache cfg then av_last A
      else map_option (\<lambda>(old, ts). (take (length old) bs, ts)) (av_last A))"
    using is_(2,5,6) assms(2)
    by (auto simp: last_holds_def Let_def same_config_def own_object_def split: option.splits)
  then show ?thesis
    using is_ set_object_frame(1) [OF is_(6,1), of bs] set_object_frame(2) [OF is_(6), of _ bs]
    by (auto simp: topic_is_def own_object_def)
qed

text \<open>Replacing the block of one subscriber.\<close>

lemma set_suber_ok:
  assumes "topic_ok w t ns" "n \<in> set ns" "suber_objects s = suber_objects (subers_of w t n)"
    "suber_queues s = suber_queues (subers_of w t n)" "suber_ok w (t_max_length (tw_blocks w t)) s"
  shows "topic_ok (set_suber t n s w) t ns"
proof -
  have "all_objects ((subers_of w t)(n := s)) ns = all_objects (subers_of w t) ns"
    using assms(3) by (auto simp: all_objects_def split: if_splits)
  moreover have "separate ((subers_of w t)(n := s)) ns"
    using assms(1,3,4) by (simp add: topic_ok_def subers_ok_def Let_def separate_def)
  ultimately show ?thesis
    using assms(1,5) by (simp add: topic_ok_def topic_free_def subers_ok_def cache_ok_def set_suber_def Let_def
        linked_def split: option.splits)
qed

lemma set_suber_is:
  assumes "topic_is w t ns p b cfg A" "n \<in> set ns" "suber_objects s = suber_objects (subers_of w t n)"
    "suber_queues s = suber_queues (subers_of w t n)" "suber_ok w (t_max_length (tw_blocks w t)) s"
    "suber_view w s = v"
  shows "topic_is (set_suber t n s w) t ns p b cfg (A\<lparr>av_views := (av_views A)(n := v)\<rparr>)"
proof -
  have "all_objects ((subers_of w t)(n := s)) ns = all_objects (subers_of w t) ns"
    using assms(3) by (auto simp: all_objects_def split: if_splits)
  moreover have "topic_ok (set_suber t n s w) t ns"
    using set_suber_ok assms by (simp add: topic_is_def)
  moreover have "last_holds (set_suber t n s w) t p x = last_holds w t p x" for x
    by (cases x; simp add: last_holds_def set_suber_def Let_def split: prod.split)
  ultimately show ?thesis
    using assms(1,6) by (simp add: topic_is_def set_suber_def same_config_def own_object_def)
qed

lemma run_async:
  assumes "topic_is w t ns p b cfg A" "topic_op_allowed cfg ns op A" "op \<in> {Op_Start n, Op_Available n, Op_Get n}"
  shows "\<exists>w'. run_topic_op fuel p b t op w = Some (w', snd (abs_op (t_cache cfg) ns op A)) \<and>
    topic_is w' t ns p b cfg (fst (abs_op (t_cache cfg) ns op A))"
proof -
  have n: "n \<in> set ns" "case av_views A n of V_Async _ _ _ \<Rightarrow> True | _ \<Rightarrow> False" using assms(2,3) by auto
  have v: "av_views A n = suber_view w (subers_of w t n)" using assms(1) n(1) by (simp add: topic_is_def)
  obtain a where a: "subers_of w t n = ASYNC a"
    using n(2) unfolding v by (cases "subers_of w t n") simp_all
  note a = a v [unfolded a, simplified]
  have ok: "suber_ok w (t_max_length (tw_blocks w t)) (ASYNC a)"
    using assms(1) n(1) a(1) by (auto simp: topic_is_def topic_ok_def subers_ok_def Let_def)
  then obtain x bs where x: "rd_addr (as_buff a) = Some x" "tw_mem w x = Some bs" by (auto simp: buffer_ok_def)
  have set_: "topic_is (set_suber t n (ASYNC a1) w) t ns p b cfg (A\<lparr>av_views := (av_views A)(n :=
      V_Async (object_bytes w (as_buff a)) (as_timestamp a1) (as_state a1))\<rparr>)" if "as_buff a1 = as_buff a" for a1
    by (rule set_suber_is [OF assms(1) n(1)]) (use a(1) ok that in simp_all)
  have "(av_views A)(n := av_views A n) = av_views A" by simp
  show ?thesis
    using assms(3) a x set_ [of "async_start_waiting a"] set_ [of "fst (async_get_data a)"] assms(1)
    by (auto simp: async_start_waiting_def async_get_data_def async_available_def object_bytes_def)
qed


lemma run_pop:
  assumes "topic_is w t ns p b cfg A" "topic_op_allowed cfg ns (Op_Pop n) A"
  shows "\<exists>w'. run_topic_op fuel p b t (Op_Pop n) w = Some (w', snd (abs_op (t_cache cfg) ns (Op_Pop n) A)) \<and>
    topic_is w' t ns p b cfg (fst (abs_op (t_cache cfg) ns (Op_Pop n) A))"
proof -
  have n: "n \<in> set ns" "case av_views A n of V_Queue _ _ _ \<Rightarrow> True | _ \<Rightarrow> False" using assms(2) by auto
  have v: "av_views A n = suber_view w (subers_of w t n)" using assms(1) n(1) by (simp add: topic_is_def)
  obtain q f where qf: "subers_of w t n = QUEUE q f"
    using n(2) unfolding v by (cases "subers_of w t n") simp_all
  note vq = v [unfolded qf, simplified]
  let ?q = "tw_queues w q"
  have wf: "lfq_wf ?q" using assms(1) n(1) qf by (auto simp: topic_is_def topic_ok_def subers_ok_def Let_def)
  show ?thesis
  proof (cases "lfq_contents ?q")
    case Nil
    then have "lfq_pop 0 ?q (Data_Item []) = Some (?q, EMPTY, Data_Item [])" using lfq.pop_none [OF wf] by simp
    then show ?thesis using assms(1) qf vq Nil by simp
  next
    case (Cons x items)
    then obtain q' where q': "lfq_pop 0 ?q (Data_Item []) = Some (q', OK, x)" "lfq_wf q'" "lfq_contents q' = items"
      "lfq_LENGTH q' = lfq_LENGTH ?q" using lfq.pop_some [OF wf _ Cons, where y = "Data_Item []" and k = 0] by auto
    define w' where "w' = w\<lparr>tw_queues := (tw_queues w)(q := q')\<rparr>"
    have ch: "changes {} {q} w w'" by (simp add: changes_def w'_def)
    have other: "suber_view w' (subers_of w t k) = suber_view w (subers_of w t k)"
      "suber_ok w' m (subers_of w t k) = suber_ok w m (subers_of w t k)" if "k \<in> set ns" "k \<noteq> n" for k m
    proof -
      have "separate (subers_of w t) ns" using assms(1) by (simp add: topic_is_def topic_ok_def subers_ok_def Let_def)
      then have "suber_queues (subers_of w t k) \<inter> suber_queues (subers_of w t n) = {}"
        unfolding separate_def using that n(1) by blast
      then have disj: "suber_queues (subers_of w t k) \<inter> {q} = {}" using qf by simp
      then show "suber_view w' (subers_of w t k) = suber_view w (subers_of w t k)"
        "suber_ok w' m (subers_of w t k) = suber_ok w m (subers_of w t k)"
        using suber_frame [OF ch _ disj] by simp_all
    qed
    have mine: "suber_view w' (subers_of w t n) = V_Queue items (lfq_LENGTH ?q) f" "suber_ok w' m (subers_of w t n)" for m
      using qf q' by (simp_all add: w'_def)
    have okw: "suber_ok w' m (subers_of w t k)" if "k \<in> set ns" "suber_ok w m (subers_of w t k)" for k m
      using that other(2) mine(2) by (cases "k = n") simp_all
    have frame: "tw_blocks w' = tw_blocks w" "sizeof_suber w' = sizeof_suber w" "tw_mem w' = tw_mem w"
      "tw_runs w' = tw_runs w" by (simp_all add: w'_def)
    have "topic_ok w' t ns"
      using assms(1) okw by (auto simp: topic_is_def topic_ok_def subers_ok_def cache_ok_def buffer_ok_def Let_def frame)
    moreover have "\<forall>k \<in> set ns. suber_view w' (subers_of w t k) =
        ((av_views A)(n := V_Queue items (lfq_LENGTH ?q) f)) k"
      using assms(1) other(1) mine(1) by (simp add: topic_is_def)
    moreover have "last_holds w' t p x = last_holds w t p x" for x by (rule last_holds_cong) (simp_all add: frame)
    ultimately have "topic_is w' t ns p b cfg (A\<lparr>av_views := (av_views A)(n := V_Queue items (lfq_LENGTH ?q) f)\<rparr>)"
      using assms(1) by (simp add: topic_is_def own_object_def frame)
    then show ?thesis using q'(1) qf vq Cons by (simp add: w'_def)
  qed
qed

lemma lock_unlock:
  assumes "topic_free b"
  obtains b1 where "topic_lock b = Some b1" "topic_unlock b1 = b" "t_data b1 = t_data b" "t_timestamp b1 = t_timestamp b"
    "t_crc32 b1 = t_crc32 b"
proof (cases "t_mutex b")
  case None
  then show thesis using that [of "b\<lparr>t_busy := LOCKED\<rparr>"] assms
    by (cases b) (simp add: topic_free_def topic_lock_def topic_unlock_def)
next
  case (Some h)
  then show thesis using that [of "b\<lparr>t_mutex := Some True\<rparr>"] assms
    by (cases b) (simp add: topic_free_def topic_lock_def topic_unlock_def)
qed

lemma run_dump:
  assumes "topic_is w t ns p b cfg A" "topic_op_allowed cfg ns (Op_Dump mode buf) A"
  shows "\<exists>w'. run_topic_op fuel p b t (Op_Dump mode buf) w = Some (w', abs_dump mode buf (av_last A)) \<and>
    topic_is w' t ns p b cfg A"
proof -
  let ?b = "tw_blocks w t" and ?w = "set_object b buf w"
  have is_: "topic_ok w t ns" "last_holds w t p (av_last A)" "own_object w t ns b" "p \<noteq> b"
    using assms(1) by (simp_all add: topic_is_def)
  have keep: "topic_is (set_object b new w) t ns p b cfg A" for new
  proof -
    have "last_holds (set_object b new w) t p (av_last A)"
    proof (cases "rd_addr (t_data ?b) = Some b")
      case True
      then show ?thesis using is_(2,3,4) by (cases "av_last A") (auto simp: last_holds_def own_object_def Let_def)
    next
      case False
      have "last_holds (set_object b new w) t p (av_last A) = last_holds w t p (av_last A)"
        by (rule last_holds_cong) (use False in auto)
      then show ?thesis using is_(2) by simp
    qed
    then show ?thesis
      using assms(1) set_object_frame(1) [OF is_(3,1), of new] set_object_frame(2) [OF is_(3), of _ new]
      by (auto simp: topic_is_def own_object_def)
  qed
  show ?thesis
  proof (cases "av_last A")
    case None
    then have "rd_addr (t_data ?b) = None" using is_(2) by (simp add: last_holds_def)
    then show ?thesis using keep [of buf] None by (simp add: dump_payload_def abs_dump_def)
  next
    case (Some l)
    obtain bs ts where l: "l = (bs, ts)" by force
    obtain a m where a: "rd_addr (t_data ?b) = Some a" "tw_mem w a = Some m" "rd_size (t_data ?b) = length bs"
      "length bs \<le> length m" "take (length bs) m = bs" "t_timestamp ?b = ts"
      using is_(2) Some l by (auto simp: last_holds_def Let_def)
    have "a \<noteq> b" using a(1) is_(2,3,4) Some l by (auto simp: last_holds_def own_object_def Let_def)
    let ?k = "if mode = LIMIT_LESS then length buf else length bs"
    have free: "topic_free ?b" using is_(1) by (simp add: topic_ok_def)
    obtain b1 where b1: "topic_lock ?b = Some b1" "topic_unlock b1 = ?b" "t_data b1 = t_data ?b" "t_timestamp b1 = t_timestamp ?b"
      using lock_unlock [OF free] by blast
    have copy: "copy_object (Some b) (Some a) k (set_block t b1 ?w) =
        Some (set_block t b1 (set_object b (blit buf 0 (take k bs)) w))" if "k \<le> length bs" "k \<le> length buf" for k
    proof (cases "k = 0")
      case False
      have "take k m = take k bs" using a(5) that(1) by (metis min.absorb1 take_take)
      then show ?thesis using False a(2,4) that \<open>a \<noteq> b\<close>
        by (simp add: copy_object_def read_object_def array_copy_def set_object_def set_block_def)
    qed (simp add: copy_object_def set_object_def set_block_def)
    show ?thesis
    proof (cases "mode = LIMIT_EQUAL \<and> length bs \<noteq> length buf \<or> mode = LIMIT_LESS \<and> length bs < length buf \<or>
        mode = LIMIT_MORE \<and> length bs > length buf")
      case True
      then show ?thesis using a(1,3) keep [of buf] Some l by (auto simp: dump_payload_def abs_dump_def)
    next
      case False
      have unset: "set_block t ?b (set_block t b1 (set_object b new w)) = set_object b new w" for new
        by (simp add: set_block_def set_object_def)
      have dump: "dump_payload mode t \<lparr>rd_addr = Some b, rd_size = length buf\<rparr> ?w =
          Some (set_object b (blit buf 0 (take ?k bs)) w, OK, Some ts)"
      proof (cases "mode = LIMIT_LESS")
        case True
        then have "length buf \<le> length bs" using False by auto
        then show ?thesis using a(1,3,6) b1 copy [of "length buf"] unset True
          by (simp add: dump_payload_def Let_def)
      next
        case not_less: False
        then have "length bs \<le> length buf" using False assms(2) Some l by (cases mode) auto
        then show ?thesis using a(1,3,6) b1 copy [of "length bs"] unset False not_less
          by (auto simp: dump_payload_def Let_def)
      qed
      have "abs_dump mode buf (av_last A) = R_Dump OK (blit buf 0 (take ?k bs)) (Some ts)"
        using False by (simp add: abs_dump_def Some l)
      then show ?thesis using dump keep [of "blit buf 0 (take ?k bs)"] by simp
    qed
  qed
qed


section \<open>Properties\<close>

lemma run_op_ok:
  assumes "topic_is w t ns p b cfg A" "topic_op_allowed cfg ns op A" "length ns < fuel"
  shows "\<exists>w'. run_topic_op fuel p b t op w = Some (w', snd (abs_op (t_cache cfg) ns op A)) \<and>
    topic_is w' t ns p b cfg (fst (abs_op (t_cache cfg) ns op A))"
proof (cases op)
  case (Op_Publish bs ts fc isr)
  obtain w' where "run_topic_op fuel p b t op w = Some (w', R_None)" "topic_is w' t ns p b cfg (fst (abs_op (t_cache cfg) ns op A))"
    using run_publish [OF assms(1) _ assms(3), of bs ts fc isr] assms(2) unfolding Op_Publish by blast
  then show ?thesis by (simp add: Op_Publish)
next
  case (Op_Overwrite bs)
  then show ?thesis using run_overwrite [OF assms(1), of bs] assms(2) by simp
next
  case (Op_Pop n)
  then show ?thesis using run_pop [OF assms(1)] assms(2) by blast
next
  case (Op_Dump mode buf)
  then show ?thesis using run_dump [OF assms(1), of mode buf] assms(2) by simp
qed (use run_async [OF assms(1,2)] in blast)+

lemma run_ops_ok:
  "topic_is w t ns p b cfg A \<Longrightarrow> topic_ops_allowed cfg ns ops A \<Longrightarrow> length ns < fuel \<Longrightarrow>
    \<exists>w'. run_topic_ops fuel p b t ops w = Some (w', snd (abs_ops (t_cache cfg) ns ops A)) \<and>
    topic_is w' t ns p b cfg (fst (abs_ops (t_cache cfg) ns ops A))"
proof (induction ops arbitrary: w A)
  case (Cons op ops)
  obtain w1 where w1: "run_topic_op fuel p b t op w = Some (w1, snd (abs_op (t_cache cfg) ns op A))"
    "topic_is w1 t ns p b cfg (fst (abs_op (t_cache cfg) ns op A))"
    using run_op_ok [OF Cons.prems(1) _ Cons.prems(3)] Cons.prems(2) by auto
  then show ?case using Cons.IH [OF w1(2) _ Cons.prems(3)] Cons.prems(2)
    by (fastforce simp: Let_def split: prod.splits)
qed simp


text \<open>A topic with an asynchronous subscriber, a queue and a callback.\<close>

definition example_topic :: topic_world where
  "example_topic = \<lparr>
     tw_mem = [1 \<mapsto> [0, 0], 2 \<mapsto> [9, 9], 3 \<mapsto> [7, 7]],
     tw_queues = (\<lambda>_. \<lparr>lfq_head = 0, lfq_tail = 0, lfq_LENGTH = 1, queue_handle = [Data_Item [], Data_Item []]\<rparr>),
     tw_runs = [],
     tw_blocks = (\<lambda>_. \<lparr>t_busy = UNLOCKED,
       t_subers = \<lparr>node_next = [0 \<mapsto> 5, 5 \<mapsto> 6, 6 \<mapsto> 7, 7 \<mapsto> 0], node_size = (\<lambda>_. 16),
         node_data = (\<lambda>n. if n = 5 then ASYNC \<lparr>as_buff = \<lparr>rd_addr = Some 1, rd_size = 2\<rparr>, as_timestamp = 0,
             as_state = ASYNC_IDLE\<rparr>
           else if n = 6 then QUEUE 0 (Push_Message 2) else CALLBACK (Payload_Only 4 Raw_Payload)),
         head_node = 0\<rparr>,
       t_max_length = 2, t_crc32 = 0, t_mutex = None, t_data = \<lparr>rd_addr = None, rd_size = 0\<rparr>, t_timestamp = 0,
       t_cache = False, t_check_length = False\<rparr>),
     tw_domains = (\<lambda>_. rb_new \<lparr>rb_root = None, rb_key = (\<lambda>_. 0), rb_color = (\<lambda>_. RED), rb_left = Map.empty,
       rb_right = Map.empty, rb_parent = Map.empty, rb_size = (\<lambda>_. 0), rb_mutex = False\<rparr>),
     tw_registry = None, tw_default = None, tw_fresh = 100, tw_crc32 = crc_fresh, tw_crc8 = crc_fresh,
     sizeof_suber = 4, sizeof_kind = (\<lambda>_. 16), sizeof_topic = 64, sizeof_tree = 32\<rparr>"

definition example_views :: abs_topic where
  "example_views = \<lparr>
     av_views = (\<lambda>n. if n = 5 then V_Async [0, 0] 0 ASYNC_IDLE else if n = 6 then V_Queue [] 1 (Push_Message 2)
       else V_Callback (Payload_Only 4 Raw_Payload)),
     av_last = None, av_marks = []\<rparr>"

lemma example_topic_is: "topic_is example_topic 50 [5, 6, 7] 2 3 (tw_blocks example_topic 50) example_views"
  by (simp add: topic_is_def topic_ok_def topic_free_def subers_ok_def cache_ok_def same_config_def last_holds_def
      own_object_def linked_def separate_def all_objects_def buffer_ok_def lfq_wf_def lfq_contents_def lfq_size_def
      object_bytes_def example_topic_def example_views_def Let_def)



section \<open>Consequences for the users\<close>

lemma abs_ops_replies:
  "snd (abs_ops cached ns [] A) = []"
  "snd (abs_ops cached ns (op # ops) A) =
     snd (abs_op cached ns op A) # snd (abs_ops cached ns ops (fst (abs_op cached ns op A)))"
  "snd (abs_ops cached ns (ops1 @ ops2) A) =
     snd (abs_ops cached ns ops1 A) @ snd (abs_ops cached ns ops2 (fst (abs_ops cached ns ops1 A)))"
proof -
  show "snd (abs_ops cached ns [] A) = []" by simp
  show cons: "snd (abs_ops cached ns (op # ops) A) =
     snd (abs_op cached ns op A) # snd (abs_ops cached ns ops (fst (abs_op cached ns op A)))" for op ops A
    by (simp add: Let_def split: prod.split)
  show "snd (abs_ops cached ns (ops1 @ ops2) A) =
     snd (abs_ops cached ns ops1 A) @ snd (abs_ops cached ns ops2 (fst (abs_ops cached ns ops1 A)))"
  proof (induction ops1 arbitrary: A)
    case (Cons op ops1)
    have "fst (abs_ops cached ns (op # ops1) A) = fst (abs_ops cached ns ops1 (fst (abs_op cached ns op A)))"
      by (simp add: Let_def split: prod.split)
    then show ?case using Cons.IH by (simp only: cons append_Cons)
  qed simp
qed

lemma ready_view_stays:
  assumes "av_views A n = V_Async buf ts DATA_READY" "Op_Get n \<notin> set ops"
  shows "av_views (fst (abs_ops cached ns ops A)) n = V_Async buf ts DATA_READY"
  using assms
proof (induction ops arbitrary: A)
  case (Cons op ops)
  have "av_views (fst (abs_op cached ns op A)) n = V_Async buf ts DATA_READY"
    using Cons.prems by (cases op) (auto split: sub_view.split list.split)
  then show ?case using Cons.IH Cons.prems(2) by (simp add: Let_def split: prod.splits) (metis fst_conv)
qed simp

text \<open>An asynchronous subscriber that starts waiting gets the next message and keeps it, whatever is published
  afterwards, until it asks for it.\<close>

lemma async_keeps_first_message:
  fixes n :: nat and bs :: "u8 list" and ts :: u64 and fc isr :: bool and ops :: "topic_op list"
  defines "all_ops \<equiv> Op_Start n # Op_Publish bs ts fc isr # ops @ [Op_Available n, Op_Get n]"
  assumes "topic_is w t ns p b cfg A" and "topic_ops_allowed cfg ns all_ops A" and "length ns < fuel"
    and "av_views A n = V_Async buf ts0 ASYNC_IDLE" and "Op_Get n \<notin> set ops"
  shows "\<exists>w' rs. run_topic_ops fuel p b t all_ops w = Some (w', rs @ [R_Bool True, R_Bytes (blit buf 0 bs)])"
proof -
  have n: "n \<in> set ns" using assms(3) by (simp add: all_ops_def)
  let ?A = "fst (abs_op (t_cache cfg) ns (Op_Publish bs ts fc isr) (fst (abs_op (t_cache cfg) ns (Op_Start n) A)))"
  have "av_views ?A n = V_Async (blit buf 0 bs) ts DATA_READY" using assms(5) n by simp
  then have "av_views (fst (abs_ops (t_cache cfg) ns ops ?A)) n = V_Async (blit buf 0 bs) ts DATA_READY"
    by (rule ready_view_stays) fact
  then have "snd (abs_ops (t_cache cfg) ns all_ops A) = (snd (abs_op (t_cache cfg) ns (Op_Start n) A) #
      R_None # snd (abs_ops (t_cache cfg) ns ops ?A)) @ [R_Bool True, R_Bytes (blit buf 0 bs)]"
    unfolding all_ops_def abs_ops_replies by simp
  then show ?thesis using run_ops_ok [OF assms(2-4)] by auto
qed

lemma cached_last_stays:
  "\<forall>op \<in> set ops. \<not> (\<exists>bs ts fc isr. op = Op_Publish bs ts fc isr) \<Longrightarrow>
    av_last (fst (abs_ops True ns ops A)) = av_last A"
proof (induction ops arbitrary: A)
  case (Cons op ops)
  have "av_last (fst (abs_op True ns op A)) = av_last A"
    using Cons.prems by (cases op) (auto split: sub_view.split list.split)
  then show ?case using Cons.IH Cons.prems by (simp add: Let_def split: prod.splits) (metis fst_conv)
qed simp

text \<open>The last message of a topic with a cache can be dumped although the publisher has reused its variable.\<close>

lemma cached_message_survives:
  fixes bs buf :: "u8 list" and ts :: u64 and fc isr :: bool and ops :: "topic_op list"
  defines "all_ops \<equiv> Op_Publish bs ts fc isr # ops @ [Op_Dump LIMIT_MORE buf]"
  assumes "topic_is w t ns p b cfg A" and "topic_ops_allowed cfg ns all_ops A" and "length ns < fuel" and "t_cache cfg"
    and "\<forall>op \<in> set ops. \<not> (\<exists>bs ts fc isr. op = Op_Publish bs ts fc isr)" and "length bs \<le> length buf"
  shows "\<exists>w' rs. run_topic_ops fuel p b t all_ops w = Some (w', rs @ [R_Dump OK (blit buf 0 bs) (Some ts)])"
proof -
  let ?A = "fst (abs_op True ns (Op_Publish bs ts fc isr) A)"
  have "av_last (fst (abs_ops True ns ops ?A)) = Some (bs, ts)" using cached_last_stays [OF assms(6), of ns ?A] by simp
  then have "snd (abs_ops True ns all_ops A) = (R_None # snd (abs_ops True ns ops ?A)) @
      [R_Dump OK (blit buf 0 bs) (Some ts)]"
    using assms(7) unfolding all_ops_def abs_ops_replies by (simp add: abs_dump_def)
  then show ?thesis using run_ops_ok [OF assms(2-4)] assms(5) by auto
qed

section \<open>Where the code differs from its documentation\<close>

text \<open>Enabling the cache allocates a buffer but does not copy the message that was published before, whose
  size and time stamp stay: \<open>DumpData\<close> then returns \<open>OK\<close> with the contents of fresh memory.\<close>

theorem enable_cache_loses_message:
  assumes "topic_is w t ns p b cfg A" and "\<not> t_cache cfg" and "av_last A = Some (bs, ts)" and "bs \<noteq> []"
    and "length bs \<le> t_max_length cfg" and "length buf = length bs" and "b \<noteq> tw_fresh w"
  shows "\<exists>w1 w2. enable_cache junk t w = Some w1 \<and>
    run_topic_op fuel p b t (Op_Dump LIMIT_EQUAL buf) w1 = Some (w2, R_Dump OK (map junk [0..<length bs]) (Some ts))"
proof -
  let ?b = "tw_blocks w t"
  have free: "topic_free ?b" and cfg: "\<not> t_cache ?b" "length bs \<le> t_max_length ?b"
    using assms(1,2,5) by (simp_all add: topic_is_def topic_ok_def same_config_def)
  obtain a where data: "rd_addr (t_data ?b) = Some a" "rd_size (t_data ?b) = length bs" "t_timestamp ?b = ts"
    using assms(1,3) by (auto simp: topic_is_def last_holds_def Let_def)
  let ?b1 = "?b\<lparr>t_cache := True, t_data := (t_data ?b)\<lparr>rd_addr := Some (tw_fresh w)\<rparr>\<rparr>"
  define w1 where "w1 = set_block t ?b1
    (w\<lparr>tw_mem := (tw_mem w)(tw_fresh w \<mapsto> map junk [0..<t_max_length ?b]), tw_fresh := Suc (tw_fresh w)\<rparr>)"
  have e: "enable_cache junk t w = Some w1"
    using free cfg(1) by (cases ?b) (auto simp: enable_cache_def w1_def topic_lock_def topic_unlock_def topic_free_def
        Let_def split: option.splits)
  have "topic_free ?b1" using free by (simp add: topic_free_def split: option.splits)
  then obtain b2 where b2: "topic_lock ?b1 = Some b2" "topic_unlock b2 = ?b1" "t_data b2 = t_data ?b1"
    "t_timestamp b2 = t_timestamp ?b1" by (rule lock_unlock)
  have "take (length bs) (map junk [0..<t_max_length ?b]) = map junk [0..<length bs]"
    using cfg(2) by (simp add: take_map)
  moreover have "blit buf 0 (map junk [0..<length bs]) = map junk [0..<length bs]"
    using assms(6) by (simp add: blit_def)
  ultimately show ?thesis
    using e b2 data cfg(2) assms(4,6,7)
    by (simp add: w1_def dump_payload_def copy_object_def read_object_def array_copy_def Let_def set_object_def set_block_def)
qed

end
