(* ===== verification/Topic_Registry.thy ===== *)
theory Topic_Registry
  imports Topic_Delivery
begin

text \<open>
  Domains and topics by name, and the topic map of a server: red-black trees from the check sum of a name
  to a node. As a map from keys to nodes a tree is searched and extended; the comparison subtracts keys
  as signed numbers, so the statements are about keys of one half of the range.
\<close>

section \<open>A tree as a map\<close>

definition tree_map :: "nat \<Rightarrow> u32 rbt \<Rightarrow> nat \<Rightarrow> (u32 \<rightharpoonup> nat) \<Rightarrow> bool" where
  "tree_map sz tree fresh M \<longleftrightarrow> (\<exists>xs. tree_holds sz tree xs \<and> distinct (map snd xs) \<and>
     (\<forall>(x, k) \<in> set xs. x < fresh \<and> small_id k) \<and> (\<forall>x k. (x, k) \<in> set xs \<longleftrightarrow> M k = Some x))"

lemma topic_compare_event: "topic_compare = event_compare"
  by (simp add: fun_eq_iff topic_compare_def event_compare_def)

lemma tree_map_new: "tree_map sz (rb_new s) fresh Map.empty"
  unfolding tree_map_def by (rule exI [of _ "[]"]) (simp add: rb_new_holds)

lemma tree_map_below: "tree_map sz tree fresh M \<Longrightarrow> M k = Some x \<Longrightarrow> x < fresh"
  by (fastforce simp: tree_map_def)

lemma tree_map_later: "tree_map sz tree fresh M \<Longrightarrow> fresh \<le> fresh' \<Longrightarrow> tree_map sz tree fresh' M"
  unfolding tree_map_def by (fastforce elim!: ex_forward)

lemma tree_map_search:
  assumes "tree_map sz tree fresh M" "small_id key"
  shows "rb_search topic_compare sz key tree = Some (tree, M key)"
proof -
  obtain xs where xs: "tree_holds sz tree xs" "\<forall>(x, k) \<in> set xs. x < fresh \<and> small_id k"
    "\<forall>x k. (x, k) \<in> set xs \<longleftrightarrow> M k = Some x" using assms(1) by (auto simp: tree_map_def)
  have "compares event_compare key (snd ` set xs)" using assms(2) xs(2) by (intro event_compares) auto
  then obtain r where r: "rb_search event_compare sz key tree = Some (tree, r)" "found_ok xs key r"
    using tree.search_law [OF xs(1)] by blast
  have "r = M key"
  proof (cases r)
    case None
    then have "(x, key) \<notin> set xs" for x using r(2) by (force simp: found_ok_def)
    then show ?thesis using xs(3) None by (metis option.exhaust)
  next
    case (Some x)
    then show ?thesis using r(2) xs(3) by (simp add: found_ok_def)
  qed
  then show ?thesis using r(1) by (simp add: topic_compare_event)
qed

lemma distinct_put_node:
  assumes "distinct (map snd xs)" "k \<notin> snd ` set xs"
  shows "distinct (map snd (put_node n k xs))"
proof -
  have "distinct (map snd (takeWhile P xs @ dropWhile P xs))" for P using assms(1) by simp
  then have "distinct (map snd (takeWhile P xs) @ map snd (dropWhile P xs))" for P by (simp only: map_append)
  moreover have "k \<notin> snd ` set (takeWhile P xs)" "k \<notin> snd ` set (dropWhile P xs)" for P
    using assms(2) by (auto dest: set_takeWhileD set_dropWhileD)
  ultimately show ?thesis by (auto simp: put_node_def)
qed

lemma tree_map_insert:
  assumes "tree_map sz tree fresh M" "small_id key" "M key = None"
  obtains tree' where "insert_new topic_compare sz fresh key tree = Some tree'"
    "tree_map sz tree' (Suc fresh) (M(key \<mapsto> fresh))"
proof -
  obtain xs where xs: "tree_holds sz tree xs" "distinct (map snd xs)" "\<forall>(x, k) \<in> set xs. x < fresh \<and> small_id k"
    "\<forall>x k. (x, k) \<in> set xs \<longleftrightarrow> M k = Some x" using assms(1) by (auto simp: tree_map_def)
  have new: "key \<notin> snd ` set xs" using assms(3) xs(4) by auto
  have "compares event_compare key (snd ` set xs)" using assms(2) xs(3) by (intro event_compares) auto
  moreover have "fresh \<notin> fst ` set xs" using xs(3) by force
  ultimately obtain tree' where tree': "insert_new event_compare sz fresh key tree = Some tree'"
    "tree_holds sz tree' (put_node fresh key xs)" using tree.insert_law [OF xs(1)] by blast
  have "tree_map sz tree' (Suc fresh) (M(key \<mapsto> fresh))"
    unfolding tree_map_def
  proof (intro exI [of _ "put_node fresh key xs"] conjI)
    show "\<forall>(x, k) \<in> set (put_node fresh key xs). x < Suc fresh \<and> small_id k"
      using xs(3) assms(2) by (auto simp: less_Suc_eq)
    have "(x, k) \<in> set xs \<Longrightarrow> k \<noteq> key" for x k using new by force
    then show "\<forall>x k. (x, k) \<in> set (put_node fresh key xs) \<longleftrightarrow> (M(key \<mapsto> fresh)) k = Some x"
      using xs(4) by auto
  qed (rule tree'(2) distinct_put_node [OF xs(2) new])+
  then show thesis using that tree'(1) by (simp add: topic_compare_event)
qed

section \<open>The topics of a domain\<close>

definition name_key :: "u8 list \<Rightarrow> u32" where
  "name_key name = crc_ref 0xEDB88320 0xFFFFFFFF name"

definition domain_is :: "topic_world \<Rightarrow> nat \<Rightarrow> (u32 \<rightharpoonup> nat) \<Rightarrow> bool" where
  "domain_is w d M \<longleftrightarrow> crc_ok 0xEDB88320 (tw_crc32 w) \<and> tree_map (sizeof_topic w) (tw_domains w d) (tw_fresh w) M"

lemma name_crc_eq:
  "crc_ok 0xEDB88320 (tw_crc32 w) \<Longrightarrow>
    name_crc name w = Some (w\<lparr>tw_crc32 := crc32_ready (tw_crc32 w)\<rparr>, name_key name)"
  by (simp add: name_crc_def crc32_calculate_eq name_key_def)

text \<open>A lookup changes nothing but the lazily built table of the check sum.\<close>

lemma topic_find_ok:
  assumes "domain_is w d M" "small_id (name_key name)"
  shows "topic_find name (Some d) w = Some (w\<lparr>tw_crc32 := crc32_ready (tw_crc32 w)\<rparr>, M (name_key name))"
    and "domain_is (w\<lparr>tw_crc32 := crc32_ready (tw_crc32 w)\<rparr>) d M"
  using assms tree_map_search [of "sizeof_topic w" "tw_domains w d" "tw_fresh w" M "name_key name"]
  by (simp_all add: domain_is_def topic_find_def name_crc_eq)


abbreviation crc_prepared :: "topic_world \<Rightarrow> topic_world" where
  "crc_prepared w \<equiv> w\<lparr>tw_crc32 := crc32_ready (tw_crc32 w)\<rparr>"

lemma enable_cache_eq:
  assumes "topic_free (tw_blocks w t)" "\<not> t_cache (tw_blocks w t)"
  shows "enable_cache junk t w = Some (set_block t ((tw_blocks w t)\<lparr>t_cache := True,
      t_data := (t_data (tw_blocks w t))\<lparr>rd_addr := Some (tw_fresh w)\<rparr>\<rparr>)
    (w\<lparr>tw_mem := (tw_mem w)(tw_fresh w \<mapsto> map junk [0..<t_max_length (tw_blocks w t)]), tw_fresh := Suc (tw_fresh w)\<rparr>))"
  using assms by (cases "tw_blocks w t")
    (auto simp: enable_cache_def topic_lock_def topic_unlock_def topic_free_def Let_def split: option.splits)

lemma topic_new_fresh:
  assumes "domain_is w d M" "small_id (name_key name)" "M (name_key name) = None"
  obtains w' where "topic_new junk_tree junk name n (Some d) multi cache check w = Some (w', tw_fresh w)"
    "domain_is w' d (M(name_key name \<mapsto> tw_fresh w))" "topic_ok w' (tw_fresh w) []"
    "t_max_length (tw_blocks w' (tw_fresh w)) = n" "t_check_length (tw_blocks w' (tw_fresh w)) = check"
    "t_cache (tw_blocks w' (tw_fresh w)) = cache" "(t_mutex (tw_blocks w' (tw_fresh w)) = None) = (\<not> multi)"
    "t_crc32 (tw_blocks w' (tw_fresh w)) = name_key name"
    "\<forall>t. t \<noteq> tw_fresh w \<longrightarrow> tw_blocks w' t = tw_blocks w t"
    "\<forall>e. e \<noteq> d \<longrightarrow> tw_domains w' e = tw_domains w e"
proof -
  let ?t = "tw_fresh w" and ?key = "name_key name"
  have dom: "crc_ok 0xEDB88320 (tw_crc32 w)" "tree_map (sizeof_topic w) (tw_domains w d) ?t M"
    using assms(1) by (simp_all add: domain_is_def)
  obtain tree where tree: "insert_new topic_compare (sizeof_topic w) ?t ?key (tw_domains w d) = Some tree"
    "tree_map (sizeof_topic w) tree (Suc ?t) (M(?key \<mapsto> ?t))"
    using tree_map_insert [OF dom(2) assms(2,3)] by blast
  let ?b = "new_topic_block (t_subers (tw_blocks w ?t)) ?t n ?key multi check"
  define w3 where "w3 = set_block ?t ?b ((crc_prepared w)\<lparr>tw_domains := (tw_domains w)(d := tree), tw_fresh := Suc ?t\<rparr>)"
  have b: "tw_blocks w3 ?t = ?b" "topic_free ?b" "\<not> t_cache ?b" "t_max_length ?b = n" "t_check_length ?b = check"
    "(t_mutex ?b = None) = (\<not> multi)" "t_crc32 ?b = ?key"
    by (simp_all add: w3_def new_topic_block_def topic_free_def)
  define w4 where "w4 = (if cache then the (enable_cache junk ?t w3) else w3)"
  have new: "topic_new junk_tree junk name n (Some d) multi cache check w = Some (w4, ?t)"
  proof -
    have "(if cache \<and> \<not> t_cache ?b then enable_cache junk ?t w3 else Some w3) = Some w4"
      using enable_cache_eq [of w3 ?t junk] b by (simp add: w4_def)
    then show ?thesis
      using name_crc_eq [OF dom(1)] tree_map_search [OF dom(2) assms(2)] tree(1) assms(3) b(1)
      by (simp add: topic_new_def Let_def w3_def [symmetric])
  qed
  have w4: "tw_blocks w4 ?t = (if cache then ?b\<lparr>t_cache := True, t_data := (t_data ?b)\<lparr>rd_addr := Some (Suc ?t)\<rparr>\<rparr> else ?b)"
    "tw_crc32 w4 = crc32_ready (tw_crc32 w)" "tw_domains w4 = (tw_domains w)(d := tree)"
    "tw_fresh w4 = (if cache then Suc (Suc ?t) else Suc ?t)" "sizeof_topic w4 = sizeof_topic w"
    "\<forall>t. t \<noteq> ?t \<longrightarrow> tw_blocks w4 t = tw_blocks w t"
    "cache \<longrightarrow> tw_mem w4 (Suc ?t) = Some (map junk [0..<n])"
    using enable_cache_eq [of w3 ?t junk] b by (auto simp: w4_def w3_def set_block_def)
  have "domain_is w4 d (M(?key \<mapsto> ?t))"
    using dom(1) tree_map_later [OF tree(2)] by (simp add: domain_is_def w4)
  moreover have "topic_ok w4 ?t []"
    using b(2) w4(1,7) by (simp add: topic_ok_def subers_ok_def cache_ok_def Let_def new_topic_block_def lf_list_new_def
        linked_def separate_def all_objects_def buffer_ok_def topic_free_def)
  ultimately show thesis using that [of w4] new w4 b by simp
qed

lemma topic_new_existing:
  assumes "domain_is w d M" "small_id (name_key name)" "M (name_key name) = Some t"
    "cache \<longrightarrow> t_cache (tw_blocks w t)"
  shows "topic_new junk_tree junk name n (Some d) multi cache check w =
    (if t_max_length (tw_blocks w t) = n \<and> t_check_length (tw_blocks w t) = check \<and>
        \<not> (multi \<and> t_mutex (tw_blocks w t) = None) then Some (crc_prepared w, t) else None)"
  using assms name_crc_eq [of w name] tree_map_search [of "sizeof_topic w" "tw_domains w d" "tw_fresh w" M "name_key name"]
  by (cases cache) (simp_all add: topic_new_def domain_is_def Let_def)


section \<open>Properties\<close>

text \<open>Topics by name. Creating a topic under a name that the domain does not have gives a fresh topic
  with the requested configuration and no subscribers; afterwards the name is found, other names answer
  as before, names with the same check sum are the same topic, and creating the topic again with the
  same lengths gives it back, while another length fails the assertion.\<close>

theorem topics_by_name:
  assumes "domain_is w d M" and "small_id (name_key name)" and "small_id (name_key other)"
    and "M (name_key name) = None"
  shows "\<exists>w' t. topic_new junk_tree junk name n (Some d) multi cache check w = Some (w', t) \<and>
    domain_is w' d (M(name_key name \<mapsto> t)) \<and> topic_ok w' t [] \<and>
    t_max_length (tw_blocks w' t) = n \<and> t_check_length (tw_blocks w' t) = check \<and> t_cache (tw_blocks w' t) = cache \<and>
    map_option snd (topic_find name (Some d) w') = Some (Some t) \<and>
    map_option snd (topic_find other (Some d) w') =
      Some (if name_key other = name_key name then Some t else M (name_key other)) \<and>
    map_option snd (topic_new junk_tree junk name n (Some d) multi cache check w') = Some t \<and>
    (n' \<noteq> n \<longrightarrow> topic_new junk_tree junk name n' (Some d) multi cache check w' = None)"
proof -
  obtain w' where w': "topic_new junk_tree junk name n (Some d) multi cache check w = Some (w', tw_fresh w)"
    "domain_is w' d (M(name_key name \<mapsto> tw_fresh w))" "topic_ok w' (tw_fresh w) []"
    "t_max_length (tw_blocks w' (tw_fresh w)) = n" "t_check_length (tw_blocks w' (tw_fresh w)) = check"
    "t_cache (tw_blocks w' (tw_fresh w)) = cache" "(t_mutex (tw_blocks w' (tw_fresh w)) = None) = (\<not> multi)"
    using topic_new_fresh [OF assms(1,2,4), of junk_tree junk n multi cache check] by metis
  have again: "topic_new junk_tree junk name k (Some d) multi cache check w' =
      (if k = n then Some (crc_prepared w', tw_fresh w) else None)" for k
    using topic_new_existing [OF w'(2) assms(2), of "tw_fresh w" cache junk_tree junk k multi check] w'(4-7) by auto
  show ?thesis
    using w' again topic_find_ok(1) [OF w'(2) assms(2)] topic_find_ok(1) [OF w'(2) assms(3)]
    by (intro exI [of _ w'] exI [of _ "tw_fresh w"]) simp
qed

text \<open>An empty domain at address 7.\<close>

definition empty_registry :: topic_world where
  "empty_registry = \<lparr>tw_mem = Map.empty,
     tw_queues = (\<lambda>_. \<lparr>lfq_head = 0, lfq_tail = 0, lfq_LENGTH = 1, queue_handle = [Data_Item [], Data_Item []]\<rparr>),
     tw_runs = [],
     tw_blocks = (\<lambda>t. new_topic_block \<lparr>node_next = Map.empty, node_size = (\<lambda>_. 0), node_data = (\<lambda>_. CALLBACK Empty_Callback),
       head_node = 0\<rparr> t 0 0 False False),
     tw_domains = (\<lambda>_. rb_new \<lparr>rb_root = None, rb_key = (\<lambda>_. 0), rb_color = (\<lambda>_. RED), rb_left = Map.empty,
       rb_right = Map.empty, rb_parent = Map.empty, rb_size = (\<lambda>_. 0), rb_mutex = False\<rparr>),
     tw_registry = None, tw_default = Some 7, tw_fresh = 100, tw_crc32 = crc_fresh, tw_crc8 = crc_fresh,
     sizeof_suber = 4, sizeof_kind = (\<lambda>_. 16), sizeof_topic = 64, sizeof_tree = 32\<rparr>"

lemma empty_domain: "domain_is empty_registry 7 Map.empty"
  by (simp add: domain_is_def empty_registry_def tree_map_new)

lemma crc_byte_eight: "crc_byte poly c b =
    crc_bit poly (crc_bit poly (crc_bit poly (crc_bit poly (crc_bit poly (crc_bit poly (crc_bit poly (crc_bit poly
      (c XOR ucast b))))))))"
  by (simp add: crc_byte_def eval_nat_numeral)

lemma example_key_values: "name_key [105] = 0x1993c98e" "name_key [100] = 0x6722b533"
  by (simp_all add: name_key_def crc_ref_def crc_byte_eight crc_bit_def)

lemma example_keys: "small_id (name_key [105])" "small_id (name_key [100])" "name_key [105] \<noteq> name_key [100]"
  by (simp_all add: example_key_values small_id_def)

theorem topics_by_name_witness:
  "\<exists>w' t. topic_new junk_tree junk [105] 8 (Some 7) True True False empty_registry = Some (w', t) \<and>
    topic_ok w' t [] \<and> map_option snd (topic_find [105] (Some 7) w') = Some (Some t) \<and>
    map_option snd (topic_find [100] (Some 7) w') = Some None"
  using topics_by_name [OF empty_domain example_keys(1,2), of junk_tree junk 8 True True False 9] example_keys(3) by auto

section \<open>Check sums on both sides of the range\<close>

text \<open>The names pose, quat, host, odom, motor, accl, gyro and cmd.\<close>

definition eight_names :: "u8 list list" where
  "eight_names = [
     [112, 111, 115, 101],
     [113, 117, 97, 116],
     [104, 111, 115, 116],
     [111, 100, 111, 109],
     [109, 111, 116, 111, 114],
     [97, 99, 99, 108],
     [103, 121, 114, 111],
     [99, 109, 100]]"

fun create_all :: "u8 list list \<Rightarrow> topic_world \<Rightarrow> topic_world option" where
  "create_all [] w = Some w"
| "create_all (name # names) w = do {
     (w1, t) \<leftarrow> topic_new blank_events (\<lambda>_. 0) name 8 (Some 7) False False False w;
     create_all names w1
   }"

text \<open>What this does to the tree of the domain.\<close>

fun grow_tree :: "nat \<Rightarrow> u32 list \<Rightarrow> nat \<Rightarrow> u32 rbt \<Rightarrow> u32 rbt option" where
  "grow_tree sz [] fresh tree = Some tree"
| "grow_tree sz (k # ks) fresh tree =
     (case rb_search topic_compare sz k tree of
        Some (tree1, None) \<Rightarrow> Option.bind (insert_new topic_compare sz fresh k tree1) (grow_tree sz ks (Suc fresh))
      | _ \<Rightarrow> None)"

lemma create_all_grows:
  assumes "crc_ok 0xEDB88320 (tw_crc32 w)"
    and "grow_tree (sizeof_topic w) (map name_key names) (tw_fresh w) (tw_domains w 7) = Some tree"
  obtains w' where "create_all names w = Some w'" "tw_domains w' 7 = tree" "crc_ok 0xEDB88320 (tw_crc32 w')"
    "sizeof_topic w' = sizeof_topic w"
  using assms
proof (induction names arbitrary: w thesis)
  case (Cons name names)
  obtain tree1 tree2 where t: "rb_search topic_compare (sizeof_topic w) (name_key name) (tw_domains w 7) = Some (tree1, None)"
    "insert_new topic_compare (sizeof_topic w) (tw_fresh w) (name_key name) tree1 = Some tree2"
    "grow_tree (sizeof_topic w) (map name_key names) (Suc (tw_fresh w)) tree2 = Some tree"
    using Cons.prems(3) by (auto split: option.splits bind_splits)
  obtain w1 where w1: "topic_new blank_events (\<lambda>_. 0) name 8 (Some 7) False False False w = Some (w1, tw_fresh w)"
    "tw_crc32 w1 = crc32_ready (tw_crc32 w)" "tw_domains w1 7 = tree2" "tw_fresh w1 = Suc (tw_fresh w)"
    "sizeof_topic w1 = sizeof_topic w"
    using t name_crc_eq [OF Cons.prems(2), of name]
    by (simp add: topic_new_def Let_def set_block_def new_topic_block_def)
  have "crc_ok 0xEDB88320 (tw_crc32 w1)" using w1(2) Cons.prems(2) by simp
  moreover have "grow_tree (sizeof_topic w1) (map name_key names) (tw_fresh w1) (tw_domains w1 7) = Some tree"
    using t(3) w1 by simp
  ultimately obtain w' where "create_all names w1 = Some w'" "tw_domains w' 7 = tree" "crc_ok 0xEDB88320 (tw_crc32 w')"
    "sizeof_topic w' = sizeof_topic w1" using Cons.IH by blast
  then show ?case using Cons.prems(1) w1 by simp
qed simp

lemma eight_keys: "map name_key eight_names = [
     0xcfc5b380, 0x748ca262, 0x30d8ec02, 0x2346cec7, 0x34acfbbf, 0x1d64d0eb, 0xe36edb3b, 0xd0a3e33f]"
  by (simp add: eight_names_def name_key_def crc_ref_def crc_byte_eight crc_bit_def)

lemma second_key: "name_key (eight_names ! 1) = 0x748ca262"
  using eight_keys by (simp add: eight_names_def)

lemma eight_keys_lose_one:
  "\<exists>tree tree'. grow_tree 64 [0xcfc5b380, 0x748ca262, 0x30d8ec02, 0x2346cec7, 0x34acfbbf, 0x1d64d0eb, 0xe36edb3b, 0xd0a3e33f]
      100 (tw_domains empty_registry 7) = Some tree \<and> rb_search topic_compare 64 0x748ca262 tree = Some (tree', None)"
  by (simp add: empty_registry_def rb_new_def insertion_steps topic_compare_def rb_search_def search_from.simps)

text \<open>The subtraction of two check sums overflows when they are more than half the range apart, and the order
  of the tree is none: eight topics are created and one of them, quat, is not found afterwards.\<close>

theorem created_topic_not_found:
  "\<exists>w. create_all eight_names empty_registry = Some w \<and>
    map_option snd (topic_find (eight_names ! 1) (Some 7) w) = Some None"
proof -
  obtain tree tree' where t: "grow_tree 64 (map name_key eight_names) 100 (tw_domains empty_registry 7) = Some tree"
    "rb_search topic_compare 64 (name_key (eight_names ! 1)) tree = Some (tree', None)"
    using eight_keys_lose_one unfolding eight_keys second_key by blast
  have e: "tw_fresh empty_registry = 100" "sizeof_topic empty_registry = 64" "crc_ok 0xEDB88320 (tw_crc32 empty_registry)"
    by (simp_all add: empty_registry_def)
  obtain w where w: "create_all eight_names empty_registry = Some w" "tw_domains w 7 = tree"
    "crc_ok 0xEDB88320 (tw_crc32 w)" "sizeof_topic w = 64"
    using create_all_grows [OF e(3), of eight_names tree] t(1) e by auto
  then show ?thesis using t(2) name_crc_eq [OF w(3), of "eight_names ! 1"] by (simp add: topic_find_def)
qed

end
