(* ===== verification/Topic_Network.thy ===== *)
theory Topic_Network
  imports Topic_Runs Topic_Registry Topic_Server
begin

text \<open>
  Topics across a byte stream: \<open>DumpPacket\<close> on one device, the parser of the server and the publication
  there on another. The server finds the topic of a packet in a map from name check sums to topics,
  which \<open>Register\<close> fills.
\<close>

section \<open>The topic map of a server\<close>

record topic_map =
  tm_tree :: "u32 rbt"
  tm_handle :: "nat \<Rightarrow> nat"
  tm_fresh :: nat

definition server_register :: "nat \<Rightarrow> nat \<Rightarrow> u32 \<Rightarrow> topic_map \<Rightarrow> topic_map option" where
  "server_register sz t key m = do {
     let node = tm_fresh m;
     tree \<leftarrow> insert_new topic_compare sz node key (tm_tree m);
     Some (m\<lparr>tm_tree := tree, tm_handle := (tm_handle m)(node := t), tm_fresh := Suc node\<rparr>)
   }"

definition topic_map_search :: "nat \<Rightarrow> topic_map \<Rightarrow> u32 \<Rightarrow> nat option" where
  "topic_map_search sz m key =
     (case rb_search topic_compare sz key (tm_tree m) of
        Some (_, Some node) \<Rightarrow> Some (tm_handle m node)
      | _ \<Rightarrow> None)"

definition topic_map_is :: "nat \<Rightarrow> topic_map \<Rightarrow> (u32 \<rightharpoonup> nat) \<Rightarrow> bool" where
  "topic_map_is sz m M \<longleftrightarrow> (\<exists>N. tree_map sz (tm_tree m) (tm_fresh m) N \<and> M = map_option (tm_handle m) \<circ> N)"

lemma topic_map_search_ok:
  assumes "topic_map_is sz m M" "small_id key"
  shows "topic_map_search sz m key = M key"
proof -
  obtain N where N: "tree_map sz (tm_tree m) (tm_fresh m) N" "M = map_option (tm_handle m) \<circ> N"
    using assms(1) by (auto simp: topic_map_is_def)
  show ?thesis using tree_map_search [OF N(1) assms(2)] by (simp add: topic_map_search_def N(2) split: option.split)
qed

text \<open>A topic that is not registered yet is found after \<open>Register\<close>, and the others as before.\<close>

lemma server_register_ok:
  assumes "topic_map_is sz m M" "small_id key" "M key = None"
  shows "\<exists>m'. server_register sz t key m = Some m' \<and> topic_map_is sz m' (M(key \<mapsto> t))"
proof -
  obtain N where N: "tree_map sz (tm_tree m) (tm_fresh m) N" "M = map_option (tm_handle m) \<circ> N"
    using assms(1) by (auto simp: topic_map_is_def)
  let ?n = "tm_fresh m"
  obtain tree where tree: "insert_new topic_compare sz ?n key (tm_tree m) = Some tree"
    "tree_map sz tree (Suc ?n) (N(key \<mapsto> ?n))"
    using tree_map_insert [OF N(1) assms(2)] assms(3) N(2) by auto
  let ?m = "m\<lparr>tm_tree := tree, tm_handle := (tm_handle m)(?n := t), tm_fresh := Suc ?n\<rparr>"
  have "M(key \<mapsto> t) = map_option (tm_handle ?m) \<circ> N(key \<mapsto> ?n)"
    using tree_map_below [OF N(1)] by (fastforce simp: N(2) fun_eq_iff intro!: option.map_cong)
  then have "topic_map_is sz ?m (M(key \<mapsto> t))" using tree(2) by (auto simp: topic_map_is_def)
  then show ?thesis using tree(1) by (simp add: server_register_def Let_def)
qed


section \<open>Packets of a topic\<close>

lemma crc8_update_frame [simp]:
  "suber_view (w\<lparr>tw_crc8 := st\<rparr>) s = suber_view w s" "suber_ok (w\<lparr>tw_crc8 := st\<rparr>) m s = suber_ok w m s"
  by (cases s; simp add: object_bytes_def buffer_ok_def split: option.split)+

lemma topic_is_crc8 [simp]: "topic_is (w\<lparr>tw_crc8 := st\<rparr>) t ns p b cfg A = topic_is w t ns p b cfg A"
proof -
  have "last_holds (w\<lparr>tw_crc8 := st\<rparr>) t p x = last_holds w t p x" for x by (rule last_holds_cong) simp_all
  then show ?thesis
    by (simp add: topic_is_def topic_ok_def subers_ok_def cache_ok_def own_object_def buffer_ok_def)
qed

lemma topic_is_own_buffer: "topic_is w t ns p b cfg A \<Longrightarrow> topic_is (set_object b new w) t ns p b cfg A"
proof -
  assume is_: "topic_is w t ns p b cfg A"
  then have own: "own_object w t ns b" "topic_ok w t ns" "last_holds w t p (av_last A)" "p \<noteq> b"
    by (simp_all add: topic_is_def)
  have "last_holds (set_object b new w) t p (av_last A)"
  proof (cases "rd_addr (t_data (tw_blocks w t)) = Some b")
    case True
    then show ?thesis using own by (cases "av_last A") (auto simp: last_holds_def own_object_def Let_def)
  next
    case False
    have "last_holds (set_object b new w) t p (av_last A) = last_holds w t p (av_last A)"
      by (rule last_holds_cong) (use False in auto)
    then show ?thesis using own(3) by simp
  qed
  then show ?thesis
    using is_ set_object_frame(1) [OF own(1,2), of new] set_object_frame(2) [OF own(1), of _ new]
    by (auto simp: topic_is_def own_object_def)
qed

lemma dump_packet_ok:
  assumes "topic_is w t ns p b cfg A" "av_last A = Some (bs, ts)" "crc_ok 0x8c (tw_crc8 w)"
    "size_limit_check mode (PACK_BASE_SIZE + length bs) (length buf)" "PACK_BASE_SIZE + length bs \<le> length buf"
  shows "\<exists>w'. dump_packet mode t \<lparr>rd_addr = Some b, rd_size = length buf\<rparr> (set_object b buf w) = Some (w', OK) \<and>
    tw_mem w' b = Some (packet (t_crc32 (tw_blocks w t)) ts bs @ drop (PACK_BASE_SIZE + length bs) buf) \<and>
    topic_is w' t ns p b cfg A"
proof -
  let ?b = "tw_blocks w t"
  have is_: "topic_ok w t ns" "last_holds w t p (Some (bs, ts))" "own_object w t ns b" "p \<noteq> b"
    using assms(1,2) by (simp_all add: topic_is_def)
  obtain a m where a: "rd_addr (t_data ?b) = Some a" "tw_mem w a = Some m" "rd_size (t_data ?b) = length bs"
    "length bs \<le> length m" "take (length bs) m = bs" "t_timestamp ?b = ts"
    using is_(2) by (auto simp: last_holds_def Let_def)
  have "a \<noteq> b" using a(1) is_(2,3,4) by (auto simp: last_holds_def own_object_def Let_def)
  obtain b1 where b1: "topic_lock ?b = Some b1" "topic_unlock b1 = ?b" "t_data b1 = t_data ?b"
    "t_timestamp b1 = t_timestamp ?b" "t_crc32 b1 = t_crc32 ?b"
    using lock_unlock is_(1) by (metis topic_ok_def)
  have read: "read_object (set_object b buf w) (Some a) (length bs) = Some bs"
    using a(2,4,5) \<open>a \<noteq> b\<close> by (simp add: read_object_def set_object_def)
  let ?new = "packet (t_crc32 ?b) ts bs @ drop (PACK_BASE_SIZE + length bs) buf"
  obtain st where st: "pack_data (tw_crc8 w) (t_crc32 ?b) buf ts bs = Some (st, ?new)"
    using pack_data_eq [OF assms(3,5), of "t_crc32 ?b" ts] by blast
  have crc: "tw_crc8 (set_object b buf w) = tw_crc8 w" by (simp add: set_object_def)
  define w' where "w' = (set_object b ?new w)\<lparr>tw_crc8 := st\<rparr>"
  have "set_block t ?b ((set_object b buf w)\<lparr>tw_mem := (tw_mem (set_object b buf w))(b \<mapsto> ?new), tw_crc8 := st\<rparr>) = w'"
    by (simp add: set_block_def set_object_def w'_def)
  then have "dump_packet mode t \<lparr>rd_addr = Some b, rd_size = length buf\<rparr> (set_object b buf w) = Some (w', OK)"
    using a(1,3,6) b1 read st assms(4) by (simp add: dump_packet_def Let_def crc del: set_object_fields(3)) (simp add: set_object_def)
  moreover have "topic_is w' t ns p b cfg A" using topic_is_own_buffer [OF assms(1)] by (simp add: w'_def)
  ultimately show ?thesis by (auto simp: w'_def)
qed


section \<open>From publisher to publisher\<close>

text \<open>\<open>ReadPayload\<close> publishes what the parser delivers, from the buffer \<open>q\<close> of the server.\<close>

fun publish_deliveries :: "nat \<Rightarrow> nat \<Rightarrow> bool \<Rightarrow> bool \<Rightarrow> nat delivery list \<Rightarrow> topic_world \<Rightarrow> topic_world option" where
  "publish_deliveries fuel q fc isr [] w = Some w"
| "publish_deliveries fuel q fc isr ((t, bs, ts) # ds) w = do {
     w1 \<leftarrow> publish_raw fuel t (Some q) (length bs) ts fc isr (set_object q bs w);
     publish_deliveries fuel q fc isr ds w1
   }"

lemma parse_packet:
  assumes "srv_inv search s" and "srv_status s = WAIT_START" and "srv_bytes s = []"
    and "search name = Some t" and "PACK_BASE_SIZE + length data = n"
    and "length data < 2 ^ 24" and "PACKET_PREFIX \<notin> set noise"
    and "length noise + n \<le> bq_length (srv_queue s)" and "bq_length (srv_queue s) < fuel"
  shows "\<exists>s'. parse_data_raw fuel search max_len s (noise @ packet name ts data) =
    Some (s', [(t, take (max_len t) data, ts)])"
proof -
  let ?buffer = "replicate n 0 :: u8 list"
  have len: "PACK_BASE_SIZE + length data = length ?buffer" using assms(5) by simp
  obtain st' where "pack_data crc_fresh name ?buffer ts data = Some (st', packet name ts data)"
    using pack_data_eq [of crc_fresh data ?buffer name ts] len by auto
  then show ?thesis
    using packed_data_is_delivered [where buffer = ?buffer and st = crc_fresh and ts = ts, OF assms(1-4) crc_fresh_ok len assms(6,7) _ assms(9)]
      assms(8) by auto
qed



definition example_map :: topic_map where
  "example_map = \<lparr>tm_tree = tw_domains example_topic 0, tm_handle = (\<lambda>_. 0), tm_fresh = 1\<rparr>"

lemma example_map_is: "topic_map_is 8 example_map Map.empty"
  unfolding topic_map_is_def
  by (rule exI [of _ Map.empty]) (simp add: example_map_def example_topic_def tree_map_new fun_eq_iff)

definition receiving_server :: "nat server" where
  "receiving_server = the (server_new 24 (replicate 24 0) (replicate 24 0) crc_fresh)"

lemma receiving_server:
  "srv_inv search receiving_server" "srv_status receiving_server = WAIT_START" "srv_bytes receiving_server = []"
  "bq_length (srv_queue receiving_server) = 24"
proof -
  have new: "server_new 24 (replicate 24 0) (replicate 24 0) crc_fresh = Some receiving_server"
    by (simp add: receiving_server_def server_new_def packet_sizes)
  show "srv_inv search receiving_server" "srv_bytes receiving_server = []" "bq_length (srv_queue receiving_server) = 24"
    using server_new_inv [OF new] by simp_all
  show "srv_status receiving_server = WAIT_START" by (simp add: receiving_server_def server_new_def packet_sizes)
qed



section \<open>Remote publications that fail\<close>

text \<open>\<open>ReadPayload\<close> cuts a long payload but lets a short one through: for a topic that checks the length a
  valid packet from the other side fails the assertion of \<open>CheckPublishSize\<close>.\<close>

lemma wrong_size_not_published:
  "\<not> check_publish_size (tw_blocks w t) n \<Longrightarrow> publish_raw fuel t addr n ts fc isr w = None"
  by (auto simp: publish_raw_def topic_lock_def topic_lock_from_callback_def check_publish_size_def Option.bind_eq_None_conv
      split: option.splits if_splits)

theorem short_packet_stops_receiver:
  assumes "srv_inv search s" and "srv_status s = WAIT_START" and "srv_bytes s = []"
    and "search name = Some t" and "length data < 2 ^ 24" and "PACKET_PREFIX \<notin> set noise"
    and "length noise + (PACK_BASE_SIZE + length data) \<le> bq_length (srv_queue s)" and "bq_length (srv_queue s) < fuel"
    and "t_check_length (tw_blocks w t)" and "length data < t_max_length (tw_blocks w t)"
  shows "\<exists>s' ds. parse_data_raw fuel search (\<lambda>t. t_max_length (tw_blocks w t)) s (noise @ packet name ts data) =
      Some (s', ds) \<and> publish_deliveries fuel' q fc isr ds w = None"
proof -
  obtain s' where s': "parse_data_raw fuel search (\<lambda>t. t_max_length (tw_blocks w t)) s (noise @ packet name ts data) =
      Some (s', [(t, take (t_max_length (tw_blocks w t)) data, ts)])"
    using parse_packet [OF assms(1-4) refl assms(5-8), of "\<lambda>t. t_max_length (tw_blocks w t)" ts] by blast
  have "publish_deliveries fuel' q fc isr [(t, take (t_max_length (tw_blocks w t)) data, ts)] w = None"
    using wrong_size_not_published [of "set_object q data w" t "length data" fuel' "Some q" ts fc isr] assms(9,10)
    by (simp add: check_publish_size_def)
  then show ?thesis using s' by blast
qed

text \<open>Without the length check a message may be shorter than the type of a queue subscriber, which reads
  \<open>sizeof(Data)\<close> bytes from it all the same.\<close>

lemma message_of_one_byte_overread:
  "run_topic_op 4 2 3 50 (Op_Publish [1] 10 False False) example_topic = None"
  by code_simp

end
