(* ===== verification/Spec2Isabelle.thy ===== *)
theory Spec2Isabelle
  imports Prelude Memory Fifo_Spec Base_Queue Stack_Array Crc Double_Buffer Timebase Linked_List
    Lock_Free_List Lock_Free_Queue Queue_Threads Lock_Free_Pool Pool_Threads Packet
    Topic_Server Async_Operation Read_Port Write_Port Flash_Device Key_Interface
    Database_Sequential Database_Recovery Raw_Database Raw_Image Raw_Recycle Raw_Operations
    Raw_Refinement Raw_Runs Red_Black_Tree Red_Black_Delete Ordered_Nodes Event_Manager
    Callbacks Flags Timer Topic Topic_Delivery Topic_Runs Topic_Registry Topic_Network
begin

text \<open>
  Verification of LibXR, a C++ run-time library for microcontrollers and Linux (src/).

  LibXR is a layered library. At the bottom are memory routines and containers that never allocate after
  start-up (src/src/core, src/src/structure); on them rest the asynchronous read and write ports through
  which every driver exchanges bytes with the application (src/src/core/libxr_rw.cpp), the middleware
  (publish-subscribe topics with a packet format for serial lines, a key-value database on flash) and
  utilities such as check sums. Drivers and operating systems are bound by the ports under
  src/driver and src/system, which call vendor code.

  Parts, theories and code:

    Prelude               machine integers, ErrorCode (core/libxr_def.hpp), block writes, rings
    Memory                FastCopy, FastSet, FastCmp of core/libxr_mem.cpp
    Fifo_Spec             the interface of a bounded queue (a locale) that the queues provide
    Base_Queue            BaseQueue and Queue of structure/queue.cpp and queue.hpp
    Stack_Array           Stack of structure/stack.hpp
    Double_Buffer         DoubleBuffer of structure/double_buffer.cpp
    Linked_List           List of structure/list.cpp, with foreach
    Lock_Free_List        LockFreeList of structure/lockfree_list.cpp, sequential and interleaved
    Lock_Free_Queue       LockFreeQueue of structure/lockfree_queue.hpp, every operation
    Queue_Threads         its Push and Pop as interleaved steps of a producer and consumers
    Lock_Free_Pool        LockFreePool of structure/lockfree_pool.hpp, every operation
    Pool_Threads          its Put, Get and RecycleSlot as interleaved steps of any number of threads
    Crc                   CRC8, CRC16, CRC32, CRC64 of utils/crc.hpp
    Timebase              time stamps of core/libxr_time.hpp, delays of driver/timebase.hpp
    Packet                the packet header and PackData of middleware/message/packet.cpp
    Topic_Server          Topic::Server of middleware/message/server.cpp: the packet parser
    Topic                 Topic of middleware/message: topic.cpp, publish.cpp, message.hpp, subscriber.hpp
    Topic_Delivery        what a publication does to the views of the subscribers
    Topic_Runs            a topic in use against an abstract topic
    Topic_Registry        domains and topics by name, on the red-black tree
    Topic_Network         topics over a stream: DumpPacket, the parser, the topic map of the server
    Async_Operation       Operation and AsyncBlockWait of core/libxr_rw.hpp
    Read_Port             ReadPort of core/libxr_rw.cpp
    Write_Port            WritePort and its Stream of core/libxr_rw.cpp
    Flash_Device          Flash of driver/flash.cpp, operations of src/driver/linux/linux_flash.hpp
    Key_Interface         Database and Database::Key of middleware/database.hpp (a locale)
    Database_Sequential   DatabaseRawSequential of middleware/database.cpp
    Database_Recovery     its Init, Restore and Save across restarts and power failures
    Raw_Database          DatabaseRaw of middleware/database.hpp, every operation
    Raw_Image             its flags, key headers and accesses to the flash
    Raw_Recycle           the layout of its blocks and Recycle
    Raw_Operations        searching, appending and setting a key on the layout
    Raw_Refinement        Get, Set, Add and Init on the map of the live entries (the same locale)
    Raw_Runs              runs of calls against an abstract key store, power cuts
    Red_Black_Tree        RBTree of structure/rbt.hpp: nodes and links, insertion, search, traversals
    Red_Black_Delete      its deletion
    Ordered_Nodes         the tree as a list of nodes in key order (a locale), runs of operations
    Event_Manager         Event of middleware/event.cpp on the tree and the lock-free list
    Callbacks             Callback and its blocks of core/libxr_cb.hpp, plain and guarded
    Flags                 the flags of utils/flag.hpp (a locale)
    Timer                 Timer of system/timer.cpp on the lock-free list

  How code becomes definitions. A class is a record of its members, an enumeration a datatype, a method a
  function from the record to a new record and its results. A failing assertion and an access outside an
  array are the result None, so that a theorem with Some also says that neither happens. Error codes are
  values. Integers whose width matters are words (time stamps, check sums, header fields, copied bytes);
  sizes and indices are natural numbers where an invariant keeps them below a bound, cut to 32 bits where
  the code stores them in uint32_t (BaseQueue::operator[], the constructors of the databases); the
  increment of the lock-free queue is taken below a capacity of 2 ^ 32. Linked structures are
  maps from node addresses to successors. Where threads or an interrupt handler meet, each access to
  shared memory is one step of a transition system with a program counter for each thread; memory is
  sequentially consistent. What the code takes from outside is a parameter: the readings of the counter,
  the backend of a port, the callbacks, the contents of fresh memory.

  What the lemmas show, by group. Containers: each operation is an operation of lists or multisets (Fifo_Spec
  states the queue contract once, and its facts hold for both queues) and stays inside its array where the
  theorem says Some; Queue::Overwrite, Stack::operator[] with a negative index and CRC32::Verify on short
  data do leave it, as lemmas show. Batches are all or nothing, also across the end of the ring. Interleaved containers:
  invariants over all reachable states give FIFO order without loss for one producer and one consumer,
  exclusive ownership of pool slots, no lost insertion in the lock-free list. Memory and check sums: the
  unrolled, word-wise and table-driven routines equal their byte-wise and bit-wise references. Packets:
  what PackData writes an idle parser with an empty queue delivers, behind noise that has no prefix byte
  0x5A and fits the queue with the packet, however the bytes are cut, and whatever it delivers is a packet
  with valid check sums. Topics: publications from one thread at a time reach exactly the subscribers that
  an abstract topic names, also across a stream to the topic of another device. Ports, when the other side
  is an interrupt that runs to its end, nobody calls Reset and no stream calls Discard: no byte is lost or
  reordered, and a blocked caller agrees with the completion about the outcome of its operation. Which
  operation a completion belongs to is recorded in ghost tickets of the write port (Write_Port), which no
  step of the code reads. Database: calls answer as
  a list of entries does, which survives restarts and, when the image fits into one erase unit, power
  failures between any two flash operations, where one Flash call counts as its unit-wise erasures and
  byte-wise writes (save_ops, a decomposition that the device makes, not database.cpp); the append-only
  store answers as a map that refuses a value exactly when its block has no room, and a recycling keeps
  the map. Red-black tree: the links are a tree taken apart at the node
  where the code works, rotations and fix-up loops are steps on such pairs, and together every run of
  operations answers as a sorted list does; events deliver to exactly the registered callbacks.

  Limits that the theorems name as hypotheses or that lemmas outside the property list demonstrate: two
  consumers of the lock-free queue can deliver an element twice (Queue_Threads), Reset races with a pending
  read, and a failing read_fun_ with the interrupts that served the read (Read_Port), a completion races
  with the arming of a writer (Write_Port), an image of several erase units can be torn
  (Database_Recovery), names are ASCII where char is signed, zero-free and shorter than 127 bytes, a power cut while a key is added empties the append-only store
  (Raw_Refinement), keys on both sides of 2 ^ 31 break the order of the tree and lose event registrations
  (Event_Manager) and topics (Topic_Registry), enabling the cache of a topic loses its last message
  (Topic_Runs), a short packet stops the receiver (Topic_Network), and a time base that wraps below 2 ^ 64
  ends delays early (Timebase).

  Termination and fuel. Loops over arrays, keys and bytes are total functions with a measure. Walks over
  linked lists and the compare-exchange retries of the lock-free pop take fuel; the theorems give the
  amount that suffices (the length of the list, one round when nothing interferes). The loops of the
  append-only store, of the red-black tree and the nested activations of events are partial functions, whose value None is an endless
  loop or a null pointer; the theorems show that they return. The delay loop reads
  the counter from a stream and returns when a reading is late enough.

  Not modelled. Floating-point code (PID, filters, kinematics, transforms on Eigen) because the available
  libraries have no IEEE arithmetic. The compile-time format compiler and the printer. Register-level
  drivers and the operating-system ports, which call vendor libraries and kernels that are not part of the
  repository. SyncSubscriber::Wait, threads that meet on one topic, and the parts listed as not
  modelled in the manifest.
\<close>

end
